(* ===== verification/Prelude.thy ===== *)
theory Prelude
  imports Main "HOL-Library.Word"
begin

unbundle bit_operations_syntax

section \<open>Shared vocabulary of the development\<close>

text \<open>
  The types of C integers, the outcome type of a kernel routine, the state monad in which
  every routine is written, its weakest-precondition calculus, and the generic lemmas on
  lists that the components share.
\<close>

type_synonym u8 = "8 word"
type_synonym u16 = "16 word"
type_synonym u32 = "32 word"
type_synonym u64 = "64 word"

named_theorems kdefs \<open>the operations of a component, for unfolding\<close>
named_theorems wp_rules \<open>weakest preconditions of the monad's combinators\<close>

subsection \<open>Outcomes of a kernel routine\<close>

text \<open>
  A call of a kernel routine ends in one of four ways.  \<open>Ok x s\<close>: it returns \<open>x\<close> in
  state \<open>s\<close>.  \<open>Panic msg\<close>: it calls \<open>panic(msg)\<close>, which never returns.
  \<open>Blocked s\<close>: it went through \<open>sched()\<close> and gave the CPU up in state \<open>s\<close>; what follows
  is the caller's wait loop, entered again after a wakeup.  \<open>Stuck\<close>: C gives the next
  step no meaning (a null pointer or an index past its array) or the routine spins for ever.
\<close>

datatype ('s, 'a) outcome = Ok 'a 's | Panic string | Blocked 's | Stuck

type_synonym ('s, 'a) kM = "'s \<Rightarrow> ('s, 'a) outcome"

abbreviation ret :: "'a \<Rightarrow> ('s, 'a) kM" where
  "ret x \<equiv> Ok x"

definition bnd :: "('s, 'a) kM \<Rightarrow> ('a \<Rightarrow> ('s, 'b) kM) \<Rightarrow> ('s, 'b) kM" where
  "bnd m f = (\<lambda>s. case m s of Ok x t \<Rightarrow> f x t | Panic e \<Rightarrow> Panic e | Blocked t \<Rightarrow> Blocked t | Stuck \<Rightarrow> Stuck)"

definition seq :: "('s, 'a) kM \<Rightarrow> ('s, 'b) kM \<Rightarrow> ('s, 'b) kM" where
  "seq m n = bnd m (\<lambda>_. n)"

definition gets :: "('s \<Rightarrow> 'a) \<Rightarrow> ('s, 'a) kM" where
  "gets f = (\<lambda>s. Ok (f s) s)"

definition modify :: "('s \<Rightarrow> 's) \<Rightarrow> ('s, unit) kM" where
  "modify f = (\<lambda>s. Ok () (f s))"

definition panic :: "string \<Rightarrow> ('s, 'a) kM" where
  "panic msg = (\<lambda>s. Panic msg)"

definition stuck :: "('s, 'a) kM" where
  "stuck = (\<lambda>s. Stuck)"

abbreviation block :: "('s, 'a) kM" where
  "block \<equiv> Blocked"

definition guard_panic :: "bool \<Rightarrow> string \<Rightarrow> ('s, unit) kM" where
  "guard_panic c msg = (if c then panic msg else ret ())"

definition defined_if :: "bool \<Rightarrow> ('s, unit) kM" where
  "defined_if c = (if c then ret () else stuck)"

definition whenM :: "bool \<Rightarrow> ('s, unit) kM \<Rightarrow> ('s, unit) kM" where
  "whenM c m = (if c then m else ret ())"

primrec steps :: "('s, unit) kM list \<Rightarrow> ('s, unit) kM" where
  "steps [] = ret ()"
| "steps (m # ms) = seq m (steps ms)"

text \<open>A \<open>for\<close> loop over a fixed index list, its body run for every index.\<close>

primrec foreach :: "'i list \<Rightarrow> ('i \<Rightarrow> ('s, unit) kM) \<Rightarrow> ('s, unit) kM" where
  "foreach [] f = ret ()"
| "foreach (i # is) f = seq (f i) (foreach is f)"

text \<open>A search loop: the body answers with \<open>Some\<close> result to leave the loop early.\<close>

primrec search :: "'i list \<Rightarrow> ('i \<Rightarrow> ('s, 'a option) kM) \<Rightarrow> ('s, 'a option) kM" where
  "search [] f = ret None"
| "search (i # is) f = bnd (f i) (\<lambda>r. case r of None \<Rightarrow> search is f | Some x \<Rightarrow> ret (Some x))"

lemma bnd_ret [simp]: "bnd (ret x) f = f x"
  by (simp add: bnd_def)

lemma bnd_ret_right [simp]: "bnd m ret = m"
  by (rule ext) (simp add: bnd_def split: outcome.split)

lemma bnd_assoc: "bnd (bnd m f) g = bnd m (\<lambda>x. bnd (f x) g)"
  by (rule ext) (simp add: bnd_def split: outcome.split)

lemma bnd_cong [fundef_cong]:
  "m = m' \<Longrightarrow> (\<And>x. f x = f' x) \<Longrightarrow> bnd m f = bnd m' f'"
  by presburger

lemma bnd_Ok [simp]: "m s = Ok x t \<Longrightarrow> bnd m f s = f x t"
  by (simp add: bnd_def)

lemma bnd_Panic [simp]: "m s = Panic e \<Longrightarrow> bnd m f s = Panic e"
  by (simp add: bnd_def)

lemma bnd_Blocked [simp]: "m s = Blocked t \<Longrightarrow> bnd m f s = Blocked t"
  by (simp add: bnd_def)

lemma bnd_Stuck [simp]: "m s = Stuck \<Longrightarrow> bnd m f s = Stuck"
  by (simp add: bnd_def)

lemma run_gets [simp]: "gets f s = Ok (f s) s"
  by (simp add: gets_def)

lemma run_modify [simp]: "modify f s = Ok () (f s)"
  by (simp add: modify_def)

lemma run_panic [simp]: "panic msg s = Panic msg"
  by (simp add: panic_def)

lemma run_stuck [simp]: "stuck s = Stuck"
  by (simp add: stuck_def)

lemma run_guard_panic [simp]: "guard_panic c msg s = (if c then Panic msg else Ok () s)"
  by (simp add: guard_panic_def)

lemma run_defined_if [simp]: "defined_if c s = (if c then Ok () s else Stuck)"
  by (simp add: defined_if_def)

lemma run_seq [simp]: "seq m n s = bnd m (\<lambda>_. n) s"
  by (simp add: seq_def)

lemma run_whenM [simp]: "whenM c m s = (if c then m s else Ok () s)"
  by (simp add: whenM_def)

lemma bnd_bnd [simp]: "bnd (bnd m f) g s = bnd m (\<lambda>x. bnd (f x) g) s"
  by (simp add: bnd_assoc)

lemma bnd_seq [simp]: "bnd (seq m n) f s = bnd m (\<lambda>_. bnd n f) s"
  by (simp add: seq_def)

lemma bnd_gets [simp]: "bnd (gets g) f s = f (g s) s"
  by (simp add: bnd_def)

lemma bnd_modify [simp]: "bnd (modify g) f s = f () (g s)"
  by (simp add: bnd_def)

lemma bnd_guard_panic [simp]: "bnd (guard_panic c msg) f s = (if c then Panic msg else f () s)"
  by (simp add: bnd_def)

lemma bnd_defined_if [simp]: "bnd (defined_if c) f s = (if c then f () s else Stuck)"
  by (simp add: bnd_def)

lemma bnd_whenM [simp]: "bnd (whenM c m) f s = (if c then bnd m f s else f () s)"
  by (simp add: bnd_def)

lemma bnd_eq_Ok_iff: "bnd m f s = Ok y u \<longleftrightarrow> (\<exists>x t. m s = Ok x t \<and> f x t = Ok y u)"
  by (auto simp: bnd_def split: outcome.splits)

lemma bnd_eq_OkE:
  assumes "bnd m f s = Ok y u"
  obtains x t where "m s = Ok x t" and "f x t = Ok y u"
  using assms by (auto simp: bnd_eq_Ok_iff)

subsection \<open>Weakest preconditions\<close>

text \<open>
  \<open>wp e m Q B s\<close>: run from \<open>s\<close>, the routine \<open>m\<close> returns only in states and with results in
  \<open>Q\<close> and gives up the CPU only in states in \<open>B\<close>; a panic or an undefined step is allowed
  when \<open>e\<close> is true.  \<open>wp False m Q (\<lambda>_. False)\<close> is total correctness without waiting.
\<close>

definition wp :: "bool \<Rightarrow> ('s, 'a) kM \<Rightarrow> ('a \<Rightarrow> 's \<Rightarrow> bool) \<Rightarrow> ('s \<Rightarrow> bool) \<Rightarrow> 's \<Rightarrow> bool" where
  "wp e m Q B s = (case m s of Ok x t \<Rightarrow> Q x t | Blocked t \<Rightarrow> B t | Panic _ \<Rightarrow> e | Stuck \<Rightarrow> e)"

lemma wp_ret [simp, wp_rules]: "wp e (ret x) Q B s = Q x s"
  by (simp add: wp_def)

lemma wp_bnd [simp, wp_rules]: "wp e (bnd m f) Q B s = wp e m (\<lambda>x. wp e (f x) Q B) B s"
  by (simp add: wp_def bnd_def split: outcome.split)

lemma wp_seq [simp, wp_rules]: "wp e (seq m n) Q B s = wp e m (\<lambda>_. wp e n Q B) B s"
  by (simp add: seq_def)

lemma wp_gets [simp, wp_rules]: "wp e (gets f) Q B s = Q (f s) s"
  by (simp add: wp_def)

lemma wp_modify [simp, wp_rules]: "wp e (modify f) Q B s = Q () (f s)"
  by (simp add: wp_def)

lemma wp_panic [simp, wp_rules]: "wp e (panic msg) Q B s = e"
  by (simp add: wp_def)

lemma wp_stuck [simp, wp_rules]: "wp e stuck Q B s = e"
  by (simp add: wp_def)

lemma wp_block [simp, wp_rules]: "wp e block Q B s = B s"
  by (simp add: wp_def)

lemma wp_guard_panic [simp, wp_rules]:
  "wp e (guard_panic c msg) Q B s = (if c then e else Q () s)"
  by (simp add: guard_panic_def)

lemma wp_defined_if [simp, wp_rules]:
  "wp e (defined_if c) Q B s = (if c then Q () s else e)"
  by (simp add: defined_if_def)

lemma wp_whenM [simp, wp_rules]: "wp e (whenM c m) Q B s = (if c then wp e m Q B s else Q () s)"
  by (simp add: whenM_def)

lemma wp_if [wp_rules]: "wp e (if c then m else n) Q B s = (if c then wp e m Q B s else wp e n Q B s)"
  by simp

lemma wp_conseq:
  "wp e m Q B s \<Longrightarrow> (\<And>x t. Q x t \<Longrightarrow> Q' x t) \<Longrightarrow> (\<And>t. B t \<Longrightarrow> B' t) \<Longrightarrow> wp e m Q' B' s"
  by (auto simp: wp_def split: outcome.splits)

lemma wp_Ok: "wp e m Q B s \<Longrightarrow> m s = Ok x t \<Longrightarrow> Q x t"
  by (simp add: wp_def)

lemma wp_no_panic: "wp False m Q B s \<Longrightarrow> m s \<noteq> Panic e"
  by (auto simp: wp_def)

lemma wp_returns: "wp False m Q (\<lambda>_. False) s \<Longrightarrow> \<exists>x t. m s = Ok x t \<and> Q x t"
  by (auto simp: wp_def split: outcome.splits)

lemma wp_foreach:
  assumes "I s"
    and "\<And>i t. i \<in> set is \<Longrightarrow> I t \<Longrightarrow> wp e (f i) (\<lambda>_. I) B t"
  shows "wp e (foreach is f) (\<lambda>_. I) B s"
  using assms
proof (induction "is" arbitrary: s)
  case Nil
  then show ?case by simp
next
  case (Cons i "is")
  have "wp e (f i) (\<lambda>_. I) B s" using Cons.prems by simp
  then show ?case
    using Cons.IH Cons.prems(2) by (auto elim!: wp_conseq)
qed

subsection \<open>Lists as arrays\<close>

text \<open>The first index of a list that satisfies a predicate: the shape of every table scan.\<close>

primrec first_idx :: "('a \<Rightarrow> bool) \<Rightarrow> 'a list \<Rightarrow> nat option" where
  "first_idx P [] = None"
| "first_idx P (x # xs) = (if P x then Some 0 else map_option Suc (first_idx P xs))"

lemma first_idx_None: "first_idx P xs = None \<longleftrightarrow> (\<forall>x \<in> set xs. \<not> P x)"
  by (induction xs) auto

lemma first_idx_Some:
  "first_idx P xs = Some i \<longleftrightarrow> i < length xs \<and> P (xs ! i) \<and> (\<forall>j < i. \<not> P (xs ! j))"
proof (induction xs arbitrary: i)
  case (Cons x xs)
  then show ?case
    by (cases i) (auto simp: less_Suc_eq_0_disj)
qed simp

lemma first_idx_bound: "first_idx P xs = Some i \<Longrightarrow> i < length xs"
  by (simp add: first_idx_Some)

lemma first_idx_sat: "first_idx P xs = Some i \<Longrightarrow> P (xs ! i)"
  by (simp add: first_idx_Some)

lemma list_update_nth_cases:
  "i < length xs \<Longrightarrow> xs[i := x] ! j = (if i = j then x else xs ! j)"
  by (simp add: nth_list_update)

lemma length_filter_update:
  assumes "i < length xs"
  shows "length (filter P (xs[i := x])) + (if P (xs ! i) then 1 else 0) =
         length (filter P xs) + (if P x then 1 else 0)"
  using assms
proof (induction xs arbitrary: i)
  case (Cons y ys)
  then show ?case
    by (cases i) (auto split: if_splits)
qed simp

lemma length_remove1_Suc: "x \<in> set xs \<Longrightarrow> length xs = Suc (length (remove1 x xs))"
  by (induction xs) auto

lemma count_list_update:
  assumes "i < length xs"
  shows "count_list (xs[i := x]) y + (if xs ! i = y then 1 else 0) =
         count_list xs y + (if x = y then 1 else 0)"
  using length_filter_update [OF assms, of "(=) y" x]
  by (auto simp: count_list_eq_length_filter split: if_splits)


lemma foreach_append: "foreach (xs @ ys) f s = bnd (foreach xs f) (\<lambda>_. foreach ys f) s"
proof (induction xs arbitrary: s)
  case (Cons x xs)
  then show ?case by (simp add: bnd_def split: outcome.split)
qed simp

text \<open>
  A table scan that rewrites every entry: if the body turns entry \<open>i\<close> into \<open>h i\<close> of it and may
  apply an idempotent clean-up to the rest of the state, the loop maps \<open>h\<close> over the table.
\<close>

lemma foreach_table_prefix:
  assumes body: "\<And>i t. i < n \<Longrightarrow> I t \<Longrightarrow>
      f i t = Ok () (upd ((tbl t)[i := h i (tbl t ! i)]) t) \<and> I (upd ((tbl t)[i := h i (tbl t ! i)]) t)"
    and tbl: "\<And>xs t. tbl (upd xs t) = xs"
    and upd: "\<And>xs ys t. upd xs (upd ys t) = upd xs t"
    and init: "I s" and len: "length (tbl s) = n" and "k < n"
  shows "foreach [0..<Suc k] f s =
      Ok () (upd (map (\<lambda>i. h i (tbl s ! i)) [0..<Suc k] @ drop (Suc k) (tbl s)) s) \<and>
    I (upd (map (\<lambda>i. h i (tbl s ! i)) [0..<Suc k] @ drop (Suc k) (tbl s)) s)"
  using \<open>k < n\<close>
proof (induction k)
  case 0
  have "(tbl s)[0 := h 0 (tbl s ! 0)] = h 0 (tbl s ! 0) # drop (Suc 0) (tbl s)"
    using 0 len by (cases "tbl s") auto
  then show ?case using body [OF 0 init] by simp
next
  case (Suc k)
  define u where "u k = upd (map (\<lambda>i. h i (tbl s ! i)) [0..<k] @ drop k (tbl s)) s" for k
  have ih: "foreach [0..<Suc k] f s = Ok () (u (Suc k))" "I (u (Suc k))"
    using Suc unfolding u_def by simp_all
  have tu: "tbl (u (Suc k)) = map (\<lambda>i. h i (tbl s ! i)) [0..<Suc k] @ drop (Suc k) (tbl s)"
    unfolding u_def by (rule tbl)
  have nth: "tbl (u (Suc k)) ! Suc k = tbl s ! Suc k"
    using Suc.prems len unfolding tu by (simp add: nth_append)
  have "(tbl (u (Suc k)))[Suc k := h (Suc k) (tbl (u (Suc k)) ! Suc k)] =
      map (\<lambda>i. h i (tbl s ! i)) [0..<Suc (Suc k)] @ drop (Suc (Suc k)) (tbl s)"
    using Suc.prems len unfolding nth unfolding tu
    by (simp add: list_update_append Cons_nth_drop_Suc [symmetric])
  then have "upd ((tbl (u (Suc k)))[Suc k := h (Suc k) (tbl (u (Suc k)) ! Suc k)]) (u (Suc k)) = u (Suc (Suc k))"
    unfolding u_def upd by simp
  then have "f (Suc k) (u (Suc k)) = Ok () (u (Suc (Suc k))) \<and> I (u (Suc (Suc k)))"
    using body [OF Suc.prems ih(2)] by simp
  moreover have "[0..<Suc (Suc k)] = [0..<Suc k] @ [Suc k]" by simp
  ultimately have "foreach [0..<Suc (Suc k)] f s = Ok () (u (Suc (Suc k))) \<and> I (u (Suc (Suc k)))"
    using ih(1) by (simp only: foreach_append bnd_Ok foreach.simps run_seq)
  then show ?case unfolding u_def .
qed

lemma foreach_table:
  assumes "\<And>i t. i < n \<Longrightarrow> I t \<Longrightarrow>
      f i t = Ok () (upd ((tbl t)[i := h i (tbl t ! i)]) t) \<and> I (upd ((tbl t)[i := h i (tbl t ! i)]) t)"
    and "\<And>xs t. tbl (upd xs t) = xs"
    and "\<And>xs ys t. upd xs (upd ys t) = upd xs t"
    and "I s" and "length (tbl s) = n" and "0 < n"
  shows "foreach [0..<n] f s = Ok () (upd (map (\<lambda>i. h i (tbl s ! i)) [0..<n]) s)"
proof -
  obtain k where n: "n = Suc k" using assms(6) by (cases n) auto
  have "foreach [0..<Suc k] f s =
      Ok () (upd (map (\<lambda>i. h i (tbl s ! i)) [0..<Suc k] @ drop (Suc k) (tbl s)) s) \<and>
    I (upd (map (\<lambda>i. h i (tbl s ! i)) [0..<Suc k] @ drop (Suc k) (tbl s)) s)"
    by (rule foreach_table_prefix [where n = n]) (use assms n in auto)
  then show ?thesis using assms(5) n by simp
qed


text \<open>
  A table scan that stops at the first entry with \<open>P\<close>: the entries before it only cost an
  idempotent clean-up \<open>cl\<close> of the rest of the state.
\<close>

lemma search_find:
  assumes miss: "\<And>i t. i \<in> set is \<Longrightarrow> I t \<Longrightarrow> \<not> P i \<Longrightarrow> f i t = Ok None (cl t)"
    and hit: "\<And>i t. i \<in> set is \<Longrightarrow> I t \<Longrightarrow> P i \<Longrightarrow> f i t = bnd (g i) (\<lambda>x. ret (Some x)) t"
    and inv: "\<And>t. I t \<Longrightarrow> I (cl t)"
    and absorb: "\<And>i t. i \<in> set is \<Longrightarrow> I t \<Longrightarrow> P i \<Longrightarrow> g i (cl t) = g i t" "\<And>t. I t \<Longrightarrow> cl (cl t) = cl t"
    and init: "I s"
  shows "search is f s = (case find P is of
      None \<Rightarrow> Ok None (if is = [] then s else cl s)
    | Some i \<Rightarrow> bnd (g i) (\<lambda>x. ret (Some x)) s)"
  using assms
proof (induction "is" arbitrary: s)
  case (Cons i "is")
  show ?case
  proof (cases "P i")
    case True
    then show ?thesis using Cons.prems by (simp add: bnd_def split: outcome.split)
  next
    case False
    have ih: "search is f (cl s) = (case find P is of None \<Rightarrow> Ok None (if is = [] then cl s else cl (cl s))
      | Some i \<Rightarrow> bnd (g i) (\<lambda>x. ret (Some x)) (cl s))"
      by (rule Cons.IH) (use Cons.prems in auto)
    have "bnd (g j) (\<lambda>x. ret (Some x)) (cl s) = bnd (g j) (\<lambda>x. ret (Some x)) s" if "find P is = Some j" for j
    proof -
      have "j \<in> set is" "P j" using that by (auto simp: find_Some_iff)
      then have "g j (cl s) = g j s" using Cons.prems(4) Cons.prems(6) by simp
      then show ?thesis by (simp add: bnd_def)
    qed
    then show ?thesis
      using False Cons.prems(1) [of i s] Cons.prems(5,6) ih by (simp split: option.split)
  qed
qed simp

lemma find_upt_Some:
  "find P [0..<n] = Some i \<longleftrightarrow> i < n \<and> P i \<and> (\<forall>j < i. \<not> P j)"
  by (auto simp: find_Some_iff)

lemma find_upt_None: "find P [0..<n] = None \<longleftrightarrow> (\<forall>j < n. \<not> P j)"
  by (auto simp: find_None_iff)

end
