(* ===== verification/Machine.thy ===== *)
theory Machine
  imports Prelude
begin

section \<open>Machine constants, page arithmetic and physical memory\<close>

text \<open>
  The constants of \<^verbatim>\<open>kernel/param.h\<close>, \<^verbatim>\<open>kernel/memlayout.h\<close> and \<^verbatim>\<open>kernel/riscv.h\<close>, the page and
  page-table-entry macros on 64-bit words, and physical memory.  Memory is a map from
  8-byte-aligned addresses to 64-bit cells; a byte is read from and written into the cell
  that holds it, in little-endian order.
\<close>

subsection \<open>Constants\<close>

abbreviation (input) NPROC :: nat where "NPROC \<equiv> 64"
abbreviation (input) NOFILE :: nat where "NOFILE \<equiv> 16"
abbreviation (input) NFILE :: nat where "NFILE \<equiv> 100"
abbreviation (input) NINODE :: nat where "NINODE \<equiv> 50"
abbreviation (input) NDEV :: int where "NDEV \<equiv> 10"
abbreviation (input) ROOTDEV :: u32 where "ROOTDEV \<equiv> 1"
abbreviation (input) MAXARG :: nat where "MAXARG \<equiv> 32"
abbreviation (input) MAXOPBLOCKS :: int where "MAXOPBLOCKS \<equiv> 10"
abbreviation (input) LOGSIZE :: int where "LOGSIZE \<equiv> 30"
abbreviation (input) NBUF :: nat where "NBUF \<equiv> 30"
abbreviation (input) MAXPATH :: nat where "MAXPATH \<equiv> 128"
abbreviation (input) USERSTACK :: u64 where "USERSTACK \<equiv> 1"

abbreviation (input) PGSIZE :: u64 where "PGSIZE \<equiv> 4096"
abbreviation (input) MAXVA :: u64 where "MAXVA \<equiv> 0x4000000000"
abbreviation (input) KERNBASE :: u64 where "KERNBASE \<equiv> 0x80000000"
abbreviation (input) PHYSTOP :: u64 where "PHYSTOP \<equiv> 0x88000000"
abbreviation (input) TRAMPOLINE :: u64 where "TRAMPOLINE \<equiv> 0x3FFFFFF000"
abbreviation (input) TRAPFRAME :: u64 where "TRAPFRAME \<equiv> 0x3FFFFFE000"
abbreviation (input) UART0 :: u64 where "UART0 \<equiv> 0x10000000"
abbreviation (input) VIRTIO0 :: u64 where "VIRTIO0 \<equiv> 0x10001000"
abbreviation (input) PLIC :: u64 where "PLIC \<equiv> 0x0c000000"

definition KSTACK :: "u64 \<Rightarrow> u64" where
  "KSTACK p = TRAMPOLINE - (p + 1) * 2 * PGSIZE"

subsection \<open>Pages\<close>

definition PGROUNDUP :: "u64 \<Rightarrow> u64" where
  "PGROUNDUP sz = (sz + PGSIZE - 1) AND NOT (PGSIZE - 1)"

definition PGROUNDDOWN :: "u64 \<Rightarrow> u64" where
  "PGROUNDDOWN a = a AND NOT (PGSIZE - 1)"

abbreviation (input) PTE_V :: u64 where "PTE_V \<equiv> 1"
abbreviation (input) PTE_R :: u64 where "PTE_R \<equiv> 2"
abbreviation (input) PTE_W :: u64 where "PTE_W \<equiv> 4"
abbreviation (input) PTE_X :: u64 where "PTE_X \<equiv> 8"
abbreviation (input) PTE_U :: u64 where "PTE_U \<equiv> 16"

definition PA2PTE :: "u64 \<Rightarrow> u64" where
  "PA2PTE pa = push_bit 10 (drop_bit 12 pa)"

definition PTE2PA :: "u64 \<Rightarrow> u64" where
  "PTE2PA pte = push_bit 12 (drop_bit 10 pte)"

definition PTE_FLAGS :: "u64 \<Rightarrow> u64" where
  "PTE_FLAGS pte = pte AND 0x3FF"

definition PX :: "nat \<Rightarrow> u64 \<Rightarrow> u64" where
  "PX level va = drop_bit (12 + 9 * level) va AND 0x1FF"

abbreviation (input) page_aligned :: "u64 \<Rightarrow> bool" where
  "page_aligned a \<equiv> a mod PGSIZE = 0"

lemma aligned_gap:
  fixes a b :: nat
  assumes "a mod 4096 = 0" and "b mod 4096 = 0" and "a < b"
  shows "a + 4096 \<le> b"
proof -
  obtain i j where ij: "a = 4096 * i" "b = 4096 * j"
    using assms(1,2) by (metis dvd_def mod_eq_0_iff_dvd)
  then have "i < j" using assms(3) by simp
  then show ?thesis using ij by simp
qed

lemma mask12: "(4095 :: u64) = mask 12"
  by (simp add: mask_eq_exp_minus_1)

lemma and_not_mask: "(a :: 'a::len word) AND NOT (mask n) = push_bit n (drop_bit n a)"
  by (rule bit_word_eqI) (auto simp: bit_simps)

lemma unat_drop_push: "unat (push_bit n (drop_bit n (a :: 'a::len word))) = unat a div 2 ^ n * 2 ^ n"
proof -
  have "unat (push_bit n (drop_bit n a)) = take_bit LENGTH('a) (push_bit n (drop_bit n (unat a)))"
    by (simp add: unsigned_push_bit_eq unsigned_drop_bit_eq take_bit_eq_mod)
  also have "\<dots> = take_bit LENGTH('a) (unat a div 2 ^ n * 2 ^ n)"
    by (simp add: push_bit_eq_mult drop_bit_eq_div)
  also have "\<dots> = unat a div 2 ^ n * 2 ^ n"
  proof (rule take_bit_nat_eq_self)
    have "unat a div 2 ^ n * 2 ^ n \<le> unat a" by simp
    also have "\<dots> < 2 ^ LENGTH('a)" by simp
    finally show "unat a div 2 ^ n * 2 ^ n < 2 ^ LENGTH('a)" .
  qed
  finally show ?thesis .
qed

lemma unat_PGROUNDDOWN: "unat (PGROUNDDOWN a) = unat a div 4096 * 4096"
  using unat_drop_push [of 12 a] by (simp add: PGROUNDDOWN_def mask12 and_not_mask)

lemma PGROUNDDOWN_le: "PGROUNDDOWN a \<le> a"
  by (simp add: word_le_nat_alt unat_PGROUNDDOWN)

lemma PGROUNDDOWN_aligned: "PGROUNDDOWN a mod PGSIZE = 0"
  by (rule word_unat_eq_iff [THEN iffD2]) (simp add: unat_mod unat_PGROUNDDOWN)

lemma PGROUNDDOWN_gap: "a - PGROUNDDOWN a < PGSIZE"
  using PGROUNDDOWN_le [of a]
  by (simp add: word_less_nat_alt unat_sub word_le_nat_alt unat_PGROUNDDOWN minus_div_mult_eq_mod)

lemma page_aligned_unat: "page_aligned a \<longleftrightarrow> unat a mod 4096 = 0"
  by (simp add: word_unat_eq_iff unat_mod)

lemma PGROUNDDOWN_id: "page_aligned a \<Longrightarrow> PGROUNDDOWN a = a"
  by (rule word_unat_eq_iff [THEN iffD2])
    (auto simp: unat_PGROUNDDOWN page_aligned_unat)

lemma unat_add_small: "unat a + unat b < 2 ^ LENGTH('a) \<Longrightarrow> unat (a + b :: 'a::len word) = unat a + unat b"
  by (simp add: unat_word_ariths)

lemma unat_PGROUNDUP:
  assumes "unat a \<le> 2 ^ 64 - 4096"
  shows "unat (PGROUNDUP a) = (unat a + 4095) div 4096 * 4096"
proof -
  have "unat (a + 4095) = unat a + 4095"
    using assms by (simp add: unat_word_ariths)
  moreover have "PGROUNDUP a = push_bit 12 (drop_bit 12 (a + 4095))"
    using and_not_mask [of "a + 4095" 12] by (simp add: PGROUNDUP_def mask12 add.commute)
  ultimately show ?thesis
    by (simp add: unat_drop_push)
qed

lemma PGROUNDUP_aligned: "page_aligned (PGROUNDUP a)"
  using PGROUNDDOWN_aligned [of "a + 4095"]
  by (simp add: PGROUNDUP_def PGROUNDDOWN_def add.commute)

lemma PGROUNDUP_id: "page_aligned a \<Longrightarrow> PGROUNDUP a = a"
proof -
  assume a: "page_aligned a"
  then obtain k where k: "unat a = 4096 * k"
    by (auto simp: page_aligned_unat)
  moreover have "unat a < 2 ^ 64" using unsigned_less [of a] by simp
  ultimately have le: "unat a \<le> 2 ^ 64 - 4096" by simp
  have "unat (PGROUNDUP a) = unat a"
    using le by (simp add: unat_PGROUNDUP k)
  then show ?thesis by (simp add: word_unat_eq_iff)
qed

lemma PGROUNDUP_ge: "unat a \<le> 2 ^ 64 - 4096 \<Longrightarrow> a \<le> PGROUNDUP a"
  by (simp add: word_le_nat_alt unat_PGROUNDUP)

subsection \<open>Page-table entries and indices\<close>

lemma bit_lt: "bit (a :: 'a::len word) i \<Longrightarrow> 2 ^ i \<le> unat a"
proof -
  assume "bit a i"
  then have "bit (unat a) i" by (simp add: bit_unsigned_iff)
  then have "odd (unat a div 2 ^ i)" by (simp add: bit_iff_odd)
  then have "unat a div 2 ^ i \<noteq> 0" by (metis even_zero)
  then show ?thesis by (simp add: div_eq_0_iff)
qed

lemma word_bits_below: "unat (a :: 'a::len word) < 2 ^ n \<Longrightarrow> n \<le> i \<Longrightarrow> \<not> bit a i"
  using bit_lt [of a i] power_increasing [of n i "2 :: nat"] by fastforce

lemma bit_low_ones: "bit (0x3FF :: int) i \<longleftrightarrow> i < 10" "bit (0xFF :: int) i \<longleftrightarrow> i < 8"
proof -
  have "(0x3FF :: int) = mask 10" "(0xFF :: int) = mask 8" by (simp_all add: mask_eq_exp_minus_1)
  then show "bit (0x3FF :: int) i \<longleftrightarrow> i < 10" "bit (0xFF :: int) i \<longleftrightarrow> i < 8"
    by (simp_all only: bit_mask_iff) (auto simp: possible_bit_def)
qed

lemma page_aligned_bits: "page_aligned a \<Longrightarrow> i < 12 \<Longrightarrow> \<not> bit a i"
proof -
  assume "page_aligned a" and i: "i < 12"
  then have "take_bit 12 a = 0" by (simp add: take_bit_eq_mod)
  then show ?thesis using i by (metis bit_0_eq bit_take_bit_iff bot_apply bot_bool_def)
qed

lemma PTE2PA_PA2PTE:
  assumes "page_aligned pa" and "unat pa < 2 ^ 56" and "unat fl < 1024"
  shows "PTE2PA (PA2PTE pa OR fl) = pa"
proof (rule bit_word_eqI)
  fix i :: nat
  assume i: "i < LENGTH(64)"
  have fl: "\<not> bit fl j" if "10 \<le> j" for j
    using word_bits_below [of fl 10 j] assms(3) that by simp
  have lo: "\<not> bit pa i" if "i < 12"
    using page_aligned_bits [OF assms(1) that] .
  have hi: "\<not> bit pa j" if "56 \<le> j" for j
    using word_bits_below [of pa 56 j] assms(2) that by simp
  show "bit (PTE2PA (PA2PTE pa OR fl)) i = bit pa i"
    using i fl [of "i - 2"] lo hi [of i]
    by (cases "12 \<le> i") (auto simp: PTE2PA_def PA2PTE_def bit_simps not_less not_le)
qed

lemma PTE_FLAGS_PA2PTE:
  assumes "unat fl < 1024"
  shows "PTE_FLAGS (PA2PTE pa OR fl) = fl"
proof (rule bit_word_eqI)
  fix i :: nat
  assume i: "i < LENGTH(64)"
  have fl: "\<not> bit fl i" if "10 \<le> i"
    using word_bits_below [of fl 10 i] assms that by simp
  show "bit (PTE_FLAGS (PA2PTE pa OR fl)) i = bit fl i"
    using i fl
    by (cases "10 \<le> i") (auto simp: PTE_FLAGS_def PA2PTE_def bit_simps bit_low_ones not_le)
qed

lemma PX_eq: "unat (PX l va) = unat va div 2 ^ (12 + 9 * l) mod 512"
proof -
  have "(0x1FF :: u64) = mask 9" by (simp add: mask_eq_exp_minus_1)
  then have "PX l va = take_bit 9 (drop_bit (12 + 9 * l) va)"
    by (simp add: PX_def take_bit_eq_mask)
  then have "unat (PX l va) = take_bit 9 (drop_bit (12 + 9 * l) (unat va))"
    by (simp add: unsigned_take_bit_eq unat_drop_bit_eq)
  then show ?thesis by (simp add: take_bit_eq_mod drop_bit_eq_div)
qed

lemma PX_bound: "unat (PX l va) < 512"
  by (simp add: PX_eq)

lemma split_digits:
  fixes x :: nat
  shows "x = a * 4096 + r \<Longrightarrow> a = b * 512 + s \<Longrightarrow> b = c * 512 + t \<Longrightarrow>
    x = c * 2 ^ 30 + t * 2 ^ 21 + s * 2 ^ 12 + r"
  by simp

lemma va_split:
  assumes "va < MAXVA"
  shows "unat va = unat (PX 2 va) * 2 ^ 30 + unat (PX 1 va) * 2 ^ 21 + unat (PX 0 va) * 2 ^ 12 + unat va mod 4096"
proof -
  have "unat va < 2 ^ 38" using assms by (simp add: word_less_nat_alt)
  then have top: "unat va div 4096 div 512 div 512 < 512"
    by (simp flip: div_mult2_eq)
  have px: "unat (PX 2 va) = unat va div 4096 div 512 div 512"
    "unat (PX 1 va) = unat va div 4096 div 512 mod 512" "unat (PX 0 va) = unat va div 4096 mod 512"
    using top by (simp_all add: PX_eq flip: div_mult2_eq)
  show ?thesis unfolding px
    by (rule split_digits [where a = "unat va div 4096" and b = "unat va div 4096 div 512"]) simp_all
qed

lemma PX_inject:
  assumes "va < MAXVA" "vb < MAXVA" "page_aligned va" "page_aligned vb"
    and "PX 2 va = PX 2 vb" "PX 1 va = PX 1 vb" "PX 0 va = PX 0 vb"
  shows "va = vb"
proof -
  have "unat va = unat vb"
    using va_split [OF assms(1)] va_split [OF assms(2)] assms(3-)
    by (simp add: page_aligned_unat)
  then show ?thesis by (simp add: word_unat_eq_iff)
qed

subsection \<open>Physical memory\<close>

type_synonym memory = "u64 \<Rightarrow> u64"

definition cell :: "u64 \<Rightarrow> u64" where
  "cell a = a AND NOT 7"

definition load64 :: "memory \<Rightarrow> u64 \<Rightarrow> u64" where
  "load64 m a = m (cell a)"

definition store64 :: "memory \<Rightarrow> u64 \<Rightarrow> u64 \<Rightarrow> memory" where
  "store64 m a v = m(cell a := v)"

definition lane :: "u64 \<Rightarrow> nat" where
  "lane a = 8 * unat (a AND 7)"

definition load8 :: "memory \<Rightarrow> u64 \<Rightarrow> u8" where
  "load8 m a = ucast (drop_bit (lane a) (m (cell a)))"

definition store8 :: "memory \<Rightarrow> u64 \<Rightarrow> u8 \<Rightarrow> memory" where
  "store8 m a b = m(cell a := (m (cell a) AND NOT (push_bit (lane a) 0xFF)) OR push_bit (lane a) (ucast b))"

lemma lane_eq: "lane a = 8 * (unat a mod 8)"
proof -
  have "(7 :: u64) = mask 3" by (simp add: mask_eq_exp_minus_1)
  then have "a AND 7 = take_bit 3 a" by (simp add: take_bit_eq_mask)
  then have "lane a = 8 * take_bit 3 (unat a)"
    by (simp add: lane_def unsigned_take_bit_eq)
  then show ?thesis by (simp add: take_bit_eq_mod)
qed

lemma unat_cell: "unat (cell a) = unat a div 8 * 8"
proof -
  have "(7 :: u64) = mask 3" by (simp add: mask_eq_exp_minus_1)
  then show ?thesis using unat_drop_push [of 3 a] and_not_mask [of a 3] by (simp add: cell_def)
qed

lemma cell_lane_inject: "cell a = cell b \<Longrightarrow> lane a = lane b \<Longrightarrow> a = b"
proof -
  assume "cell a = cell b" and "lane a = lane b"
  then have "unat a div 8 * 8 = unat b div 8 * 8" and "unat a mod 8 = unat b mod 8"
    by (simp_all add: lane_eq flip: unat_cell)
  then have "unat a = unat b" by (metis div_mult_mod_eq)
  then show "a = b" by (simp add: word_unat_eq_iff)
qed

lemma cell_aligned: "unat a mod 8 = 0 \<Longrightarrow> cell a = a"
  using div_mult_mod_eq [of "unat a" 8] by (simp add: word_unat_eq_iff unat_cell)

lemma load8_store8: "load8 (store8 m a v) b = (if b = a then v else load8 m b)"
proof (cases "cell b = cell a")
  case True
  have sep: "lane a = lane b \<or> lane a + 8 \<le> lane b \<or> lane b + 8 \<le> lane a"
    by (simp add: lane_eq) linarith
  have la: "lane a + 8 \<le> 64" "lane b + 8 \<le> 64" by (simp_all add: lane_eq)
  have "load8 (store8 m a v) b = v" if "lane b = lane a"
    using la by (intro bit_word_eqI) (simp add: load8_def store8_def True that bit_simps bit_low_ones)
  moreover have "load8 (store8 m a v) b = load8 m b" if "lane b \<noteq> lane a"
  proof (rule bit_word_eqI)
    fix n :: nat
    assume "n < LENGTH(8)"
    then have "\<not> (lane a \<le> lane b + n \<and> lane b + n - lane a < 8)" and "lane b + n < 64"
      using sep la that by auto
    then show "bit (load8 (store8 m a v) b) n = bit (load8 m b) n"
      by (auto simp: load8_def store8_def True bit_simps bit_low_ones dest: bit_imp_le_length)
  qed
  moreover have "b = a \<longleftrightarrow> lane b = lane a" using True cell_lane_inject by auto
  ultimately show ?thesis by auto
qed (auto simp: load8_def store8_def)

lemma load64_store64: "load64 (store64 m a v) b = (if cell b = cell a then v else load64 m b)"
  by (simp add: load64_def store64_def)


subsection \<open>What the address arithmetic promises\<close>

text \<open>
  Page-table entries lose nothing: the physical page and the ten flag bits packed by
  \<^verbatim>\<open>PA2PTE(pa) | flags\<close> are read back by \<^verbatim>\<open>PTE2PA\<close> and \<^verbatim>\<open>PTE_FLAGS\<close>.
\<close>

theorem pte_roundtrip:
  assumes "page_aligned pa" and "unat pa < 2 ^ 56" and "unat fl < 1024"
  shows "PTE2PA (PA2PTE pa OR fl) = pa \<and> PTE_FLAGS (PA2PTE pa OR fl) = fl"
  using PTE2PA_PA2PTE [OF assms] PTE_FLAGS_PA2PTE [OF assms(3)] by simp

lemma pte_roundtrip_witness:
  "PTE2PA (PA2PTE 0x87FFF000 OR 0x17) = 0x87FFF000 \<and> PTE_FLAGS (PA2PTE 0x87FFF000 OR 0x17) = 0x17"
  using pte_roundtrip [of "0x87FFF000" "0x17"] by simp

text \<open>
  The three nine-bit indices address a page: two page-aligned addresses below \<^verbatim>\<open>MAXVA\<close> with
  the same indices at every level are equal, every index is within its 512-entry table, and
  rounding down gives the page start that \<open>copyin\<close> and \<open>copyout\<close> step through.
\<close>

theorem va_indices:
  assumes "va < MAXVA" and "vb < MAXVA" and "page_aligned va" and "page_aligned vb"
  shows "(\<forall>l. PX l va < 512) \<and>
    (va = vb \<longleftrightarrow> PX 2 va = PX 2 vb \<and> PX 1 va = PX 1 vb \<and> PX 0 va = PX 0 vb) \<and>
    page_aligned (PGROUNDDOWN w) \<and> PGROUNDDOWN w \<le> w \<and> w - PGROUNDDOWN w < PGSIZE"
proof (intro conjI allI)
  show "PX l va < 512" for l using PX_bound [of l va] by (simp add: word_less_nat_alt)
  show "va = vb \<longleftrightarrow> PX 2 va = PX 2 vb \<and> PX 1 va = PX 1 vb \<and> PX 0 va = PX 0 vb"
    using PX_inject [OF assms] by auto
qed (rule PGROUNDDOWN_aligned PGROUNDDOWN_le PGROUNDDOWN_gap)+

lemma va_indices_witness:
  "PX 2 TRAMPOLINE < 512 \<and> PX 1 TRAMPOLINE = PX 1 TRAPFRAME \<and> PX 0 TRAMPOLINE \<noteq> PX 0 TRAPFRAME"
  using va_indices [of TRAMPOLINE TRAPFRAME]
  by (simp add: PX_def)

end
