(* ===== verification/Cstring.thy ===== *)
theory Cstring
  imports Machine "HOL-Library.Monad_Syntax"
begin

section \<open>The byte and string routines of \<^verbatim>\<open>kernel/string.c\<close>\<close>

text \<open>
  A pointer into a byte array is the array with an index (\<open>memset\<close>, \<open>memmove\<close>, which write
  through several pointers into one array) or the suffix that starts at the pointer (the
  string routines, which only move forward).  An access past the end of the array has no
  meaning in C: the result is \<open>None\<close>.
\<close>

definition rd :: "u8 list \<Rightarrow> nat \<Rightarrow> u8 option" where
  "rd xs i = (if i < length xs then Some (xs ! i) else None)"

definition wr :: "u8 list \<Rightarrow> nat \<Rightarrow> u8 \<Rightarrow> u8 list option" where
  "wr xs i b = (if i < length xs then Some (xs[i := b]) else None)"

subsection \<open>Filling, comparing and moving bytes\<close>

function memset_loop :: "u8 list \<Rightarrow> nat \<Rightarrow> u8 \<Rightarrow> nat \<Rightarrow> nat \<Rightarrow> u8 list option" where
  "memset_loop xs d c n i =
     (if i < n then do { ys \<leftarrow> wr xs (d + i) c; memset_loop ys d c n (Suc i) } else Some xs)"
  by pat_completeness auto
termination
  by (relation "measure (\<lambda>(xs, d, c, n, i). n - i)") auto

declare memset_loop.simps [simp del]

definition memset :: "u8 list \<Rightarrow> nat \<Rightarrow> u8 \<Rightarrow> nat \<Rightarrow> u8 list option" where
  "memset xs d c n = memset_loop xs d c n 0"

fun memcmp :: "u8 list \<Rightarrow> u8 list \<Rightarrow> nat \<Rightarrow> int option" where
  "memcmp s1 s2 0 = Some 0"
| "memcmp (a # s1) (b # s2) (Suc n) = (if a \<noteq> b then Some (uint a - uint b) else memcmp s1 s2 n)"
| "memcmp _ _ (Suc n) = None"

primrec copy_down :: "nat \<Rightarrow> u8 list \<Rightarrow> nat \<Rightarrow> nat \<Rightarrow> u8 list option" where
  "copy_down 0 xs d s = Some xs"
| "copy_down (Suc n) xs d s = do { b \<leftarrow> rd xs (s + n); ys \<leftarrow> wr xs (d + n) b; copy_down n ys d s }"

primrec copy_up :: "nat \<Rightarrow> u8 list \<Rightarrow> nat \<Rightarrow> nat \<Rightarrow> u8 list option" where
  "copy_up 0 xs d s = Some xs"
| "copy_up (Suc n) xs d s = do { b \<leftarrow> rd xs s; ys \<leftarrow> wr xs d b; copy_up n ys (Suc d) (Suc s) }"

definition memmove :: "u8 list \<Rightarrow> nat \<Rightarrow> nat \<Rightarrow> nat \<Rightarrow> u8 list option" where
  "memmove xs d s n =
     (if n = 0 then Some xs
      else if s < d \<and> s + n > d then copy_down n xs d s
      else copy_up n xs d s)"

definition memcpy :: "u8 list \<Rightarrow> nat \<Rightarrow> nat \<Rightarrow> nat \<Rightarrow> u8 list option" where
  "memcpy xs d s n = memmove xs d s n"

subsection \<open>Strings\<close>

fun strncmp :: "u8 list \<Rightarrow> u8 list \<Rightarrow> nat \<Rightarrow> int option" where
  "strncmp p q 0 = Some 0"
| "strncmp (a # p) (b # q) (Suc n) =
     (if a \<noteq> 0 \<and> a = b then strncmp p q n else Some (uint a - uint b))"
| "strncmp _ _ (Suc n) = None"

fun zero_fill :: "u8 list \<Rightarrow> nat \<Rightarrow> u8 list option" where
  "zero_fill s 0 = Some s"
| "zero_fill (x # s) (Suc n) = map_option ((#) 0) (zero_fill s n)"
| "zero_fill [] (Suc n) = None"

fun strncpy :: "u8 list \<Rightarrow> u8 list \<Rightarrow> nat \<Rightarrow> u8 list option" where
  "strncpy s t 0 = Some s"
| "strncpy (x # s) (c # t) (Suc n) =
     (if c \<noteq> 0 then map_option ((#) c) (strncpy s t n) else map_option ((#) 0) (zero_fill s n))"
| "strncpy _ _ (Suc n) = None"

fun safestrcpy_loop :: "u8 list \<Rightarrow> u8 list \<Rightarrow> nat \<Rightarrow> u8 list option" where
  "safestrcpy_loop (x # s) t 0 = Some (0 # s)"
| "safestrcpy_loop (x # s) (c # t) (Suc n) =
     (if c \<noteq> 0 then map_option ((#) c) (safestrcpy_loop s t n)
      else (case s of [] \<Rightarrow> None | y # s' \<Rightarrow> Some (0 # 0 # s')))"
| "safestrcpy_loop _ _ _ = None"

definition safestrcpy :: "u8 list \<Rightarrow> u8 list \<Rightarrow> int \<Rightarrow> u8 list option" where
  "safestrcpy s t n = (if n \<le> 0 then Some s else safestrcpy_loop s t (nat (n - 1)))"

fun strlen :: "u8 list \<Rightarrow> nat option" where
  "strlen [] = None"
| "strlen (c # s) = (if c = 0 then Some 0 else map_option Suc (strlen s))"

text \<open>The C string that starts at a pointer: the bytes before the first NUL.\<close>

definition cstr :: "u8 list \<Rightarrow> u8 list" where
  "cstr s = takeWhile (\<lambda>c. c \<noteq> 0) s"

lemma cstr_simps [simp]:
  "cstr [] = []" "cstr (c # s) = (if c = 0 then [] else c # cstr s)"
  by (simp_all add: cstr_def)

subsection \<open>Correctness\<close>

lemma memset_loop_correct:
  "i \<le> n \<Longrightarrow> d + n \<le> length xs \<Longrightarrow>
   memset_loop xs d c n i = Some (take (d + i) xs @ replicate (n - i) c @ drop (d + n) xs)"
proof (induction xs d c n i rule: memset_loop.induct)
  case (1 xs d c n i)
  show ?case
  proof (cases "i < n")
    case True
    then have "memset_loop (xs[d + i := c]) d c n (Suc i) =
        Some (take (d + Suc i) (xs[d + i := c]) @ replicate (n - Suc i) c @ drop (d + n) (xs[d + i := c]))"
      using 1 by (simp add: wr_def)
    then show ?thesis
      using True "1.prems"
      by (simp add: memset_loop.simps [of xs] wr_def take_Suc_conv_app_nth Suc_diff_Suc replicate_app_Cons_same
          flip: replicate_Suc)
  next
    case False
    then show ?thesis using "1.prems" by (simp add: memset_loop.simps [of xs])
  qed
qed

lemma copy_down_correct:
  "d + n \<le> length xs \<Longrightarrow> s + n \<le> length xs \<Longrightarrow> s \<le> d \<Longrightarrow>
   copy_down n xs d s = Some (take d xs @ take n (drop s xs) @ drop (d + n) xs)"
proof (induction n arbitrary: xs)
  case (Suc n)
  let ?ys = "xs[d + n := xs ! (s + n)]"
  have "copy_down (Suc n) xs d s = copy_down n ?ys d s"
    using Suc.prems by (simp add: rd_def wr_def)
  also have "\<dots> = Some (take d ?ys @ take n (drop s ?ys) @ drop (d + n) ?ys)"
    using Suc by simp
  also have "take d ?ys = take d xs" by simp
  also have "take n (drop s ?ys) = take n (drop s xs)"
    using Suc.prems by (simp add: drop_update_swap)
  also have "drop (d + n) ?ys = xs ! (s + n) # drop (d + Suc n) xs"
    using Suc.prems by (simp add: drop_update_swap Cons_nth_drop_Suc flip: Cons_nth_drop_Suc)
  also have "take n (drop s xs) @ xs ! (s + n) # drop (d + Suc n) xs =
      take (Suc n) (drop s xs) @ drop (d + Suc n) xs"
    using Suc.prems by (simp add: take_Suc_conv_app_nth)
  finally show ?case by simp
qed simp

lemma copy_up_correct:
  "d + n \<le> length xs \<Longrightarrow> s + n \<le> length xs \<Longrightarrow> d \<le> s \<or> s + n \<le> d \<Longrightarrow>
   copy_up n xs d s = Some (take d xs @ take n (drop s xs) @ drop (d + n) xs)"
proof (induction n arbitrary: xs d s)
  case (Suc n)
  let ?ys = "xs[d := xs ! s]"
  have "copy_up (Suc n) xs d s = copy_up n ?ys (Suc d) (Suc s)"
    using Suc.prems by (simp add: rd_def wr_def)
  also have "\<dots> = Some (take (Suc d) ?ys @ take n (drop (Suc s) ?ys) @ drop (Suc d + n) ?ys)"
    using Suc.prems by (intro Suc.IH) auto
  also have "take (Suc d) ?ys = take d xs @ [xs ! s]"
    using Suc.prems by (simp add: take_Suc_conv_app_nth)
  also have "take n (drop (Suc s) ?ys) = take n (drop (Suc s) xs)"
    using Suc.prems by (auto simp: drop_update_swap)
  also have "drop (Suc d + n) ?ys = drop (d + Suc n) xs"
    by simp
  also have "(take d xs @ [xs ! s]) @ take n (drop (Suc s) xs) @ drop (d + Suc n) xs =
      take d xs @ take (Suc n) (drop s xs) @ drop (d + Suc n) xs"
    using Suc.prems by (simp flip: Cons_nth_drop_Suc)
  finally show ?case by simp
qed simp

lemma memcmp_zero:
  "n \<le> length s1 \<Longrightarrow> n \<le> length s2 \<Longrightarrow> memcmp s1 s2 n = Some 0 \<longleftrightarrow> take n s1 = take n s2"
  by (induction s1 s2 n rule: memcmp.induct) (auto simp: word_uint_eq_iff)

lemma strlen_cstr: "0 \<in> set s \<Longrightarrow> strlen s = Some (length (cstr s))"
  by (induction s) auto

lemma zero_fill_correct: "n \<le> length s \<Longrightarrow> zero_fill s n = Some (replicate n 0 @ drop n s)"
  by (induction s n rule: zero_fill.induct) auto

lemma strncpy_correct:
  "n \<le> length s \<Longrightarrow> 0 \<in> set t \<or> n \<le> length t \<Longrightarrow>
   strncpy s t n = Some (take n (cstr t) @ replicate (n - length (cstr t)) 0 @ drop n s)"
proof (induction s t n rule: strncpy.induct)
  case (2 x s c t n)
  then show ?case by (auto simp: zero_fill_correct)
qed auto

lemma strncmp_zero:
  "0 \<in> set p \<or> n \<le> length p \<Longrightarrow> 0 \<in> set q \<or> n \<le> length q \<Longrightarrow>
   strncmp p q n = Some 0 \<longleftrightarrow> take n (cstr p) = take n (cstr q)"
  by (induction p q n rule: strncmp.induct) (auto simp: word_uint_eq_iff)

lemma memmove_correct:
  assumes "s + n \<le> length xs" and "d + n \<le> length xs"
  shows "memmove xs d s n = Some (take d xs @ take n (drop s xs) @ drop (d + n) xs)"
proof (cases "s < d \<and> s + n > d")
  case True
  then show ?thesis using assms copy_down_correct [of d n xs s] by (simp add: memmove_def)
next
  case False
  then have "d \<le> s \<or> s + n \<le> d" by auto
  then show ?thesis using False assms copy_up_correct [of d n xs s] by (auto simp: memmove_def)
qed

lemma memset_correct:
  "d + n \<le> length xs \<Longrightarrow> memset xs d c n = Some (take d xs @ replicate n c @ drop (d + n) xs)"
  by (simp add: memset_def memset_loop_correct)

text \<open>
  \<open>safestrcpy\<close> copies at most \<open>n - 1\<close> bytes of the string, terminates it, and writes nothing
  past the first \<open>n\<close> bytes.  A second NUL follows the first when the whole string fits.
\<close>

lemma safestrcpy_loop_correct:
  "k < length s \<Longrightarrow> 0 \<in> set t \<or> k \<le> length t \<Longrightarrow>
   \<exists>r. safestrcpy_loop s t k = Some r \<and> length r = length s \<and>
     cstr r = take k (cstr t) \<and> 0 \<in> set (take (Suc k) r) \<and> drop (Suc k) r = drop (Suc k) s"
proof (induction s t k rule: safestrcpy_loop.induct)
  case (2 x s c t n)
  then show ?case by (cases s) auto
qed auto

lemma safestrcpy_correct:
  assumes "0 < n" and "n \<le> int (length s)" and "0 \<in> set t \<or> n \<le> int (length t) + 1"
  shows "\<exists>r. safestrcpy s t n = Some r \<and> length r = length s \<and>
     cstr r = take (nat n - 1) (cstr t) \<and> 0 \<in> set (take (nat n) r) \<and> drop (nat n) r = drop (nat n) s"
proof -
  have "nat (n - 1) < length s" "0 \<in> set t \<or> nat (n - 1) \<le> length t" "Suc (nat (n - 1)) = nat n"
    "nat n - 1 = nat (n - 1)"
    using assms by auto
  then show ?thesis
    using assms(1) safestrcpy_loop_correct [of "nat (n - 1)" s t] by (simp add: safestrcpy_def)
qed


subsection \<open>What the string routines promise\<close>

text \<open>
  \<open>memmove\<close> copies \<open>n\<close> bytes as if through a buffer, however source and destination overlap,
  and changes nothing else; \<open>memset\<close> fills exactly \<open>n\<close> bytes; \<open>memcmp\<close> answers 0 exactly on equal
  bytes.
\<close>

theorem memmove_spec:
  assumes "s + n \<le> length xs" and "d + n \<le> length xs"
  shows "memmove xs d s n = Some (take d xs @ take n (drop s xs) @ drop (d + n) xs) \<and>
    memset xs d c n = Some (take d xs @ replicate n c @ drop (d + n) xs) \<and>
    (memcmp (drop s xs) (drop d xs) n = Some 0 \<longleftrightarrow> take n (drop s xs) = take n (drop d xs))"
  using memmove_correct [OF assms] memset_correct [OF assms(2)] memcmp_zero [of n "drop s xs" "drop d xs"] assms
  by simp

lemma memmove_spec_witness:
  "memmove [1, 2, 3, 4, 5] 1 0 3 = Some [1, 1, 2, 3, 5] \<and> memmove [1, 2, 3, 4, 5] 0 1 3 = Some [2, 3, 4, 4, 5]"
  using memmove_spec [of 0 3 "[1, 2, 3, 4, 5]" 1] memmove_spec [of 1 3 "[1, 2, 3, 4, 5]" 0] by simp

text \<open>
  The bounded string copies.  \<open>safestrcpy\<close> into a buffer of \<open>n\<close> bytes leaves a terminated
  string, the longest prefix that fits, and no byte past the first \<open>n\<close> changes; \<open>strncpy\<close> pads
  with zeros up to exactly \<open>n\<close> bytes (and terminates only when the string is shorter), so two names
  stored by it compare equal with \<open>strncmp\<close> exactly when their first \<open>n\<close> characters agree.
\<close>

theorem string_copy_spec:
  assumes "0 < n" and "n \<le> length s" and "0 \<in> set t"
  shows "(\<exists>r. safestrcpy s t (int n) = Some r \<and> length r = length s \<and> cstr r = take (n - 1) (cstr t) \<and>
      0 \<in> set (take n r) \<and> drop n r = drop n s) \<and>
    strncpy s t n = Some (take n (cstr t) @ replicate (n - length (cstr t)) 0 @ drop n s) \<and>
    (0 \<in> set u \<longrightarrow> (strncmp t u n = Some 0 \<longleftrightarrow> take n (cstr t) = take n (cstr u)))"
  using safestrcpy_correct [of "int n" s t] strncpy_correct [of n s t] strncmp_zero [of t n u] assms
  by simp

lemma string_copy_spec_witness:
  "\<exists>r. safestrcpy [9, 9, 9, 9] [65, 66, 67, 68, 0] 3 = Some r \<and> cstr r = [65, 66]"
  using string_copy_spec [of 3 "[9, 9, 9, 9]" "[65, 66, 67, 68, 0]"] by auto

end
