(* ===== verification/Kstate.thy ===== *)
theory Kstate
  imports Machine
begin

section \<open>The state of the kernel\<close>

text \<open>
  The structures of \<^verbatim>\<open>kernel/proc.h\<close>, \<^verbatim>\<open>file.h\<close>, \<^verbatim>\<open>fs.h\<close>, \<^verbatim>\<open>buf.h\<close>, \<^verbatim>\<open>sleeplock.h\<close> and the file-local
  structures of the components, and the record \<open>kernel\<close> that holds all of them.  A pointer to
  an element of a table (\<^verbatim>\<open>struct proc *\<close>, \<^verbatim>\<open>struct file *\<close>, \<^verbatim>\<open>struct inode *\<close>, \<^verbatim>\<open>struct buf *\<close>) is
  its index, the null pointer \<open>None\<close>.  Physical memory is the function \<open>mem\<close> of 64-bit cells;
  page tables, trap frames, user pages and the free list's links live in it.  A page used as a
  \<^verbatim>\<open>struct pipe\<close> is the record kept under its address in \<open>pipes\<close>.  Addresses fixed by the linker
  script are fields.  The contents that the disk has had are kept in \<open>dhist\<close>, which no routine reads: a crash leaves
  one of them.
\<close>

subsection \<open>Names of locks and wait channels\<close>

text \<open>The two places where a sleep lock lives, and every spin lock and channel of the kernel.\<close>

datatype slockid = SBuf nat | SInode nat

datatype lock = LPid | LWait | LProc nat | LKmem | LFtable | LItable | LBcache | LLog | LTicks
  | LPipe u64 | LCons | LUart | LDisk | LSleep slockid | LPr

datatype chan = CProc nat | CTicks | CPipeR u64 | CPipeW u64 | CLog | CSleep slockid | CCons
  | CUart | CDiskFree | CBuf nat

subsection \<open>Processes and CPUs\<close>

datatype procstate = UNUSED | USED | SLEEPING | RUNNABLE | RUNNING | ZOMBIE

text \<open>The C enumeration is ordered by its numbering, which \<^verbatim>\<open>procdump\<close> relies on.\<close>

primrec procstate_num :: "procstate \<Rightarrow> nat" where
  "procstate_num UNUSED = 0"
| "procstate_num USED = 1"
| "procstate_num SLEEPING = 2"
| "procstate_num RUNNABLE = 3"
| "procstate_num RUNNING = 4"
| "procstate_num ZOMBIE = 5"

lemma procstate_num_inj: "procstate_num a = procstate_num b \<longleftrightarrow> a = b"
  by (cases a; cases b) simp_all

instantiation procstate :: linorder
begin

definition less_eq_procstate :: "procstate \<Rightarrow> procstate \<Rightarrow> bool" where
  "less_eq_procstate a b \<longleftrightarrow> procstate_num a \<le> procstate_num b"

definition less_procstate :: "procstate \<Rightarrow> procstate \<Rightarrow> bool" where
  "less_procstate a b \<longleftrightarrow> procstate_num a < procstate_num b"

instance
  by standard (auto simp: less_eq_procstate_def less_procstate_def procstate_num_inj)

end

record kcontext =
  ctx_ra :: u64
  ctx_sp :: u64
  ctx_s :: "u64 list"

record cpu =
  cproc :: "nat option"
  cnoff :: int
  cintena :: bool
  csie :: bool
  held :: "lock list"

record proc =
  pstate :: procstate
  pchan :: "chan option"
  pkilled :: int
  xstate :: int
  pid :: int
  parent :: "nat option"
  kstack :: u64
  psz :: u64
  pagetable :: u64
  trapframe :: u64
  pcontext :: kcontext
  ofile :: "nat option list"
  cwd :: "nat option"
  pname :: "u8 list"
  trace_mask :: u32

text \<open>The fields of \<^verbatim>\<open>struct trapframe\<close>, as offsets into its page.\<close>

abbreviation (input) "TF_kernel_satp \<equiv> 0 :: u64"
abbreviation (input) "TF_kernel_sp \<equiv> 8 :: u64"
abbreviation (input) "TF_kernel_trap \<equiv> 16 :: u64"
abbreviation (input) "TF_epc \<equiv> 24 :: u64"
abbreviation (input) "TF_kernel_hartid \<equiv> 32 :: u64"
abbreviation (input) "TF_sp \<equiv> 48 :: u64"
abbreviation (input) "TF_a0 \<equiv> 112 :: u64"
abbreviation (input) "TF_a1 \<equiv> 120 :: u64"
abbreviation (input) "TF_a2 \<equiv> 128 :: u64"
abbreviation (input) "TF_a3 \<equiv> 136 :: u64"
abbreviation (input) "TF_a4 \<equiv> 144 :: u64"
abbreviation (input) "TF_a5 \<equiv> 152 :: u64"
abbreviation (input) "TF_a7 \<equiv> 168 :: u64"
abbreviation (input) "TF_size \<equiv> 288 :: u64"

subsection \<open>Files, inodes and blocks\<close>

record sleeplock =
  slocked :: bool
  slpid :: int

datatype fdtype = FD_NONE | FD_PIPE | FD_INODE | FD_DEVICE

record kfile =
  ftype :: fdtype
  fref :: int
  readable :: bool
  writable :: bool
  fpipe :: u64
  fip :: "nat option"
  foff :: u32
  fmajor :: u16

record inode =
  idev :: u32
  inum :: u32
  iref :: int
  ilock :: sleeplock
  ivalid :: bool
  itype :: u16
  imajor :: u16
  iminor :: u16
  nlink :: u16
  isize :: u32
  addrs :: "u32 list"

record superblock =
  sb_magic :: u32
  sb_size :: u32
  sb_nblocks :: u32
  sb_ninodes :: u32
  sb_nlog :: u32
  sb_logstart :: u32
  sb_inodestart :: u32
  sb_bmapstart :: u32

abbreviation (input) "ROOTINO \<equiv> 1 :: u32"
abbreviation (input) "BSIZE \<equiv> 1024 :: nat"
abbreviation (input) "FSMAGIC \<equiv> 0x10203040 :: u32"
abbreviation (input) "NDIRECT \<equiv> 12 :: nat"
abbreviation (input) "NINDIRECT \<equiv> 256 :: nat"
abbreviation (input) "MAXFILE \<equiv> 268 :: nat"
abbreviation (input) "IPB \<equiv> 16 :: u32"
abbreviation (input) "BPB \<equiv> 8192 :: u32"
abbreviation (input) "DIRSIZ \<equiv> 14 :: nat"
abbreviation (input) "T_DIR \<equiv> 1 :: u16"
abbreviation (input) "T_FILE \<equiv> 2 :: u16"
abbreviation (input) "T_DEVICE \<equiv> 3 :: u16"
abbreviation (input) "CONSOLE \<equiv> 1 :: nat"

definition IBLOCK :: "u32 \<Rightarrow> superblock \<Rightarrow> u32" where
  "IBLOCK i sb = i div IPB + sb_inodestart sb"

definition BBLOCK :: "u32 \<Rightarrow> superblock \<Rightarrow> u32" where
  "BBLOCK b sb = b div BPB + sb_bmapstart sb"

record buf =
  bvalid :: bool
  bdisk :: bool
  bdev :: u32
  blockno :: u32
  block_lock :: sleeplock
  refcnt :: u32
  bprev :: nat
  bnext :: nat
  bdata :: "u8 list"

record log =
  lg_start :: u32
  lg_size :: int
  lg_outstanding :: int
  lg_committing :: bool
  lg_dev :: u32
  lh_n :: int
  lh_block :: "u32 list"

record pipe =
  pi_data :: "u8 list"
  nread :: u32
  nwrite :: u32
  readopen :: bool
  writeopen :: bool

record console =
  cons_buf :: "u8 list"
  cons_r :: u32
  cons_w :: u32
  cons_e :: u32

record uart =
  tx_buf :: "u8 list"
  tx_w :: u64
  tx_r :: u64
  thr_ready :: nat
  thr_out :: "u8 list"
  rhr_in :: "u8 list"
  uart_regs :: "(nat \<times> u8) list"

subsection \<open>The trap registers, the interrupt controller and the disk interface\<close>

text \<open>
  The control and status registers of the CPU but for the interrupt-enable bit, which is \<open>csie\<close>.  The
  interrupt controller hands out \<open>plic_pending\<close> in order; what the kernel completed is \<open>plic_done\<close>.
\<close>

record csr =
  stvec :: u64
  sepc :: u64
  scause :: u64
  stval :: u64
  sstatus :: u64
  satp :: u64
  stimecmp :: u64
  tp :: u64

record plicst =
  plic_prio :: "nat \<Rightarrow> u32"
  plic_enable :: u32
  plic_thresh :: u32
  plic_pending :: "u32 list"
  plic_done :: "u32 list"

text \<open>The three kinds of memory that a descriptor of the disk points to.\<close>

datatype dma = DmaNone | DmaReq nat | DmaBuf nat | DmaStatus nat

record virtq_desc =
  vq_addr :: dma
  vq_len :: u32
  vq_flags :: u16
  vq_next :: u16

record virtio_blk_req =
  rq_type :: u32
  rq_reserved :: u32
  rq_sector :: u64

text \<open>
  What a register of the device reads as is a function \<open>vd_dev\<close> of the register writes so far, which
  are kept in \<open>vd_writes\<close>, newest first.
\<close>

record vdisk =
  vd_desc :: "virtq_desc list"
  av_idx :: u16
  av_ring :: "u16 list"
  us_idx :: u16
  us_ring :: "u32 list"
  vd_free :: "bool list"
  vd_used_idx :: u16
  vd_info_b :: "nat option list"
  vd_info_status :: "u8 list"
  vd_ops :: "virtio_blk_req list"
  vd_writes :: "(u64 \<times> u32) list"
  vd_dev :: "(u64 \<times> u32) list \<Rightarrow> u64 \<Rightarrow> u32"

text \<open>Code addresses that the C code takes.\<close>

datatype ksymbol = Sforkret | Susertrap | Skernelvec | Suservec | Suserret

subsection \<open>The kernel\<close>

record kernel =
  kcpu :: cpu
  procs :: "proc list"
  nextpid :: int
  initproc :: "nat option"
  loadavg :: u64
  runnable_procs :: u64
  mem :: "u64 \<Rightarrow> u64"
  freelist :: u64
  kend :: u64
  etext :: u64
  trampoline :: u64
  kernel_pagetable :: u64
  pipes :: "u64 \<Rightarrow> pipe"
  files :: "kfile list"
  inodes :: "inode list"
  sb :: superblock
  bufs :: "buf list"
  lg :: log
  disk :: "nat \<Rightarrow> u8 list"
  dhist :: "(nat \<Rightarrow> u8 list) list"
  ticks :: u32
  cons :: console
  uart_st :: uart
  csrs :: csr
  rtime :: u64
  plic :: plicst
  vdisk :: vdisk
  ksym :: "ksymbol \<Rightarrow> u64"
  fs_first :: bool

type_synonym 'a km = "(kernel, 'a) kM"

subsection \<open>Access to the tables\<close>

text \<open>
  An access through a null or out-of-range pointer has no meaning.  The \<open>_mod\<close> operations are
  assignments to fields of one element.
\<close>

definition proc_get :: "nat \<Rightarrow> proc km" where
  "proc_get i = (\<lambda>s. if i < length (procs s) then Ok (procs s ! i) s else Stuck)"

definition proc_mod :: "nat \<Rightarrow> (proc \<Rightarrow> proc) \<Rightarrow> unit km" where
  "proc_mod i f = (\<lambda>s. if i < length (procs s)
     then Ok () (s\<lparr>procs := (procs s)[i := f (procs s ! i)]\<rparr>) else Stuck)"

definition file_get :: "nat \<Rightarrow> kfile km" where
  "file_get i = (\<lambda>s. if i < length (files s) then Ok (files s ! i) s else Stuck)"

definition file_mod :: "nat \<Rightarrow> (kfile \<Rightarrow> kfile) \<Rightarrow> unit km" where
  "file_mod i f = (\<lambda>s. if i < length (files s)
     then Ok () (s\<lparr>files := (files s)[i := f (files s ! i)]\<rparr>) else Stuck)"

definition inode_get :: "nat \<Rightarrow> inode km" where
  "inode_get i = (\<lambda>s. if i < length (inodes s) then Ok (inodes s ! i) s else Stuck)"

definition inode_mod :: "nat \<Rightarrow> (inode \<Rightarrow> inode) \<Rightarrow> unit km" where
  "inode_mod i f = (\<lambda>s. if i < length (inodes s)
     then Ok () (s\<lparr>inodes := (inodes s)[i := f (inodes s ! i)]\<rparr>) else Stuck)"

definition buf_get :: "nat \<Rightarrow> buf km" where
  "buf_get i = (\<lambda>s. if i < length (bufs s) then Ok (bufs s ! i) s else Stuck)"

definition buf_mod :: "nat \<Rightarrow> (buf \<Rightarrow> buf) \<Rightarrow> unit km" where
  "buf_mod i f = (\<lambda>s. if i < length (bufs s)
     then Ok () (s\<lparr>bufs := (bufs s)[i := f (bufs s ! i)]\<rparr>) else Stuck)"

definition deref :: "'a option \<Rightarrow> 'a km" where
  "deref p = (case p of Some i \<Rightarrow> ret i | None \<Rightarrow> stuck)"

lemma deref_simps [simp]: "deref (Some i) = ret i" "deref None = stuck"
  by (simp_all add: deref_def)

lemmas table_defs = proc_get_def proc_mod_def file_get_def file_mod_def inode_get_def inode_mod_def
  buf_get_def buf_mod_def

lemma run_proc_get [simp]: "i < length (procs s) \<Longrightarrow> proc_get i s = Ok (procs s ! i) s"
  by (simp add: proc_get_def)

lemma run_proc_mod [simp]: "i < length (procs s) \<Longrightarrow>
    proc_mod i f s = Ok () (s\<lparr>procs := (procs s)[i := f (procs s ! i)]\<rparr>)"
  by (simp add: proc_mod_def)

lemma run_file_get [simp]: "i < length (files s) \<Longrightarrow> file_get i s = Ok (files s ! i) s"
  by (simp add: file_get_def)

lemma run_file_mod [simp]: "i < length (files s) \<Longrightarrow>
    file_mod i f s = Ok () (s\<lparr>files := (files s)[i := f (files s ! i)]\<rparr>)"
  by (simp add: file_mod_def)

lemma run_inode_get [simp]: "i < length (inodes s) \<Longrightarrow> inode_get i s = Ok (inodes s ! i) s"
  by (simp add: inode_get_def)

lemma run_inode_mod [simp]: "i < length (inodes s) \<Longrightarrow>
    inode_mod i f s = Ok () (s\<lparr>inodes := (inodes s)[i := f (inodes s ! i)]\<rparr>)"
  by (simp add: inode_mod_def)

lemma run_buf_get [simp]: "i < length (bufs s) \<Longrightarrow> buf_get i s = Ok (bufs s ! i) s"
  by (simp add: buf_get_def)

lemma run_buf_mod [simp]: "i < length (bufs s) \<Longrightarrow>
    buf_mod i f s = Ok () (s\<lparr>bufs := (bufs s)[i := f (bufs s ! i)]\<rparr>)"
  by (simp add: buf_mod_def)

lemma wp_proc_get [simp, wp_rules]:
  "wp e (proc_get i) Q B s = (if i < length (procs s) then Q (procs s ! i) s else e)"
  by (simp add: wp_def proc_get_def)

lemma wp_proc_mod [simp, wp_rules]:
  "wp e (proc_mod i f) Q B s =
     (if i < length (procs s) then Q () (s\<lparr>procs := (procs s)[i := f (procs s ! i)]\<rparr>) else e)"
  by (simp add: wp_def proc_mod_def)

lemma wp_file_get [simp, wp_rules]:
  "wp e (file_get i) Q B s = (if i < length (files s) then Q (files s ! i) s else e)"
  by (simp add: wp_def file_get_def)

lemma wp_file_mod [simp, wp_rules]:
  "wp e (file_mod i f) Q B s =
     (if i < length (files s) then Q () (s\<lparr>files := (files s)[i := f (files s ! i)]\<rparr>) else e)"
  by (simp add: wp_def file_mod_def)

lemma wp_inode_get [simp, wp_rules]:
  "wp e (inode_get i) Q B s = (if i < length (inodes s) then Q (inodes s ! i) s else e)"
  by (simp add: wp_def inode_get_def)

lemma wp_inode_mod [simp, wp_rules]:
  "wp e (inode_mod i f) Q B s =
     (if i < length (inodes s) then Q () (s\<lparr>inodes := (inodes s)[i := f (inodes s ! i)]\<rparr>) else e)"
  by (simp add: wp_def inode_mod_def)

lemma wp_buf_get [simp, wp_rules]:
  "wp e (buf_get i) Q B s = (if i < length (bufs s) then Q (bufs s ! i) s else e)"
  by (simp add: wp_def buf_get_def)

lemma wp_buf_mod [simp, wp_rules]:
  "wp e (buf_mod i f) Q B s =
     (if i < length (bufs s) then Q () (s\<lparr>bufs := (bufs s)[i := f (bufs s ! i)]\<rparr>) else e)"
  by (simp add: wp_def buf_mod_def)


subsection \<open>The state at boot\<close>

text \<open>
  Every static structure starts as zeros, but for \<^verbatim>\<open>nextpid = 1\<close> and \<^verbatim>\<open>first = 1\<close>; memory and disk
  hold what they held.  The linker's symbols are those of the kernel image.
\<close>

definition bss_proc :: proc where
  "bss_proc = \<lparr>pstate = UNUSED, pchan = None, pkilled = 0, xstate = 0, pid = 0, parent = None,
     kstack = 0, psz = 0, pagetable = 0, trapframe = 0,
     pcontext = \<lparr>ctx_ra = 0, ctx_sp = 0, ctx_s = replicate 12 0\<rparr>,
     ofile = replicate NOFILE None, cwd = None, pname = replicate 16 0, trace_mask = 0\<rparr>"

definition bss_file :: kfile where
  "bss_file = \<lparr>ftype = FD_NONE, fref = 0, readable = False, writable = False, fpipe = 0, fip = None,
     foff = 0, fmajor = 0\<rparr>"

definition bss_inode :: inode where
  "bss_inode = \<lparr>idev = 0, inum = 0, iref = 0, ilock = \<lparr>slocked = False, slpid = 0\<rparr>, ivalid = False,
     itype = 0, imajor = 0, iminor = 0, nlink = 0, isize = 0, addrs = replicate 13 0\<rparr>"

definition bss_buf :: buf where
  "bss_buf = \<lparr>bvalid = False, bdisk = False, bdev = 0, blockno = 0,
     block_lock = \<lparr>slocked = False, slpid = 0\<rparr>, refcnt = 0, bprev = 0, bnext = 0,
     bdata = replicate BSIZE 0\<rparr>"

definition bss_kernel :: "(u64 \<Rightarrow> u64) \<Rightarrow> (nat \<Rightarrow> u8 list) \<Rightarrow> kernel" where
  "bss_kernel m d = \<lparr>
     kcpu = \<lparr>cproc = None, cnoff = 0, cintena = False, csie = False, held = []\<rparr>,
     procs = replicate NPROC bss_proc, nextpid = 1, initproc = None, loadavg = 0, runnable_procs = 0,
     mem = m, freelist = 0, kend = 0x80022000, etext = 0x80008000, trampoline = 0x80007000,
     kernel_pagetable = 0,
     pipes = \<lambda>_. \<lparr>pi_data = replicate 512 0, nread = 0, nwrite = 0, readopen = False, writeopen = False\<rparr>,
     files = replicate NFILE bss_file, inodes = replicate NINODE bss_inode,
     sb = \<lparr>sb_magic = 0, sb_size = 0, sb_nblocks = 0, sb_ninodes = 0, sb_nlog = 0, sb_logstart = 0,
       sb_inodestart = 0, sb_bmapstart = 0\<rparr>,
     bufs = replicate (NBUF + 1) bss_buf,
     lg = \<lparr>lg_start = 0, lg_size = 0, lg_outstanding = 0, lg_committing = False, lg_dev = 0, lh_n = 0,
       lh_block = replicate 30 0\<rparr>,
     disk = d, dhist = [], ticks = 0,
     cons = \<lparr>cons_buf = replicate 128 0, cons_r = 0, cons_w = 0, cons_e = 0\<rparr>,
     uart_st = \<lparr>tx_buf = replicate 32 0, tx_w = 0, tx_r = 0, thr_ready = 1, thr_out = [], rhr_in = [], uart_regs = []\<rparr>,
     csrs = \<lparr>stvec = 0, sepc = 0, scause = 0, stval = 0, sstatus = 0, satp = 0, stimecmp = 0, tp = 0\<rparr>,
     rtime = 0,
     plic = \<lparr>plic_prio = \<lambda>_. 0, plic_enable = 0, plic_thresh = 0, plic_pending = [], plic_done = []\<rparr>,
     vdisk = \<lparr>vd_desc = replicate 8 \<lparr>vq_addr = DmaNone, vq_len = 0, vq_flags = 0, vq_next = 0\<rparr>,
       av_idx = 0, av_ring = replicate 8 0, us_idx = 0, us_ring = replicate 8 0,
       vd_free = replicate 8 False, vd_used_idx = 0, vd_info_b = replicate 8 None,
       vd_info_status = replicate 8 0, vd_ops = replicate 8 \<lparr>rq_type = 0, rq_reserved = 0, rq_sector = 0\<rparr>,
       vd_writes = [], vd_dev = \<lambda>_ _. 0\<rparr>,
     ksym = \<lambda>k. case k of Sforkret \<Rightarrow> 0x80001900 | Susertrap \<Rightarrow> 0x80002600 | Skernelvec \<Rightarrow> 0x80005600
       | Suservec \<Rightarrow> 0x80007000 | Suserret \<Rightarrow> 0x8000709c,
     fs_first = True\<rparr>"

lemma bss_simps [simp]:
  "procs (bss_kernel m d) = replicate NPROC bss_proc"
  "files (bss_kernel m d) = replicate NFILE bss_file"
  "inodes (bss_kernel m d) = replicate NINODE bss_inode"
  "kcpu (bss_kernel m d) = \<lparr>cproc = None, cnoff = 0, cintena = False, csie = False, held = []\<rparr>"
  "nextpid (bss_kernel m d) = 1" "mem (bss_kernel m d) = m" "disk (bss_kernel m d) = d" "dhist (bss_kernel m d) = []"
  "bufs (bss_kernel m d) = replicate (NBUF + 1) bss_buf"
  "freelist (bss_kernel m d) = 0" "kend (bss_kernel m d) = 0x80022000"
  "initproc (bss_kernel m d) = None" "loadavg (bss_kernel m d) = 0"
  by (simp_all add: bss_kernel_def)

end
