(* ===== verification/Spinlock.thy ===== *)
theory Spinlock
  imports Machine
begin

section \<open>Spin locks on several harts (\<^verbatim>\<open>kernel/spinlock.c\<close>)\<close>

text \<open>
  The spin lock at the level of the hardware: every hart has its interrupt-enable bit and
  the \<^verbatim>\<open>noff\<close>/\<^verbatim>\<open>intena\<close> pair of \<^verbatim>\<open>struct cpu\<close>, every lock its \<^verbatim>\<open>locked\<close> word and owner.  Each routine
  takes the hart that runs it (\<^verbatim>\<open>cpuid()\<close>).  \<open>acquire\<close> and \<open>release\<close> are split where another
  hart can interleave: at the atomic swap of \<^verbatim>\<open>locked\<close>.  The step relation \<open>hstep\<close> lets any
  number of harts run them in any order; mutual exclusion and the accounting of interrupts
  are invariants of its reachable states.
\<close>

record spinlock =
  locked :: u32
  lname :: string
  lcpu :: "nat option"

record hart =
  noff :: int
  intena :: bool
  sie :: bool

record 'l hw =
  harts :: "nat \<Rightarrow> hart"
  locks :: "'l \<Rightarrow> spinlock"

definition upd_hart :: "nat \<Rightarrow> (hart \<Rightarrow> hart) \<Rightarrow> ('l hw, unit) kM" where
  "upd_hart c f = modify (\<lambda>m. m\<lparr>harts := (harts m)(c := f (harts m c))\<rparr>)"

definition upd_lock :: "'l \<Rightarrow> (spinlock \<Rightarrow> spinlock) \<Rightarrow> ('l hw, unit) kM" where
  "upd_lock l f = modify (\<lambda>m. m\<lparr>locks := (locks m)(l := f (locks m l))\<rparr>)"

definition intr_get :: "nat \<Rightarrow> ('l hw, bool) kM" where
  "intr_get c = gets (\<lambda>m. sie (harts m c))"

definition intr_on :: "nat \<Rightarrow> ('l hw, unit) kM" where
  "intr_on c = upd_hart c (\<lambda>h. h\<lparr>sie := True\<rparr>)"

definition intr_off :: "nat \<Rightarrow> ('l hw, unit) kM" where
  "intr_off c = upd_hart c (\<lambda>h. h\<lparr>sie := False\<rparr>)"

definition hw_initlock :: "'l \<Rightarrow> string \<Rightarrow> ('l hw, unit) kM" where
  "hw_initlock l name = upd_lock l (\<lambda>k. k\<lparr>lname := name, locked := 0, lcpu := None\<rparr>)"

definition push_off :: "nat \<Rightarrow> ('l hw, unit) kM" where
  "push_off c =
     bnd (intr_get c) (\<lambda>old.
     seq (intr_off c) (
     bnd (gets (\<lambda>m. noff (harts m c))) (\<lambda>n.
     seq (whenM (n = 0) (upd_hart c (\<lambda>h. h\<lparr>intena := old\<rparr>)))
         (upd_hart c (\<lambda>h. h\<lparr>noff := noff h + 1\<rparr>)))))"

definition pop_off :: "nat \<Rightarrow> ('l hw, unit) kM" where
  "pop_off c =
     bnd (intr_get c) (\<lambda>on.
     seq (guard_panic on ''pop_off - interruptible'') (
     bnd (gets (\<lambda>m. noff (harts m c))) (\<lambda>n.
     seq (guard_panic (n < 1) ''pop_off'') (
     seq (upd_hart c (\<lambda>h. h\<lparr>noff := noff h - 1\<rparr>)) (
     bnd (gets (\<lambda>m. harts m c)) (\<lambda>h.
     whenM (noff h = 0 \<and> intena h) (intr_on c)))))))"

definition hw_holding :: "nat \<Rightarrow> 'l \<Rightarrow> ('l hw, bool) kM" where
  "hw_holding c l = gets (\<lambda>m. locked (locks m l) \<noteq> 0 \<and> lcpu (locks m l) = Some c)"

definition acquire_enter :: "nat \<Rightarrow> 'l \<Rightarrow> ('l hw, unit) kM" where
  "acquire_enter c l = seq (push_off c) (bnd (hw_holding c l) (\<lambda>r. guard_panic r ''acquire''))"

definition test_and_set :: "'l \<Rightarrow> ('l hw, u32) kM" where
  "test_and_set l = bnd (gets (\<lambda>m. locked (locks m l))) (\<lambda>old.
     seq (upd_lock l (\<lambda>k. k\<lparr>locked := 1\<rparr>)) (ret old))"

definition acquire_record :: "nat \<Rightarrow> 'l \<Rightarrow> ('l hw, unit) kM" where
  "acquire_record c l = upd_lock l (\<lambda>k. k\<lparr>lcpu := Some c\<rparr>)"

text \<open>
  The whole routine without interference: where the lock is taken by another hart it would
  spin for ever.
\<close>

definition hw_acquire :: "nat \<Rightarrow> 'l \<Rightarrow> ('l hw, unit) kM" where
  "hw_acquire c l =
     seq (acquire_enter c l) (
     bnd (test_and_set l) (\<lambda>old.
     if old \<noteq> 0 then stuck else acquire_record c l))"

definition release_clear :: "nat \<Rightarrow> 'l \<Rightarrow> ('l hw, unit) kM" where
  "release_clear c l =
     bnd (hw_holding c l) (\<lambda>r.
     seq (guard_panic (\<not> r) ''release'') (upd_lock l (\<lambda>k. k\<lparr>lcpu := None\<rparr>)))"

definition release_unlock :: "nat \<Rightarrow> 'l \<Rightarrow> ('l hw, unit) kM" where
  "release_unlock c l = seq (upd_lock l (\<lambda>k. k\<lparr>locked := 0\<rparr>)) (pop_off c)"

definition hw_release :: "nat \<Rightarrow> 'l \<Rightarrow> ('l hw, unit) kM" where
  "hw_release c l = seq (release_clear c l) (release_unlock c l)"

lemmas hw_defs = upd_hart_def upd_lock_def intr_get_def intr_on_def intr_off_def push_off_def
  pop_off_def hw_holding_def acquire_enter_def test_and_set_def acquire_record_def
  release_clear_def release_unlock_def

subsection \<open>One hart: matched pairs restore the interrupt state\<close>

lemma push_off_run:
  "push_off c m = Ok () (m\<lparr>harts := (harts m)(c := (harts m c)\<lparr>noff := noff (harts m c) + 1,
      intena := (if noff (harts m c) = 0 then sie (harts m c) else intena (harts m c)), sie := False\<rparr>)\<rparr>)"
  by (cases "harts m c") (simp add: hw_defs)

lemma pop_off_run:
  "pop_off c m =
     (if sie (harts m c) then Panic ''pop_off - interruptible''
      else if noff (harts m c) < 1 then Panic ''pop_off''
      else Ok () (m\<lparr>harts := (harts m)(c := (harts m c)\<lparr>noff := noff (harts m c) - 1,
        sie := (noff (harts m c) = 1 \<and> intena (harts m c))\<rparr>)\<rparr>))"
  by (cases "harts m c") (auto simp: hw_defs)

lemma push_pop_restores:
  assumes "0 \<le> noff (harts m c)" and "0 < noff (harts m c) \<Longrightarrow> \<not> sie (harts m c)"
  shows "\<exists>m'. seq (push_off c) (pop_off c) m = Ok () m' \<and> locks m' = locks m \<and>
     noff (harts m' c) = noff (harts m c) \<and> sie (harts m' c) = sie (harts m c) \<and>
     (\<forall>d. d \<noteq> c \<longrightarrow> harts m' d = harts m d)"
  using assms by (auto simp: push_off_run pop_off_run)

subsection \<open>Several harts\<close>

datatype 'l pc = Run | Spin 'l | Got 'l | Rel 'l

record 'l smp =
  hwst :: "'l hw"
  pcs :: "nat \<Rightarrow> 'l pc"
  owned :: "nat \<Rightarrow> 'l list"

definition smp_init :: "'l smp \<Rightarrow> bool" where
  "smp_init s \<longleftrightarrow> (\<forall>l. locked (locks (hwst s) l) = 0 \<and> lcpu (locks (hwst s) l) = None) \<and>
     (\<forall>c. pcs s c = Run \<and> owned s c = [] \<and> noff (harts (hwst s) c) = 0)"

inductive hstep :: "'l smp \<Rightarrow> 'l smp \<Rightarrow> bool" where
  enter: "pcs s c = Run \<Longrightarrow> acquire_enter c l (hwst s) = Ok () m \<Longrightarrow>
    hstep s (s\<lparr>hwst := m, pcs := (pcs s)(c := Spin l)\<rparr>)"
| swap_fails: "pcs s c = Spin l \<Longrightarrow> test_and_set l (hwst s) = Ok old m \<Longrightarrow> old \<noteq> 0 \<Longrightarrow>
    hstep s (s\<lparr>hwst := m\<rparr>)"
| swap_wins: "pcs s c = Spin l \<Longrightarrow> test_and_set l (hwst s) = Ok 0 m \<Longrightarrow>
    hstep s (s\<lparr>hwst := m, pcs := (pcs s)(c := Got l)\<rparr>)"
| record_owner: "pcs s c = Got l \<Longrightarrow> acquire_record c l (hwst s) = Ok () m \<Longrightarrow>
    hstep s (s\<lparr>hwst := m, pcs := (pcs s)(c := Run), owned := (owned s)(c := l # owned s c)\<rparr>)"
| clear_owner: "pcs s c = Run \<Longrightarrow> release_clear c l (hwst s) = Ok () m \<Longrightarrow>
    hstep s (s\<lparr>hwst := m, pcs := (pcs s)(c := Rel l), owned := (owned s)(c := remove1 l (owned s c))\<rparr>)"
| unlock: "pcs s c = Rel l \<Longrightarrow> release_unlock c l (hwst s) = Ok () m \<Longrightarrow>
    hstep s (s\<lparr>hwst := m, pcs := (pcs s)(c := Run)\<rparr>)"
| interrupts: "pcs s c = Run \<Longrightarrow> owned s c = [] \<Longrightarrow> intr_on c (hwst s) = Ok () m \<or> intr_off c (hwst s) = Ok () m \<Longrightarrow>
    hstep s (s\<lparr>hwst := m\<rparr>)"

inductive reachable :: "'l smp \<Rightarrow> bool" where
  init: "smp_init s \<Longrightarrow> reachable s"
| step: "reachable s \<Longrightarrow> hstep s t \<Longrightarrow> reachable t"

text \<open>A hart is inside a lock from the swap that took it to the store that frees it.\<close>

definition inside :: "'l smp \<Rightarrow> nat \<Rightarrow> 'l \<Rightarrow> bool" where
  "inside s c l \<longleftrightarrow> pcs s c = Got l \<or> pcs s c = Rel l \<or> l \<in> set (owned s c)"

definition excl_inv :: "'l smp \<Rightarrow> bool" where
  "excl_inv s \<longleftrightarrow>
     (\<forall>l c. inside s c l \<longrightarrow> locked (locks (hwst s) l) \<noteq> 0) \<and>
     (\<forall>l c d. inside s c l \<longrightarrow> inside s d l \<longrightarrow> c = d) \<and>
     (\<forall>l c. lcpu (locks (hwst s) l) = Some c \<longleftrightarrow> l \<in> set (owned s c)) \<and>
     (\<forall>l c. l \<in> set (owned s c) \<longrightarrow> pcs s c \<noteq> Got l \<and> pcs s c \<noteq> Rel l) \<and>
     (\<forall>c. distinct (owned s c))"

definition depth_ok :: "hart \<Rightarrow> nat \<Rightarrow> bool \<Rightarrow> bool" where
  "depth_ok h n busy \<longleftrightarrow> noff h = int n + (if busy then 1 else 0) \<and> (0 < noff h \<longrightarrow> \<not> sie h)"

definition depth_inv :: "'l smp \<Rightarrow> bool" where
  "depth_inv s \<longleftrightarrow> (\<forall>c. depth_ok (harts (hwst s) c) (length (owned s c)) (pcs s c \<noteq> Run))"

lemma acquire_enter_Ok:
  "acquire_enter c l m = Ok () m' \<longleftrightarrow>
     \<not> (locked (locks m l) \<noteq> 0 \<and> lcpu (locks m l) = Some c) \<and> push_off c m = Ok () m'"
  by (auto simp: acquire_enter_def hw_holding_def push_off_run)

lemma test_and_set_Ok:
  "test_and_set l m = Ok old m' \<longleftrightarrow> old = locked (locks m l) \<and>
     m' = m\<lparr>locks := (locks m)(l := (locks m l)\<lparr>locked := 1\<rparr>)\<rparr>"
  by (auto simp: test_and_set_def upd_lock_def)

lemma acquire_record_Ok:
  "acquire_record c l m = Ok () m' \<longleftrightarrow> m' = m\<lparr>locks := (locks m)(l := (locks m l)\<lparr>lcpu := Some c\<rparr>)\<rparr>"
  by (auto simp: acquire_record_def upd_lock_def)

lemma release_clear_Ok:
  "release_clear c l m = Ok () m' \<longleftrightarrow> locked (locks m l) \<noteq> 0 \<and> lcpu (locks m l) = Some c \<and>
     m' = m\<lparr>locks := (locks m)(l := (locks m l)\<lparr>lcpu := None\<rparr>)\<rparr>"
  by (auto simp: release_clear_def hw_holding_def upd_lock_def)

lemma release_unlock_Ok:
  "release_unlock c l m = Ok () m' \<longleftrightarrow>
     pop_off c (m\<lparr>locks := (locks m)(l := (locks m l)\<lparr>locked := 0\<rparr>)\<rparr>) = Ok () m'"
  by (simp add: release_unlock_def upd_lock_def)

lemmas hw_Ok = acquire_enter_Ok test_and_set_Ok acquire_record_Ok release_clear_Ok release_unlock_Ok
  push_off_run pop_off_run

text \<open>What each step does to the set of locks a hart is inside.\<close>

lemma inside_update_pc:
  "inside (s\<lparr>hwst := m, pcs := (pcs s)(c := p)\<rparr>) d k \<longleftrightarrow>
     (if d = c then p = Got k \<or> p = Rel k \<or> k \<in> set (owned s c) else inside s d k)"
  by (simp add: inside_def)

lemma inside_update_owned:
  "inside (s\<lparr>hwst := m, pcs := (pcs s)(c := p), owned := (owned s)(c := ls)\<rparr>) d k \<longleftrightarrow>
     (if d = c then p = Got k \<or> p = Rel k \<or> k \<in> set ls else inside s d k)"
  by (simp add: inside_def)

lemma excl_invI:
  assumes "\<And>l c. inside s c l \<Longrightarrow> locked (locks (hwst s) l) \<noteq> 0"
    and "\<And>l c d. inside s c l \<Longrightarrow> inside s d l \<Longrightarrow> c = d"
    and "\<And>l c. lcpu (locks (hwst s) l) = Some c \<longleftrightarrow> l \<in> set (owned s c)"
    and "\<And>l c. l \<in> set (owned s c) \<Longrightarrow> pcs s c \<noteq> Got l \<and> pcs s c \<noteq> Rel l"
    and "\<And>c. distinct (owned s c)"
  shows "excl_inv s"
  unfolding excl_inv_def using assms by blast

lemma excl_invD:
  assumes "excl_inv s"
  shows excl_locked: "inside s c l \<Longrightarrow> locked (locks (hwst s) l) \<noteq> 0"
    and excl_unique: "inside s c l \<Longrightarrow> inside s d l \<Longrightarrow> c = d"
    and excl_owner: "lcpu (locks (hwst s) l) = Some c \<longleftrightarrow> l \<in> set (owned s c)"
    and excl_pc: "l \<in> set (owned s c) \<Longrightarrow> pcs s c \<noteq> Got l \<and> pcs s c \<noteq> Rel l"
    and excl_distinct: "distinct (owned s c)"
  using assms unfolding excl_inv_def by blast+

lemma excl_enter:
  assumes "excl_inv s" and "pcs s c = Run" and "locks m = locks (hwst s)" and "p = Run \<or> p = Spin l"
  shows "excl_inv (s\<lparr>hwst := m, pcs := (pcs s)(c := p)\<rparr>)"
proof -
  have ins: "inside (s\<lparr>hwst := m, pcs := (pcs s)(c := p)\<rparr>) d k = inside s d k" for d k
    using assms(2,4) by (auto simp: inside_update_pc) (auto simp: inside_def)
  show ?thesis
    by (rule excl_invI)
      (use assms excl_invD [OF assms(1)] in \<open>auto simp: ins\<close>)
qed

lemma excl_swap_fails:
  assumes "excl_inv s" and "locked (locks (hwst s) l) \<noteq> 0"
    and "locks m = (locks (hwst s))(l := (locks (hwst s) l)\<lparr>locked := 1\<rparr>)"
  shows "excl_inv (s\<lparr>hwst := m\<rparr>)"
proof -
  have ins: "inside (s\<lparr>hwst := m\<rparr>) d k = inside s d k" for d k
    by (simp add: inside_def)
  show ?thesis
    by (rule excl_invI)
      (use assms excl_invD [OF assms(1)] in \<open>auto simp: ins\<close>)
qed

lemma excl_swap_wins:
  assumes "excl_inv s" and pc: "pcs s c = Spin l" and free: "locked (locks (hwst s) l) = 0"
    and m: "locks m = (locks (hwst s))(l := (locks (hwst s) l)\<lparr>locked := 1\<rparr>)"
  shows "excl_inv (s\<lparr>hwst := m, pcs := (pcs s)(c := Got l)\<rparr>)"
proof -
  note D = excl_invD [OF assms(1)]
  have none: "\<not> inside s d l" for d using D(1) free by blast
  have ins: "inside (s\<lparr>hwst := m, pcs := (pcs s)(c := Got l)\<rparr>) d k \<longleftrightarrow> inside s d k \<or> d = c \<and> k = l" for d k
    using pc by (auto simp: inside_update_pc) (auto simp: inside_def)
  have owned_none: "l \<notin> set (owned s d)" for d using none [of d] by (simp add: inside_def)
  show ?thesis
  proof (rule excl_invI, unfold ins)
    fix k d show "inside s d k \<or> d = c \<and> k = l \<Longrightarrow>
       locked (locks (hwst (s\<lparr>hwst := m, pcs := (pcs s)(c := Got l)\<rparr>)) k) \<noteq> 0"
      using D(1) by (auto simp: m)
  next
    fix k d e show "inside s d k \<or> d = c \<and> k = l \<Longrightarrow> inside s e k \<or> e = c \<and> k = l \<Longrightarrow> d = e"
      using D(2) none by blast
  qed (use D(3,4,5) owned_none in \<open>auto simp: m\<close>)
qed

lemma excl_record_owner:
  assumes "excl_inv s" and pc: "pcs s c = Got l"
    and m: "locks m = (locks (hwst s))(l := (locks (hwst s) l)\<lparr>lcpu := Some c\<rparr>)"
  shows "excl_inv (s\<lparr>hwst := m, pcs := (pcs s)(c := Run), owned := (owned s)(c := l # owned s c)\<rparr>)"
proof -
  note D = excl_invD [OF assms(1)]
  have ins: "inside (s\<lparr>hwst := m, pcs := (pcs s)(c := Run), owned := (owned s)(c := l # owned s c)\<rparr>) d k
      \<longleftrightarrow> inside s d k" for d k
    using pc by (auto simp: inside_update_owned) (auto simp: inside_def)
  have here: "inside s c l" using pc by (simp add: inside_def)
  have other: "l \<in> set (owned s d) \<longleftrightarrow> False" for d
    using D(2) [OF here, of d] D(4) [of l c] pc by (auto simp: inside_def)
  show ?thesis
  proof (rule excl_invI, unfold ins)
    fix k d show "inside s d k \<Longrightarrow> locked (locks (hwst (s\<lparr>hwst := m, pcs := (pcs s)(c := Run),
        owned := (owned s)(c := l # owned s c)\<rparr>)) k) \<noteq> 0"
      using D(1) by (auto simp: m)
  next
    fix k d e show "inside s d k \<Longrightarrow> inside s e k \<Longrightarrow> d = e"
      using D(2) by blast
  qed (use D(3,4,5) other in \<open>auto simp: m\<close>)
qed

lemma excl_clear_owner:
  assumes "excl_inv s" and pc: "pcs s c = Run" and own: "lcpu (locks (hwst s) l) = Some c"
    and m: "locks m = (locks (hwst s))(l := (locks (hwst s) l)\<lparr>lcpu := None\<rparr>)"
  shows "excl_inv (s\<lparr>hwst := m, pcs := (pcs s)(c := Rel l), owned := (owned s)(c := remove1 l (owned s c))\<rparr>)"
proof -
  note D = excl_invD [OF assms(1)]
  have mem: "l \<in> set (owned s c)" using own D(3) by blast
  have rem: "set (remove1 l (owned s c)) = set (owned s c) - {l}"
    using D(5) by (rule set_remove1_eq)
  have ins: "inside (s\<lparr>hwst := m, pcs := (pcs s)(c := Rel l), owned := (owned s)(c := remove1 l (owned s c))\<rparr>) d k
      \<longleftrightarrow> inside s d k" for d k
    using pc mem by (auto simp: inside_update_owned rem) (auto simp: inside_def)
  have here: "inside s c l" using mem by (simp add: inside_def)
  have other: "l \<in> set (owned s d) \<Longrightarrow> d = c" for d
    using D(2) [OF here, of d] by (auto simp: inside_def)
  show ?thesis
  proof (rule excl_invI, unfold ins)
    fix k d show "inside s d k \<Longrightarrow> locked (locks (hwst (s\<lparr>hwst := m, pcs := (pcs s)(c := Rel l),
        owned := (owned s)(c := remove1 l (owned s c))\<rparr>)) k) \<noteq> 0"
      using D(1) by (auto simp: m)
  next
    fix k d e show "inside s d k \<Longrightarrow> inside s e k \<Longrightarrow> d = e"
      using D(2) by blast
  qed (use D(3,4,5) other in \<open>auto simp: m rem\<close>)
qed

lemma excl_unlock:
  assumes "excl_inv s" and pc: "pcs s c = Rel l"
    and m: "locks m = (locks (hwst s))(l := (locks (hwst s) l)\<lparr>locked := 0\<rparr>)"
  shows "excl_inv (s\<lparr>hwst := m, pcs := (pcs s)(c := Run)\<rparr>)"
proof -
  note D = excl_invD [OF assms(1)]
  have here: "inside s c l" using pc by (simp add: inside_def)
  have ins: "inside (s\<lparr>hwst := m, pcs := (pcs s)(c := Run)\<rparr>) d k \<longleftrightarrow> inside s d k \<and> \<not> k = l" for d k
    using pc D(2) [OF here, of d] D(4) [of l c] by (auto simp: inside_update_pc) (auto simp: inside_def)
  show ?thesis
  proof (rule excl_invI, unfold ins)
    fix k d show "inside s d k \<and> \<not> k = l \<Longrightarrow>
        locked (locks (hwst (s\<lparr>hwst := m, pcs := (pcs s)(c := Run)\<rparr>)) k) \<noteq> 0"
      using D(1) by (auto simp: m)
  next
    fix k d e show "inside s d k \<and> \<not> k = l \<Longrightarrow> inside s e k \<and> \<not> k = l \<Longrightarrow> d = e"
      using D(2) by blast
  qed (use D(3,4,5) in \<open>auto simp: m\<close>)
qed

lemma push_off_locks: "push_off c m = Ok () m' \<Longrightarrow> locks m' = locks m"
  by (auto simp: push_off_run)

lemma pop_off_locks: "pop_off c m = Ok () m' \<Longrightarrow> locks m' = locks m"
  by (auto simp: pop_off_run split: if_splits)

lemma excl_inv_step: "hstep s t \<Longrightarrow> excl_inv s \<Longrightarrow> excl_inv t"
proof (induction rule: hstep.induct)
  case (enter s c l m)
  then show ?case by (intro excl_enter) (auto simp: acquire_enter_Ok dest: push_off_locks)
next
  case (swap_fails s c l old m)
  then show ?case by (intro excl_swap_fails [of s l]) (auto simp: test_and_set_Ok)
next
  case (swap_wins s c l m)
  then show ?case by (intro excl_swap_wins) (auto simp: test_and_set_Ok)
next
  case (record_owner s c l m)
  then show ?case by (intro excl_record_owner) (auto simp: acquire_record_Ok)
next
  case (clear_owner s c l m)
  then show ?case by (intro excl_clear_owner) (auto simp: release_clear_Ok)
next
  case (unlock s c l m)
  then show ?case by (intro excl_unlock) (auto simp: release_unlock_Ok dest: pop_off_locks)
next
  case (interrupts s c m)
  then have "locks m = locks (hwst s)" by (auto simp: hw_defs)
  then show ?case
    using excl_invD [OF interrupts(4)] by (intro excl_invI) (auto simp: inside_def)
qed

text \<open>The nesting depth of every hart, step by step.\<close>

lemma depth_inv_upd:
  assumes "depth_inv s"
    and "\<And>d. d \<noteq> c \<Longrightarrow> harts (hwst t) d = harts (hwst s) d"
    and "\<And>d. d \<noteq> c \<Longrightarrow> owned t d = owned s d"
    and "\<And>d. d \<noteq> c \<Longrightarrow> (pcs t d = Run) = (pcs s d = Run)"
    and "depth_ok (harts (hwst s) c) (length (owned s c)) (pcs s c \<noteq> Run) \<Longrightarrow>
      depth_ok (harts (hwst t) c) (length (owned t c)) (pcs t c \<noteq> Run)"
  shows "depth_inv t"
  unfolding depth_inv_def
proof
  fix d
  show "depth_ok (harts (hwst t) d) (length (owned t d)) (pcs t d \<noteq> Run)"
    using assms unfolding depth_inv_def by (cases "d = c") simp_all
qed

lemma depth_inv_step: "hstep s t \<Longrightarrow> excl_inv s \<Longrightarrow> depth_inv s \<Longrightarrow> depth_inv t"
proof (induction rule: hstep.induct)
  case (enter s c l m)
  have m: "harts m = (harts (hwst s))(c := (harts (hwst s) c)\<lparr>noff := noff (harts (hwst s) c) + 1,
      intena := (if noff (harts (hwst s) c) = 0 then sie (harts (hwst s) c) else intena (harts (hwst s) c)),
      sie := False\<rparr>)"
    using enter(2) by (auto simp: acquire_enter_Ok push_off_run)
  show ?case
    by (rule depth_inv_upd [OF enter(4), of c]) (use enter(1) in \<open>simp_all add: m depth_ok_def\<close>)
next
  case (swap_fails s c l old m)
  have m: "harts m = harts (hwst s)" using swap_fails(2) by (simp add: test_and_set_Ok)
  show ?case
    by (rule depth_inv_upd [OF swap_fails(5), of c]) (simp_all add: m)
next
  case (swap_wins s c l m)
  have m: "harts m = harts (hwst s)" using swap_wins(2) by (simp add: test_and_set_Ok)
  show ?case
    by (rule depth_inv_upd [OF swap_wins(4), of c]) (use swap_wins(1) in \<open>simp_all add: m\<close>)
next
  case (record_owner s c l m)
  have m: "harts m = harts (hwst s)" using record_owner(2) by (simp add: acquire_record_Ok)
  show ?case
    by (rule depth_inv_upd [OF record_owner(4), of c])
      (use record_owner(1) in \<open>simp_all add: m depth_ok_def\<close>)
next
  case (clear_owner s c l m)
  have own: "l \<in> set (owned s c)" and m: "harts m = harts (hwst s)"
    using clear_owner(2) excl_owner [OF clear_owner(3)] by (auto simp: release_clear_Ok)
  show ?case
    by (rule depth_inv_upd [OF clear_owner(4), of c])
      (use clear_owner(1) length_remove1_Suc [OF own] in \<open>simp_all add: m depth_ok_def\<close>)
next
  case (unlock s c l m)
  have m: "harts m = (harts (hwst s))(c := (harts (hwst s) c)\<lparr>noff := noff (harts (hwst s) c) - 1,
        sie := (noff (harts (hwst s) c) = 1 \<and> intena (harts (hwst s) c))\<rparr>)"
    using unlock(2) by (auto simp: release_unlock_Ok pop_off_run split: if_splits)
  show ?case
    by (rule depth_inv_upd [OF unlock(4), of c]) (use unlock(1) in \<open>simp_all add: m depth_ok_def\<close>)
next
  case (interrupts s c m)
  show ?case
    by (rule depth_inv_upd [OF interrupts(5), of c])
      (use interrupts(1,2,3) in \<open>auto simp: hw_defs depth_ok_def\<close>)
qed

lemma reachable_invs: "reachable s \<Longrightarrow> excl_inv s \<and> depth_inv s"
proof (induction rule: reachable.induct)
  case (init s)
  then show ?case
    by (simp add: smp_init_def excl_inv_def depth_inv_def depth_ok_def inside_def)
next
  case (step s t)
  then show ?case using excl_inv_step depth_inv_step by blast
qed


subsection \<open>What the lock promises\<close>

text \<open>A concrete run for the witnesses: hart 0 takes a lock while hart 1 waits for it.\<close>

definition demo0 :: "nat smp" where
  "demo0 = \<lparr>hwst = \<lparr>harts = \<lambda>_. \<lparr>noff = 0, intena = False, sie = True\<rparr>,
     locks = \<lambda>_. \<lparr>locked = 0, lname = ''kmem'', lcpu = None\<rparr>\<rparr>, pcs = \<lambda>_. Run, owned = \<lambda>_. []\<rparr>"

lemma run_from_init:
  fixes s :: "'l smp" and l :: 'l
  assumes "smp_init s"
  shows "\<exists>t. reachable t \<and> inside t 0 l \<and> l \<in> set (owned t 0) \<and> pcs t 0 = Run \<and> pcs t 1 = Spin l"
proof -
  have s: "pcs s c = Run" "owned s c = []" "lcpu (locks (hwst s) l) = None" "locked (locks (hwst s) l) = 0"
    for c and l :: 'l using assms by (auto simp: smp_init_def)
  have r0: "reachable s" using assms by (rule reachable.init)
  obtain m1 where e1: "acquire_enter 0 l (hwst s) = Ok () m1" and l1: "locks m1 = locks (hwst s)"
    by (simp add: acquire_enter_def hw_holding_def push_off_run s)
  define s1 where "s1 = s\<lparr>hwst := m1, pcs := (pcs s)(0 := Spin l)\<rparr>"
  have r1: "reachable s1" unfolding s1_def by (rule reachable.step [OF r0 hstep.enter]) (use s e1 in auto)
  obtain m2 where e2: "acquire_enter 1 l (hwst s1) = Ok () m2" and l2: "locks m2 = locks m1"
    by (simp add: acquire_enter_def hw_holding_def push_off_run s s1_def l1)
  define s2 where "s2 = s1\<lparr>hwst := m2, pcs := (pcs s1)(1 := Spin l)\<rparr>"
  have "pcs s1 1 = Run" by (simp add: s1_def s)
  then have r2: "reachable s2" unfolding s2_def by (rule reachable.step [OF r1 hstep.enter]) (use e2 in auto)
  obtain m3 where e3: "test_and_set l (hwst s2) = Ok 0 m3"
    by (simp add: test_and_set_def upd_lock_def s2_def l2 l1 s)
  define s3 where "s3 = s2\<lparr>hwst := m3, pcs := (pcs s2)(0 := Got l)\<rparr>"
  have "pcs s2 0 = Spin l" by (simp add: s1_def s2_def)
  then have r3: "reachable s3" unfolding s3_def by (rule reachable.step [OF r2 hstep.swap_wins]) (use e3 in auto)
  obtain m4 where e4: "acquire_record 0 l (hwst s3) = Ok () m4"
    by (simp add: acquire_record_def upd_lock_def)
  define s4 where "s4 = s3\<lparr>hwst := m4, pcs := (pcs s3)(0 := Run), owned := (owned s3)(0 := l # owned s3 0)\<rparr>"
  have "pcs s3 0 = Got l" by (simp add: s3_def)
  then have "reachable s4" unfolding s4_def by (rule reachable.step [OF r3 hstep.record_owner]) (use e4 in auto)
  moreover have "inside s4 0 l" "l \<in> set (owned s4 0)" "pcs s4 0 = Run" "pcs s4 1 = Spin l"
    by (simp_all add: inside_def s4_def s3_def s2_def)
  ultimately show ?thesis by blast
qed

lemma demo0_init: "smp_init demo0"
  by (simp add: demo0_def smp_init_def)

text \<open>
  C5: mutual exclusion.  However the harts interleave their acquires and releases, at most one
  of them is between the swap that took a lock and the store that frees it, and the lock's
  \<^verbatim>\<open>locked\<close> word is set all that time.
\<close>

theorem spinlock_exclusion:
  assumes "reachable s" and "inside s c l"
  shows "locked (locks (hwst s) l) \<noteq> 0 \<and> (\<forall>d. inside s d l \<longrightarrow> d = c)"
proof -
  have e: "excl_inv s" using reachable_invs [OF assms(1)] by (rule conjunct1)
  show ?thesis
    using excl_locked [OF e assms(2)] excl_unique [OF e _ assms(2)] by (intro conjI allI impI)
qed

lemma spinlock_exclusion_witness:
  "\<exists>t :: nat smp. pcs t 1 = Spin 7 \<and> locked (locks (hwst t) 7) \<noteq> 0 \<and> (\<forall>d. inside t d 7 \<longrightarrow> d = 0)"
proof -
  obtain t :: "nat smp" where "reachable t" "inside t 0 7" "pcs t 1 = Spin 7"
    using run_from_init [OF demo0_init, of 7] by auto
  then show ?thesis using spinlock_exclusion [of t 0 7] by metis
qed

text \<open>
  The accounting of interrupts.  In every reachable state the nesting count of a hart is
  the number of locks it holds (one more inside an acquire or a release), interrupts are off
  while it holds one, and releasing a lock it holds never panics, in \<open>release\<close> or in \<open>pop_off\<close>.
\<close>

theorem spinlock_nesting:
  assumes "reachable s" and "pcs s c = Run" and "l \<in> set (owned s c)"
  shows "noff (harts (hwst s) c) = int (length (owned s c)) \<and> \<not> sie (harts (hwst s) c) \<and>
    (\<exists>m. hw_release c l (hwst s) = Ok () m \<and>
      noff (harts m c) = int (length (owned s c)) - 1 \<and> locked (locks m l) = 0)"
proof -
  have e: "excl_inv s" and d: "depth_inv s" using reachable_invs [OF assms(1)] by auto
  have pos: "0 < length (owned s c)" using assms(3) by (rule length_pos_if_in_set)
  have "depth_ok (harts (hwst s) c) (length (owned s c)) False"
    using d assms(2) unfolding depth_inv_def by metis
  then have n: "noff (harts (hwst s) c) = int (length (owned s c))" "\<not> sie (harts (hwst s) c)"
    using pos by (simp_all add: depth_ok_def)
  have "locked (locks (hwst s) l) \<noteq> 0" "lcpu (locks (hwst s) l) = Some c"
    using excl_locked [OF e, of c l] excl_owner [OF e, of l c] assms(3) by (simp_all add: inside_def)
  then show ?thesis using n pos
    by (simp add: hw_release_def release_clear_def release_unlock_def hw_holding_def upd_lock_def pop_off_run)
qed

lemma spinlock_nesting_witness:
  "\<exists>(t :: nat smp) m. hw_release 0 7 (hwst t) = Ok () m \<and> \<not> sie (harts (hwst t) 0)"
proof -
  obtain t :: "nat smp" where "reachable t" "pcs t 0 = Run" "7 \<in> set (owned t 0)"
    using run_from_init [OF demo0_init, of 7] by auto
  from spinlock_nesting [OF this] show ?thesis by blast
qed

end
