(* ===== verification/Sched.thy ===== *)
theory Sched
  imports Kstate Spinlock
begin

section \<open>Locks, sleeping and scheduling in the kernel (\<^verbatim>\<open>kernel/proc.c\<close>)\<close>

text \<open>
  The kernel seen from one CPU: \<open>kcpu\<close> is its \<^verbatim>\<open>struct cpu\<close> with the interrupt-enable bit and
  the spin locks it holds.  \<open>acquire\<close> and \<open>release\<close> here are the atomic forms of the routines
  of theory \<open>Spinlock\<close> (the refinement is proved below); everything else in the kernel is written
  over them.  A routine that gives up the CPU in \<open>sched\<close> ends in \<open>Blocked\<close>.
\<close>

subsection \<open>Interrupts and spin locks of this CPU\<close>

definition cpu_mod :: "(cpu \<Rightarrow> cpu) \<Rightarrow> unit km" where
  "cpu_mod f = modify (\<lambda>s. s\<lparr>kcpu := f (kcpu s)\<rparr>)"

definition kintr_get :: "bool km" where
  "kintr_get = gets (\<lambda>s. csie (kcpu s))"

definition kintr_on :: "unit km" where
  "kintr_on = cpu_mod (\<lambda>c. c\<lparr>csie := True\<rparr>)"

definition kintr_off :: "unit km" where
  "kintr_off = cpu_mod (\<lambda>c. c\<lparr>csie := False\<rparr>)"

definition kpush_off :: "unit km" where
  "kpush_off =
     bnd kintr_get (\<lambda>old.
     seq kintr_off (
     bnd (gets (\<lambda>s. cnoff (kcpu s))) (\<lambda>n.
     seq (whenM (n = 0) (cpu_mod (\<lambda>c. c\<lparr>cintena := old\<rparr>)))
         (cpu_mod (\<lambda>c. c\<lparr>cnoff := cnoff c + 1\<rparr>)))))"

definition kpop_off :: "unit km" where
  "kpop_off =
     bnd kintr_get (\<lambda>on.
     seq (guard_panic on ''pop_off - interruptible'') (
     bnd (gets (\<lambda>s. cnoff (kcpu s))) (\<lambda>n.
     seq (guard_panic (n < 1) ''pop_off'') (
     seq (cpu_mod (\<lambda>c. c\<lparr>cnoff := cnoff c - 1\<rparr>)) (
     bnd (gets kcpu) (\<lambda>c.
     whenM (cnoff c = 0 \<and> cintena c) kintr_on))))))"

definition initlock :: "lock \<Rightarrow> unit km" where
  "initlock l = cpu_mod (\<lambda>c. c\<lparr>held := removeAll l (held c)\<rparr>)"

definition holding :: "lock \<Rightarrow> bool km" where
  "holding l = gets (\<lambda>s. l \<in> set (held (kcpu s)))"

definition acquire :: "lock \<Rightarrow> unit km" where
  "acquire l =
     seq kpush_off (
     bnd (holding l) (\<lambda>r.
     seq (guard_panic r ''acquire'')
         (cpu_mod (\<lambda>c. c\<lparr>held := l # held c\<rparr>))))"

definition release :: "lock \<Rightarrow> unit km" where
  "release l =
     bnd (holding l) (\<lambda>r.
     seq (guard_panic (\<not> r) ''release'') (
     seq (cpu_mod (\<lambda>c. c\<lparr>held := remove1 l (held c)\<rparr>))
         kpop_off))"

lemmas cpu_defs = cpu_mod_def kintr_get_def kintr_on_def kintr_off_def kpush_off_def kpop_off_def
  initlock_def holding_def

text \<open>What a pair of calls leaves: the saved interrupt bit of an outermost \<open>push_off\<close>.\<close>

definition cpu_push :: "cpu \<Rightarrow> cpu" where
  "cpu_push c = c\<lparr>cnoff := cnoff c + 1, cintena := (if cnoff c = 0 then csie c else cintena c), csie := False\<rparr>"

definition cpu_acq :: "lock \<Rightarrow> cpu \<Rightarrow> cpu" where
  "cpu_acq l c = (cpu_push c)\<lparr>held := l # held c\<rparr>"

definition cpu_rel :: "lock \<Rightarrow> cpu \<Rightarrow> cpu" where
  "cpu_rel l c = c\<lparr>held := remove1 l (held c), cnoff := cnoff c - 1,
     csie := (cnoff c = 1 \<and> cintena c)\<rparr>"

definition settle :: "cpu \<Rightarrow> cpu" where
  "settle c = c\<lparr>cintena := (if cnoff c = 0 then csie c else cintena c)\<rparr>"

definition cpu_ok :: "cpu \<Rightarrow> bool" where
  "cpu_ok c \<longleftrightarrow> int (length (held c)) \<le> cnoff c \<and> distinct (held c) \<and> (0 < cnoff c \<longrightarrow> \<not> csie c)"

lemma run_acquire:
  "acquire l s = (if l \<in> set (held (kcpu s)) then Panic ''acquire''
     else Ok () (s\<lparr>kcpu := cpu_acq l (kcpu s)\<rparr>))"
  by (cases "kcpu s") (simp add: acquire_def cpu_defs cpu_acq_def cpu_push_def)

lemma run_release:
  "release l s = (if l \<notin> set (held (kcpu s)) then Panic ''release''
     else if csie (kcpu s) then Panic ''pop_off - interruptible''
     else if cnoff (kcpu s) < 1 then Panic ''pop_off''
     else Ok () (s\<lparr>kcpu := cpu_rel l (kcpu s)\<rparr>))"
  by (cases "kcpu s") (simp add: release_def cpu_defs cpu_rel_def)

lemma held_nonempty_ok:
  "cpu_ok c \<Longrightarrow> l \<in> set (held c) \<Longrightarrow> \<not> csie c \<and> 1 \<le> cnoff c"
  by (cases "held c") (auto simp: cpu_ok_def)

lemma run_acquire_ok [simp]:
  "l \<notin> set (held (kcpu s)) \<Longrightarrow> acquire l s = Ok () (s\<lparr>kcpu := cpu_acq l (kcpu s)\<rparr>)"
  by (simp add: run_acquire)

lemma run_release_ok [simp]:
  "cpu_ok (kcpu s) \<Longrightarrow> l \<in> set (held (kcpu s)) \<Longrightarrow>
   release l s = Ok () (s\<lparr>kcpu := cpu_rel l (kcpu s)\<rparr>)"
  using held_nonempty_ok [of "kcpu s" l] by (simp add: run_release)

lemma wp_acquire [simp, wp_rules]:
  "wp e (acquire l) Q B s =
     (if l \<in> set (held (kcpu s)) then e else Q () (s\<lparr>kcpu := cpu_acq l (kcpu s)\<rparr>))"
  by (simp add: wp_def run_acquire)

lemma wp_release [simp, wp_rules]:
  "cpu_ok (kcpu s) \<Longrightarrow> wp e (release l) Q B s =
     (if l \<notin> set (held (kcpu s)) then e else Q () (s\<lparr>kcpu := cpu_rel l (kcpu s)\<rparr>))"
  by (simp add: wp_def run_release held_nonempty_ok) (auto dest: held_nonempty_ok)

lemma cpu_push_simps [simp]:
  "held (cpu_push c) = held c" "cnoff (cpu_push c) = cnoff c + 1" "csie (cpu_push c) = False"
  "cproc (cpu_push c) = cproc c"
  by (simp_all add: cpu_push_def)

lemma cpu_acq_simps [simp]:
  "held (cpu_acq l c) = l # held c" "cnoff (cpu_acq l c) = cnoff c + 1" "csie (cpu_acq l c) = False"
  "cproc (cpu_acq l c) = cproc c"
  by (simp_all add: cpu_acq_def)

lemma cpu_rel_simps [simp]:
  "held (cpu_rel l c) = remove1 l (held c)" "cnoff (cpu_rel l c) = cnoff c - 1"
  "cproc (cpu_rel l c) = cproc c"
  by (simp_all add: cpu_rel_def)

lemma settle_simps [simp]:
  "held (settle c) = held c" "cnoff (settle c) = cnoff c" "csie (settle c) = csie c"
  "cproc (settle c) = cproc c" "settle (settle c) = settle c" "cpu_ok (settle c) = cpu_ok c"
  "cpu_push (settle c) = cpu_push c" "cpu_acq l (settle c) = cpu_acq l c"
  by (simp_all add: settle_def cpu_ok_def cpu_push_def cpu_acq_def)

lemma cpu_ok_acq [simp]: "cpu_ok c \<Longrightarrow> l \<notin> set (held c) \<Longrightarrow> cpu_ok (cpu_acq l c)"
  by (simp add: cpu_ok_def)

lemma cpu_ok_rel [simp]: "cpu_ok c \<Longrightarrow> l \<in> set (held c) \<Longrightarrow> cpu_ok (cpu_rel l c)"
  using length_remove1_Suc [of l "held c"] by (auto simp: cpu_ok_def cpu_rel_def)

lemma cpu_rel_acq [simp]: "cpu_ok c \<Longrightarrow> cpu_rel l (cpu_acq l c) = settle c"
  by (cases c) (auto simp: cpu_ok_def cpu_rel_def cpu_acq_def cpu_push_def settle_def)

lemma settle_acq [simp]: "cpu_ok c \<Longrightarrow> settle (cpu_acq l c) = cpu_acq l c"
  by (cases c) (auto simp: cpu_ok_def cpu_acq_def cpu_push_def settle_def)

lemma cpu_rel_acq_other:
  "cpu_ok c \<Longrightarrow> a \<in> set (held c) \<Longrightarrow> a \<noteq> b \<Longrightarrow> cpu_rel a (cpu_acq b c) = cpu_acq b (cpu_rel a c)"
  using held_nonempty_ok [of c a]
  by (cases c) (auto simp: cpu_rel_def cpu_acq_def cpu_push_def)

lemma settle_held: "cpu_ok c \<Longrightarrow> held c \<noteq> [] \<Longrightarrow> settle c = c"
  by (cases c; cases "held c") (auto simp: cpu_ok_def settle_def)


lemma run_push_off: "kpush_off s = Ok () (s\<lparr>kcpu := cpu_push (kcpu s)\<rparr>)"
  by (cases "kcpu s") (simp add: cpu_defs cpu_push_def)

lemma run_pop_push:
  "cpu_ok c \<Longrightarrow> kpop_off (s\<lparr>kcpu := cpu_push c\<rparr>) = Ok () (s\<lparr>kcpu := settle c\<rparr>)"
  by (cases c) (auto simp: cpu_defs cpu_push_def settle_def cpu_ok_def)

subsection \<open>The current process, process ids\<close>

definition myproc :: "nat option km" where
  "myproc =
     seq kpush_off (
     bnd (gets (\<lambda>s. cproc (kcpu s))) (\<lambda>p.
     seq kpop_off (ret p)))"

definition mine :: "nat km" where
  "mine = bnd myproc deref"

definition allocpid :: "int km" where
  "allocpid =
     seq (acquire LPid) (
     bnd (gets nextpid) (\<lambda>p.
     seq (defined_if (p < 2 ^ 31 - 1)) (
     seq (modify (\<lambda>s. s\<lparr>nextpid := nextpid s + 1\<rparr>)) (
     seq (release LPid) (ret p)))))"

definition procinit :: "unit km" where
  "procinit =
     seq (initlock LPid) (
     seq (initlock LWait) (
     foreach [0..<NPROC] (\<lambda>i.
       seq (initlock (LProc i))
           (proc_mod i (\<lambda>p. p\<lparr>pstate := UNUSED, kstack := KSTACK (of_nat i)\<rparr>)))))"

subsection \<open>Giving up the CPU\<close>

definition sched :: "unit km" where
  "sched =
     bnd mine (\<lambda>i.
     bnd (holding (LProc i)) (\<lambda>h.
     seq (guard_panic (\<not> h) ''sched p->lock'') (
     bnd (gets (\<lambda>s. cnoff (kcpu s))) (\<lambda>n.
     seq (guard_panic (n \<noteq> 1) ''sched locks'') (
     bnd (proc_get i) (\<lambda>p.
     seq (guard_panic (pstate p = RUNNING) ''sched running'') (
     bnd kintr_get (\<lambda>on.
     seq (guard_panic on ''sched interruptible'')
       block))))))))"

text \<open>
  The rest of \<open>sched\<close>, after the scheduler switched back: it restores the saved \<^verbatim>\<open>intena\<close>.
\<close>

definition sched_resume :: "bool \<Rightarrow> unit km" where
  "sched_resume ie = cpu_mod (\<lambda>c. c\<lparr>cintena := ie\<rparr>)"

definition yield :: "unit km" where
  "yield =
     bnd mine (\<lambda>i.
     seq (acquire (LProc i)) (
     seq (proc_mod i (\<lambda>p. p\<lparr>pstate := RUNNABLE\<rparr>)) (
     seq sched
         (release (LProc i)))))"

definition sleep :: "chan \<Rightarrow> lock \<Rightarrow> unit km" where
  "sleep ch lk =
     bnd mine (\<lambda>i.
     seq (acquire (LProc i)) (
     seq (release lk) (
     seq (proc_mod i (\<lambda>p. p\<lparr>pchan := Some ch\<rparr>)) (
     seq (proc_mod i (\<lambda>p. p\<lparr>pstate := SLEEPING\<rparr>)) (
     seq sched (
     seq (proc_mod i (\<lambda>p. p\<lparr>pchan := None\<rparr>)) (
     seq (release (LProc i))
         (acquire lk))))))))"

text \<open>What a sleeping process runs when it is scheduled again.\<close>

definition sleep_resume :: "bool \<Rightarrow> nat \<Rightarrow> lock \<Rightarrow> unit km" where
  "sleep_resume ie i lk =
     seq (sched_resume ie) (
     seq (proc_mod i (\<lambda>p. p\<lparr>pchan := None\<rparr>)) (
     seq (release (LProc i))
         (acquire lk)))"

text \<open>
  A wait loop sleeps and starts over when it is woken: the call ends the current run of the loop.
\<close>

definition sleep_wait :: "chan \<Rightarrow> lock \<Rightarrow> 'a km" where
  "sleep_wait ch lk = seq (sleep ch lk) stuck"

definition wakeup :: "chan \<Rightarrow> unit km" where
  "wakeup ch =
     foreach [0..<NPROC] (\<lambda>i.
       bnd myproc (\<lambda>me.
       whenM (Some i \<noteq> me) (
         seq (acquire (LProc i)) (
         bnd (proc_get i) (\<lambda>p.
         seq (whenM (pstate p = SLEEPING \<and> pchan p = Some ch)
                    (proc_mod i (\<lambda>p. p\<lparr>pstate := RUNNABLE\<rparr>)))
             (release (LProc i)))))))"

definition kill :: "int \<Rightarrow> int km" where
  "kill n =
     bnd (search [0..<NPROC] (\<lambda>i.
       seq (acquire (LProc i)) (
       bnd (proc_get i) (\<lambda>p.
       if pid p = n then
         seq (proc_mod i (\<lambda>p. p\<lparr>pkilled := 1\<rparr>)) (
         seq (whenM (pstate p = SLEEPING) (proc_mod i (\<lambda>p. p\<lparr>pstate := RUNNABLE\<rparr>))) (
         seq (release (LProc i))
             (ret (Some 0))))
       else
         seq (release (LProc i)) (ret None)))))
     (\<lambda>r. ret (case r of Some x \<Rightarrow> x | None \<Rightarrow> -1))"

definition setkilled :: "nat \<Rightarrow> unit km" where
  "setkilled i =
     seq (acquire (LProc i)) (
     seq (proc_mod i (\<lambda>p. p\<lparr>pkilled := 1\<rparr>))
         (release (LProc i)))"

definition killed :: "nat \<Rightarrow> int km" where
  "killed i =
     seq (acquire (LProc i)) (
     bnd (proc_get i) (\<lambda>p.
     seq (release (LProc i))
         (ret (pkilled p))))"

subsection \<open>The scheduler, the process count and the load average\<close>

definition nproc :: "u64 km" where
  "nproc = gets (\<lambda>s. of_nat (length (filter (\<lambda>p. pstate p \<noteq> UNUSED) (procs s))))"

definition update_runnable_procs :: "unit km" where
  "update_runnable_procs =
     bnd (gets (\<lambda>s. of_nat (length (filter (\<lambda>p. pstate p = RUNNABLE) (procs s))))) (\<lambda>count :: u32.
     seq (modify (\<lambda>s. s\<lparr>runnable_procs := ucast count\<rparr>))
         (modify (\<lambda>s. s\<lparr>loadavg := (loadavg s * 5 + runnable_procs s * 10) div 10\<rparr>)))"

text \<open>
  One pass of the scheduler over the table.  \<open>run i\<close> is what process \<open>i\<close> does from the
  \<^verbatim>\<open>swtch\<close> to it until its own \<^verbatim>\<open>swtch\<close> back in \<open>sched\<close>.
\<close>

primrec sched_scan :: "(nat \<Rightarrow> unit km) \<Rightarrow> nat list \<Rightarrow> bool \<Rightarrow> bool km" where
  "sched_scan run [] found = ret found"
| "sched_scan run (i # is) found =
     seq (acquire (LProc i)) (
     bnd (proc_get i) (\<lambda>p.
     bnd (if pstate p = RUNNABLE then
            seq (proc_mod i (\<lambda>p. p\<lparr>pstate := RUNNING\<rparr>)) (
            seq (cpu_mod (\<lambda>c. c\<lparr>cproc := Some i\<rparr>)) (
            seq (run i) (
            seq (cpu_mod (\<lambda>c. c\<lparr>cproc := None\<rparr>))
                (ret True))))
          else ret found) (\<lambda>found.
     seq (release (LProc i))
         (sched_scan run is found))))"

definition scheduler_pass :: "(nat \<Rightarrow> unit km) \<Rightarrow> unit km" where
  "scheduler_pass run =
     seq update_runnable_procs (
     seq kintr_on (
     bnd (sched_scan run [0..<NPROC] False) (\<lambda>found.
     whenM (\<not> found) kintr_on)))"

subsection \<open>Functional descriptions\<close>

text \<open>
  The table always has its \<open>NPROC\<close> entries.  A lock is free when this CPU does not hold it.
\<close>

definition procs_ok :: "kernel \<Rightarrow> bool" where
  "procs_ok s \<longleftrightarrow> length (procs s) = NPROC \<and> cpu_ok (kcpu s)"

lemma run_myproc [simp]:
  "cpu_ok (kcpu s) \<Longrightarrow> myproc s = Ok (cproc (kcpu s)) (s\<lparr>kcpu := settle (kcpu s)\<rparr>)"
  by (simp add: myproc_def run_push_off run_pop_push)

lemma wp_myproc [simp, wp_rules]:
  "cpu_ok (kcpu s) \<Longrightarrow> wp e myproc Q B s = Q (cproc (kcpu s)) (s\<lparr>kcpu := settle (kcpu s)\<rparr>)"
  by (simp add: wp_def)

lemma run_mine [simp]:
  "cpu_ok (kcpu s) \<Longrightarrow> cproc (kcpu s) = Some i \<Longrightarrow> mine s = Ok i (s\<lparr>kcpu := settle (kcpu s)\<rparr>)"
  by (simp add: mine_def)

lemma wp_mine [simp, wp_rules]:
  "cpu_ok (kcpu s) \<Longrightarrow> wp e mine Q B s =
     (case cproc (kcpu s) of None \<Rightarrow> e | Some i \<Rightarrow> Q i (s\<lparr>kcpu := settle (kcpu s)\<rparr>))"
  by (simp add: mine_def split: option.split)

definition wake :: "chan \<Rightarrow> nat option \<Rightarrow> nat \<Rightarrow> proc \<Rightarrow> proc" where
  "wake ch me i p = (if Some i \<noteq> me \<and> pstate p = SLEEPING \<and> pchan p = Some ch then p\<lparr>pstate := RUNNABLE\<rparr> else p)"

lemma wakeup_run:
  assumes "procs_ok s" and "\<And>i. LProc i \<in> set (held (kcpu s)) \<Longrightarrow> cproc (kcpu s) = Some i"
  shows "wakeup ch s = Ok () (s\<lparr>procs := map (\<lambda>i. wake ch (cproc (kcpu s)) i (procs s ! i)) [0..<NPROC],
    kcpu := settle (kcpu s)\<rparr>)"
proof -
  define I where "I t \<longleftrightarrow> length (procs t) = NPROC \<and> settle (kcpu t) = settle (kcpu s)" for t :: kernel
  have ok: "cpu_ok (kcpu s)" and len: "length (procs s) = NPROC" using assms(1) by (auto simp: procs_ok_def)
  let ?upd = "\<lambda>ps (t :: kernel). t\<lparr>procs := ps, kcpu := settle (kcpu s)\<rparr>"
  have "wakeup ch s = Ok () (?upd (map (\<lambda>i. wake ch (cproc (kcpu s)) i (procs s ! i)) [0..<NPROC]) s)"
    unfolding wakeup_def
  proof (rule foreach_table [where I = I and n = NPROC and upd = ?upd and tbl = procs and h = "wake ch (cproc (kcpu s))"])
    fix i :: nat and t assume i: "i < NPROC" and I: "I t"
    have sk: "settle (kcpu t) = settle (kcpu s)" and lt: "length (procs t) = NPROC"
      using I by (auto simp: I_def)
    have okt: "cpu_ok (kcpu t)" using sk ok settle_simps(6) by metis
    have cp: "cproc (kcpu t) = cproc (kcpu s)" and hd: "held (kcpu t) = held (kcpu s)"
      using sk settle_simps by metis+
    have free: "Some i \<noteq> cproc (kcpu s) \<Longrightarrow> LProc i \<notin> set (held (kcpu s))" using assms(2) by auto
    show "bnd myproc (\<lambda>me. whenM (Some i \<noteq> me)
         (seq (acquire (LProc i)) (bnd (proc_get i) (\<lambda>p.
           seq (whenM (pstate p = SLEEPING \<and> pchan p = Some ch) (proc_mod i (\<lambda>p. p\<lparr>pstate := RUNNABLE\<rparr>)))
               (release (LProc i)))))) t =
       Ok () (?upd ((procs t)[i := wake ch (cproc (kcpu s)) i (procs t ! i)]) t) \<and>
       I (?upd ((procs t)[i := wake ch (cproc (kcpu s)) i (procs t ! i)]) t)"
      using i lt okt free by (simp add: cp hd sk wake_def I_def ok)
  qed (use ok len in \<open>simp_all add: I_def\<close>)
  then show ?thesis by simp
qed


definition mark_killed :: "proc \<Rightarrow> proc" where
  "mark_killed p = p\<lparr>pkilled := 1, pstate := (if pstate p = SLEEPING then RUNNABLE else pstate p)\<rparr>"

lemma kill_run:
  assumes "procs_ok s" and "\<And>i. LProc i \<notin> set (held (kcpu s))"
  shows "kill n s = (case find (\<lambda>i. pid (procs s ! i) = n) [0..<NPROC] of
      None \<Rightarrow> Ok (-1) (s\<lparr>kcpu := settle (kcpu s)\<rparr>)
    | Some i \<Rightarrow> Ok 0 (s\<lparr>procs := (procs s)[i := mark_killed (procs s ! i)], kcpu := settle (kcpu s)\<rparr>))"
proof -
  define I where "I t \<longleftrightarrow> procs t = procs s \<and> settle (kcpu t) = settle (kcpu s) \<and> procs_ok t" for t :: kernel
  let ?P = "\<lambda>i. pid (procs s ! i) = n"
  let ?cl = "\<lambda>t :: kernel. t\<lparr>kcpu := settle (kcpu s)\<rparr>"
  let ?g = "\<lambda>i (t :: kernel). Ok (0 :: int) (t\<lparr>procs := (procs s)[i := mark_killed (procs s ! i)], kcpu := settle (kcpu s)\<rparr>)"
  define f where "f = (\<lambda>i. seq (acquire (LProc i)) (bnd (proc_get i) (\<lambda>p.
       if pid p = n then seq (proc_mod i (\<lambda>p. p\<lparr>pkilled := 1\<rparr>)) (
         seq (whenM (pstate p = SLEEPING) (proc_mod i (\<lambda>p. p\<lparr>pstate := RUNNABLE\<rparr>))) (
         seq (release (LProc i)) (ret (Some 0))))
       else seq (release (LProc i)) (ret (None :: int option)))))"
  have ok: "cpu_ok (kcpu s)" "length (procs s) = NPROC" using assms(1) by (auto simp: procs_ok_def)
  have hd: "I t \<Longrightarrow> held (kcpu t) = held (kcpu s)" for t unfolding I_def using settle_simps(1) by metis
  have body: "f i t = (if ?P i then bnd (?g i) (\<lambda>x. ret (Some x)) t else Ok None (?cl t))" if "i < NPROC" "I t" for i t
    using that assms(2) [of i] hd [OF that(2)] ok(2)
    by (simp add: f_def I_def procs_ok_def mark_killed_def)
  have "search [0..<NPROC] f s = (case find ?P [0..<NPROC] of
      None \<Rightarrow> Ok None (if [0..<NPROC] = [] then s else ?cl s)
    | Some i \<Rightarrow> bnd (?g i) (\<lambda>x. ret (Some x)) s)"
  proof (rule search_find [where I = I and cl = ?cl and g = ?g and P = ?P])
    show "\<And>i t. i \<in> set [0..<NPROC] \<Longrightarrow> I t \<Longrightarrow> \<not> ?P i \<Longrightarrow> f i t = Ok None (?cl t)"
      by (simp add: body)
    show "\<And>i t. i \<in> set [0..<NPROC] \<Longrightarrow> I t \<Longrightarrow> ?P i \<Longrightarrow> f i t = bnd (?g i) (\<lambda>x. ret (Some x)) t"
      by (simp add: body)
  qed (use assms ok in \<open>simp_all add: I_def procs_ok_def\<close>)
  then show ?thesis
    unfolding kill_def f_def [symmetric] by (auto simp: bnd_def split: option.split)
qed

lemma sched_run:
  assumes "cpu_ok (kcpu s)" and "cproc (kcpu s) = Some i" and "i < length (procs s)"
  shows "sched s = (if LProc i \<notin> set (held (kcpu s)) then Panic ''sched p->lock''
     else if cnoff (kcpu s) \<noteq> 1 then Panic ''sched locks''
     else if pstate (procs s ! i) = RUNNING then Panic ''sched running''
     else Blocked (s\<lparr>kcpu := settle (kcpu s)\<rparr>))"
  using assms held_nonempty_ok [OF assms(1)]
  by (auto simp: sched_def holding_def kintr_get_def)

lemma sleep_run:
  assumes ok: "procs_ok s" and cp: "cproc (kcpu s) = Some i" "i < NPROC"
    and lk: "lk \<in> set (held (kcpu s))" "LProc i \<notin> set (held (kcpu s))"
  shows "sleep ch lk s = (if cnoff (kcpu s) \<noteq> 1 then Panic ''sched locks''
     else Blocked (s\<lparr>procs := (procs s)[i := (procs s ! i)\<lparr>pchan := Some ch, pstate := SLEEPING\<rparr>],
       kcpu := cpu_acq (LProc i) (cpu_rel lk (kcpu s))\<rparr>))"
proof -
  have c: "cpu_ok (kcpu s)" and l: "length (procs s) = NPROC" using ok by (auto simp: procs_ok_def)
  have ne: "lk \<noteq> LProc i" using lk by auto
  have sw: "cpu_rel lk (cpu_acq (LProc i) (kcpu s)) = cpu_acq (LProc i) (cpu_rel lk (kcpu s))"
    using c lk(1) ne by (rule cpu_rel_acq_other)
  have ok2: "cpu_ok (cpu_acq (LProc i) (cpu_rel lk (kcpu s)))"
    using c lk by (simp add: notin_set_remove1)
  have ok3: "cpu_ok (cpu_rel lk (kcpu s))" using c lk by simp
  show ?thesis
    using c l lk cp ne ok2 ok3 by (simp add: sleep_def sw sched_run [where i = i])
qed


subsection \<open>What holds of them\<close>

text \<open>
  The abstraction of the hardware state of hart \<open>c\<close> to this CPU's view: same counters, and the
  locks it holds are those whose owner field names it.
\<close>

definition hw_view :: "nat \<Rightarrow> lock hw \<Rightarrow> cpu \<Rightarrow> bool" where
  "hw_view c m k \<longleftrightarrow> cnoff k = noff (harts m c) \<and> cintena k = intena (harts m c) \<and> csie k = sie (harts m c) \<and>
     distinct (held k) \<and> (\<forall>l. l \<in> set (held k) \<longleftrightarrow> locked (locks m l) \<noteq> 0 \<and> lcpu (locks m l) = Some c)"

text \<open>
  C29: the kernel-level \<open>acquire\<close> and \<open>release\<close> are refined by the word-level routines of the
  spin lock: from related states, and with the lock not held by another hart, \<open>acquire\<close> succeeds
  exactly when \<open>hw_acquire\<close> does, with related results, and both panic with the same message
  otherwise; likewise \<open>release\<close>.
\<close>

theorem spinlock_refinement:
  assumes "hw_view c m (kcpu s)" and "locked (locks m l) = 0 \<or> lcpu (locks m l) = Some c"
  shows "(case acquire l s of
        Ok _ t \<Rightarrow> \<exists>m'. hw_acquire c l m = Ok () m' \<and> hw_view c m' (kcpu t)
      | Panic e \<Rightarrow> hw_acquire c l m = Panic e | _ \<Rightarrow> False) \<and>
    (case release l s of
        Ok _ t \<Rightarrow> \<exists>m'. hw_release c l m = Ok () m' \<and> hw_view c m' (kcpu t)
      | Panic e \<Rightarrow> hw_release c l m = Panic e | _ \<Rightarrow> False)"
proof
  show "case acquire l s of
        Ok _ t \<Rightarrow> \<exists>m'. hw_acquire c l m = Ok () m' \<and> hw_view c m' (kcpu t)
      | Panic e \<Rightarrow> hw_acquire c l m = Panic e | _ \<Rightarrow> False"
    using assms
    by (auto simp: run_acquire hw_acquire_def acquire_enter_def push_off_run hw_holding_def test_and_set_def
        upd_lock_def acquire_record_def hw_view_def cpu_acq_def cpu_push_def)
  show "case release l s of
        Ok _ t \<Rightarrow> \<exists>m'. hw_release c l m = Ok () m' \<and> hw_view c m' (kcpu t)
      | Panic e \<Rightarrow> hw_release c l m = Panic e | _ \<Rightarrow> False"
    using assms
    by (auto simp: run_release hw_release_def release_clear_def release_unlock_def pop_off_run hw_holding_def
        upd_lock_def hw_view_def cpu_rel_def)
qed

lemma spinlock_refinement_witness:
  "\<exists>m'. hw_acquire 0 LKmem \<lparr>harts = \<lambda>_. \<lparr>noff = 0, intena = False, sie = True\<rparr>,
     locks = \<lambda>_. \<lparr>locked = 0, lname = ''kmem'', lcpu = None\<rparr>\<rparr> = Ok () m' \<and> LKmem \<in> {l. lcpu (locks m' l) = Some 0}"
proof -
  let ?k = "bss_kernel (\<lambda>_. 0) (\<lambda>_. [])\<lparr>kcpu := \<lparr>cproc = None, cnoff = 0, cintena = False, csie = True, held = []\<rparr>\<rparr>"
  let ?m = "\<lparr>harts = \<lambda>_. \<lparr>noff = 0, intena = False, sie = True\<rparr>,
     locks = \<lambda>_. \<lparr>locked = 0, lname = ''kmem'', lcpu = None\<rparr>\<rparr> :: lock hw"
  have "hw_view 0 ?m (kcpu ?k)" by (simp add: hw_view_def)
  then have "case acquire LKmem ?k of
        Ok _ t \<Rightarrow> \<exists>m'. hw_acquire 0 LKmem ?m = Ok () m' \<and> hw_view 0 m' (kcpu t)
      | Panic e \<Rightarrow> hw_acquire 0 LKmem ?m = Panic e | _ \<Rightarrow> False"
    using spinlock_refinement [of 0 ?m ?k LKmem] by simp
  then show ?thesis by (auto simp: run_acquire hw_view_def)
qed

lemma sleep_resume_run:
  assumes ok: "procs_ok w" and cp: "cproc (kcpu w) = Some i" "i < NPROC" and h: "held (kcpu w) = [LProc i]" "cnoff (kcpu w) = 1"
    and lk: "lk \<noteq> LProc i"
  shows "\<exists>x. sleep_resume ie i lk w = Ok () x \<and> procs x = (procs w)[i := (procs w ! i)\<lparr>pchan := None\<rparr>] \<and> held (kcpu x) = [lk] \<and>
    cnoff (kcpu x) = 1 \<and> cintena (kcpu x) = ie"
proof -
  have c: "cpu_ok (kcpu w)" "i < length (procs w)" using ok cp(2) by (simp_all add: procs_ok_def)
  define k where "k = (kcpu w)\<lparr>cintena := ie\<rparr>"
  have k: "cpu_ok k" "held k = [LProc i]" "cnoff k = 1" "cintena k = ie" using c(1) h by (simp_all add: k_def cpu_ok_def)
  have "sleep_resume ie i lk w = bnd (release (LProc i)) (\<lambda>_. acquire lk)
      (w\<lparr>kcpu := k, procs := (procs w)[i := (procs w ! i)\<lparr>pchan := None\<rparr>]\<rparr>)"
    using c(2) by (simp add: sleep_resume_def sched_resume_def cpu_mod_def k_def)
  also have "\<dots> = Ok () (w\<lparr>procs := (procs w)[i := (procs w ! i)\<lparr>pchan := None\<rparr>], kcpu := cpu_acq lk (cpu_rel (LProc i) k)\<rparr>)"
    using k(1,2) by (simp add: run_acquire)
  finally show ?thesis using k by (simp add: cpu_acq_def cpu_rel_def cpu_push_def)
qed

text \<open>
  C6: no wakeup is lost.  A process that calls \<open>sleep\<close> holding just the lock of its condition gives the CPU up asleep on the
  channel, with that lock released and only its own lock held.  As long as its table entry stays so, whatever becomes of the
  other entries and the rest of the kernel, a \<open>wakeup\<close> of the channel by another process, which may hold spin locks (but no
  lock of a process other than its own), makes it runnable.  The call changes exactly the processes asleep on the channel, only their
  states, and keeps the caller's locks.  When the process runs again, \<open>sleep\<close> returns with the lock of the condition, and only that
  one, held again and the channel cleared.
\<close>

theorem sleep_wakeup:
  assumes "procs_ok s" and "cproc (kcpu s) = Some i" and "i < NPROC"
    and "held (kcpu s) = [lk]" and "cnoff (kcpu s) = 1" and "lk \<noteq> LProc i"
  shows "\<exists>t. sleep ch lk s = Blocked t \<and> held (kcpu t) = [LProc i] \<and> cnoff (kcpu t) = 1 \<and>
    pstate (procs t ! i) = SLEEPING \<and> pchan (procs t ! i) = Some ch \<and>
    (\<forall>u. procs u ! i = procs t ! i \<longrightarrow> procs_ok u \<longrightarrow> cproc (kcpu u) \<noteq> Some i \<longrightarrow>
      (\<forall>j. LProc j \<in> set (held (kcpu u)) \<longrightarrow> cproc (kcpu u) = Some j) \<longrightarrow>
      (\<exists>v. wakeup ch u = Ok () v \<and> procs v ! i = (procs t ! i)\<lparr>pstate := RUNNABLE\<rparr> \<and> held (kcpu v) = held (kcpu u) \<and>
        length (procs v) = NPROC \<and>
        (\<forall>j < NPROC. procs v ! j =
           (if cproc (kcpu u) \<noteq> Some j \<and> pstate (procs u ! j) = SLEEPING \<and> pchan (procs u ! j) = Some ch
            then (procs u ! j)\<lparr>pstate := RUNNABLE\<rparr> else procs u ! j)))) \<and>
    (\<forall>w ie. procs_ok w \<longrightarrow> cproc (kcpu w) = Some i \<longrightarrow> held (kcpu w) = [LProc i] \<longrightarrow> cnoff (kcpu w) = 1 \<longrightarrow>
      (\<exists>x. sleep_resume ie i lk w = Ok () x \<and> procs x = (procs w)[i := (procs w ! i)\<lparr>pchan := None\<rparr>] \<and> held (kcpu x) = [lk] \<and>
        cnoff (kcpu x) = 1 \<and> cintena (kcpu x) = ie))"
proof -
  let ?t = "s\<lparr>procs := (procs s)[i := (procs s ! i)\<lparr>pchan := Some ch, pstate := SLEEPING\<rparr>],
       kcpu := cpu_acq (LProc i) (cpu_rel lk (kcpu s))\<rparr>"
  have len: "length (procs s) = NPROC" using assms(1) by (simp add: procs_ok_def)
  have "sleep ch lk s = Blocked ?t"
    using assms by (subst sleep_run) auto
  moreover have "\<exists>v. wakeup ch u = Ok () v \<and> procs v ! i = (procs ?t ! i)\<lparr>pstate := RUNNABLE\<rparr> \<and> held (kcpu v) = held (kcpu u) \<and>
        length (procs v) = NPROC \<and>
        (\<forall>j < NPROC. procs v ! j =
           (if cproc (kcpu u) \<noteq> Some j \<and> pstate (procs u ! j) = SLEEPING \<and> pchan (procs u ! j) = Some ch
            then (procs u ! j)\<lparr>pstate := RUNNABLE\<rparr> else procs u ! j))"
    if "procs u ! i = procs ?t ! i" "procs_ok u" "cproc (kcpu u) \<noteq> Some i"
      "\<forall>j. LProc j \<in> set (held (kcpu u)) \<longrightarrow> cproc (kcpu u) = Some j" for u
    using that assms(3) len wakeup_run [of u ch] by (auto simp: wake_def)
  ultimately show ?thesis using assms len sleep_resume_run by simp
qed

text \<open>Process 3 sleeps on the ticks; a clock interrupt on another process, with the lock of the ticks held, wakes it.\<close>

definition demo_sleep :: "nat \<Rightarrow> kernel" where
  "demo_sleep i = bss_kernel (\<lambda>_. 0) (\<lambda>_. [])\<lparr>kcpu := \<lparr>cproc = Some i, cnoff = 1, cintena = True, csie = False, held = [LTicks]\<rparr>\<rparr>"

lemma sleep_wakeup_witness:
  "\<exists>t v. sleep CTicks LTicks (demo_sleep 3) = Blocked t \<and> wakeup CTicks ((demo_sleep 4)\<lparr>procs := procs t\<rparr>) = Ok () v \<and>
     pstate (procs v ! 3) = RUNNABLE \<and> held (kcpu v) = [LTicks]"
proof -
  have p: "procs_ok (demo_sleep i)" "cproc (kcpu (demo_sleep i)) = Some i" "held (kcpu (demo_sleep i)) = [LTicks]"
    "cnoff (kcpu (demo_sleep i)) = 1" for i
    by (auto simp: procs_ok_def cpu_ok_def demo_sleep_def)
  have l: "LTicks \<noteq> LProc 3" "3 < NPROC" by simp_all
  obtain t where t: "sleep CTicks LTicks (demo_sleep 3) = Blocked t"
    "\<forall>u. procs u ! 3 = procs t ! 3 \<longrightarrow> procs_ok u \<longrightarrow> cproc (kcpu u) \<noteq> Some 3 \<longrightarrow>
      (\<forall>j. LProc j \<in> set (held (kcpu u)) \<longrightarrow> cproc (kcpu u) = Some j) \<longrightarrow>
      (\<exists>v. wakeup CTicks u = Ok () v \<and> procs v ! 3 = (procs t ! 3)\<lparr>pstate := RUNNABLE\<rparr> \<and> held (kcpu v) = held (kcpu u) \<and>
        length (procs v) = NPROC \<and>
        (\<forall>j < NPROC. procs v ! j =
           (if cproc (kcpu u) \<noteq> Some j \<and> pstate (procs u ! j) = SLEEPING \<and> pchan (procs u ! j) = Some CTicks
            then (procs u ! j)\<lparr>pstate := RUNNABLE\<rparr> else procs u ! j)))"
    using sleep_wakeup [OF p(1) p(2) l(2) p(3,4) l(1), of CTicks] by (elim exE conjE)
  have "length (procs t) = NPROC"
    using t(1) sleep_run [OF p(1,2), of 3 LTicks CTicks] p(3,4) by (auto simp: demo_sleep_def)
  then have "procs_ok ((demo_sleep 4)\<lparr>procs := procs t\<rparr>)" using p(1) [of 4] by (simp add: procs_ok_def)
  then show ?thesis using t(1) spec [OF t(2), of "(demo_sleep 4)\<lparr>procs := procs t\<rparr>"] p(2,3) [of 4] by auto
qed

text \<open>
  \<open>kill\<close> marks the first process with the pid as killed, wakes it when it sleeps, answers 0
  and touches nothing else; with no such process it answers -1 and changes no process.
\<close>

theorem kill_spec:
  assumes "procs_ok s" and "held (kcpu s) = []"
  shows "\<exists>r t. kill n s = Ok r t \<and> held (kcpu t) = [] \<and> length (procs t) = NPROC \<and>
    (r = -1 \<and> procs t = procs s \<and> (\<forall>i < NPROC. pid (procs s ! i) \<noteq> n) \<or>
     r = 0 \<and> (\<exists>i < NPROC. pid (procs s ! i) = n \<and> (\<forall>j < i. pid (procs s ! j) \<noteq> n) \<and>
       pkilled (procs t ! i) = 1 \<and> pstate (procs t ! i) \<noteq> SLEEPING \<and>
       (\<forall>j < NPROC. j \<noteq> i \<longrightarrow> procs t ! j = procs s ! j)))"
proof -
  have len: "length (procs s) = NPROC" using assms(1) by (simp add: procs_ok_def)
  have run: "kill n s = (case find (\<lambda>i. pid (procs s ! i) = n) [0..<NPROC] of
      None \<Rightarrow> Ok (-1) (s\<lparr>kcpu := settle (kcpu s)\<rparr>)
    | Some i \<Rightarrow> Ok 0 (s\<lparr>procs := (procs s)[i := mark_killed (procs s ! i)], kcpu := settle (kcpu s)\<rparr>))"
    using assms by (intro kill_run) auto
  show ?thesis
  proof (cases "find (\<lambda>i. pid (procs s ! i) = n) [0..<NPROC]")
    case None
    then have "\<forall>i < NPROC. pid (procs s ! i) \<noteq> n" by (simp only: find_upt_None)
    then show ?thesis unfolding run None using len assms(2) by simp
  next
    case (Some i)
    then have i: "i < NPROC" "pid (procs s ! i) = n" "\<forall>j<i. pid (procs s ! j) \<noteq> n"
      by (auto simp only: find_upt_Some)
    show ?thesis
      unfolding run Some
      using i len assms(2) by (auto simp: mark_killed_def intro!: exI [of _ i])
  qed
qed

lemma kill_spec_witness:
  "\<exists>r t. kill 7 (bss_kernel (\<lambda>_. 0) (\<lambda>_. [])) = Ok r t \<and> length (procs t) = NPROC"
  using kill_spec [of "bss_kernel (\<lambda>_. 0) (\<lambda>_. [])" 7] by (auto simp: procs_ok_def cpu_ok_def)


text \<open>
  C31: the load average, in tenths with a decay of one half, stays below twice ten times the
  number of processes that can be runnable: the 64-bit arithmetic of the update never wraps.
\<close>

theorem loadavg_bound:
  assumes "length (procs s) = NPROC" and "unat (loadavg s) \<le> 2 * NPROC"
  shows "\<exists>t. update_runnable_procs s = Ok () t \<and> procs t = procs s \<and>
    unat (runnable_procs t) = length (filter (\<lambda>p. pstate p = RUNNABLE) (procs s)) \<and>
    unat (loadavg t) = (unat (loadavg s) * 5 + unat (runnable_procs t) * 10) div 10 \<and>
    unat (loadavg t) \<le> 2 * NPROC"
proof -
  define n where "n = length (filter (\<lambda>p. pstate p = RUNNABLE) (procs s))"
  have n: "n \<le> 64" using length_filter_le [of _ "procs s"] assms(1) unfolding n_def by metis
  have un: "unat (ucast (of_nat n :: u32) :: u64) = n"
    using n by (simp add: unsigned_ucast_eq unsigned_of_nat take_bit_nat_eq_self)
  let ?t = "s\<lparr>runnable_procs := ucast (of_nat n :: u32),
    loadavg := (loadavg s * 5 + ucast (of_nat n :: u32) * 10) div 10\<rparr>"
  have l: "unat (loadavg s) * 5 < 2 ^ 64" "n * 10 < 2 ^ 64" "unat (loadavg s) * 5 + n * 10 < 2 ^ 64"
    using assms(2) n by auto
  have m1: "unat (loadavg s * 5) = unat (loadavg s) * 5"
    using l(1) by (simp add: unat_word_ariths)
  have m2: "unat (ucast (of_nat n :: u32) * (10 :: u64)) = n * 10"
    using l(2) un by (simp add: unat_word_ariths)
  have "unat ((loadavg s * 5 + ucast (of_nat n :: u32) * 10) div 10) = (unat (loadavg s) * 5 + n * 10) div 10"
    using l(3) m1 m2 by (simp add: unat_div unat_word_ariths)
  moreover have "update_runnable_procs s = Ok () ?t"
    by (simp add: update_runnable_procs_def n_def)
  ultimately show ?thesis using un n assms(2) by (simp add: n_def)
qed

lemma loadavg_bound_witness:
  "\<exists>t. update_runnable_procs (bss_kernel (\<lambda>_. 0) (\<lambda>_. [])) = Ok () t \<and> unat (loadavg t) \<le> 128"
  using loadavg_bound [of "bss_kernel (\<lambda>_. 0) (\<lambda>_. [])"] by auto

text \<open>The scheduler keeps: no lock held, no current process, nobody marked running.\<close>

definition idle :: "kernel \<Rightarrow> bool" where
  "idle s \<longleftrightarrow> procs_ok s \<and> held (kcpu s) = [] \<and> cnoff (kcpu s) = 0 \<and> cproc (kcpu s) = None \<and>
     (\<forall>p \<in> set (procs s). pstate p \<noteq> RUNNING)"

definition on_cpu :: "nat \<Rightarrow> kernel \<Rightarrow> bool" where
  "on_cpu i s \<longleftrightarrow> procs_ok s \<and> held (kcpu s) = [LProc i] \<and> cnoff (kcpu s) = 1 \<and> cproc (kcpu s) = Some i \<and>
     (\<forall>j < NPROC. pstate (procs s ! j) = RUNNING \<longleftrightarrow> j = i)"

definition off_cpu :: "nat \<Rightarrow> kernel \<Rightarrow> bool" where
  "off_cpu i s \<longleftrightarrow> procs_ok s \<and> held (kcpu s) = [LProc i] \<and> cnoff (kcpu s) = 1 \<and>
     (\<forall>j < NPROC. pstate (procs s ! j) \<noteq> RUNNING)"

lemma idle_release:
  assumes "off_cpu i t"
  shows "idle (t\<lparr>kcpu := cpu_rel (LProc i) ((kcpu t)\<lparr>cproc := None\<rparr>)\<rparr>)"
    and "cpu_ok ((kcpu t)\<lparr>cproc := None\<rparr>)"
proof -
  have ok: "cpu_ok (kcpu t)" "held (kcpu t) = [LProc i]" using assms by (auto simp: off_cpu_def procs_ok_def)
  then show ok': "cpu_ok ((kcpu t)\<lparr>cproc := None\<rparr>)" by (simp add: cpu_ok_def)
  have "cpu_ok (cpu_rel (LProc i) ((kcpu t)\<lparr>cproc := None\<rparr>))"
    using ok ok' by (intro cpu_ok_rel) auto
  then show "idle (t\<lparr>kcpu := cpu_rel (LProc i) ((kcpu t)\<lparr>cproc := None\<rparr>)\<rparr>)"
    using assms by (auto simp: idle_def off_cpu_def procs_ok_def in_set_conv_nth)
qed

lemma sched_scan_idle:
  assumes run: "\<And>i t. i < NPROC \<Longrightarrow> on_cpu i t \<Longrightarrow> wp False (run i) (\<lambda>_. off_cpu i) (\<lambda>_. False) t"
  shows "set is \<subseteq> {..<NPROC} \<Longrightarrow> idle s \<Longrightarrow> wp False (sched_scan run is found) (\<lambda>_. idle) (\<lambda>_. False) s"
proof (induction "is" arbitrary: s found)
  case (Cons i "is")
  have i: "i < NPROC" using Cons.prems by simp
  have s: "cpu_ok (kcpu s)" "length (procs s) = NPROC" "held (kcpu s) = []" "cnoff (kcpu s) = 0"
    "cproc (kcpu s) = None" "\<forall>p \<in> set (procs s). pstate p \<noteq> RUNNING"
    using Cons.prems(2) by (auto simp: idle_def procs_ok_def)
  have ih: "idle t \<Longrightarrow> wp False (sched_scan run is f) (\<lambda>_. idle) (\<lambda>_. False) t" for t f
    using Cons by simp
  show ?case
  proof (cases "pstate (procs s ! i) = RUNNABLE")
    case True
    let ?t = "s\<lparr>procs := (procs s)[i := (procs s ! i)\<lparr>pstate := RUNNING\<rparr>],
      kcpu := (cpu_acq (LProc i) (kcpu s))\<lparr>cproc := Some i\<rparr>\<rparr>"
    have "cpu_ok ((cpu_acq (LProc i) (kcpu s))\<lparr>cproc := Some i\<rparr>)"
      using cpu_ok_acq [of "kcpu s" "LProc i"] s by (simp add: cpu_ok_def)
    then have on: "on_cpu i ?t"
      using s i by (auto simp: on_cpu_def procs_ok_def nth_list_update all_set_conv_all_nth)
    have rejoin: "wp False (release (LProc i)) (\<lambda>_. wp False (sched_scan run is True) (\<lambda>_. idle) (\<lambda>_. False))
        (\<lambda>_. False) (t\<lparr>kcpu := (kcpu t)\<lparr>cproc := None\<rparr>\<rparr>)" if "off_cpu i t" for t
      using that ih idle_release [OF that] by (simp add: off_cpu_def)
    show ?thesis
      using True s i
      by (simp add: cpu_mod_def) (rule wp_conseq [OF run [OF i on]]; simp add: rejoin)
  next
    case False
    have "idle (s\<lparr>kcpu := settle (kcpu s)\<rparr>)"
      using Cons.prems(2) by (simp add: idle_def procs_ok_def)
    then show ?thesis using False s i ih by simp
  qed
qed simp

text \<open>
  C30: one pass of the scheduler is safe.  If every process that is switched to comes back, holding
  just its own lock and no longer marked running (as \<open>sched\<close> checks), then the pass never panics,
  each process runs with the state set to running, alone and with its lock held, and the pass ends
  with no lock held, no current process and no process marked running.
\<close>

theorem scheduler_safe:
  assumes "idle s"
    and "\<And>i t. i < NPROC \<Longrightarrow> on_cpu i t \<Longrightarrow> wp False (run i) (\<lambda>_. off_cpu i) (\<lambda>_. False) t"
  shows "\<exists>t. scheduler_pass run s = Ok () t \<and> idle t"
proof -
  have idle_sie: "idle (t\<lparr>kcpu := (kcpu t)\<lparr>csie := b\<rparr>\<rparr>)" if "idle t" for t b
    using that by (auto simp: idle_def procs_ok_def cpu_ok_def)
  have "idle (s\<lparr>runnable_procs := a, loadavg := b, kcpu := (kcpu s)\<lparr>csie := True\<rparr>\<rparr>)" for a b
    using assms(1) by (auto simp: idle_def procs_ok_def cpu_ok_def)
  then have "wp False (scheduler_pass run) (\<lambda>_. idle) (\<lambda>_. False) s"
    unfolding scheduler_pass_def update_runnable_procs_def
    by (simp add: kintr_on_def cpu_mod_def)
      (rule wp_conseq [OF sched_scan_idle [where run = run]];
        use assms(2) in \<open>auto simp: idle_sie\<close>)
  then show ?thesis by (auto dest: wp_returns)
qed


lemma scheduler_safe_witness:
  "\<exists>t. scheduler_pass (\<lambda>i. proc_mod i (\<lambda>p. p\<lparr>pstate := SLEEPING\<rparr>)) (bss_kernel (\<lambda>_. 0) (\<lambda>_. [])) = Ok () t \<and> idle t"
proof (rule scheduler_safe)
  show "idle (bss_kernel (\<lambda>_. 0) (\<lambda>_. []))"
    by (simp add: idle_def procs_ok_def cpu_ok_def bss_proc_def)
  show "wp False (proc_mod i (\<lambda>p. p\<lparr>pstate := SLEEPING\<rparr>)) (\<lambda>_. off_cpu i) (\<lambda>_. False) t"
    if "i < NPROC" "on_cpu i t" for i and t :: kernel
    using that by (auto simp: on_cpu_def off_cpu_def procs_ok_def nth_list_update)
qed

end
