(* ===== verification/Kalloc.thy ===== *)
theory Kalloc
  imports Sched "HOL-Library.Monad_Syntax"
begin

section \<open>The page allocator (\<^verbatim>\<open>kernel/kalloc.c\<close>)\<close>

text \<open>
  Free pages form a singly linked list through their first word, in the physical memory of the
  model.  The kernel is built with \<^verbatim>\<open>LAB_SYSCALL\<close>, which compiles the junk fills of \<open>kfree\<close> and
  \<open>kalloc\<close> out, so a page keeps its contents (but for the link) from free to allocation.
\<close>

definition ld64 :: "u64 \<Rightarrow> u64 km" where
  "ld64 a = gets (\<lambda>s. load64 (mem s) a)"

definition st64 :: "u64 \<Rightarrow> u64 \<Rightarrow> unit km" where
  "st64 a v = modify (\<lambda>s. s\<lparr>mem := store64 (mem s) a v\<rparr>)"

definition kfree :: "u64 \<Rightarrow> unit km" where
  "kfree pa =
     bnd (gets kend) (\<lambda>e.
     seq (guard_panic (pa mod PGSIZE \<noteq> 0 \<or> pa < e \<or> pa \<ge> PHYSTOP) ''kfree'') (
     seq (acquire LKmem) (
     bnd (gets freelist) (\<lambda>h.
     seq (st64 pa h) (
     seq (modify (\<lambda>s. s\<lparr>freelist := pa\<rparr>))
         (release LKmem))))))"

definition kalloc :: "u64 km" where
  "kalloc =
     seq (acquire LKmem) (
     bnd (gets freelist) (\<lambda>r.
     seq (whenM (r \<noteq> 0)
            (bnd (ld64 r) (\<lambda>nx. modify (\<lambda>s. s\<lparr>freelist := nx\<rparr>)))) (
     seq (release LKmem)
         (ret r))))"

text \<open>The loop of \<open>freerange\<close>; a pointer that would overflow has no meaning.\<close>

lemma unat_next_page:
  fixes p :: u64
  assumes "\<not> p + PGSIZE < p"
  shows "unat (p + PGSIZE) = unat p + 4096"
proof -
  have "unat (p + PGSIZE) = (unat p + 4096) mod 2 ^ 64" by (simp add: unat_word_ariths)
  moreover have "unat p < 2 ^ 64" using unsigned_less [of p] by simp
  moreover have "unat p \<le> unat (p + PGSIZE)" using assms by (simp add: not_less word_le_nat_alt)
  ultimately show ?thesis by (auto simp: mod_if split: if_splits)
qed

function freerange_loop :: "u64 \<Rightarrow> u64 \<Rightarrow> unit km" where
  "freerange_loop p e =
     (if p + PGSIZE < p then stuck
      else if p + PGSIZE \<le> e then seq (kfree p) (freerange_loop (p + PGSIZE) e)
      else ret ())"
  by pat_completeness auto
termination
  by (relation "measure (\<lambda>(p, e). unat e - unat p)") (auto simp: unat_next_page word_le_nat_alt)

declare freerange_loop.simps [simp del]

definition freerange :: "u64 \<Rightarrow> u64 \<Rightarrow> unit km" where
  "freerange pa_start pa_end = freerange_loop (PGROUNDUP pa_start) pa_end"

definition kinit :: "unit km" where
  "kinit = seq (initlock LKmem) (bnd (gets kend) (\<lambda>e. freerange e PHYSTOP))"

text \<open>
  The count of \<open>nfree\<close> follows the links until it meets the null pointer: \<open>None\<close> when it never
  does, or when the \<^verbatim>\<open>int\<close> counter would overflow.  The product with the page size is an \<^verbatim>\<open>int\<close> in C; it cannot
  overflow, since the machine has 128 megabytes of memory.
\<close>

partial_function (option) count_free :: "(u64 \<Rightarrow> u64) \<Rightarrow> u64 \<Rightarrow> int \<Rightarrow> int option" where
  "count_free m r n =
     (if r = 0 then Some n
      else if n \<ge> 2 ^ 31 - 1 then None
      else count_free m (load64 m r) (n + 1))"

definition nfree :: "u64 km" where
  "nfree =
     seq (acquire LKmem) (
     bnd (gets (\<lambda>s. count_free (mem s) (freelist s) 0)) (\<lambda>c.
     case c of None \<Rightarrow> stuck
     | Some n \<Rightarrow> seq (release LKmem) (ret (word_of_int (n * 4096)))))"

subsection \<open>The free list\<close>

primrec flist :: "(u64 \<Rightarrow> u64) \<Rightarrow> u64 \<Rightarrow> u64 list \<Rightarrow> bool" where
  "flist m p [] \<longleftrightarrow> p = 0"
| "flist m p (x # xs) \<longleftrightarrow> p = x \<and> x \<noteq> 0 \<and> flist m (load64 m x) xs"

definition ram_page :: "kernel \<Rightarrow> u64 \<Rightarrow> bool" where
  "ram_page s pa \<longleftrightarrow> page_aligned pa \<and> kend s \<le> pa \<and> pa < PHYSTOP"

definition kmem_ok :: "kernel \<Rightarrow> u64 list \<Rightarrow> bool" where
  "kmem_ok s xs \<longleftrightarrow> flist (mem s) (freelist s) xs \<and> distinct xs \<and> (\<forall>x \<in> set xs. ram_page s x) \<and>
     0 < kend s \<and> cpu_ok (kcpu s) \<and> LKmem \<notin> set (held (kcpu s))"

lemma aligned_cell: "page_aligned a \<Longrightarrow> cell a = a"
  using mod_mod_cancel [of 8 4096 "unat a"] by (intro cell_aligned) (simp add: page_aligned_unat)

lemma flist_store:
  "flist m p xs \<Longrightarrow> (\<And>x. x \<in> set xs \<Longrightarrow> cell x \<noteq> cell a) \<Longrightarrow> flist (store64 m a v) p xs"
  by (induction xs arbitrary: p) (auto simp: load64_store64)


lemma flist_nonnull: "flist m p xs \<Longrightarrow> 0 \<notin> set xs"
  by (induction xs arbitrary: p) auto

lemma flist_unique: "flist m p xs \<Longrightarrow> flist m p ys \<Longrightarrow> xs = ys"
proof (induction xs arbitrary: p ys)
  case (Cons x xs)
  then show ?case by (cases ys) auto
next
  case Nil
  then show ?case by (cases ys) auto
qed

lemma count_free_flist:
  "flist m p xs \<Longrightarrow> n + int (length xs) < 2 ^ 31 \<Longrightarrow> count_free m p n = Some (n + int (length xs))"
proof (induction xs arbitrary: p n)
  case (Cons x xs)
  then show ?case by (simp add: count_free.simps [of m x])
qed (simp add: count_free.simps)

lemma ram_page_cell: "ram_page s x \<Longrightarrow> cell x = x"
  by (simp add: ram_page_def aligned_cell)

lemma kfree_run:
  assumes "kmem_ok s xs" and "ram_page s pa" and "pa \<notin> set xs"
  shows "kfree pa s = Ok () (s\<lparr>mem := store64 (mem s) pa (freelist s), freelist := pa, kcpu := settle (kcpu s)\<rparr>)"
    and "kmem_ok (s\<lparr>mem := store64 (mem s) pa (freelist s), freelist := pa, kcpu := settle (kcpu s)\<rparr>) (pa # xs)"
proof -
  show "kfree pa s = Ok () (s\<lparr>mem := store64 (mem s) pa (freelist s), freelist := pa, kcpu := settle (kcpu s)\<rparr>)"
    using assms by (simp add: kfree_def st64_def kmem_ok_def ram_page_def not_less not_le)
  have sep: "cell x \<noteq> cell pa" if "x \<in> set xs" for x
    using assms that by (metis kmem_ok_def ram_page_cell)
  have "pa \<noteq> 0" using assms by (auto simp: kmem_ok_def ram_page_def)
  then show "kmem_ok (s\<lparr>mem := store64 (mem s) pa (freelist s), freelist := pa, kcpu := settle (kcpu s)\<rparr>) (pa # xs)"
    using assms sep by (auto simp: kmem_ok_def ram_page_def load64_store64 intro!: flist_store)
qed

lemma kfree_panics: "\<not> ram_page s pa \<Longrightarrow> kfree pa s = Panic ''kfree''"
  by (cases "pa mod PGSIZE = 0"; cases "kend s \<le> pa") (simp_all add: kfree_def ram_page_def not_less not_le)

lemma kalloc_run:
  assumes "kmem_ok s xs"
  shows "kalloc s = Ok (freelist s) (s\<lparr>freelist := (if freelist s = 0 then 0 else load64 (mem s) (freelist s)),
      kcpu := settle (kcpu s)\<rparr>)"
    and "xs = [] \<longleftrightarrow> freelist s = 0"
    and "xs \<noteq> [] \<Longrightarrow> freelist s = hd xs"
    and "kmem_ok (s\<lparr>freelist := (if freelist s = 0 then 0 else load64 (mem s) (freelist s)),
      kcpu := settle (kcpu s)\<rparr>) (tl xs)"
proof -
  show "kalloc s = Ok (freelist s) (s\<lparr>freelist := (if freelist s = 0 then 0 else load64 (mem s) (freelist s)),
      kcpu := settle (kcpu s)\<rparr>)"
    using assms by (simp add: kalloc_def ld64_def kmem_ok_def)
qed (use assms in \<open>cases xs; auto simp: kmem_ok_def ram_page_def\<close>)+

subsection \<open>The allocator as a pool of pages\<close>

text \<open>
  What a client of the allocator relies on: a pool of free pages with an operation that takes
  some page out of it (the null page when it is empty) and one that puts a page back.
\<close>

locale page_pool =
  fixes pool :: "'s \<Rightarrow> u64 set \<Rightarrow> bool"
    and valid :: "u64 \<Rightarrow> bool"
    and get_page :: "('s, u64) kM"
    and put_page :: "u64 \<Rightarrow> ('s, unit) kM"
  assumes get_empty: "pool s {} \<Longrightarrow> \<exists>t. get_page s = Ok 0 t \<and> pool t {}"
    and get_some: "pool s P \<Longrightarrow> P \<noteq> {} \<Longrightarrow> \<exists>p t. get_page s = Ok p t \<and> p \<in> P \<and> pool t (P - {p})"
    and put_page: "pool s P \<Longrightarrow> valid p \<Longrightarrow> p \<notin> P \<Longrightarrow> \<exists>t. put_page p s = Ok () t \<and> pool t (insert p P)"
    and pool_valid: "pool s P \<Longrightarrow> p \<in> P \<Longrightarrow> valid p \<and> p \<noteq> 0"
    and pool_finite: "pool s P \<Longrightarrow> finite P"

text \<open>A client that takes \<open>n\<close> pages, giving all of them back when one cannot be had.\<close>

primrec take_pages :: "('s, u64) kM \<Rightarrow> nat \<Rightarrow> u64 list \<Rightarrow> ('s, u64 list option) kM" where
  "take_pages get_page 0 got = ret (Some got)"
| "take_pages get_page (Suc n) got =
     bnd get_page (\<lambda>p. if p = 0 then ret None else take_pages get_page n (p # got))"

context page_pool
begin

lemma get_page_cases:
  assumes "pool s P"
  obtains t where "P = {}" "get_page s = Ok 0 t" "pool t {}"
    | p t where "get_page s = Ok p t" "p \<in> P" "p \<noteq> 0" "pool t (P - {p})"
  using get_empty get_some assms pool_valid by (cases "P = {}") blast+

lemma take_pages_distinct:
  "pool s P \<Longrightarrow> distinct got \<Longrightarrow> set got \<inter> P = {} \<Longrightarrow> n \<le> card P \<Longrightarrow>
   \<exists>ps t. take_pages get_page n got s = Ok (Some ps) t \<and> length ps = length got + n \<and> distinct ps \<and>
     set got \<subseteq> set ps \<and> set ps \<subseteq> set got \<union> P \<and> pool t (P - set ps)"
proof (induction n arbitrary: s P got)
  case 0
  then show ?case by (auto simp: Diff_triv Int_commute)
next
  case (Suc n)
  then have "P \<noteq> {}" by auto
  then obtain p t where pt: "get_page s = Ok p t" "p \<in> P" "p \<noteq> 0" "pool t (P - {p})"
    using get_page_cases [OF Suc.prems(1)] by metis
  have "n \<le> card (P - {p})" using Suc.prems pt pool_finite by simp
  then obtain ps u where ps: "take_pages get_page n (p # got) t = Ok (Some ps) u"
    "length ps = length (p # got) + n" "distinct ps" "set (p # got) \<subseteq> set ps"
    "set ps \<subseteq> set (p # got) \<union> (P - {p})" "pool u (P - {p} - set ps)"
    using Suc.IH [of t "P - {p}" "p # got"] Suc.prems pt by auto
  have "P - {p} - set ps = P - set ps" using ps(4) by auto
  then show ?case using ps pt by auto
qed

end

lemma kmem_pool:
  "page_pool (\<lambda>s P. kend s = e \<and> (\<exists>xs. kmem_ok s xs \<and> set xs = P)) (\<lambda>p. page_aligned p \<and> e \<le> p \<and> p < PHYSTOP)
     kalloc kfree"
proof
  fix s :: kernel and P :: "u64 set"
  assume "kend s = e \<and> (\<exists>xs. kmem_ok s xs \<and> set xs = {})"
  then have e: "kend s = e" and ok: "kmem_ok s []" by auto
  show "\<exists>t. kalloc s = Ok 0 t \<and> kend t = e \<and> (\<exists>xs. kmem_ok t xs \<and> set xs = {})"
    using kalloc_run [OF ok] e by (auto intro!: exI [of _ "[]"])
next
  fix s :: kernel and P
  assume "kend s = e \<and> (\<exists>xs. kmem_ok s xs \<and> set xs = P)" and ne: "P \<noteq> {}"
  then obtain xs where e: "kend s = e" and ok: "kmem_ok s xs" and P: "set xs = P" by auto
  then have "xs \<noteq> []" using ne by auto
  moreover have "distinct xs" using ok by (simp add: kmem_ok_def)
  ultimately have "hd xs \<in> P" "set (tl xs) = P - {hd xs}"
    using P by (cases xs; auto)+
  then show "\<exists>p t. kalloc s = Ok p t \<and> p \<in> P \<and> kend t = e \<and> (\<exists>xs. kmem_ok t xs \<and> set xs = P - {p})"
    using kalloc_run [OF ok] e \<open>xs \<noteq> []\<close> by (auto intro!: exI [of _ "tl xs"])
next
  fix s :: kernel and P p
  assume "kend s = e \<and> (\<exists>xs. kmem_ok s xs \<and> set xs = P)" and v: "page_aligned p \<and> e \<le> p \<and> p < PHYSTOP" and p: "p \<notin> P"
  then obtain xs where e: "kend s = e" and ok: "kmem_ok s xs" and P: "set xs = P" by auto
  then have "ram_page s p" "p \<notin> set xs" using v p by (auto simp: ram_page_def)
  from kfree_run [OF ok this]
  show "\<exists>t. kfree p s = Ok () t \<and> kend t = e \<and> (\<exists>xs. kmem_ok t xs \<and> set xs = insert p P)"
    using e P by (auto intro!: exI [of _ "p # xs"])
next
  fix s :: kernel and P p
  assume "kend s = e \<and> (\<exists>xs. kmem_ok s xs \<and> set xs = P)" and "p \<in> P"
  then show "(page_aligned p \<and> e \<le> p \<and> p < PHYSTOP) \<and> p \<noteq> 0"
    by (auto simp: kmem_ok_def ram_page_def)
next
  fix s :: kernel and P
  assume "kend s = e \<and> (\<exists>xs. kmem_ok s xs \<and> set xs = P)"
  then show "finite P" by auto
qed

interpretation kpages: page_pool "\<lambda>s P. kend s = e \<and> (\<exists>xs. kmem_ok s xs \<and> set xs = P)"
  "\<lambda>p. page_aligned p \<and> e \<le> p \<and> p < PHYSTOP" kalloc kfree
  by (rule kmem_pool)


subsection \<open>Boot\<close>

definition pages_from :: "u64 \<Rightarrow> u64 set" where
  "pages_from p = {q. page_aligned q \<and> p \<le> q \<and> q < PHYSTOP}"

lemma pages_from_step:
  assumes "page_aligned p" and "p + PGSIZE \<le> PHYSTOP" and "\<not> p + PGSIZE < p"
  shows "pages_from p = insert p (pages_from (p + PGSIZE))"
proof -
  have n: "unat (p + PGSIZE) = unat p + 4096" using assms(3) by (rule unat_next_page)
  have d: "q = p \<or> p + PGSIZE \<le> q" if "page_aligned q" "p \<le> q" for q
  proof -
    have "unat p mod 4096 = 0" "unat q mod 4096 = 0" "unat p \<le> unat q"
      using assms(1) that by (simp_all add: page_aligned_unat word_le_nat_alt)
    then have "unat q = unat p \<or> unat p + 4096 \<le> unat q"
      using aligned_gap [of "unat p" "unat q"] by linarith
    then show ?thesis using n by (auto simp: word_le_nat_alt word_unat_eq_iff)
  qed
  have a: "p \<le> p + PGSIZE" and b: "p < PHYSTOP"
    using n assms(2) by (auto simp: word_le_nat_alt word_less_nat_alt)
  show ?thesis
  proof (rule set_eqI)
    fix q
    show "q \<in> pages_from p \<longleftrightarrow> q \<in> insert p (pages_from (p + PGSIZE))"
    proof (cases "q = p")
      case True
      then show ?thesis using assms(1) b unfolding pages_from_def by simp
    next
      case False
      have "page_aligned q \<Longrightarrow> p \<le> q \<longleftrightarrow> p + PGSIZE \<le> q"
        using d [of q] False order_trans [OF a, of q] by metis
      then show ?thesis using False unfolding pages_from_def mem_Collect_eq insert_iff by metis
    qed
  qed
qed

lemma aligned_next: "page_aligned p \<Longrightarrow> \<not> p + PGSIZE < p \<Longrightarrow> page_aligned (p + PGSIZE)"
  by (simp add: page_aligned_unat unat_next_page)

lemma freerange_loop_run:
  "page_aligned p \<Longrightarrow> kend s \<le> p \<Longrightarrow> p \<le> PHYSTOP \<Longrightarrow> e = PHYSTOP \<Longrightarrow> kmem_ok s xs \<Longrightarrow> \<forall>x \<in> set xs. x < p \<Longrightarrow>
   \<exists>t ys. freerange_loop p e s = Ok () t \<and> kmem_ok t ys \<and> set ys = set xs \<union> pages_from p \<and> kend t = kend s"
proof (induction p e arbitrary: s xs rule: freerange_loop.induct)
  case (1 p e)
  have nw: "\<not> p + PGSIZE < p"
  proof -
    have "unat p \<le> unat PHYSTOP" using "1.prems"(3) by (simp add: word_le_nat_alt)
    then have "unat (p + PGSIZE) = unat p + 4096" by (simp add: unat_word_ariths)
    then show ?thesis by (simp add: word_less_nat_alt)
  qed
  then have n: "unat (p + PGSIZE) = unat p + 4096" by (rule unat_next_page)
  show ?case
  proof (cases "p + PGSIZE \<le> e")
    case True
    have "p < PHYSTOP" using n True "1.prems"(4) by (auto simp: word_le_nat_alt word_less_nat_alt)
    then have rp: "ram_page s p" "p \<notin> set xs" using "1.prems" by (auto simp: ram_page_def)
    let ?s = "s\<lparr>mem := store64 (mem s) p (freelist s), freelist := p, kcpu := settle (kcpu s)\<rparr>"
    note kf = kfree_run [OF "1.prems"(5) rp]
    have "\<exists>t ys. freerange_loop (p + PGSIZE) e ?s = Ok () t \<and> kmem_ok t ys \<and>
        set ys = set (p # xs) \<union> pages_from (p + PGSIZE) \<and> kend t = kend ?s"
    proof (rule "1.IH" [OF nw True])
      show "page_aligned (p + PGSIZE)" using "1.prems"(1) nw by (rule aligned_next)
      show "kend ?s \<le> p + PGSIZE" using "1.prems"(2) n by (simp add: word_le_nat_alt)
      show "p + PGSIZE \<le> PHYSTOP" using True "1.prems"(4) by simp
      show "\<forall>x \<in> set (p # xs). x < p + PGSIZE"
        using "1.prems"(6) n by (auto simp: word_less_nat_alt intro: less_trans)
    qed (use "1.prems"(4) kf in simp_all)
    moreover have "pages_from p = insert p (pages_from (p + PGSIZE))"
      using "1.prems" True nw by (intro pages_from_step) auto
    ultimately show ?thesis
      using nw True kf by (auto simp: freerange_loop.simps [of p])
  next
    case False
    have "pages_from p = {}"
    proof -
      have "False" if "q \<in> pages_from p" for q
      proof -
        have q: "unat q mod 4096 = 0" "unat p \<le> unat q" "unat q < 0x88000000"
          using that by (auto simp: pages_from_def page_aligned_unat word_le_nat_alt word_less_nat_alt)
        have "0x88000000 < unat p + 4096"
          using False "1.prems"(4) n by (simp add: word_le_nat_alt)
        with q aligned_gap [of "unat q" "0x88000000"] show False by simp
      qed
      then show ?thesis by blast
    qed
    then show ?thesis
      using nw False "1.prems" by (auto simp: freerange_loop.simps [of p])
  qed
qed

subsection \<open>What the allocator promises\<close>

text \<open>
  \<open>kinit\<close> hands every whole page of RAM above the kernel image to the allocator: after it the
  free list is well formed, without repetition, and holds exactly those pages.
\<close>

theorem kinit_spec:
  assumes "freelist s = 0" and "0 < kend s" and "kend s \<le> PHYSTOP - PGSIZE" and "cpu_ok (kcpu s)" and "held (kcpu s) = []"
  shows "\<exists>t xs. kinit s = Ok () t \<and> kmem_ok t xs \<and> set xs = pages_from (PGROUNDUP (kend s))"
proof -
  have u: "unat (kend s) \<le> 0x88000000 - 4096" using assms(3) by (simp add: word_le_nat_alt)
  have small: "unat (kend s) \<le> 2 ^ 64 - 4096" using u by simp
  have up: "kend s \<le> PGROUNDUP (kend s)" using small by (rule PGROUNDUP_ge)
  have "unat (PGROUNDUP (kend s)) \<le> unat PHYSTOP"
    using u unat_PGROUNDUP [of "kend s"] by simp
  then have le: "PGROUNDUP (kend s) \<le> PHYSTOP" by (simp add: word_le_nat_alt)
  let ?s = "s\<lparr>kcpu := kcpu s\<lparr>held := []\<rparr>\<rparr>"
  have "kmem_ok ?s []" using assms by (simp add: kmem_ok_def cpu_ok_def)
  moreover have "kinit s = freerange_loop (PGROUNDUP (kend s)) PHYSTOP ?s"
    using assms(5) by (simp add: kinit_def initlock_def cpu_mod_def freerange_def)
  ultimately show ?thesis
    using freerange_loop_run [of "PGROUNDUP (kend s)" ?s PHYSTOP "[]"] up le PGROUNDUP_aligned by auto
qed

lemma kinit_spec_witness:
  "\<exists>t xs. kinit (bss_kernel (\<lambda>_. 0) (\<lambda>_. [])) = Ok () t \<and> kmem_ok t xs \<and> set xs = pages_from (PGROUNDUP 0x80022000)"
  using kinit_spec [of "bss_kernel (\<lambda>_. 0) (\<lambda>_. [])"] by (simp add: cpu_ok_def)

text \<open>
  C7: the allocator is a stack of distinct pages.  \<open>kfree\<close> of a valid page that is not free
  succeeds, the next \<open>kalloc\<close> returns that very page and restores the free list, and \<open>kalloc\<close>
  returns the null page exactly when no page is free; an invalid page makes \<open>kfree\<close> panic.
\<close>

theorem kalloc_kfree:
  assumes "kmem_ok s xs"
  shows "(ram_page s pa \<longrightarrow> pa \<notin> set xs \<longrightarrow>
      (\<exists>t u. kfree pa s = Ok () t \<and> kmem_ok t (pa # xs) \<and> kalloc t = Ok pa u \<and> kmem_ok u xs)) \<and>
    (\<not> ram_page s pa \<longrightarrow> kfree pa s = Panic ''kfree'') \<and>
    (\<exists>p t. kalloc s = Ok p t \<and> mem t = mem s \<and> (p = 0 \<longleftrightarrow> xs = []) \<and>
      (p \<noteq> 0 \<longrightarrow> xs = p # tl xs \<and> ram_page s p) \<and> kmem_ok t (tl xs))"
proof (intro conjI impI)
  assume rp: "ram_page s pa" "pa \<notin> set xs"
  note f = kfree_run [OF assms rp]
  show "\<exists>t u. kfree pa s = Ok () t \<and> kmem_ok t (pa # xs) \<and> kalloc t = Ok pa u \<and> kmem_ok u xs"
    using f kalloc_run [OF f(2)] by auto
next
  show "\<exists>p t. kalloc s = Ok p t \<and> mem t = mem s \<and> (p = 0 \<longleftrightarrow> xs = []) \<and>
      (p \<noteq> 0 \<longrightarrow> xs = p # tl xs \<and> ram_page s p) \<and> kmem_ok t (tl xs)"
    using kalloc_run [OF assms] assms by (cases xs) (auto simp: kmem_ok_def ram_page_def)
qed (rule kfree_panics)

lemma kalloc_kfree_witness:
  "\<exists>t u. kfree 0x80023000 (bss_kernel (\<lambda>_. 0) (\<lambda>_. [])) = Ok () t \<and> kalloc t = Ok 0x80023000 u"
  using kalloc_kfree [of "bss_kernel (\<lambda>_. 0) (\<lambda>_. [])" "[]" "0x80023000"]
  by (auto simp: kmem_ok_def cpu_ok_def ram_page_def)

lemma count_pages:
  assumes "kmem_ok s xs"
  shows "count_free (mem s) (freelist s) 0 = Some (int (length xs))"
proof -
  have "set xs \<subseteq> (\<lambda>k. of_nat (4096 * k)) ` {..< 0x88000}"
  proof
    fix x assume "x \<in> set xs"
    then have "ram_page s x" using assms by (simp add: kmem_ok_def)
    then have x: "unat x mod 4096 = 0" "unat x < 0x88000000"
      by (auto simp: ram_page_def page_aligned_unat word_less_nat_alt)
    have "4096 * (unat x div 4096) = unat x" using x(1) by (simp add: mod_eq_0_iff_dvd)
    then have "x = of_nat (4096 * (unat x div 4096))" by simp
    then show "x \<in> (\<lambda>k. of_nat (4096 * k)) ` {..< 0x88000}" using x(2) by auto
  qed
  then have "card (set xs) \<le> card ((\<lambda>k. of_nat (4096 * k) :: u64) ` {..< 0x88000})" by (intro card_mono) auto
  also have "\<dots> \<le> 0x88000" using card_image_le [of "{..< 0x88000}" "\<lambda>k. of_nat (4096 * k) :: u64"] by simp
  finally have "length xs \<le> 0x88000" using assms by (simp add: kmem_ok_def distinct_card)
  then show ?thesis
    using count_free_flist [where m = "mem s" and p = "freelist s" and xs = xs and n = 0] assms by (simp add: kmem_ok_def)
qed

lemma nfree_run:
  "kmem_ok s xs \<Longrightarrow> nfree s = Ok (of_nat (4096 * length xs)) (s\<lparr>kcpu := settle (kcpu s)\<rparr>)"
  using count_pages [of s xs] by (simp add: nfree_def kmem_ok_def mult.commute)

text \<open>
  \<open>nfree\<close> terminates on a well-formed free list and reports 4096 bytes for each free page.
\<close>

theorem nfree_spec:
  assumes "kmem_ok s xs"
  shows "\<exists>t. nfree s = Ok (of_nat (4096 * length xs)) t \<and> mem t = mem s \<and> kmem_ok t xs"
  using nfree_run [OF assms] assms by (simp add: kmem_ok_def ram_page_def)

lemma nfree_spec_witness:
  "\<exists>t u. kfree 0x80023000 (bss_kernel (\<lambda>_. 0) (\<lambda>_. [])) = Ok () t \<and> nfree t = Ok 4096 u"
proof -
  let ?s = "bss_kernel (\<lambda>_. 0) (\<lambda>_. [])"
  have ok: "kmem_ok ?s []" by (simp add: kmem_ok_def cpu_ok_def)
  have rp: "ram_page ?s 0x80023000" by (simp add: ram_page_def)
  have "0x80023000 \<notin> set ([] :: u64 list)" by simp
  note f = kfree_run [OF ok rp this]
  from nfree_spec [OF f(2)] f(1) show ?thesis by auto
qed

text \<open>
  Pages are never handed out twice.  Taking \<open>n\<close> pages from an allocator with at least \<open>n\<close>
  free pages gives \<open>n\<close> distinct valid pages, none of which is still in the free list.
\<close>

theorem kalloc_distinct:
  assumes "kmem_ok s xs" and "n \<le> length xs"
  shows "\<exists>ps t ys. take_pages kalloc n [] s = Ok (Some ps) t \<and> length ps = n \<and> distinct ps \<and>
    set ps \<subseteq> set xs \<and> kmem_ok t ys \<and> set ys = set xs - set ps"
proof -
  have n: "n \<le> card (set xs)" using assms by (simp add: kmem_ok_def distinct_card)
  have "kend s = kend s \<and> (\<exists>ys. kmem_ok s ys \<and> set ys = set xs)" using assms(1) by blast
  from kpages.take_pages_distinct [OF this, of "[]" n] n show ?thesis by auto
qed

lemma kalloc_distinct_witness:
  "\<exists>t ps u. kfree 0x80023000 (bss_kernel (\<lambda>_. 0) (\<lambda>_. [])) = Ok () t \<and> take_pages kalloc 1 [] t = Ok (Some ps) u \<and> length ps = 1"
proof -
  let ?s = "bss_kernel (\<lambda>_. 0) (\<lambda>_. [])"
  have ok: "kmem_ok ?s []" by (simp add: kmem_ok_def cpu_ok_def)
  have rp: "ram_page ?s 0x80023000" by (simp add: ram_page_def)
  have "0x80023000 \<notin> set ([] :: u64 list)" by simp
  note f = kfree_run [OF ok rp this]
  from kalloc_distinct [OF f(2), of 1] f(1) show ?thesis by auto
qed

end
