(* ===== verification/Vm.thy ===== *)
theory Vm
  imports Kalloc
begin

section \<open>Virtual memory (\<^verbatim>\<open>kernel/vm.c\<close>)\<close>

text \<open>
  Sv39 page tables in the cells of physical memory: a table is the address of its page, a
  page-table entry the address of its cell, the null entry 0.  The bytes of a user page are read
  and written through the same cells.  \<open>memset\<close> and \<open>memmove\<close> on physical memory are the byte loops
  of theory \<open>Cstring\<close>, here over \<open>mem\<close>.  Loops over pages recurse on their page count.
\<close>

subsection \<open>Bytes of physical memory\<close>

primrec fill8 :: "memory \<Rightarrow> u64 \<Rightarrow> u8 \<Rightarrow> nat \<Rightarrow> memory" where
  "fill8 m a c 0 = m"
| "fill8 m a c (Suc n) = fill8 (store8 m a c) (a + 1) c n"

primrec write_bytes :: "memory \<Rightarrow> u64 \<Rightarrow> u8 list \<Rightarrow> memory" where
  "write_bytes m a [] = m"
| "write_bytes m a (b # bs) = write_bytes (store8 m a b) (a + 1) bs"

definition read_bytes :: "memory \<Rightarrow> u64 \<Rightarrow> nat \<Rightarrow> u8 list" where
  "read_bytes m a n = map (\<lambda>i. load8 m (a + of_nat i)) [0..<n]"

definition kmemset :: "u64 \<Rightarrow> u8 \<Rightarrow> nat \<Rightarrow> unit km" where
  "kmemset a c n = modify (\<lambda>s. s\<lparr>mem := fill8 (mem s) a c n\<rparr>)"

definition kmemmove :: "u64 \<Rightarrow> u64 \<Rightarrow> nat \<Rightarrow> unit km" where
  "kmemmove d a n = modify (\<lambda>s. s\<lparr>mem := write_bytes (mem s) d (read_bytes (mem s) a n)\<rparr>)"

subsection \<open>Walking and changing a page table\<close>

definition walk_level :: "bool \<Rightarrow> u64 \<Rightarrow> nat \<Rightarrow> u64 \<Rightarrow> u64 option km" where
  "walk_level alloc va level pt =
     (let pte = pt + 8 * PX level va in
      bnd (ld64 pte) (\<lambda>e.
      if e AND PTE_V \<noteq> 0 then ret (Some (PTE2PA e))
      else if \<not> alloc then ret None
      else bnd kalloc (\<lambda>p.
        if p = 0 then ret None
        else seq (kmemset p 0 4096) (
             seq (st64 pte (PA2PTE p OR PTE_V))
                 (ret (Some p))))))"

definition walk :: "u64 \<Rightarrow> u64 \<Rightarrow> bool \<Rightarrow> u64 km" where
  "walk pt va alloc =
     seq (guard_panic (va \<ge> MAXVA) ''walk'') (
     bnd (walk_level alloc va 2 pt) (\<lambda>p1. case p1 of None \<Rightarrow> ret 0 | Some p1 \<Rightarrow>
     bnd (walk_level alloc va 1 p1) (\<lambda>p0. case p0 of None \<Rightarrow> ret 0 | Some p0 \<Rightarrow>
     ret (p0 + 8 * PX 0 va))))"

definition walkaddr :: "u64 \<Rightarrow> u64 \<Rightarrow> u64 km" where
  "walkaddr pt va =
     (if va \<ge> MAXVA then ret 0
      else bnd (walk pt va False) (\<lambda>pte.
        if pte = 0 then ret 0
        else bnd (ld64 pte) (\<lambda>e.
          if e AND PTE_V = 0 then ret 0
          else if e AND PTE_U = 0 then ret 0
          else ret (PTE2PA e))))"

text \<open>\<open>n\<close> bounds the iterations: the caller passes the number of pages.\<close>

primrec mappages_loop :: "nat \<Rightarrow> u64 \<Rightarrow> u64 \<Rightarrow> u64 \<Rightarrow> u64 \<Rightarrow> u64 \<Rightarrow> int km" where
  "mappages_loop 0 pt a lst pa perm = stuck"
| "mappages_loop (Suc n) pt a lst pa perm =
     bnd (walk pt a True) (\<lambda>pte.
     if pte = 0 then ret (-1)
     else bnd (ld64 pte) (\<lambda>e.
       seq (guard_panic (e AND PTE_V \<noteq> 0) ''mappages: remap'') (
       seq (st64 pte (PA2PTE pa OR perm OR PTE_V)) (
       if a = lst then ret 0
       else mappages_loop n pt (a + PGSIZE) lst (pa + PGSIZE) perm))))"

definition mappages :: "u64 \<Rightarrow> u64 \<Rightarrow> u64 \<Rightarrow> u64 \<Rightarrow> u64 \<Rightarrow> int km" where
  "mappages pt va sz pa perm =
     seq (guard_panic (va mod PGSIZE \<noteq> 0) ''mappages: va not aligned'') (
     seq (guard_panic (sz mod PGSIZE \<noteq> 0) ''mappages: size not aligned'') (
     seq (guard_panic (sz = 0) ''mappages: size'') (
     mappages_loop (unat sz div 4096) pt va (va + sz - PGSIZE) pa perm)))"

definition kvmmap :: "u64 \<Rightarrow> u64 \<Rightarrow> u64 \<Rightarrow> u64 \<Rightarrow> u64 \<Rightarrow> unit km" where
  "kvmmap pt va pa sz perm =
     bnd (mappages pt va sz pa perm) (\<lambda>r. guard_panic (r \<noteq> 0) ''kvmmap'')"

text \<open>The message that precedes the panic of an unmapped page is left out.\<close>

primrec uvmunmap_loop :: "nat \<Rightarrow> u64 \<Rightarrow> u64 \<Rightarrow> u64 \<Rightarrow> bool \<Rightarrow> unit km" where
  "uvmunmap_loop 0 pt a e do_free = (if a < e then stuck else ret ())"
| "uvmunmap_loop (Suc n) pt a e do_free =
     (if \<not> a < e then ret ()
      else bnd (walk pt a False) (\<lambda>pte.
        seq (guard_panic (pte = 0) ''uvmunmap: walk'') (
        bnd (ld64 pte) (\<lambda>v.
        seq (guard_panic (v AND PTE_V = 0) ''uvmunmap: not mapped'') (
        seq (guard_panic (PTE_FLAGS v = PTE_V) ''uvmunmap: not a leaf'') (
        seq (whenM do_free (kfree (PTE2PA v))) (
        seq (st64 pte 0)
            (uvmunmap_loop n pt (a + PGSIZE) e do_free))))))))"

definition uvmunmap :: "u64 \<Rightarrow> u64 \<Rightarrow> u64 \<Rightarrow> bool \<Rightarrow> unit km" where
  "uvmunmap pt va npages do_free =
     seq (guard_panic (va mod PGSIZE \<noteq> 0) ''uvmunmap: not aligned'')
         (uvmunmap_loop (unat npages) pt va (va + npages * PGSIZE) do_free)"

subsection \<open>The kernel's page table\<close>

primrec proc_mapstacks_loop :: "nat list \<Rightarrow> u64 \<Rightarrow> unit km" where
  "proc_mapstacks_loop [] pt = ret ()"
| "proc_mapstacks_loop (i # is) pt =
     bnd kalloc (\<lambda>pa.
     seq (guard_panic (pa = 0) ''kalloc'') (
     seq (kvmmap pt (KSTACK (of_nat i)) pa PGSIZE (PTE_R OR PTE_W))
         (proc_mapstacks_loop is pt)))"

definition proc_mapstacks :: "u64 \<Rightarrow> unit km" where
  "proc_mapstacks pt = proc_mapstacks_loop [0..<NPROC] pt"

definition kvmmake :: "u64 km" where
  "kvmmake =
     bnd kalloc (\<lambda>pt.
     seq (kmemset pt 0 4096) (
     seq (kvmmap pt UART0 UART0 PGSIZE (PTE_R OR PTE_W)) (
     seq (kvmmap pt VIRTIO0 VIRTIO0 PGSIZE (PTE_R OR PTE_W)) (
     seq (kvmmap pt PLIC PLIC 0x4000000 (PTE_R OR PTE_W)) (
     bnd (gets etext) (\<lambda>et.
     seq (kvmmap pt KERNBASE KERNBASE (et - KERNBASE) (PTE_R OR PTE_X)) (
     seq (kvmmap pt et et (PHYSTOP - et) (PTE_R OR PTE_W)) (
     bnd (gets trampoline) (\<lambda>tr.
     seq (kvmmap pt TRAMPOLINE tr PGSIZE (PTE_R OR PTE_X)) (
     seq (proc_mapstacks pt)
         (ret pt)))))))))))"

definition kvminit :: "unit km" where
  "kvminit = bnd kvmmake (\<lambda>pt. modify (\<lambda>s. s\<lparr>kernel_pagetable := pt\<rparr>))"

subsection \<open>User address spaces\<close>

definition uvmcreate :: "u64 km" where
  "uvmcreate =
     bnd kalloc (\<lambda>pt.
     if pt = 0 then ret 0 else seq (kmemset pt 0 4096) (ret pt))"

definition uvmfirst :: "u64 \<Rightarrow> u8 list \<Rightarrow> unit km" where
  "uvmfirst pt src =
     seq (guard_panic (length src \<ge> 4096) ''uvmfirst: more than a page'') (
     bnd kalloc (\<lambda>p.
     seq (kmemset p 0 4096) (
     bnd (mappages pt 0 PGSIZE p (PTE_W OR PTE_R OR PTE_X OR PTE_U)) (\<lambda>_.
     modify (\<lambda>s. s\<lparr>mem := write_bytes (mem s) p src\<rparr>)))))"

text \<open>The page count is an \<^verbatim>\<open>int\<close>, converted back to 64 bits for the call.\<close>

definition uvmdealloc :: "u64 \<Rightarrow> u64 \<Rightarrow> u64 \<Rightarrow> u64 km" where
  "uvmdealloc pt oldsz newsz =
     (if newsz \<ge> oldsz then ret oldsz
      else seq (whenM (PGROUNDUP newsz < PGROUNDUP oldsz)
                 (let npages = ucast ((PGROUNDUP oldsz - PGROUNDUP newsz) div PGSIZE) :: u32 in
                  uvmunmap pt (PGROUNDUP newsz) (scast npages) True))
               (ret newsz))"

primrec uvmalloc_loop :: "nat \<Rightarrow> u64 \<Rightarrow> u64 \<Rightarrow> u64 \<Rightarrow> u64 \<Rightarrow> u64 \<Rightarrow> u64 km" where
  "uvmalloc_loop 0 pt a oldsz newsz xperm = (if a < newsz then stuck else ret newsz)"
| "uvmalloc_loop (Suc n) pt a oldsz newsz xperm =
     (if \<not> a < newsz then ret newsz
      else bnd kalloc (\<lambda>p.
        if p = 0 then seq (bnd (uvmdealloc pt a oldsz) (\<lambda>_. ret ())) (ret 0)
        else bnd (mappages pt a PGSIZE p (PTE_R OR PTE_U OR xperm)) (\<lambda>r.
          if r \<noteq> 0 then
            seq (kfree p) (
            seq (bnd (uvmdealloc pt a oldsz) (\<lambda>_. ret ())) (ret 0))
          else uvmalloc_loop n pt (a + PGSIZE) oldsz newsz xperm)))"

definition uvmalloc :: "u64 \<Rightarrow> u64 \<Rightarrow> u64 \<Rightarrow> u64 \<Rightarrow> u64 km" where
  "uvmalloc pt oldsz newsz xperm =
     (if newsz < oldsz then ret oldsz
      else (let base = PGROUNDUP oldsz in
            uvmalloc_loop (unat (newsz - base) div 4096 + 1) pt base base newsz xperm))"

text \<open>
  The recursion of \<open>freewalk\<close> is as deep as the table's levels: three, the depth it is called with.
\<close>

primrec freewalk :: "nat \<Rightarrow> u64 \<Rightarrow> unit km" where
  "freewalk 0 pt = stuck"
| "freewalk (Suc d) pt =
     seq (foreach [0..<512] (\<lambda>i.
       bnd (ld64 (pt + 8 * of_nat i)) (\<lambda>pte.
       if pte AND PTE_V \<noteq> 0 \<and> pte AND (PTE_R OR PTE_W OR PTE_X) = 0 then
         seq (freewalk d (PTE2PA pte)) (st64 (pt + 8 * of_nat i) 0)
       else guard_panic (pte AND PTE_V \<noteq> 0) ''freewalk: leaf'')))
     (kfree pt)"

definition uvmfree :: "u64 \<Rightarrow> u64 \<Rightarrow> unit km" where
  "uvmfree pt sz =
     seq (whenM (sz > 0) (uvmunmap pt 0 (PGROUNDUP sz div PGSIZE) True))
         (freewalk 3 pt)"

primrec uvmcopy_loop :: "nat \<Rightarrow> u64 \<Rightarrow> u64 \<Rightarrow> u64 \<Rightarrow> u64 \<Rightarrow> int km" where
  "uvmcopy_loop 0 old new i sz = (if i < sz then stuck else ret 0)"
| "uvmcopy_loop (Suc n) old new i sz =
     (if \<not> i < sz then ret 0
      else bnd (walk old i False) (\<lambda>pte.
        seq (guard_panic (pte = 0) ''uvmcopy: pte should exist'') (
        bnd (ld64 pte) (\<lambda>e.
        seq (guard_panic (e AND PTE_V = 0) ''uvmcopy: page not present'') (
        bnd kalloc (\<lambda>p.
        if p = 0 then seq (uvmunmap new 0 (i div PGSIZE) True) (ret (-1))
        else
          seq (kmemmove p (PTE2PA e) 4096) (
          bnd (mappages new i PGSIZE p (PTE_FLAGS e)) (\<lambda>r.
          if r \<noteq> 0 then
            seq (kfree p) (
            seq (uvmunmap new 0 (i div PGSIZE) True) (ret (-1)))
          else uvmcopy_loop n old new (i + PGSIZE) sz))))))))"

definition uvmcopy :: "u64 \<Rightarrow> u64 \<Rightarrow> u64 \<Rightarrow> int km" where
  "uvmcopy old new sz = uvmcopy_loop (unat sz div 4096 + 1) old new 0 sz"

definition uvmclear :: "u64 \<Rightarrow> u64 \<Rightarrow> unit km" where
  "uvmclear pt va =
     bnd (walk pt va False) (\<lambda>pte.
     seq (guard_panic (pte = 0) ''uvmclear'') (
     bnd (ld64 pte) (\<lambda>e.
     st64 pte (e AND NOT PTE_U))))"

subsection \<open>Copying to and from user space\<close>

text \<open>The part of a transfer that lies on the first page.\<close>

definition page_part :: "u64 \<Rightarrow> u64 \<Rightarrow> u64" where
  "page_part va len = (let n = PGSIZE - (va - PGROUNDDOWN va) in if n > len then len else n)"

lemma page_part_bounds:
  assumes "len \<noteq> 0"
  shows "0 < page_part va len" and "page_part va len \<le> len"
proof -
  have g: "unat (va - PGROUNDDOWN va) < 4096"
    using PGROUNDDOWN_gap [of va] by (simp add: word_less_nat_alt)
  then have "unat (PGSIZE - (va - PGROUNDDOWN va)) = 4096 - unat (va - PGROUNDDOWN va)"
    by (subst unat_sub) (simp_all add: word_le_nat_alt)
  then have "0 < unat (PGSIZE - (va - PGROUNDDOWN va))" using g by linarith
  then have "0 < PGSIZE - (va - PGROUNDDOWN va)" unfolding word_less_nat_alt unat_0 .
  moreover have "0 < len" using assms word_gt_0 [of len] by blast
  ultimately show "0 < page_part va len" unfolding page_part_def Let_def by presburger
  show "page_part va len \<le> len" by (simp add: page_part_def Let_def not_less)
qed

lemma page_part_decreases: "len \<noteq> 0 \<Longrightarrow> unat (len - page_part va len) < unat len"
  using page_part_bounds [of len va] by (simp add: unat_sub word_less_nat_alt word_le_nat_alt)

function copyin_loop :: "u64 \<Rightarrow> u64 \<Rightarrow> u64 \<Rightarrow> u8 list \<Rightarrow> (int \<times> u8 list) km" where
  "copyin_loop pt srcva len got =
     (if len = 0 then ret (0, got)
      else bnd (walkaddr pt (PGROUNDDOWN srcva)) (\<lambda>pa0.
        if pa0 = 0 then ret (-1, got)
        else let n = page_part srcva len in
          bnd (gets (\<lambda>s. read_bytes (mem s) (pa0 + (srcva - PGROUNDDOWN srcva)) (unat n))) (\<lambda>bs.
          copyin_loop pt (PGROUNDDOWN srcva + PGSIZE) (len - n) (got @ bs))))"
  by pat_completeness auto
termination
  by (relation "measure (\<lambda>(pt, va, len, got). unat len)") (auto simp: page_part_decreases)

declare copyin_loop.simps [simp del]

text \<open>The answer of \<open>copyin\<close> carries the bytes it stored at \<^verbatim>\<open>dst\<close>.\<close>

definition copyin :: "u64 \<Rightarrow> u64 \<Rightarrow> u64 \<Rightarrow> (int \<times> u8 list) km" where
  "copyin pt srcva len = copyin_loop pt srcva len []"

function copyout :: "u64 \<Rightarrow> u64 \<Rightarrow> u8 list \<Rightarrow> u64 \<Rightarrow> int km" where
  "copyout pt dstva src len =
     (if len = 0 then ret 0
      else if PGROUNDDOWN dstva \<ge> MAXVA then ret (-1)
      else bnd (walk pt (PGROUNDDOWN dstva) False) (\<lambda>pte.
        if pte = 0 then ret (-1)
        else bnd (ld64 pte) (\<lambda>e.
          if e AND PTE_W = 0 then ret (-1)
          else bnd (walkaddr pt (PGROUNDDOWN dstva)) (\<lambda>pa0.
            if pa0 = 0 then ret (-1)
            else let n = page_part dstva len in
              seq (modify (\<lambda>s. s\<lparr>mem := write_bytes (mem s) (pa0 + (dstva - PGROUNDDOWN dstva)) (take (unat n) src)\<rparr>))
                  (copyout pt (PGROUNDDOWN dstva + PGSIZE) (drop (unat n) src) (len - n))))))"
  by pat_completeness auto
termination
  by (relation "measure (\<lambda>(pt, va, src, len). unat len)") (auto simp: page_part_decreases)

declare copyout.simps [simp del]

text \<open>
  The inner loop of \<open>copyinstr\<close>: the bytes up to the terminator, which it appends, or up to \<open>n\<close>.
\<close>

primrec copy_str_page :: "memory \<Rightarrow> u64 \<Rightarrow> nat \<Rightarrow> u8 list \<times> bool" where
  "copy_str_page m p 0 = ([], False)"
| "copy_str_page m p (Suc n) =
     (if load8 m p = 0 then ([0], True)
      else (let (bs, z) = copy_str_page m (p + 1) n in (load8 m p # bs, z)))"

function copyinstr_loop :: "u64 \<Rightarrow> u64 \<Rightarrow> u64 \<Rightarrow> u8 list \<Rightarrow> (int \<times> u8 list) km" where
  "copyinstr_loop pt srcva mx got =
     (if mx = 0 then ret (-1, got)
      else bnd (walkaddr pt (PGROUNDDOWN srcva)) (\<lambda>pa0.
        if pa0 = 0 then ret (-1, got)
        else let n = page_part srcva mx in
          bnd (gets (\<lambda>s. copy_str_page (mem s) (pa0 + (srcva - PGROUNDDOWN srcva)) (unat n))) (\<lambda>r.
          if snd r then ret (0, got @ fst r)
          else copyinstr_loop pt (PGROUNDDOWN srcva + PGSIZE) (mx - n) (got @ fst r))))"
  by pat_completeness auto
termination
  by (relation "measure (\<lambda>(pt, va, mx, got). unat mx)") (auto simp: page_part_decreases)

declare copyinstr_loop.simps [simp del]

definition copyinstr :: "u64 \<Rightarrow> u64 \<Rightarrow> u64 \<Rightarrow> (int \<times> u8 list) km" where
  "copyinstr pt srcva mx = copyinstr_loop pt srcva mx []"


subsection \<open>Copying to or from either space (\<^verbatim>\<open>kernel/proc.c\<close>)\<close>

text \<open>
  A destination is a user address, a kernel address, or a variable of the calling routine, which
  takes the bytes from the call's answer; a source is a user address or the bytes themselves.
\<close>

datatype udst = UDst u64 | KDst u64 | KVar

datatype usrc = USrc u64 | KSrc "u8 list"

definition either_copyout :: "udst \<Rightarrow> u8 list \<Rightarrow> int km" where
  "either_copyout dst src =
     bnd myproc (\<lambda>p.
     case dst of
       UDst a \<Rightarrow> bnd (deref p) (\<lambda>i. bnd (proc_get i) (\<lambda>p. copyout (pagetable p) a src (of_nat (length src))))
     | KDst a \<Rightarrow> seq (modify (\<lambda>s. s\<lparr>mem := write_bytes (mem s) a src\<rparr>)) (ret 0)
     | KVar \<Rightarrow> ret 0)"

definition either_copyin :: "usrc \<Rightarrow> nat \<Rightarrow> (int \<times> u8 list) km" where
  "either_copyin src len =
     bnd myproc (\<lambda>p.
     case src of
       USrc a \<Rightarrow> bnd (deref p) (\<lambda>i. bnd (proc_get i) (\<lambda>p. copyin (pagetable p) a (of_nat len)))
     | KSrc bs \<Rightarrow> seq (defined_if (len \<le> length bs)) (ret (0, take len bs)))"

text \<open>The source \<^verbatim>\<open>src + n\<close> and the destination \<^verbatim>\<open>dst + n\<close>.\<close>

primrec src_skip :: "nat \<Rightarrow> usrc \<Rightarrow> usrc" where
  "src_skip n (USrc a) = USrc (a + of_nat n)"
| "src_skip n (KSrc bs) = KSrc (drop n bs)"

primrec dst_skip :: "nat \<Rightarrow> udst \<Rightarrow> udst" where
  "dst_skip n (UDst a) = UDst (a + of_nat n)"
| "dst_skip n (KDst a) = KDst (a + of_nat n)"
| "dst_skip n KVar = KVar"

subsection \<open>Lookups as functions of memory\<close>

definition pt_child :: "memory \<Rightarrow> u64 \<Rightarrow> nat \<Rightarrow> u64 \<Rightarrow> u64 option" where
  "pt_child m va level pt =
     (let e = load64 m (pt + 8 * PX level va) in if e AND PTE_V = 0 then None else Some (PTE2PA e))"

definition pt_slot :: "memory \<Rightarrow> u64 \<Rightarrow> u64 \<Rightarrow> u64 option" where
  "pt_slot m pt va = do { p1 \<leftarrow> pt_child m va 2 pt; p0 \<leftarrow> pt_child m va 1 p1; Some (p0 + 8 * PX 0 va) }"

definition user_page :: "memory \<Rightarrow> u64 \<Rightarrow> u64 \<Rightarrow> u64" where
  "user_page m pt va =
     (if va \<ge> MAXVA then 0
      else case pt_slot m pt va of None \<Rightarrow> 0 | Some a \<Rightarrow>
        (let e = load64 m a in if a = 0 \<or> e AND PTE_V = 0 \<or> e AND PTE_U = 0 then 0 else PTE2PA e))"

text \<open>The physical address of a user byte, and the byte.\<close>

definition user_addr :: "memory \<Rightarrow> u64 \<Rightarrow> u64 \<Rightarrow> u64 option" where
  "user_addr m pt va =
     (let p = user_page m pt (PGROUNDDOWN va) in if p = 0 then None else Some (p + (va - PGROUNDDOWN va)))"

definition user_byte :: "memory \<Rightarrow> u64 \<Rightarrow> u64 \<Rightarrow> u8 option" where
  "user_byte m pt va = map_option (load8 m) (user_addr m pt va)"

lemma walk_level_noalloc: "walk_level False va level pt s = Ok (pt_child (mem s) va level pt) s"
  by (simp add: walk_level_def pt_child_def ld64_def Let_def)

lemma walk_noalloc:
  "walk pt va False s = (if va \<ge> MAXVA then Panic ''walk''
     else Ok (case pt_slot (mem s) pt va of None \<Rightarrow> 0 | Some a \<Rightarrow> a) s)"
  by (auto simp: walk_def pt_slot_def bnd_def walk_level_noalloc split: option.split)

lemma walkaddr_run: "walkaddr pt va s = Ok (user_page (mem s) pt va) s"
  by (auto simp: walkaddr_def user_page_def bnd_def walk_noalloc ld64_def Let_def split: option.split)

lemma user_page_bnd [simp]: "bnd (walkaddr pt va) f s = f (user_page (mem s) pt va) s"
  by (simp add: walkaddr_run)

subsection \<open>Pages of a transfer\<close>

lemma gap_eq: "unat (va - PGROUNDDOWN va) = unat va mod 4096"
  by (simp add: unat_sub PGROUNDDOWN_le unat_PGROUNDDOWN minus_div_mult_eq_mod)

lemma unat_page_part:
  "unat (page_part va len) = min (unat len) (4096 - unat va mod 4096)"
proof -
  have "unat (va - PGROUNDDOWN va) < 4096" using gap_eq [of va] by simp
  then have "unat (PGSIZE - (va - PGROUNDDOWN va)) = 4096 - unat (va - PGROUNDDOWN va)"
    by (subst unat_sub) (simp_all add: word_le_nat_alt)
  then show ?thesis by (simp add: page_part_def Let_def gap_eq word_less_nat_alt min_def)
qed

lemma same_page:
  assumes "i < 4096 - unat va mod 4096"
  shows "unat (va + of_nat i) = unat va + i" and "PGROUNDDOWN (va + of_nat i) = PGROUNDDOWN va"
    and "va + of_nat i - PGROUNDDOWN va = (va - PGROUNDDOWN va) + of_nat i"
proof -
  have "unat va < 2 ^ LENGTH(64)" by (rule unsigned_less)
  then have "unat va < 2 ^ 52 * 4096" by simp
  then have "unat va div 4096 < 2 ^ 52" by (rule less_mult_imp_div_less)
  then have "unat va div 4096 * 4096 + 4096 \<le> 2 ^ 64" by simp
  then have "unat va + i < 2 ^ 64" using assms div_mult_mod_eq [of "unat va" 4096] by linarith
  then show u: "unat (va + of_nat i) = unat va + i" using assms
    by (subst unat_add_small) (simp_all add: unsigned_of_nat take_bit_nat_eq_self)
  have "(unat va + i) div 4096 = unat va div 4096"
  proof -
    have "unat va + i = (unat va mod 4096 + i) + 4096 * (unat va div 4096)"
      using div_mult_mod_eq [of "unat va" 4096] by linarith
    then have "(unat va + i) div 4096 = unat va div 4096 + (unat va mod 4096 + i) div 4096"
      by (simp only: div_mult_self2 numeral_neq_zero not_False_eq_True)
    then show ?thesis using assms by simp
  qed
  then show "PGROUNDDOWN (va + of_nat i) = PGROUNDDOWN va"
    by (simp add: word_unat_eq_iff unat_PGROUNDDOWN u)
  show "va + of_nat i - PGROUNDDOWN va = (va - PGROUNDDOWN va) + of_nat i" by simp
qed

lemma next_page:
  assumes "unat (page_part va len) < unat len"
  shows "PGROUNDDOWN va + PGSIZE = va + page_part va len"
proof -
  have n: "unat (page_part va len) = 4096 - unat va mod 4096"
    using assms by (simp add: unat_page_part)
  have "page_part va len = of_nat (4096 - unat va mod 4096)" by (simp flip: n)
  moreover have "of_nat (4096 - unat va mod 4096) = (4096 :: u64) - (va - PGROUNDDOWN va)"
  proof -
    have "unat (va - PGROUNDDOWN va) \<le> 4096" using gap_eq [of va] by simp
    then show ?thesis by (simp add: of_nat_diff flip: gap_eq)
  qed
  ultimately show ?thesis by simp
qed

lemma user_addr_same_page:
  assumes "i < 4096 - unat va mod 4096"
  shows "user_addr m pt (va + of_nat i) =
    (if user_page m pt (PGROUNDDOWN va) = 0 then None
     else Some (user_page m pt (PGROUNDDOWN va) + (va - PGROUNDDOWN va) + of_nat i))"
  using same_page [OF assms] by (simp add: user_addr_def Let_def)


lemma next_page_shift:
  assumes "len \<noteq> 0" and "i < unat (len - page_part va len)"
  shows "PGROUNDDOWN va + PGSIZE + of_nat i = va + of_nat (unat (page_part va len) + i)"
    and "unat (page_part va len) + i < unat len"
proof -
  have le: "page_part va len \<le> len" using assms(1) by (rule page_part_bounds)
  then have d: "unat (len - page_part va len) = unat len - unat (page_part va len)" by (rule unat_sub)
  then show "unat (page_part va len) + i < unat len" using assms(2) by linarith
  then show "PGROUNDDOWN va + PGSIZE + of_nat i = va + of_nat (unat (page_part va len) + i)"
    using next_page [of va len] by (simp add: algebra_simps)
qed

lemma upt_split: "k \<le> n \<Longrightarrow> map f [0..<n] = map f [0..<k] @ map (\<lambda>i. f (k + i)) [0..<n - k]"
proof -
  assume "k \<le> n"
  then have "[0..<n] = [0..<k] @ map ((+) k) [0..<n - k]"
    by (intro nth_equalityI) (auto simp: nth_append)
  then show ?thesis by simp
qed

lemma copyin_loop_ok:
  "(\<And>i. i < unat len \<Longrightarrow> user_addr (mem s) pt (va + of_nat i) \<noteq> None) \<Longrightarrow>
   copyin_loop pt va len got s =
     Ok (0, got @ map (\<lambda>i. load8 (mem s) (the (user_addr (mem s) pt (va + of_nat i)))) [0..<unat len]) s"
proof (induction pt va len got rule: copyin_loop.induct)
  case (1 pt va len got)
  show ?case
  proof (cases "len = 0")
    case True
    then show ?thesis by (simp add: copyin_loop.simps [of pt va 0])
  next
    case False
    define n where "n = page_part va len"
    define p where "p = user_page (mem s) pt (PGROUNDDOWN va)"
    have le: "unat n \<le> unat len" and N: "unat n \<le> 4096 - unat va mod 4096"
      by (simp_all add: n_def unat_page_part)
    have "0 < unat len" using False by (simp add: unat_gt_0)
    then have p0: "p \<noteq> 0"
      using "1.prems" [of 0] user_addr_same_page [of 0 va "mem s" pt] by (auto simp: p_def)
    have bs: "read_bytes (mem s) (p + (va - PGROUNDDOWN va)) (unat n) =
        map (\<lambda>i. load8 (mem s) (the (user_addr (mem s) pt (va + of_nat i)))) [0..<unat n]"
      unfolding read_bytes_def using N p0
      by (intro map_cong) (auto simp: user_addr_same_page p_def)
    have d: "unat (len - n) = unat len - unat n" using le by (simp add: unat_sub word_le_nat_alt)
    have shift: "PGROUNDDOWN va + PGSIZE + of_nat i = va + of_nat (unat n + i)" "unat n + i < unat len"
      if "i < unat (len - n)" for i
      using next_page_shift [OF False, of i va] that unfolding n_def by simp_all
    have rec: "copyin_loop pt va len got s = copyin_loop pt (PGROUNDDOWN va + PGSIZE) (len - n)
        (got @ read_bytes (mem s) (p + (va - PGROUNDDOWN va)) (unat n)) s"
      using False p0 by (simp add: copyin_loop.simps [of pt va len] n_def p_def Let_def)
    also have "\<dots> = Ok (0, (got @ read_bytes (mem s) (p + (va - PGROUNDDOWN va)) (unat n)) @
        map (\<lambda>i. load8 (mem s) (the (user_addr (mem s) pt (PGROUNDDOWN va + PGSIZE + of_nat i)))) [0..<unat (len - n)]) s"
      unfolding n_def
      by (rule "1.IH" [OF False])
        (use p0 "1.prems" shift in \<open>simp_all add: p_def n_def Let_def del: of_nat_add\<close>)
    also have "map (\<lambda>i. load8 (mem s) (the (user_addr (mem s) pt (PGROUNDDOWN va + PGSIZE + of_nat i)))) [0..<unat (len - n)] =
        map (\<lambda>i. load8 (mem s) (the (user_addr (mem s) pt (va + of_nat (unat n + i))))) [0..<unat len - unat n]"
      unfolding d [symmetric] by (intro map_cong refl) (simp only: shift set_upt atLeastLessThan_iff)
    finally show ?thesis
      unfolding bs using upt_split [OF le, of "\<lambda>i. load8 (mem s) (the (user_addr (mem s) pt (va + of_nat i)))"]
      by simp
  qed
qed

lemma copyin_loop_fail:
  "\<exists>i < unat len. user_addr (mem s) pt (va + of_nat i) = None \<Longrightarrow>
   \<exists>bs. copyin_loop pt va len got s = Ok (-1, got @ bs) s"
proof (induction pt va len got rule: copyin_loop.induct)
  case (1 pt va len got)
  then obtain i where i: "i < unat len" "user_addr (mem s) pt (va + of_nat i) = None" by blast
  then have ne: "len \<noteq> 0" by auto
  define n where "n = page_part va len"
  define p where "p = user_page (mem s) pt (PGROUNDDOWN va)"
  show ?case
  proof (cases "p = 0")
    case True
    then show ?thesis using ne by (simp add: copyin_loop.simps [of pt va len] p_def)
  next
    case False
    have "\<not> i < unat n"
    proof
      assume "i < unat n"
      then have "i < 4096 - unat va mod 4096" by (simp add: n_def unat_page_part)
      from user_addr_same_page [OF this, of "mem s" pt] show False
        using False i(2) by (simp add: p_def)
    qed
    then obtain j where j: "i = unat n + j" using le_Suc_ex by (auto simp: not_less)
    have "page_part va len \<le> len" using ne by (rule page_part_bounds)
    then have d: "unat (len - n) = unat len - unat n" unfolding n_def by (rule unat_sub)
    then have jl: "j < unat (len - n)" using i(1) j by linarith
    have "PGROUNDDOWN va + PGSIZE + of_nat j = va + of_nat i"
      using next_page_shift(1) [OF ne, of j va] jl j unfolding n_def by simp
    then have "\<exists>j < unat (len - n). user_addr (mem s) pt (PGROUNDDOWN va + PGSIZE + of_nat j) = None"
      using jl i(2) by auto
    then have "\<exists>bs. copyin_loop pt (PGROUNDDOWN va + PGSIZE) (len - n)
        (got @ read_bytes (mem s) (p + (va - PGROUNDDOWN va)) (unat n)) s =
        Ok (-1, (got @ read_bytes (mem s) (p + (va - PGROUNDDOWN va)) (unat n)) @ bs) s"
      unfolding n_def by (intro "1.IH" [OF ne]) (use False in \<open>simp_all add: p_def n_def Let_def\<close>)
    then show ?thesis
      using ne False by (auto simp: copyin_loop.simps [of pt va len] n_def p_def Let_def)
  qed
qed

text \<open>
  C32: \<open>copyin\<close> never panics and changes nothing.  It answers 0 exactly when every byte of the range
  lies on a page mapped for the user, and then it delivers those bytes, in order, over any number
  of page boundaries; otherwise it answers -1.
\<close>

theorem copyin_spec:
  "\<exists>r bs. copyin pt va len s = Ok (r, bs) s \<and> (r = 0 \<or> r = -1) \<and>
    (r = 0 \<longleftrightarrow> (\<forall>i < unat len. user_byte (mem s) pt (va + of_nat i) \<noteq> None)) \<and>
    (r = 0 \<longrightarrow> map Some bs = map (\<lambda>i. user_byte (mem s) pt (va + of_nat i)) [0..<unat len])"
proof (cases "\<forall>i < unat len. user_addr (mem s) pt (va + of_nat i) \<noteq> None")
  case True
  then show ?thesis
    using copyin_loop_ok [of len s pt va "[]"] by (auto simp: copyin_def user_byte_def)
next
  case False
  then have "\<exists>bs. copyin pt va len s = Ok (-1, bs) s"
    using copyin_loop_fail [of len s pt va "[]"] by (auto simp: copyin_def)
  then show ?thesis using False by (auto simp: user_byte_def)
qed


subsection \<open>Strings from user space\<close>

lemma read_bytes_Suc: "read_bytes m p (Suc n) = load8 m p # read_bytes m (p + 1) n"
proof -
  have "[0..<Suc n] = 0 # map Suc [0..<n]" by (simp add: upt_conv_Cons map_Suc_upt)
  then show ?thesis by (simp add: read_bytes_def comp_def algebra_simps)
qed

lemma copy_str_hit:
  "k < n \<Longrightarrow> (\<And>i. i < k \<Longrightarrow> load8 m (p + of_nat i) \<noteq> 0) \<Longrightarrow> load8 m (p + of_nat k) = 0 \<Longrightarrow>
   copy_str_page m p n = (read_bytes m p (Suc k), True)"
proof (induction n arbitrary: p k)
  case (Suc n)
  show ?case
  proof (cases k)
    case 0
    then show ?thesis using Suc.prems by (simp add: read_bytes_def)
  next
    case (Suc l)
    have "copy_str_page m (p + 1) n = (read_bytes m (p + 1) (Suc l), True)"
    proof (rule Suc.IH)
      show "l < n" using Suc.prems(1) Suc by simp
      show "load8 m (p + 1 + of_nat i) \<noteq> 0" if "i < l" for i
        using Suc.prems(2) [of "Suc i"] that Suc by (simp add: algebra_simps)
      show "load8 m (p + 1 + of_nat l) = 0" using Suc.prems(3) Suc by (simp add: algebra_simps)
    qed
    moreover have "load8 m p \<noteq> 0" using Suc.prems(2) [of 0] Suc by simp
    ultimately show ?thesis using Suc by (simp add: read_bytes_Suc [of m p "Suc l"])
  qed
qed simp

lemma copy_str_miss:
  "(\<And>i. i < n \<Longrightarrow> load8 m (p + of_nat i) \<noteq> 0) \<Longrightarrow> copy_str_page m p n = (read_bytes m p n, False)"
proof (induction n arbitrary: p)
  case (Suc n)
  have "copy_str_page m (p + 1) n = (read_bytes m (p + 1) n, False)"
  proof (rule Suc.IH)
    show "load8 m (p + 1 + of_nat i) \<noteq> 0" if "i < n" for i
      using Suc.prems [of "Suc i"] that by (simp add: algebra_simps)
  qed
  then show ?case using Suc.prems [of 0] by (simp add: read_bytes_Suc)
qed (simp add: read_bytes_def)

text \<open>The first page of a transfer, for every loop: where its bytes are.\<close>

lemma first_page_bytes:
  assumes "user_page m pt (PGROUNDDOWN va) \<noteq> 0" and "i < unat (page_part va len)"
  shows "user_byte m pt (va + of_nat i) =
    Some (load8 m (user_page m pt (PGROUNDDOWN va) + (va - PGROUNDDOWN va) + of_nat i))"
proof -
  have "i < 4096 - unat va mod 4096" using assms(2) by (simp add: unat_page_part)
  from user_addr_same_page [OF this, of m pt] show ?thesis using assms(1) by (simp add: user_byte_def)
qed

lemma first_page_read:
  assumes "user_page m pt (PGROUNDDOWN va) \<noteq> 0" and "k \<le> unat (page_part va len)"
  shows "read_bytes m (user_page m pt (PGROUNDDOWN va) + (va - PGROUNDDOWN va)) k =
    map (\<lambda>i. the (user_byte m pt (va + of_nat i))) [0..<k]"
  unfolding read_bytes_def using assms first_page_bytes [of m pt va _ len] by (intro map_cong) auto

lemma first_page_mapped:
  assumes "len \<noteq> 0" and "user_byte m pt va \<noteq> None"
  shows "user_page m pt (PGROUNDDOWN va) \<noteq> 0"
  using assms(2) by (auto simp: user_byte_def user_addr_def Let_def split: if_splits)

lemma copyinstr_loop_ok:
  "k < unat mx \<Longrightarrow> (\<And>i. i < k \<Longrightarrow> \<exists>b. user_byte (mem s) pt (va + of_nat i) = Some b \<and> b \<noteq> 0) \<Longrightarrow>
   user_byte (mem s) pt (va + of_nat k) = Some 0 \<Longrightarrow>
   copyinstr_loop pt va mx got s =
     Ok (0, got @ map (\<lambda>i. the (user_byte (mem s) pt (va + of_nat i))) [0..<Suc k]) s"
proof (induction pt va mx got arbitrary: k rule: copyinstr_loop.induct)
  case (1 pt va mx got)
  define n where "n = page_part va mx"
  define p where "p = user_page (mem s) pt (PGROUNDDOWN va)"
  define g where "g = p + (va - PGROUNDDOWN va)"
  have ne: "mx \<noteq> 0" using "1.prems"(1) by auto
  have "user_byte (mem s) pt va \<noteq> None"
  proof (cases k)
    case 0
    then show ?thesis using "1.prems"(3) by simp
  next
    case (Suc l)
    then show ?thesis using "1.prems"(2) [of 0] by auto
  qed
  then have p0: "p \<noteq> 0" unfolding p_def by (rule first_page_mapped [OF ne])
  have byte: "user_byte (mem s) pt (va + of_nat i) = Some (load8 (mem s) (g + of_nat i))" if "i < unat n" for i
    using first_page_bytes [of "mem s" pt va i mx] p0 that unfolding p_def g_def n_def by blast
  have step: "copyinstr_loop pt va mx got s = (let r = copy_str_page (mem s) g (unat n) in
      if snd r then Ok (0, got @ fst r) s
      else copyinstr_loop pt (PGROUNDDOWN va + PGSIZE) (mx - n) (got @ fst r) s)"
    using ne p0 by (simp add: copyinstr_loop.simps [of pt va mx] n_def p_def g_def Let_def)
  show ?case
  proof (cases "k < unat n")
    case True
    have nz: "load8 (mem s) (g + of_nat i) \<noteq> 0" if "i < k" for i
      using "1.prems"(2) [OF that] byte [of i] True that by simp
    have z: "load8 (mem s) (g + of_nat k) = 0" using "1.prems"(3) byte [OF True] by simp
    have "copy_str_page (mem s) g (unat n) = (read_bytes (mem s) g (Suc k), True)"
      using True nz z by (rule copy_str_hit)
    moreover have "read_bytes (mem s) g (Suc k) = map (\<lambda>i. the (user_byte (mem s) pt (va + of_nat i))) [0..<Suc k]"
      using first_page_read [of "mem s" pt va "Suc k" mx] p0 True unfolding g_def p_def n_def by simp
    ultimately show ?thesis using step by simp
  next
    case False
    then obtain l where l: "k = unat n + l" using le_Suc_ex by (auto simp: not_less)
    have nz: "load8 (mem s) (g + of_nat i) \<noteq> 0" if "i < unat n" for i
      using "1.prems"(2) [of i] byte [OF that] that False by auto
    have miss: "copy_str_page (mem s) g (unat n) = (read_bytes (mem s) g (unat n), False)"
      using nz by (rule copy_str_miss)
    have rd: "read_bytes (mem s) g (unat n) = map (\<lambda>i. the (user_byte (mem s) pt (va + of_nat i))) [0..<unat n]"
      using first_page_read [of "mem s" pt va "unat n" mx] p0 unfolding g_def p_def n_def by simp
    have "page_part va mx \<le> mx" using ne by (rule page_part_bounds)
    then have d: "unat (mx - n) = unat mx - unat n" unfolding n_def by (rule unat_sub)
    have ll: "l < unat (mx - n)" using "1.prems"(1) l d by linarith
    have shift: "PGROUNDDOWN va + PGSIZE + of_nat i = va + of_nat (unat n + i)" if "i \<le> l" for i
      using next_page_shift(1) [OF ne, of i va] ll that unfolding n_def by simp
    have "copyinstr_loop pt (PGROUNDDOWN va + PGSIZE) (mx - n) (got @ read_bytes (mem s) g (unat n)) s =
      Ok (0, (got @ read_bytes (mem s) g (unat n)) @
        map (\<lambda>i. the (user_byte (mem s) pt (PGROUNDDOWN va + PGSIZE + of_nat i))) [0..<Suc l]) s"
    proof -
      have "copyinstr_loop pt (PGROUNDDOWN va + PGSIZE) (mx - page_part va mx) (got @ fst (copy_str_page (mem s) g (unat n))) s =
      Ok (0, (got @ fst (copy_str_page (mem s) g (unat n))) @
        map (\<lambda>i. the (user_byte (mem s) pt (PGROUNDDOWN va + PGSIZE + of_nat i))) [0..<Suc l]) s"
      proof (rule "1.IH" [OF ne, of p])
        show "p \<noteq> 0" by (rule p0)
        show "page_part va mx = page_part va mx" by simp
        show "\<not> snd (copy_str_page (mem s) g (unat n))" by (simp add: miss)
        show "l < unat (mx - page_part va mx)" using ll by (simp add: n_def)
        show "\<exists>b. user_byte (mem s) pt (PGROUNDDOWN va + PGSIZE + of_nat i) = Some b \<and> b \<noteq> 0" if "i < l" for i
          using "1.prems"(2) [of "unat n + i"] that l unfolding shift [OF less_imp_le [OF that]] by simp
        show "user_byte (mem s) pt (PGROUNDDOWN va + PGSIZE + of_nat l) = Some 0"
          using "1.prems"(3) l unfolding shift [OF order_refl] by simp
      qed
      then show ?thesis unfolding n_def [symmetric] miss fst_conv .
    qed
    also have "map (\<lambda>i. the (user_byte (mem s) pt (PGROUNDDOWN va + PGSIZE + of_nat i))) [0..<Suc l] =
      map (\<lambda>i. the (user_byte (mem s) pt (va + of_nat (unat n + i)))) [0..<Suc k - unat n]"
      using l by (intro map_cong) (auto simp: shift simp del: of_nat_add)
    finally show ?thesis
      using step upt_split [of "unat n" "Suc k" "\<lambda>i. the (user_byte (mem s) pt (va + of_nat i))"] l
      by (simp add: miss rd)
  qed
qed


lemma copyinstr_loop_fail:
  "(\<And>k. k < unat mx \<Longrightarrow> user_byte (mem s) pt (va + of_nat k) = Some 0 \<Longrightarrow>
      \<exists>i < k. user_byte (mem s) pt (va + of_nat i) = None) \<Longrightarrow>
   \<exists>bs. copyinstr_loop pt va mx got s = Ok (-1, bs) s"
proof (induction pt va mx got rule: copyinstr_loop.induct)
  case (1 pt va mx got)
  define n where "n = page_part va mx"
  define p where "p = user_page (mem s) pt (PGROUNDDOWN va)"
  define g where "g = p + (va - PGROUNDDOWN va)"
  show ?case
  proof (cases "mx = 0 \<or> p = 0")
    case True
    then show ?thesis
      by (cases "mx = 0") (simp_all add: copyinstr_loop.simps [of pt va] p_def)
  next
    case False
    then have ne: "mx \<noteq> 0" and p0: "p \<noteq> 0" by auto
    have byte: "user_byte (mem s) pt (va + of_nat i) = Some (load8 (mem s) (g + of_nat i))" if "i < unat n" for i
      using first_page_bytes [of "mem s" pt va i mx] p0 that unfolding p_def g_def n_def by blast
    have le: "n \<le> mx" unfolding n_def using ne by (rule page_part_bounds)
    then have nl: "unat n \<le> unat mx" by (simp add: word_le_nat_alt)
    have nz: "load8 (mem s) (g + of_nat i) \<noteq> 0" if i: "i < unat n" for i
    proof
      assume "load8 (mem s) (g + of_nat i) = 0"
      then have "user_byte (mem s) pt (va + of_nat i) = Some 0" using byte [OF i] by simp
      then obtain j where j: "j < i" "user_byte (mem s) pt (va + of_nat j) = None"
        using "1.prems" [of i] i nl by (meson order_less_le_trans)
      then show False using byte [of j] i by simp
    qed
    have miss: "copy_str_page (mem s) g (unat n) = (read_bytes (mem s) g (unat n), False)"
      using nz by (rule copy_str_miss)
    have d: "unat (mx - n) = unat mx - unat n" using le by (rule unat_sub)
    have shift: "PGROUNDDOWN va + PGSIZE + of_nat i = va + of_nat (unat n + i)" if "i < unat (mx - n)" for i
      using next_page_shift(1) [OF ne, of i va] that unfolding n_def by simp
    have "\<exists>bs. copyinstr_loop pt (PGROUNDDOWN va + PGSIZE) (mx - page_part va mx)
        (got @ fst (copy_str_page (mem s) g (unat n))) s = Ok (-1, bs) s"
    proof (rule "1.IH" [OF ne, of p])
      show "p \<noteq> 0" by (rule p0)
      show "page_part va mx = page_part va mx" by simp
      show "\<not> snd (copy_str_page (mem s) g (unat n))" by (simp add: miss)
      fix k assume k: "k < unat (mx - page_part va mx)"
        and z: "user_byte (mem s) pt (PGROUNDDOWN va + PGSIZE + of_nat k) = Some 0"
      have kk: "k < unat (mx - n)" using k by (simp add: n_def)
      have "user_byte (mem s) pt (va + of_nat (unat n + k)) = Some 0"
        using z unfolding shift [OF kk] .
      moreover have "unat n + k < unat mx" using kk d by linarith
      ultimately obtain i where i: "i < unat n + k" "user_byte (mem s) pt (va + of_nat i) = None"
        using "1.prems" by blast
      have "\<not> i < unat n" using byte [of i] i(2) by auto
      then obtain j where j: "i = unat n + j" using le_Suc_ex by (auto simp: not_less)
      then have "user_byte (mem s) pt (PGROUNDDOWN va + PGSIZE + of_nat j) = None"
        using i kk by (subst shift) auto
      then show "\<exists>i < k. user_byte (mem s) pt (PGROUNDDOWN va + PGSIZE + of_nat i) = None"
        using i(1) j by auto
    qed
    then show ?thesis
      using ne p0 miss by (simp add: copyinstr_loop.simps [of pt va mx] n_def p_def g_def Let_def)
  qed
qed

text \<open>
  \<open>copyinstr\<close> never panics and changes nothing.  It answers 0 exactly when a NUL byte occurs
  among the first \<open>max\<close> bytes with every byte up to it mapped, and then it stores the string with
  its terminator; otherwise it answers -1.
\<close>

theorem copyinstr_spec:
  "\<exists>r bs. copyinstr pt va mx s = Ok (r, bs) s \<and> (r = 0 \<or> r = -1) \<and>
    (r = 0 \<longleftrightarrow> (\<exists>k < unat mx. user_byte (mem s) pt (va + of_nat k) = Some 0 \<and>
        (\<forall>i < k. user_byte (mem s) pt (va + of_nat i) \<noteq> None))) \<and>
    (r = 0 \<longrightarrow> (\<exists>str. bs = str @ [0] \<and> 0 \<notin> set str \<and> length str < unat mx \<and>
        map Some bs = map (\<lambda>i. user_byte (mem s) pt (va + of_nat i)) [0..<Suc (length str)]))"
proof -
  let ?b = "\<lambda>i. user_byte (mem s) pt (va + of_nat i)"
  let ?hit = "\<lambda>k. k < unat mx \<and> ?b k = Some 0 \<and> (\<forall>i < k. ?b i \<noteq> None)"
  show ?thesis
  proof (cases "\<exists>k. ?hit k")
    case True
    define k where "k = (LEAST k. ?hit k)"
    have k: "?hit k" unfolding k_def using True by (rule LeastI_ex)
    have nz: "\<exists>b. ?b i = Some b \<and> b \<noteq> 0" if i: "i < k" for i
    proof -
      obtain b where b: "?b i = Some b" using k i by auto
      have "\<not> ?hit i" using i unfolding k_def by (rule not_less_Least)
      then show ?thesis using b k i by auto
    qed
    let ?bs = "map (\<lambda>i. the (?b i)) [0..<Suc k]"
    have "copyinstr pt va mx s = Ok (0, ?bs) s"
      unfolding copyinstr_def using copyinstr_loop_ok [of k mx s pt va "[]"] k nz by simp
    moreover have "?bs = map (\<lambda>i. the (?b i)) [0..<k] @ [0]" using k by simp
    moreover have "0 \<notin> set (map (\<lambda>i. the (?b i)) [0..<k])" using nz by force
    moreover have "map Some ?bs = map ?b [0..<Suc k]"
    proof -
      have "Some (the (?b i)) = ?b i" if "i < Suc k" for i
        using nz [of i] k that by (cases "i = k") auto
      then show ?thesis unfolding map_map comp_def by (intro map_cong) auto
    qed
    ultimately show ?thesis
      using k by (intro exI [of _ 0] exI [of _ ?bs]) (auto intro!: exI [of _ "map (\<lambda>i. the (?b i)) [0..<k]"])
  next
    case False
    then have "\<exists>bs. copyinstr pt va mx s = Ok (-1, bs) s"
      unfolding copyinstr_def by (intro copyinstr_loop_fail) meson
    then obtain bs where "copyinstr pt va mx s = Ok (-1, bs) s" ..
    then show ?thesis using False by (intro exI [of _ "-1"] exI [of _ bs]) auto
  qed
qed


subsection \<open>Writing to user space\<close>

lemma unat_u64_bound: "unat (a :: u64) < 2 ^ 64"
  using unsigned_less [of a] by simp

lemma load8_write_bytes:
  "length bs \<le> 2 ^ 64 \<Longrightarrow>
   load8 (write_bytes m a bs) b = (if unat (b - a) < length bs then bs ! unat (b - a) else load8 m b)"
proof (induction bs arbitrary: m a)
  case (Cons c bs)
  have ih: "load8 (write_bytes m a (c # bs)) b =
      (if unat (b - (a + 1)) < length bs then bs ! unat (b - (a + 1)) else load8 (store8 m a c) b)"
    using Cons by simp
  show ?case
  proof (cases "b = a")
    case True
    have "unat (b - (a + 1)) = 2 ^ 64 - 1"
      using True by (simp add: unsigned_minus_1_eq_mask mask_eq_exp_minus_1)
    then show ?thesis using ih True Cons.prems by (simp add: load8_store8)
  next
    case False
    then have pos: "b - a \<noteq> 0" "0 < unat (b - a)" by (simp_all add: unat_gt_0)
    have "b - (a + 1) = (b - a) - 1" by simp
    then have "unat (b - (a + 1)) = unat (b - a) - 1" by (simp only: unat_minus_one [OF pos(1)])
    then show ?thesis using ih False pos by (auto simp: load8_store8 nth_Cons')
  qed
qed simp

lemma write_bytes_cell:
  "(\<And>i. i < length bs \<Longrightarrow> cell (a + of_nat i) \<noteq> c) \<Longrightarrow> write_bytes m a bs c = m c"
proof (induction bs arbitrary: m a)
  case (Cons b bs)
  have "write_bytes (store8 m a b) (a + 1) bs c = store8 m a b c"
  proof (rule Cons.IH)
    show "cell (a + 1 + of_nat i) \<noteq> c" if "i < length bs" for i
      using Cons.prems [of "Suc i"] that by (simp add: algebra_simps)
  qed
  then show ?case using Cons.prems [of 0] by (simp add: store8_def)
qed simp

text \<open>The page-table entries that a lookup reads.\<close>

definition walk_cells :: "memory \<Rightarrow> u64 \<Rightarrow> u64 \<Rightarrow> u64 set" where
  "walk_cells m pt va = insert (pt + 8 * PX 2 va)
     (case pt_child m va 2 pt of None \<Rightarrow> {} | Some p1 \<Rightarrow> insert (p1 + 8 * PX 1 va)
       (case pt_child m va 1 p1 of None \<Rightarrow> {} | Some p0 \<Rightarrow> {p0 + 8 * PX 0 va}))"

definition user_waddr :: "memory \<Rightarrow> u64 \<Rightarrow> u64 \<Rightarrow> u64 option" where
  "user_waddr m pt va = (case pt_slot m pt (PGROUNDDOWN va) of None \<Rightarrow> None
     | Some a \<Rightarrow> if load64 m a AND PTE_W = 0 then None else user_addr m pt va)"

lemma walk_frame:
  assumes "\<And>x. x \<in> walk_cells m pt va \<Longrightarrow> load64 m' x = load64 m x"
  shows "pt_slot m' pt va = pt_slot m pt va" and "user_page m' pt va = user_page m pt va"
    and "walk_cells m' pt va = walk_cells m pt va"
    and "pt_slot m pt va = Some a \<Longrightarrow> load64 m' a = load64 m a"
proof -
  have 2: "pt_child m' va 2 pt = pt_child m va 2 pt"
    using assms [of "pt + 8 * PX 2 va"] by (simp add: pt_child_def walk_cells_def)
  have 1: "pt_child m' va 1 p1 = pt_child m va 1 p1" if "pt_child m va 2 pt = Some p1" for p1
    using assms [of "p1 + 8 * PX 1 va"] that by (simp add: pt_child_def [of _ va "Suc 0" p1] walk_cells_def)
  show sl: "pt_slot m' pt va = pt_slot m pt va"
    using 1 by (cases "pt_child m va 2 pt") (simp_all add: pt_slot_def 2)
  show ld: "load64 m' a = load64 m a" if "pt_slot m pt va = Some a" for a
    using assms [of a] that
    by (auto simp: pt_slot_def walk_cells_def bind_eq_Some_conv)
  show "user_page m' pt va = user_page m pt va"
    using ld by (cases "pt_slot m pt va") (simp_all add: user_page_def sl)
  show "walk_cells m' pt va = walk_cells m pt va"
    using 1 by (cases "pt_child m va 2 pt") (simp_all add: walk_cells_def 2)
qed

lemma user_waddr_frame:
  assumes "\<And>x. x \<in> walk_cells m pt (PGROUNDDOWN va) \<Longrightarrow> load64 m' x = load64 m x"
  shows "user_waddr m' pt va = user_waddr m pt va"
proof (cases "pt_slot m pt (PGROUNDDOWN va)")
  case None
  then show ?thesis using walk_frame(1) [OF assms] by (simp add: user_waddr_def)
next
  case (Some a)
  then show ?thesis
    using walk_frame(1,2) [OF assms] walk_frame(4) [OF assms Some]
    by (simp add: user_waddr_def user_addr_def)
qed

lemma user_waddrD:
  assumes "user_waddr m pt va = Some a"
  obtains e where "pt_slot m pt (PGROUNDDOWN va) = Some e" "e \<noteq> 0" "load64 m e AND PTE_W \<noteq> 0"
    "\<not> PGROUNDDOWN va \<ge> MAXVA" "user_page m pt (PGROUNDDOWN va) \<noteq> 0" "user_addr m pt va = Some a"
  using assms
  by (auto simp: user_waddr_def user_addr_def user_page_def Let_def split: option.splits if_splits)

lemma copyout_total:
  "\<exists>r m. copyout pt va src len s = Ok r (s\<lparr>mem := m\<rparr>) \<and> (r = 0 \<or> r = -1)"
proof (induction pt va src len arbitrary: s rule: copyout.induct)
  case (1 pt va src len)
  have self: "s = s\<lparr>mem := mem s\<rparr>" by simp
  define n where "n = page_part va len"
  define p where "p = user_page (mem s) pt (PGROUNDDOWN va)"
  let ?w = "\<lambda>m. write_bytes m (p + (va - PGROUNDDOWN va)) (take (unat n) src)"
  show ?case
  proof (cases "len = 0 \<or> PGROUNDDOWN va \<ge> MAXVA")
    case True
    then show ?thesis using self by (auto simp: copyout.simps [of pt va] intro: exI [of _ "mem s"])
  next
    case False
    then have ne: "len \<noteq> 0" and mx: "\<not> PGROUNDDOWN va \<ge> MAXVA" by auto
    have run: "copyout pt va src len s =
       (case pt_slot (mem s) pt (PGROUNDDOWN va) of None \<Rightarrow> Ok (-1) s | Some a \<Rightarrow>
          if a = 0 \<or> load64 (mem s) a AND PTE_W = 0 \<or> p = 0 then Ok (-1) s
          else copyout pt (PGROUNDDOWN va + PGSIZE) (drop (unat n) src) (len - n) (s\<lparr>mem := ?w (mem s)\<rparr>))"
      using ne mx
      by (auto simp: copyout.simps [of pt va src len] walk_noalloc ld64_def bnd_def walkaddr_run p_def n_def
          Let_def split: option.split)
    show ?thesis
    proof (cases "\<exists>a. pt_slot (mem s) pt (PGROUNDDOWN va) = Some a \<and> a \<noteq> 0 \<and> load64 (mem s) a AND PTE_W \<noteq> 0 \<and> p \<noteq> 0")
      case True
      then obtain a where a: "pt_slot (mem s) pt (PGROUNDDOWN va) = Some a" "a \<noteq> 0"
        "load64 (mem s) a AND PTE_W \<noteq> 0" "p \<noteq> 0" by blast
      have "\<exists>r m. copyout pt (PGROUNDDOWN va + PGSIZE) (drop (unat (page_part va len)) src) (len - page_part va len)
          (s\<lparr>mem := ?w (mem s)\<rparr>) = Ok r (s\<lparr>mem := ?w (mem s), mem := m\<rparr>) \<and> (r = 0 \<or> r = -1)"
        by (rule "1.IH" [OF ne mx a(2) a(3) a(4) refl])
      then show ?thesis using run a by (auto simp: n_def)
    next
      case False
      then have "copyout pt va src len s = Ok (-1) s"
        using run by (auto split: option.split)
      then show ?thesis by (simp add: exI [of _ "mem s"])
    qed
  qed
qed


lemma write_first_page:
  fixes n :: u64
  assumes P: "\<And>i. i < unat n \<Longrightarrow> P i = g + of_nat i" and n: "unat n \<le> length src" "unat n \<le> 2 ^ 64"
  shows "(\<forall>i < unat n. load8 (write_bytes m g (take (unat n) src)) (P i) = src ! i)"
    and "(\<forall>b. (\<forall>i < unat n. b \<noteq> P i) \<longrightarrow> load8 (write_bytes m g (take (unat n) src)) b = load8 m b)"
    and "(\<forall>x. (\<forall>i < unat n. cell x \<noteq> cell (P i)) \<longrightarrow> load64 (write_bytes m g (take (unat n) src)) x = load64 m x)"
proof -
  have len: "length (take (unat n) src) = unat n" using n by simp
  have l8: "load8 (write_bytes m g (take (unat n) src)) b =
      (if unat (b - g) < unat n then src ! unat (b - g) else load8 m b)" for b
    using load8_write_bytes [of "take (unat n) src" m g b] n by (simp add: len)
  show "\<forall>i < unat n. load8 (write_bytes m g (take (unat n) src)) (P i) = src ! i"
  proof (intro allI impI)
    fix i assume i: "i < unat n"
    have "unat n < 2 ^ 64" by (rule unat_u64_bound)
    then have "unat (P i - g) = i" using P [OF i] i by (simp add: unsigned_of_nat take_bit_nat_eq_self)
    then show "load8 (write_bytes m g (take (unat n) src)) (P i) = src ! i" using l8 i by simp
  qed
  show "\<forall>b. (\<forall>i < unat n. b \<noteq> P i) \<longrightarrow> load8 (write_bytes m g (take (unat n) src)) b = load8 m b"
  proof (intro allI impI)
    fix b assume b: "\<forall>i < unat n. b \<noteq> P i"
    have "b = g + of_nat (unat (b - g))" by simp
    then have "\<not> unat (b - g) < unat n" using b P by metis
    then show "load8 (write_bytes m g (take (unat n) src)) b = load8 m b" using l8 by simp
  qed
  show "\<forall>x. (\<forall>i < unat n. cell x \<noteq> cell (P i)) \<longrightarrow>
      load64 (write_bytes m g (take (unat n) src)) x = load64 m x"
    unfolding load64_def using P by (auto intro!: write_bytes_cell simp: len)
qed

lemma copyout_no_page:
  assumes "user_waddr (mem s) pt a = None" and "len \<noteq> 0"
  shows "copyout pt a src len s = Ok (-1) s"
  using assms
  by (auto simp: copyout.simps [of pt a] walk_noalloc ld64_def user_waddr_def user_addr_def Let_def
      split: option.splits if_splits)

text \<open>
  A copy whose first \<open>k\<close> bytes are mapped writable and whose next one, if there is one, is not.
\<close>

lemma same_page_waddr:
  assumes "user_waddr m pt va = Some a" and "i < 4096 - unat va mod 4096"
  shows "user_waddr m pt (va + of_nat i) = Some (a + of_nat i)"
proof -
  obtain e where e: "pt_slot m pt (PGROUNDDOWN va) = Some e" "load64 m e AND PTE_W \<noteq> 0" "user_page m pt (PGROUNDDOWN va) \<noteq> 0"
    "user_addr m pt va = Some a"
    using assms(1) by (rule user_waddrD)
  have "a = user_page m pt (PGROUNDDOWN va) + (va - PGROUNDDOWN va)" using e(3,4) by (simp add: user_addr_def Let_def)
  then show ?thesis
    using e user_addr_same_page [OF assms(2), of m pt] same_page [OF assms(2)] by (simp add: user_waddr_def)
qed

lemma copyout_upto:
  "length src = unat len \<Longrightarrow> k \<le> unat len \<Longrightarrow>
   (\<And>i. i < k \<Longrightarrow> user_waddr (mem s) pt (va + of_nat i) = Some (P i)) \<Longrightarrow>
   (k < unat len \<Longrightarrow> user_waddr (mem s) pt (va + of_nat k) = None) \<Longrightarrow>
   inj_on P {..<k} \<Longrightarrow>
   (\<And>i j x. i < unat len \<Longrightarrow> i \<le> k \<Longrightarrow> j < k \<Longrightarrow> x \<in> walk_cells (mem s) pt (PGROUNDDOWN (va + of_nat i)) \<Longrightarrow>
      cell x \<noteq> cell (P j)) \<Longrightarrow>
   \<exists>m. copyout pt va src len s = Ok (if k = unat len then 0 else -1) (s\<lparr>mem := m\<rparr>) \<and>
     (\<forall>i < k. load8 m (P i) = src ! i) \<and>
     (\<forall>b. (\<forall>i < k. b \<noteq> P i) \<longrightarrow> load8 m b = load8 (mem s) b) \<and>
     (\<forall>x. (\<forall>i < k. cell x \<noteq> cell (P i)) \<longrightarrow> load64 m x = load64 (mem s) x)"
proof (induction pt va src len arbitrary: s P k rule: copyout.induct)
  case (1 pt va src len)
  note prems = "1.prems"
  define n where "n = page_part va len"
  define p where "p = user_page (mem s) pt (PGROUNDDOWN va)"
  define g where "g = p + (va - PGROUNDDOWN va)"
  define m1 where "m1 = write_bytes (mem s) g (take (unat n) src)"
  consider "len = 0" | "len \<noteq> 0" "k = 0" | "len \<noteq> 0" "0 < k" by auto
  then show ?case
  proof cases
    case 1
    then show ?thesis using prems(2) by (auto simp: copyout.simps [of pt va src 0] intro!: exI [of _ "mem s"])
  next
    case 2
    then have "copyout pt va src len s = Ok (-1) s"
      using prems(4) by (intro copyout_no_page) (simp_all add: unat_gt_0)
    then show ?thesis using 2 by (intro exI [of _ "mem s"]) (simp add: unat_eq_zero)
  next
    case 3
    note False = 3(1)
    have le: "n \<le> len" unfolding n_def using False by (rule page_part_bounds)
    then have nl: "unat n \<le> unat len" by (simp add: word_le_nat_alt)
    have d: "unat (len - n) = unat len - unat n" using le by (rule unat_sub)
    have first: "user_waddr (mem s) pt va = Some (P 0)" using prems(3) [of 0] 3 by simp
    then obtain e where e: "pt_slot (mem s) pt (PGROUNDDOWN va) = Some e" "e \<noteq> 0" "load64 (mem s) e AND PTE_W \<noteq> 0"
      and mx: "\<not> PGROUNDDOWN va \<ge> MAXVA" and p0: "p \<noteq> 0"
      unfolding p_def by (rule user_waddrD)
    have page: "user_waddr (mem s) pt (va + of_nat i) = Some (g + of_nat i)" if "i < unat n" for i
    proof -
      have i: "i < 4096 - unat va mod 4096" using that by (simp add: n_def unat_page_part)
      have "user_addr (mem s) pt va = Some (P 0)" using first by (rule user_waddrD)
      then have "P 0 = g" using p0 by (simp add: user_addr_def Let_def p_def g_def)
      then show ?thesis using same_page_waddr [OF first i] by simp
    qed
    have nk: "unat n \<le> k"
    proof (rule ccontr)
      assume "\<not> unat n \<le> k"
      then show False using page [of k] prems(4) nl by simp
    qed
    have run: "copyout pt va src len s =
        copyout pt (PGROUNDDOWN va + PGSIZE) (drop (unat n) src) (len - n) (s\<lparr>mem := m1\<rparr>)"
      using False mx e p0
      by (simp add: copyout.simps [of pt va src len] walk_noalloc ld64_def p_def n_def g_def m1_def Let_def)
    have P: "P i = g + of_nat i" if "i < unat n" for i using page [OF that] prems(3) [of i] that nk by simp
    have len: "unat n \<le> length src" "unat n \<le> 2 ^ 64"
      using nl prems(1) less_imp_le [OF unat_u64_bound [of n]] by simp_all
    note w = write_first_page [OF P len, of "mem s", folded m1_def]
    have frame: "load64 m1 x = load64 (mem s) x"
      if "x \<in> walk_cells (mem s) pt (PGROUNDDOWN (va + of_nat i))" "i < unat len" "i \<le> k" for x i
      using w(3) prems(6) [OF that(2,3) _ that(1)] nk by auto
    have shift: "PGROUNDDOWN va + PGSIZE + of_nat i = va + of_nat (unat n + i)" if "i < unat (len - n)" for i
      using next_page_shift [OF False, of i va] that unfolding n_def by simp_all
    have in_range: "unat n + i < unat len" "i \<le> k - unat n \<Longrightarrow> unat n + i \<le> k" if "i < unat (len - n)" for i
      using that d nl nk by simp_all
    let ?Q = "\<lambda>i. P (unat n + i)"
    have waddr: "user_waddr m1 pt (PGROUNDDOWN va + PGSIZE + of_nat i) = user_waddr (mem s) pt (va + of_nat (unat n + i))"
      if "i < unat (len - n)" "i \<le> k - unat n" for i
      unfolding shift [OF that(1)] by (rule user_waddr_frame) (rule frame [OF _ in_range(1) [OF that(1)] in_range(2) [OF that]])
    have k: "k - unat n \<le> unat (len - n)" "(k - unat n = unat (len - n)) = (k = unat len)"
      "i < k - unat n \<Longrightarrow> i < unat (len - n)" for i
      using prems(2) nk nl d by auto
    have "\<exists>m. copyout pt (PGROUNDDOWN va + PGSIZE) (drop (unat (page_part va len)) src) (len - page_part va len) (s\<lparr>mem := m1\<rparr>) =
        Ok (if k - unat n = unat (len - page_part va len) then 0 else -1) (s\<lparr>mem := m1, mem := m\<rparr>) \<and>
     (\<forall>i < k - unat n. load8 m (?Q i) = drop (unat (page_part va len)) src ! i) \<and>
     (\<forall>b. (\<forall>i < k - unat n. b \<noteq> ?Q i) \<longrightarrow> load8 m b = load8 (mem (s\<lparr>mem := m1\<rparr>)) b) \<and>
     (\<forall>x. (\<forall>i < k - unat n. cell x \<noteq> cell (?Q i)) \<longrightarrow> load64 m x = load64 (mem (s\<lparr>mem := m1\<rparr>)) x)"
    proof (rule "1.IH" [OF False mx e(2) e(3) p0 refl], unfold n_def [symmetric])
      show "length (drop (unat n) src) = unat (len - n)" using prems(1) d by simp
      show "k - unat n \<le> unat (len - n)" by (rule k(1))
    next
      fix i assume i: "i < k - unat n"
      then show "user_waddr (mem (s\<lparr>mem := m1\<rparr>)) pt (PGROUNDDOWN va + PGSIZE + of_nat i) = Some (?Q i)"
        using waddr [OF k(3) [OF i]] prems(3) [of "unat n + i"] by simp
    next
      assume "k - unat n < unat (len - n)"
      then show "user_waddr (mem (s\<lparr>mem := m1\<rparr>)) pt (PGROUNDDOWN va + PGSIZE + of_nat (k - unat n)) = None"
        using waddr [of "k - unat n"] prems(4) d nk by simp
    next
      show "inj_on ?Q {..<k - unat n}"
      proof (rule inj_onI)
        fix x y assume "x \<in> {..<k - unat n}" "y \<in> {..<k - unat n}" "?Q x = ?Q y"
        then have "unat n + x = unat n + y" by (intro inj_onD [OF prems(5)]) auto
        then show "x = y" by simp
      qed
    next
      fix i j x assume i: "i < unat (len - n)" "i \<le> k - unat n" and j: "j < k - unat n"
        and x: "x \<in> walk_cells (mem (s\<lparr>mem := m1\<rparr>)) pt (PGROUNDDOWN (PGROUNDDOWN va + PGSIZE + of_nat i))"
      have "walk_cells m1 pt (PGROUNDDOWN (va + of_nat (unat n + i))) =
          walk_cells (mem s) pt (PGROUNDDOWN (va + of_nat (unat n + i)))"
        by (rule walk_frame(3)) (rule frame [OF _ in_range(1) [OF i(1)] in_range(2) [OF i]])
      then have "x \<in> walk_cells (mem s) pt (PGROUNDDOWN (va + of_nat (unat n + i)))"
        using x unfolding shift [OF i(1)] by simp
      moreover have "unat n + j < k" using j by simp
      ultimately show "cell x \<noteq> cell (?Q j)" using prems(6) [OF in_range(1) [OF i(1)] in_range(2) [OF i]] by blast
    qed
    then obtain m where m: "copyout pt va src len s = Ok (if k = unat len then 0 else -1) (s\<lparr>mem := m\<rparr>)"
      "\<forall>i < k - unat n. load8 m (?Q i) = drop (unat n) src ! i"
      "\<forall>b. (\<forall>i < k - unat n. b \<noteq> ?Q i) \<longrightarrow> load8 m b = load8 m1 b"
      "\<forall>x. (\<forall>i < k - unat n. cell x \<noteq> cell (?Q i)) \<longrightarrow> load64 m x = load64 m1 x"
      unfolding n_def [symmetric] run k(2) by auto
    have "load8 m (P i) = src ! i" if i: "i < k" for i
    proof (cases "i < unat n")
      case True
      have "P i \<noteq> ?Q j" if "j < k - unat n" for j
      proof
        assume "P i = P (unat n + j)"
        then have "i = unat n + j" using prems(5) i that by (auto dest: inj_onD)
        then show False using True by simp
      qed
      then show ?thesis using m(3) w(1) True by auto
    next
      case False
      define j where "j = i - unat n"
      have j: "i = unat n + j" "j < k - unat n" using False i by (auto simp: j_def)
      then show ?thesis using m(2) len(1) by simp
    qed
    moreover have "load8 m b = load8 (mem s) b" if "\<forall>i < k. b \<noteq> P i" for b
      using m(3) w(2) that nk by auto
    moreover have "load64 m x = load64 (mem s) x" if "\<forall>i < k. cell x \<noteq> cell (P i)" for x
      using m(4) w(3) that nk by auto
    ultimately show ?thesis using m(1) by blast
  qed
qed

lemma copyout_ok:
  assumes "length src = unat len"
    and "\<And>i. i < unat len \<Longrightarrow> user_waddr (mem s) pt (va + of_nat i) = Some (P i)"
    and "inj_on P {..<unat len}"
    and "\<And>i j x. i < unat len \<Longrightarrow> j < unat len \<Longrightarrow> x \<in> walk_cells (mem s) pt (PGROUNDDOWN (va + of_nat i)) \<Longrightarrow>
      cell x \<noteq> cell (P j)"
  shows "\<exists>m. copyout pt va src len s = Ok 0 (s\<lparr>mem := m\<rparr>) \<and>
     (\<forall>i < unat len. load8 m (P i) = src ! i) \<and>
     (\<forall>b. (\<forall>i < unat len. b \<noteq> P i) \<longrightarrow> load8 m b = load8 (mem s) b) \<and>
     (\<forall>x. (\<forall>i < unat len. cell x \<noteq> cell (P i)) \<longrightarrow> load64 m x = load64 (mem s) x)"
  using copyout_upto [OF assms(1) le_refl assms(2) _ assms(3,4)] by simp

text \<open>
  C33: \<open>copyout\<close> stores exactly the bytes that may be stored.  Let \<open>k\<close> be the number of bytes at the start of the
  range that are mapped writable for the user below \<open>MAXVA\<close>: all of them, or those before the first that is not.  They
  lie at distinct physical addresses outside the page-table entries that the lookups read.  Then \<open>copyout\<close> answers
  0 when \<open>k\<close> is the whole length and -1 otherwise; in both cases these \<open>k\<close> bytes become those of the source, and every
  other byte of memory and the rest of the kernel stay as they were.  After a copy of the whole range, \<open>copyin\<close>
  reads the source back.
\<close>

theorem copyout_spec:
  assumes "length src = unat len" and "k \<le> unat len"
    and "\<And>i. i < k \<Longrightarrow> user_waddr (mem s) pt (va + of_nat i) = Some (P i)"
    and "k < unat len \<Longrightarrow> user_waddr (mem s) pt (va + of_nat k) = None"
    and "inj_on P {..<k}"
    and "\<And>i j x. i < unat len \<Longrightarrow> i \<le> k \<Longrightarrow> j < k \<Longrightarrow> x \<in> walk_cells (mem s) pt (PGROUNDDOWN (va + of_nat i)) \<Longrightarrow>
      cell x \<noteq> cell (P j)"
  shows "\<exists>m. copyout pt va src len s = Ok (if k = unat len then 0 else -1) (s\<lparr>mem := m\<rparr>) \<and>
     (\<forall>i < k. load8 m (P i) = src ! i) \<and>
     (\<forall>b. (\<forall>i < k. b \<noteq> P i) \<longrightarrow> load8 m b = load8 (mem s) b) \<and>
     (k = unat len \<longrightarrow> copyin pt va len (s\<lparr>mem := m\<rparr>) = Ok (0, src) (s\<lparr>mem := m\<rparr>))"
proof -
  have "\<exists>m. copyout pt va src len s = Ok (if k = unat len then 0 else -1) (s\<lparr>mem := m\<rparr>) \<and>
     (\<forall>i < k. load8 m (P i) = src ! i) \<and>
     (\<forall>b. (\<forall>i < k. b \<noteq> P i) \<longrightarrow> load8 m b = load8 (mem s) b) \<and>
     (\<forall>x. (\<forall>i < k. cell x \<noteq> cell (P i)) \<longrightarrow> load64 m x = load64 (mem s) x)"
    by (rule copyout_upto) (fact assms)+
  then obtain m where m: "copyout pt va src len s = Ok (if k = unat len then 0 else -1) (s\<lparr>mem := m\<rparr>)"
    "\<forall>i < k. load8 m (P i) = src ! i"
    "\<forall>b. (\<forall>i < k. b \<noteq> P i) \<longrightarrow> load8 m b = load8 (mem s) b"
    "\<forall>x. (\<forall>i < k. cell x \<noteq> cell (P i)) \<longrightarrow> load64 m x = load64 (mem s) x"
    by blast
  have "copyin pt va len (s\<lparr>mem := m\<rparr>) = Ok (0, src) (s\<lparr>mem := m\<rparr>)" if k: "k = unat len"
  proof -
    have addr: "user_addr m pt (va + of_nat i) = Some (P i)" if i: "i < k" for i
    proof -
      have "user_waddr m pt (va + of_nat i) = Some (P i)"
        using user_waddr_frame [of "mem s" pt "va + of_nat i" m] m(4) assms(3,6) i k by (metis less_imp_le)
      then show ?thesis by (rule user_waddrD)
    qed
    have "copyin pt va len (s\<lparr>mem := m\<rparr>) =
        Ok (0, map (\<lambda>i. load8 m (the (user_addr m pt (va + of_nat i)))) [0..<unat len]) (s\<lparr>mem := m\<rparr>)"
      unfolding copyin_def using copyin_loop_ok [of len "s\<lparr>mem := m\<rparr>" pt va "[]"] addr k by simp
    also have "map (\<lambda>i. load8 m (the (user_addr m pt (va + of_nat i)))) [0..<unat len] = src"
      using addr m(2) assms(1) k by (intro nth_equalityI) auto
    finally show ?thesis .
  qed
  then show ?thesis using m(1-3) by blast
qed


text \<open>A one-page address space for the witnesses: page 0 at physical address \<open>0x80103000\<close>.\<close>

definition demo_mem :: memory where
  "demo_mem = (\<lambda>_. 0)(0x80100000 := PA2PTE 0x80101000 OR PTE_V, 0x80101000 := PA2PTE 0x80102000 OR PTE_V,
     0x80102000 := PA2PTE 0x80103000 OR (PTE_V OR PTE_R OR PTE_W OR PTE_U))"

lemma demo_walk:
  assumes "page_aligned va" and "unat va = 0"
  shows "user_page demo_mem 0x80100000 va = 0x80103000" and "pt_slot demo_mem 0x80100000 va = Some 0x80102000"
    and "walk_cells demo_mem 0x80100000 va = {0x80100000, 0x80101000, 0x80102000}"
    and "load64 demo_mem 0x80102000 AND PTE_W \<noteq> 0"
proof -
  have va: "va = 0" using assms(2) by (simp add: unat_eq_zero)
  show sl: "pt_slot demo_mem 0x80100000 va = Some 0x80102000"
    by (simp add: va pt_slot_def pt_child_def demo_mem_def load64_def cell_def PX_def PA2PTE_def PTE2PA_def Let_def)
  show "user_page demo_mem 0x80100000 va = 0x80103000"
    unfolding user_page_def sl by (simp add: va demo_mem_def load64_def cell_def PA2PTE_def PTE2PA_def Let_def)
  show "walk_cells demo_mem 0x80100000 va = {0x80100000, 0x80101000, 0x80102000}"
    by (simp add: va walk_cells_def pt_child_def demo_mem_def load64_def cell_def PX_def PA2PTE_def PTE2PA_def Let_def)
  show "load64 demo_mem 0x80102000 AND PTE_W \<noteq> 0"
    by (simp add: demo_mem_def load64_def cell_def PA2PTE_def)
qed

text \<open>Two bytes before the end of the page: the third one of the copy is on a page that is not mapped.\<close>

lemma copyout_spec_witness:
  "\<exists>m. copyout 0x80100000 0xffe [65, 66, 67] 3 (bss_kernel demo_mem (\<lambda>_. [])) = Ok (-1) (bss_kernel demo_mem (\<lambda>_. [])\<lparr>mem := m\<rparr>) \<and>
    load8 m 0x80103fff = 66"
proof -
  let ?s = "bss_kernel demo_mem (\<lambda>_. [])"
  have pg: "PGROUNDDOWN (0xffe + of_nat i) = 0" if "i < 2" for i
    using that by (auto simp: less_2_cases_iff PGROUNDDOWN_def)
  have dw: "pt_slot demo_mem 0x80100000 0 = Some 0x80102000" "user_page demo_mem 0x80100000 0 = 0x80103000"
    "walk_cells demo_mem 0x80100000 0 = {0x80100000, 0x80101000, 0x80102000}"
    using demo_walk [of 0] by simp_all
  have pg2: "PGROUNDDOWN (0xffe + of_nat 2) = 0x1000" by (simp add: PGROUNDDOWN_def)
  have px: "PX 2 0x1000 = 0" "PX (Suc 0) 0x1000 = 0" "PX 0 0x1000 = 1" by (simp_all add: PX_def)
  have ld: "load64 demo_mem 0x80100000 = PA2PTE 0x80101000 OR PTE_V" "load64 demo_mem 0x80101000 = PA2PTE 0x80102000 OR PTE_V"
    "load64 demo_mem 0x80102008 = 0"
    by (simp_all add: demo_mem_def load64_def cell_def)
  have ch: "pt_child demo_mem 0x1000 2 0x80100000 = Some 0x80101000" "pt_child demo_mem 0x1000 (Suc 0) 0x80101000 = Some 0x80102000"
    by (simp_all add: pt_child_def px ld Let_def PTE2PA_def PA2PTE_def)
  have nxt: "pt_slot demo_mem 0x80100000 0x1000 = Some 0x80102008"
    "walk_cells demo_mem 0x80100000 0x1000 = {0x80100000, 0x80101000, 0x80102008}"
    by (simp_all add: pt_slot_def walk_cells_def ch px)
  have none: "user_waddr demo_mem 0x80100000 (0xffe + of_nat 2) = None"
    by (simp only: user_waddr_def pg2 nxt option.case ld) simp
  have i3: "i = 0 \<or> i = 1 \<or> i = 2" if "i < 3" for i :: nat using that by auto
  have "\<exists>m. copyout 0x80100000 0xffe [65, 66, 67] 3 ?s = Ok (if 2 = unat (3 :: u64) then 0 else -1) (?s\<lparr>mem := m\<rparr>) \<and>
     (\<forall>i < 2. load8 m (0x80103ffe + of_nat i) = [65, 66, 67] ! i) \<and>
     (\<forall>b. (\<forall>i < 2. b \<noteq> 0x80103ffe + of_nat i) \<longrightarrow> load8 m b = load8 (mem ?s) b) \<and>
     (2 = unat (3 :: u64) \<longrightarrow> copyin 0x80100000 0xffe 3 (?s\<lparr>mem := m\<rparr>) = Ok (0, [65, 66, 67]) (?s\<lparr>mem := m\<rparr>))"
  proof (rule copyout_spec)
    show "user_waddr (mem ?s) 0x80100000 (0xffe + of_nat i) = Some (0x80103ffe + of_nat i)" if "i < 2" for i
      using pg [OF that] demo_walk(4) [of 0] by (simp add: user_waddr_def user_addr_def dw)
    show "user_waddr (mem ?s) 0x80100000 (0xffe + of_nat 2) = None" using none by simp
    show "inj_on (\<lambda>i. 0x80103ffe + of_nat i :: u64) {..<2}" by (auto simp: inj_on_def less_2_cases_iff)
    show "cell x \<noteq> cell (0x80103ffe + of_nat j)"
      if "i < unat (3 :: u64)" "i \<le> 2" "j < 2" "x \<in> walk_cells (mem ?s) 0x80100000 (PGROUNDDOWN (0xffe + of_nat i))" for i j x
      using i3 [of i] that pg [of 0] pg [of 1] pg2 by (auto simp: dw nxt(2) less_2_cases_iff cell_def)
  qed simp_all
  then obtain m where m: "copyout 0x80100000 0xffe [65, 66, 67] 3 ?s = Ok (-1) (?s\<lparr>mem := m\<rparr>)"
    "\<forall>i < 2. load8 m (0x80103ffe + of_nat i) = [65, 66, 67 :: u8] ! i" by auto
  have "load8 m (0x80103ffe + of_nat 1) = [65, 66, 67] ! 1" using m(2) by (rule allE [of _ 1]) simp
  then show ?thesis using m(1) by auto
qed


lemma demo_byte:
  assumes "i < 2"
  shows "user_byte demo_mem 0x80100000 (of_nat i) = Some 0"
proof -
  have i: "i = 0 \<or> i = 1" using assms by auto
  have pg: "PGROUNDDOWN (of_nat i) = 0" using i by (auto simp: PGROUNDDOWN_def)
  have w: "user_page demo_mem 0x80100000 0 = 0x80103000" by (simp add: demo_walk)
  have "user_addr demo_mem 0x80100000 (of_nat i) = Some (0x80103000 + of_nat i)"
    by (simp add: user_addr_def pg w)
  moreover have "load8 demo_mem (0x80103000 + of_nat i) = 0"
    using i by (auto simp: demo_mem_def load8_def cell_def)
  ultimately show ?thesis by (simp add: user_byte_def)
qed

lemma copyin_spec_witness:
  "copyin 0x80100000 0 2 (bss_kernel demo_mem (\<lambda>_. [])) = Ok (0, [0, 0]) (bss_kernel demo_mem (\<lambda>_. []))"
proof -
  have b: "user_byte demo_mem 0x80100000 (of_nat i) = Some 0" if "i < 2" for i
    using that by (rule demo_byte)
  have u: "unat (2 :: u64) = 2" by simp
  obtain r bs where c: "copyin 0x80100000 0 2 (bss_kernel demo_mem (\<lambda>_. [])) = Ok (r, bs) (bss_kernel demo_mem (\<lambda>_. []))"
    "r = 0 \<longleftrightarrow> (\<forall>i < 2. user_byte demo_mem 0x80100000 (of_nat i) \<noteq> None)"
    "r = 0 \<longrightarrow> map Some bs = map (\<lambda>i. user_byte demo_mem 0x80100000 (of_nat i)) [0..<2]"
    using copyin_spec [of "0x80100000" 0 2 "bss_kernel demo_mem (\<lambda>_. [])"] unfolding u by auto
  then have r: "r = 0" using b by simp
  then have "map Some bs = map Some [0, 0]" using c(3) b [of 0] b [of 1] by (simp add: upt_rec)
  then have "bs = [0, 0]" using inj_map_eq_map [of Some] by (metis inj_Some)
  then show ?thesis using c(1) r by simp
qed

lemma copyinstr_spec_witness:
  "copyinstr 0x80100000 0 2 (bss_kernel demo_mem (\<lambda>_. [])) = Ok (0, [0]) (bss_kernel demo_mem (\<lambda>_. []))"
proof -
  let ?s = "bss_kernel demo_mem (\<lambda>_. [])"
  have b: "user_byte demo_mem 0x80100000 (of_nat i) = Some 0" if "i < 2" for i
    using that by (rule demo_byte)
  have u: "unat (2 :: u64) = 2" by simp
  obtain r bs where c: "copyinstr 0x80100000 0 2 ?s = Ok (r, bs) ?s"
    "r = 0 \<longleftrightarrow> (\<exists>k < 2. user_byte demo_mem 0x80100000 (of_nat k) = Some 0 \<and>
        (\<forall>i < k. user_byte demo_mem 0x80100000 (of_nat i) \<noteq> None))"
    "r = 0 \<longrightarrow> (\<exists>str. bs = str @ [0] \<and> 0 \<notin> set str \<and> length str < 2 \<and>
        map Some bs = map (\<lambda>i. user_byte demo_mem 0x80100000 (of_nat i)) [0..<Suc (length str)])"
    using copyinstr_spec [of "0x80100000" 0 2 ?s] unfolding u by auto
  have r: "r = 0" using c(2) b by (metis less_nat_zero_code zero_less_numeral)
  then obtain str where str: "bs = str @ [0]" "0 \<notin> set str" "length str < 2"
    "map Some bs = map (\<lambda>i. user_byte demo_mem 0x80100000 (of_nat i)) [0..<Suc (length str)]"
    using c(3) by blast
  have "str = []"
  proof (rule ccontr)
    assume ne: "str \<noteq> []"
    then have "map Some bs ! 0 = Some (hd str)" by (simp add: str(1) hd_conv_nth nth_append)
    moreover have "map Some bs ! 0 = Some 0" unfolding str(4) using b [of 0] by (simp del: upt_Suc)
    ultimately show False using str(2) ne by (metis hd_in_set option.inject)
  qed
  then show ?thesis using c(1) r str(1) by simp
qed

end
