(* ===== verification/Ring.thy ===== *)
theory Ring
  imports Kstate
begin

section \<open>Ring buffers with free-running counters\<close>

text \<open>
  Pipes, the console and the UART driver keep bytes in an array of \<open>n\<close> slots with a read and a
  write counter that only ever grow and wrap at their word size; a slot is the counter modulo
  \<open>n\<close>.  The locale is the interface of such a buffer: \<open>n\<close> divides the range of the counters, so
  that the slots stay consistent when they wrap.  The queue a buffer stands for is \<open>ring\<close>.
\<close>

definition ring :: "nat \<Rightarrow> 'b list \<Rightarrow> 'a::len word \<Rightarrow> 'a word \<Rightarrow> 'b list" where
  "ring n d r w = map (\<lambda>i. d ! (unat (r + of_nat i) mod n)) [0..<unat (w - r)]"

lemma length_ring [simp]: "length (ring n d r w) = unat (w - r)"
  by (simp add: ring_def)

lemma ring_empty [simp]: "ring n d r r = []"
  by (simp add: ring_def)

locale ring_buffer =
  fixes n :: nat and slot :: "'a::len word \<Rightarrow> nat"
  assumes slot_eq: "slot w = unat w mod n" and size_pos: "0 < n" and size_dvd: "n dvd 2 ^ LENGTH('a)" and size_less: "n < 2 ^ LENGTH('a)"

context ring_buffer
begin

lemma slot_add: "unat (r + of_nat i :: 'a word) mod n = (unat r + i) mod n"
proof -
  have "unat (r + of_nat i) mod n = (unat r + i mod 2 ^ LENGTH('a)) mod 2 ^ LENGTH('a) mod n"
    by (simp add: unat_word_ariths unsigned_of_nat take_bit_eq_mod)
  also have "\<dots> = (unat r + i mod 2 ^ LENGTH('a)) mod n"
    using size_dvd by (rule mod_mod_cancel)
  also have "\<dots> = (unat r + i mod 2 ^ LENGTH('a) mod n) mod n" by (simp add: mod_add_right_eq)
  also have "i mod 2 ^ LENGTH('a) mod n = i mod n" using size_dvd by (rule mod_mod_cancel)
  also have "(unat r + i mod n) mod n = (unat r + i) mod n" by (simp add: mod_add_right_eq)
  finally show ?thesis .
qed

lemma counter_split: "w = r + of_nat (unat (w - r))" for r w :: "'a word"
  by simp

lemma slots_distinct:
  fixes r :: "'a word"
  assumes "i < k" and "k < n"
  shows "unat (r + of_nat i) mod n \<noteq> unat (r + of_nat k) mod n"
proof
  assume "unat (r + of_nat i) mod n = unat (r + of_nat k) mod n"
  then have "(unat r + i) mod n = (unat r + k) mod n" by (simp add: slot_add)
  then have "n dvd (unat r + k) - (unat r + i)" using assms by (intro mod_eq_dvd_iff_nat [THEN iffD1]) auto
  then have "n dvd k - i" by simp
  then show False using assms by (auto dest: dvd_imp_le)
qed

lemma unat_succ_diff:
  fixes r w :: "'a word"
  assumes "unat (w - r) < n"
  shows "unat (w + 1 - r) = Suc (unat (w - r))"
proof -
  have suc: "unat (a + 1) = Suc (unat a)" if "Suc (unat a) < 2 ^ LENGTH('a)" for a :: "'a word"
    using that by (simp add: unat_word_ariths)
  have e: "w + 1 - r = (w - r) + 1" by simp
  show ?thesis unfolding e using suc [of "w - r"] assms size_less by simp
qed

lemma ring_put:
  fixes r w :: "'a word"
  assumes "unat (w - r) < n" and "length d = n"
  shows "ring n (d[slot w := c]) r (w + 1) = ring n d r w @ [c]"
proof -
  let ?k = "unat (w - r)"
  have w: "r + of_nat ?k = w" by simp
  have "d[unat w mod n := c] ! (unat (r + of_nat i) mod n) = d ! (unat (r + of_nat i) mod n)" if "i < ?k" for i
    using slots_distinct [OF that assms(1), of r] w by simp
  moreover have "d[unat w mod n := c] ! (unat (r + of_nat ?k) mod n) = c"
    using assms size_pos w by simp
  ultimately show ?thesis
    unfolding ring_def unat_succ_diff [OF assms(1)] by (simp add: slot_eq)
qed

lemma ring_get:
  fixes r w :: "'a word"
  assumes "w \<noteq> r"
  shows "ring n d r w = d ! slot r # ring n d (r + 1) w"
proof -
  have ne: "w - r \<noteq> 0" using assms by simp
  have "w - (r + 1) = (w - r) - 1" by simp
  then have "unat (w - (r + 1)) = unat (w - r) - 1" by (simp only: unat_minus_one [OF ne])
  moreover have "0 < unat (w - r)" using ne by (simp add: unat_gt_0)
  ultimately have "[0..<unat (w - r)] = 0 # map Suc [0..<unat (w - (r + 1))]"
    by (simp add: upt_conv_Cons map_Suc_upt)
  then show ?thesis by (simp add: ring_def comp_def slot_eq algebra_simps)
qed

lemma ring_full: "unat (w - r) = n \<longleftrightarrow> w = r + of_nat n" for r w :: "'a word"
proof
  assume "unat (w - r) = n"
  then show "w = r + of_nat n" by (metis counter_split)
next
  assume "w = r + of_nat n"
  then show "unat (w - r) = n" using size_less by (simp add: unsigned_of_nat take_bit_nat_eq_self)
qed

lemma ring_drop:
  fixes r w :: "'a word"
  assumes "k \<le> unat (w - r)"
  shows "ring n d (r + of_nat k) w = drop k (ring n d r w)"
  using assms
proof (induction k)
  case (Suc k)
  have "w \<noteq> r + of_nat k"
  proof
    assume "w = r + of_nat k"
    then have "unat (w - r) \<le> k" by (simp add: unsigned_of_nat take_bit_eq_mod)
    then show False using Suc.prems by simp
  qed
  from ring_get [OF this, of d] have "ring n d (r + of_nat k + 1) w = tl (ring n d (r + of_nat k) w)" by simp
  then show ?case using Suc by (simp add: drop_Suc tl_drop algebra_simps)
qed simp

end

subsection \<open>The three buffers of the kernel\<close>

interpretation pipe_ring: ring_buffer 512 "\<lambda>w :: u32. unat (w mod 512)"
  by unfold_locales (auto simp: unat_mod)

interpretation cons_ring: ring_buffer 128 "\<lambda>w :: u32. unat (w mod 128)"
  by unfold_locales (auto simp: unat_mod)

interpretation uart_ring: ring_buffer 32 "\<lambda>w :: u64. unat (w mod 32)"
  by unfold_locales (auto simp: unat_mod)

end
