(* ===== verification/Pipe.thy ===== *)
theory Pipe
  imports Vm Ring
begin

section \<open>Sleep locks and pipes (\<^verbatim>\<open>kernel/sleeplock.c\<close>, \<^verbatim>\<open>kernel/pipe.c\<close>)\<close>

text \<open>
  Sleep locks live in buffers and inodes and are named by where they live.  A pipe is a ring of 512
  bytes under its spin lock; its readers and writers sleep on the two counters.
\<close>

subsection \<open>Sleep locks\<close>

primrec slk_get :: "slockid \<Rightarrow> sleeplock km" where
  "slk_get (SBuf i) = bnd (buf_get i) (\<lambda>b. ret (block_lock b))"
| "slk_get (SInode i) = bnd (inode_get i) (\<lambda>ip. ret (ilock ip))"

primrec slk_mod :: "slockid \<Rightarrow> (sleeplock \<Rightarrow> sleeplock) \<Rightarrow> unit km" where
  "slk_mod (SBuf i) f = buf_mod i (\<lambda>b. b\<lparr>block_lock := f (block_lock b)\<rparr>)"
| "slk_mod (SInode i) f = inode_mod i (\<lambda>ip. ip\<lparr>ilock := f (ilock ip)\<rparr>)"

definition my_pid :: "int km" where
  "my_pid = bnd mine (\<lambda>i. bnd (proc_get i) (\<lambda>p. ret (pid p)))"

definition initsleeplock :: "slockid \<Rightarrow> unit km" where
  "initsleeplock l =
     seq (initlock (LSleep l)) (
     slk_mod l (\<lambda>k. k\<lparr>slocked := False, slpid := 0\<rparr>))"

definition acquiresleep :: "slockid \<Rightarrow> unit km" where
  "acquiresleep l =
     seq (acquire (LSleep l)) (
     bnd (slk_get l) (\<lambda>k.
     if slocked k then sleep_wait (CSleep l) (LSleep l)
     else
       seq (slk_mod l (\<lambda>k. k\<lparr>slocked := True\<rparr>)) (
       bnd my_pid (\<lambda>n.
       seq (slk_mod l (\<lambda>k. k\<lparr>slpid := n\<rparr>))
           (release (LSleep l))))))"

definition releasesleep :: "slockid \<Rightarrow> unit km" where
  "releasesleep l =
     seq (acquire (LSleep l)) (
     seq (slk_mod l (\<lambda>k. k\<lparr>slocked := False\<rparr>)) (
     seq (slk_mod l (\<lambda>k. k\<lparr>slpid := 0\<rparr>)) (
     seq (wakeup (CSleep l))
         (release (LSleep l)))))"

definition holdingsleep :: "slockid \<Rightarrow> bool km" where
  "holdingsleep l =
     seq (acquire (LSleep l)) (
     bnd (slk_get l) (\<lambda>k.
     bnd (if slocked k then bnd my_pid (\<lambda>n. ret (slpid k = n)) else ret False) (\<lambda>r.
     seq (release (LSleep l)) (ret r))))"

subsection \<open>Pipes\<close>

abbreviation (input) "PIPESIZE \<equiv> 512 :: u32"

definition pipe_get :: "u64 \<Rightarrow> pipe km" where
  "pipe_get pi = gets (\<lambda>s. pipes s pi)"

definition pipe_mod :: "u64 \<Rightarrow> (pipe \<Rightarrow> pipe) \<Rightarrow> unit km" where
  "pipe_mod pi f = modify (\<lambda>s. s\<lparr>pipes := (pipes s)(pi := f (pipes s pi))\<rparr>)"

definition pipe_put :: "u8 \<Rightarrow> pipe \<Rightarrow> pipe" where
  "pipe_put ch p = p\<lparr>pi_data := (pi_data p)[unat (nwrite p mod PIPESIZE) := ch], nwrite := nwrite p + 1\<rparr>"

definition pipe_next :: "pipe \<Rightarrow> u8" where
  "pipe_next p = pi_data p ! unat (nread p mod PIPESIZE)"

definition pipeclose :: "u64 \<Rightarrow> bool \<Rightarrow> unit km" where
  "pipeclose pi w =
     seq (acquire (LPipe pi)) (
     seq (if w then
            seq (pipe_mod pi (\<lambda>p. p\<lparr>writeopen := False\<rparr>)) (wakeup (CPipeR pi))
          else
            seq (pipe_mod pi (\<lambda>p. p\<lparr>readopen := False\<rparr>)) (wakeup (CPipeW pi))) (
     bnd (pipe_get pi) (\<lambda>p.
     if \<not> readopen p \<and> \<not> writeopen p then seq (release (LPipe pi)) (kfree pi)
     else release (LPipe pi))))"

text \<open>
  The loop of \<open>pipewrite\<close>: \<open>k\<close> bytes are left to write.  \<open>None\<close> is the early return, with the lock
  released.  A writer that sleeps goes on with the same \<open>k\<close> and \<open>i\<close>.
\<close>

primrec pipewrite_loop :: "nat \<Rightarrow> u64 \<Rightarrow> nat \<Rightarrow> u64 \<Rightarrow> int \<Rightarrow> int option km" where
  "pipewrite_loop 0 pi me addr i = ret (Some i)"
| "pipewrite_loop (Suc k) pi me addr i =
     bnd (pipe_get pi) (\<lambda>p.
     bnd (if \<not> readopen p then ret True else bnd (killed me) (\<lambda>v. ret (v \<noteq> 0))) (\<lambda>stop.
     if stop then seq (release (LPipe pi)) (ret None)
     else if nwrite p = nread p + PIPESIZE then
       seq (wakeup (CPipeR pi)) (sleep_wait (CPipeW pi) (LPipe pi))
     else
       bnd (proc_get me) (\<lambda>pr.
       bnd (copyin (pagetable pr) (addr + of_int i) 1) (\<lambda>r.
       if fst r = -1 then ret (Some i)
       else seq (pipe_mod pi (pipe_put (hd (snd r))))
                (pipewrite_loop k pi me addr (i + 1))))))"

definition pipewrite :: "u64 \<Rightarrow> u64 \<Rightarrow> int \<Rightarrow> int km" where
  "pipewrite pi addr n =
     bnd mine (\<lambda>me.
     seq (acquire (LPipe pi)) (
     bnd (pipewrite_loop (nat n) pi me addr 0) (\<lambda>r.
     case r of None \<Rightarrow> ret (-1)
     | Some i \<Rightarrow>
         seq (wakeup (CPipeR pi)) (
         seq (release (LPipe pi)) (ret i)))))"

primrec piperead_loop :: "nat \<Rightarrow> u64 \<Rightarrow> nat \<Rightarrow> u64 \<Rightarrow> int \<Rightarrow> int km" where
  "piperead_loop 0 pi me addr i = ret i"
| "piperead_loop (Suc k) pi me addr i =
     bnd (pipe_get pi) (\<lambda>p.
     if nread p = nwrite p then ret i
     else
       seq (pipe_mod pi (\<lambda>p. p\<lparr>nread := nread p + 1\<rparr>)) (
       bnd (proc_get me) (\<lambda>pr.
       bnd (copyout (pagetable pr) (addr + of_int i) [pipe_next p] 1) (\<lambda>r.
       if r = -1 then ret i
       else piperead_loop k pi me addr (i + 1)))))"

definition piperead :: "u64 \<Rightarrow> u64 \<Rightarrow> int \<Rightarrow> int km" where
  "piperead pi addr n =
     bnd mine (\<lambda>me.
     seq (acquire (LPipe pi)) (
     bnd (pipe_get pi) (\<lambda>p.
     bnd (if nread p = nwrite p \<and> writeopen p then
            bnd (killed me) (\<lambda>v.
            if v \<noteq> 0 then seq (release (LPipe pi)) (ret True)
            else sleep_wait (CPipeR pi) (LPipe pi))
          else ret False) (\<lambda>stop.
     if stop then ret (-1)
     else
       bnd (piperead_loop (nat n) pi me addr 0) (\<lambda>i.
       seq (wakeup (CPipeW pi)) (
       seq (release (LPipe pi)) (ret i)))))))"


subsection \<open>The pipe as a queue of bytes\<close>

definition contents :: "pipe \<Rightarrow> u8 list" where
  "contents p = ring 512 (pi_data p) (nread p) (nwrite p)"

definition pipe_wf :: "pipe \<Rightarrow> bool" where
  "pipe_wf p \<longleftrightarrow> length (pi_data p) = 512 \<and> unat (nwrite p - nread p) \<le> 512"

text \<open>A process in the kernel, holding none of the process locks.\<close>

definition running :: "nat \<Rightarrow> kernel \<Rightarrow> bool" where
  "running me s \<longleftrightarrow> procs_ok s \<and> cproc (kcpu s) = Some me \<and> me < NPROC \<and> (\<forall>i. LProc i \<notin> set (held (kcpu s)))"

lemma contents_put:
  assumes "pipe_wf p" and "length (contents p) < 512"
  shows "contents (pipe_put ch p) = contents p @ [ch]" and "pipe_wf (pipe_put ch p)"
proof -
  have lt: "unat (nwrite p - nread p) < 512" using assms(2) by (simp add: contents_def)
  show "contents (pipe_put ch p) = contents p @ [ch]"
    using pipe_ring.ring_put [OF lt, of "pi_data p" ch] assms(1)
    by (simp add: contents_def pipe_put_def pipe_wf_def)
  show "pipe_wf (pipe_put ch p)"
    using pipe_ring.unat_succ_diff [OF lt] lt assms(1) by (simp add: pipe_wf_def pipe_put_def)
qed

lemma contents_get:
  assumes "pipe_wf p" and "nread p \<noteq> nwrite p"
  shows "contents p = pipe_next p # contents (p\<lparr>nread := nread p + 1\<rparr>)" and "pipe_wf (p\<lparr>nread := nread p + 1\<rparr>)"
proof -
  have ne: "nwrite p \<noteq> nread p" using assms(2) by simp
  show c: "contents p = pipe_next p # contents (p\<lparr>nread := nread p + 1\<rparr>)"
    using pipe_ring.ring_get [OF ne, of "pi_data p"] by (simp add: contents_def pipe_next_def)
  then have "length (contents p) = Suc (length (contents (p\<lparr>nread := nread p + 1\<rparr>)))" by simp
  then show "pipe_wf (p\<lparr>nread := nread p + 1\<rparr>)"
    using assms(1) by (simp add: pipe_wf_def contents_def)
qed

lemma pipe_full: "nwrite p = nread p + PIPESIZE \<longleftrightarrow> length (contents p) = 512"
  using pipe_ring.ring_full [of "nwrite p" "nread p"] by (simp add: contents_def)

lemma pipe_empty: "nread p = nwrite p \<longleftrightarrow> contents p = []"
  by (simp add: contents_def ring_def unat_eq_zero) auto

lemma running_simps:
  assumes "running me s"
  shows "cpu_ok (kcpu s)" "length (procs s) = NPROC" "cproc (kcpu s) = Some me" "me < NPROC"
    "LProc i \<notin> set (held (kcpu s))"
  using assms by (auto simp: running_def procs_ok_def)

lemma run_killed [simp]:
  "cpu_ok (kcpu s) \<Longrightarrow> i < length (procs s) \<Longrightarrow> LProc i \<notin> set (held (kcpu s)) \<Longrightarrow>
   killed i s = Ok (pkilled (procs s ! i)) (s\<lparr>kcpu := settle (kcpu s)\<rparr>)"
  by (simp add: killed_def)

lemma copyin_byte:
  assumes "user_byte (mem s) pt a = Some b"
  shows "copyin pt a 1 s = Ok (0, [b]) s"
proof -
  have "\<And>i. i < unat (1 :: u64) \<Longrightarrow> user_addr (mem s) pt (a + of_nat i) \<noteq> None"
    using assms by (auto simp: user_byte_def)
  from copyin_loop_ok [of 1 s pt a "[]", OF this] assms show ?thesis
    by (auto simp: copyin_def user_byte_def)
qed

text \<open>The bytes \<open>bs\<close> are written, \<open>k\<close> more are left.\<close>

lemma pipewrite_loop_ok:
  "running me s \<Longrightarrow> LPipe pi \<in> set (held (kcpu s)) \<Longrightarrow> readopen (pipes s pi) \<Longrightarrow> pkilled (procs s ! me) = 0 \<Longrightarrow>
   pipe_wf (pipes s pi) \<Longrightarrow> length (contents (pipes s pi)) + length bs \<le> 512 \<Longrightarrow>
   (\<And>j. j < length bs \<Longrightarrow> user_byte (mem s) (pagetable (procs s ! me)) (addr + of_int i + of_nat j) = Some (bs ! j)) \<Longrightarrow>
   \<exists>p. pipewrite_loop (length bs + k) pi me addr i s =
        pipewrite_loop k pi me addr (i + int (length bs)) (s\<lparr>pipes := (pipes s)(pi := p)\<rparr>) \<and>
      contents p = contents (pipes s pi) @ bs \<and> pipe_wf p \<and> nread p = nread (pipes s pi) \<and>
      readopen p \<and> writeopen p = writeopen (pipes s pi)"
proof (induction bs arbitrary: s i)
  case Nil
  have "s\<lparr>pipes := (pipes s)(pi := pipes s pi)\<rparr> = s" by simp
  then show ?case using Nil by (intro exI [of _ "pipes s pi"]) simp
next
  case (Cons b bs)
  note R = running_simps [OF Cons.prems(1)]
  have st: "settle (kcpu s) = kcpu s" using R(1) Cons.prems(2) by (intro settle_held) auto
  have byte: "copyin (pagetable (procs s ! me)) (addr + of_int i) 1 s = Ok (0, [b]) s"
    using Cons.prems(7) [of 0] by (intro copyin_byte) simp
  let ?p = "pipe_put b (pipes s pi)"
  let ?s = "s\<lparr>pipes := (pipes s)(pi := ?p)\<rparr>"
  have room: "length (contents (pipes s pi)) < 512" using Cons.prems(6) by simp
  note put = contents_put [OF Cons.prems(5) room]
  have "nwrite (pipes s pi) \<noteq> nread (pipes s pi) + PIPESIZE" using room by (simp add: pipe_full)
  then have step: "pipewrite_loop (length (b # bs) + k) pi me addr i s = pipewrite_loop (length bs + k) pi me addr (i + 1) ?s"
    using Cons.prems(3,4) R st byte by (simp add: pipe_get_def pipe_mod_def)
  have "\<exists>p. pipewrite_loop (length bs + k) pi me addr (i + 1) ?s =
        pipewrite_loop k pi me addr (i + 1 + int (length bs)) (?s\<lparr>pipes := (pipes ?s)(pi := p)\<rparr>) \<and>
      contents p = contents (pipes ?s pi) @ bs \<and> pipe_wf p \<and> nread p = nread (pipes ?s pi) \<and>
      readopen p \<and> writeopen p = writeopen (pipes ?s pi)"
  proof (rule Cons.IH)
    show "running me ?s" using Cons.prems(1) by (simp add: running_def procs_ok_def)
    show "readopen (pipes ?s pi)" using Cons.prems(3) by (simp add: pipe_put_def)
    fix j assume "j < length bs"
    then show "user_byte (mem ?s) (pagetable (procs ?s ! me)) (addr + of_int (i + 1) + of_nat j) = Some (bs ! j)"
      using Cons.prems(7) [of "Suc j"] by (simp add: algebra_simps)
  qed (use Cons.prems put in simp_all)
  then obtain p where p: "pipewrite_loop (length bs + k) pi me addr (i + 1) ?s =
        pipewrite_loop k pi me addr (i + 1 + int (length bs)) (?s\<lparr>pipes := (pipes ?s)(pi := p)\<rparr>)"
      "contents p = contents ?p @ bs" "pipe_wf p" "nread p = nread ?p" "readopen p" "writeopen p = writeopen ?p"
    by auto
  have eq: "?s\<lparr>pipes := (pipes ?s)(pi := p)\<rparr> = s\<lparr>pipes := (pipes s)(pi := p)\<rparr>" by simp
  have "contents p = contents (pipes s pi) @ b # bs" using p(2) put(1) by simp
  moreover have "i + 1 + int (length bs) = i + int (length (b # bs))" by simp
  ultimately show ?case
    unfolding step p(1) eq using p(3-)
    by (intro exI [of _ p]) (simp add: pipe_put_def fun_upd_def add.assoc)
qed


text \<open>
  C34: a pipe is a first-in first-out queue of at most 512 bytes, for the writer.  A write of mapped bytes by a
  process that is not killed, with the read end open, appends them behind what is queued, however often the 32-bit
  counters have wrapped: all of them if they fit, and it returns their number; otherwise as many as fit, and it goes to
  sleep on the write channel.  On a full pipe the queue is unchanged.  With the read end closed, or for a process that
  was killed, it writes nothing and returns -1.
\<close>

theorem pipewrite_spec:
  assumes "running me s" and "held (kcpu s) = []" and "cnoff (kcpu s) = 0" and "pipe_wf (pipes s pi)"
    and "\<And>j. j < length bs \<Longrightarrow> user_byte (mem s) (pagetable (procs s ! me)) (addr + of_nat j) = Some (bs ! j)"
  shows "(readopen (pipes s pi) \<longrightarrow> pkilled (procs s ! me) = 0 \<longrightarrow> length (contents (pipes s pi)) + length bs \<le> 512 \<longrightarrow>
      (\<exists>t. pipewrite pi addr (int (length bs)) s = Ok (int (length bs)) t \<and>
        contents (pipes t pi) = contents (pipes s pi) @ bs \<and> pipe_wf (pipes t pi) \<and> held (kcpu t) = [] \<and>
        mem t = mem s)) \<and>
    (readopen (pipes s pi) \<longrightarrow> pkilled (procs s ! me) = 0 \<longrightarrow> length (contents (pipes s pi)) + length bs > 512 \<longrightarrow>
      (\<exists>t. pipewrite pi addr (int (length bs)) s = Blocked t \<and>
        contents (pipes t pi) = contents (pipes s pi) @ take (512 - length (contents (pipes s pi))) bs \<and>
        pipe_wf (pipes t pi) \<and> (length (contents (pipes s pi)) = 512 \<longrightarrow> pipes t = pipes s) \<and> mem t = mem s \<and>
        pstate (procs t ! me) = SLEEPING \<and> pchan (procs t ! me) = Some (CPipeW pi) \<and> held (kcpu t) = [LProc me])) \<and>
    (\<not> readopen (pipes s pi) \<or> pkilled (procs s ! me) \<noteq> 0 \<longrightarrow> bs \<noteq> [] \<longrightarrow>
      (\<exists>t. pipewrite pi addr (int (length bs)) s = Ok (-1) t \<and> pipes t = pipes s \<and> procs t = procs s \<and> mem t = mem s))"
proof -
  note R = running_simps [OF assms(1)]
  let ?s = "s\<lparr>kcpu := cpu_acq (LPipe pi) (kcpu s)\<rparr>"
  have ok: "cpu_ok (cpu_acq (LPipe pi) (kcpu s))" using R(1) assms(2) by simp
  have Rs: "running me ?s" using assms(1,2) ok by (simp add: running_def procs_ok_def)
  have st: "settle (cpu_acq (LPipe pi) (kcpu s)) = cpu_acq (LPipe pi) (kcpu s)" using ok by (intro settle_held) auto
  have start: "pipewrite pi addr (int (length bs)) s = bnd (pipewrite_loop (length bs) pi me addr 0) (\<lambda>r.
     case r of None \<Rightarrow> ret (-1) | Some i \<Rightarrow> seq (wakeup (CPipeR pi)) (seq (release (LPipe pi)) (ret i))) ?s"
    using R assms(2) by (simp add: pipewrite_def)
  have w: "wakeup ch u = Ok () (u\<lparr>procs := map (\<lambda>i. wake ch (Some me) i (procs u ! i)) [0..<NPROC], kcpu := settle (kcpu u)\<rparr>)"
    if "procs u = procs s" "kcpu u = cpu_acq (LPipe pi) (kcpu s)" for u ch
    using wakeup_run [of u ch] that R ok assms(2) by (simp add: procs_ok_def)
  have "\<exists>t. pipewrite pi addr (int (length bs)) s = Ok (int (length bs)) t \<and>
        contents (pipes t pi) = contents (pipes s pi) @ bs \<and> pipe_wf (pipes t pi) \<and> held (kcpu t) = [] \<and> mem t = mem s"
    if fit: "readopen (pipes s pi)" "pkilled (procs s ! me) = 0" "length (contents (pipes s pi)) + length bs \<le> 512"
  proof -
    obtain p where p: "pipewrite_loop (length bs) pi me addr 0 ?s = Ok (Some (0 + int (length bs))) (?s\<lparr>pipes := (pipes ?s)(pi := p)\<rparr>)"
      "contents p = contents (pipes s pi) @ bs" "pipe_wf p"
      using pipewrite_loop_ok [OF Rs, of pi bs addr 0 0] fit assms(4,5) by auto
    show ?thesis
      unfolding start using p w R(1) assms(2) ok by simp
  qed
  moreover have "\<exists>t. pipewrite pi addr (int (length bs)) s = Blocked t \<and>
        contents (pipes t pi) = contents (pipes s pi) @ take (512 - length (contents (pipes s pi))) bs \<and>
        pipe_wf (pipes t pi) \<and> (length (contents (pipes s pi)) = 512 \<longrightarrow> pipes t = pipes s) \<and> mem t = mem s \<and>
        pstate (procs t ! me) = SLEEPING \<and> pchan (procs t ! me) = Some (CPipeW pi) \<and> held (kcpu t) = [LProc me]"
    if opn: "readopen (pipes s pi)" "pkilled (procs s ! me) = 0" and over: "length (contents (pipes s pi)) + length bs > 512"
  proof -
    define r where "r = 512 - length (contents (pipes s pi))"
    have le: "length (contents (pipes s pi)) \<le> 512" using assms(4) by (simp add: pipe_wf_def contents_def)
    have r: "length (take r bs) = r" "r < length bs" using over le by (simp_all add: r_def min_absorb2)
    obtain k where k: "length bs = r + Suc k" using r(2) less_imp_Suc_add by fastforce
    obtain p where p: "pipewrite_loop (r + Suc k) pi me addr 0 ?s =
        pipewrite_loop (Suc k) pi me addr (int r) (?s\<lparr>pipes := (pipes ?s)(pi := p)\<rparr>)"
      "contents p = contents (pipes s pi) @ take r bs" "pipe_wf p" "readopen p" "r = 0 \<longrightarrow> p = pipes s pi"
    proof (cases "r = 0")
      case True
      have "?s\<lparr>pipes := (pipes ?s)(pi := pipes s pi)\<rparr> = ?s" by simp
      then show ?thesis using that [of "pipes s pi"] True opn assms(4) by simp
    next
      case False
      have bytes: "user_byte (mem ?s) (pagetable (procs ?s ! me)) (addr + of_int 0 + of_nat j) = Some (take r bs ! j)"
        if "j < length (take r bs)" for j using assms(5) [of j] that r by simp
      have "\<exists>p. pipewrite_loop (length (take r bs) + Suc k) pi me addr 0 ?s =
          pipewrite_loop (Suc k) pi me addr (0 + int (length (take r bs))) (?s\<lparr>pipes := (pipes ?s)(pi := p)\<rparr>) \<and>
          contents p = contents (pipes ?s pi) @ take r bs \<and> pipe_wf p \<and> nread p = nread (pipes ?s pi) \<and>
          readopen p \<and> writeopen p = writeopen (pipes ?s pi)"
        by (rule pipewrite_loop_ok [OF Rs _ _ _ _ _ bytes]) (use opn le assms(4) r in \<open>simp_all add: r_def del: length_take\<close>)
      then obtain p where "pipewrite_loop (r + Suc k) pi me addr 0 ?s =
          pipewrite_loop (Suc k) pi me addr (int r) (?s\<lparr>pipes := (pipes ?s)(pi := p)\<rparr>)"
        "contents p = contents (pipes s pi) @ take r bs" "pipe_wf p" "readopen p"
        unfolding r(1) by (auto simp del: pipewrite_loop.simps)
      then show ?thesis using that False by blast
    qed
    have "length (contents p) = 512" using p(2) r le by (simp add: r_def)
    then have full: "nwrite p = nread p + PIPESIZE" by (simp add: pipe_full)
    let ?p = "s\<lparr>pipes := (pipes s)(pi := p), kcpu := cpu_acq (LPipe pi) (kcpu s)\<rparr>"
    have eq: "?s\<lparr>pipes := (pipes ?s)(pi := p)\<rparr> = ?p" by simp
    let ?u = "s\<lparr>pipes := (pipes s)(pi := p), procs := map (\<lambda>i. wake (CPipeR pi) (Some me) i (procs s ! i)) [0..<NPROC],
      kcpu := cpu_acq (LPipe pi) (kcpu s)\<rparr>"
    have "sleep (CPipeW pi) (LPipe pi) ?u = Blocked (?u\<lparr>procs := (procs ?u)[me := (procs ?u ! me)\<lparr>pchan := Some (CPipeW pi), pstate := SLEEPING\<rparr>],
       kcpu := cpu_acq (LProc me) (cpu_rel (LPipe pi) (kcpu ?u))\<rparr>)"
      using sleep_run [of ?u me "LPipe pi" "CPipeW pi"] R ok assms(2,3) by (simp add: procs_ok_def)
    then obtain t where t: "pipewrite_loop (Suc k) pi me addr (int r) ?p = Blocked t" "pipes t = (pipes s)(pi := p)" "mem t = mem s"
        "pstate (procs t ! me) = SLEEPING" "pchan (procs t ! me) = Some (CPipeW pi)" "held (kcpu t) = [LProc me]"
      using p(4) full opn R(1,2,3,4) ok st w [of ?p] assms(2)
      by (simp add: pipe_get_def sleep_wait_def bnd_def [of "wakeup _"])
    have "pipewrite pi addr (int (length bs)) s = Blocked t"
      unfolding start unfolding k by (rule bnd_Blocked) (rule trans [OF p(1) [unfolded eq] t(1)])
    then have "\<exists>t. pipewrite pi addr (int (length bs)) s = Blocked t \<and> pipes t = (pipes s)(pi := p) \<and> mem t = mem s \<and>
        pstate (procs t ! me) = SLEEPING \<and> pchan (procs t ! me) = Some (CPipeW pi) \<and> held (kcpu t) = [LProc me]"
      using t by blast
    then show ?thesis using p(2,3,5) by (auto simp: r_def)
  qed
  moreover have "\<exists>t. pipewrite pi addr (int (length bs)) s = Ok (-1) t \<and> pipes t = pipes s \<and> procs t = procs s \<and> mem t = mem s"
    if "\<not> readopen (pipes s pi) \<or> pkilled (procs s ! me) \<noteq> 0" and ne: "bs \<noteq> []"
  proof -
    obtain k where k: "length bs = Suc k" using ne by (cases bs) auto
    show ?thesis unfolding start unfolding k using that(1) R ok st assms(2) by (auto simp: pipe_get_def)
  qed
  ultimately show ?thesis by blast
qed


lemma pipewrite_spec_witness:
  "\<exists>s t. pipewrite 0x80104000 0 1 s = Ok 1 t \<and> contents (pipes t 0x80104000) = [0]"
proof -
  let ?s = "bss_kernel demo_mem (\<lambda>_. [])\<lparr>kcpu := \<lparr>cproc = Some 3, cnoff = 0, cintena = False, csie = True, held = []\<rparr>,
    procs := (replicate NPROC bss_proc)[3 := bss_proc\<lparr>pstate := RUNNING, pagetable := 0x80100000\<rparr>],
    pipes := \<lambda>_. \<lparr>pi_data = replicate 512 0, nread = 0, nwrite = 0, readopen = True, writeopen = True\<rparr>\<rparr>"
  have pg: "PGROUNDDOWN (0 :: u64) = 0" by (simp add: PGROUNDDOWN_def)
  have ub: "user_byte demo_mem 0x80100000 0 = Some 0"
    using demo_walk(1) [of 0] by (simp add: user_byte_def user_addr_def pg demo_mem_def load8_def cell_def)
  have r: "running 3 ?s" by (simp add: running_def procs_ok_def cpu_ok_def)
  have h: "held (kcpu ?s) = []" "cnoff (kcpu ?s) = 0" "pkilled (procs ?s ! 3) = 0" "pipe_wf (pipes ?s 0x80104000)"
    by (simp_all add: bss_proc_def pipe_wf_def)
  have b: "\<And>j. j < length [0 :: u8] \<Longrightarrow> user_byte (mem ?s) (pagetable (procs ?s ! 3)) (0 + of_nat j) = Some ([0] ! j)"
    using ub by simp
  have "\<exists>t. pipewrite 0x80104000 0 (int (length [0 :: u8])) ?s = Ok (int (length [0 :: u8])) t \<and>
      contents (pipes t 0x80104000) = contents (pipes ?s 0x80104000) @ [0]"
    using pipewrite_spec [OF r h(1,2,4) b] h(3) by (auto simp: contents_def)
  then obtain t where t: "pipewrite 0x80104000 0 1 ?s = Ok 1 t" "contents (pipes t 0x80104000) = [0]"
    by (auto simp: contents_def)
  show ?thesis by (rule exI [of _ ?s], rule exI [of _ t], rule conjI) (fact t)+
qed

lemma piperead_loop_ok:
  "running me s \<Longrightarrow> pipe_wf (pipes s pi) \<Longrightarrow> r = min k (length (contents (pipes s pi))) \<Longrightarrow>
   pt = pagetable (procs s ! me) \<Longrightarrow>
   (\<And>j. j < r \<Longrightarrow> user_waddr (mem s) pt (addr + of_int i + of_nat j) = Some (P j)) \<Longrightarrow> inj_on P {..<r} \<Longrightarrow>
   (\<And>j l x. j < r \<Longrightarrow> l < r \<Longrightarrow> x \<in> walk_cells (mem s) pt (PGROUNDDOWN (addr + of_int i + of_nat j)) \<Longrightarrow> cell x \<noteq> cell (P l)) \<Longrightarrow>
   \<exists>m p. piperead_loop k pi me addr i s = Ok (i + int r) (s\<lparr>pipes := (pipes s)(pi := p), mem := m\<rparr>) \<and>
      contents p = drop r (contents (pipes s pi)) \<and> pipe_wf p \<and>
      (\<forall>j < r. load8 m (P j) = contents (pipes s pi) ! j) \<and>
      (\<forall>b. (\<forall>j < r. b \<noteq> P j) \<longrightarrow> load8 m b = load8 (mem s) b)"
proof (induction k arbitrary: s i r P)
  case 0
  have "s\<lparr>pipes := (pipes s)(pi := pipes s pi), mem := mem s\<rparr> = s" by simp
  then show ?case using 0 by (intro exI [of _ "mem s"] exI [of _ "pipes s pi"]) simp
next
  case (Suc k)
  note R = running_simps [OF Suc.prems(1)]
  show ?case
  proof (cases "nread (pipes s pi) = nwrite (pipes s pi)")
    case True
    then have "contents (pipes s pi) = []" by (simp add: pipe_empty)
    moreover have "s\<lparr>pipes := (pipes s)(pi := pipes s pi), mem := mem s\<rparr> = s" by simp
    ultimately show ?thesis using Suc.prems True
      by (intro exI [of _ "mem s"] exI [of _ "pipes s pi"]) (simp add: pipe_get_def)
  next
    case False
    let ?p = "(pipes s pi)\<lparr>nread := nread (pipes s pi) + 1\<rparr>"
    note get = contents_get [OF Suc.prems(2) False]
    obtain q where r: "r = Suc q" and q: "q = min k (length (contents ?p))"
      using Suc.prems(3) get(1) by simp
    let ?s1 = "s\<lparr>pipes := (pipes s)(pi := ?p)\<rparr>"
    let ?b = "pipe_next (pipes s pi)"
    let ?a = "addr + of_int i"
    have "\<exists>m. copyout pt ?a [?b] 1 ?s1 = Ok 0 (?s1\<lparr>mem := m\<rparr>) \<and>
       (\<forall>l < unat (1 :: u64). load8 m (P l) = [?b] ! l) \<and>
       (\<forall>b. (\<forall>l < unat (1 :: u64). b \<noteq> P l) \<longrightarrow> load8 m b = load8 (mem ?s1) b) \<and>
       (\<forall>x. (\<forall>l < unat (1 :: u64). cell x \<noteq> cell (P l)) \<longrightarrow> load64 m x = load64 (mem ?s1) x)"
    proof (rule copyout_ok)
      show "user_waddr (mem ?s1) pt (?a + of_nat l) = Some (P l)" if "l < unat (1 :: u64)" for l
        using Suc.prems(5) [of l] that r by simp
      show "inj_on P {..<unat (1 :: u64)}" by (simp add: inj_on_def)
      show "cell x \<noteq> cell (P l)" if "j < unat (1 :: u64)" "l < unat (1 :: u64)"
        "x \<in> walk_cells (mem ?s1) pt (PGROUNDDOWN (?a + of_nat j))" for j l x
        using Suc.prems(7) [of j l x] that r by simp
    qed simp
    then obtain m where m: "copyout pt ?a [?b] 1 ?s1 = Ok 0 (?s1\<lparr>mem := m\<rparr>)" "load8 m (P 0) = ?b"
      "\<forall>b. b \<noteq> P 0 \<longrightarrow> load8 m b = load8 (mem s) b"
      "\<forall>x. cell x \<noteq> cell (P 0) \<longrightarrow> load64 m x = load64 (mem s) x" by auto
    let ?s2 = "?s1\<lparr>mem := m\<rparr>"
    let ?Q = "\<lambda>j. P (Suc j)"
    have step: "piperead_loop (Suc k) pi me addr i s = piperead_loop k pi me addr (i + 1) ?s2"
      using False R m(1) Suc.prems(4) by (simp add: pipe_get_def pipe_mod_def)
    have frame: "load64 m x = load64 (mem s) x" if "j < r" "x \<in> walk_cells (mem s) pt (PGROUNDDOWN (?a + of_nat j))" for x j
      using Suc.prems(7) [OF that(1) _ that(2), of 0] m(4) r by simp
    have next_addr: "addr + of_int (i + 1) + of_nat j = ?a + of_nat (Suc j)" for j by (simp add: algebra_simps)
    have "\<exists>m' p. piperead_loop k pi me addr (i + 1) ?s2 = Ok (i + 1 + int q) (?s2\<lparr>pipes := (pipes ?s2)(pi := p), mem := m'\<rparr>) \<and>
      contents p = drop q (contents (pipes ?s2 pi)) \<and> pipe_wf p \<and>
      (\<forall>j < q. load8 m' (?Q j) = contents (pipes ?s2 pi) ! j) \<and>
      (\<forall>b. (\<forall>j < q. b \<noteq> ?Q j) \<longrightarrow> load8 m' b = load8 (mem ?s2) b)"
    proof (rule Suc.IH)
      show "running me ?s2" using Suc.prems(1) by (simp add: running_def procs_ok_def)
      show "user_waddr (mem ?s2) pt (addr + of_int (i + 1) + of_nat j) = Some (?Q j)" if "j < q" for j
      proof -
        have jr: "Suc j < r" using that r by simp
        have "user_waddr m pt (?a + of_nat (Suc j)) = user_waddr (mem s) pt (?a + of_nat (Suc j))"
          by (rule user_waddr_frame) (rule frame [OF jr])
        then show ?thesis using Suc.prems(5) [OF jr] unfolding next_addr by simp
      qed
      show "inj_on ?Q {..<q}"
      proof (rule inj_onI)
        fix x y assume "x \<in> {..<q}" "y \<in> {..<q}" "?Q x = ?Q y"
        then have "Suc x = Suc y" using r by (intro inj_onD [OF Suc.prems(6)]) auto
        then show "x = y" by simp
      qed
      show "cell x \<noteq> cell (?Q l)" if "j < q" "l < q"
        "x \<in> walk_cells (mem ?s2) pt (PGROUNDDOWN (addr + of_int (i + 1) + of_nat j))" for j l x
      proof -
        have jr: "Suc j < r" "Suc l < r" using that r by simp_all
        have "walk_cells m pt (PGROUNDDOWN (?a + of_nat (Suc j))) = walk_cells (mem s) pt (PGROUNDDOWN (?a + of_nat (Suc j)))"
          by (rule walk_frame(3)) (rule frame [OF jr(1)])
        then show ?thesis using Suc.prems(7) [OF jr] that(3) unfolding next_addr by simp
      qed
    qed (use get(2) q Suc.prems(4) in simp_all)
    then obtain m' p where mp: "piperead_loop k pi me addr (i + 1) ?s2 =
          Ok (i + 1 + int q) (?s2\<lparr>pipes := (pipes ?s2)(pi := p), mem := m'\<rparr>)"
      "contents p = drop q (contents ?p)" "pipe_wf p"
      "\<forall>j < q. load8 m' (?Q j) = contents ?p ! j"
      "\<forall>b. (\<forall>j < q. b \<noteq> ?Q j) \<longrightarrow> load8 m' b = load8 m b"
      by auto
    have eq: "?s2\<lparr>pipes := (pipes ?s2)(pi := p), mem := m'\<rparr> = s\<lparr>pipes := (pipes s)(pi := p), mem := m'\<rparr>" by simp
    have "load8 m' (P j) = contents (pipes s pi) ! j" if "j < r" for j
    proof (cases j)
      case 0
      have "P 0 \<noteq> ?Q l" if "l < q" for l
        using inj_onD [OF Suc.prems(6), of 0 "Suc l"] that r by auto
      then show ?thesis using mp(5) m(2) get(1) 0 by simp
    next
      case (Suc l)
      then show ?thesis using mp(4) that r get(1) by simp
    qed
    moreover have "load8 m' b = load8 (mem s) b" if "\<forall>j < r. b \<noteq> P j" for b
      using mp(5) m(3) that r by auto
    moreover have "contents p = drop r (contents (pipes s pi))" using mp(2) get(1) r by simp
    moreover have "i + 1 + int q = i + int r" using r by simp
    ultimately show ?thesis
      unfolding step mp(1) eq using mp(3) by (intro exI [of _ m'] exI [of _ p]) (simp add: fun_upd_def)
  qed
qed


text \<open>
  C35: for the reader.  When bytes are queued or the write end is closed, a read of \<open>n\<close> bytes into
  writable memory takes the first \<open>min n\<close> bytes off the queue, stores exactly those bytes in order,
  and returns their number (0 at end of file).  An empty pipe with a writer puts it to sleep on the
  read channel.
\<close>

theorem piperead_spec:
  assumes "running me s" and "held (kcpu s) = []" and "cnoff (kcpu s) = 0" and "pipe_wf (pipes s pi)"
    and "pkilled (procs s ! me) = 0" and "r = min n (length (contents (pipes s pi)))"
    and "\<And>j. j < r \<Longrightarrow> user_waddr (mem s) (pagetable (procs s ! me)) (addr + of_nat j) = Some (P j)"
    and "inj_on P {..<r}"
    and "\<And>j l x. j < r \<Longrightarrow> l < r \<Longrightarrow>
      x \<in> walk_cells (mem s) (pagetable (procs s ! me)) (PGROUNDDOWN (addr + of_nat j)) \<Longrightarrow> cell x \<noteq> cell (P l)"
  shows "(contents (pipes s pi) \<noteq> [] \<or> \<not> writeopen (pipes s pi) \<longrightarrow>
      (\<exists>t. piperead pi addr (int n) s = Ok (int r) t \<and> held (kcpu t) = [] \<and>
        contents (pipes t pi) = drop r (contents (pipes s pi)) \<and> pipe_wf (pipes t pi) \<and>
        (\<forall>j < r. load8 (mem t) (P j) = contents (pipes s pi) ! j) \<and>
        (\<forall>b. (\<forall>j < r. b \<noteq> P j) \<longrightarrow> load8 (mem t) b = load8 (mem s) b))) \<and>
    (contents (pipes s pi) = [] \<longrightarrow> writeopen (pipes s pi) \<longrightarrow>
      (\<exists>t. piperead pi addr (int n) s = Blocked t \<and> pipes t = pipes s \<and>
        pstate (procs t ! me) = SLEEPING \<and> pchan (procs t ! me) = Some (CPipeR pi) \<and> held (kcpu t) = [LProc me]))"
proof -
  note R = running_simps [OF assms(1)]
  let ?s = "s\<lparr>kcpu := cpu_acq (LPipe pi) (kcpu s)\<rparr>"
  have ok: "cpu_ok (cpu_acq (LPipe pi) (kcpu s))" using R(1) assms(2) by simp
  have Rs: "running me ?s" using assms(1,2) ok by (simp add: running_def procs_ok_def)
  have "\<exists>t. piperead pi addr (int n) s = Ok (int r) t \<and> held (kcpu t) = [] \<and>
        contents (pipes t pi) = drop r (contents (pipes s pi)) \<and> pipe_wf (pipes t pi) \<and>
        (\<forall>j < r. load8 (mem t) (P j) = contents (pipes s pi) ! j) \<and>
        (\<forall>b. (\<forall>j < r. b \<noteq> P j) \<longrightarrow> load8 (mem t) b = load8 (mem s) b)"
    if go: "contents (pipes s pi) \<noteq> [] \<or> \<not> writeopen (pipes s pi)"
  proof -
    have "\<exists>m p. piperead_loop n pi me addr 0 ?s = Ok (0 + int r) (?s\<lparr>pipes := (pipes ?s)(pi := p), mem := m\<rparr>) \<and>
      contents p = drop r (contents (pipes ?s pi)) \<and> pipe_wf p \<and>
      (\<forall>j < r. load8 m (P j) = contents (pipes ?s pi) ! j) \<and>
      (\<forall>b. (\<forall>j < r. b \<noteq> P j) \<longrightarrow> load8 m b = load8 (mem ?s) b)"
      by (rule piperead_loop_ok [OF Rs, where pt = "pagetable (procs s ! me)"])
        (use assms(4,6,7,8,9) in simp_all)
    then obtain m p where mp: "piperead_loop n pi me addr 0 ?s = Ok (int r) (?s\<lparr>pipes := (pipes ?s)(pi := p), mem := m\<rparr>)"
      "contents p = drop r (contents (pipes s pi))" "pipe_wf p"
      "\<forall>j < r. load8 m (P j) = contents (pipes s pi) ! j"
      "\<forall>b. (\<forall>j < r. b \<noteq> P j) \<longrightarrow> load8 m b = load8 (mem s) b" by auto
    let ?u = "?s\<lparr>pipes := (pipes ?s)(pi := p), mem := m\<rparr>"
    have w: "wakeup (CPipeW pi) ?u = Ok () (?u\<lparr>procs := map (\<lambda>i. wake (CPipeW pi) (Some me) i (procs s ! i)) [0..<NPROC],
        kcpu := settle (kcpu ?u)\<rparr>)"
      using wakeup_run [of ?u "CPipeW pi"] R ok assms(2) by (simp add: procs_ok_def)
    have "\<not> (nread (pipes s pi) = nwrite (pipes s pi) \<and> writeopen (pipes s pi))"
      using go by (auto simp: pipe_empty)
    then have "piperead pi addr (int n) s = bnd (piperead_loop n pi me addr 0) (\<lambda>i.
       seq (wakeup (CPipeW pi)) (seq (release (LPipe pi)) (ret i))) ?s"
      using R assms(2) by (auto simp: piperead_def pipe_get_def)
    then show ?thesis using mp w R(1) assms(2) ok by simp
  qed
  moreover have "\<exists>t. piperead pi addr (int n) s = Blocked t \<and> pipes t = pipes s \<and>
        pstate (procs t ! me) = SLEEPING \<and> pchan (procs t ! me) = Some (CPipeR pi) \<and> held (kcpu t) = [LProc me]"
    if "contents (pipes s pi) = []" "writeopen (pipes s pi)"
  proof -
    have e: "nread (pipes s pi) = nwrite (pipes s pi)" using that(1) by (simp add: pipe_empty)
    have "sleep (CPipeR pi) (LPipe pi) ?s = Blocked (?s\<lparr>procs := (procs ?s)[me := (procs ?s ! me)\<lparr>pchan := Some (CPipeR pi), pstate := SLEEPING\<rparr>],
       kcpu := cpu_acq (LProc me) (cpu_rel (LPipe pi) (kcpu ?s))\<rparr>)"
      using sleep_run [of ?s me "LPipe pi" "CPipeR pi"] R ok assms(2,3) by (simp add: procs_ok_def)
    then show ?thesis
      using R ok that(2) e assms(2,5) by (simp add: piperead_def pipe_get_def sleep_wait_def)
  qed
  ultimately show ?thesis by blast
qed

lemma piperead_spec_witness:
  "\<exists>s t. contents (pipes s 0x80104000) = [7, 8] \<and> piperead 0x80104000 0 5 s = Ok 2 t \<and>
    load8 (mem t) 0x80103000 = 7 \<and> contents (pipes t 0x80104000) = []"
proof -
  let ?s = "bss_kernel demo_mem (\<lambda>_. [])\<lparr>kcpu := \<lparr>cproc = Some 3, cnoff = 0, cintena = False, csie = True, held = []\<rparr>,
    procs := (replicate NPROC bss_proc)[3 := bss_proc\<lparr>pstate := RUNNING, pagetable := 0x80100000\<rparr>],
    pipes := \<lambda>_. \<lparr>pi_data = [7, 8] @ replicate 510 0, nread = 0, nwrite = 2, readopen = True, writeopen = True\<rparr>\<rparr>"
  have u2: "[0..<2] = [0, Suc 0]" by (simp add: upt_rec)
  have c: "contents (pipes ?s 0x80104000) = [7, 8]" by (simp add: contents_def ring_def u2)
  have pg: "PGROUNDDOWN (of_nat i) = 0" if "i < 2" for i
    using that by (auto simp: less_2_cases_iff PGROUNDDOWN_def)
  note dw = demo_walk(1,2,3) [of 0, simplified]
  have r: "running 3 ?s" by (simp add: running_def procs_ok_def cpu_ok_def)
  have "\<exists>t. piperead 0x80104000 0 (int 5) ?s = Ok (int 2) t \<and> held (kcpu t) = [] \<and>
        contents (pipes t 0x80104000) = drop 2 (contents (pipes ?s 0x80104000)) \<and> pipe_wf (pipes t 0x80104000) \<and>
        (\<forall>j < 2. load8 (mem t) (0x80103000 + of_nat j) = contents (pipes ?s 0x80104000) ! j) \<and>
        (\<forall>b. (\<forall>j < 2. b \<noteq> 0x80103000 + of_nat j) \<longrightarrow> load8 (mem t) b = load8 (mem ?s) b)"
  proof (rule piperead_spec [THEN conjunct1, THEN mp, OF r])
    show "user_waddr (mem ?s) (pagetable (procs ?s ! 3)) (0 + of_nat j) = Some (0x80103000 + of_nat j)" if "j < 2" for j
      using pg [OF that] demo_walk(4) [of 0] by (simp add: user_waddr_def user_addr_def dw)
    show "inj_on (\<lambda>j. 0x80103000 + of_nat j :: u64) {..<2}"
      by (auto simp: inj_on_def less_2_cases_iff)
    show "cell x \<noteq> cell (0x80103000 + of_nat l)" if "j < 2" "l < 2"
      "x \<in> walk_cells (mem ?s) (pagetable (procs ?s ! 3)) (PGROUNDDOWN (0 + of_nat j))" for j l x
      using that pg [OF that(1)] by (auto simp: dw less_2_cases_iff cell_def)
    show "2 = min 5 (length (contents (pipes ?s 0x80104000)))" unfolding c by simp
    show "contents (pipes ?s 0x80104000) \<noteq> [] \<or> \<not> writeopen (pipes ?s 0x80104000)" unfolding c by simp
  qed (simp_all add: bss_proc_def pipe_wf_def)
  then obtain t where "piperead 0x80104000 0 5 ?s = Ok 2 t" "contents (pipes t 0x80104000) = []"
    "\<forall>j < 2. load8 (mem t) (0x80103000 + of_nat j) = [7, 8] ! j" unfolding c by auto
  then show ?thesis using c by (intro exI [of _ ?s] exI [of _ t]) (auto dest: spec [of _ 0])
qed

text \<open>
  \<open>piperead\<close> takes a byte off the queue before it copies it out, so a read into an address that
  is not writable loses the first byte: the call returns 0, as at end of file.
\<close>

theorem piperead_loses_byte:
  assumes "running me s" and "held (kcpu s) = []" and "pipe_wf (pipes s pi)"
    and "contents (pipes s pi) \<noteq> []" and "0 < n" and "user_waddr (mem s) (pagetable (procs s ! me)) addr = None"
  shows "\<exists>t. piperead pi addr n s = Ok 0 t \<and> contents (pipes t pi) = tl (contents (pipes s pi)) \<and> mem t = mem s"
proof -
  note R = running_simps [OF assms(1)]
  have ok: "cpu_ok (cpu_acq (LPipe pi) (kcpu s))" using R(1) assms(2) by simp
  have ne: "nread (pipes s pi) \<noteq> nwrite (pipes s pi)" using assms(4) by (simp add: pipe_empty)
  obtain k where k: "nat n = Suc k" using assms(5) by (cases "nat n") auto
  let ?p = "(pipes s pi)\<lparr>nread := nread (pipes s pi) + 1\<rparr>"
  let ?u = "s\<lparr>kcpu := cpu_acq (LPipe pi) (kcpu s), pipes := (pipes s)(pi := ?p)\<rparr>"
  have co: "copyout (pagetable (procs s ! me)) addr [pipe_next (pipes s pi)] 1 ?u = Ok (-1) ?u"
    using assms(6) by (intro copyout_no_page) simp_all
  have w: "wakeup (CPipeW pi) ?u = Ok () (?u\<lparr>procs := map (\<lambda>i. wake (CPipeW pi) (Some me) i (procs s ! i)) [0..<NPROC],
      kcpu := settle (kcpu ?u)\<rparr>)"
    using wakeup_run [of ?u "CPipeW pi"] R ok assms(2) by (simp add: procs_ok_def)
  have "contents ?p = tl (contents (pipes s pi))" using contents_get [OF assms(3) ne] by simp
  then show ?thesis
    using R ok ne co w assms(2) by (simp add: piperead_def k pipe_get_def pipe_mod_def)
qed


lemma piperead_loses_byte_witness:
  "\<exists>s t. contents (pipes s 0x80104000) = [7, 8] \<and> piperead 0x80104000 0 1 s = Ok 0 t \<and>
    contents (pipes t 0x80104000) = [8]"
proof -
  let ?s = "bss_kernel (\<lambda>_. 0) (\<lambda>_. [])\<lparr>kcpu := \<lparr>cproc = Some 3, cnoff = 0, cintena = False, csie = True, held = []\<rparr>,
    pipes := \<lambda>_. \<lparr>pi_data = [7, 8] @ replicate 510 0, nread = 0, nwrite = 2, readopen = True, writeopen = True\<rparr>\<rparr>"
  have u2: "[0..<2] = [0, Suc 0]" by (simp add: upt_rec)
  have c: "contents (pipes ?s 0x80104000) = [7, 8]" by (simp add: contents_def ring_def u2)
  have r: "running 3 ?s" by (simp add: running_def procs_ok_def cpu_ok_def)
  have u: "user_waddr (mem ?s) (pagetable (procs ?s ! 3)) 0 = None"
    by (simp add: user_waddr_def pt_slot_def pt_child_def load64_def)
  have "\<exists>t. piperead 0x80104000 0 1 ?s = Ok 0 t \<and> contents (pipes t 0x80104000) = tl (contents (pipes ?s 0x80104000)) \<and> mem t = mem ?s"
    by (rule piperead_loses_byte [OF r]) (use c u in \<open>simp_all add: pipe_wf_def\<close>)
  then obtain t where t: "piperead 0x80104000 0 1 ?s = Ok 0 t" "contents (pipes t 0x80104000) = [8]" unfolding c by auto
  show ?thesis by (rule exI [of _ ?s], rule exI [of _ t]) (use c t in auto)
qed

end
