(* ===== verification/Calm.thy ===== *)
theory Calm
  imports Pipe
begin

section \<open>A process that holds no spin lock\<close>

text \<open>
  Between two critical sections a process holds no spin lock and interrupts are not nested.  In such
  a state taking and giving up a lock leaves the CPU as it was, a sleep lock that is free is taken
  without waiting, and a wakeup changes nothing but the states of sleeping processes.
\<close>

definition calm :: "nat \<Rightarrow> kernel \<Rightarrow> bool" where
  "calm me s \<longleftrightarrow> running me s \<and> held (kcpu s) = [] \<and> cnoff (kcpu s) = 0 \<and> settle (kcpu s) = kcpu s"

text \<open>The process table up to processes that were woken.\<close>

definition woke :: "nat \<Rightarrow> proc list \<Rightarrow> proc list \<Rightarrow> bool" where
  "woke me P Q \<longleftrightarrow> length Q = length P \<and> Q ! me = P ! me \<and>
     (\<forall>i < length P. Q ! i = P ! i \<or> pstate (P ! i) = SLEEPING \<and> Q ! i = (P ! i)\<lparr>pstate := RUNNABLE\<rparr>)"

lemma woke_refl [simp]: "woke me P P"
  by (simp add: woke_def)

lemma woke_trans:
  assumes "woke me P Q" and "woke me Q R"
  shows "woke me P R"
  unfolding woke_def
proof (intro conjI allI impI)
  fix i assume i: "i < length P"
  have q: "Q ! i = P ! i \<or> pstate (P ! i) = SLEEPING \<and> Q ! i = (P ! i)\<lparr>pstate := RUNNABLE\<rparr>"
    using assms(1) i by (simp add: woke_def)
  have r: "R ! i = Q ! i \<or> pstate (Q ! i) = SLEEPING \<and> R ! i = (Q ! i)\<lparr>pstate := RUNNABLE\<rparr>"
    using assms i by (simp add: woke_def)
  show "R ! i = P ! i \<or> pstate (P ! i) = SLEEPING \<and> R ! i = (P ! i)\<lparr>pstate := RUNNABLE\<rparr>"
    using q r by auto
qed (use assms in \<open>simp_all add: woke_def\<close>)

lemma calmD:
  assumes "calm me s"
  shows "running me s" "procs_ok s" "cpu_ok (kcpu s)" "length (procs s) = NPROC" "cproc (kcpu s) = Some me"
    "me < NPROC" "held (kcpu s) = []" "cnoff (kcpu s) = 0" "settle (kcpu s) = kcpu s"
  using assms by (auto simp: calm_def running_def procs_ok_def)

lemma calm_woke:
  "calm me s \<Longrightarrow> woke me (procs s) P \<Longrightarrow> procs t = P \<Longrightarrow> kcpu t = kcpu s \<Longrightarrow> calm me t"
  by (simp add: calm_def running_def procs_ok_def woke_def)

lemma calm_same: "calm me s \<Longrightarrow> procs t = procs s \<Longrightarrow> kcpu t = kcpu s \<Longrightarrow> calm me t"
  by (simp add: calm_def running_def procs_ok_def)

text \<open>One lock is held: the state inside a critical section.\<close>

lemma calm_locked:
  assumes "calm me s"
  shows "cpu_ok (cpu_acq l (kcpu s))" "cpu_rel l (cpu_acq l (kcpu s)) = kcpu s" "settle (cpu_acq l (kcpu s)) = cpu_acq l (kcpu s)"
  using calmD [OF assms] by simp_all

definition woken :: "chan \<Rightarrow> kernel \<Rightarrow> proc list" where
  "woken ch s = map (\<lambda>i. wake ch (cproc (kcpu s)) i (procs s ! i)) [0..<NPROC]"

lemma woke_woken:
  assumes "calm me s"
  shows "woke me (procs s) (woken ch s)"
proof -
  have n: "woken ch s ! i = wake ch (Some me) i (procs s ! i)" if "i < NPROC" for i
    using that calmD [OF assms] by (simp add: woken_def)
  show ?thesis
    unfolding woke_def
  proof (intro conjI allI impI)
    show "length (woken ch s) = length (procs s)" using calmD [OF assms] by (simp add: woken_def)
    show "woken ch s ! me = procs s ! me" using n [of me] calmD [OF assms] by (simp add: wake_def)
    fix i assume "i < length (procs s)"
    then show "woken ch s ! i = procs s ! i \<or>
        pstate (procs s ! i) = SLEEPING \<and> woken ch s ! i = (procs s ! i)\<lparr>pstate := RUNNABLE\<rparr>"
      using n [of i] calmD [OF assms] by (simp add: wake_def)
  qed
qed

lemma wakeup_locked:
  assumes c: "calm me s" and t: "procs t = procs s" "kcpu t = cpu_acq l (kcpu s)" and l: "\<And>i. l \<noteq> LProc i"
  shows "wakeup ch t = Ok () (t\<lparr>procs := woken ch s\<rparr>)"
proof -
  note C = calmD [OF c]
  have "procs_ok t" using C t by (simp add: procs_ok_def)
  moreover have "LProc i \<in> set (held (kcpu t)) \<Longrightarrow> cproc (kcpu t) = Some i" for i using C t l by auto
  ultimately have "wakeup ch t = Ok () (t\<lparr>procs := map (\<lambda>i. wake ch (cproc (kcpu t)) i (procs t ! i)) [0..<NPROC],
      kcpu := settle (kcpu t)\<rparr>)"
    by (rule wakeup_run)
  then show ?thesis using C t by (simp add: woken_def)
qed

lemma mine_locked:
  assumes "calm me s" and "kcpu t = cpu_acq l (kcpu s)"
  shows "mine t = Ok me t"
  using calmD [OF assms(1)] assms(2) by simp

lemma mypid_locked:
  assumes "calm me s" and "kcpu t = cpu_acq l (kcpu s)" and "procs t = procs s"
  shows "my_pid t = Ok (pid (procs s ! me)) t"
  using calmD [OF assms(1)] assms(2,3) mine_locked [OF assms(1,2)] by (simp add: my_pid_def)

subsection \<open>Sleep locks of buffers\<close>

lemma sleeplock_set [simp]: "(k :: sleeplock)\<lparr>slocked := a, slpid := b\<rparr> = \<lparr>slocked = a, slpid = b\<rparr>"
  by (cases k) simp

definition blocked_by :: "kernel \<Rightarrow> nat \<Rightarrow> sleeplock" where
  "blocked_by s me = \<lparr>slocked = True, slpid = pid (procs s ! me)\<rparr>"

abbreviation set_buf :: "kernel \<Rightarrow> nat \<Rightarrow> buf \<Rightarrow> kernel" where
  "set_buf s i b \<equiv> s\<lparr>bufs := (bufs s)[i := b]\<rparr>"

lemma acquiresleep_buf:
  assumes c: "calm me s" and i: "i < length (bufs s)" and f: "\<not> slocked (block_lock (bufs s ! i))"
  shows "acquiresleep (SBuf i) s = Ok () (set_buf s i ((bufs s ! i)\<lparr>block_lock := blocked_by s me\<rparr>))"
proof -
  let ?t = "s\<lparr>kcpu := cpu_acq (LSleep (SBuf i)) (kcpu s), bufs := (bufs s)[i := (bufs s ! i)\<lparr>block_lock := (block_lock (bufs s ! i))\<lparr>slocked := True\<rparr>\<rparr>]\<rparr>"
  have p: "my_pid ?t = Ok (pid (procs s ! me)) ?t" by (rule mypid_locked [OF c]) simp_all
  show ?thesis
    using calmD(7) [OF c] i f p calm_locked [OF c] by (simp add: acquiresleep_def blocked_by_def)
qed

lemma holdingsleep_buf:
  assumes c: "calm me s" and i: "i < length (bufs s)"
  shows "holdingsleep (SBuf i) s =
    Ok (slocked (block_lock (bufs s ! i)) \<and> slpid (block_lock (bufs s ! i)) = pid (procs s ! me)) s"
proof -
  let ?t = "s\<lparr>kcpu := cpu_acq (LSleep (SBuf i)) (kcpu s)\<rparr>"
  have p: "my_pid ?t = Ok (pid (procs s ! me)) ?t" by (rule mypid_locked [OF c]) simp_all
  show ?thesis
    using calmD(7) [OF c] i p calm_locked [OF c] by (simp add: holdingsleep_def)
qed

lemma releasesleep_buf:
  assumes c: "calm me s" and i: "i < length (bufs s)"
  shows "releasesleep (SBuf i) s = Ok () (s\<lparr>procs := woken (CSleep (SBuf i)) s,
    bufs := (bufs s)[i := (bufs s ! i)\<lparr>block_lock := \<lparr>slocked = False, slpid = 0\<rparr>\<rparr>]\<rparr>)"
proof -
  let ?t = "s\<lparr>kcpu := cpu_acq (LSleep (SBuf i)) (kcpu s),
    bufs := (bufs s)[i := (bufs s ! i)\<lparr>block_lock := \<lparr>slocked = False, slpid = 0\<rparr>\<rparr>]\<rparr>"
  have w: "wakeup (CSleep (SBuf i)) ?t = Ok () (?t\<lparr>procs := woken (CSleep (SBuf i)) s\<rparr>)"
    by (rule wakeup_locked [OF c, where l = "LSleep (SBuf i)"]) simp_all
  show ?thesis
    using calmD(7) [OF c] i w calm_locked [OF c] by (simp add: releasesleep_def)
qed

end
