(* ===== verification/Bio.thy ===== *)
theory Bio
  imports Calm
begin

section \<open>The block cache (\<^verbatim>\<open>kernel/bio.c\<close>)\<close>

text \<open>
  Thirty buffers on a circular doubly linked list, most recently used first.  A buffer is its index
  in \<open>bufs\<close>; the list's head is entry \<open>NBUF\<close>.  The disk driver is used through what it promises: when
  \<open>virtio_disk_rw\<close> returns, the block was transferred (theory \<open>Virtio\<close> models how), and a write is recorded
  in \<open>dhist\<close>.  It sleeps, so it must be called without a spin lock.
\<close>

abbreviation (input) "bhead \<equiv> NBUF"

definition virtio_disk_rw :: "nat \<Rightarrow> bool \<Rightarrow> unit km" where
  "virtio_disk_rw i write =
     bnd (gets (\<lambda>s. cnoff (kcpu s))) (\<lambda>n.
     seq (guard_panic (n \<noteq> 0) ''sched locks'') (
     bnd (buf_get i) (\<lambda>b.
     if write then modify (\<lambda>s. s\<lparr>disk := (disk s)(unat (blockno b) := bdata b),
            dhist := dhist s @ [(disk s)(unat (blockno b) := bdata b)]\<rparr>)
     else bnd (gets (\<lambda>s. disk s (unat (blockno b)))) (\<lambda>d. buf_mod i (\<lambda>b. b\<lparr>bdata := d\<rparr>)))))"

definition set_next :: "nat \<Rightarrow> nat \<Rightarrow> unit km" where
  "set_next i j = buf_mod i (\<lambda>b. b\<lparr>bnext := j\<rparr>)"

definition set_prev :: "nat \<Rightarrow> nat \<Rightarrow> unit km" where
  "set_prev i j = buf_mod i (\<lambda>b. b\<lparr>bprev := j\<rparr>)"

text \<open>Puts a buffer in front of the list, as \<open>binit\<close> and \<open>brelse\<close> do.\<close>

definition link_front :: "nat \<Rightarrow> unit km" where
  "link_front i =
     bnd (buf_get bhead) (\<lambda>h.
     seq (set_next i (bnext h)) (
     seq (set_prev i bhead) (
     seq (set_prev (bnext h) i)
         (set_next bhead i))))"

definition binit :: "unit km" where
  "binit =
     seq (initlock LBcache) (
     seq (set_prev bhead bhead) (
     seq (set_next bhead bhead) (
     foreach [0..<NBUF] (\<lambda>i.
       bnd (buf_get bhead) (\<lambda>h.
       seq (set_next i (bnext h)) (
       seq (set_prev i bhead) (
       seq (initsleeplock (SBuf i)) (
       seq (set_prev (bnext h) i)
           (set_next bhead i)))))))))"

text \<open>
  The two scans of \<open>bget\<close>, along the \<^verbatim>\<open>next\<close> and the \<^verbatim>\<open>prev\<close> links.  The list holds every buffer once,
  so more than \<open>NBUF + 1\<close> steps mean the links are broken.
\<close>

primrec find_cached :: "nat \<Rightarrow> u32 \<Rightarrow> u32 \<Rightarrow> nat \<Rightarrow> nat option km" where
  "find_cached 0 dev bno i = stuck"
| "find_cached (Suc n) dev bno i =
     (if i = bhead then ret None
      else bnd (buf_get i) (\<lambda>b.
        if bdev b = dev \<and> blockno b = bno then ret (Some i)
        else find_cached n dev bno (bnext b)))"

primrec find_unused :: "nat \<Rightarrow> nat \<Rightarrow> nat option km" where
  "find_unused 0 i = stuck"
| "find_unused (Suc n) i =
     (if i = bhead then ret None
      else bnd (buf_get i) (\<lambda>b.
        if refcnt b = 0 then ret (Some i)
        else find_unused n (bprev b)))"

definition bget :: "u32 \<Rightarrow> u32 \<Rightarrow> nat km" where
  "bget dev bno =
     seq (acquire LBcache) (
     bnd (buf_get bhead) (\<lambda>h.
     bnd (find_cached (NBUF + 1) dev bno (bnext h)) (\<lambda>c.
     case c of
       Some i \<Rightarrow>
         seq (buf_mod i (\<lambda>b. b\<lparr>refcnt := refcnt b + 1\<rparr>)) (
         seq (release LBcache) (
         seq (acquiresleep (SBuf i)) (ret i)))
     | None \<Rightarrow>
         bnd (find_unused (NBUF + 1) (bprev h)) (\<lambda>u.
         case u of
           Some i \<Rightarrow>
             seq (buf_mod i (\<lambda>b. b\<lparr>bdev := dev, blockno := bno, bvalid := False, refcnt := 1\<rparr>)) (
             seq (release LBcache) (
             seq (acquiresleep (SBuf i)) (ret i)))
         | None \<Rightarrow> panic ''bget: no buffers''))))"

definition bread :: "u32 \<Rightarrow> u32 \<Rightarrow> nat km" where
  "bread dev bno =
     bnd (bget dev bno) (\<lambda>i.
     bnd (buf_get i) (\<lambda>b.
     seq (whenM (\<not> bvalid b)
            (seq (virtio_disk_rw i False)
                 (buf_mod i (\<lambda>b. b\<lparr>bvalid := True\<rparr>))))
         (ret i)))"

definition bwrite :: "nat \<Rightarrow> unit km" where
  "bwrite i =
     bnd (holdingsleep (SBuf i)) (\<lambda>h.
     seq (guard_panic (\<not> h) ''bwrite'')
         (virtio_disk_rw i True))"

definition brelse :: "nat \<Rightarrow> unit km" where
  "brelse i =
     bnd (holdingsleep (SBuf i)) (\<lambda>h.
     seq (guard_panic (\<not> h) ''brelse'') (
     seq (releasesleep (SBuf i)) (
     seq (acquire LBcache) (
     seq (buf_mod i (\<lambda>b. b\<lparr>refcnt := refcnt b - 1\<rparr>)) (
     bnd (buf_get i) (\<lambda>b.
     seq (whenM (refcnt b = 0)
            (seq (set_prev (bnext b) (bprev b)) (
             bnd (buf_get i) (\<lambda>b.
             seq (set_next (bprev b) (bnext b))
                 (link_front i)))))
         (release LBcache)))))))"

definition bpin :: "nat \<Rightarrow> unit km" where
  "bpin i =
     seq (acquire LBcache) (
     seq (buf_mod i (\<lambda>b. b\<lparr>refcnt := refcnt b + 1\<rparr>))
         (release LBcache))"

definition bunpin :: "nat \<Rightarrow> unit km" where
  "bunpin i =
     seq (acquire LBcache) (
     seq (buf_mod i (\<lambda>b. b\<lparr>refcnt := refcnt b - 1\<rparr>))
         (release LBcache))"


subsection \<open>The links as a list\<close>

text \<open>\<open>chain_to nx pv a xs b\<close>: the links lead from \<open>a\<close> through \<open>xs\<close> to \<open>b\<close>, and back.\<close>

primrec chain_to :: "(nat \<Rightarrow> nat) \<Rightarrow> (nat \<Rightarrow> nat) \<Rightarrow> nat \<Rightarrow> nat list \<Rightarrow> nat \<Rightarrow> bool" where
  "chain_to nx pv a [] b \<longleftrightarrow> nx a = b \<and> pv b = a"
| "chain_to nx pv a (x # xs) b \<longleftrightarrow> nx a = x \<and> pv x = a \<and> chain_to nx pv x xs b"

definition nxt :: "buf list \<Rightarrow> nat \<Rightarrow> nat" where
  "nxt B i = bnext (B ! i)"

definition prv :: "buf list \<Rightarrow> nat \<Rightarrow> nat" where
  "prv B i = bprev (B ! i)"

definition lru :: "buf list \<Rightarrow> nat list \<Rightarrow> bool" where
  "lru B xs \<longleftrightarrow> length B = NBUF + 1 \<and> distinct xs \<and> set xs = {..<NBUF} \<and> chain_to (nxt B) (prv B) bhead xs bhead"

lemma nxt_upd [simp]: "j < length B \<Longrightarrow> nxt (B[j := b]) = (nxt B)(j := bnext b)"
  by (auto simp: nxt_def nth_list_update)

lemma prv_upd [simp]: "j < length B \<Longrightarrow> prv (B[j := b]) = (prv B)(j := bprev b)"
  by (auto simp: prv_def nth_list_update)

lemma path_append: "chain_to nx pv a (xs @ x # ys) b \<longleftrightarrow> chain_to nx pv a xs x \<and> chain_to nx pv x ys b"
  by (induction xs arbitrary: a) auto

lemma path_nx: "i \<notin> insert a (set xs) \<Longrightarrow> chain_to (nx(i := j)) pv a xs b = chain_to nx pv a xs b"
  by (induction xs arbitrary: a) auto

lemma path_pv: "i \<notin> insert b (set xs) \<Longrightarrow> chain_to nx (pv(i := j)) a xs b = chain_to nx pv a xs b"
  by (induction xs arbitrary: a) auto

lemma path_first: "chain_to nx pv a xs b \<Longrightarrow> nx a = hd (xs @ [b])"
  by (cases xs) auto

lemma path_last: "chain_to nx pv a xs b \<Longrightarrow> pv b = last (a # xs)"
  by (induction xs arbitrary: a) auto

text \<open>Taking an element out of the list, and putting one at its front.\<close>

lemma path_redirect:
  assumes "chain_to nx pv a us i" and "distinct (a # us)" and "y \<notin> set us"
  shows "chain_to (nx(last (a # us) := y)) (pv(y := last (a # us))) a us y"
  using assms
proof (induction us arbitrary: a)
  case (Cons u us)
  define l where "l = last (u # us)"
  have "chain_to (nx(l := y)) (pv(y := l)) u us y"
    unfolding l_def by (rule Cons.IH) (use Cons.prems in auto)
  moreover have "a \<noteq> l" unfolding l_def using Cons.prems(2) last_in_set [of "u # us"] by auto
  moreover have "(nx(l := y)) a = u" "(pv(y := l)) u = a" using Cons.prems \<open>a \<noteq> l\<close> by auto
  moreover have "last (a # u # us) = l" by (simp add: l_def)
  ultimately show ?case unfolding chain_to.simps by metis
qed simp

lemma path_unlink:
  assumes p: "chain_to nx pv a (us @ i # vs) b" and d: "distinct (us @ i # vs)" "a \<notin> set (us @ i # vs)" "b \<notin> set (us @ i # vs)"
  shows "chain_to (nx(pv i := nx i)) (pv(nx i := pv i)) a (us @ vs) b"
proof -
  have 1: "chain_to nx pv a us i" "chain_to nx pv i vs b" using p by (auto simp: path_append)
  have pi: "pv i = last (a # us)" using path_last [OF 1(1)] .
  have ni: "nx i = hd (vs @ [b])" using path_first [OF 1(2)] .
  have "nx i \<notin> set us" using d unfolding ni by (cases vs) auto
  then have u: "chain_to (nx(pv i := nx i)) (pv(nx i := pv i)) a us (nx i)"
    unfolding pi using 1(1) d by (intro path_redirect) auto
  show ?thesis
  proof (cases vs)
    case Nil
    then show ?thesis using u ni by simp
  next
    case (Cons v ws)
    have nv: "nx i = v" using ni Cons by simp
    have "chain_to nx pv v ws b" using 1(2) Cons by simp
    moreover have "v \<notin> insert b (set ws)" using d Cons by auto
    moreover have "pv i \<notin> insert v (set ws)"
      using d Cons unfolding pi by (cases us rule: rev_cases) auto
    ultimately have "chain_to (nx(pv i := v)) (pv(v := pv i)) v ws b" by (simp add: path_nx path_pv)
    then show ?thesis using u nv Cons by (simp add: path_append)
  qed
qed

lemma path_front:
  assumes p: "chain_to nx pv a ys b" and d: "distinct ys" "i \<notin> set ys" "i \<noteq> a" "i \<noteq> b" "a \<notin> set ys" "b \<notin> set ys"
  shows "chain_to (nx(i := nx a, a := i)) (pv(i := a, nx a := i)) a (i # ys) b"
proof (cases ys)
  case Nil
  then show ?thesis using assms by auto
next
  case (Cons y zs)
  have y: "nx a = y" "chain_to nx pv y zs b" using p Cons by auto
  have "chain_to (nx(i := y, a := i)) (pv(i := a, y := i)) y zs b"
    using y(2) d Cons by (subst path_nx path_pv; simp)+
  then show ?thesis using Cons y d by auto
qed


subsection \<open>The scans and the moves on the list\<close>

lemma find_cached_run:
  "chain_to (nxt (bufs s)) pv a xs bhead \<Longrightarrow> set xs \<subseteq> {..<NBUF} \<Longrightarrow> length (bufs s) = NBUF + 1 \<Longrightarrow> length xs < n \<Longrightarrow>
   find_cached n dev bno (hd (xs @ [bhead])) s =
     Ok (find (\<lambda>i. bdev (bufs s ! i) = dev \<and> blockno (bufs s ! i) = bno) xs) s"
proof (induction xs arbitrary: a n)
  case Nil
  then show ?case by (cases n) auto
next
  case (Cons x xs)
  obtain m where n: "n = Suc m" using Cons.prems(4) by (cases n) auto
  have "nxt (bufs s) x = hd (xs @ [bhead])" 
    using Cons.prems(1) by (intro path_first [where nx = "nxt (bufs s)" and pv = pv]) simp
  then have "bnext (bufs s ! x) = hd (xs @ [bhead])" by (simp add: nxt_def)
  then show ?case using Cons n by (auto simp: less_Suc_eq)
qed

lemma find_unused_run:
  "chain_to nx (prv (bufs s)) bhead xs b \<Longrightarrow> set xs \<subseteq> {..<NBUF} \<Longrightarrow> length (bufs s) = NBUF + 1 \<Longrightarrow> length xs < n \<Longrightarrow>
   find_unused n (bprev (bufs s ! b)) s = Ok (find (\<lambda>i. refcnt (bufs s ! i) = 0) (rev xs)) s"
proof (induction xs arbitrary: b n rule: rev_induct)
  case Nil
  then show ?case by (cases n) (auto simp: prv_def)
next
  case (snoc x xs)
  obtain m where n: "n = Suc m" using snoc.prems(4) by (cases n) auto
  have p: "chain_to nx (prv (bufs s)) bhead xs x" "prv (bufs s) b = x"
    using snoc.prems(1) by (simp_all add: path_append)
  then have "bprev (bufs s ! b) = x" by (simp add: prv_def)
  show ?case using snoc.IH [OF p(1), of m] snoc.prems n \<open>bprev (bufs s ! b) = x\<close>
    by (auto simp: less_Suc_eq)
qed

text \<open>The body of a buffer, without its links.\<close>

definition core :: "buf \<Rightarrow> buf" where
  "core b = b\<lparr>bprev := 0, bnext := 0\<rparr>"

lemma core_simps [simp]: "core (b\<lparr>bprev := x\<rparr>) = core b" "core (b\<lparr>bnext := x\<rparr>) = core b" "core (core b) = core b"
  by (cases b; simp add: core_def)+

lemma coreD:
  assumes "core a = core b"
  shows "bvalid a = bvalid b" "bdev a = bdev b" "blockno a = blockno b" "block_lock a = block_lock b"
    "refcnt a = refcnt b" "bdata a = bdata b"
  using assms by (cases a; cases b; simp add: core_def)+

definition relink :: "buf list \<Rightarrow> nat \<Rightarrow> buf list" where
  "relink B i =
     (let n = bnext (B ! i);
          B = B[n := (B ! n)\<lparr>bprev := bprev (B ! i)\<rparr>];
          p = bprev (B ! i);
          B = B[p := (B ! p)\<lparr>bnext := bnext (B ! i)\<rparr>];
          h = bnext (B ! bhead);
          B = B[i := (B ! i)\<lparr>bnext := h\<rparr>];
          B = B[i := (B ! i)\<lparr>bprev := bhead\<rparr>];
          B = B[h := (B ! h)\<lparr>bprev := i\<rparr>]
      in B[bhead := (B ! bhead)\<lparr>bnext := i\<rparr>])"

lemma core_update: "core (b) = core (B ! j) \<Longrightarrow> core (B[j := b] ! k) = core (B ! k)"
  by (cases "j = k"; cases "k < length B") (auto simp: list_update_beyond)

lemma relink_core: "core (relink B i ! k) = core (B ! k)"
  by (simp add: relink_def Let_def core_update)

lemma relink_length [simp]: "length (relink B i) = length B"
  by (simp add: relink_def Let_def)

lemma lru_range:
  assumes "lru B xs" and "i < NBUF"
  shows "bnext (B ! i) \<le> NBUF" "bprev (B ! i) \<le> NBUF" "bnext (B ! i) \<noteq> i" "bprev (B ! i) \<noteq> i"
proof -
  have "i \<in> set xs" using assms by (simp add: lru_def)
  then obtain us vs where x: "xs = us @ i # vs" by (meson split_list)
  have p: "chain_to (nxt B) (prv B) bhead us i" "chain_to (nxt B) (prv B) i vs bhead"
    using assms(1) x by (auto simp: lru_def path_append)
  have n: "bnext (B ! i) = hd (vs @ [bhead])" using path_first [OF p(2)] by (simp add: nxt_def)
  have q: "bprev (B ! i) = last (bhead # us)" using path_last [OF p(1)] by (simp add: prv_def)
  have r: "set xs = {..<NBUF}" "distinct xs" using assms(1) by (auto simp: lru_def)
  have v: "x \<in> set vs \<Longrightarrow> x < NBUF \<and> x \<noteq> i" and u: "x \<in> set us \<Longrightarrow> x < NBUF \<and> x \<noteq> i" for x
    using r x by auto
  show "bnext (B ! i) \<le> NBUF" "bnext (B ! i) \<noteq> i"
    using v [of "hd vs"] assms(2) unfolding n by (cases vs; force)+
  show "bprev (B ! i) \<le> NBUF" "bprev (B ! i) \<noteq> i"
    using u [of "last us"] assms(2) unfolding q by (cases us rule: rev_cases; force)+
qed

lemma relink_lru:
  assumes l: "lru B xs" and i: "i < NBUF"
  shows "lru (relink B i) (i # remove1 i xs)"
proof -
  have "i \<in> set xs" using assms by (simp add: lru_def)
  then obtain us vs where x: "xs = us @ i # vs" by (meson split_list)
  have d: "distinct (us @ i # vs)" "set (us @ i # vs) = {..<NBUF}" using l x by (auto simp: lru_def)
  have rm: "remove1 i xs = us @ vs" using d x by (auto simp: remove1_append)
  have len: "length B = NBUF + 1" using l by (simp add: lru_def)
  note R = lru_range [OF l i]
  let ?nx = "nxt B" and ?pv = "prv B"
  have chain_to: "chain_to ?nx ?pv bhead (us @ i # vs) bhead" using l x by (simp add: lru_def)
  have nin: "bhead \<notin> set (us @ i # vs)" using d by simp
  define nx where "nx = ?nx(?pv i := ?nx i)"
  define pv where "pv = ?pv(?nx i := ?pv i)"
  have 1: "chain_to nx pv bhead (us @ vs) bhead"
    unfolding nx_def pv_def by (rule path_unlink [OF chain_to d(1) nin nin])
  have 2: "chain_to (nx(i := nx bhead, bhead := i)) (pv(i := bhead, nx bhead := i)) bhead (i # us @ vs) bhead"
    by (rule path_front [OF 1]) (use d nin i in auto)
  define B1 where "B1 = B[bnext (B ! i) := (B ! bnext (B ! i))\<lparr>bprev := bprev (B ! i)\<rparr>]"
  define B2 where "B2 = B1[bprev (B1 ! i) := (B1 ! bprev (B1 ! i))\<lparr>bnext := bnext (B1 ! i)\<rparr>]"
  have b1: "B1 ! i = B ! i" "length B1 = NBUF + 1" using R len by (simp_all add: B1_def)
  have n1: "nxt B1 = ?nx" "prv B1 = pv"
    using R len by (auto simp: B1_def pv_def nxt_def prv_def nth_list_update fun_eq_iff)
  have n2: "nxt B2 = nx" "prv B2 = pv" "length B2 = NBUF + 1"
    using R len b1 n1 by (auto simp: B2_def nx_def nxt_def prv_def nth_list_update fun_eq_iff)
  have hb: "bnext (B2 ! bhead) = nx bhead" using n2 by (metis nxt_def)
  have hr: "nx bhead < NBUF + 1" "nx bhead \<noteq> i"
  proof -
    have h: "nx bhead = hd ((us @ vs) @ [bhead])" using path_first [OF 1] .
    have m: "x \<in> set (us @ vs) \<Longrightarrow> x < NBUF \<and> x \<noteq> i" for x using d by auto
    show "nx bhead < NBUF + 1" "nx bhead \<noteq> i"
      using m [of "hd (us @ vs)"] i unfolding h by (cases "us @ vs"; force)+
  qed
  have "relink B i = (let B = B2; h = bnext (B ! bhead); B = B[i := (B ! i)\<lparr>bnext := h\<rparr>]; B = B[i := (B ! i)\<lparr>bprev := bhead\<rparr>];
      B = B[h := (B ! h)\<lparr>bprev := i\<rparr>] in B[bhead := (B ! bhead)\<lparr>bnext := i\<rparr>])"
    by (simp only: relink_def Let_def B2_def B1_def)
  then have "relink B i = (let B = B2; B = B[i := (B ! i)\<lparr>bnext := nx bhead\<rparr>]; B = B[i := (B ! i)\<lparr>bprev := bhead\<rparr>];
      B = B[nx bhead := (B ! nx bhead)\<lparr>bprev := i\<rparr>] in B[bhead := (B ! bhead)\<lparr>bnext := i\<rparr>])"
    by (simp only: Let_def hb)
  moreover have "nxt (let B = B2; B = B[i := (B ! i)\<lparr>bnext := nx bhead\<rparr>]; B = B[i := (B ! i)\<lparr>bprev := bhead\<rparr>];
      B = B[nx bhead := (B ! nx bhead)\<lparr>bprev := i\<rparr>] in B[bhead := (B ! bhead)\<lparr>bnext := i\<rparr>]) = nx(i := nx bhead, bhead := i)"
    using n2 i hr by (auto simp: Let_def nxt_def nth_list_update fun_eq_iff)
  moreover have "prv (let B = B2; B = B[i := (B ! i)\<lparr>bnext := nx bhead\<rparr>]; B = B[i := (B ! i)\<lparr>bprev := bhead\<rparr>];
      B = B[nx bhead := (B ! nx bhead)\<lparr>bprev := i\<rparr>] in B[bhead := (B ! bhead)\<lparr>bnext := i\<rparr>]) = pv(i := bhead, nx bhead := i)"
    using n2 i hr by (auto simp: Let_def prv_def nth_list_update fun_eq_iff)
  ultimately have "chain_to (nxt (relink B i)) (prv (relink B i)) bhead (i # us @ vs) bhead" using 2 by simp
  then show ?thesis using d len i by (auto simp: lru_def rm)
qed


subsection \<open>What the routines do to the buffers\<close>

definition hit :: "buf list \<Rightarrow> u32 \<Rightarrow> u32 \<Rightarrow> nat \<Rightarrow> bool" where
  "hit B dev bno i \<longleftrightarrow> bdev (B ! i) = dev \<and> blockno (B ! i) = bno"

lemma lru_scan:
  assumes "lru (bufs s) xs"
  shows "find_cached (NBUF + 1) dev bno (bnext (bufs s ! bhead)) s = Ok (find (hit (bufs s) dev bno) xs) s"
    and "find_unused (NBUF + 1) (bprev (bufs s ! bhead)) s = Ok (find (\<lambda>i. refcnt (bufs s ! i) = 0) (rev xs)) s"
proof -
  have l: "length (bufs s) = NBUF + 1" "distinct xs" "set xs = {..<NBUF}"
    "chain_to (nxt (bufs s)) (prv (bufs s)) bhead xs bhead"
    using assms by (auto simp: lru_def)
  have n: "length xs < NBUF + 1" using distinct_card [OF l(2)] l(3) by simp
  have h: "bnext (bufs s ! bhead) = hd (xs @ [bhead])" using path_first [OF l(4)] by (simp add: nxt_def)
  show "find_cached (NBUF + 1) dev bno (bnext (bufs s ! bhead)) s = Ok (find (hit (bufs s) dev bno) xs) s"
    using find_cached_run [OF l(4) _ l(1) n] l(3) unfolding h hit_def by simp
  show "find_unused (NBUF + 1) (bprev (bufs s ! bhead)) s = Ok (find (\<lambda>i. refcnt (bufs s ! i) = 0) (rev xs)) s"
    using find_unused_run [OF l(4) _ l(1) n] l(3) by simp
qed

lemma find_in: "find P xs = Some x \<Longrightarrow> x \<in> set xs \<and> P x"
  by (auto simp: find_Some_iff)

lemma bget_hit:
  assumes c: "calm me s" and l: "lru (bufs s) xs" and f: "find (hit (bufs s) dev bno) xs = Some i"
    and n: "\<not> slocked (block_lock (bufs s ! i))"
  shows "bget dev bno s = Ok i (set_buf s i ((bufs s ! i)\<lparr>refcnt := refcnt (bufs s ! i) + 1, block_lock := blocked_by s me\<rparr>))"
proof -
  have i: "i < length (bufs s)" using find_in [OF f] l by (auto simp: lru_def)
  have len: "bhead < length (bufs s)" using l by (simp add: lru_def)
  let ?k = "s\<lparr>kcpu := cpu_acq LBcache (kcpu s)\<rparr>"
  have sc: "find_cached (NBUF + 1) dev bno (bnext (bufs s ! bhead)) ?k = Ok (Some i) ?k"
    using lru_scan(1) [of ?k xs] l f by simp
  let ?b = "(bufs s ! i)\<lparr>refcnt := refcnt (bufs s ! i) + 1\<rparr>"
  let ?t = "set_buf s i ?b"
  have ct: "calm me ?t" using c by (rule calm_same) simp_all
  have "acquiresleep (SBuf i) ?t = Ok () (set_buf ?t i ((bufs ?t ! i)\<lparr>block_lock := blocked_by ?t me\<rparr>))"
    by (rule acquiresleep_buf [OF ct]) (use i n in simp_all)
  then have as: "acquiresleep (SBuf i) ?t = Ok () (set_buf s i (?b\<lparr>block_lock := blocked_by s me\<rparr>))"
    using i by (simp add: blocked_by_def)
  show ?thesis
    using calmD(7) [OF c] calm_locked [OF c] i len sc as by (simp add: bget_def)
qed

lemma bget_miss:
  assumes c: "calm me s" and l: "lru (bufs s) xs" and f: "find (hit (bufs s) dev bno) xs = None"
    and u: "find (\<lambda>i. refcnt (bufs s ! i) = 0) (rev xs) = Some i" and n: "\<not> slocked (block_lock (bufs s ! i))"
  shows "bget dev bno s = Ok i (set_buf s i ((bufs s ! i)\<lparr>bdev := dev, blockno := bno, bvalid := False, refcnt := 1,
    block_lock := blocked_by s me\<rparr>))"
proof -
  have i: "i < length (bufs s)" using find_in [OF u] l by (auto simp: lru_def)
  have len: "bhead < length (bufs s)" using l by (simp add: lru_def)
  let ?k = "s\<lparr>kcpu := cpu_acq LBcache (kcpu s)\<rparr>"
  have sc: "find_cached (NBUF + 1) dev bno (bnext (bufs s ! bhead)) ?k = Ok None ?k"
    "find_unused (NBUF + 1) (bprev (bufs s ! bhead)) ?k = Ok (Some i) ?k"
    using lru_scan [of ?k xs] l f u by simp_all
  let ?b = "(bufs s ! i)\<lparr>bdev := dev, blockno := bno, bvalid := False, refcnt := 1\<rparr>"
  let ?t = "set_buf s i ?b"
  have ct: "calm me ?t" using c by (rule calm_same) simp_all
  have "acquiresleep (SBuf i) ?t = Ok () (set_buf ?t i ((bufs ?t ! i)\<lparr>block_lock := blocked_by ?t me\<rparr>))"
    by (rule acquiresleep_buf [OF ct]) (use i n in simp_all)
  then have as: "acquiresleep (SBuf i) ?t = Ok () (set_buf s i (?b\<lparr>block_lock := blocked_by s me\<rparr>))"
    using i by (simp add: blocked_by_def)
  show ?thesis
    using calmD(7) [OF c] calm_locked [OF c] i len sc as by (simp add: bget_def)
qed

text \<open>The list surgery of \<open>brelse\<close> is \<open>relink\<close>.\<close>

lemma surgery_run:
  assumes l: "lru B xs" and i: "i < NBUF" and t: "bufs t = B"
  shows "seq (set_prev (bnext (B ! i)) (bprev (B ! i)))
      (bnd (buf_get i) (\<lambda>b. seq (set_next (bprev b) (bnext b)) (link_front i))) t = Ok () (t\<lparr>bufs := relink B i\<rparr>)"
proof -
  have len: "length B = NBUF + 1" using l by (simp add: lru_def)
  note R = lru_range [OF l i]
  define B1 where "B1 = B[bnext (B ! i) := (B ! bnext (B ! i))\<lparr>bprev := bprev (B ! i)\<rparr>]"
  define B2 where "B2 = B1[bprev (B1 ! i) := (B1 ! bprev (B1 ! i))\<lparr>bnext := bnext (B1 ! i)\<rparr>]"
  have e1: "B1 ! i = B ! i" "length B1 = NBUF + 1" using R len by (simp_all add: B1_def)
  have e2: "length B2 = NBUF + 1" using e1 by (simp add: B2_def)
  have hn: "bnext (B2 ! bhead) \<le> NBUF"
  proof -
    have "bnext (B ! bhead) \<le> NBUF"
    proof -
      have p: "chain_to (nxt B) (prv B) bhead xs bhead" "set xs = {..<NBUF}" using l by (auto simp: lru_def)
      have "nxt B bhead = hd (xs @ [bhead])" using path_first [OF p(1)] .
      moreover have "hd (xs @ [bhead]) \<in> insert bhead (set xs)" by (cases xs) auto
      ultimately have "nxt B bhead \<in> insert bhead {..<NBUF}" using p(2) by simp
      then show ?thesis by (auto simp: nxt_def)
    qed
    then show ?thesis using R i by (auto simp: B2_def B1_def nth_list_update len)
  qed
  have s1: "set_prev (bnext (B ! i)) (bprev (B ! i)) t = Ok () (t\<lparr>bufs := B1\<rparr>)"
    using R(1) len t by (simp add: set_prev_def B1_def)
  have s2: "set_next (bprev (B1 ! i)) (bnext (B1 ! i)) (t\<lparr>bufs := B1\<rparr>) = Ok () (t\<lparr>bufs := B2\<rparr>)"
    using R(2) e1 by (simp add: set_next_def B2_def)
  have s3: "link_front i (t\<lparr>bufs := B2\<rparr>) = Ok () (t\<lparr>bufs :=
      (let h = bnext (B2 ! bhead); B = B2[i := (B2 ! i)\<lparr>bnext := h\<rparr>]; B = B[i := (B ! i)\<lparr>bprev := bhead\<rparr>];
        B = B[h := (B ! h)\<lparr>bprev := i\<rparr>] in B[bhead := (B ! bhead)\<lparr>bnext := i\<rparr>])\<rparr>)"
    using hn i e2 by (simp add: link_front_def set_next_def set_prev_def Let_def)
  have rl: "relink B i = (let h = bnext (B2 ! bhead); B = B2[i := (B2 ! i)\<lparr>bnext := h\<rparr>]; B = B[i := (B ! i)\<lparr>bprev := bhead\<rparr>];
        B = B[h := (B ! h)\<lparr>bprev := i\<rparr>] in B[bhead := (B ! bhead)\<lparr>bnext := i\<rparr>])"
    by (simp only: relink_def Let_def B2_def B1_def)
  have "i < length B1" using e1 i by simp
  then show ?thesis using s1 s2 s3 unfolding rl by simp
qed

lemma lru_cong:
  assumes "lru B xs" and "length C = length B" and "\<And>k. bnext (C ! k) = bnext (B ! k)" and "\<And>k. bprev (C ! k) = bprev (B ! k)"
  shows "lru C xs"
proof -
  have "nxt C = nxt B" "prv C = prv B" using assms by (simp_all add: nxt_def prv_def fun_eq_iff)
  then show ?thesis using assms by (simp add: lru_def)
qed

lemma lru_body:
  assumes "lru B xs" and "bnext b = bnext (B ! i)" and "bprev b = bprev (B ! i)"
  shows "lru (B[i := b]) xs"
proof (cases "i < length B")
  case True
  then show ?thesis using assms by (intro lru_cong [OF assms(1)]) (auto simp: nth_list_update)
qed (use assms in \<open>simp add: list_update_beyond\<close>)

definition drop_ref :: "buf \<Rightarrow> buf" where
  "drop_ref b = b\<lparr>block_lock := \<lparr>slocked = False, slpid = 0\<rparr>, refcnt := refcnt b - 1\<rparr>"

lemma brelse_run:
  assumes c: "calm me s" and l: "lru (bufs s) xs" and i: "i < NBUF" and h: "block_lock (bufs s ! i) = blocked_by s me"
  shows "brelse i s = Ok () (s\<lparr>procs := woken (CSleep (SBuf i)) s,
    bufs := (let B = (bufs s)[i := drop_ref (bufs s ! i)] in if refcnt (bufs s ! i) = 1 then relink B i else B)\<rparr>)"
proof -
  have len: "length (bufs s) = NBUF + 1" using l by (simp add: lru_def)
  have il: "i < length (bufs s)" using i len by simp
  note H = holdingsleep_buf [OF c il] and R = releasesleep_buf [OF c il]
  define B where "B = (bufs s)[i := drop_ref (bufs s ! i)]"
  define u where "u = s\<lparr>procs := woken (CSleep (SBuf i)) s, kcpu := cpu_acq LBcache (kcpu s), bufs := B\<rparr>"
  have Bi: "B ! i = drop_ref (bufs s ! i)" using il by (simp add: B_def)
  have lB: "lru B xs" unfolding B_def using l by (rule lru_body) (simp_all add: drop_ref_def)
  have bu: "bufs u = B" by (simp add: u_def)
  define M where "M = seq (set_prev (bnext (B ! i)) (bprev (B ! i)))
      (bnd (buf_get i) (\<lambda>b. seq (set_next (bprev b) (bnext b)) (link_front i)))"
  have sg: "M u = Ok () (u\<lparr>bufs := relink B i\<rparr>)"
    unfolding M_def by (rule surgery_run [OF lB i bu])
  have hs: "holdingsleep (SBuf i) s = Ok True s" using H h by (simp add: blocked_by_def)
  have mid: "brelse i s = bnd (whenM (refcnt (B ! i) = 0) M) (\<lambda>_. release LBcache) u"
    unfolding M_def using hs R il calmD(7) [OF c] by (simp add: brelse_def u_def B_def drop_ref_def)
  have z: "refcnt (B ! i) = 0 \<longleftrightarrow> refcnt (bufs s ! i) = 1" by (simp add: Bi drop_ref_def)
  have rel: "release LBcache (u\<lparr>bufs := C\<rparr>) = Ok () (s\<lparr>procs := woken (CSleep (SBuf i)) s, bufs := C\<rparr>)" for C
    using calm_locked [OF c, of LBcache] by (simp add: u_def)
  show ?thesis
  proof (cases "refcnt (bufs s ! i) = 1")
    case True
    then show ?thesis using mid sg z rel [of "relink B i"] by (simp add: B_def [symmetric] Let_def)
  next
    case False
    then show ?thesis using mid z rel [of B] bu by (simp add: B_def [symmetric] Let_def u_def)
  qed
qed

end
