(* ===== verification/Log.thy ===== *)
theory Log
  imports Bio
begin

section \<open>The write-ahead log (\<^verbatim>\<open>kernel/log.c\<close>)\<close>

text \<open>
  Transactions of several system calls: \<open>begin_op\<close> reserves room for ten blocks, \<open>log_write\<close> records
  a modified buffer and pins it, the last \<open>end_op\<close> commits: blocks to the log area, the header (the
  commit point), blocks to their homes, the empty header.  On disk the header is \<open>n\<close> and the block
  numbers, little-endian 32-bit words.
\<close>

subsection \<open>Little-endian words in a block\<close>

definition get32 :: "u8 list \<Rightarrow> nat \<Rightarrow> u32" where
  "get32 d k = word_rcat [d ! (k + 3), d ! (k + 2), d ! (k + 1), d ! k]"

definition bytes32 :: "u32 \<Rightarrow> u8 list" where
  "bytes32 w = [ucast w, ucast (drop_bit 8 w), ucast (drop_bit 16 w), ucast (drop_bit 24 w)]"

definition get16 :: "u8 list \<Rightarrow> nat \<Rightarrow> u16" where
  "get16 d k = word_rcat [d ! (k + 1), d ! k]"

definition bytes16 :: "u16 \<Rightarrow> u8 list" where
  "bytes16 w = [ucast w, ucast (drop_bit 8 w)]"

text \<open>Overwrites the bytes from \<open>k\<close> on; the caller stays within the block.\<close>

definition put_bytes :: "nat \<Rightarrow> u8 list \<Rightarrow> u8 list \<Rightarrow> u8 list" where
  "put_bytes k bs d = take k d @ bs @ drop (k + length bs) d"

abbreviation put32 :: "nat \<Rightarrow> u32 \<Rightarrow> u8 list \<Rightarrow> u8 list" where
  "put32 k w \<equiv> put_bytes k (bytes32 w)"

abbreviation put16 :: "nat \<Rightarrow> u16 \<Rightarrow> u8 list \<Rightarrow> u8 list" where
  "put16 k w \<equiv> put_bytes k (bytes16 w)"

definition bdata_mod :: "nat \<Rightarrow> (u8 list \<Rightarrow> u8 list) \<Rightarrow> unit km" where
  "bdata_mod i f = buf_mod i (\<lambda>b. b\<lparr>bdata := f (bdata b)\<rparr>)"

definition bdata_get :: "nat \<Rightarrow> u8 list km" where
  "bdata_get i = bnd (buf_get i) (\<lambda>b. ret (bdata b))"

subsection \<open>The log's routines\<close>

definition lg_mod :: "(log \<Rightarrow> log) \<Rightarrow> unit km" where
  "lg_mod f = modify (\<lambda>s. s\<lparr>lg := f (lg s)\<rparr>)"

definition lh_get :: "nat \<Rightarrow> u32 km" where
  "lh_get i =
     bnd (gets (\<lambda>s. lh_block (lg s))) (\<lambda>bl.
     seq (defined_if (i < length bl)) (ret (bl ! i)))"

definition lh_set :: "nat \<Rightarrow> u32 \<Rightarrow> unit km" where
  "lh_set i v =
     bnd (gets (\<lambda>s. lh_block (lg s))) (\<lambda>bl.
     seq (defined_if (i < length bl))
         (lg_mod (\<lambda>l. l\<lparr>lh_block := bl[i := v]\<rparr>)))"

definition install_one :: "bool \<Rightarrow> nat \<Rightarrow> unit km" where
  "install_one recovering tail =
     bnd (gets lg) (\<lambda>l.
     bnd (bread (lg_dev l) (lg_start l + of_nat tail + 1)) (\<lambda>lbuf.
     bnd (lh_get tail) (\<lambda>bno.
     bnd (bread (lg_dev l) bno) (\<lambda>dbuf.
     bnd (bdata_get lbuf) (\<lambda>d.
     seq (bdata_mod dbuf (\<lambda>_. d)) (
     seq (bwrite dbuf) (
     seq (whenM (\<not> recovering) (bunpin dbuf)) (
     seq (brelse lbuf)
         (brelse dbuf)))))))))"

definition install_trans :: "bool \<Rightarrow> unit km" where
  "install_trans recovering =
     bnd (gets (\<lambda>s. lh_n (lg s))) (\<lambda>n.
     foreach [0..<nat n] (install_one recovering))"

definition read_head :: "unit km" where
  "read_head =
     bnd (gets lg) (\<lambda>l.
     bnd (bread (lg_dev l) (lg_start l)) (\<lambda>i.
     bnd (bdata_get i) (\<lambda>d.
     seq (lg_mod (\<lambda>l. l\<lparr>lh_n := sint (get32 d 0)\<rparr>)) (
     seq (foreach [0..<nat (sint (get32 d 0))] (\<lambda>k. lh_set k (get32 d (4 + 4 * k))))
         (brelse i)))))"

definition write_head :: "unit km" where
  "write_head =
     bnd (gets lg) (\<lambda>l.
     bnd (bread (lg_dev l) (lg_start l)) (\<lambda>i.
     seq (bdata_mod i (put32 0 (word_of_int (lh_n l)))) (
     seq (foreach [0..<nat (lh_n l)] (\<lambda>k.
            bnd (lh_get k) (\<lambda>v. bdata_mod i (put32 (4 + 4 * k) v)))) (
     seq (bwrite i)
         (brelse i)))))"

definition recover_from_log :: "unit km" where
  "recover_from_log =
     seq read_head (
     seq (install_trans True) (
     seq (lg_mod (\<lambda>l. l\<lparr>lh_n := 0\<rparr>))
         write_head))"

definition initlog :: "u32 \<Rightarrow> superblock \<Rightarrow> unit km" where
  "initlog dev sblk =
     seq (initlock LLog) (
     seq (lg_mod (\<lambda>l. l\<lparr>lg_start := sb_logstart sblk\<rparr>)) (
     seq (lg_mod (\<lambda>l. l\<lparr>lg_size := sint (sb_nlog sblk)\<rparr>)) (
     seq (lg_mod (\<lambda>l. l\<lparr>lg_dev := dev\<rparr>))
         recover_from_log)))"

definition begin_op :: "unit km" where
  "begin_op =
     seq (acquire LLog) (
     bnd (gets lg) (\<lambda>l.
     if lg_committing l then sleep_wait CLog LLog
     else if lh_n l + (lg_outstanding l + 1) * MAXOPBLOCKS > LOGSIZE then sleep_wait CLog LLog
     else
       seq (lg_mod (\<lambda>l. l\<lparr>lg_outstanding := lg_outstanding l + 1\<rparr>))
           (release LLog)))"

definition write_log_one :: "nat \<Rightarrow> unit km" where
  "write_log_one tail =
     bnd (gets lg) (\<lambda>l.
     bnd (bread (lg_dev l) (lg_start l + of_nat tail + 1)) (\<lambda>to.
     bnd (lh_get tail) (\<lambda>bno.
     bnd (bread (lg_dev l) bno) (\<lambda>frm.
     bnd (bdata_get frm) (\<lambda>d.
     seq (bdata_mod to (\<lambda>_. d)) (
     seq (bwrite to) (
     seq (brelse frm)
         (brelse to))))))))"

definition write_log :: "unit km" where
  "write_log =
     bnd (gets (\<lambda>s. lh_n (lg s))) (\<lambda>n.
     foreach [0..<nat n] write_log_one)"

definition commit :: "unit km" where
  "commit =
     bnd (gets (\<lambda>s. lh_n (lg s))) (\<lambda>n.
     whenM (n > 0)
       (seq write_log (
        seq write_head (
        seq (install_trans False) (
        seq (lg_mod (\<lambda>l. l\<lparr>lh_n := 0\<rparr>))
            write_head)))))"

definition end_op :: "unit km" where
  "end_op =
     seq (acquire LLog) (
     seq (lg_mod (\<lambda>l. l\<lparr>lg_outstanding := lg_outstanding l - 1\<rparr>)) (
     bnd (gets lg) (\<lambda>l.
     seq (guard_panic (lg_committing l) ''log.committing'') (
     bnd (if lg_outstanding l = 0 then
            seq (lg_mod (\<lambda>l. l\<lparr>lg_committing := True\<rparr>)) (ret True)
          else seq (wakeup CLog) (ret False)) (\<lambda>do_commit.
     seq (release LLog) (
     whenM do_commit
       (seq commit (
        seq (acquire LLog) (
        seq (lg_mod (\<lambda>l. l\<lparr>lg_committing := False\<rparr>)) (
        seq (wakeup CLog)
            (release LLog)))))))))))"

text \<open>The slot that \<open>log_write\<close> uses: the block's own when it is in the log already.\<close>

definition log_slot :: "log \<Rightarrow> u32 \<Rightarrow> nat" where
  "log_slot l bno = (case first_idx (\<lambda>b. b = bno) (take (nat (lh_n l)) (lh_block l)) of
     Some i \<Rightarrow> i | None \<Rightarrow> nat (lh_n l))"

definition log_write :: "nat \<Rightarrow> unit km" where
  "log_write i =
     seq (acquire LLog) (
     bnd (gets lg) (\<lambda>l.
     seq (guard_panic (lh_n l \<ge> LOGSIZE \<or> lh_n l \<ge> lg_size l - 1) ''too big a transaction'') (
     seq (guard_panic (lg_outstanding l < 1) ''log_write outside of trans'') (
     bnd (buf_get i) (\<lambda>b.
     let k = log_slot l (blockno b) in
     seq (lh_set k (blockno b)) (
     seq (whenM (int k = lh_n l)
            (seq (bpin i)
                 (lg_mod (\<lambda>l. l\<lparr>lh_n := lh_n l + 1\<rparr>))))
         (release LLog)))))))"

end
