(* ===== verification/Console.thy ===== *)
theory Console
  imports Pipe
begin

section \<open>UART, kernel printf and console (\<^verbatim>\<open>kernel/uart.c\<close>, \<^verbatim>\<open>printf.c\<close>, \<^verbatim>\<open>console.c\<close>)\<close>

text \<open>
  The UART accepts \<open>thr_ready\<close> more bytes before its line status shows it busy; what it was given
  is \<open>thr_out\<close>, what has arrived \<open>rhr_in\<close>.  A routine that polls the line status waits until the device
  is ready.  A CPU that finds \<^verbatim>\<open>panicked\<close> set spins for ever: a panic ends the run in the model.
\<close>

definition uart_mod :: "(uart \<Rightarrow> uart) \<Rightarrow> unit km" where
  "uart_mod f = modify (\<lambda>s. s\<lparr>uart_st := f (uart_st s)\<rparr>)"

definition cons_mod :: "(console \<Rightarrow> console) \<Rightarrow> unit km" where
  "cons_mod f = modify (\<lambda>s. s\<lparr>cons := f (cons s)\<rparr>)"

abbreviation (input) "UART_TX_BUF_SIZE \<equiv> 32 :: u64"

subsection \<open>The UART driver\<close>

text \<open>The set-up writes of the control registers (1 IER, 2 FCR, 3 LCR) are recorded in order.\<close>

definition WriteReg :: "nat \<Rightarrow> u8 \<Rightarrow> unit km" where
  "WriteReg r v = uart_mod (\<lambda>u. u\<lparr>uart_regs := uart_regs u @ [(r, v)]\<rparr>)"

definition uartinit :: "unit km" where
  "uartinit =
     seq (WriteReg 1 0x00) (
     seq (WriteReg 3 0x80) (
     seq (WriteReg 0 0x03) (
     seq (WriteReg 1 0x00) (
     seq (WriteReg 3 0x03) (
     seq (WriteReg 2 0x07) (
     seq (WriteReg 1 0x03)
         (initlock LUart)))))))"

definition write_thr :: "u8 \<Rightarrow> unit km" where
  "write_thr c = uart_mod (\<lambda>u. u\<lparr>thr_out := thr_out u @ [c], thr_ready := thr_ready u - 1\<rparr>)"

text \<open>\<open>k\<close> is the number of bytes in the transmit buffer.\<close>

primrec uartstart_loop :: "nat \<Rightarrow> unit km" where
  "uartstart_loop 0 = ret ()"
| "uartstart_loop (Suc k) =
     bnd (gets uart_st) (\<lambda>u.
     if thr_ready u = 0 then ret ()
     else
       let c = tx_buf u ! unat (tx_r u mod UART_TX_BUF_SIZE) in
       seq (uart_mod (\<lambda>u. u\<lparr>tx_r := tx_r u + 1\<rparr>)) (
       seq (wakeup CUart) (
       seq (write_thr c)
           (uartstart_loop k))))"

definition uartstart :: "unit km" where
  "uartstart = bnd (gets uart_st) (\<lambda>u. uartstart_loop (unat (tx_w u - tx_r u)))"

definition uartputc :: "u8 \<Rightarrow> unit km" where
  "uartputc c =
     seq (acquire LUart) (
     bnd (gets uart_st) (\<lambda>u.
     if tx_w u = tx_r u + UART_TX_BUF_SIZE then sleep_wait CUart LUart
     else
       seq (uart_mod (\<lambda>u. u\<lparr>tx_buf := (tx_buf u)[unat (tx_w u mod UART_TX_BUF_SIZE) := c]\<rparr>)) (
       seq (uart_mod (\<lambda>u. u\<lparr>tx_w := tx_w u + 1\<rparr>)) (
       seq uartstart
           (release LUart)))))"

definition uartputc_sync :: "u8 \<Rightarrow> unit km" where
  "uartputc_sync c = seq kpush_off (seq (write_thr c) kpop_off)"

definition uartgetc :: "u8 option km" where
  "uartgetc =
     bnd (gets uart_st) (\<lambda>u.
     case rhr_in u of
       [] \<Rightarrow> ret None
     | c # cs \<Rightarrow> seq (uart_mod (\<lambda>u. u\<lparr>rhr_in := cs\<rparr>)) (ret (Some c)))"

subsection \<open>Printing\<close>

definition BACKSPACE :: int where
  "BACKSPACE = 0x100"

definition consputc :: "int \<Rightarrow> unit km" where
  "consputc c =
     (if c = BACKSPACE then
        seq (uartputc_sync 8) (seq (uartputc_sync 32) (uartputc_sync 8))
      else uartputc_sync (word_of_int c))"

function digits_rev :: "nat \<Rightarrow> nat \<Rightarrow> nat list" where
  "digits_rev b x = (if b < 2 then [] else x mod b # (if x div b = 0 then [] else digits_rev b (x div b)))"
  by pat_completeness auto
termination
  by (relation "measure snd") (auto simp: div_eq_0_iff)

declare digits_rev.simps [simp del]

definition digit_char :: "nat \<Rightarrow> u8" where
  "digit_char k = (if k < 10 then of_nat (48 + k) else of_nat (87 + k))"

text \<open>
  The digits, least significant first, and the sign go to a 16-byte array; more than 16
  characters are stored past its end.
\<close>

definition printint_buf :: "u64 \<Rightarrow> nat \<Rightarrow> bool \<Rightarrow> u8 list" where
  "printint_buf xx base sign =
     (let neg = sign \<and> sint xx < 0; x = (if neg then - xx else xx) in
      map digit_char (digits_rev base (unat x)) @ (if neg then [45] else []))"

definition printint :: "u64 \<Rightarrow> nat \<Rightarrow> bool \<Rightarrow> unit km" where
  "printint xx base sign =
     (let buf = printint_buf xx base sign in
      seq (defined_if (length buf \<le> 16))
          (foreach (rev buf) (\<lambda>c. consputc (uint c))))"

primrec printptr_loop :: "nat \<Rightarrow> u64 \<Rightarrow> unit km" where
  "printptr_loop 0 x = ret ()"
| "printptr_loop (Suc k) x =
     seq (consputc (uint (digit_char (unat (drop_bit 60 x)))))
         (printptr_loop k (push_bit 4 x))"

definition printptr :: "u64 \<Rightarrow> unit km" where
  "printptr x = seq (consputc 48) (seq (consputc 120) (printptr_loop 16 x))"

text \<open>
  An argument is a 64-bit slot or a string.  The conversions of \<open>printf\<close> read the next one:
  \<^verbatim>\<open>va_arg(ap, int)\<close> takes the low 32 bits, sign-extended by the parameter type of \<open>printint\<close>.
\<close>

datatype parg = PVal u64 | PStr "u8 list option"

definition arg_int :: "u64 \<Rightarrow> u64" where
  "arg_int v = scast (ucast v :: u32)"

text \<open>Byte \<open>k\<close> of the format, 0 from its end on; the next two only while the one before is not 0.\<close>

definition fmt_at :: "u8 list \<Rightarrow> nat \<Rightarrow> u8" where
  "fmt_at f k = (if k < length f then f ! k else 0)"

datatype conv = CDec bool bool | CHex bool | CPtr | CStr | CPercent | CEnd | CUnknown u8

text \<open>The conversion after a percent sign and the number of its characters.\<close>

definition conv_of :: "u8 list \<Rightarrow> conv \<times> nat" where
  "conv_of f =
     (let c0 = fmt_at f 0; c1 = (if c0 \<noteq> 0 then fmt_at f 1 else 0); c2 = (if c1 \<noteq> 0 then fmt_at f 2 else 0) in
      if c0 = 100 then (CDec False True, 1)
      else if c0 = 108 \<and> c1 = 100 then (CDec True True, 2)
      else if c0 = 108 \<and> c1 = 108 \<and> c2 = 100 then (CDec True True, 3)
      else if c0 = 117 then (CDec False False, 1)
      else if c0 = 108 \<and> c1 = 117 then (CDec True False, 2)
      else if c0 = 108 \<and> c1 = 108 \<and> c2 = 117 then (CDec True False, 3)
      else if c0 = 120 then (CHex False, 1)
      else if c0 = 108 \<and> c1 = 120 then (CHex True, 2)
      else if c0 = 108 \<and> c1 = 108 \<and> c2 = 120 then (CHex True, 3)
      else if c0 = 112 then (CPtr, 1)
      else if c0 = 115 then (CStr, 1)
      else if c0 = 37 then (CPercent, 1)
      else if c0 = 0 then (CEnd, 1)
      else (CUnknown c0, 1))"

definition put_str :: "u8 list \<Rightarrow> unit km" where
  "put_str s = foreach s (\<lambda>c. consputc (uint c))"

fun print_conv :: "conv \<Rightarrow> parg list \<Rightarrow> parg list km" where
  "print_conv (CDec long sign) (PVal v # as) = seq (printint (if long then v else arg_int v) 10 sign) (ret as)"
| "print_conv (CHex long) (PVal v # as) = seq (printint (if long then v else arg_int v) 16 False) (ret as)"
| "print_conv CPtr (PVal v # as) = seq (printptr v) (ret as)"
| "print_conv CStr (PStr (Some s) # as) = seq (put_str s) (ret as)"
| "print_conv CStr (PStr None # as) = seq (put_str [40, 110, 117, 108, 108, 41]) (ret as)"
| "print_conv CPercent as = seq (consputc 37) (ret as)"
| "print_conv (CUnknown c) as = seq (consputc 37) (seq (consputc (uint c)) (ret as))"
| "print_conv _ as = stuck"

function printf_loop :: "u8 list \<Rightarrow> parg list \<Rightarrow> unit km" where
  "printf_loop [] as = ret ()"
| "printf_loop (c # f) as =
     (if c \<noteq> 37 then seq (consputc (uint c)) (printf_loop f as)
      else if fst (conv_of f) = CEnd then ret ()
      else bnd (print_conv (fst (conv_of f)) as) (\<lambda>as. printf_loop (drop (snd (conv_of f)) f) as))"
  by pat_completeness auto
termination
  by (relation "measure (\<lambda>(f, as). length f)") auto

text \<open>\<open>printf\<close> after \<open>printfinit\<close>, when it takes its lock.\<close>

definition printf :: "u8 list \<Rightarrow> parg list \<Rightarrow> unit km" where
  "printf fmt as =
     seq (acquire LPr) (
     seq (printf_loop fmt as)
         (release LPr))"

definition bytes_of :: "string \<Rightarrow> u8 list" where
  "bytes_of s = map of_char s"

definition state_name :: "procstate \<Rightarrow> string" where
  "state_name st = (case st of UNUSED \<Rightarrow> ''unused'' | USED \<Rightarrow> ''used'' | SLEEPING \<Rightarrow> ''sleep ''
     | RUNNABLE \<Rightarrow> ''runble'' | RUNNING \<Rightarrow> ''run   '' | ZOMBIE \<Rightarrow> ''zombie'')"

definition procdump :: "unit km" where
  "procdump =
     seq (printf [10] []) (
     foreach [0..<NPROC] (\<lambda>i.
       bnd (proc_get i) (\<lambda>p.
       whenM (pstate p \<noteq> UNUSED)
         (seq (printf (bytes_of ''%d %s %s'') [PVal (word_of_int (pid p)),
                 PStr (Some (bytes_of (state_name (pstate p)))), PStr (Some (takeWhile (\<lambda>c. c \<noteq> 0) (pname p)))])
              (printf [10] [])))))"

subsection \<open>The console\<close>

abbreviation (input) "INPUT_BUF_SIZE \<equiv> 128 :: u32"

text \<open>\<open>k\<close> bytes are left to write, \<open>i\<close> are done.\<close>

primrec consolewrite_loop :: "nat \<Rightarrow> usrc \<Rightarrow> int \<Rightarrow> int km" where
  "consolewrite_loop 0 src i = ret i"
| "consolewrite_loop (Suc k) src i =
     bnd (either_copyin src 1) (\<lambda>r.
     if fst r = -1 then ret i
     else seq (uartputc (hd (snd r))) (consolewrite_loop k (src_skip 1 src) (i + 1)))"

definition consolewrite :: "usrc \<Rightarrow> int \<Rightarrow> int km" where
  "consolewrite src n = consolewrite_loop (nat n) src 0"

definition cons_next :: "console \<Rightarrow> u8" where
  "cons_next c = cons_buf c ! unat (cons_r c mod INPUT_BUF_SIZE)"

text \<open>
  \<open>n\<close> bytes are still wanted, of \<open>target\<close>.  The early return of a killed reader is \<open>None\<close>; a reader
  that sleeps goes on with the same \<open>n\<close>.
\<close>

primrec consoleread_loop :: "nat \<Rightarrow> udst \<Rightarrow> nat \<Rightarrow> nat option km" where
  "consoleread_loop 0 dst target = ret (Some 0)"
| "consoleread_loop (Suc n) dst target =
     bnd (gets cons) (\<lambda>c.
     if cons_r c = cons_w c then
       bnd mine (\<lambda>me.
       bnd (killed me) (\<lambda>v.
       if v \<noteq> 0 then seq (release LCons) (ret None) else sleep_wait CCons LCons))
     else
       let ch = cons_next c in
       seq (cons_mod (\<lambda>c. c\<lparr>cons_r := cons_r c + 1\<rparr>)) (
       if ch = 4 then
         seq (whenM (Suc n < target) (cons_mod (\<lambda>c. c\<lparr>cons_r := cons_r c - 1\<rparr>)))
             (ret (Some (Suc n)))
       else
         bnd (either_copyout dst [ch]) (\<lambda>r.
         if r = -1 then ret (Some (Suc n))
         else if ch = 10 then ret (Some n)
         else consoleread_loop n (dst_skip 1 dst) target)))"

definition consoleread :: "udst \<Rightarrow> int \<Rightarrow> int km" where
  "consoleread dst n =
     seq (acquire LCons) (
     if n \<le> 0 then seq (release LCons) (ret 0)
     else
       bnd (consoleread_loop (nat n) dst (nat n)) (\<lambda>r.
       case r of
         None \<Rightarrow> ret (-1)
       | Some left \<Rightarrow> seq (release LCons) (ret (n - int left))))"

primrec kill_line :: "nat \<Rightarrow> unit km" where
  "kill_line 0 = ret ()"
| "kill_line (Suc k) =
     bnd (gets cons) (\<lambda>c.
     if cons_e c \<noteq> cons_w c \<and> cons_buf c ! unat ((cons_e c - 1) mod INPUT_BUF_SIZE) \<noteq> 10 then
       seq (cons_mod (\<lambda>c. c\<lparr>cons_e := cons_e c - 1\<rparr>)) (
       seq (consputc BACKSPACE)
           (kill_line k))
     else ret ())"

definition cons_store :: "u8 \<Rightarrow> unit km" where
  "cons_store ch =
     seq (cons_mod (\<lambda>c. c\<lparr>cons_buf := (cons_buf c)[unat (cons_e c mod INPUT_BUF_SIZE) := ch],
            cons_e := cons_e c + 1\<rparr>)) (
     bnd (gets cons) (\<lambda>c.
     whenM (ch = 10 \<or> ch = 4 \<or> cons_e c - cons_r c = INPUT_BUF_SIZE)
       (seq (cons_mod (\<lambda>c. c\<lparr>cons_w := cons_e c\<rparr>))
            (wakeup CCons))))"

definition consoleintr :: "u8 \<Rightarrow> unit km" where
  "consoleintr ch =
     seq (acquire LCons) (
     bnd (gets cons) (\<lambda>c.
     seq (if ch = 16 then procdump
          else if ch = 21 then kill_line (unat (cons_e c - cons_w c))
          else if ch = 8 \<or> ch = 127 then
            whenM (cons_e c \<noteq> cons_w c)
              (seq (cons_mod (\<lambda>c. c\<lparr>cons_e := cons_e c - 1\<rparr>)) (consputc BACKSPACE))
          else
            whenM (ch \<noteq> 0 \<and> cons_e c - cons_r c < INPUT_BUF_SIZE)
              (let ch = (if ch = 13 then 10 else ch) in
               seq (consputc (uint ch)) (cons_store ch)))
         (release LCons)))"

definition consoleinit :: "unit km" where
  "consoleinit = seq (initlock LCons) uartinit"

primrec uartintr_loop :: "nat \<Rightarrow> unit km" where
  "uartintr_loop 0 = ret ()"
| "uartintr_loop (Suc k) =
     bnd uartgetc (\<lambda>c.
     case c of None \<Rightarrow> ret () | Some c \<Rightarrow> seq (consoleintr c) (uartintr_loop k))"

definition uartintr :: "unit km" where
  "uartintr =
     bnd (gets uart_st) (\<lambda>u.
     seq (uartintr_loop (length (rhr_in u))) (
     seq (acquire LUart) (
     seq uartstart
         (release LUart))))"

end
