(* ===== verification/Fs.thy ===== *)
theory Fs
  imports Log Console
begin

section \<open>The file system (\<^verbatim>\<open>kernel/fs.c\<close>)\<close>

text \<open>
  Blocks and their bitmap, inodes and their table, file contents, directories, path names.  An
  in-memory inode is its index in \<open>inodes\<close>; on disk an inode is 64 bytes (four 16-bit fields, the
  size, thirteen block numbers) and a directory entry 16 bytes (inode number, name).  A path is the
  bytes from the pointer to the end of its buffer.
\<close>

subsection \<open>The super block and the bitmap\<close>

definition readsb :: "u32 \<Rightarrow> unit km" where
  "readsb dev =
     bnd (bread dev 1) (\<lambda>i.
     bnd (bdata_get i) (\<lambda>d.
     seq (modify (\<lambda>s. s\<lparr>sb := \<lparr>sb_magic = get32 d 0, sb_size = get32 d 4, sb_nblocks = get32 d 8,
            sb_ninodes = get32 d 12, sb_nlog = get32 d 16, sb_logstart = get32 d 20,
            sb_inodestart = get32 d 24, sb_bmapstart = get32 d 28\<rparr>\<rparr>))
         (brelse i)))"

definition fsinit :: "u32 \<Rightarrow> unit km" where
  "fsinit dev =
     seq (readsb dev) (
     bnd (gets sb) (\<lambda>b.
     seq (guard_panic (sb_magic b \<noteq> FSMAGIC) ''invalid file system'')
         (initlog dev b)))"

definition bzero :: "u32 \<Rightarrow> u32 \<Rightarrow> unit km" where
  "bzero dev bno =
     bnd (bread dev bno) (\<lambda>i.
     seq (bdata_mod i (\<lambda>_. replicate BSIZE 0)) (
     seq (log_write i)
         (brelse i)))"

text \<open>The bit of block \<open>bi\<close> in the byte that holds it.\<close>

definition bmask :: "nat \<Rightarrow> u8" where
  "bmask bi = push_bit (bi mod 8) 1"

definition bit_used :: "u8 list \<Rightarrow> nat \<Rightarrow> bool" where
  "bit_used d bi \<longleftrightarrow> d ! (bi div 8) AND bmask bi \<noteq> 0"

definition balloc :: "u32 \<Rightarrow> u32 km" where
  "balloc dev =
     bnd (gets sb) (\<lambda>b.
     let size = unat (sb_size b) in
     bnd (search [0..<(size + 8191) div 8192] (\<lambda>g.
       bnd (bread dev (BBLOCK (of_nat (8192 * g)) b)) (\<lambda>i.
       bnd (bdata_get i) (\<lambda>d.
       case find (\<lambda>bi. \<not> bit_used d bi) [0..<min 8192 (size - 8192 * g)] of
         Some bi \<Rightarrow>
           seq (bdata_mod i (\<lambda>d. d[bi div 8 := d ! (bi div 8) OR bmask bi])) (
           seq (log_write i) (
           seq (brelse i) (
           seq (bzero dev (of_nat (8192 * g + bi)))
               (ret (Some (of_nat (8192 * g + bi)))))))
       | None \<Rightarrow> seq (brelse i) (ret None)))))
     (\<lambda>r. case r of Some a \<Rightarrow> ret a
        | None \<Rightarrow> seq (printf (bytes_of ''balloc: out of blocks'' @ [10]) []) (ret 0)))"

definition bfree :: "u32 \<Rightarrow> u32 \<Rightarrow> unit km" where
  "bfree dev b =
     bnd (gets sb) (\<lambda>sbl.
     bnd (bread dev (BBLOCK b sbl)) (\<lambda>i.
     bnd (bdata_get i) (\<lambda>d.
     let bi = unat (b mod BPB) in
     seq (guard_panic (\<not> bit_used d bi) ''freeing free block'') (
     seq (bdata_mod i (\<lambda>d. d[bi div 8 := d ! (bi div 8) AND NOT (bmask bi)])) (
     seq (log_write i)
         (brelse i))))))"

subsection \<open>Inodes\<close>

definition iinit :: "unit km" where
  "iinit =
     seq (initlock LItable) (
     foreach [0..<NINODE] (\<lambda>i. initsleeplock (SInode i)))"

definition iget :: "u32 \<Rightarrow> u32 \<Rightarrow> nat km" where
  "iget dev n =
     seq (acquire LItable) (
     bnd (gets inodes) (\<lambda>t.
     case first_idx (\<lambda>ip. iref ip > 0 \<and> idev ip = dev \<and> inum ip = n) t of
       Some i \<Rightarrow>
         seq (inode_mod i (\<lambda>ip. ip\<lparr>iref := iref ip + 1\<rparr>)) (
         seq (release LItable) (ret i))
     | None \<Rightarrow>
         (case first_idx (\<lambda>ip. iref ip = 0) t of
           None \<Rightarrow> panic ''iget: no inodes''
         | Some i \<Rightarrow>
             seq (inode_mod i (\<lambda>ip. ip\<lparr>idev := dev, inum := n, iref := 1, ivalid := False\<rparr>)) (
             seq (release LItable) (ret i)))))"

definition idup :: "nat \<Rightarrow> nat km" where
  "idup i =
     seq (acquire LItable) (
     seq (inode_mod i (\<lambda>ip. ip\<lparr>iref := iref ip + 1\<rparr>)) (
     seq (release LItable) (ret i)))"

text \<open>The on-disk inode at byte \<open>o\<close> of its block.\<close>

abbreviation dino_off :: "u32 \<Rightarrow> nat" where
  "dino_off n \<equiv> 64 * unat (n mod IPB)"

definition ialloc :: "u32 \<Rightarrow> u16 \<Rightarrow> nat option km" where
  "ialloc dev type =
     bnd (gets sb) (\<lambda>b.
     bnd (search [1..<unat (sb_ninodes b)] (\<lambda>n.
       bnd (bread dev (IBLOCK (of_nat n) b)) (\<lambda>i.
       bnd (bdata_get i) (\<lambda>d.
       let k = dino_off (of_nat n) in
       if get16 d k = 0 then
         seq (bdata_mod i (put_bytes k (replicate 64 0))) (
         seq (bdata_mod i (put16 k type)) (
         seq (log_write i) (
         seq (brelse i)
             (bnd (iget dev (of_nat n)) (\<lambda>j. ret (Some j))))))
       else seq (brelse i) (ret None)))))
     (\<lambda>r. case r of Some j \<Rightarrow> ret (Some j)
        | None \<Rightarrow> seq (printf (bytes_of ''ialloc: no inodes'' @ [10]) []) (ret None)))"

text \<open>The fields of an in-memory inode that live on disk, as the 64 bytes of a \<^verbatim>\<open>struct dinode\<close>.\<close>

definition dinode_bytes :: "inode \<Rightarrow> u8 list" where
  "dinode_bytes ip = bytes16 (itype ip) @ bytes16 (imajor ip) @ bytes16 (iminor ip) @ bytes16 (nlink ip) @
     bytes32 (isize ip) @ concat (map bytes32 (addrs ip))"

definition load_dinode :: "u8 list \<Rightarrow> nat \<Rightarrow> inode \<Rightarrow> inode" where
  "load_dinode d k ip = ip\<lparr>itype := get16 d k, imajor := get16 d (k + 2), iminor := get16 d (k + 4),
     nlink := get16 d (k + 6), isize := get32 d (k + 8),
     addrs := map (\<lambda>j. get32 d (k + 12 + 4 * j)) [0..<NDIRECT + 1]\<rparr>"

definition iupdate :: "nat \<Rightarrow> unit km" where
  "iupdate j =
     bnd (inode_get j) (\<lambda>ip.
     bnd (gets sb) (\<lambda>b.
     bnd (bread (idev ip) (IBLOCK (inum ip) b)) (\<lambda>i.
     seq (bdata_mod i (put_bytes (dino_off (inum ip)) (dinode_bytes ip))) (
     seq (log_write i)
         (brelse i)))))"

definition ilock_in :: "nat \<Rightarrow> unit km" where
  "ilock_in j =
     bnd (inode_get j) (\<lambda>ip.
     seq (guard_panic (iref ip < 1) ''ilock'') (
     seq (acquiresleep (SInode j)) (
     bnd (inode_get j) (\<lambda>ip.
     whenM (\<not> ivalid ip)
       (bnd (gets sb) (\<lambda>b.
        bnd (bread (idev ip) (IBLOCK (inum ip) b)) (\<lambda>i.
        bnd (bdata_get i) (\<lambda>d.
        seq (inode_mod j (load_dinode d (dino_off (inum ip)))) (
        seq (brelse i) (
        seq (inode_mod j (\<lambda>ip. ip\<lparr>ivalid := True\<rparr>)) (
        bnd (inode_get j) (\<lambda>ip.
        guard_panic (itype ip = 0) ''ilock: no type''))))))))))))"

definition iunlock_in :: "nat \<Rightarrow> unit km" where
  "iunlock_in j =
     bnd (holdingsleep (SInode j)) (\<lambda>h.
     seq (guard_panic (\<not> h) ''iunlock'') (
     bnd (inode_get j) (\<lambda>ip.
     seq (guard_panic (iref ip < 1) ''iunlock'')
         (releasesleep (SInode j)))))"

text \<open>The routines take a pointer, which they check.\<close>

definition ilock_p :: "nat option \<Rightarrow> unit km" where
  "ilock_p p = (case p of None \<Rightarrow> panic ''ilock'' | Some j \<Rightarrow> ilock_in j)"

definition iunlock_p :: "nat option \<Rightarrow> unit km" where
  "iunlock_p p = (case p of None \<Rightarrow> panic ''iunlock'' | Some j \<Rightarrow> iunlock_in j)"

subsection \<open>The blocks of a file\<close>

definition set_addr :: "nat \<Rightarrow> nat \<Rightarrow> u32 \<Rightarrow> unit km" where
  "set_addr j k a = inode_mod j (\<lambda>ip. ip\<lparr>addrs := (addrs ip)[k := a]\<rparr>)"

definition bmap :: "nat \<Rightarrow> u32 \<Rightarrow> u32 km" where
  "bmap j bn =
     bnd (inode_get j) (\<lambda>ip.
     if bn < 12 then
       (let a = addrs ip ! unat bn in
        if a = 0 then
          bnd (balloc (idev ip)) (\<lambda>a.
          if a = 0 then ret 0 else seq (set_addr j (unat bn) a) (ret a))
        else ret a)
     else if bn - 12 < 256 then
       (let k = 4 * unat (bn - 12) in
        bnd (let a = addrs ip ! NDIRECT in
             if a = 0 then
               bnd (balloc (idev ip)) (\<lambda>a.
               if a = 0 then ret 0 else seq (set_addr j NDIRECT a) (ret a))
             else ret a) (\<lambda>a.
        if a = 0 then ret 0
        else
          bnd (bread (idev ip) a) (\<lambda>i.
          bnd (bdata_get i) (\<lambda>d.
          bnd (if get32 d k = 0 then
                 bnd (balloc (idev ip)) (\<lambda>a.
                 seq (whenM (a \<noteq> 0)
                        (seq (bdata_mod i (put32 k a)) (log_write i)))
                     (ret a))
               else ret (get32 d k)) (\<lambda>a.
          seq (brelse i) (ret a))))))
     else panic ''bmap: out of range'')"

definition itrunc :: "nat \<Rightarrow> unit km" where
  "itrunc j =
     seq (foreach [0..<NDIRECT] (\<lambda>k.
       bnd (inode_get j) (\<lambda>ip.
       whenM (addrs ip ! k \<noteq> 0)
         (seq (bfree (idev ip) (addrs ip ! k))
              (set_addr j k 0))))) (
     bnd (inode_get j) (\<lambda>ip.
     seq (whenM (addrs ip ! NDIRECT \<noteq> 0)
       (bnd (bread (idev ip) (addrs ip ! NDIRECT)) (\<lambda>i.
        seq (foreach [0..<NINDIRECT] (\<lambda>k.
          bnd (bdata_get i) (\<lambda>d.
          whenM (get32 d (4 * k) \<noteq> 0) (bfree (idev ip) (get32 d (4 * k)))))) (
        seq (brelse i) (
        seq (bfree (idev ip) (addrs ip ! NDIRECT))
            (set_addr j NDIRECT 0)))))) (
     seq (inode_mod j (\<lambda>ip. ip\<lparr>isize := 0\<rparr>))
         (iupdate j))))"

definition iput :: "nat \<Rightarrow> unit km" where
  "iput j =
     seq (acquire LItable) (
     bnd (inode_get j) (\<lambda>ip.
     seq (whenM (iref ip = 1 \<and> ivalid ip \<and> nlink ip = 0)
       (seq (acquiresleep (SInode j)) (
        seq (release LItable) (
        seq (itrunc j) (
        seq (inode_mod j (\<lambda>ip. ip\<lparr>itype := 0\<rparr>)) (
        seq (iupdate j) (
        seq (inode_mod j (\<lambda>ip. ip\<lparr>ivalid := False\<rparr>)) (
        seq (releasesleep (SInode j))
            (acquire LItable))))))))) (
     seq (inode_mod j (\<lambda>ip. ip\<lparr>iref := iref ip - 1\<rparr>))
         (release LItable))))"

definition iput_p :: "nat option \<Rightarrow> unit km" where
  "iput_p p = bnd (deref p) iput"

definition iunlockput :: "nat \<Rightarrow> unit km" where
  "iunlockput j = seq (iunlock_in j) (iput j)"

text \<open>\<^verbatim>\<open>struct stat\<close>: 24 bytes, with four bytes of padding that hold what the stack held.\<close>

definition bytes64 :: "u64 \<Rightarrow> u8 list" where
  "bytes64 w = bytes32 (ucast w) @ bytes32 (ucast (drop_bit 32 w))"

definition stati :: "u8 list \<Rightarrow> inode \<Rightarrow> u8 list" where
  "stati pad ip = bytes32 (idev ip) @ bytes32 (inum ip) @ bytes16 (itype ip) @ bytes16 (nlink ip) @ pad @
     bytes64 (ucast (isize ip))"

subsection \<open>Reading and writing a file\<close>

text \<open>
  The loops count down the bytes that are left; the chunk is the rest of the block or of the request.
  \<open>readi\<close> answers with the count and, for a destination that is a variable, the bytes.
\<close>

definition chunk :: "u32 \<Rightarrow> nat \<Rightarrow> nat" where
  "chunk off left = min left (1024 - unat off mod 1024)"

lemma chunk_bounds: "0 < left \<Longrightarrow> 0 < chunk off left" "chunk off left \<le> left"
  by (auto simp: chunk_def)

function readi_loop :: "nat \<Rightarrow> udst \<Rightarrow> u32 \<Rightarrow> nat \<Rightarrow> nat \<Rightarrow> u8 list \<Rightarrow> (int \<times> u8 list) km" where
  "readi_loop j dst off left tot got =
     (if left = 0 then ret (int tot, got)
      else
        bnd (bmap j (off div 1024)) (\<lambda>a.
        if a = 0 then ret (int tot, got)
        else
          bnd (inode_get j) (\<lambda>ip.
          bnd (bread (idev ip) a) (\<lambda>i.
          bnd (bdata_get i) (\<lambda>d.
          let m = chunk off left; bs = take m (drop (unat off mod 1024) d) in
          bnd (either_copyout dst bs) (\<lambda>r.
          seq (brelse i) (
          if r = -1 then ret (-1, got)
          else readi_loop j (dst_skip m dst) (off + of_nat m) (left - m) (tot + m) (got @ bs))))))))"
  by pat_completeness auto
termination
  by (relation "measure (\<lambda>(j, dst, off, left, tot, got). left)") (use chunk_bounds in \<open>auto intro!: diff_less\<close>)

declare readi_loop.simps [simp del]

definition readi :: "nat \<Rightarrow> udst \<Rightarrow> u32 \<Rightarrow> u32 \<Rightarrow> (int \<times> u8 list) km" where
  "readi j dst off n =
     bnd (inode_get j) (\<lambda>ip.
     if off > isize ip \<or> off + n < off then ret (0, [])
     else
       let n = (if off + n > isize ip then isize ip - off else n) in
       bnd (readi_loop j dst off (unat n) 0 []) (\<lambda>r.
       ret (sint (word_of_int (fst r) :: u32), snd r)))"

text \<open>A failed copy leaves the bytes that arrived in the buffer, which is not logged.\<close>

function writei_loop :: "nat \<Rightarrow> usrc \<Rightarrow> u32 \<Rightarrow> nat \<Rightarrow> nat \<Rightarrow> (nat \<times> u32) km" where
  "writei_loop j src off left tot =
     (if left = 0 then ret (tot, off)
      else
        bnd (bmap j (off div 1024)) (\<lambda>a.
        if a = 0 then ret (tot, off)
        else
          bnd (inode_get j) (\<lambda>ip.
          bnd (bread (idev ip) a) (\<lambda>i.
          let m = chunk off left in
          bnd (either_copyin src m) (\<lambda>r.
          seq (bdata_mod i (put_bytes (unat off mod 1024) (snd r))) (
          if fst r = -1 then seq (brelse i) (ret (tot, off))
          else
            seq (log_write i) (
            seq (brelse i)
                (writei_loop j (src_skip m src) (off + of_nat m) (left - m) (tot + m)))))))))"
  by pat_completeness auto
termination
  by (relation "measure (\<lambda>(j, src, off, left, tot). left)") (use chunk_bounds in \<open>auto intro!: diff_less\<close>)

declare writei_loop.simps [simp del]

definition writei :: "nat \<Rightarrow> usrc \<Rightarrow> u32 \<Rightarrow> u32 \<Rightarrow> int km" where
  "writei j src off n =
     bnd (inode_get j) (\<lambda>ip.
     if off > isize ip \<or> off + n < off then ret (-1)
     else if off + n > 268 * 1024 then ret (-1)
     else
       bnd (writei_loop j src off (unat n) 0) (\<lambda>(tot, off).
       seq (inode_mod j (\<lambda>ip. if off > isize ip then ip\<lparr>isize := off\<rparr> else ip)) (
       seq (iupdate j)
           (ret (sint (of_nat tot :: u32))))))"

end
