(* ===== verification/Dir.thy ===== *)
theory Dir
  imports Fs Cstring
begin

section \<open>Directories and path names (\<^verbatim>\<open>kernel/fs.c\<close>)\<close>

text \<open>
  A directory is a file of 16-byte entries; the entry with inode number 0 is free.  Names are at
  most 14 bytes, terminated only when shorter.  A path is consumed element by element.
\<close>

subsection \<open>Directory entries\<close>

definition namecmp :: "u8 list \<Rightarrow> u8 list \<Rightarrow> int km" where
  "namecmp p q = (case strncmp p q DIRSIZ of Some r \<Rightarrow> ret r | None \<Rightarrow> stuck)"

text \<open>The offsets of the loops \<^verbatim>\<open>for(off = 0; off < dp->size; off += 16)\<close>.\<close>

definition dir_offs :: "u32 \<Rightarrow> u32 list" where
  "dir_offs sz = map (\<lambda>k. of_nat (16 * k)) [0..<(unat sz + 15) div 16]"

definition read_dirent :: "nat \<Rightarrow> u32 \<Rightarrow> string \<Rightarrow> u8 list km" where
  "read_dirent dp off msg =
     bnd (readi dp KVar off 16) (\<lambda>r.
     seq (guard_panic (fst r \<noteq> 16) msg) (ret (snd r)))"

text \<open>The inode of the entry and its offset.\<close>

definition dirlookup :: "nat \<Rightarrow> u8 list \<Rightarrow> (nat \<times> u32) option km" where
  "dirlookup dp name =
     bnd (inode_get dp) (\<lambda>ip.
     seq (guard_panic (itype ip \<noteq> T_DIR) ''dirlookup not DIR'')
       (search (dir_offs (isize ip)) (\<lambda>off.
          bnd (read_dirent dp off ''dirlookup read'') (\<lambda>de.
          if get16 de 0 = 0 then ret None
          else
            bnd (namecmp name (drop 2 de)) (\<lambda>c.
            if c = 0 then
              bnd (iget (idev ip) (ucast (get16 de 0))) (\<lambda>j. ret (Some (j, off)))
            else ret None)))))"

definition dirlink :: "nat \<Rightarrow> u8 list \<Rightarrow> u32 \<Rightarrow> int km" where
  "dirlink dp name n =
     bnd (dirlookup dp name) (\<lambda>l.
     case l of
       Some (j, off) \<Rightarrow> seq (iput j) (ret (-1))
     | None \<Rightarrow>
         bnd (inode_get dp) (\<lambda>ip.
         bnd (search (dir_offs (isize ip)) (\<lambda>off.
           bnd (read_dirent dp off ''dirlink read'') (\<lambda>de.
           ret (if get16 de 0 = 0 then Some (off, drop 2 de) else None)))) (\<lambda>r.
         let off = (case r of Some (off, nm) \<Rightarrow> off | None \<Rightarrow> of_nat (16 * ((unat (isize ip) + 15) div 16))) in
         case strncpy (replicate 14 0) name DIRSIZ of None \<Rightarrow> stuck
         | Some nm \<Rightarrow>
             bnd (writei dp (KSrc (bytes16 (ucast n) @ nm)) off 16) (\<lambda>r.
             ret (if r \<noteq> 16 then -1 else 0)))))"

subsection \<open>Paths\<close>

text \<open>\<open>None\<close>: the scan ran off the buffer.\<close>

fun skip_slashes :: "u8 list \<Rightarrow> u8 list option" where
  "skip_slashes [] = None"
| "skip_slashes (c # s) = (if c = 47 then skip_slashes s else Some (c # s))"

fun span_elem :: "u8 list \<Rightarrow> (u8 list \<times> u8 list) option" where
  "span_elem [] = None"
| "span_elem (c # s) =
     (if c = 47 \<or> c = 0 then Some ([], c # s)
      else map_option (\<lambda>(e, r). (c # e, r)) (span_elem s))"

definition put_name :: "u8 list \<Rightarrow> u8 list \<Rightarrow> u8 list" where
  "put_name e name = (if length e \<ge> DIRSIZ then take DIRSIZ e else e @ [0] @ drop (length e + 1) name)"

text \<open>The answer is the rest of the path with the new name, or \<open>None\<close> for the null pointer.\<close>

definition skipelem :: "u8 list \<Rightarrow> u8 list \<Rightarrow> (u8 list \<times> u8 list) option option" where
  "skipelem path name = do {
     p \<leftarrow> skip_slashes path;
     if hd p = 0 then Some None
     else do {
       (e, r) \<leftarrow> span_elem p;
       r' \<leftarrow> skip_slashes r;
       Some (Some (r', put_name e name))
     }
   }"

lemma skip_slashes_length: "skip_slashes s = Some r \<Longrightarrow> length r \<le> length s \<and> r \<noteq> [] \<and> hd r \<noteq> 47"
  by (induction s) (auto split: if_splits)

lemma span_elem_length: "span_elem s = Some (e, r) \<Longrightarrow> s = e @ r \<and> r \<noteq> [] \<and> (hd r = 47 \<or> hd r = 0) \<and> 47 \<notin> set e \<and> 0 \<notin> set e"
  by (induction s arbitrary: e r) (auto split: if_splits)

lemma skipelem_shorter: "skipelem path name = Some (Some (r, nm)) \<Longrightarrow> length r < length path"
proof -
  assume "skipelem path name = Some (Some (r, nm))"
  then obtain p e q where p: "skip_slashes path = Some p" and hp: "hd p \<noteq> 0" and e: "span_elem p = Some (e, q)"
    and q: "skip_slashes q = Some r"
    by (auto simp: skipelem_def bind_eq_Some_conv split: if_splits)
  note sp = span_elem_length [OF e]
  have "e \<noteq> []" using sp skip_slashes_length [OF p] hp by auto
  then have "length q < length p" using sp by auto
  then show ?thesis using skip_slashes_length [OF p] skip_slashes_length [OF q] by auto
qed

function namex_loop :: "u8 list \<Rightarrow> bool \<Rightarrow> u8 list \<Rightarrow> nat \<Rightarrow> (nat option \<times> u8 list) km" where
  "namex_loop path want_parent name ip =
     (case skipelem path name of
        None \<Rightarrow> stuck
      | Some None \<Rightarrow>
          if want_parent then seq (iput ip) (ret (None, name)) else ret (Some ip, name)
      | Some (Some (path', name')) \<Rightarrow>
          seq (ilock_in ip) (
          bnd (inode_get ip) (\<lambda>i.
          if itype i \<noteq> T_DIR then seq (iunlockput ip) (ret (None, name'))
          else if want_parent \<and> hd path' = 0 then seq (iunlock_in ip) (ret (Some ip, name'))
          else
            bnd (dirlookup ip name') (\<lambda>next.
            case next of
              None \<Rightarrow> seq (iunlockput ip) (ret (None, name'))
            | Some (j, off) \<Rightarrow>
                seq (iunlockput ip)
                    (namex_loop path' want_parent name' j)))))"
  by pat_completeness auto
termination
  by (relation "measure (\<lambda>(path, w, name, ip). length path)") (auto simp: skipelem_shorter)

declare namex_loop.simps [simp del]

definition namex :: "u8 list \<Rightarrow> bool \<Rightarrow> u8 list \<Rightarrow> (nat option \<times> u8 list) km" where
  "namex path want_parent name =
     seq (defined_if (path \<noteq> [])) (
     bnd (if hd path = 47 then iget ROOTDEV ROOTINO
          else bnd mine (\<lambda>me. bnd (proc_get me) (\<lambda>p. bnd (deref (cwd p)) idup))) (\<lambda>ip.
     namex_loop path want_parent name ip))"

text \<open>The name buffer of \<open>namei\<close> starts as stack contents, which no result depends on.\<close>

definition namei :: "u8 list \<Rightarrow> nat option km" where
  "namei path = bnd (namex path False (replicate 14 0)) (\<lambda>r. ret (fst r))"

definition nameiparent :: "u8 list \<Rightarrow> u8 list \<Rightarrow> (nat option \<times> u8 list) km" where
  "nameiparent path name = namex path True name"

end
