(* ===== verification/File.thy ===== *)
theory File
  imports Dir Console
begin

section \<open>Open files (\<^verbatim>\<open>kernel/file.c\<close>) and the creation of pipes\<close>

text \<open>
  The table of open files, shared by all processes: an entry is in use while its reference count is
  positive.  A file is a pipe end, an inode with an offset, or a device; of the devices only the
  console is registered (\<^verbatim>\<open>consoleinit\<close> fills \<^verbatim>\<open>devsw[CONSOLE]\<close>).
\<close>

subsection \<open>Reference counts\<close>

definition fileinit :: "unit km" where
  "fileinit = initlock LFtable"

definition filealloc :: "nat option km" where
  "filealloc =
     seq (acquire LFtable) (
     bnd (search [0..<NFILE] (\<lambda>i.
       bnd (file_get i) (\<lambda>f.
       if fref f = 0 then
         seq (file_mod i (\<lambda>f. f\<lparr>fref := 1\<rparr>)) (
         seq (release LFtable)
             (ret (Some i)))
       else ret None))) (\<lambda>r.
     case r of
       Some i \<Rightarrow> ret (Some i)
     | None \<Rightarrow> seq (release LFtable) (ret None)))"

definition filedup :: "nat \<Rightarrow> nat km" where
  "filedup i =
     seq (acquire LFtable) (
     bnd (file_get i) (\<lambda>f.
     seq (guard_panic (fref f < 1) ''filedup'') (
     seq (defined_if (fref f < 2 ^ 31 - 1)) (
     seq (file_mod i (\<lambda>f. f\<lparr>fref := fref f + 1\<rparr>)) (
     seq (release LFtable)
         (ret i))))))"

definition fileclose :: "nat \<Rightarrow> unit km" where
  "fileclose i =
     seq (acquire LFtable) (
     bnd (file_get i) (\<lambda>f.
     seq (guard_panic (fref f < 1) ''fileclose'') (
     seq (file_mod i (\<lambda>f. f\<lparr>fref := fref f - 1\<rparr>)) (
     bnd (file_get i) (\<lambda>ff.
     if fref ff > 0 then release LFtable
     else
       seq (file_mod i (\<lambda>f. f\<lparr>fref := 0\<rparr>)) (
       seq (file_mod i (\<lambda>f. f\<lparr>ftype := FD_NONE\<rparr>)) (
       seq (release LFtable) (
       if ftype ff = FD_PIPE then pipeclose (fpipe ff) (writable ff)
       else
         whenM (ftype ff = FD_INODE \<or> ftype ff = FD_DEVICE)
           (seq begin_op (
            seq (iput_p (fip ff))
                end_op))))))))))"

subsection \<open>Status, reading and writing\<close>

text \<open>\<open>pad\<close>: what the four bytes of padding of the \<^verbatim>\<open>struct stat\<close> on the stack hold.\<close>

definition filestat :: "u8 list \<Rightarrow> nat \<Rightarrow> u64 \<Rightarrow> int km" where
  "filestat pad i addr =
     bnd mine (\<lambda>me.
     bnd (file_get i) (\<lambda>f.
     if ftype f = FD_INODE \<or> ftype f = FD_DEVICE then
       seq (ilock_p (fip f)) (
       bnd (deref (fip f)) (\<lambda>j.
       bnd (inode_get j) (\<lambda>ip.
       seq (iunlock_p (fip f)) (
       bnd (proc_get me) (\<lambda>p.
       bnd (copyout (pagetable p) addr (stati pad ip) 24) (\<lambda>r.
       ret (if r < 0 then -1 else 0)))))))
     else ret (-1)))"

text \<open>The entries of \<^verbatim>\<open>devsw\<close>: \<open>None\<close> where the function pointer is null.\<close>

definition dev_read :: "u16 \<Rightarrow> (udst \<Rightarrow> int \<Rightarrow> int km) option" where
  "dev_read major = (if sint major = int CONSOLE then Some consoleread else None)"

definition dev_write :: "u16 \<Rightarrow> (usrc \<Rightarrow> int \<Rightarrow> int km) option" where
  "dev_write major = (if sint major = int CONSOLE then Some consolewrite else None)"

definition fileread :: "nat \<Rightarrow> u64 \<Rightarrow> int \<Rightarrow> int km" where
  "fileread i addr n =
     bnd (file_get i) (\<lambda>f.
     if \<not> readable f then ret (-1)
     else case ftype f of
       FD_PIPE \<Rightarrow> piperead (fpipe f) addr n
     | FD_DEVICE \<Rightarrow>
         if sint (fmajor f) < 0 \<or> sint (fmajor f) \<ge> NDEV then ret (-1)
         else (case dev_read (fmajor f) of None \<Rightarrow> ret (-1) | Some dread \<Rightarrow> dread (UDst addr) n)
     | FD_INODE \<Rightarrow>
         seq (ilock_p (fip f)) (
         bnd (deref (fip f)) (\<lambda>j.
         bnd (file_get i) (\<lambda>f.
         bnd (readi j (UDst addr) (foff f) (word_of_int n)) (\<lambda>r.
         seq (whenM (fst r > 0) (file_mod i (\<lambda>f. f\<lparr>foff := foff f + word_of_int (fst r)\<rparr>))) (
         seq (iunlock_p (fip f))
             (ret (fst r)))))))
     | FD_NONE \<Rightarrow> panic ''fileread'')"

text \<open>
  An inode is written in transactions of at most \<open>FWMAX\<close> bytes.  \<open>i\<close> bytes are written; the answer of
  the loop is the final \<open>i\<close>.
\<close>

definition FWMAX :: nat where
  "FWMAX = ((nat MAXOPBLOCKS - 1 - 1 - 2) div 2) * BSIZE"

definition filewrite_chunk :: "nat \<Rightarrow> u64 \<Rightarrow> nat \<Rightarrow> int km" where
  "filewrite_chunk k addr n1 =
     seq begin_op (
     bnd (file_get k) (\<lambda>f.
     seq (ilock_p (fip f)) (
     bnd (deref (fip f)) (\<lambda>j.
     bnd (file_get k) (\<lambda>f.
     bnd (writei j (USrc addr) (foff f) (of_nat n1)) (\<lambda>r.
     seq (whenM (r > 0) (file_mod k (\<lambda>f. f\<lparr>foff := foff f + word_of_int r\<rparr>))) (
     seq (iunlock_p (fip f)) (
     seq end_op
         (ret r)))))))))"

lemma FWMAX_pos: "0 < FWMAX"
  by (simp add: FWMAX_def)

function filewrite_loop :: "nat \<Rightarrow> u64 \<Rightarrow> nat \<Rightarrow> nat \<Rightarrow> nat km" where
  "filewrite_loop k addr n i =
     (if i < n then
        let n1 = min (n - i) FWMAX in
        bnd (filewrite_chunk k (addr + of_nat i) n1) (\<lambda>r.
        if r \<noteq> int n1 then ret i
        else filewrite_loop k addr n (i + n1))
      else ret i)"
  by pat_completeness auto
termination
  by (relation "measure (\<lambda>(k, addr, n, i). n - i)") (use FWMAX_pos in auto)

declare filewrite_loop.simps [simp del]

definition filewrite :: "nat \<Rightarrow> u64 \<Rightarrow> int \<Rightarrow> int km" where
  "filewrite k addr n =
     bnd (file_get k) (\<lambda>f.
     if \<not> writable f then ret (-1)
     else case ftype f of
       FD_PIPE \<Rightarrow> pipewrite (fpipe f) addr n
     | FD_DEVICE \<Rightarrow>
         if sint (fmajor f) < 0 \<or> sint (fmajor f) \<ge> NDEV then ret (-1)
         else (case dev_write (fmajor f) of None \<Rightarrow> ret (-1) | Some dwrite \<Rightarrow> dwrite (USrc addr) n)
     | FD_INODE \<Rightarrow>
         bnd (filewrite_loop k addr (nat n) 0) (\<lambda>i.
         ret (if int i = n then n else -1))
     | FD_NONE \<Rightarrow> panic ''filewrite'')"

subsection \<open>A new pipe\<close>

definition pipe_bad :: "nat option \<Rightarrow> nat option \<Rightarrow> (nat \<times> nat) option km" where
  "pipe_bad f0 f1 =
     seq (case f0 of None \<Rightarrow> ret () | Some a \<Rightarrow> fileclose a) (
     seq (case f1 of None \<Rightarrow> ret () | Some b \<Rightarrow> fileclose b)
         (ret None))"

definition pipealloc :: "(nat \<times> nat) option km" where
  "pipealloc =
     bnd filealloc (\<lambda>f0.
     case f0 of None \<Rightarrow> pipe_bad None None | Some a \<Rightarrow>
     bnd filealloc (\<lambda>f1.
     case f1 of None \<Rightarrow> pipe_bad (Some a) None | Some b \<Rightarrow>
     bnd kalloc (\<lambda>pi.
     if pi = 0 then pipe_bad (Some a) (Some b)
     else
       seq (pipe_mod pi (\<lambda>p. p\<lparr>readopen := True, writeopen := True, nwrite := 0, nread := 0\<rparr>)) (
       seq (initlock (LPipe pi)) (
       seq (file_mod a (\<lambda>f. f\<lparr>ftype := FD_PIPE, readable := True, writable := False, fpipe := pi\<rparr>)) (
       seq (file_mod b (\<lambda>f. f\<lparr>ftype := FD_PIPE, readable := False, writable := True, fpipe := pi\<rparr>))
           (ret (Some (a, b)))))))))"

end
