(* ===== verification/Proc.thy ===== *)
theory Proc
  imports File
begin

section \<open>The life of a process (\<^verbatim>\<open>kernel/proc.c\<close>)\<close>

text \<open>
  Allocation and release of process slots, their page tables, \<open>fork\<close>, \<open>exit\<close> and \<open>wait\<close>, growing and
  shrinking.  A process that has called \<open>exit\<close> stays in its slot as a zombie until its parent's
  \<open>wait\<close> frees it.
\<close>

subsection \<open>Page tables of processes\<close>

definition proc_pagetable :: "nat \<Rightarrow> u64 km" where
  "proc_pagetable i =
     bnd uvmcreate (\<lambda>pt.
     if pt = 0 then ret 0
     else
       bnd (gets trampoline) (\<lambda>tr.
       bnd (mappages pt TRAMPOLINE PGSIZE tr (PTE_R OR PTE_X)) (\<lambda>r.
       if r < 0 then seq (uvmfree pt 0) (ret 0)
       else
         bnd (proc_get i) (\<lambda>p.
         bnd (mappages pt TRAPFRAME PGSIZE (trapframe p) (PTE_R OR PTE_W)) (\<lambda>r.
         if r < 0 then
           seq (uvmunmap pt TRAMPOLINE 1 False) (
           seq (uvmfree pt 0)
               (ret 0))
         else ret pt)))))"

definition proc_freepagetable :: "u64 \<Rightarrow> u64 \<Rightarrow> unit km" where
  "proc_freepagetable pt sz =
     seq (uvmunmap pt TRAMPOLINE 1 False) (
     seq (uvmunmap pt TRAPFRAME 1 False)
         (uvmfree pt sz))"

subsection \<open>Process slots\<close>

definition freeproc :: "nat \<Rightarrow> unit km" where
  "freeproc i =
     bnd (proc_get i) (\<lambda>p.
     seq (whenM (trapframe p \<noteq> 0) (kfree (trapframe p))) (
     seq (proc_mod i (\<lambda>p. p\<lparr>trapframe := 0\<rparr>)) (
     seq (whenM (pagetable p \<noteq> 0) (proc_freepagetable (pagetable p) (psz p)))
         (proc_mod i (\<lambda>p. p\<lparr>pagetable := 0, psz := 0, pid := 0, parent := None,
            pname := (pname p)[0 := 0], pchan := None, pkilled := 0, xstate := 0, pstate := UNUSED\<rparr>)))))"

definition alloc_failed :: "nat \<Rightarrow> nat option km" where
  "alloc_failed i = seq (freeproc i) (seq (release (LProc i)) (ret None))"

definition alloc_found :: "nat \<Rightarrow> nat option km" where
  "alloc_found i =
     bnd allocpid (\<lambda>n.
     seq (proc_mod i (\<lambda>p. p\<lparr>pid := n, pstate := USED\<rparr>)) (
     bnd kalloc (\<lambda>tf.
     seq (proc_mod i (\<lambda>p. p\<lparr>trapframe := tf\<rparr>)) (
     if tf = 0 then alloc_failed i
     else
       bnd (proc_pagetable i) (\<lambda>pt.
       seq (proc_mod i (\<lambda>p. p\<lparr>pagetable := pt\<rparr>)) (
       if pt = 0 then alloc_failed i
       else
         bnd (gets (\<lambda>s. ksym s Sforkret)) (\<lambda>ra.
         seq (proc_mod i (\<lambda>p. p\<lparr>pcontext := \<lparr>ctx_ra = ra, ctx_sp = kstack p + PGSIZE, ctx_s = replicate 12 0\<rparr>\<rparr>)) (
         seq (proc_mod i (\<lambda>p. p\<lparr>trace_mask := 0\<rparr>))
             (ret (Some i))))))))))"

definition allocproc :: "nat option km" where
  "allocproc =
     bnd (search [0..<NPROC] (\<lambda>i.
       seq (acquire (LProc i)) (
       bnd (proc_get i) (\<lambda>p.
       if pstate p = UNUSED then ret (Some i)
       else seq (release (LProc i)) (ret None))))) (\<lambda>r.
     case r of None \<Rightarrow> ret None | Some i \<Rightarrow> alloc_found i)"

definition initcode :: "u8 list" where
  "initcode = [
     0x17, 0x05, 0x00, 0x00, 0x13, 0x05, 0x45, 0x02,
     0x97, 0x05, 0x00, 0x00, 0x93, 0x85, 0x35, 0x02,
     0x93, 0x08, 0x70, 0x00, 0x73, 0x00, 0x00, 0x00,
     0x93, 0x08, 0x20, 0x00, 0x73, 0x00, 0x00, 0x00,
     0xef, 0xf0, 0x9f, 0xff, 0x2f, 0x69, 0x6e, 0x69,
     0x74, 0x00, 0x00, 0x24, 0x00, 0x00, 0x00, 0x00,
     0x00, 0x00, 0x00, 0x00]"

text \<open>A copy of at most 15 characters into \<open>p->name\<close>.\<close>

definition set_name :: "nat \<Rightarrow> u8 list \<Rightarrow> unit km" where
  "set_name i name =
     bnd (proc_get i) (\<lambda>p.
     case safestrcpy (pname p) name 16 of
       None \<Rightarrow> stuck
     | Some nm \<Rightarrow> proc_mod i (\<lambda>p. p\<lparr>pname := nm\<rparr>))"

definition userinit :: "unit km" where
  "userinit =
     bnd allocproc (\<lambda>r.
     seq (modify (\<lambda>s. s\<lparr>initproc := r\<rparr>)) (
     bnd (deref r) (\<lambda>i.
     bnd (proc_get i) (\<lambda>p.
     seq (uvmfirst (pagetable p) initcode) (
     seq (proc_mod i (\<lambda>p. p\<lparr>psz := PGSIZE\<rparr>)) (
     seq (st64 (trapframe p + TF_epc) 0) (
     seq (st64 (trapframe p + TF_sp) PGSIZE) (
     seq (set_name i (bytes_of ''initcode'' @ [0])) (
     bnd (namei [47, 0]) (\<lambda>c.
     seq (proc_mod i (\<lambda>p. p\<lparr>cwd := c\<rparr>)) (
     seq (proc_mod i (\<lambda>p. p\<lparr>pstate := RUNNABLE\<rparr>))
         (release (LProc i)))))))))))))"

definition growproc :: "int \<Rightarrow> int km" where
  "growproc n =
     bnd mine (\<lambda>i.
     bnd (proc_get i) (\<lambda>p.
     if n > 0 then
       bnd (uvmalloc (pagetable p) (psz p) (psz p + word_of_int n) PTE_W) (\<lambda>sz.
       if sz = 0 then ret (-1) else seq (proc_mod i (\<lambda>p. p\<lparr>psz := sz\<rparr>)) (ret 0))
     else if n < 0 then
       bnd (uvmdealloc (pagetable p) (psz p) (psz p + word_of_int n)) (\<lambda>sz.
       seq (proc_mod i (\<lambda>p. p\<lparr>psz := sz\<rparr>)) (ret 0))
     else seq (proc_mod i (\<lambda>q. q\<lparr>psz := psz p\<rparr>)) (ret 0)))"

subsection \<open>Fork\<close>

definition fork_files :: "nat \<Rightarrow> nat \<Rightarrow> unit km" where
  "fork_files me np =
     foreach [0..<NOFILE] (\<lambda>fd.
       bnd (proc_get me) (\<lambda>p.
       case ofile p ! fd of
         None \<Rightarrow> ret ()
       | Some f \<Rightarrow> bnd (filedup f) (\<lambda>f. proc_mod np (\<lambda>q. q\<lparr>ofile := (ofile q)[fd := Some f]\<rparr>))))"

definition fork :: "int km" where
  "fork =
     bnd mine (\<lambda>me.
     bnd allocproc (\<lambda>r.
     case r of None \<Rightarrow> ret (-1) | Some np \<Rightarrow>
     bnd (proc_get me) (\<lambda>p.
     bnd (proc_get np) (\<lambda>q.
     bnd (uvmcopy (pagetable p) (pagetable q) (psz p)) (\<lambda>r.
     if r < 0 then seq (freeproc np) (seq (release (LProc np)) (ret (-1)))
     else
       seq (proc_mod np (\<lambda>q. q\<lparr>psz := psz p\<rparr>)) (
       seq (kmemmove (trapframe q) (trapframe p) 288) (
       seq (st64 (trapframe q + TF_a0) 0) (
       seq (proc_mod np (\<lambda>q. q\<lparr>trace_mask := trace_mask p\<rparr>)) (
       seq (fork_files me np) (
       bnd (deref (cwd p)) (\<lambda>c.
       bnd (idup c) (\<lambda>c.
       seq (proc_mod np (\<lambda>q. q\<lparr>cwd := Some c\<rparr>)) (
       seq (set_name np (pname p)) (
       bnd (proc_get np) (\<lambda>q.
       seq (release (LProc np)) (
       seq (acquire LWait) (
       seq (proc_mod np (\<lambda>q. q\<lparr>parent := Some me\<rparr>)) (
       seq (release LWait) (
       seq (acquire (LProc np)) (
       seq (proc_mod np (\<lambda>q. q\<lparr>pstate := RUNNABLE\<rparr>)) (
       seq (release (LProc np))
           (ret (pid q)))))))))))))))))))))))"

subsection \<open>Exit and wait\<close>

text \<open>A wakeup on a process that may be the null pointer, on which no process sleeps.\<close>

definition wakeup_proc :: "nat option \<Rightarrow> unit km" where
  "wakeup_proc p = (case p of None \<Rightarrow> ret () | Some k \<Rightarrow> wakeup (CProc k))"

definition reparent :: "nat \<Rightarrow> unit km" where
  "reparent me =
     foreach [0..<NPROC] (\<lambda>i.
       bnd (proc_get i) (\<lambda>pp.
       whenM (parent pp = Some me)
         (bnd (gets initproc) (\<lambda>ip.
          seq (proc_mod i (\<lambda>pp. pp\<lparr>parent := ip\<rparr>))
              (wakeup_proc ip)))))"

definition exit_files :: "nat \<Rightarrow> unit km" where
  "exit_files me =
     foreach [0..<NOFILE] (\<lambda>fd.
       bnd (proc_get me) (\<lambda>p.
       case ofile p ! fd of
         None \<Rightarrow> ret ()
       | Some f \<Rightarrow> seq (fileclose f) (proc_mod me (\<lambda>p. p\<lparr>ofile := (ofile p)[fd := None]\<rparr>))))"

definition exit :: "int \<Rightarrow> 'a km" where
  "exit status =
     bnd mine (\<lambda>me.
     bnd (gets initproc) (\<lambda>ip.
     seq (guard_panic (ip = Some me) ''init exiting'') (
     seq (exit_files me) (
     seq begin_op (
     bnd (proc_get me) (\<lambda>p.
     seq (iput_p (cwd p)) (
     seq end_op (
     seq (proc_mod me (\<lambda>p. p\<lparr>cwd := None\<rparr>)) (
     seq (acquire LWait) (
     seq (reparent me) (
     bnd (proc_get me) (\<lambda>p.
     seq (wakeup_proc (parent p)) (
     seq (acquire (LProc me)) (
     seq (proc_mod me (\<lambda>p. p\<lparr>xstate := status, pstate := ZOMBIE\<rparr>)) (
     seq (release LWait) (
     seq sched
         (panic ''zombie exit'')))))))))))))))))"

text \<open>
  One scan of \<open>wait\<close>: the answer to return with, or whether there are children.
\<close>

primrec wait_scan :: "nat \<Rightarrow> u64 \<Rightarrow> nat list \<Rightarrow> bool \<Rightarrow> (int + bool) km" where
  "wait_scan me addr [] havekids = ret (Inr havekids)"
| "wait_scan me addr (i # is) havekids =
     bnd (proc_get i) (\<lambda>pp.
     if parent pp = Some me then
       seq (acquire (LProc i)) (
       bnd (proc_get i) (\<lambda>pp.
       if pstate pp = ZOMBIE then
         bnd (proc_get me) (\<lambda>p.
         bnd (if addr \<noteq> 0 then copyout (pagetable p) addr (bytes32 (word_of_int (xstate pp))) 4 else ret 0) (\<lambda>r.
         if r < 0 then
           seq (release (LProc i)) (seq (release LWait) (ret (Inl (-1))))
         else
           seq (freeproc i) (
           seq (release (LProc i)) (
           seq (release LWait)
               (ret (Inl (pid pp)))))))
       else
         seq (release (LProc i)) (wait_scan me addr is True)))
     else wait_scan me addr is havekids)"

definition wait :: "u64 \<Rightarrow> int km" where
  "wait addr =
     bnd mine (\<lambda>me.
     seq (acquire LWait) (
     bnd (wait_scan me addr [0..<NPROC] False) (\<lambda>r.
     case r of
       Inl x \<Rightarrow> ret x
     | Inr havekids \<Rightarrow>
         bnd (if havekids then killed me else ret 1) (\<lambda>k.
         if k \<noteq> 0 then seq (release LWait) (ret (-1))
         else sleep_wait (CProc me) LWait))))"

end
