(* ===== verification/Sysproc.thy ===== *)
theory Sysproc
  imports Proc
begin

section \<open>System-call arguments (\<^verbatim>\<open>kernel/syscall.c\<close>) and the calls on processes (\<^verbatim>\<open>kernel/sysproc.c\<close>)\<close>

text \<open>
  The user's registers are in the trap frame; a pointer argument is checked by \<open>copyin\<close>, \<open>copyout\<close> and
  \<open>copyinstr\<close>.  A string buffer is the bytes that were stored in it.  Every call answers with the 64-bit
  value for the user's \<^verbatim>\<open>a0\<close>.
\<close>

subsection \<open>Arguments\<close>

definition get64 :: "u8 list \<Rightarrow> nat \<Rightarrow> u64" where
  "get64 d k = word_rcat [get32 d (k + 4), get32 d k]"

definition fetchaddr :: "u64 \<Rightarrow> (int \<times> u64) km" where
  "fetchaddr addr =
     bnd mine (\<lambda>i.
     bnd (proc_get i) (\<lambda>p.
     if addr \<ge> psz p \<or> addr + 8 > psz p then ret (-1, 0)
     else
       bnd (copyin (pagetable p) addr 8) (\<lambda>r.
       if fst r \<noteq> 0 then ret (-1, 0) else ret (0, get64 (snd r) 0))))"

definition fetchstr :: "u64 \<Rightarrow> u64 \<Rightarrow> (int \<times> u8 list) km" where
  "fetchstr addr mx =
     bnd mine (\<lambda>i.
     bnd (proc_get i) (\<lambda>p.
     bnd (copyinstr (pagetable p) addr mx) (\<lambda>r.
     if fst r < 0 then ret (-1, snd r)
     else (case strlen (snd r) of None \<Rightarrow> stuck | Some n \<Rightarrow> ret (int n, snd r)))))"

definition argraw :: "nat \<Rightarrow> u64 km" where
  "argraw n =
     bnd mine (\<lambda>i.
     bnd (proc_get i) (\<lambda>p.
     if n = 0 then ld64 (trapframe p + TF_a0)
     else if n = 1 then ld64 (trapframe p + TF_a1)
     else if n = 2 then ld64 (trapframe p + TF_a2)
     else if n = 3 then ld64 (trapframe p + TF_a3)
     else if n = 4 then ld64 (trapframe p + TF_a4)
     else if n = 5 then ld64 (trapframe p + TF_a5)
     else panic ''argraw''))"

definition argint :: "nat \<Rightarrow> int km" where
  "argint n = bnd (argraw n) (\<lambda>v. ret (sint (ucast v :: u32)))"

definition argaddr :: "nat \<Rightarrow> u64 km" where
  "argaddr n = argraw n"

definition argstr :: "nat \<Rightarrow> u64 \<Rightarrow> (int \<times> u8 list) km" where
  "argstr n mx = bnd (argaddr n) (\<lambda>addr. fetchstr addr mx)"

subsection \<open>Processes\<close>

definition sys_exit :: "u64 km" where
  "sys_exit = bnd (argint 0) exit"

definition sys_getpid :: "u64 km" where
  "sys_getpid = bnd mine (\<lambda>i. bnd (proc_get i) (\<lambda>p. ret (word_of_int (pid p))))"

definition sys_fork :: "u64 km" where
  "sys_fork = bnd fork (\<lambda>r. ret (word_of_int r))"

definition sys_wait :: "u64 km" where
  "sys_wait = bnd (argaddr 0) (\<lambda>p. bnd (wait p) (\<lambda>r. ret (word_of_int r)))"

definition sys_sbrk :: "u64 km" where
  "sys_sbrk =
     bnd (argint 0) (\<lambda>n.
     bnd mine (\<lambda>i.
     bnd (proc_get i) (\<lambda>p.
     bnd (growproc n) (\<lambda>r.
     ret (if r < 0 then -1 else psz p)))))"

text \<open>A process that sleeps goes on in the loop with the same \<open>ticks0\<close>.\<close>

definition sys_sleep_loop :: "u32 \<Rightarrow> u32 \<Rightarrow> u64 km" where
  "sys_sleep_loop ticks0 n =
     bnd (gets ticks) (\<lambda>t.
     if t - ticks0 < n then
       bnd mine (\<lambda>me.
       bnd (killed me) (\<lambda>k.
       if k \<noteq> 0 then seq (release LTicks) (ret (-1))
       else sleep_wait CTicks LTicks))
     else seq (release LTicks) (ret 0))"

definition sys_sleep :: "u64 km" where
  "sys_sleep =
     bnd (argint 0) (\<lambda>n.
     seq (acquire LTicks) (
     bnd (gets ticks) (\<lambda>ticks0.
     sys_sleep_loop ticks0 (word_of_int (if n < 0 then 0 else n)))))"

definition sys_kill :: "u64 km" where
  "sys_kill = bnd (argint 0) (\<lambda>n. bnd (kill n) (\<lambda>r. ret (word_of_int r)))"

definition sys_uptime :: "u64 km" where
  "sys_uptime =
     seq (acquire LTicks) (
     bnd (gets ticks) (\<lambda>t.
     seq (release LTicks)
         (ret (ucast t))))"

definition sys_trace :: "u64 km" where
  "sys_trace =
     bnd (argint 0) (\<lambda>mask.
     bnd mine (\<lambda>i.
     seq (proc_mod i (\<lambda>p. p\<lparr>trace_mask := word_of_int mask\<rparr>))
         (ret 0)))"

text \<open>\<^verbatim>\<open>struct sysinfo\<close>: three 64-bit words.\<close>

definition sys_sysinfo :: "u64 km" where
  "sys_sysinfo =
     bnd mine (\<lambda>i.
     bnd (argaddr 0) (\<lambda>addr.
     bnd nfree (\<lambda>freemem.
     bnd nproc (\<lambda>np.
     bnd (gets loadavg) (\<lambda>la.
     bnd (proc_get i) (\<lambda>p.
     bnd (copyout (pagetable p) addr (bytes64 freemem @ bytes64 np @ bytes64 la) 24) (\<lambda>r.
     ret (if r < 0 then -1 else 0))))))))"

end
