(* ===== verification/Exec.thy ===== *)
theory Exec
  imports Sysproc
begin

section \<open>Loading a program (\<^verbatim>\<open>kernel/exec.c\<close>)\<close>

text \<open>
  The ELF header is 64 bytes, a program header 56; their fields are read at their offsets.  An argument
  string is in a kernel page of its own, the argument vector is the list of these pages.
\<close>

definition ELF_MAGIC :: u32 where
  "ELF_MAGIC = 0x464C457F"

definition flags2perm :: "u32 \<Rightarrow> u64" where
  "flags2perm flags =
     (let perm = (if flags AND 1 \<noteq> 0 then PTE_X else 0) in
      if flags AND 2 \<noteq> 0 then perm OR PTE_W else perm)"

text \<open>\<open>k\<close> bounds the number of pages from \<open>i\<close> on.\<close>

primrec loadseg_loop :: "nat \<Rightarrow> u64 \<Rightarrow> u64 \<Rightarrow> nat \<Rightarrow> u32 \<Rightarrow> u32 \<Rightarrow> u32 \<Rightarrow> int km" where
  "loadseg_loop 0 pt va j offset sz i = (if i < sz then stuck else ret 0)"
| "loadseg_loop (Suc k) pt va j offset sz i =
     (if \<not> i < sz then ret 0
      else
        bnd (walkaddr pt (va + ucast i)) (\<lambda>pa.
        seq (guard_panic (pa = 0) ''loadseg: address should exist'') (
        let n = (if sz - i < 4096 then sz - i else 4096) in
        bnd (readi j (KDst pa) (offset + i) n) (\<lambda>r.
        if (word_of_int (fst r) :: u32) \<noteq> n then ret (-1)
        else loadseg_loop k pt va j offset sz (i + 4096)))))"

definition loadseg :: "u64 \<Rightarrow> u64 \<Rightarrow> nat \<Rightarrow> u32 \<Rightarrow> u32 \<Rightarrow> int km" where
  "loadseg pt va j offset sz = loadseg_loop (unat sz div 4096 + 1) pt va j offset sz 0"

text \<open>The program headers: \<open>Inl sz\<close> when one is bad, with the size mapped so far, else \<open>Inr sz\<close>.\<close>

primrec exec_load :: "nat \<Rightarrow> nat \<Rightarrow> u64 \<Rightarrow> u32 \<Rightarrow> u64 \<Rightarrow> (u64 + u64) km" where
  "exec_load 0 j pt off sz = ret (Inr sz)"
| "exec_load (Suc k) j pt off sz =
     bnd (readi j KVar off 56) (\<lambda>r.
     let ph = snd r; vaddr = get64 ph 16; filesz = get64 ph 32; memsz = get64 ph 40 in
     if fst r \<noteq> 56 then ret (Inl sz)
     else if get32 ph 0 \<noteq> 1 then exec_load k j pt (off + 56) sz
     else if memsz < filesz then ret (Inl sz)
     else if vaddr + memsz < vaddr then ret (Inl sz)
     else if vaddr mod PGSIZE \<noteq> 0 then ret (Inl sz)
     else
       bnd (uvmalloc pt sz (vaddr + memsz) (flags2perm (get32 ph 4))) (\<lambda>sz1.
       if sz1 = 0 then ret (Inl sz)
       else
         bnd (loadseg pt vaddr j (ucast (get64 ph 8)) (ucast filesz)) (\<lambda>r.
         if r < 0 then ret (Inl sz1) else exec_load k j pt (off + 56) sz1)))"

text \<open>The string in a kernel page.\<close>

definition page_str :: "u64 \<Rightarrow> u8 list km" where
  "page_str p =
     bnd (gets (\<lambda>s. read_bytes (mem s) p 4096)) (\<lambda>bs.
     case strlen bs of None \<Rightarrow> stuck | Some n \<Rightarrow> ret (take (n + 1) bs))"

text \<open>The argument strings on the user stack: the stack pointer and the vector of their addresses.\<close>

primrec exec_args :: "u64 list \<Rightarrow> u64 \<Rightarrow> u64 \<Rightarrow> nat \<Rightarrow> u64 \<Rightarrow> u64 list \<Rightarrow> (u64 \<times> u64 list) option km" where
  "exec_args [] pt stackbase argc sp ustack = ret (Some (sp, ustack))"
| "exec_args (a # as) pt stackbase argc sp ustack =
     (if argc \<ge> MAXARG then ret None
      else
        bnd (page_str a) (\<lambda>str.
        let sp1 = sp - of_nat (length str); sp2 = sp1 - sp1 mod 16 in
        if sp2 < stackbase then ret None
        else
          bnd (copyout pt sp2 str (of_nat (length str))) (\<lambda>r.
          if r < 0 then ret None
          else exec_args as pt stackbase (argc + 1) sp2 (ustack @ [sp2]))))"

text \<open>The part of the path after the last slash.\<close>

fun path_last :: "u8 list \<Rightarrow> u8 list \<Rightarrow> u8 list option" where
  "path_last l [] = None"
| "path_last l (c # s) = (if c = 0 then Some l else path_last (if c = 47 then s else l) s)"

definition exec_bad :: "u64 \<Rightarrow> u64 \<Rightarrow> nat option \<Rightarrow> int km" where
  "exec_bad pt sz ip =
     seq (whenM (pt \<noteq> 0) (proc_freepagetable pt sz)) (
     seq (case ip of None \<Rightarrow> ret () | Some j \<Rightarrow> seq (iunlockput j) end_op)
         (ret (-1)))"

text \<open>The replacement of the process's image; the stack pointer \<open>sp\<close> is below the argument vector.\<close>

definition exec_commit :: "nat \<Rightarrow> u8 list \<Rightarrow> u64 \<Rightarrow> u64 \<Rightarrow> u64 \<Rightarrow> u64 \<Rightarrow> u64 \<Rightarrow> nat \<Rightarrow> int km" where
  "exec_commit me path pt sz oldsz entry sp argc =
     bnd (proc_get me) (\<lambda>p.
     seq (st64 (trapframe p + TF_a1) sp) (
     case path_last path path of None \<Rightarrow> stuck | Some l \<Rightarrow>
     seq (set_name me l) (
     bnd (proc_get me) (\<lambda>p.
     seq (proc_mod me (\<lambda>p. p\<lparr>pagetable := pt\<rparr>)) (
     seq (proc_mod me (\<lambda>p. p\<lparr>psz := sz\<rparr>)) (
     seq (st64 (trapframe p + TF_epc) entry) (
     seq (st64 (trapframe p + TF_sp) sp) (
     seq (proc_freepagetable (pagetable p) oldsz)
         (ret (int argc))))))))))"

definition exec_stack :: "nat \<Rightarrow> u8 list \<Rightarrow> u64 list \<Rightarrow> u64 \<Rightarrow> u64 \<Rightarrow> u64 \<Rightarrow> int km" where
  "exec_stack me path argv pt sz0 entry =
     bnd (proc_get me) (\<lambda>p.
     let oldsz = psz p; sz = PGROUNDUP sz0 in
     bnd (uvmalloc pt sz (sz + (USERSTACK + 1) * PGSIZE) PTE_W) (\<lambda>sz1.
     if sz1 = 0 then exec_bad pt sz None
     else
       seq (uvmclear pt (sz1 - (USERSTACK + 1) * PGSIZE)) (
       let stackbase = sz1 - USERSTACK * PGSIZE in
       bnd (exec_args argv pt stackbase 0 sz1 []) (\<lambda>r.
       case r of None \<Rightarrow> exec_bad pt sz1 None
       | Some (sp, ustack) \<Rightarrow>
           let argc = length ustack; sp1 = sp - of_nat (argc + 1) * 8; sp2 = sp1 - sp1 mod 16 in
           seq (defined_if (argc < MAXARG)) (
           if sp2 < stackbase then exec_bad pt sz1 None
           else
             bnd (copyout pt sp2 (concat (map bytes64 (ustack @ [0]))) (of_nat ((argc + 1) * 8))) (\<lambda>r.
             if r < 0 then exec_bad pt sz1 None
             else exec_commit me path pt sz1 oldsz entry sp2 argc))))))"

definition exec :: "u8 list \<Rightarrow> u64 list \<Rightarrow> int km" where
  "exec path argv =
     bnd mine (\<lambda>me.
     seq begin_op (
     bnd (namei path) (\<lambda>ip.
     case ip of None \<Rightarrow> seq end_op (ret (-1))
     | Some j \<Rightarrow>
         seq (ilock_in j) (
         bnd (readi j KVar 0 64) (\<lambda>r.
         let elf = snd r in
         if fst r \<noteq> 64 then exec_bad 0 0 ip
         else if get32 elf 0 \<noteq> ELF_MAGIC then exec_bad 0 0 ip
         else
           bnd (proc_pagetable me) (\<lambda>pt.
           if pt = 0 then exec_bad 0 0 ip
           else
             bnd (exec_load (unat (get16 elf 56)) j pt (ucast (get64 elf 32)) 0) (\<lambda>r.
             case r of Inl sz \<Rightarrow> exec_bad pt sz ip
             | Inr sz \<Rightarrow>
                 seq (iunlockput j) (
                 seq end_op (
                 bnd mine (\<lambda>me.
                 exec_stack me path argv pt sz (get64 elf 24))))))))))) "

end
