(* ===== verification/Sysfile.thy ===== *)
theory Sysfile
  imports Exec
begin

section \<open>The system calls on files (\<^verbatim>\<open>kernel/sysfile.c\<close>)\<close>

text \<open>
  Argument checks, and the operations on paths.  An inode whose count was raised is given back and
  a transaction that was opened is closed on every way out; \<^verbatim>\<open>goto bad\<close> is a definition of its own.
\<close>

subsection \<open>File descriptors\<close>

definition argfd :: "nat \<Rightarrow> (nat \<times> nat) option km" where
  "argfd n =
     bnd (argint n) (\<lambda>fd.
     if fd < 0 \<or> fd \<ge> int NOFILE then ret None
     else
       bnd mine (\<lambda>i.
       bnd (proc_get i) (\<lambda>p.
       ret (case ofile p ! nat fd of None \<Rightarrow> None | Some f \<Rightarrow> Some (nat fd, f)))))"

definition set_ofile :: "nat \<Rightarrow> nat \<Rightarrow> nat option \<Rightarrow> unit km" where
  "set_ofile i fd v = proc_mod i (\<lambda>p. p\<lparr>ofile := (ofile p)[fd := v]\<rparr>)"

definition fdalloc :: "nat \<Rightarrow> nat option km" where
  "fdalloc f =
     bnd mine (\<lambda>i.
     bnd (proc_get i) (\<lambda>p.
     case first_idx (\<lambda>x. x = None) (take NOFILE (ofile p)) of
       Some fd \<Rightarrow> seq (set_ofile i fd (Some f)) (ret (Some fd))
     | None \<Rightarrow> ret None))"

definition sys_dup :: "u64 km" where
  "sys_dup =
     bnd (argfd 0) (\<lambda>r.
     case r of None \<Rightarrow> ret (-1) | Some (k, f) \<Rightarrow>
     bnd (fdalloc f) (\<lambda>r.
     case r of None \<Rightarrow> ret (-1) | Some fd \<Rightarrow>
     bnd (filedup f) (\<lambda>_. ret (of_nat fd))))"

definition sys_read :: "u64 km" where
  "sys_read =
     bnd (argaddr 1) (\<lambda>p.
     bnd (argint 2) (\<lambda>n.
     bnd (argfd 0) (\<lambda>r.
     case r of None \<Rightarrow> ret (-1) | Some (k, f) \<Rightarrow>
     bnd (fileread f p n) (\<lambda>r. ret (word_of_int r)))))"

definition sys_write :: "u64 km" where
  "sys_write =
     bnd (argaddr 1) (\<lambda>p.
     bnd (argint 2) (\<lambda>n.
     bnd (argfd 0) (\<lambda>r.
     case r of None \<Rightarrow> ret (-1) | Some (k, f) \<Rightarrow>
     bnd (filewrite f p n) (\<lambda>r. ret (word_of_int r)))))"

definition sys_close :: "u64 km" where
  "sys_close =
     bnd (argfd 0) (\<lambda>r.
     case r of None \<Rightarrow> ret (-1) | Some (fd, f) \<Rightarrow>
     bnd mine (\<lambda>i.
     seq (set_ofile i fd None) (
     seq (fileclose f)
         (ret 0))))"

definition sys_fstat :: "u8 list \<Rightarrow> u64 km" where
  "sys_fstat pad =
     bnd (argaddr 1) (\<lambda>st.
     bnd (argfd 0) (\<lambda>r.
     case r of None \<Rightarrow> ret (-1) | Some (k, f) \<Rightarrow>
     bnd (filestat pad f st) (\<lambda>r. ret (word_of_int r))))"

subsection \<open>Links\<close>

definition name0 :: "u8 list" where
  "name0 = replicate DIRSIZ 0"

definition link_bad :: "nat \<Rightarrow> u64 km" where
  "link_bad ip =
     seq (ilock_in ip) (
     seq (inode_mod ip (\<lambda>i. i\<lparr>nlink := nlink i - 1\<rparr>)) (
     seq (iupdate ip) (
     seq (iunlockput ip) (
     seq end_op
         (ret (-1))))))"

definition sys_link :: "u64 km" where
  "sys_link =
     bnd (argstr 0 (of_nat MAXPATH)) (\<lambda>old.
     if fst old < 0 then ret (-1)
     else
       bnd (argstr 1 (of_nat MAXPATH)) (\<lambda>new.
       if fst new < 0 then ret (-1)
       else
         seq begin_op (
         bnd (namei (snd old)) (\<lambda>r.
         case r of None \<Rightarrow> seq end_op (ret (-1))
         | Some ip \<Rightarrow>
             seq (ilock_in ip) (
             bnd (inode_get ip) (\<lambda>i.
             if itype i = T_DIR then
               seq (iunlockput ip) (seq end_op (ret (-1)))
             else
               seq (inode_mod ip (\<lambda>i. i\<lparr>nlink := nlink i + 1\<rparr>)) (
               seq (iupdate ip) (
               seq (iunlock_in ip) (
               bnd (nameiparent (snd new) name0) (\<lambda>r.
               case r of (None, nm) \<Rightarrow> link_bad ip
               | (Some dp, nm) \<Rightarrow>
                   seq (ilock_in dp) (
                   bnd (inode_get dp) (\<lambda>d.
                   bnd (inode_get ip) (\<lambda>i.
                   bnd (if idev d \<noteq> idev i then ret (-1) else dirlink dp nm (inum i)) (\<lambda>r.
                   if r < 0 then seq (iunlockput dp) (link_bad ip)
                   else
                     seq (iunlockput dp) (
                     seq (iput ip) (
                     seq end_op
                         (ret 0)))))))))))))))))"

definition isdirempty :: "nat \<Rightarrow> bool km" where
  "isdirempty dp =
     bnd (inode_get dp) (\<lambda>ip.
     bnd (search (drop 2 (dir_offs (isize ip))) (\<lambda>off.
       bnd (read_dirent dp off ''isdirempty: readi'') (\<lambda>de.
       ret (if get16 de 0 \<noteq> 0 then Some () else None)))) (\<lambda>r.
     ret (r = None)))"

definition unlink_bad :: "nat \<Rightarrow> u64 km" where
  "unlink_bad dp = seq (iunlockput dp) (seq end_op (ret (-1)))"

text \<open>The second half of \<open>sys_unlink\<close>: the entry at \<open>off\<close> of \<open>dp\<close> names \<open>ip\<close>, both locked.\<close>

definition unlink_entry :: "nat \<Rightarrow> nat \<Rightarrow> u32 \<Rightarrow> u64 km" where
  "unlink_entry dp ip off =
     bnd (inode_get ip) (\<lambda>i.
     seq (guard_panic (sint (nlink i) < 1) ''unlink: nlink < 1'') (
     bnd (if itype i = T_DIR then isdirempty ip else ret True) (\<lambda>e.
     if \<not> e then seq (iunlockput ip) (unlink_bad dp)
     else
       bnd (writei dp (KSrc (replicate 16 0)) off 16) (\<lambda>r.
       seq (guard_panic (r \<noteq> 16) ''unlink: writei'') (
       bnd (inode_get ip) (\<lambda>i.
       seq (whenM (itype i = T_DIR)
             (seq (inode_mod dp (\<lambda>d. d\<lparr>nlink := nlink d - 1\<rparr>)) (iupdate dp))) (
       seq (iunlockput dp) (
       seq (inode_mod ip (\<lambda>i. i\<lparr>nlink := nlink i - 1\<rparr>)) (
       seq (iupdate ip) (
       seq (iunlockput ip) (
       seq end_op
           (ret 0))))))))))))"

definition dot :: "u8 list" where
  "dot = [46, 0]"

definition dotdot :: "u8 list" where
  "dotdot = [46, 46, 0]"

definition sys_unlink :: "u64 km" where
  "sys_unlink =
     bnd (argstr 0 (of_nat MAXPATH)) (\<lambda>path.
     if fst path < 0 then ret (-1)
     else
       seq begin_op (
       bnd (nameiparent (snd path) name0) (\<lambda>r.
       case r of (None, nm) \<Rightarrow> seq end_op (ret (-1))
       | (Some dp, nm) \<Rightarrow>
           seq (ilock_in dp) (
           bnd (namecmp nm dot) (\<lambda>c1.
           bnd (if c1 = 0 then ret 0 else namecmp nm dotdot) (\<lambda>c2.
           if c1 = 0 \<or> c2 = 0 then unlink_bad dp
           else
             bnd (dirlookup dp nm) (\<lambda>r.
             case r of None \<Rightarrow> unlink_bad dp
             | Some (ip, off) \<Rightarrow>
                 seq (ilock_in ip)
                     (unlink_entry dp ip off))))))))"

subsection \<open>Creating and opening\<close>

definition create_fail :: "nat \<Rightarrow> nat \<Rightarrow> nat option km" where
  "create_fail dp ip =
     seq (inode_mod ip (\<lambda>i. i\<lparr>nlink := 0\<rparr>)) (
     seq (iupdate ip) (
     seq (iunlockput ip) (
     seq (iunlockput dp)
         (ret None))))"

text \<open>A new inode of the given type, named \<open>nm\<close> in the locked directory \<open>dp\<close>.\<close>

definition create_new :: "nat \<Rightarrow> u8 list \<Rightarrow> u16 \<Rightarrow> u16 \<Rightarrow> u16 \<Rightarrow> nat option km" where
  "create_new dp nm type major minor =
     bnd (inode_get dp) (\<lambda>d.
     bnd (ialloc (idev d) type) (\<lambda>r.
     case r of None \<Rightarrow> seq (iunlockput dp) (ret None)
     | Some ip \<Rightarrow>
         seq (ilock_in ip) (
         seq (inode_mod ip (\<lambda>i. i\<lparr>imajor := major, iminor := minor, nlink := 1\<rparr>)) (
         seq (iupdate ip) (
         bnd (inode_get ip) (\<lambda>i.
         bnd (if type = T_DIR then
                bnd (dirlink ip dot (inum i)) (\<lambda>r.
                if r < 0 then ret r else bnd (inode_get dp) (\<lambda>d. dirlink ip dotdot (inum d)))
              else ret 0) (\<lambda>r.
         if r < 0 then create_fail dp ip
         else
           bnd (dirlink dp nm (inum i)) (\<lambda>r.
           if r < 0 then create_fail dp ip
           else
             seq (whenM (type = T_DIR)
                   (seq (inode_mod dp (\<lambda>d. d\<lparr>nlink := nlink d + 1\<rparr>)) (iupdate dp))) (
             seq (iunlockput dp)
                 (ret (Some ip)))))))))))"

definition create :: "u8 list \<Rightarrow> u16 \<Rightarrow> u16 \<Rightarrow> u16 \<Rightarrow> nat option km" where
  "create path type major minor =
     bnd (nameiparent path name0) (\<lambda>r.
     case r of (None, nm) \<Rightarrow> ret None
     | (Some dp, nm) \<Rightarrow>
         seq (ilock_in dp) (
         bnd (dirlookup dp nm) (\<lambda>r.
         case r of
           Some (ip, off) \<Rightarrow>
             seq (iunlockput dp) (
             seq (ilock_in ip) (
             bnd (inode_get ip) (\<lambda>i.
             if type = T_FILE \<and> (itype i = T_FILE \<or> itype i = T_DEVICE) then ret (Some ip)
             else seq (iunlockput ip) (ret None))))
         | None \<Rightarrow> create_new dp nm type major minor)))"

abbreviation (input) "O_WRONLY \<equiv> 1 :: u32"
abbreviation (input) "O_RDWR \<equiv> 2 :: u32"
abbreviation (input) "O_CREATE \<equiv> 0x200 :: u32"
abbreviation (input) "O_TRUNC \<equiv> 0x400 :: u32"

text \<open>The inode that \<open>sys_open\<close> opens, locked; \<open>None\<close> after the transaction was closed.\<close>

definition open_inode :: "u8 list \<Rightarrow> u32 \<Rightarrow> nat option km" where
  "open_inode path omode =
     (if omode AND O_CREATE \<noteq> 0 then
        bnd (create path T_FILE 0 0) (\<lambda>r.
        case r of None \<Rightarrow> seq end_op (ret None) | Some ip \<Rightarrow> ret (Some ip))
      else
        bnd (namei path) (\<lambda>r.
        case r of None \<Rightarrow> seq end_op (ret None)
        | Some ip \<Rightarrow>
            seq (ilock_in ip) (
            bnd (inode_get ip) (\<lambda>i.
            if itype i = T_DIR \<and> omode \<noteq> 0 then
              seq (iunlockput ip) (seq end_op (ret None))
            else ret (Some ip)))))"

definition open_bad :: "nat option \<Rightarrow> nat \<Rightarrow> u64 km" where
  "open_bad f ip =
     seq (case f of None \<Rightarrow> ret () | Some f \<Rightarrow> fileclose f) (
     seq (iunlockput ip) (
     seq end_op
         (ret (-1))))"

definition open_file :: "nat \<Rightarrow> nat \<Rightarrow> nat \<Rightarrow> u32 \<Rightarrow> u64 km" where
  "open_file f fd ip omode =
     bnd (inode_get ip) (\<lambda>i.
     seq (if itype i = T_DEVICE then
            seq (file_mod f (\<lambda>f. f\<lparr>ftype := FD_DEVICE\<rparr>)) (file_mod f (\<lambda>f. f\<lparr>fmajor := imajor i\<rparr>))
          else
            seq (file_mod f (\<lambda>f. f\<lparr>ftype := FD_INODE\<rparr>)) (file_mod f (\<lambda>f. f\<lparr>foff := 0\<rparr>))) (
     seq (file_mod f (\<lambda>f. f\<lparr>fip := Some ip\<rparr>)) (
     seq (file_mod f (\<lambda>f. f\<lparr>readable := (omode AND O_WRONLY = 0)\<rparr>)) (
     seq (file_mod f (\<lambda>f. f\<lparr>writable := (omode AND O_WRONLY \<noteq> 0 \<or> omode AND O_RDWR \<noteq> 0)\<rparr>)) (
     seq (whenM (omode AND O_TRUNC \<noteq> 0 \<and> itype i = T_FILE) (itrunc ip)) (
     seq (iunlock_in ip) (
     seq end_op
         (ret (of_nat fd)))))))))"

definition sys_open :: "u64 km" where
  "sys_open =
     bnd (argint 1) (\<lambda>om.
     bnd (argstr 0 (of_nat MAXPATH)) (\<lambda>path.
     if fst path < 0 then ret (-1)
     else
       let omode = word_of_int om :: u32 in
       seq begin_op (
       bnd (open_inode (snd path) omode) (\<lambda>r.
       case r of None \<Rightarrow> ret (-1)
       | Some ip \<Rightarrow>
           bnd (inode_get ip) (\<lambda>i.
           if itype i = T_DEVICE \<and> (sint (imajor i) < 0 \<or> sint (imajor i) \<ge> NDEV) then
             seq (iunlockput ip) (seq end_op (ret (-1)))
           else
             bnd filealloc (\<lambda>r.
             case r of None \<Rightarrow> open_bad None ip
             | Some f \<Rightarrow>
                 bnd (fdalloc f) (\<lambda>r.
                 case r of None \<Rightarrow> open_bad (Some f) ip
                 | Some fd \<Rightarrow> open_file f fd ip omode)))))))"

text \<open>\<open>sys_mkdir\<close> and \<open>sys_mknod\<close> end alike.\<close>

definition close_new :: "nat option \<Rightarrow> u64 km" where
  "close_new r =
     (case r of None \<Rightarrow> seq end_op (ret (-1))
      | Some ip \<Rightarrow> seq (iunlockput ip) (seq end_op (ret 0)))"

definition sys_mkdir :: "u64 km" where
  "sys_mkdir =
     seq begin_op (
     bnd (argstr 0 (of_nat MAXPATH)) (\<lambda>path.
     bnd (if fst path < 0 then ret None else create (snd path) T_DIR 0 0)
         close_new))"

definition sys_mknod :: "u64 km" where
  "sys_mknod =
     seq begin_op (
     bnd (argint 1) (\<lambda>major.
     bnd (argint 2) (\<lambda>minor.
     bnd (argstr 0 (of_nat MAXPATH)) (\<lambda>path.
     bnd (if fst path < 0 then ret None
          else create (snd path) T_DEVICE (word_of_int major) (word_of_int minor))
         close_new))))"

definition sys_chdir :: "u64 km" where
  "sys_chdir =
     bnd mine (\<lambda>me.
     seq begin_op (
     bnd (argstr 0 (of_nat MAXPATH)) (\<lambda>path.
     bnd (if fst path < 0 then ret None else namei (snd path)) (\<lambda>r.
     case r of None \<Rightarrow> seq end_op (ret (-1))
     | Some ip \<Rightarrow>
         seq (ilock_in ip) (
         bnd (inode_get ip) (\<lambda>i.
         if itype i \<noteq> T_DIR then
           seq (iunlockput ip) (seq end_op (ret (-1)))
         else
           seq (iunlock_in ip) (
           bnd (proc_get me) (\<lambda>p.
           seq (iput_p (cwd p)) (
           seq end_op (
           seq (proc_mod me (\<lambda>p. p\<lparr>cwd := Some ip\<rparr>))
               (ret 0)))))))))))"

subsection \<open>Running a program, making a pipe\<close>

text \<open>The argument pages, and whether all arguments were fetched; \<open>k\<close> entries of \<^verbatim>\<open>argv\<close> are left.\<close>

primrec fetch_args :: "nat \<Rightarrow> u64 \<Rightarrow> nat \<Rightarrow> u64 list \<Rightarrow> (bool \<times> u64 list) km" where
  "fetch_args 0 uargv i argv = ret (False, argv)"
| "fetch_args (Suc k) uargv i argv =
     bnd (fetchaddr (uargv + 8 * of_nat i)) (\<lambda>r.
     if fst r < 0 then ret (False, argv)
     else if snd r = 0 then ret (True, argv)
     else
       bnd kalloc (\<lambda>p.
       if p = 0 then ret (False, argv)
       else
         bnd (fetchstr (snd r) PGSIZE) (\<lambda>st.
         seq (modify (\<lambda>s. s\<lparr>mem := write_bytes (mem s) p (snd st)\<rparr>)) (
         if fst st < 0 then ret (False, argv @ [p])
         else fetch_args k uargv (i + 1) (argv @ [p])))))"

definition sys_exec :: "u64 km" where
  "sys_exec =
     bnd (argaddr 1) (\<lambda>uargv.
     bnd (argstr 0 (of_nat MAXPATH)) (\<lambda>path.
     if fst path < 0 then ret (-1)
     else
       bnd (fetch_args MAXARG uargv 0 []) (\<lambda>(ok, argv).
       bnd (if ok then exec (snd path) argv else ret (-1)) (\<lambda>r.
       seq (foreach argv kfree)
           (ret (word_of_int r))))))"

definition pipe_undo :: "nat \<Rightarrow> nat option \<Rightarrow> nat option \<Rightarrow> nat \<Rightarrow> nat \<Rightarrow> u64 km" where
  "pipe_undo me fd0 fd1 rf wfl =
     seq (case fd0 of None \<Rightarrow> ret () | Some k \<Rightarrow> set_ofile me k None) (
     seq (case fd1 of None \<Rightarrow> ret () | Some k \<Rightarrow> set_ofile me k None) (
     seq (fileclose rf) (
     seq (fileclose wfl)
         (ret (-1)))))"

definition sys_pipe :: "u64 km" where
  "sys_pipe =
     bnd mine (\<lambda>me.
     bnd (argaddr 0) (\<lambda>fdarray.
     bnd pipealloc (\<lambda>r.
     case r of None \<Rightarrow> ret (-1)
     | Some (rf, wfl) \<Rightarrow>
         bnd (fdalloc rf) (\<lambda>r0.
         case r0 of None \<Rightarrow> pipe_undo me None None rf wfl
         | Some fd0 \<Rightarrow>
             bnd (fdalloc wfl) (\<lambda>r1.
             case r1 of None \<Rightarrow> pipe_undo me (Some fd0) None rf wfl
             | Some fd1 \<Rightarrow>
                 bnd (proc_get me) (\<lambda>p.
                 bnd (copyout (pagetable p) fdarray (bytes32 (of_nat fd0)) 4) (\<lambda>c.
                 bnd (if c < 0 then ret c
                      else copyout (pagetable p) (fdarray + 4) (bytes32 (of_nat fd1)) 4) (\<lambda>c.
                 if c < 0 then pipe_undo me (Some fd0) (Some fd1) rf wfl
                 else ret 0))))))))"

end
