(* ===== verification/Virtio.thy ===== *)
theory Virtio
  imports Bio
begin

section \<open>The disk driver (\<^verbatim>\<open>kernel/virtio_disk.c\<close>)\<close>

text \<open>
  A request is a chain of three descriptors: a header, the buffer's data, a status byte.  The driver
  puts the chain's head on the avail ring and waits; the interrupt handler takes completed heads
  from the used ring.  \<open>virtio_submit\<close> is \<open>virtio_disk_rw\<close> up to its wait loop, \<open>virtio_finish\<close>
  what follows it.
\<close>

definition vd_mod :: "(vdisk \<Rightarrow> vdisk) \<Rightarrow> unit km" where
  "vd_mod f = modify (\<lambda>s. s\<lparr>vdisk := f (vdisk s)\<rparr>)"

abbreviation (input) "NUM \<equiv> 8 :: nat"
abbreviation (input) "VRING_DESC_F_NEXT \<equiv> 1 :: u16"
abbreviation (input) "VRING_DESC_F_WRITE \<equiv> 2 :: u16"

subsection \<open>Registers and initialisation\<close>

definition vd_rd :: "u64 \<Rightarrow> u32 km" where
  "vd_rd r = gets (\<lambda>s. vd_dev (vdisk s) (vd_writes (vdisk s)) r)"

definition vd_wr :: "u64 \<Rightarrow> u32 \<Rightarrow> unit km" where
  "vd_wr r v = vd_mod (\<lambda>d. d\<lparr>vd_writes := (r, v) # vd_writes d\<rparr>)"

definition unfeature :: "nat \<Rightarrow> u64 \<Rightarrow> u64" where
  "unfeature k f = f AND NOT (push_bit k 1)"

definition virtio_disk_init :: "unit km" where
  "virtio_disk_init =
     seq (initlock LDisk) (
     bnd (vd_rd 0x000) (\<lambda>magic.
     bnd (vd_rd 0x004) (\<lambda>version.
     bnd (vd_rd 0x008) (\<lambda>dev.
     bnd (vd_rd 0x00c) (\<lambda>vendor.
     seq (guard_panic (magic \<noteq> 0x74726976 \<or> version \<noteq> 2 \<or> dev \<noteq> 2 \<or> vendor \<noteq> 0x554d4551)
            ''could not find virtio disk'') (
     seq (vd_wr 0x070 0) (
     seq (vd_wr 0x070 1) (
     seq (vd_wr 0x070 (1 OR 2)) (
     bnd (vd_rd 0x010) (\<lambda>f.
     seq (vd_wr 0x020 (ucast (fold unfeature [5, 7, 11, 12, 27, 29, 28] (ucast f)))) (
     seq (vd_wr 0x070 (1 OR 2 OR 8)) (
     bnd (vd_rd 0x070) (\<lambda>status.
     seq (guard_panic (status AND 8 = 0) ''virtio disk FEATURES_OK unset'') (
     seq (vd_wr 0x030 0) (
     bnd (vd_rd 0x044) (\<lambda>ready.
     seq (guard_panic (ready \<noteq> 0) ''virtio disk should not be ready'') (
     bnd (vd_rd 0x034) (\<lambda>max.
     seq (guard_panic (max = 0) ''virtio disk has no queue 0'') (
     seq (guard_panic (max < of_nat NUM) ''virtio disk max queue too short'') (
     bnd kalloc (\<lambda>dsc.
     bnd kalloc (\<lambda>avl.
     bnd kalloc (\<lambda>usd.
     seq (guard_panic (dsc = 0 \<or> avl = 0 \<or> usd = 0) ''virtio disk kalloc'') (
     seq (vd_mod (\<lambda>d. d\<lparr>vd_desc := replicate NUM \<lparr>vq_addr = DmaNone, vq_len = 0, vq_flags = 0, vq_next = 0\<rparr>,
            av_idx := 0, av_ring := replicate NUM 0, us_idx := 0, us_ring := replicate NUM 0\<rparr>)) (
     seq (vd_wr 0x038 (of_nat NUM)) (
     seq (vd_wr 0x080 (ucast dsc)) (
     seq (vd_wr 0x084 (ucast (drop_bit 32 dsc))) (
     seq (vd_wr 0x090 (ucast avl)) (
     seq (vd_wr 0x094 (ucast (drop_bit 32 avl))) (
     seq (vd_wr 0x0a0 (ucast usd)) (
     seq (vd_wr 0x0a4 (ucast (drop_bit 32 usd))) (
     seq (vd_wr 0x044 1) (
     seq (foreach [0..<NUM] (\<lambda>i. vd_mod (\<lambda>d. d\<lparr>vd_free := (vd_free d)[i := True]\<rparr>)))
         (vd_wr 0x070 (status OR 4)))))))))))))))))))))))))))))))))))"

subsection \<open>Descriptors\<close>

definition alloc_desc :: "nat option km" where
  "alloc_desc =
     bnd (gets (\<lambda>s. vd_free (vdisk s))) (\<lambda>fr.
     case first_idx (\<lambda>x. x) fr of
       Some i \<Rightarrow> seq (vd_mod (\<lambda>d. d\<lparr>vd_free := (vd_free d)[i := False]\<rparr>)) (ret (Some i))
     | None \<Rightarrow> ret None)"

definition free_desc :: "nat \<Rightarrow> unit km" where
  "free_desc i =
     seq (guard_panic (i \<ge> NUM) ''free_desc 1'') (
     bnd (gets (\<lambda>s. vd_free (vdisk s))) (\<lambda>fr.
     seq (guard_panic (fr ! i) ''free_desc 2'') (
     seq (vd_mod (\<lambda>d. d\<lparr>vd_desc := (vd_desc d)[i := \<lparr>vq_addr = DmaNone, vq_len = 0, vq_flags = 0, vq_next = 0\<rparr>]\<rparr>)) (
     seq (vd_mod (\<lambda>d. d\<lparr>vd_free := (vd_free d)[i := True]\<rparr>))
         (wakeup CDiskFree)))))"

text \<open>
  A chain longer than the number of descriptors frees one twice, which panics: the fuel suffices.  For an index behind
  the table C reads other bytes of memory as flags and next index, and \<open>free_desc\<close> panics before they are used.
\<close>

primrec free_chain_loop :: "nat \<Rightarrow> nat \<Rightarrow> unit km" where
  "free_chain_loop 0 i = stuck"
| "free_chain_loop (Suc k) i =
     bnd (gets (\<lambda>s. vd_desc (vdisk s))) (\<lambda>ds.
     seq (free_desc i) (
     if vq_flags (ds ! i) AND VRING_DESC_F_NEXT \<noteq> 0 then free_chain_loop k (unat (vq_next (ds ! i)))
     else ret ()))"

definition free_chain :: "nat \<Rightarrow> unit km" where
  "free_chain i = free_chain_loop (NUM + 1) i"

primrec alloc_descs :: "nat \<Rightarrow> nat list \<Rightarrow> nat list option km" where
  "alloc_descs 0 got = ret (Some got)"
| "alloc_descs (Suc k) got =
     bnd alloc_desc (\<lambda>r.
     case r of
       None \<Rightarrow> seq (foreach got free_desc) (ret None)
     | Some i \<Rightarrow> alloc_descs k (got @ [i]))"

definition alloc3_desc :: "nat list option km" where
  "alloc3_desc = alloc_descs 3 []"

subsection \<open>Requests\<close>

definition set_desc :: "nat \<Rightarrow> dma \<Rightarrow> u32 \<Rightarrow> u16 \<Rightarrow> nat \<Rightarrow> unit km" where
  "set_desc i a len fl nx =
     vd_mod (\<lambda>d. d\<lparr>vd_desc := (vd_desc d)[i := \<lparr>vq_addr = a, vq_len = len, vq_flags = fl, vq_next = of_nat nx\<rparr>]\<rparr>)"

definition virtio_submit :: "nat \<Rightarrow> bool \<Rightarrow> nat km" where
  "virtio_submit b write =
     bnd (buf_get b) (\<lambda>bb.
     let sector = ucast (blockno bb * 2 :: u32) :: u64 in
     seq (acquire LDisk) (
     bnd alloc3_desc (\<lambda>r.
     case r of None \<Rightarrow> sleep_wait CDiskFree LDisk
     | Some idx \<Rightarrow>
         let i0 = idx ! 0; i1 = idx ! 1; i2 = idx ! 2 in
         seq (vd_mod (\<lambda>d. d\<lparr>vd_ops := (vd_ops d)[i0 :=
                \<lparr>rq_type = (if write then 1 else 0), rq_reserved = 0, rq_sector = sector\<rparr>]\<rparr>)) (
         seq (set_desc i0 (DmaReq i0) 16 VRING_DESC_F_NEXT i1) (
         seq (set_desc i1 (DmaBuf b) (of_nat BSIZE)
                ((if write then 0 else VRING_DESC_F_WRITE) OR VRING_DESC_F_NEXT) i2) (
         seq (vd_mod (\<lambda>d. d\<lparr>vd_info_status := (vd_info_status d)[i0 := 0xff]\<rparr>)) (
         seq (set_desc i2 (DmaStatus i0) 1 VRING_DESC_F_WRITE 0) (
         seq (buf_mod b (\<lambda>x. x\<lparr>bdisk := True\<rparr>)) (
         seq (vd_mod (\<lambda>d. d\<lparr>vd_info_b := (vd_info_b d)[i0 := Some b]\<rparr>)) (
         seq (vd_mod (\<lambda>d. d\<lparr>av_ring := (av_ring d)[unat (av_idx d) mod NUM := of_nat i0]\<rparr>)) (
         seq (vd_mod (\<lambda>d. d\<lparr>av_idx := av_idx d + 1\<rparr>)) (
         seq (vd_wr 0x050 0)
             (ret i0)))))))))))))"

text \<open>The wait loop: asleep until the handler clears \<open>bdisk\<close>.\<close>

definition virtio_finish :: "nat \<Rightarrow> nat \<Rightarrow> unit km" where
  "virtio_finish b i0 =
     bnd (buf_get b) (\<lambda>bb.
     if bdisk bb then sleep_wait (CBuf b) LDisk
     else
       seq (vd_mod (\<lambda>d. d\<lparr>vd_info_b := (vd_info_b d)[i0 := None]\<rparr>)) (
       seq (free_chain i0)
           (release LDisk)))"

text \<open>\<open>k\<close> completions are on the used ring.\<close>

primrec virtio_intr_loop :: "nat \<Rightarrow> unit km" where
  "virtio_intr_loop 0 = ret ()"
| "virtio_intr_loop (Suc k) =
     bnd (gets vdisk) (\<lambda>d.
     let n = unat (us_ring d ! (unat (vd_used_idx d) mod NUM)) in
     seq (defined_if (n < NUM)) (
     seq (guard_panic (vd_info_status d ! n \<noteq> 0) ''virtio_disk_intr status'') (
     bnd (deref (vd_info_b d ! n)) (\<lambda>b.
     seq (buf_mod b (\<lambda>x. x\<lparr>bdisk := False\<rparr>)) (
     seq (wakeup (CBuf b)) (
     seq (vd_mod (\<lambda>d. d\<lparr>vd_used_idx := vd_used_idx d + 1\<rparr>))
         (virtio_intr_loop k)))))))"

definition virtio_disk_intr :: "unit km" where
  "virtio_disk_intr =
     seq (acquire LDisk) (
     bnd (vd_rd 0x060) (\<lambda>st.
     seq (vd_wr 0x064 (st AND 3)) (
     bnd (gets vdisk) (\<lambda>d.
     seq (virtio_intr_loop (unat (us_idx d - vd_used_idx d)))
         (release LDisk)))))"

end
