(* ===== verification/Trap.thy ===== *)
theory Trap
  imports Sysfile Virtio
begin

section \<open>System-call dispatch, traps and interrupts (\<^verbatim>\<open>kernel/syscall.c\<close>, \<^verbatim>\<open>trap.c\<close>, \<^verbatim>\<open>plic.c\<close>)\<close>

text \<open>
  \<open>usertrap\<close> and \<open>kerneltrap\<close> read the trap registers \<open>csrs\<close>.  The return to user space ends in a jump:
  \<open>usertrapret\<close> answers with its target and its argument.  \<open>pad\<close> is the stack padding that
  \<open>sys_fstat\<close> copies.
\<close>

subsection \<open>Dispatch\<close>

definition syscalls :: "u8 list \<Rightarrow> u64 km list" where
  "syscalls pad = [sys_fork, sys_exit, sys_wait, sys_pipe, sys_read, sys_kill, sys_exec, sys_fstat pad,
     sys_chdir, sys_dup, sys_getpid, sys_sbrk, sys_sleep, sys_uptime, sys_open, sys_write, sys_mknod,
     sys_unlink, sys_link, sys_mkdir, sys_close, sys_trace, sys_sysinfo]"

definition syscallnames :: "string list" where
  "syscallnames = [[], ''fork'', ''exit'', ''wait'', ''pipe'', ''read'', ''kill'', ''exec'', ''fstat'', ''chdir'',
     ''dup'', ''getpid'', ''sbrk'', ''sleep'', ''uptime'', ''open'', ''write'', ''mknod'', ''unlink'', ''link'',
     ''mkdir'', ''close'', ''trace'', ''sysinfo'']"

definition line :: "string \<Rightarrow> u8 list" where
  "line f = bytes_of f @ [10]"

text \<open>The table has no entry 0: the call with number \<open>n\<close> is entry \<open>n - 1\<close> of \<open>syscalls\<close>.\<close>

definition syscall :: "u8 list \<Rightarrow> unit km" where
  "syscall pad =
     bnd mine (\<lambda>i.
     bnd (proc_get i) (\<lambda>p.
     bnd (ld64 (trapframe p + TF_a7)) (\<lambda>a7.
     let num = sint (ucast a7 :: u32) in
     if num > 0 \<and> num < 24 then
       bnd (syscalls pad ! (nat num - 1)) (\<lambda>r.
       bnd (proc_get i) (\<lambda>p.
       seq (st64 (trapframe p + TF_a0) r) (
       whenM (trace_mask p AND push_bit (nat num) 1 \<noteq> 0)
         (bnd (ld64 (trapframe p + TF_a0)) (\<lambda>a0.
          printf (line ''%d: syscall %s -> %ld'')
            [PVal (word_of_int (pid p)), PStr (Some (bytes_of (syscallnames ! nat num))), PVal a0])))))
     else
       seq (printf (line ''%d %s: unknown sys call %d'')
              [PVal (word_of_int (pid p)), PStr (Some (takeWhile (\<lambda>c. c \<noteq> 0) (pname p))), PVal (word_of_int num)])
           (st64 (trapframe p + TF_a0) (-1)))))"

subsection \<open>Trap registers and the interrupt controller\<close>

definition csr_mod :: "(csr \<Rightarrow> csr) \<Rightarrow> unit km" where
  "csr_mod f = modify (\<lambda>s. s\<lparr>csrs := f (csrs s)\<rparr>)"

abbreviation (input) "SSTATUS_SIE \<equiv> 2 :: u64"
abbreviation (input) "SSTATUS_SPIE \<equiv> 0x20 :: u64"
abbreviation (input) "SSTATUS_SPP \<equiv> 0x100 :: u64"
abbreviation (input) "UART0_IRQ \<equiv> 10 :: nat"
abbreviation (input) "VIRTIO0_IRQ \<equiv> 1 :: nat"

definition r_sstatus :: "u64 km" where
  "r_sstatus = gets (\<lambda>s. if csie (kcpu s) then sstatus (csrs s) OR SSTATUS_SIE else sstatus (csrs s) AND NOT SSTATUS_SIE)"

definition w_sstatus :: "u64 \<Rightarrow> unit km" where
  "w_sstatus x =
     seq (csr_mod (\<lambda>c. c\<lparr>sstatus := x AND NOT SSTATUS_SIE\<rparr>))
         (cpu_mod (\<lambda>c. c\<lparr>csie := (x AND SSTATUS_SIE \<noteq> 0)\<rparr>))"

definition cpuid :: "u32 km" where
  "cpuid = gets (\<lambda>s. ucast (tp (csrs s)))"

definition plic_mod :: "(plicst \<Rightarrow> plicst) \<Rightarrow> unit km" where
  "plic_mod f = modify (\<lambda>s. s\<lparr>plic := f (plic s)\<rparr>)"

definition plicinit :: "unit km" where
  "plicinit =
     seq (plic_mod (\<lambda>p. p\<lparr>plic_prio := (plic_prio p)(UART0_IRQ := 1)\<rparr>))
         (plic_mod (\<lambda>p. p\<lparr>plic_prio := (plic_prio p)(VIRTIO0_IRQ := 1)\<rparr>))"

definition plicinithart :: "unit km" where
  "plicinithart =
     seq (plic_mod (\<lambda>p. p\<lparr>plic_enable := push_bit UART0_IRQ 1 OR push_bit VIRTIO0_IRQ 1\<rparr>))
         (plic_mod (\<lambda>p. p\<lparr>plic_thresh := 0\<rparr>))"

definition plic_claim :: "int km" where
  "plic_claim =
     bnd (gets (\<lambda>s. plic_pending (plic s))) (\<lambda>q.
     case q of [] \<Rightarrow> ret 0
     | irq # q' \<Rightarrow> seq (plic_mod (\<lambda>p. p\<lparr>plic_pending := q'\<rparr>)) (ret (sint irq)))"

definition plic_complete :: "int \<Rightarrow> unit km" where
  "plic_complete irq = plic_mod (\<lambda>p. p\<lparr>plic_done := plic_done p @ [word_of_int irq]\<rparr>)"

subsection \<open>Interrupts\<close>

definition trapinit :: "unit km" where
  "trapinit = initlock LTicks"

definition trapinithart :: "unit km" where
  "trapinithart = bnd (gets (\<lambda>s. ksym s Skernelvec)) (\<lambda>v. csr_mod (\<lambda>c. c\<lparr>stvec := v\<rparr>))"

definition clockintr :: "unit km" where
  "clockintr =
     bnd cpuid (\<lambda>c.
     seq (whenM (c = 0)
           (seq (acquire LTicks) (
            seq (modify (\<lambda>s. s\<lparr>ticks := ticks s + 1\<rparr>)) (
            seq (wakeup CTicks)
                (release LTicks))))) (
     bnd (gets rtime) (\<lambda>t. csr_mod (\<lambda>c. c\<lparr>stimecmp := t + 1000000\<rparr>))))"

definition devintr :: "int km" where
  "devintr =
     bnd (gets (\<lambda>s. scause (csrs s))) (\<lambda>cause.
     if cause = 0x8000000000000009 then
       bnd plic_claim (\<lambda>irq.
       seq (if irq = int UART0_IRQ then uartintr
            else if irq = int VIRTIO0_IRQ then virtio_disk_intr
            else whenM (irq \<noteq> 0) (printf (line ''unexpected interrupt irq=%d'') [PVal (word_of_int irq)])) (
       seq (whenM (irq \<noteq> 0) (plic_complete irq))
           (ret 1)))
     else if cause = 0x8000000000000005 then seq clockintr (ret 2)
     else ret 0)"

subsection \<open>Traps from user space and back\<close>

definition MAKE_SATP :: "u64 \<Rightarrow> u64" where
  "MAKE_SATP pt = push_bit 60 8 OR drop_bit 12 pt"

definition usertrapret :: "(u64 \<times> u64) km" where
  "usertrapret =
     bnd mine (\<lambda>i.
     seq kintr_off (
     bnd (gets (\<lambda>s. ksym s)) (\<lambda>sym.
     bnd (gets trampoline) (\<lambda>tr.
     seq (csr_mod (\<lambda>c. c\<lparr>stvec := TRAMPOLINE + (sym Suservec - tr)\<rparr>)) (
     bnd (proc_get i) (\<lambda>p.
     bnd (gets csrs) (\<lambda>c.
     seq (st64 (trapframe p + TF_kernel_satp) (satp c)) (
     seq (st64 (trapframe p + TF_kernel_sp) (kstack p + PGSIZE)) (
     seq (st64 (trapframe p + TF_kernel_trap) (sym Susertrap)) (
     seq (st64 (trapframe p + TF_kernel_hartid) (tp c)) (
     bnd r_sstatus (\<lambda>x.
     seq (w_sstatus ((x AND NOT SSTATUS_SPP) OR SSTATUS_SPIE)) (
     bnd (ld64 (trapframe p + TF_epc)) (\<lambda>pc.
     seq (csr_mod (\<lambda>c. c\<lparr>sepc := pc\<rparr>))
         (ret (TRAMPOLINE + (sym Suserret - tr), MAKE_SATP (pagetable p)))))))))))))))))"

definition usertrap :: "u8 list \<Rightarrow> (u64 \<times> u64) km" where
  "usertrap pad =
     bnd r_sstatus (\<lambda>st.
     seq (guard_panic (st AND SSTATUS_SPP \<noteq> 0) ''usertrap: not from user mode'') (
     seq trapinithart (
     bnd mine (\<lambda>i.
     bnd (proc_get i) (\<lambda>p.
     bnd (gets csrs) (\<lambda>c.
     seq (st64 (trapframe p + TF_epc) (sepc c)) (
     bnd (if scause c = 8 then
            bnd (killed i) (\<lambda>k.
            seq (whenM (k \<noteq> 0) (exit (-1))) (
            bnd (ld64 (trapframe p + TF_epc)) (\<lambda>pc.
            seq (st64 (trapframe p + TF_epc) (pc + 4)) (
            seq kintr_on (
            seq (syscall pad)
                (ret 0))))))
          else
            bnd devintr (\<lambda>d.
            seq (whenM (d = 0)
              (bnd (gets csrs) (\<lambda>c.
               seq (printf (line ''usertrap(): unexpected scause 0x%lx pid=%d'') [PVal (scause c), PVal (word_of_int (pid p))]) (
               seq (printf (line ''            sepc=0x%lx stval=0x%lx'') [PVal (sepc c), PVal (stval c)])
                   (setkilled i)))))
             (ret d))) (\<lambda>which_dev.
     bnd (killed i) (\<lambda>k.
     seq (whenM (k \<noteq> 0) (exit (-1))) (
     seq (whenM (which_dev = 2) yield)
         usertrapret))))))))))"

text \<open>The first run of a new process; the scheduler left it its lock.\<close>

definition forkret :: "(u64 \<times> u64) km" where
  "forkret =
     bnd mine (\<lambda>i.
     seq (release (LProc i)) (
     bnd (gets fs_first) (\<lambda>first.
     seq (whenM first
           (seq (fsinit ROOTDEV)
                (modify (\<lambda>s. s\<lparr>fs_first := False\<rparr>))))
         usertrapret)))"

definition kerneltrap :: "unit km" where
  "kerneltrap =
     bnd (gets csrs) (\<lambda>c.
     bnd r_sstatus (\<lambda>st.
     seq (guard_panic (st AND SSTATUS_SPP = 0) ''kerneltrap: not from supervisor mode'') (
     bnd kintr_get (\<lambda>on.
     seq (guard_panic on ''kerneltrap: interrupts enabled'') (
     bnd devintr (\<lambda>which_dev.
     seq (whenM (which_dev = 0)
           (seq (printf (line ''scause=0x%lx sepc=0x%lx stval=0x%lx'') [PVal (scause c), PVal (sepc c), PVal (stval c)])
                (panic ''kerneltrap''))) (
     bnd (if which_dev = 2 then myproc else ret None) (\<lambda>me.
     seq (whenM (me \<noteq> None) yield) (
     seq (csr_mod (\<lambda>k. k\<lparr>sepc := sepc c\<rparr>))
         (w_sstatus st))))))))))"

end
