(* ===== verification/Boot.thy ===== *)
theory Boot
  imports Trap
begin

section \<open>From reset to the scheduler (\<^verbatim>\<open>kernel/start.c\<close>, \<^verbatim>\<open>main.c\<close>)\<close>

subsection \<open>Machine mode\<close>

text \<open>The machine-mode and supervisor registers that \<open>start\<close> sets up before \<^verbatim>\<open>mret\<close> enters \<open>main\<close>.\<close>

record mregs =
  m_status :: u64
  m_epc :: u64
  m_satp :: u64
  m_edeleg :: u64
  m_ideleg :: u64
  m_sie :: u64
  m_pmpaddr0 :: u64
  m_pmpcfg0 :: u64
  m_ie :: u64
  m_envcfg :: u64
  m_counteren :: u64
  m_stimecmp :: u64
  m_time :: u64
  m_hartid :: u64
  m_tp :: u64

definition timerinit :: "mregs \<Rightarrow> mregs" where
  "timerinit r = r\<lparr>m_ie := m_ie r OR push_bit 5 1, m_envcfg := m_envcfg r OR push_bit 63 1,
     m_counteren := m_counteren r OR 2, m_stimecmp := m_time r + 1000000\<rparr>"

definition start :: "u64 \<Rightarrow> mregs \<Rightarrow> mregs" where
  "start main_addr r =
     (let x = m_status r; x = x AND NOT (push_bit 11 3); x = x OR push_bit 11 1;
          r = r\<lparr>m_status := x\<rparr>; r = r\<lparr>m_epc := main_addr\<rparr>; r = r\<lparr>m_satp := 0\<rparr>;
          r = r\<lparr>m_edeleg := 0xffff\<rparr>; r = r\<lparr>m_ideleg := 0xffff\<rparr>;
          r = r\<lparr>m_sie := m_sie r OR push_bit 9 1 OR push_bit 5 1 OR push_bit 1 1\<rparr>;
          r = r\<lparr>m_pmpaddr0 := 0x3fffffffffffff\<rparr>; r = r\<lparr>m_pmpcfg0 := 0xf\<rparr>;
          r = timerinit r
      in r\<lparr>m_tp := m_hartid r\<rparr>)"

subsection \<open>Supervisor mode\<close>

definition kvminithart :: "unit km" where
  "kvminithart = bnd (gets kernel_pagetable) (\<lambda>pt. csr_mod (\<lambda>c. c\<lparr>satp := MAKE_SATP pt\<rparr>))"

text \<open>\<open>main\<close> on hart 0, up to the call of the scheduler.\<close>

definition main_boot :: "unit km" where
  "main_boot =
     seq consoleinit (
     seq (initlock LPr) (
     seq (printf [10] []) (
     seq (printf (line ''xv6 kernel is booting'') []) (
     seq (printf [10] []) (
     seq kinit (
     seq kvminit (
     seq kvminithart (
     seq procinit (
     seq trapinit (
     seq trapinithart (
     seq plicinit (
     seq plicinithart (
     seq binit (
     seq iinit (
     seq fileinit (
     seq virtio_disk_init
         userinit))))))))))))))))"

text \<open>\<open>main\<close> on another hart, once \<^verbatim>\<open>started\<close> is set.\<close>

definition main_hart :: "unit km" where
  "main_hart =
     bnd cpuid (\<lambda>c.
     seq (printf (line ''hart %d starting'') [PVal (scast c)]) (
     seq kvminithart (
     seq trapinithart
         plicinithart)))"

end
