(* ===== verification/Bcache.thy ===== *)
theory Bcache
  imports Log
begin

section \<open>The block cache as a map from blocks to their contents\<close>

text \<open>
  \<open>cinv d me L P s\<close>: the cache is consistent for device \<open>d\<close>, process \<open>me\<close> holds exactly the buffers
  \<open>L\<close>, and the buffers \<open>P\<close> are pinned once each.  A block is cached at most once; a buffer that nobody
  holds or pins, and that is valid, agrees with the disk.  \<open>view d s b\<close> is the contents of block \<open>b\<close> as
  the kernel sees it.
\<close>

definition buf_ok :: "u32 \<Rightarrow> nat \<Rightarrow> nat set \<Rightarrow> nat set \<Rightarrow> kernel \<Rightarrow> nat \<Rightarrow> bool" where
  "buf_ok d me L P s i \<longleftrightarrow> (let b = bufs s ! i in
     slocked (block_lock b) = (i \<in> L) \<and> (i \<in> L \<longrightarrow> block_lock b = blocked_by s me) \<and>
     refcnt b = of_bool (i \<in> L) + of_bool (i \<in> P) \<and>
     (i \<in> L \<union> P \<longrightarrow> bvalid b \<and> bdev b = d) \<and> length (bdata b) = BSIZE \<and>
     (i \<notin> L \<union> P \<and> bvalid b \<and> bdev b = d \<longrightarrow> bdata b = disk s (unat (blockno b))))"

definition once :: "u32 \<Rightarrow> buf list \<Rightarrow> bool" where
  "once d B \<longleftrightarrow> (\<forall>i < NBUF. \<forall>j < NBUF. bdev (B ! i) = d \<and> bdev (B ! j) = d \<and> blockno (B ! i) = blockno (B ! j) \<longrightarrow> i = j)"

definition cinv :: "u32 \<Rightarrow> nat \<Rightarrow> nat set \<Rightarrow> nat set \<Rightarrow> kernel \<Rightarrow> bool" where
  "cinv d me L P s \<longleftrightarrow> calm me s \<and> (\<exists>xs. lru (bufs s) xs) \<and> L \<subseteq> {..<NBUF} \<and> P \<subseteq> {..<NBUF} \<and>
     (\<forall>i < NBUF. buf_ok d me L P s i) \<and> once d (bufs s) \<and> (\<forall>k. length (disk s k) = BSIZE)"

definition view :: "u32 \<Rightarrow> kernel \<Rightarrow> u32 \<Rightarrow> u8 list" where
  "view d s b = (case find (\<lambda>i. hit (bufs s) d b i \<and> bvalid (bufs s ! i)) [0..<NBUF] of
     Some i \<Rightarrow> bdata (bufs s ! i) | None \<Rightarrow> disk s (unat b))"

lemma view_cached:
  assumes "once d (bufs s)" and "i < NBUF" and "bdev (bufs s ! i) = d" and "bvalid (bufs s ! i)"
  shows "view d s (blockno (bufs s ! i)) = bdata (bufs s ! i)"
proof -
  let ?P = "\<lambda>j. hit (bufs s) d (blockno (bufs s ! i)) j \<and> bvalid (bufs s ! j)"
  have "find ?P [0..<NBUF] \<noteq> None" using assms by (auto simp: find_None_iff hit_def)
  then obtain j where j: "find ?P [0..<NBUF] = Some j" by auto
  then have "j < NBUF" "?P j" using find_in [OF j] by auto
  then have "j = i" using assms by (auto simp: once_def hit_def)
  then show ?thesis using j by (simp add: view_def)
qed

lemma view_uncached:
  assumes "\<And>i. i < NBUF \<Longrightarrow> hit (bufs s) d b i \<Longrightarrow> \<not> bvalid (bufs s ! i)"
  shows "view d s b = disk s (unat b)"
proof -
  have "find (\<lambda>j. hit (bufs s) d b j \<and> bvalid (bufs s ! j)) [0..<NBUF] = None"
    using assms by (auto simp: find_None_iff)
  then show ?thesis by (simp add: view_def)
qed

lemma cinvD:
  assumes "cinv d me L P s"
  shows "calm me s" "length (bufs s) = NBUF + 1" "once d (bufs s)" "\<And>i. i < NBUF \<Longrightarrow> buf_ok d me L P s i"
    "L \<subseteq> {..<NBUF}" "P \<subseteq> {..<NBUF}" "\<And>k. length (disk s k) = BSIZE" "finite L" "finite P"
  using assms by (auto simp: cinv_def lru_def intro: finite_subset)

lemma cinv_held:
  assumes "cinv d me L P s" and "i \<in> L"
  shows "i < NBUF" "block_lock (bufs s ! i) = blocked_by s me" "bvalid (bufs s ! i)" "bdev (bufs s ! i) = d"
    "length (bdata (bufs s ! i)) = BSIZE" "refcnt (bufs s ! i) = 1 + of_bool (i \<in> P)"
    "view d s (blockno (bufs s ! i)) = bdata (bufs s ! i)"
proof -
  show i: "i < NBUF" using assms cinvD(5) by blast
  show 1: "block_lock (bufs s ! i) = blocked_by s me" "bvalid (bufs s ! i)" "bdev (bufs s ! i) = d"
    "length (bdata (bufs s ! i)) = BSIZE" "refcnt (bufs s ! i) = 1 + of_bool (i \<in> P)"
    using cinvD(4) [OF assms(1) i] assms(2) by (simp_all add: buf_ok_def Let_def)
  show "view d s (blockno (bufs s ! i)) = bdata (bufs s ! i)"
    using cinvD(3) [OF assms(1)] i 1 by (intro view_cached)
qed

text \<open>A change of one buffer, for the views.\<close>

lemma view_other:
  assumes "bufs t = (bufs s)[i := b]" and "disk t = disk s" and "i < length (bufs s)"
    and "bdev (bufs s ! i) = d \<and> bvalid (bufs s ! i) \<Longrightarrow> blockno (bufs s ! i) \<noteq> c"
    and "bdev b = d \<and> bvalid b \<Longrightarrow> blockno b \<noteq> c"
  shows "view d t c = view d s c"
proof -
  have e: "hit (bufs t) d c j \<and> bvalid (bufs t ! j) \<longleftrightarrow> hit (bufs s) d c j \<and> bvalid (bufs s ! j)" for j
    using assms by (auto simp: hit_def nth_list_update)
  have f: "find (\<lambda>j. hit (bufs t) d c j \<and> bvalid (bufs t ! j)) [0..<NBUF] =
      find (\<lambda>j. hit (bufs s) d c j \<and> bvalid (bufs s ! j)) [0..<NBUF]"
    unfolding e ..
  show ?thesis
  proof (cases "find (\<lambda>j. hit (bufs s) d c j \<and> bvalid (bufs s ! j)) [0..<NBUF]")
    case None
    then show ?thesis using f assms(2) by (simp add: view_def)
  next
    case (Some j)
    then have "hit (bufs s) d c j \<and> bvalid (bufs s ! j)" using find_in by fastforce
    then have "j \<noteq> i" using assms(4) by (auto simp: hit_def)
    then show ?thesis using f Some assms(1) by (simp add: view_def)
  qed
qed

lemma view_core:
  assumes "\<And>k. core (bufs t ! k) = core (bufs s ! k)" and "disk t = disk s"
  shows "view d t c = view d s c"
proof -
  have e: "hit (bufs t) d c j = hit (bufs s) d c j" "bvalid (bufs t ! j) = bvalid (bufs s ! j)"
    "bdata (bufs t ! j) = bdata (bufs s ! j)" for j
    using coreD [OF assms(1) [of j]] by (auto simp: hit_def)
  show ?thesis unfolding view_def e assms(2) ..
qed

lemma ref_cases [simp]:
  "(of_bool p + of_bool q :: u32) = 0 \<longleftrightarrow> \<not> p \<and> \<not> q" "(1 + of_bool q :: u32) = 0 \<longleftrightarrow> False" "(1 + of_bool q :: u32) = 1 \<longleftrightarrow> \<not> q"
  by (cases p; cases q; simp)+

text \<open>A change of one buffer, for the invariant.\<close>

lemma cinv_upd:
  assumes c: "cinv d me L P s" and i: "i < NBUF" and t: "bufs t = (bufs s)[i := b]" "procs t = procs s" "kcpu t = kcpu s" "disk t = disk s"
    and l: "bnext b = bnext (bufs s ! i)" "bprev b = bprev (bufs s ! i)"
    and ok: "buf_ok d me L' P' t i" and L: "\<And>j. j \<noteq> i \<Longrightarrow> j \<in> L' \<longleftrightarrow> j \<in> L" and P: "\<And>j. j \<noteq> i \<Longrightarrow> j \<in> P' \<longleftrightarrow> j \<in> P"
    and u: "\<And>j. bdev b = d \<Longrightarrow> j < NBUF \<Longrightarrow> j \<noteq> i \<Longrightarrow> bdev (bufs s ! j) = d \<Longrightarrow> blockno (bufs s ! j) \<noteq> blockno b"
  shows "cinv d me L' P' t"
proof -
  note C = cinvD [OF c]
  have len: "i < length (bufs s)" using C(2) i by simp
  obtain xs where x: "lru (bufs s) xs" using c by (auto simp: cinv_def)
  have "lru (bufs t) xs" unfolding t using x l by (rule lru_body)
  moreover have "calm me t" by (rule calm_same [OF C(1) t(2,3)])
  moreover have "buf_ok d me L' P' t j" if "j < NBUF" for j
  proof (cases "j = i")
    case False
    have e: "bufs t ! j = bufs s ! j" "disk t = disk s" "blocked_by t me = blocked_by s me"
      using False t by (simp_all add: blocked_by_def)
    show ?thesis using C(4) [OF that] unfolding buf_ok_def e L [OF False] P [OF False] Un_iff .
  qed (use ok in simp)
  moreover have "once d (bufs t)"
    unfolding once_def
  proof (intro allI impI)
    fix j k assume h: "j < NBUF" "k < NBUF" "bdev (bufs t ! j) = d \<and> bdev (bufs t ! k) = d \<and> blockno (bufs t ! j) = blockno (bufs t ! k)"
    have a: "bufs t ! m = (if m = i then b else bufs s ! m)" for m using len t by (simp add: nth_list_update)
    show "j = k"
      using h u [of j] u [of k] C(3) unfolding a once_def by (cases "j = i"; cases "k = i") auto
  qed
  moreover have "L' \<subseteq> {..<NBUF}"
  proof
    fix j assume "j \<in> L'"
    then show "j \<in> {..<NBUF}" using C(5) L [of j] i by (cases "j = i") auto
  qed
  moreover have "P' \<subseteq> {..<NBUF}"
  proof
    fix j assume "j \<in> P'"
    then show "j \<in> {..<NBUF}" using C(6) P [of j] i by (cases "j = i") auto
  qed
  moreover have "length (disk t k) = BSIZE" for k using C(7) t(4) by simp
  ultimately show ?thesis unfolding cinv_def by blast
qed

subsection \<open>Reading a block\<close>

text \<open>A buffer that \<open>bget\<close> can recycle exists while fewer than \<open>NBUF\<close> are held or pinned.\<close>

lemma unused_exists:
  assumes "cinv d me L P s" and "card (L \<union> P) < NBUF" and "set xs = {..<NBUF}"
  shows "\<exists>i. find (\<lambda>i. refcnt (bufs s ! i) = 0) (rev xs) = Some i \<and> i < NBUF \<and> i \<notin> L \<union> P"
proof -
  have "\<exists>i < NBUF. i \<notin> L \<union> P"
  proof (rule ccontr)
    assume "\<not> ?thesis"
    then have "{..<NBUF} \<subseteq> L \<union> P" by auto
    then have "card {..<NBUF} \<le> card (L \<union> P)" using cinvD(8,9) [OF assms(1)] by (intro card_mono) auto
    then show False using assms(2) by simp
  qed
  then obtain k where k: "k < NBUF" "k \<notin> L \<union> P" by auto
  then have "refcnt (bufs s ! k) = 0" using cinvD(4) [OF assms(1) k(1)] by (simp add: buf_ok_def Let_def)
  then have "find (\<lambda>i. refcnt (bufs s ! i) = 0) (rev xs) \<noteq> None" using k assms(3) by (auto simp: find_None_iff)
  then obtain i where i: "find (\<lambda>i. refcnt (bufs s ! i) = 0) (rev xs) = Some i" by auto
  then have "i < NBUF" "refcnt (bufs s ! i) = 0" using find_in [OF i] assms(3) by auto
  moreover have "i \<notin> L \<union> P"
    using cinvD(4) [OF assms(1) \<open>i < NBUF\<close>] calculation(2) by (auto simp: buf_ok_def Let_def)
  ultimately show ?thesis using i by blast
qed


lemma bget_cinv:
  assumes c: "cinv d me L P s" and free: "\<And>i. i \<in> L \<Longrightarrow> blockno (bufs s ! i) \<noteq> bno"
    and room: "(\<exists>i \<in> P. blockno (bufs s ! i) = bno) \<or> card (L \<union> P) < NBUF"
  shows "\<exists>i b. bget d bno s = Ok i (set_buf s i b) \<and> i < NBUF \<and> i \<notin> L \<and>
    bnext b = bnext (bufs s ! i) \<and> bprev b = bprev (bufs s ! i) \<and> bdev b = d \<and> blockno b = bno \<and>
    block_lock b = blocked_by s me \<and> refcnt b = 1 + of_bool (i \<in> P) \<and> length (bdata b) = BSIZE \<and>
    (i \<in> P \<longrightarrow> bvalid b \<and> blockno (bufs s ! i) = bno) \<and>
    (bvalid b \<longrightarrow> bdata b = view d s bno) \<and> (\<not> bvalid b \<longrightarrow> view d s bno = disk s (unat bno)) \<and>
    (\<forall>j < NBUF. j \<noteq> i \<longrightarrow> bdev (bufs s ! j) = d \<longrightarrow> blockno (bufs s ! j) \<noteq> bno) \<and>
    (bdev (bufs s ! i) = d \<and> bvalid (bufs s ! i) \<and> blockno (bufs s ! i) \<noteq> bno \<longrightarrow>
      bdata (bufs s ! i) = disk s (unat (blockno (bufs s ! i))))"
proof -
  note C = cinvD [OF c]
  obtain xs where l: "lru (bufs s) xs" using c by (auto simp: cinv_def)
  have xs: "set xs = {..<NBUF}" using l by (simp add: lru_def)
  have uniq: "j = i" if "i < NBUF" "j < NBUF" "hit (bufs s) d bno i" "hit (bufs s) d bno j" for i j
    using C(3) that by (auto simp: once_def hit_def)
  show ?thesis
  proof (cases "find (hit (bufs s) d bno) xs")
    case (Some i)
    have i: "i < NBUF" "hit (bufs s) d bno i" using find_in [OF Some] xs by auto
    have nL: "i \<notin> L" using free i by (auto simp: hit_def)
    note B = C(4) [OF i(1)]
    have nl: "\<not> slocked (block_lock (bufs s ! i))" using B nL by (simp add: buf_ok_def Let_def)
    have v: "\<not> bvalid (bufs s ! i) \<Longrightarrow> view d s bno = disk s (unat bno)"
      using uniq [OF i(1) _ i(2)] by (intro view_uncached) blast
    have w: "bvalid (bufs s ! i) \<Longrightarrow> view d s bno = bdata (bufs s ! i)"
      using view_cached [OF C(3) i(1)] i(2) by (simp add: hit_def)
    have o: "blockno (bufs s ! j) \<noteq> bno" if "j < NBUF" "j \<noteq> i" "bdev (bufs s ! j) = d" for j
      using uniq [OF i(1) that(1) i(2)] that by (auto simp: hit_def)
    show ?thesis
      using bget_hit [OF C(1) l Some nl] i nL B v w o
      by (intro exI [of _ i] exI [of _ "(bufs s ! i)\<lparr>refcnt := refcnt (bufs s ! i) + 1, block_lock := blocked_by s me\<rparr>"])
         (simp add: buf_ok_def Let_def hit_def)
  next
    case None
    have nh: "j < NBUF \<Longrightarrow> \<not> hit (bufs s) d bno j" for j using None xs by (auto simp: find_None_iff)
    have "\<not> (\<exists>i \<in> P. blockno (bufs s ! i) = bno)"
    proof
      assume "\<exists>i \<in> P. blockno (bufs s ! i) = bno"
      then obtain i where i: "i \<in> P" "blockno (bufs s ! i) = bno" by auto
      then have "i < NBUF" using C(6) by auto
      then show False using nh [of i] C(4) [of i] i by (simp add: hit_def buf_ok_def Let_def)
    qed
    then have "card (L \<union> P) < NBUF" using room by auto
    then obtain i where i: "find (\<lambda>i. refcnt (bufs s ! i) = 0) (rev xs) = Some i" "i < NBUF" "i \<notin> L \<union> P"
      using unused_exists [OF c _ xs] by blast
    note B = C(4) [OF i(2)]
    have nl: "\<not> slocked (block_lock (bufs s ! i))" using B i(3) by (simp add: buf_ok_def Let_def)
    have v: "view d s bno = disk s (unat bno)" using nh by (intro view_uncached) blast
    have o: "\<forall>j < NBUF. j \<noteq> i \<longrightarrow> bdev (bufs s ! j) = d \<longrightarrow> blockno (bufs s ! j) \<noteq> bno"
      using nh by (auto simp: hit_def)
    show ?thesis
      using bget_miss [OF C(1) l None i(1) nl] i B v o
      by (intro exI [of _ i] exI [of _ "(bufs s ! i)\<lparr>bdev := d, blockno := bno, bvalid := False, refcnt := 1, block_lock := blocked_by s me\<rparr>"])
         (simp add: buf_ok_def Let_def)
  qed
qed

lemma bread_cinv:
  assumes c: "cinv d me L P s" and free: "\<And>i. i \<in> L \<Longrightarrow> blockno (bufs s ! i) \<noteq> bno"
    and room: "(\<exists>i \<in> P. blockno (bufs s ! i) = bno) \<or> card (L \<union> P) < NBUF"
  shows "\<exists>i b. bread d bno s = Ok i (set_buf s i b) \<and> cinv d me (insert i L) P (set_buf s i b) \<and> i < NBUF \<and> i \<notin> L \<and>
    blockno b = bno \<and> bdata b = view d s bno \<and> (\<forall>c. view d (set_buf s i b) c = view d s c) \<and>
    (i \<in> P \<longrightarrow> blockno (bufs s ! i) = bno)"
proof -
  note C = cinvD [OF c]
  obtain i b where g: "bget d bno s = Ok i (set_buf s i b)" "i < NBUF" "i \<notin> L"
    "bnext b = bnext (bufs s ! i)" "bprev b = bprev (bufs s ! i)" "bdev b = d" "blockno b = bno"
    "block_lock b = blocked_by s me" "refcnt b = 1 + of_bool (i \<in> P)" "length (bdata b) = BSIZE"
    "i \<in> P \<longrightarrow> bvalid b \<and> blockno (bufs s ! i) = bno"
    "bvalid b \<longrightarrow> bdata b = view d s bno" "\<not> bvalid b \<longrightarrow> view d s bno = disk s (unat bno)"
    "\<forall>j < NBUF. j \<noteq> i \<longrightarrow> bdev (bufs s ! j) = d \<longrightarrow> blockno (bufs s ! j) \<noteq> bno"
    "bdev (bufs s ! i) = d \<and> bvalid (bufs s ! i) \<and> blockno (bufs s ! i) \<noteq> bno \<longrightarrow>
      bdata (bufs s ! i) = disk s (unat (blockno (bufs s ! i)))"
    using bget_cinv [OF c free room] by blast
  have il: "i < length (bufs s)" using C(2) g(2) by simp
  define e where "e = (if bvalid b then b else b\<lparr>bdata := disk s (unat bno), bvalid := True\<rparr>)"
  let ?t = "set_buf s i e"
  have e: "bnext e = bnext (bufs s ! i)" "bprev e = bprev (bufs s ! i)" "bdev e = d" "blockno e = bno"
    "block_lock e = blocked_by s me" "refcnt e = 1 + of_bool (i \<in> P)" "length (bdata e) = BSIZE" "bvalid e"
    "bdata e = view d s bno"
    using g C(7) by (auto simp: e_def)
  have run: "bread d bno s = Ok i ?t"
    using g il calmD(8) [OF C(1)] by (simp add: bread_def virtio_disk_rw_def e_def)
  have inv: "cinv d me (insert i L) P ?t"
  proof (rule cinv_upd [OF c g(2), where t = ?t and b = e])
    show "buf_ok d me (insert i L) P ?t i"
      using e il by (simp add: buf_ok_def Let_def blocked_by_def)
  qed (use e g(14) in auto)
  have v: "view d ?t k = view d s k" for k
  proof (cases "k = bno")
    case True
    then show ?thesis using view_cached [OF cinvD(3) [OF inv], of i] e il g(2) by simp
  next
    case False
    show ?thesis
    proof (cases "bdev (bufs s ! i) = d \<and> bvalid (bufs s ! i) \<and> blockno (bufs s ! i) = k")
      case True
      then have "view d s k = disk s (unat k)" using view_cached [OF C(3) g(2)] g(15) False by auto
      moreover have "view d ?t k = disk ?t (unat k)"
      proof (rule view_uncached)
        fix j assume "j < NBUF" "hit (bufs ?t) d k j"
        then show "\<not> bvalid (bufs ?t ! j)"
          using True False e il C(3) g(2) by (cases "j = i") (auto simp: hit_def once_def)
      qed
      ultimately show ?thesis by simp
    next
      case noth: False
      show ?thesis by (rule view_other [where i = i and b = e]) (use noth False e il in auto)
    qed
  qed
  show ?thesis
    using run inv v e g by (intro exI [of _ i] exI [of _ e]) simp
qed


subsection \<open>Releasing, changing, writing, pinning\<close>

lemma cinv_shuffle:
  assumes c: "cinv d me L P s" and l: "lru (bufs t) ys" and e: "\<And>k. core (bufs t ! k) = core (bufs s ! k)"
    and w: "woke me (procs s) (procs t)" and t: "kcpu t = kcpu s" "disk t = disk s"
  shows "cinv d me L P t"
proof -
  note C = cinvD [OF c]
  have b: "blocked_by t me = blocked_by s me" using w by (simp add: blocked_by_def woke_def)
  have "calm me t" by (rule calm_woke [OF C(1) w refl t(1)])
  moreover have "buf_ok d me L P t i" if "i < NBUF" for i
    using C(4) [OF that] unfolding buf_ok_def Let_def coreD [OF e [of i]] b t(2) .
  moreover have "once d (bufs t)"
    using C(3) unfolding once_def by (simp add: coreD(2,3) [OF e])
  moreover have "length (disk t k) = BSIZE" for k using C(7) t(2) by simp
  ultimately show ?thesis unfolding cinv_def using l C(5,6) by blast
qed

lemma brelse_cinv:
  assumes c: "cinv d me L P s" and i: "i \<in> L" and clean: "i \<in> P \<or> bdata (bufs s ! i) = disk s (unat (blockno (bufs s ! i)))"
  shows "\<exists>Q B. brelse i s = Ok () (s\<lparr>procs := Q, bufs := B\<rparr>) \<and> woke me (procs s) Q \<and>
    cinv d me (L - {i}) P (s\<lparr>procs := Q, bufs := B\<rparr>) \<and> (\<forall>k. view d (s\<lparr>procs := Q, bufs := B\<rparr>) k = view d s k) \<and>
    (\<forall>k. blockno (B ! k) = blockno (bufs s ! k) \<and> bdata (B ! k) = bdata (bufs s ! k))"
proof -
  note C = cinvD [OF c] and I = cinv_held [OF c i]
  have il: "i < length (bufs s)" using C(2) I(1) by simp
  obtain xs where l: "lru (bufs s) xs" using c by (auto simp: cinv_def)
  let ?b = "drop_ref (bufs s ! i)"
  let ?u = "set_buf s i ?b"
  define B where "B = (let B = (bufs s)[i := ?b] in if refcnt (bufs s ! i) = 1 then relink B i else B)"
  let ?Q = "woken (CSleep (SBuf i)) s"
  let ?t = "s\<lparr>procs := ?Q, bufs := B\<rparr>"
  have run: "brelse i s = Ok () ?t"
    unfolding B_def by (rule brelse_run [OF C(1) l I(1,2)])
  have lu: "lru (bufs ?u) xs" using l by (simp add: drop_ref_def lru_body)
  have lt: "\<exists>ys. lru (bufs ?t) ys"
    using lu relink_lru [OF lu I(1)] by (auto simp: B_def Let_def)
  have co: "core (B ! k) = core (bufs ?u ! k)" for k by (simp add: B_def Let_def relink_core)
  have cu: "cinv d me (L - {i}) P ?u"
  proof (rule cinv_upd [OF c I(1), where t = ?u and b = ?b])
    show "buf_ok d me (L - {i}) P ?u i" using I clean il by (auto simp: buf_ok_def Let_def drop_ref_def)
    show "blockno (bufs s ! j) \<noteq> blockno ?b" if "j < NBUF" "j \<noteq> i" "bdev (bufs s ! j) = d" for j
      using C(3) I that by (auto simp: once_def drop_ref_def)
  qed (auto simp: drop_ref_def)
  obtain ys where "lru (bufs ?t) ys" using lt by blast
  from cu this have "cinv d me (L - {i}) P ?t"
    by (rule cinv_shuffle) (simp_all add: co woke_woken [OF C(1)])
  moreover have v: "view d ?t k = view d s k" for k
  proof -
    have "view d ?t k = view d ?u k" by (rule view_core) (use co in simp_all)
    also have "\<dots> = view d s k"
    proof (cases "blockno (bufs s ! i) = k")
      case True
      from view_cached [OF cinvD(3) [OF cu] I(1)] show ?thesis using True I il by (simp add: drop_ref_def)
    next
      case False
      show ?thesis by (rule view_other [where i = i and b = ?b]) (use False il in \<open>auto simp: drop_ref_def\<close>)
    qed
    finally show ?thesis .
  qed
  moreover have "blockno (B ! k) = blockno (bufs s ! k) \<and> bdata (B ! k) = bdata (bufs s ! k)" for k
    using coreD(3,6) [OF co [of k]] il by (auto simp: drop_ref_def nth_list_update)
  ultimately show ?thesis using run woke_woken [OF C(1)] by blast
qed

text \<open>An operation on a held buffer: the contents, the disk and the pins may change.\<close>

lemma held_other:
  assumes c: "cinv d me L P s" and i: "i \<in> L" and j: "j < NBUF" "j \<noteq> i" "bdev (bufs s ! j) = d"
  shows "blockno (bufs s ! j) \<noteq> blockno (bufs s ! i)"
  using cinvD(3) [OF c] cinv_held [OF c i] j by (auto simp: once_def)

lemma bdata_cinv:
  assumes c: "cinv d me L P s" and i: "i \<in> L" and n: "length (f (bdata (bufs s ! i))) = BSIZE"
  defines "t \<equiv> set_buf s i ((bufs s ! i)\<lparr>bdata := f (bdata (bufs s ! i))\<rparr>)"
  shows "bdata_mod i f s = Ok () t" "cinv d me L P t"
    "view d t k = (if k = blockno (bufs s ! i) then f (bdata (bufs s ! i)) else view d s k)"
proof -
  note C = cinvD [OF c] and I = cinv_held [OF c i]
  have il: "i < length (bufs s)" using C(2) I(1) by simp
  let ?b = "(bufs s ! i)\<lparr>bdata := f (bdata (bufs s ! i))\<rparr>"
  show "bdata_mod i f s = Ok () t" using il by (simp add: bdata_mod_def t_def)
  show ct: "cinv d me L P t"
  proof (rule cinv_upd [OF c I(1), where t = t and b = ?b])
    show "buf_ok d me L P t i" using C(4) [OF I(1)] i il n by (simp add: buf_ok_def Let_def t_def blocked_by_def)
  qed (use held_other [OF c i] in \<open>auto simp: t_def\<close>)
  show "view d t k = (if k = blockno (bufs s ! i) then f (bdata (bufs s ! i)) else view d s k)"
  proof (cases "k = blockno (bufs s ! i)")
    case True
    then show ?thesis using view_cached [OF cinvD(3) [OF ct] I(1)] I il by (simp add: t_def)
  next
    case False
    then show ?thesis using il by (simp add: view_other [where i = i and b = ?b] t_def)
  qed
qed

abbreviation set_disk :: "kernel \<Rightarrow> u32 \<Rightarrow> u8 list \<Rightarrow> kernel" where
  "set_disk s b x \<equiv> s\<lparr>disk := (disk s)(unat b := x), dhist := dhist s @ [(disk s)(unat b := x)]\<rparr>"

lemma bwrite_cinv:
  assumes c: "cinv d me L P s" and i: "i \<in> L"
  defines "t \<equiv> set_disk s (blockno (bufs s ! i)) (bdata (bufs s ! i))"
  shows "bwrite i s = Ok () t" "cinv d me L P t" "view d t k = view d s k"
proof -
  note C = cinvD [OF c] and I = cinv_held [OF c i]
  have il: "i < length (bufs s)" using C(2) I(1) by simp
  have hs: "holdingsleep (SBuf i) s = Ok True s"
    using holdingsleep_buf [OF C(1) il] I(2) by (simp add: blocked_by_def)
  show "bwrite i s = Ok () t"
    using hs il calmD(8) [OF C(1)] by (simp add: bwrite_def virtio_disk_rw_def t_def)
  have tb: "bufs t = bufs s" by (simp add: t_def)
  have "calm me t" by (rule calm_same [OF C(1)]) (simp_all add: t_def)
  moreover have "buf_ok d me L P t j" if j: "j < NBUF" for j
  proof (cases "j = i")
    case True
    then show ?thesis using C(4) [OF j] i by (simp add: buf_ok_def Let_def t_def blocked_by_def)
  next
    case False
    show ?thesis
      using C(4) [OF j] held_other [OF c i j False]
      unfolding buf_ok_def Let_def tb by (auto simp: t_def blocked_by_def word_unat_eq_iff [symmetric])
  qed
  moreover have "length (disk t j) = BSIZE" for j using C(7) I(5) by (simp add: t_def)
  ultimately show ct: "cinv d me L P t" using c unfolding cinv_def tb by blast
  show "view d t k = view d s k"
  proof (cases "find (\<lambda>j. hit (bufs s) d k j \<and> bvalid (bufs s ! j)) [0..<NBUF]")
    case None
    then have "k \<noteq> blockno (bufs s ! i)" using I by (auto simp: find_None_iff hit_def)
    then show ?thesis using None by (simp add: view_def tb) (auto simp: t_def word_unat_eq_iff [symmetric])
  qed (simp add: view_def tb)
qed

text \<open>When nothing is held or pinned, the kernel sees the disk.\<close>

lemma view_disk:
  assumes "cinv d me L P s" and "\<And>i. i \<in> L \<union> P \<Longrightarrow> blockno (bufs s ! i) \<noteq> b"
  shows "view d s b = disk s (unat b)"
proof (cases "find (\<lambda>j. hit (bufs s) d b j \<and> bvalid (bufs s ! j)) [0..<NBUF]")
  case None
  then show ?thesis by (simp add: view_def)
next
  case (Some i)
  then have h: "i < NBUF" "bdev (bufs s ! i) = d" "blockno (bufs s ! i) = b" "bvalid (bufs s ! i)"
    using find_in [OF Some] by (auto simp: hit_def)
  then have "i \<notin> L \<union> P" using assms(2) by blast
  then have "bdata (bufs s ! i) = disk s (unat b)"
    using cinvD(4) [OF assms(1) h(1)] h by (simp add: buf_ok_def Let_def)
  then show ?thesis using Some by (simp add: view_def)
qed

lemma pin_cinv:
  assumes c: "cinv d me L P s" and i: "i \<in> L"
  shows "i \<notin> P \<Longrightarrow> \<exists>b. bpin i s = Ok () (set_buf s i b) \<and> cinv d me L (insert i P) (set_buf s i b) \<and>
      (\<forall>k. view d (set_buf s i b) k = view d s k) \<and> blockno b = blockno (bufs s ! i)"
    and "i \<in> P \<Longrightarrow> \<exists>b. bunpin i s = Ok () (set_buf s i b) \<and> cinv d me L (P - {i}) (set_buf s i b) \<and>
      (\<forall>k. view d (set_buf s i b) k = view d s k) \<and> blockno b = blockno (bufs s ! i)"
proof -
  note C = cinvD [OF c] and I = cinv_held [OF c i]
  have il: "i < length (bufs s)" using C(2) I(1) by simp
  have v: "view d (set_buf s i ((bufs s ! i)\<lparr>refcnt := r\<rparr>)) k = view d s k" for k r
  proof -
    have "hit ((bufs s)[i := (bufs s ! i)\<lparr>refcnt := r\<rparr>]) d k j = hit (bufs s) d k j"
      "bvalid ((bufs s)[i := (bufs s ! i)\<lparr>refcnt := r\<rparr>] ! j) = bvalid (bufs s ! j)"
      "bdata ((bufs s)[i := (bufs s ! i)\<lparr>refcnt := r\<rparr>] ! j) = bdata (bufs s ! j)" for j
      using il by (cases "j = i"; simp add: hit_def)+
    then show ?thesis unfolding view_def by (simp split: option.split)
  qed
  show "\<exists>b. bpin i s = Ok () (set_buf s i b) \<and> cinv d me L (insert i P) (set_buf s i b) \<and>
      (\<forall>k. view d (set_buf s i b) k = view d s k) \<and> blockno b = blockno (bufs s ! i)" if n: "i \<notin> P"
  proof -
    let ?b = "(bufs s ! i)\<lparr>refcnt := refcnt (bufs s ! i) + 1\<rparr>"
    have "bpin i s = Ok () (set_buf s i ?b)"
      using calmD(7) [OF C(1)] calm_locked [OF C(1)] il by (simp add: bpin_def)
    moreover have "cinv d me L (insert i P) (set_buf s i ?b)"
    proof (rule cinv_upd [OF c I(1), where t = "set_buf s i ?b" and b = ?b])
      show "buf_ok d me L (insert i P) (set_buf s i ?b) i"
        using C(4) [OF I(1)] i il n by (simp add: buf_ok_def Let_def blocked_by_def)
    qed (use held_other [OF c i] I in auto)
    ultimately show ?thesis using v by auto
  qed
  show "\<exists>b. bunpin i s = Ok () (set_buf s i b) \<and> cinv d me L (P - {i}) (set_buf s i b) \<and>
      (\<forall>k. view d (set_buf s i b) k = view d s k) \<and> blockno b = blockno (bufs s ! i)" if n: "i \<in> P"
  proof -
    let ?b = "(bufs s ! i)\<lparr>refcnt := refcnt (bufs s ! i) - 1\<rparr>"
    have "bunpin i s = Ok () (set_buf s i ?b)"
      using calmD(7) [OF C(1)] calm_locked [OF C(1)] il by (simp add: bunpin_def)
    moreover have "cinv d me L (P - {i}) (set_buf s i ?b)"
    proof (rule cinv_upd [OF c I(1), where t = "set_buf s i ?b" and b = ?b])
      show "buf_ok d me L (P - {i}) (set_buf s i ?b) i"
        using C(4) [OF I(1)] i il n by (simp add: buf_ok_def Let_def blocked_by_def)
    qed (use held_other [OF c i] I in auto)
    ultimately show ?thesis using v by auto
  qed
qed

subsection \<open>Rules for programs over the cache\<close>

text \<open>
  \<open>hold d me L P v D h l c s\<close> describes a state by what the file system cares about: held and pinned
  buffers, the view \<open>v\<close>, the disk \<open>D\<close>, its history \<open>h\<close>, the log \<open>l\<close>, and the blocks \<open>c\<close> that the
  buffers in use cache.
\<close>

definition hold :: "u32 \<Rightarrow> nat \<Rightarrow> nat set \<Rightarrow> nat set \<Rightarrow> (u32 \<Rightarrow> u8 list) \<Rightarrow> (nat \<Rightarrow> u8 list) \<Rightarrow> (nat \<Rightarrow> u8 list) list \<Rightarrow>
    log \<Rightarrow> (nat \<Rightarrow> u32) \<Rightarrow> kernel \<Rightarrow> bool" where
  "hold d me L P v D h l c s \<longleftrightarrow> cinv d me L P s \<and> (\<forall>b. view d s b = v b) \<and> disk s = D \<and> dhist s = h \<and> lg s = l \<and>
     (\<forall>i \<in> L \<union> P. blockno (bufs s ! i) = c i)"

text \<open>What the block layer leaves alone.\<close>

definition rest :: "kernel \<Rightarrow> inode list \<times> memory \<times> superblock \<times> cpu \<times> kfile list \<times> (u64 \<Rightarrow> pipe)" where
  "rest s = (inodes s, mem s, sb s, kcpu s, files s, pipes s)"

lemma rest_simps [simp]:
  "rest (s\<lparr>bufs := b\<rparr>) = rest s" "rest (s\<lparr>procs := p\<rparr>) = rest s" "rest (s\<lparr>lg := l\<rparr>) = rest s"
  "rest (s\<lparr>disk := x\<rparr>) = rest s" "rest (s\<lparr>dhist := y\<rparr>) = rest s"
  by (simp_all add: rest_def)

lemma restD:
  assumes "rest t = rest s"
  shows "inodes t = inodes s" "mem t = mem s" "sb t = sb s" "kcpu t = kcpu s" "files t = files s" "pipes t = pipes s"
  using assms by (simp_all add: rest_def)

lemma holdD:
  assumes "hold d me L P v D h l c s"
  shows "cinv d me L P s" "\<And>b. view d s b = v b" "disk s = D" "dhist s = h" "lg s = l"
    "\<And>i. i \<in> L \<Longrightarrow> blockno (bufs s ! i) = c i" "\<And>i. i \<in> P \<Longrightarrow> blockno (bufs s ! i) = c i"
  using assms by (auto simp: hold_def)

lemma hold_c:
  assumes "hold d me L P v D h l c s" and "\<And>i. i \<in> L \<union> P \<Longrightarrow> c' i = c i"
  shows "hold d me L P v D h l c' s"
  using assms by (auto simp: hold_def)

lemma hold_inj:
  assumes "hold d me L P v D h l c s" and "i \<in> L \<union> P" and "j \<in> L \<union> P" and "c i = c j"
  shows "i = j"
proof -
  note C = cinvD [OF holdD(1) [OF assms(1)]]
  have "k < NBUF \<and> bdev (bufs s ! k) = d \<and> blockno (bufs s ! k) = c k" if "k \<in> L \<union> P" for k
  proof -
    have "k < NBUF" using that C(5,6) by auto
    then show ?thesis using C(4) [of k] that holdD(6,7) [OF assms(1)] by (auto simp: buf_ok_def Let_def)
  qed
  then show ?thesis using C(3) assms(2-4) by (auto simp: once_def)
qed

lemma hold_clean:
  assumes "hold d me L P v D h l c s" and "\<And>i. i \<in> L \<union> P \<Longrightarrow> c i \<noteq> b"
  shows "v b = D (unat b)"
proof -
  have "view d s b = disk s (unat b)"
    by (rule view_disk [OF holdD(1) [OF assms(1)]]) (metis Un_iff assms(2) holdD(6,7) [OF assms(1)])
  then show ?thesis using holdD [OF assms(1)] by simp
qed

lemma hold_bread:
  assumes h: "hold d me L P v D h l c s" and free: "\<And>i. i \<in> L \<Longrightarrow> c i \<noteq> bno"
    and room: "(\<exists>i \<in> P. c i = bno) \<or> card (L \<union> P) < NBUF"
    and Q: "\<And>i t. i \<notin> L \<Longrightarrow> (i \<in> P \<Longrightarrow> c i = bno) \<Longrightarrow> (\<And>j. j \<in> P \<Longrightarrow> c j = bno \<Longrightarrow> j = i) \<Longrightarrow>
      hold d me (insert i L) P v D h l (c(i := bno)) t \<Longrightarrow> rest t = rest s \<Longrightarrow> Q i t"
  shows "wp e (bread d bno) Q B s"
proof -
  note H = holdD [OF h]
  have 1: "i \<in> L \<Longrightarrow> blockno (bufs s ! i) \<noteq> bno" for i using free H(6) by auto
  have 2: "(\<exists>i \<in> P. blockno (bufs s ! i) = bno) \<or> card (L \<union> P) < NBUF" using room H(7) by auto
  obtain i b where r: "bread d bno s = Ok i (set_buf s i b)" "cinv d me (insert i L) P (set_buf s i b)"
    "i < NBUF" "i \<notin> L" "blockno b = bno" "\<forall>k. view d (set_buf s i b) k = view d s k" "i \<in> P \<longrightarrow> blockno (bufs s ! i) = bno"
    using bread_cinv [OF H(1) 1 2] by blast
  have il: "i < length (bufs s)" using cinvD(2) [OF H(1)] r(3) by simp
  have n: "blockno ((bufs s)[i := b] ! j) = (c(i := bno)) j" if "j \<in> insert i L \<union> P" for j
    using that r(5) il H(6,7) by (cases "j = i") auto
  have t: "hold d me (insert i L) P v D h l (c(i := bno)) (set_buf s i b)"
    unfolding hold_def using r(2,6) H(2-5) n by simp
  have u: "j = i" if "j \<in> P" "c j = bno" for j
    using hold_inj [OF t, of i j] that by (cases "j = i") auto
  have p: "c i = bno" if "i \<in> P" using that r(7) H(7) by auto
  have "Q i (set_buf s i b)" by (rule Q [OF r(4) p u t]) simp_all
  then show ?thesis using r(1) by (simp add: wp_def)
qed

lemma hold_get:
  assumes h: "hold d me L P v D h l c s" and i: "i \<in> L" and Q: "Q (v (c i)) s"
  shows "wp e (bdata_get i) Q B s"
proof -
  note H = holdD [OF h] and I = cinv_held [OF holdD(1) [OF h] i]
  have "i < length (bufs s)" using cinvD(2) [OF H(1)] I(1) by simp
  moreover have "bdata (bufs s ! i) = v (c i)" using I(7) H(2,6) i by simp
  ultimately show ?thesis using Q by (simp add: bdata_get_def wp_def)
qed

lemma hold_mod:
  assumes h: "hold d me L P v D h l c s" and i: "i \<in> L" and n: "length (f (v (c i))) = BSIZE"
    and Q: "\<And>t. hold d me L P (v(c i := f (v (c i)))) D h l c t \<Longrightarrow> rest t = rest s \<Longrightarrow> Q () t"
  shows "wp e (bdata_mod i f) Q B s"
proof -
  note H = holdD [OF h] and I = cinv_held [OF holdD(1) [OF h] i]
  have il: "i < length (bufs s)" using cinvD(2) [OF H(1)] I(1) by simp
  have x: "bdata (bufs s ! i) = v (c i)" using I(7) H(2,6) i by simp
  have n': "length (f (bdata (bufs s ! i))) = BSIZE" using n x by simp
  note M = bdata_cinv [where f = f, OF H(1) i n']
  have "blockno ((bufs s)[i := (bufs s ! i)\<lparr>bdata := y\<rparr>] ! j) = blockno (bufs s ! j)" for j y
    using il by (cases "j = i") auto
  then have "hold d me L P (v(c i := f (v (c i)))) D h l c (set_buf s i ((bufs s ! i)\<lparr>bdata := f (bdata (bufs s ! i))\<rparr>))"
    unfolding hold_def using M(2,3) H x i by auto
  then show ?thesis using Q M(1) by (simp add: wp_def)
qed

lemma hold_write:
  assumes h: "hold d me L P v D h l c s" and i: "i \<in> L"
    and Q: "\<And>t. hold d me L P v (D(unat (c i) := v (c i))) (h @ [D(unat (c i) := v (c i))]) l c t \<Longrightarrow> rest t = rest s \<Longrightarrow> Q () t"
  shows "wp e (bwrite i) Q B s"
proof -
  note H = holdD [OF h] and I = cinv_held [OF holdD(1) [OF h] i]
  have x: "bdata (bufs s ! i) = v (c i)" using I(7) H(2,6) i by simp
  note W = bwrite_cinv [OF H(1) i]
  have "hold d me L P v (D(unat (c i) := v (c i))) (h @ [D(unat (c i) := v (c i))]) l c
      (set_disk s (blockno (bufs s ! i)) (bdata (bufs s ! i)))"
    unfolding hold_def using W(2,3) H x i by auto
  then show ?thesis using Q W(1) by (simp add: wp_def)
qed

lemma hold_relse:
  assumes h: "hold d me L P v D h l c s" and i: "i \<in> L" and clean: "i \<in> P \<or> v (c i) = D (unat (c i))"
    and Q: "\<And>t. hold d me (L - {i}) P v D h l c t \<Longrightarrow> rest t = rest s \<Longrightarrow> Q () t"
  shows "wp e (brelse i) Q B s"
proof -
  note H = holdD [OF h] and I = cinv_held [OF holdD(1) [OF h] i]
  have x: "bdata (bufs s ! i) = v (c i)" using I(7) H(2,6) i by simp
  have cl: "i \<in> P \<or> bdata (bufs s ! i) = disk s (unat (blockno (bufs s ! i)))" using clean x H(3,6) i by simp
  obtain R A where r: "brelse i s = Ok () (s\<lparr>procs := R, bufs := A\<rparr>)" "cinv d me (L - {i}) P (s\<lparr>procs := R, bufs := A\<rparr>)"
    "\<forall>k. view d (s\<lparr>procs := R, bufs := A\<rparr>) k = view d s k" "\<forall>k. blockno (A ! k) = blockno (bufs s ! k)"
    using brelse_cinv [OF H(1) i cl] by blast
  have "hold d me (L - {i}) P v D h l c (s\<lparr>procs := R, bufs := A\<rparr>)"
    unfolding hold_def using r H by auto
  then show ?thesis using Q r(1) by (simp add: wp_def)
qed

lemma hold_pin:
  assumes h: "hold d me L P v D h l c s" and i: "i \<in> L"
  shows "i \<notin> P \<Longrightarrow> (\<And>t. hold d me L (insert i P) v D h l c t \<Longrightarrow> rest t = rest s \<Longrightarrow> Q () t) \<Longrightarrow> wp e (bpin i) Q B s"
    and "i \<in> P \<Longrightarrow> (\<And>t. hold d me L (P - {i}) v D h l c t \<Longrightarrow> rest t = rest s \<Longrightarrow> Q () t) \<Longrightarrow> wp e (bunpin i) Q B s"
proof -
  note H = holdD [OF h] and I = cinv_held [OF holdD(1) [OF h] i]
  have il: "i < length (bufs s)" using cinvD(2) [OF H(1)] I(1) by simp
  have n: "blockno ((bufs s)[i := b] ! j) = blockno (bufs s ! j)" if "blockno b = blockno (bufs s ! i)" for b j
    using that il by (cases "j = i") auto
  show "wp e (bpin i) Q B s" if pn: "i \<notin> P" and Q: "\<And>t. hold d me L (insert i P) v D h l c t \<Longrightarrow> rest t = rest s \<Longrightarrow> Q () t"
  proof -
    obtain b where r: "bpin i s = Ok () (set_buf s i b)" "cinv d me L (insert i P) (set_buf s i b)"
      "\<forall>k. view d (set_buf s i b) k = view d s k" "blockno b = blockno (bufs s ! i)"
      using pin_cinv(1) [OF H(1) i pn] by blast
    have "hold d me L (insert i P) v D h l c (set_buf s i b)"
      unfolding hold_def using r n [OF r(4)] H i by auto
    then show ?thesis using Q r(1) by (simp add: wp_def)
  qed
  show "wp e (bunpin i) Q B s" if pn: "i \<in> P" and Q: "\<And>t. hold d me L (P - {i}) v D h l c t \<Longrightarrow> rest t = rest s \<Longrightarrow> Q () t"
  proof -
    obtain b where r: "bunpin i s = Ok () (set_buf s i b)" "cinv d me L (P - {i}) (set_buf s i b)"
      "\<forall>k. view d (set_buf s i b) k = view d s k" "blockno b = blockno (bufs s ! i)"
      using pin_cinv(2) [OF H(1) i pn] by blast
    have "hold d me L (P - {i}) v D h l c (set_buf s i b)"
      unfolding hold_def using r n [OF r(4)] H i by auto
    then show ?thesis using Q r(1) by (simp add: wp_def)
  qed
qed

lemma hold_lg_mod:
  assumes "hold d me L P v D h l c s" and "\<And>t. hold d me L P v D h (f l) c t \<Longrightarrow> rest t = rest s \<Longrightarrow> Q () t"
  shows "wp e (lg_mod f) Q B s"
proof -
  note H = holdD [OF assms(1)]
  have b: "bufs (s\<lparr>lg := f (lg s)\<rparr>) = bufs s" "disk (s\<lparr>lg := f (lg s)\<rparr>) = disk s"
    "blocked_by (s\<lparr>lg := f (lg s)\<rparr>) me = blocked_by s me" by (simp_all add: blocked_by_def)
  have "calm me (s\<lparr>lg := f (lg s)\<rparr>)" by (rule calm_same [OF cinvD(1) [OF H(1)]]) simp_all
  then have "cinv d me L P (s\<lparr>lg := f (lg s)\<rparr>)"
    using H(1) unfolding cinv_def buf_ok_def b by blast
  moreover have "view d (s\<lparr>lg := f (lg s)\<rparr>) k = view d s k" for k by (simp add: view_def split: option.split)
  ultimately have "hold d me L P v D h (f l) c (s\<lparr>lg := f (lg s)\<rparr>)"
    unfolding hold_def using H by auto
  then show ?thesis using assms(2) by (simp add: lg_mod_def)
qed

end
