(* ===== verification/Binit.thy ===== *)
theory Binit
  imports Bcache
begin

section \<open>The block cache at boot\<close>

text \<open>
  \<open>binit\<close> links every buffer in front of the list: the cache starts with the buffers in descending
  order, all unlocked, and with contents and identity as they were.
\<close>

definition unlocked :: "buf \<Rightarrow> buf" where
  "unlocked b = b\<lparr>block_lock := \<lparr>slocked = False, slpid = 0\<rparr>\<rparr>"

definition linked :: "nat \<Rightarrow> kernel \<Rightarrow> buf list \<Rightarrow> bool" where
  "linked m s B \<longleftrightarrow> length B = NBUF + 1 \<and> chain_to (nxt B) (prv B) bhead (rev [0..<m]) bhead \<and>
     (\<forall>k \<le> NBUF. core (B ! k) = core (if k < m then unlocked (bufs s ! k) else bufs s ! k))"

lemma initlock_calm: "held (kcpu t) = [] \<Longrightarrow> initlock l t = Ok () t"
  by (cases t; cases "kcpu t") (simp add: initlock_def cpu_mod_def)

lemma binit_step:
  assumes h: "held (kcpu s) = []" and l: "linked m s B" and m: "m < NBUF"
  shows "\<exists>C. (bnd (buf_get bhead) (\<lambda>h. seq (set_next m (bnext h)) (seq (set_prev m bhead) (seq (initsleeplock (SBuf m))
      (seq (set_prev (bnext h) m) (set_next bhead m)))))) (s\<lparr>bufs := B\<rparr>) = Ok () (s\<lparr>bufs := C\<rparr>) \<and> linked (Suc m) s C"
proof -
  have len: "length B = NBUF + 1" and p: "chain_to (nxt B) (prv B) bhead (rev [0..<m]) bhead"
    and co: "\<And>k. k \<le> NBUF \<Longrightarrow> core (B ! k) = core (if k < m then unlocked (bufs s ! k) else bufs s ! k)"
    using l by (auto simp: linked_def)
  define f where "f = bnext (B ! bhead)"
  have f: "f \<le> NBUF" "f \<noteq> m"
  proof -
    have "f = hd (rev [0..<m] @ [bhead])" using path_first [OF p] by (simp add: f_def nxt_def)
    then show "f \<le> NBUF" "f \<noteq> m" using m by (cases m; simp)+
  qed
  define B1 where "B1 = B[m := unlocked ((B ! m)\<lparr>bnext := f, bprev := bhead\<rparr>)]"
  define B2 where "B2 = B1[f := (B1 ! f)\<lparr>bprev := m\<rparr>]"
  define C where "C = B2[bhead := (B2 ! bhead)\<lparr>bnext := m\<rparr>]"
  have run: "(bnd (buf_get bhead) (\<lambda>h. seq (set_next m (bnext h)) (seq (set_prev m bhead) (seq (initsleeplock (SBuf m))
      (seq (set_prev (bnext h) m) (set_next bhead m)))))) (s\<lparr>bufs := B\<rparr>) = Ok () (s\<lparr>bufs := C\<rparr>)"
  proof -
    have l: "length B1 = NBUF + 1" "length B2 = NBUF + 1" using len by (simp_all add: B1_def B2_def)
    have 1: "seq (set_next m f) (seq (set_prev m bhead) (initsleeplock (SBuf m))) (s\<lparr>bufs := B\<rparr>) = Ok () (s\<lparr>bufs := B1\<rparr>)"
      using len m h by (simp add: set_next_def set_prev_def initsleeplock_def initlock_calm B1_def unlocked_def)
    have 2: "set_prev f m (s\<lparr>bufs := B1\<rparr>) = Ok () (s\<lparr>bufs := B2\<rparr>)" using l f by (simp add: set_prev_def B2_def)
    have 3: "set_next bhead m (s\<lparr>bufs := B2\<rparr>) = Ok () (s\<lparr>bufs := C\<rparr>)" using l by (simp add: set_next_def C_def)
    have "seq (set_next m f) (seq (set_prev m bhead) (seq (initsleeplock (SBuf m)) (seq (set_prev f m) (set_next bhead m)))) (s\<lparr>bufs := B\<rparr>)
        = bnd (seq (set_next m f) (seq (set_prev m bhead) (initsleeplock (SBuf m)))) (\<lambda>_. seq (set_prev f m) (set_next bhead m)) (s\<lparr>bufs := B\<rparr>)"
      by (simp only: seq_def bnd_assoc)
    also have "\<dots> = Ok () (s\<lparr>bufs := C\<rparr>)" using 1 2 3 by (simp del: run_seq add: bnd_def) (simp add: bnd_def)
    finally show ?thesis using len by (simp add: f_def [symmetric] del: run_seq)
  qed
  have n: "nxt C = (nxt B)(m := nxt B bhead, bhead := m)" "prv C = (prv B)(m := bhead, nxt B bhead := m)"
    using len m f by (auto simp: C_def B2_def B1_def nxt_def prv_def f_def [symmetric] nth_list_update unlocked_def fun_eq_iff)
  have "chain_to (nxt C) (prv C) bhead (m # rev [0..<m]) bhead"
    unfolding n by (rule path_front [OF p]) (use m in auto)
  moreover have "core (C ! k) = core (if k < Suc m then unlocked (bufs s ! k) else bufs s ! k)" if "k \<le> NBUF" for k
  proof -
    have "core (C ! k) = core (if k = m then unlocked (B ! k) else B ! k)"
    proof -
      have "core (C ! k) = core (B1 ! k)" by (simp add: C_def B2_def core_update)
      moreover have "core (unlocked ((B ! m)\<lparr>bnext := f, bprev := bhead\<rparr>)) = core (unlocked (B ! m))"
        by (cases "B ! m") (simp add: core_def unlocked_def)
      ultimately show ?thesis using len m by (cases "k = m") (simp_all add: B1_def)
    qed
    moreover have "core (unlocked (B ! m)) = core (unlocked (bufs s ! m))"
      using co [of m] m by (cases "B ! m"; cases "bufs s ! m") (simp add: core_def unlocked_def)
    ultimately show ?thesis using co [OF that] by (simp add: less_Suc_eq)
  qed
  ultimately have "linked (Suc m) s C" using len by (simp add: linked_def C_def B2_def B1_def)
  then show ?thesis using run by blast
qed

lemma binit_run:
  assumes h: "held (kcpu s) = []" and len: "length (bufs s) = NBUF + 1"
  shows "\<exists>B. binit s = Ok () (s\<lparr>bufs := B\<rparr>) \<and> lru B (rev [0..<NBUF]) \<and> (\<forall>k < NBUF. core (B ! k) = core (unlocked (bufs s ! k)))"
proof -
  define body where "body m = (bnd (buf_get bhead) (\<lambda>h. seq (set_next m (bnext h)) (seq (set_prev m bhead) (seq (initsleeplock (SBuf m))
      (seq (set_prev (bnext h) m) (set_next bhead m))))))" for m
  let ?B0 = "(bufs s)[bhead := (bufs s ! bhead)\<lparr>bprev := bhead, bnext := bhead\<rparr>]"
  have l0: "linked 0 s ?B0"
    using len by (auto simp: linked_def nxt_def prv_def nth_list_update core_def)
  have loop: "\<exists>C. foreach [0..<m] body (s\<lparr>bufs := ?B0\<rparr>) = Ok () (s\<lparr>bufs := C\<rparr>) \<and> linked m s C" if "m \<le> NBUF" for m
    using that
  proof (induction m)
    case 0
    show ?case using l0 by (intro exI [of _ ?B0]) simp
  next
    case (Suc m)
    have "m \<le> NBUF" using Suc.prems by simp
    from Suc.IH [OF this] obtain C where C: "foreach [0..<m] body (s\<lparr>bufs := ?B0\<rparr>) = Ok () (s\<lparr>bufs := C\<rparr>)" "linked m s C" by blast
    obtain C' where "body m (s\<lparr>bufs := C\<rparr>) = Ok () (s\<lparr>bufs := C'\<rparr>)" "linked (Suc m) s C'"
      using binit_step [OF h C(2)] Suc.prems unfolding body_def by auto
    then show ?case using C(1) by (intro exI [of _ C']) (simp add: foreach_append)
  qed
  obtain C where C: "foreach [0..<NBUF] body (s\<lparr>bufs := ?B0\<rparr>) = Ok () (s\<lparr>bufs := C\<rparr>)" "linked NBUF s C" using loop by blast
  have "binit s = foreach [0..<NBUF] body (s\<lparr>bufs := ?B0\<rparr>)"
    using len h by (simp add: binit_def set_next_def set_prev_def initlock_calm body_def [abs_def])
  moreover have "lru C (rev [0..<NBUF])" using C(2) by (auto simp: linked_def lru_def)
  moreover have "core (C ! k) = core (unlocked (bufs s ! k))" if "k < NBUF" for k using C(2) that by (simp add: linked_def)
  ultimately show ?thesis using C(1) by (intro exI [of _ C]) simp
qed

lemma binit_cinv:
  assumes c: "calm me s" and b: "bufs s = replicate (NBUF + 1) bss_buf" and d: "d \<noteq> 0" and k: "\<And>k. length (disk s k) = BSIZE"
  shows "\<exists>B. binit s = Ok () (s\<lparr>bufs := B\<rparr>) \<and> cinv d me {} {} (s\<lparr>bufs := B\<rparr>)"
proof -
  obtain B where B: "binit s = Ok () (s\<lparr>bufs := B\<rparr>)" "lru B (rev [0..<NBUF])" "\<forall>k < NBUF. core (B ! k) = core (unlocked (bufs s ! k))"
    using binit_run [of s] calmD(7) [OF c] b by auto
  have e: "bvalid (B ! k) = False" "bdev (B ! k) = 0" "block_lock (B ! k) = \<lparr>slocked = False, slpid = 0\<rparr>" "refcnt (B ! k) = 0"
    "bdata (B ! k) = replicate BSIZE 0" if "k < NBUF" for k
  proof -
    have "core (B ! k) = core (unlocked bss_buf)" using B(3) b that by simp
    from coreD [OF this] show "bvalid (B ! k) = False" "bdev (B ! k) = 0" "block_lock (B ! k) = \<lparr>slocked = False, slpid = 0\<rparr>"
      "refcnt (B ! k) = 0" "bdata (B ! k) = replicate BSIZE 0"
      by (simp_all add: unlocked_def bss_buf_def)
  qed
  have "cinv d me {} {} (s\<lparr>bufs := B\<rparr>)"
    unfolding cinv_def
  proof (intro conjI allI impI)
    show "calm me (s\<lparr>bufs := B\<rparr>)" using c by (rule calm_same) simp_all
    show "\<exists>xs. lru (bufs (s\<lparr>bufs := B\<rparr>)) xs" using B(2) by auto
    show "buf_ok d me {} {} (s\<lparr>bufs := B\<rparr>) i" if "i < NBUF" for i using e [OF that] by (simp add: buf_ok_def Let_def)
    show "once d (bufs (s\<lparr>bufs := B\<rparr>))" using d e(2) by (simp add: once_def)
  qed (use k in simp_all)
  then show ?thesis using B(1) by blast
qed

end
