(* ===== verification/Bytes.thy ===== *)
theory Bytes
  imports Log
begin

section \<open>Words stored in blocks\<close>

text \<open>
  The little-endian words of a block: reading back what was written, and what the write leaves alone.
\<close>

lemma length_bytes [simp]: "length (bytes32 w) = 4" "length (bytes16 h) = 2"
  by (simp_all add: bytes32_def bytes16_def)

lemma length_put [simp]: "k + length bs \<le> length d \<Longrightarrow> length (put_bytes k bs d) = length d"
  by (simp add: put_bytes_def)

lemma nth_put:
  assumes "k + length bs \<le> length d" and "j < length d"
  shows "put_bytes k bs d ! j = (if k \<le> j \<and> j < k + length bs then bs ! (j - k) else d ! j)"
  using assms by (auto simp: put_bytes_def nth_append min_def)

lemma uint_byte: "uint (ucast (drop_bit n (w :: 'a::len word)) :: u8) = uint w div 2 ^ n mod 256"
  by (simp add: unsigned_ucast_eq unsigned_drop_bit_eq take_bit_eq_mod drop_bit_eq_div [where ?'a = int])

lemma uint_byte0: "uint (ucast (w :: 'a::len word) :: u8) = uint w mod 256"
  by (simp add: unsigned_ucast_eq take_bit_eq_mod)

lemma rcat_horner:
  "word_rcat [a, b, c, d :: u8] = word_of_int (uint d + 256 * (uint c + 256 * (uint b + 256 * uint a)))"
  "word_rcat [a, b :: u8] = word_of_int (uint b + 256 * uint a)"
  by (simp_all add: word_rcat_def del: of_int_add of_int_mult)

lemma rcat32:
  "word_rcat [ucast (drop_bit 24 w), ucast (drop_bit 16 w), ucast (drop_bit 8 w), ucast w :: u8] = (w :: u32)"
proof -
  define a b c where "a = uint w div 256" and "b = a div 256" and "c = b div 256"
  have d: "uint w div 2 ^ 8 = a" "uint w div 2 ^ 16 = b" "uint w div 2 ^ 24 = c"
    by (simp_all add: a_def b_def c_def zdiv_zmult2_eq [symmetric])
  have "0 \<le> uint w" "uint w < 2 ^ 32" using uint_lt2p [of w] by simp_all
  then have "0 \<le> c" "c < 256"
    using d(3) zdiv_mono1 [of "uint w" "2 ^ 32 - 1" "2 ^ 24"] pos_imp_zdiv_nonneg_iff [of "2 ^ 24" "uint w"] by simp_all
  then have "uint w mod 256 + 256 * (a mod 256 + 256 * (b mod 256 + 256 * (c mod 256))) = uint w"
    using mod_mult_div_eq [of "uint w" 256] mod_mult_div_eq [of a 256] mod_mult_div_eq [of b 256]
    by (simp add: a_def [symmetric] b_def [symmetric] c_def [symmetric])
  then have "uint w mod 256 + 256 * (uint w div 2 ^ 8 mod 256 + 256 * (uint w div 2 ^ 16 mod 256 + 256 * (uint w div 2 ^ 24 mod 256))) = uint w"
    unfolding d .
  then show ?thesis
    unfolding rcat_horner uint_byte unfolding uint_byte0 by (simp only: word_of_int_uint)
qed

lemma rcat16: "word_rcat [ucast (drop_bit 8 w), ucast w :: u8] = (w :: u16)"
proof -
  have "0 \<le> uint w" "uint w < 2 ^ 16" using uint_lt2p [of w] by simp_all
  then have "uint w div 256 mod 256 = uint w div 256" by (intro mod_pos_pos_trivial) (simp_all add: pos_imp_zdiv_nonneg_iff)
  then have "uint w mod 256 + 256 * (uint w div 2 ^ 8 mod 256) = uint w" by simp
  then show ?thesis
    unfolding rcat_horner uint_byte unfolding uint_byte0 by (simp only: word_of_int_uint)
qed

lemma get32_put32:
  assumes "k + 4 \<le> length d"
  shows "get32 (put32 k w d) k = w"
    and "j + 4 \<le> length d \<Longrightarrow> j + 4 \<le> k \<or> k + 4 \<le> j \<Longrightarrow> get32 (put32 k w d) j = get32 d j"
  using assms by (auto simp: get32_def nth_put) (simp add: bytes32_def rcat32)

lemma get16_put16:
  assumes "k + 2 \<le> length d"
  shows "get16 (put16 k w d) k = w"
    and "j + 2 \<le> length d \<Longrightarrow> j + 2 \<le> k \<or> k + 2 \<le> j \<Longrightarrow> get16 (put16 k w d) j = get16 d j"
  using assms by (auto simp: get16_def nth_put) (simp add: bytes16_def rcat16)

end
