(* ===== verification/Wal.thy ===== *)
theory Wal
  imports Binit Bytes
begin

section \<open>Crash safety of the write-ahead log\<close>

text \<open>
  What \<open>commit\<close> and \<open>recover_from_log\<close> do to the disk, write by write.  \<open>put_head bl x\<close> is the header
  block for the block numbers \<open>bl\<close>, \<open>head_of\<close> reads it, \<open>copied a w m D\<close> is the disk \<open>D\<close> after the blocks
  \<open>a 0\<close> to \<open>a (m - 1)\<close> were written with \<open>w 0\<close> to \<open>w (m - 1)\<close>, \<open>recovered ls D\<close> is the disk that recovery
  leaves when the machine starts from \<open>D\<close>.
\<close>

definition put_head :: "u32 list \<Rightarrow> u8 list \<Rightarrow> u8 list" where
  "put_head bl x = fold (\<lambda>k. put32 (4 + 4 * k) (bl ! k)) [0..<length bl] (put32 0 (word_of_int (int (length bl))) x)"

definition head_of :: "u8 list \<Rightarrow> u32 list" where
  "head_of x = map (\<lambda>k. get32 x (4 + 4 * k)) [0..<nat (sint (get32 x 0))]"

definition log_slot_at :: "u32 \<Rightarrow> nat \<Rightarrow> u32" where
  "log_slot_at ls k = ls + of_nat k + 1"

primrec copied :: "(nat \<Rightarrow> u32) \<Rightarrow> (nat \<Rightarrow> u8 list) \<Rightarrow> nat \<Rightarrow> (nat \<Rightarrow> u8 list) \<Rightarrow> nat \<Rightarrow> u8 list" where
  "copied a w 0 D = D"
| "copied a w (Suc m) D = (copied a w m D)(unat (a m) := w m)"

definition set_head :: "u32 \<Rightarrow> u32 list \<Rightarrow> (nat \<Rightarrow> u8 list) \<Rightarrow> nat \<Rightarrow> u8 list" where
  "set_head ls bl D = D(unat ls := put_head bl (D (unat ls)))"

definition recovered :: "u32 \<Rightarrow> (nat \<Rightarrow> u8 list) \<Rightarrow> nat \<Rightarrow> u8 list" where
  "recovered ls D = (let bl = head_of (D (unat ls))
     in set_head ls [] (copied ((!) bl) (\<lambda>k. D (unat (log_slot_at ls k))) (length bl) D))"

text \<open>The log area of a disk, and block lists that may be logged.\<close>

definition in_log :: "u32 \<Rightarrow> u32 \<Rightarrow> bool" where
  "in_log ls b \<longleftrightarrow> unat ls \<le> unat b \<and> unat b \<le> unat ls + nat LOGSIZE"

definition loggable :: "u32 \<Rightarrow> u32 list \<Rightarrow> bool" where
  "loggable ls bl \<longleftrightarrow> unat ls + nat LOGSIZE < 2 ^ 32 \<and> distinct bl \<and> length bl < nat LOGSIZE \<and> (\<forall>b \<in> set bl. \<not> in_log ls b)"

text \<open>The log in memory: where it is, and the blocks of the running transaction.\<close>

definition log_at :: "u32 \<Rightarrow> u32 \<Rightarrow> u32 list \<Rightarrow> log \<Rightarrow> bool" where
  "log_at d ls bl l \<longleftrightarrow> lg_dev l = d \<and> lg_start l = ls \<and> lh_n l = int (length bl) \<and>
     length (lh_block l) = nat LOGSIZE \<and> take (length bl) (lh_block l) = bl"

subsection \<open>Headers\<close>

lemma put_head_fold:
  assumes "m \<le> 30" and "length x = BSIZE"
  shows "length (fold (\<lambda>k. put32 (4 + 4 * k) (bl ! k)) [0..<m] x) = BSIZE \<and>
    get32 (fold (\<lambda>k. put32 (4 + 4 * k) (bl ! k)) [0..<m] x) 0 = get32 x 0 \<and>
    (\<forall>j < m. get32 (fold (\<lambda>k. put32 (4 + 4 * k) (bl ! k)) [0..<m] x) (4 + 4 * j) = bl ! j)"
  using assms
proof (induction m)
  case (Suc m)
  let ?y = "fold (\<lambda>k. put32 (4 + 4 * k) (bl ! k)) [0..<m] x"
  have y: "length ?y = BSIZE" "get32 ?y 0 = get32 x 0" "\<forall>j < m. get32 ?y (4 + 4 * j) = bl ! j"
    using Suc by auto
  have "get32 (put32 (4 + 4 * m) (bl ! m) ?y) (4 + 4 * j) = bl ! j" if "j < Suc m" for j
  proof (cases "j = m")
    case True
    then show ?thesis using y Suc.prems get32_put32(1) [of "4 + 4 * m" ?y "bl ! m"] by simp
  next
    case False
    then show ?thesis using y Suc.prems that get32_put32(2) [of "4 + 4 * m" ?y "4 + 4 * j" "bl ! m"] by simp
  qed
  moreover have "get32 (put32 (4 + 4 * m) (bl ! m) ?y) 0 = get32 x 0"
    using y Suc.prems get32_put32(2) [of "4 + 4 * m" ?y 0 "bl ! m"] by simp
  moreover have "length (put32 (4 + 4 * m) (bl ! m) ?y) = BSIZE" using y Suc.prems by simp
  ultimately show ?case by simp
qed simp

lemma sint_small: "n < 2 ^ 31 \<Longrightarrow> sint (word_of_int (int n) :: u32) = int n"
  by (simp add: signed_of_int signed_take_bit_int_eq_self del: of_int_of_nat_eq)

lemma head_put:
  assumes "length bl \<le> 30" and "length x = BSIZE"
  shows "length (put_head bl x) = BSIZE" "head_of (put_head bl x) = bl" "get32 (put_head bl x) 0 = word_of_int (int (length bl))"
proof -
  let ?y = "put32 0 (word_of_int (int (length bl))) x"
  have y: "length ?y = BSIZE" "get32 ?y 0 = word_of_int (int (length bl))"
    using assms get32_put32(1) [of 0 x] by simp_all
  note F = put_head_fold [OF assms(1) y(1), of bl]
  show "length (put_head bl x) = BSIZE" using F by (simp add: put_head_def)
  show g: "get32 (put_head bl x) 0 = word_of_int (int (length bl))" using F y by (simp add: put_head_def)
  have "nat (sint (get32 (put_head bl x) 0)) = length bl"
    unfolding g using assms(1) sint_small [of "length bl"] by simp
  moreover have "map (\<lambda>k. get32 (put_head bl x) (4 + 4 * k)) [0..<length bl] = bl"
    using F by (intro nth_equalityI) (simp_all add: put_head_def)
  ultimately show "head_of (put_head bl x) = bl" by (simp add: head_of_def)
qed

subsection \<open>Disks\<close>

lemma copied_other: "(\<And>k. k < m \<Longrightarrow> unat (a k) \<noteq> b) \<Longrightarrow> copied a w m D b = D b"
  by (induction m) auto

lemma copied_at:
  assumes "k < m" and "inj_on a {..<m}"
  shows "copied a w m D (unat (a k)) = w k"
  using assms
proof (induction m)
  case (Suc m)
  show ?case
  proof (cases "k = m")
    case False
    then have "a k \<noteq> a m" using Suc.prems by (auto simp: inj_on_def)
    then show ?thesis using Suc False by (auto simp: word_unat_eq_iff [symmetric] inj_on_def)
  qed simp
qed simp

lemma copied_cong: "(\<And>k. k < m \<Longrightarrow> a k = a' k \<and> w k = w' k) \<Longrightarrow> copied a w m D = copied a' w' m D"
  by (induction m) auto

lemma slot_unat:
  assumes "unat ls + nat LOGSIZE < 2 ^ 32" and "k < nat LOGSIZE"
  shows "unat (log_slot_at ls k) = unat ls + k + 1" "in_log ls (log_slot_at ls k)" "log_slot_at ls k \<noteq> ls"
proof -
  have "unat (ls + of_nat k + 1) = unat ls + k + 1"
    using assms by (simp add: unat_word_ariths unat_of_nat mod_simps)
  then show u: "unat (log_slot_at ls k) = unat ls + k + 1" by (simp add: log_slot_at_def)
  then show "in_log ls (log_slot_at ls k)" "log_slot_at ls k \<noteq> ls" using assms by (auto simp: in_log_def)
qed

lemma slot_inj:
  assumes "unat ls + nat LOGSIZE < 2 ^ 32" and "m \<le> nat LOGSIZE"
  shows "inj_on (log_slot_at ls) {..<m}"
proof (rule inj_onI)
  fix i j assume ij: "i \<in> {..<m}" "j \<in> {..<m}" and e: "log_slot_at ls i = log_slot_at ls j"
  have "unat ls + i + 1 = unat ls + j + 1"
    using slot_unat(1) [OF assms(1), of i] slot_unat(1) [OF assms(1), of j] assms(2) ij unfolding e by simp
  then show "i = j" by simp
qed

lemma loggableD:
  assumes "loggable ls bl"
  shows "unat ls + nat LOGSIZE < 2 ^ 32" "distinct bl" "length bl < nat LOGSIZE" "\<And>b. b \<in> set bl \<Longrightarrow> \<not> in_log ls b"
    "inj_on ((!) bl) {..<length bl}" "ls \<notin> set bl"
    "\<And>k j. k < nat LOGSIZE \<Longrightarrow> j < length bl \<Longrightarrow> log_slot_at ls k \<noteq> bl ! j"
proof -
  show 1: "unat ls + nat LOGSIZE < 2 ^ 32" "distinct bl" "length bl < nat LOGSIZE" "\<And>b. b \<in> set bl \<Longrightarrow> \<not> in_log ls b"
    using assms by (auto simp: loggable_def)
  show "inj_on ((!) bl) {..<length bl}" using inj_on_nth [OF 1(2)] by simp
  show "ls \<notin> set bl" using 1(4) [of ls] by (auto simp: in_log_def)
  show "log_slot_at ls k \<noteq> bl ! j" if "k < nat LOGSIZE" "j < length bl" for k j
    using 1(4) [of "bl ! j"] slot_unat(2) [OF 1(1) that(1)] that(2) by auto
qed

subsection \<open>The log's routines over the cache\<close>

lemma log_atD:
  assumes "log_at d ls bl l"
  shows "lg_dev l = d" "lg_start l = ls" "lh_n l = int (length bl)" "length (lh_block l) = nat LOGSIZE"
    "take (length bl) (lh_block l) = bl" "length bl \<le> nat LOGSIZE" "\<And>k. k < length bl \<Longrightarrow> lh_block l ! k = bl ! k"
proof -
  show 1: "lg_dev l = d" "lg_start l = ls" "lh_n l = int (length bl)" "length (lh_block l) = nat LOGSIZE"
    "take (length bl) (lh_block l) = bl" using assms by (auto simp: log_at_def)
  show "length bl \<le> nat LOGSIZE" using 1(4,5) by (metis length_take min.cobounded2 min.orderE nat_le_linear)
  show "lh_block l ! k = bl ! k" if "k < length bl" for k using 1(5) that by (metis nth_take)
qed

lemma hold_disk: "hold d me {} P v D h l c s \<Longrightarrow> b \<notin> c ` P \<Longrightarrow> v b = D (unat b)"
  by (rule hold_clean) auto

lemma slot_notin: "loggable ls bl \<Longrightarrow> k < nat LOGSIZE \<Longrightarrow> log_slot_at ls k \<notin> set bl"
  using loggableD(7) [of ls bl k] by (metis in_set_conv_nth)

lemma hold_lh_get:
  assumes "hold d me L P v D h l c s" and "k < length (lh_block l)" and "Q (lh_block l ! k) s"
  shows "wp e (lh_get k) Q B s"
  using assms holdD(5) [OF assms(1)] by (simp add: lh_get_def)

text \<open>The copy of one held buffer into another, written to disk.\<close>

lemma copy_wp:
  assumes h: "hold d me L P v D h l c s" and L: "i \<in> L" "j \<in> L" "c i \<noteq> c j"
    and M: "\<And>t. hold d me L P (v(c i := v (c j))) (D(unat (c i) := v (c j))) (h @ [D(unat (c i) := v (c j))]) l c t \<Longrightarrow> wp e M Q B t"
  shows "wp e (bnd (bdata_get j) (\<lambda>x. seq (bdata_mod i (\<lambda>_. x)) (seq (bwrite i) M))) Q B s"
proof -
  have len: "length (v (c j)) = BSIZE"
    using cinv_held(5,7) [OF holdD(1) [OF h] L(2)] holdD(2,6) [OF h] L(2) by simp
  have "wp e (seq (bdata_mod i (\<lambda>_. v (c j))) (seq (bwrite i) M)) Q B s"
    unfolding wp_seq
  proof (rule hold_mod [OF h L(1)])
    fix t assume h1: "hold d me L P (v(c i := v (c j))) D h l c t"
    show "wp e (bwrite i) (\<lambda>_. wp e M Q B) B t"
      by (rule hold_write [OF h1 L(1)]) (use M in simp)
  qed (use len in simp)
  then show ?thesis unfolding wp_bnd by (rule hold_get [OF h L(2)])
qed

text \<open>Both buffers of a copy, read: the log's own, which nobody pins, and the pinned home buffer.\<close>

lemma log_pair_wp:
  assumes h: "hold d me {} P v D h l c s" and g: "log_at d ls bl l" and ok: "loggable ls bl" and p: "bl ! k \<in> c ` P \<or> card P + 1 < NBUF"
    and lg: "c ` P \<subseteq> set bl" and k: "k < length bl" and n: "card P < NBUF"
    and M: "\<And>i j c' t. i \<noteq> j \<Longrightarrow> i \<notin> P \<Longrightarrow> c' i = log_slot_at ls k \<Longrightarrow> c' j = bl ! k \<Longrightarrow> (\<And>x. x \<in> P \<Longrightarrow> c' x = c x) \<Longrightarrow>
      (bl ! k \<in> c ` P \<Longrightarrow> j \<in> P) \<Longrightarrow> hold d me {i, j} P v D h l c' t \<Longrightarrow> wp e (M i j) Q B t"
  shows "wp e (bnd (gets lg) (\<lambda>l. bnd (bread (lg_dev l) (lg_start l + of_nat k + 1)) (\<lambda>i. bnd (lh_get k) (\<lambda>b.
    bnd (bread (lg_dev l) b) (M i))))) Q B s"
proof -
  note G = log_atD [OF g] and K = loggableD [OF ok]
  define a where "a = log_slot_at ls k"
  have a: "lg_start l + of_nat k + 1 = a" using G(2) by (simp add: a_def log_slot_at_def)
  have kl: "k < nat LOGSIZE" using k K(3) by simp
  have ab: "a \<noteq> b" if "b \<in> set bl" for b
    using K(7) [OF kl] that by (metis a_def in_set_conv_nth)
  show ?thesis
    unfolding wp_bnd wp_gets holdD(5) [OF h] G(1) a
  proof (rule hold_bread [OF h])
    show "(\<exists>i\<in>P. c i = a) \<or> card ({} \<union> P) < NBUF" using n by simp
    fix i t1 assume i: "i \<in> P \<Longrightarrow> c i = a" and h1: "hold d me (insert i {}) P v D h l (c(i := a)) t1"
    have ip: "i \<notin> P" using i lg ab by auto
    have fin: "finite P" using cinvD(9) [OF holdD(1) [OF h]] .
    show "wp e (lh_get k) (\<lambda>b. wp e (bread d b) (\<lambda>x. wp e (M i x) Q B) B) B t1"
    proof (rule hold_lh_get [OF h1])
      show "wp e (bread d (lh_block l ! k)) (\<lambda>x. wp e (M i x) Q B) B t1"
        unfolding G(7) [OF k]
      proof (rule hold_bread [OF h1])
        show "(\<exists>j\<in>P. (c(i := a)) j = bl ! k) \<or> card (insert i {} \<union> P) < NBUF" using p ip fin by auto
        show "(c(i := a)) j \<noteq> bl ! k" if "j \<in> insert i {}" for j using that ab [of "bl ! k"] k by simp
        fix j t2 assume j: "j \<notin> insert i {}" and ex: "\<And>j'. j' \<in> P \<Longrightarrow> (c(i := a)) j' = bl ! k \<Longrightarrow> j' = j"
          and jp: "j \<in> P \<Longrightarrow> (c(i := a)) j = bl ! k"
          and h2: "hold d me (insert j (insert i {})) P v D h l ((c(i := a))(j := bl ! k)) t2"
        have ji: "j \<noteq> i" using j by simp
        show "wp e (M i j) Q B t2"
        proof (rule M [where c' = "(c(i := a))(j := bl ! k)"])
          show "hold d me {i, j} P v D h l ((c(i := a))(j := bl ! k)) t2"
            using h2 by (simp add: insert_commute)
          show "((c(i := a))(j := bl ! k)) x = c x" if "x \<in> P" for x
            using that ip jp ji by (cases "x = j") auto
          show "j \<in> P" if "bl ! k \<in> c ` P"
          proof -
            from that obtain x where "x \<in> P" "c x = bl ! k" by auto
            then show ?thesis using ex [of x] ip by (cases "x = i") auto
          qed
        qed (use ji ip in \<open>simp_all add: a_def\<close>)
      qed
    qed (use G(4) kl in simp)
  qed simp_all
qed

lemma write_log_one_wp:
  assumes h: "hold d me {} P v D h l c s" and g: "log_at d ls bl l" and ok: "loggable ls bl" and p: "c ` P = set bl"
    and k: "k < length bl" and n: "card P < NBUF"
    and Q: "\<And>t v'. hold d me {} P v' (D(unat (log_slot_at ls k) := v (bl ! k)))
        (h @ [D(unat (log_slot_at ls k) := v (bl ! k))]) l c t \<Longrightarrow>
      (\<And>b. b \<in> set bl \<Longrightarrow> v' b = v b) \<Longrightarrow> Q () t"
  shows "wp e (write_log_one k) Q B s"
  unfolding write_log_one_def
proof (rule log_pair_wp [OF h g ok _ _ k n])
  note K = loggableD [OF ok]
  define a where "a = log_slot_at ls k"
  have ab: "a \<noteq> b" if "b \<in> set bl" for b
    using K(3) K(7) [of k] k that unfolding a_def by (metis in_set_conv_nth less_trans)
  show "bl ! k \<in> c ` P \<or> card P + 1 < NBUF" "c ` P \<subseteq> set bl" using p k by auto
  fix i j c' t
  assume ij: "i \<noteq> j" "i \<notin> P" "c' i = log_slot_at ls k" "c' j = bl ! k" "\<And>x. x \<in> P \<Longrightarrow> c' x = c x"
    "bl ! k \<in> c ` P \<Longrightarrow> j \<in> P" and h1: "hold d me {i, j} P v D h l c' t"
  have jp: "j \<in> P" using ij(6) p k by simp
  show "wp e (bnd (bdata_get j) (\<lambda>d. seq (bdata_mod i (\<lambda>_. d)) (seq (bwrite i) (seq (brelse j) (brelse i))))) Q B t"
  proof (rule copy_wp [OF h1])
    let ?v = "v(c' i := v (c' j))" and ?D = "D(unat (c' i) := v (c' j))"
    fix t1 assume h2: "hold d me {i, j} P ?v ?D (h @ [?D]) l c' t1"
    show "wp e (seq (brelse j) (brelse i)) Q B t1"
      unfolding wp_seq
    proof (rule hold_relse [OF h2])
      fix t2 assume "hold d me ({i, j} - {j}) P ?v ?D (h @ [?D]) l c' t2"
      moreover have "{i, j} - {j} = {i}" using ij(1) by auto
      ultimately have h3: "hold d me {i} P ?v ?D (h @ [?D]) l c' t2" by simp
      show "wp e (brelse i) Q B t2"
      proof (rule hold_relse [OF h3])
        fix t3 assume "hold d me ({i} - {i}) P ?v ?D (h @ [?D]) l c' t3"
        then have "hold d me {} P ?v ?D (h @ [?D]) l c t3" using ij(5) by (auto elim!: hold_c)
        moreover have "unat (c' i) = unat (log_slot_at ls k)" "v (c' j) = v (bl ! k)" using ij(3,4) by simp_all
        ultimately have "hold d me {} P ?v (D(unat (log_slot_at ls k) := v (bl ! k)))
            (h @ [D(unat (log_slot_at ls k) := v (bl ! k))]) l c t3" by simp
        then show "Q () t3" by (rule Q) (use ab ij(3) in \<open>auto simp: a_def\<close>)
      qed simp_all
    qed (use jp in simp_all)
  qed (use ij ab k in \<open>auto simp: a_def\<close>)
qed

lemma wp_foreach_Suc:
  assumes "wp e (foreach [0..<m] f) (\<lambda>_ t. R m t) B s" and "\<And>t. R m t \<Longrightarrow> wp e (f m) (\<lambda>_ t. R (Suc m) t) B t"
  shows "wp e (foreach [0..<Suc m] f) (\<lambda>_ t. R (Suc m) t) B s"
proof -
  have "foreach [0..<Suc m] f s = bnd (foreach [0..<m] f) (\<lambda>_. f m) s"
    by (simp add: foreach_append seq_def)
  then show ?thesis using wp_conseq [OF assms(1)] assms(2) wp_bnd [of e "foreach [0..<m] f" "\<lambda>_. f m"] by (simp add: wp_def)
qed

definition wrote :: "(nat \<Rightarrow> u32) \<Rightarrow> (nat \<Rightarrow> u8 list) \<Rightarrow> nat \<Rightarrow> (nat \<Rightarrow> u8 list) \<Rightarrow> (nat \<Rightarrow> u8 list) list" where
  "wrote a w m D = map (\<lambda>k. copied a w (Suc k) D) [0..<m]"

lemma wrote_Suc: "wrote a w 0 D = []" "wrote a w (Suc m) D = wrote a w m D @ [copied a w (Suc m) D]"
  by (simp_all add: wrote_def)

lemma write_log_wp:
  assumes h: "hold d me {} P v D h l c s" and g: "log_at d ls bl l" and ok: "loggable ls bl" and p: "c ` P = set bl"
    and n: "card P < NBUF" and m: "m \<le> length bl"
  shows "wp e (foreach [0..<m] write_log_one) (\<lambda>_ t. \<exists>v'. hold d me {} P v'
      (copied (log_slot_at ls) (\<lambda>k. v (bl ! k)) m D) (h @ wrote (log_slot_at ls) (\<lambda>k. v (bl ! k)) m D) l c t \<and>
      (\<forall>b \<in> set bl. v' b = v b)) B s"
  using m
proof (induction m)
  case 0
  then show ?case using h by (auto simp: wrote_Suc)
next
  case (Suc m)
  show ?case
  proof (rule wp_foreach_Suc [where m = m])
    fix t assume "\<exists>v'. hold d me {} P v' (copied (log_slot_at ls) (\<lambda>k. v (bl ! k)) m D)
      (h @ wrote (log_slot_at ls) (\<lambda>k. v (bl ! k)) m D) l c t \<and> (\<forall>b \<in> set bl. v' b = v b)"
    then obtain v' where v': "hold d me {} P v' (copied (log_slot_at ls) (\<lambda>k. v (bl ! k)) m D)
      (h @ wrote (log_slot_at ls) (\<lambda>k. v (bl ! k)) m D) l c t" "\<forall>b \<in> set bl. v' b = v b" by blast
    have "v' (bl ! m) = v (bl ! m)" using v'(2) Suc.prems by simp
    then show "wp e (write_log_one m) (\<lambda>_ t. \<exists>v'. hold d me {} P v' (copied (log_slot_at ls) (\<lambda>k. v (bl ! k)) (Suc m) D)
        (h @ wrote (log_slot_at ls) (\<lambda>k. v (bl ! k)) (Suc m) D) l c t \<and> (\<forall>b \<in> set bl. v' b = v b)) B t"
      using Suc.prems v'(2) by (intro write_log_one_wp [OF v'(1) g ok p _ n]) (auto simp: wrote_Suc)
  qed (use Suc in simp)
qed

lemma view_length:
  assumes "hold d me L P v D h l c s"
  shows "length (v b) = BSIZE"
proof -
  note C = cinvD [OF holdD(1) [OF assms]]
  have "length (view d s b) = BSIZE"
  proof (cases "find (\<lambda>i. hit (bufs s) d b i \<and> bvalid (bufs s ! i)) [0..<NBUF]")
    case (Some i)
    then have "i < NBUF" using find_in [OF Some] by simp
    then show ?thesis using Some C(4) [of i] by (simp add: view_def buf_ok_def Let_def)
  qed (simp add: view_def C(7))
  then show ?thesis using holdD(2) [OF assms] by simp
qed

lemma head_fill_wp:
  assumes h: "hold d me {i} P v D h l c s" and g: "length (lh_block l) = nat LOGSIZE" and m: "m \<le> nat LOGSIZE"
  shows "wp e (foreach [0..<m] (\<lambda>k. bnd (lh_get k) (\<lambda>b. bdata_mod i (put32 (4 + 4 * k) b))))
    (\<lambda>_ t. hold d me {i} P (v(c i := fold (\<lambda>k. put32 (4 + 4 * k) (lh_block l ! k)) [0..<m] (v (c i)))) D h l c t) B s"
  using m
proof (induction m)
  case 0
  then show ?case using h by simp
next
  case (Suc m)
  show ?case
  proof (rule wp_foreach_Suc [where m = m])
    let ?x = "fold (\<lambda>k. put32 (4 + 4 * k) (lh_block l ! k)) [0..<m] (v (c i))"
    fix t assume h1: "hold d me {i} P (v(c i := ?x)) D h l c t"
    have len: "length ?x = BSIZE" using view_length [OF h1, of "c i"] by simp
    show "wp e (bnd (lh_get m) (\<lambda>b. bdata_mod i (put32 (4 + 4 * m) b))) (\<lambda>_ t. hold d me {i} P
        (v(c i := fold (\<lambda>k. put32 (4 + 4 * k) (lh_block l ! k)) [0..<Suc m] (v (c i)))) D h l c t) B t"
      unfolding wp_bnd
    proof (rule hold_lh_get [OF h1])
      show "wp e (bdata_mod i (put32 (4 + 4 * m) (lh_block l ! m))) (\<lambda>_ t. hold d me {i} P
          (v(c i := fold (\<lambda>k. put32 (4 + 4 * k) (lh_block l ! k)) [0..<Suc m] (v (c i)))) D h l c t) B t"
        by (rule hold_mod [OF h1]) (use len Suc.prems in simp_all)
    qed (use g Suc.prems in simp)
  qed (use Suc in simp)
qed

lemma write_head_wp:
  assumes h: "hold d me {} P v D h l c s" and g: "log_at d ls bl l" and ls: "ls \<notin> c ` P" and n: "card P < NBUF"
    and Q: "\<And>t v'. hold d me {} P v' (set_head ls bl D) (h @ [set_head ls bl D]) l c t \<Longrightarrow> (\<And>b. b \<noteq> ls \<Longrightarrow> v' b = v b) \<Longrightarrow> Q () t"
  shows "wp e write_head Q B s"
  unfolding write_head_def wp_bnd wp_gets holdD(5) [OF h] log_atD(1,2) [OF g] wp_seq
proof (rule hold_bread [OF h])
  note G = log_atD [OF g]
  show "(\<exists>i\<in>P. c i = ls) \<or> card ({} \<union> P) < NBUF" using n by simp
  fix i t1 assume i: "i \<in> P \<Longrightarrow> c i = ls" and h0: "hold d me (insert i {}) P v D h l (c(i := ls)) t1"
  have ip: "i \<notin> P" using i ls by auto
  have vls: "v ls = D (unat ls)" by (rule hold_disk [OF h ls])
  let ?c = "c(i := ls)" and ?x0 = "put32 0 (word_of_int (lh_n l)) (v ls)"
  have len: "length (v ls) = BSIZE" using view_length [OF h] .
  have fold: "fold (\<lambda>k. put32 (4 + 4 * k) (lh_block l ! k)) [0..<nat (lh_n l)] ?x0 = put_head bl (D (unat ls))"
    unfolding put_head_def vls G(3) using G(7) by (auto intro!: fold_cong)
  show "wp e (bdata_mod i (put32 0 (word_of_int (lh_n l)))) (\<lambda>_. wp e (foreach [0..<nat (lh_n l)] (\<lambda>k. bnd (lh_get k)
      (\<lambda>v. bdata_mod i (put32 (4 + 4 * k) v)))) (\<lambda>_. wp e (bwrite i) (\<lambda>_. wp e (brelse i) Q B) B) B) B t1"
  proof (rule hold_mod [OF h0])
    fix t2 assume "hold d me {i} P (v(?c i := put32 0 (word_of_int (lh_n l)) (v (?c i)))) D h l ?c t2"
    then have h2: "hold d me {i} P (v(ls := ?x0)) D h l ?c t2" by simp
    show "wp e (foreach [0..<nat (lh_n l)] (\<lambda>k. bnd (lh_get k) (\<lambda>v. bdata_mod i (put32 (4 + 4 * k) v))))
        (\<lambda>_. wp e (bwrite i) (\<lambda>_. wp e (brelse i) Q B) B) B t2"
    proof (rule wp_conseq [OF head_fill_wp [OF h2 G(4)]])
      show "nat (lh_n l) \<le> nat LOGSIZE" using G(3,6) by simp
      let ?v = "v(ls := put_head bl (D (unat ls)))"
      fix t3 assume "hold d me {i} P ((v(ls := ?x0))(?c i := fold (\<lambda>k. put32 (4 + 4 * k) (lh_block l ! k)) [0..<nat (lh_n l)]
          ((v(ls := ?x0)) (?c i)))) D h l ?c t3"
      then have h3: "hold d me {i} P ?v D h l ?c t3" using fold by simp
      show "wp e (bwrite i) (\<lambda>_. wp e (brelse i) Q B) B t3"
      proof (rule hold_write [OF h3])
        fix t4 assume "hold d me {i} P ?v (D(unat (?c i) := ?v (?c i))) (h @ [D(unat (?c i) := ?v (?c i))]) l ?c t4"
        then have h4: "hold d me {i} P ?v (set_head ls bl D) (h @ [set_head ls bl D]) l ?c t4" by (simp add: set_head_def)
        show "wp e (brelse i) Q B t4"
        proof (rule hold_relse [OF h4])
          fix t5 assume "hold d me ({i} - {i}) P ?v (set_head ls bl D) (h @ [set_head ls bl D]) l ?c t5"
          then have "hold d me {} P ?v (set_head ls bl D) (h @ [set_head ls bl D]) l c t5" using ip by (auto elim!: hold_c)
          then show "Q () t5" by (rule Q) simp
        qed (simp_all add: set_head_def)
      qed simp
    qed
  qed (use len in simp_all)
qed simp_all

lemma install_one_wp:
  assumes h: "hold d me {} P v D h l c s" and g: "log_at d ls bl l" and ok: "loggable ls bl"
    and p: "c ` P \<subseteq> set bl" "rec \<and> card P + 1 < NBUF \<or> \<not> rec \<and> bl ! k \<in> c ` P" and k: "k < length bl" and n: "card P < NBUF"
    and Q: "\<And>t v'. hold d me {} (if rec then P else {x \<in> P. c x \<noteq> bl ! k}) v' (D(unat (bl ! k) := D (unat (log_slot_at ls k))))
        (h @ [D(unat (bl ! k) := D (unat (log_slot_at ls k)))]) l c t \<Longrightarrow> Q () t"
  shows "wp e (install_one rec k) Q B s"
  unfolding install_one_def
proof (rule log_pair_wp [OF h g ok _ p(1) k n])
  note K = loggableD [OF ok]
  show "bl ! k \<in> c ` P \<or> card P + 1 < NBUF" using p(2) by auto
  have kl: "k < nat LOGSIZE" using k K(3) by simp
  have ab: "log_slot_at ls k \<noteq> bl ! k" "log_slot_at ls k \<notin> c ` P"
    using K(7) [OF kl] k p(1) by (auto, metis in_set_conv_nth subsetD imageI)
  have va: "v (log_slot_at ls k) = D (unat (log_slot_at ls k))" by (rule hold_disk [OF h ab(2)])
  fix i j c' t
  assume ij: "i \<noteq> j" "i \<notin> P" "c' i = log_slot_at ls k" "c' j = bl ! k" "\<And>x. x \<in> P \<Longrightarrow> c' x = c x"
    "bl ! k \<in> c ` P \<Longrightarrow> j \<in> P" and h1: "hold d me {i, j} P v D h l c' t"
  let ?v = "v(c' j := v (c' i))" and ?D = "D(unat (c' j) := v (c' i))" and ?P = "if rec then P else P - {j}"
  have jp: "j \<in> P" if "\<not> rec" using that p(2) ij(6) by simp
  have P: "?P = (if rec then P else {x \<in> P. c x \<noteq> bl ! k})"
    using hold_inj [OF h1, of _ j] jp ij(4,5) by auto
  show "wp e (bnd (bdata_get i) (\<lambda>d. seq (bdata_mod j (\<lambda>_. d)) (seq (bwrite j)
      (seq (whenM (\<not> rec) (bunpin j)) (seq (brelse i) (brelse j)))))) Q B t"
  proof (rule copy_wp [OF h1])
    fix t1 assume h2: "hold d me {i, j} P ?v ?D (h @ [?D]) l c' t1"
    have "wp e (seq (brelse i) (brelse j)) Q B t2" if h3: "hold d me {i, j} ?P ?v ?D (h @ [?D]) l c' t2" for t2
      unfolding wp_seq
    proof (rule hold_relse [OF h3])
      fix t3 assume "hold d me ({i, j} - {i}) ?P ?v ?D (h @ [?D]) l c' t3"
      moreover have "{i, j} - {i} = {j}" using ij(1) by auto
      ultimately have h4: "hold d me {j} ?P ?v ?D (h @ [?D]) l c' t3" by simp
      show "wp e (brelse j) Q B t3"
      proof (rule hold_relse [OF h4])
        fix t4 assume "hold d me ({j} - {j}) ?P ?v ?D (h @ [?D]) l c' t4"
        then have "hold d me {} ?P ?v ?D (h @ [?D]) l c t4" using ij(5) by (auto elim!: hold_c split: if_splits)
        moreover have "?D = D(unat (bl ! k) := D (unat (log_slot_at ls k)))" using ij(3,4) va by simp
        ultimately have "hold d me {} ?P ?v (D(unat (bl ! k) := D (unat (log_slot_at ls k))))
            (h @ [D(unat (bl ! k) := D (unat (log_slot_at ls k)))]) l c t4" by simp
        then show "Q () t4" unfolding P by (rule Q)
      qed simp_all
    qed (use ij(3,4) ab va in \<open>auto simp: word_unat_eq_iff [symmetric]\<close>)
    note M = this
    show "wp e (seq (whenM (\<not> rec) (bunpin j)) (seq (brelse i) (brelse j))) Q B t1"
    proof (cases rec)
      case True
      then show ?thesis using M [of t1] h2 by (simp del: wp_bnd)
    next
      case False
      have "wp e (bunpin j) (\<lambda>_. wp e (seq (brelse i) (brelse j)) Q B) B t1"
        by (rule hold_pin(2) [OF h2]) (use jp M False in simp_all)
      then show ?thesis using False by simp
    qed
  qed (use ij ab in auto)
qed

lemma install_wp:
  assumes h: "hold d me {} P v D h l c s" and g: "log_at d ls bl l" and ok: "loggable ls bl"
    and p: "rec \<and> P = {} \<or> \<not> rec \<and> c ` P = set bl" and n: "card P < NBUF" and m: "m \<le> length bl"
    and w: "\<And>k. k < length bl \<Longrightarrow> w k = D (unat (log_slot_at ls k))"
  shows "wp e (foreach [0..<m] (install_one rec)) (\<lambda>_ t. \<exists>v'. hold d me {} {x \<in> P. c x \<notin> set (take m bl)} v'
      (copied ((!) bl) w m D) (h @ wrote ((!) bl) w m D) l c t) B s"
  using m
proof (induction m)
  case 0
  then show ?case using h by (auto simp: wrote_Suc)
next
  case (Suc m)
  note K = loggableD [OF ok]
  have m: "m < length bl" using Suc.prems by simp
  show ?case
  proof (rule wp_foreach_Suc [where m = m])
    let ?P = "{x \<in> P. c x \<notin> set (take m bl)}" and ?D = "copied ((!) bl) w m D"
    fix t assume "\<exists>v'. hold d me {} ?P v' ?D (h @ wrote ((!) bl) w m D) l c t"
    then obtain v' where v': "hold d me {} ?P v' ?D (h @ wrote ((!) bl) w m D) l c t" by blast
    have fin: "finite P" using cinvD(9) [OF holdD(1) [OF h]] .
    have card: "card ?P < NBUF" using n card_mono [OF fin, of ?P] by simp
    have sub: "c ` ?P \<subseteq> set bl" using p by auto
    have nin: "bl ! m \<notin> set (take m bl)" using K(2) m by (simp add: in_set_conv_nth nth_eq_iff_index_eq)
    have mem: "rec \<and> card ?P + 1 < NBUF \<or> \<not> rec \<and> bl ! m \<in> c ` ?P"
    proof (cases rec)
      case False
      then have "bl ! m \<in> c ` P" using p m by simp
      then show ?thesis using False nin by auto
    qed (use p in simp)
    have "?D (unat (log_slot_at ls m)) = w m"
      using K(3) K(7) [of m] m w [OF m]
      by (subst copied_other) (simp_all add: word_unat_eq_iff [symmetric] eq_commute [of _ "log_slot_at ls m"])
    then have D: "?D(unat (bl ! m) := ?D (unat (log_slot_at ls m))) = copied ((!) bl) w (Suc m) D" by simp
    have P: "(if rec then ?P else {x \<in> ?P. c x \<noteq> bl ! m}) = {x \<in> P. c x \<notin> set (take (Suc m) bl)}"
      using p m by (auto simp: take_Suc_conv_app_nth)
    show "wp e (install_one rec m) (\<lambda>_ t. \<exists>v'. hold d me {} {x \<in> P. c x \<notin> set (take (Suc m) bl)} v'
        (copied ((!) bl) w (Suc m) D) (h @ wrote ((!) bl) w (Suc m) D) l c t) B t"
    proof (rule install_one_wp [OF v' g ok sub mem m card])
      fix t1 v1 assume "hold d me {} (if rec then ?P else {x \<in> ?P. c x \<noteq> bl ! m}) v1 (?D(unat (bl ! m) := ?D (unat (log_slot_at ls m))))
          ((h @ wrote ((!) bl) w m D) @ [?D(unat (bl ! m) := ?D (unat (log_slot_at ls m)))]) l c t1"
      then show "\<exists>v'. hold d me {} {x \<in> P. c x \<notin> set (take (Suc m) bl)} v'
          (copied ((!) bl) w (Suc m) D) (h @ wrote ((!) bl) w (Suc m) D) l c t1"
        unfolding P D wrote_Suc by auto
    qed
  qed (use Suc in simp)
qed

lemma log_at_empty: "log_at d ls bl l \<Longrightarrow> log_at d ls [] (l\<lparr>lh_n := 0\<rparr>)"
  by (simp add: log_at_def)

text \<open>Every disk that a commit writes, in order.\<close>

definition commit_disks :: "u32 \<Rightarrow> u32 list \<Rightarrow> (nat \<Rightarrow> u8 list) \<Rightarrow> (nat \<Rightarrow> u8 list) \<Rightarrow> (nat \<Rightarrow> u8 list) list" where
  "commit_disks ls bl w D =
     (let D1 = copied (log_slot_at ls) w (length bl) D; D2 = set_head ls bl D1; D3 = copied ((!) bl) w (length bl) D2
      in wrote (log_slot_at ls) w (length bl) D @ [D2] @ wrote ((!) bl) w (length bl) D2 @ [set_head ls [] D3])"

lemma commit_wp:
  assumes h: "hold d me {} P v D h l c s" and g: "log_at d ls bl l" and ok: "loggable ls bl" and p: "c ` P = set bl" and ne: "bl \<noteq> []"
    and Q: "\<And>t v'. hold d me {} {} v' (last (commit_disks ls bl (\<lambda>k. v (bl ! k)) D)) (h @ commit_disks ls bl (\<lambda>k. v (bl ! k)) D)
      (l\<lparr>lh_n := 0\<rparr>) c t \<Longrightarrow> Q () t"
  shows "wp e commit Q B s"
proof -
  note G = log_atD [OF g] and K = loggableD [OF ok]
  define w where "w k = v (bl ! k)" for k
  have inj: "inj_on c P" using hold_inj [OF h] by (auto simp: inj_on_def)
  have n: "card P < NBUF" using card_image [OF inj] p distinct_card [OF K(2)] K(3) by simp
  let ?D1 = "copied (log_slot_at ls) w (length bl) D"
  let ?D2 = "set_head ls bl ?D1"
  let ?D3 = "copied ((!) bl) w (length bl) ?D2"
  have D2: "w k = ?D2 (unat (log_slot_at ls k))" if "k < length bl" for k
    using copied_at [OF that slot_inj [OF K(1)]] slot_unat(3) [OF K(1), of k] that K(3)
    by (simp add: set_head_def word_unat_eq_iff [symmetric])
  have "wp e (seq write_log (seq write_head (seq (install_trans False) (seq (lg_mod (\<lambda>l. l\<lparr>lh_n := 0\<rparr>)) write_head)))) Q B s"
    unfolding write_log_def install_trans_def wp_seq wp_bnd wp_gets holdD(5) [OF h] G(3) nat_int
  proof (rule wp_conseq [OF write_log_wp [OF h g ok p n order_refl]])
    fix t1 assume "\<exists>v'. hold d me {} P v' (copied (log_slot_at ls) (\<lambda>k. v (bl ! k)) (length bl) D)
      (h @ wrote (log_slot_at ls) (\<lambda>k. v (bl ! k)) (length bl) D) l c t1 \<and> (\<forall>b \<in> set bl. v' b = v b)"
    then obtain v1 where h1: "hold d me {} P v1 ?D1 (h @ wrote (log_slot_at ls) w (length bl) D) l c t1"
      unfolding w_def by blast
    show "wp e write_head (\<lambda>_ s. wp e (foreach [0..<nat (lh_n (lg s))] (install_one False)) (\<lambda>_. wp e (lg_mod (\<lambda>l. l\<lparr>lh_n := 0\<rparr>))
        (\<lambda>_. wp e write_head Q B) B) B s) B t1"
    proof (rule write_head_wp [OF h1 g _ n])
      fix t2 v2 assume h2: "hold d me {} P v2 ?D2 ((h @ wrote (log_slot_at ls) w (length bl) D) @ [?D2]) l c t2"
      have "nat (lh_n (lg t2)) = length bl" using holdD(5) [OF h2] G(3) by simp
      then show "wp e (foreach [0..<nat (lh_n (lg t2))] (install_one False)) (\<lambda>_. wp e (lg_mod (\<lambda>l. l\<lparr>lh_n := 0\<rparr>))
          (\<lambda>_. wp e write_head Q B) B) B t2"
      proof (simp only:, intro wp_conseq [OF install_wp [OF h2 g ok _ n order_refl]])
        show "False \<and> P = {} \<or> \<not> False \<and> c ` P = set bl" using p by simp
        show "w k = ?D2 (unat (log_slot_at ls k))" if "k < length bl" for k using D2 [OF that] .
        fix t3 assume "\<exists>v'. hold d me {} {x \<in> P. c x \<notin> set (take (length bl) bl)} v' ?D3
          (((h @ wrote (log_slot_at ls) w (length bl) D) @ [?D2]) @ wrote ((!) bl) w (length bl) ?D2) l c t3"
        moreover have "{x \<in> P. c x \<notin> set (take (length bl) bl)} = {}" using p by auto
        ultimately have "\<exists>v'. hold d me {} {} v' ?D3
          (((h @ wrote (log_slot_at ls) w (length bl) D) @ [?D2]) @ wrote ((!) bl) w (length bl) ?D2) l c t3" by (simp only:)
        then obtain v3 where h3: "hold d me {} {} v3 ?D3
          (((h @ wrote (log_slot_at ls) w (length bl) D) @ [?D2]) @ wrote ((!) bl) w (length bl) ?D2) l c t3" ..
        show "wp e (lg_mod (\<lambda>l. l\<lparr>lh_n := 0\<rparr>)) (\<lambda>_. wp e write_head Q B) B t3"
        proof (rule hold_lg_mod [OF h3])
          fix t4 assume h4: "hold d me {} {} v3 ?D3 (((h @ wrote (log_slot_at ls) w (length bl) D) @ [?D2]) @
            wrote ((!) bl) w (length bl) ?D2) (l\<lparr>lh_n := 0\<rparr>) c t4"
          show "wp e write_head Q B t4"
            by (rule write_head_wp [OF h4 log_at_empty [OF g]])
               (use Q in \<open>simp_all add: commit_disks_def Let_def w_def [symmetric]\<close>)
        qed
      qed
    qed (use p K(6) in simp)
  qed
  then show ?thesis using ne G(3) holdD(5) [OF h] by (simp add: commit_def del: wp_seq)
qed

subsection \<open>Recovery\<close>

definition head_ok :: "u32 \<Rightarrow> u8 list \<Rightarrow> bool" where
  "head_ok ls x \<longleftrightarrow> 0 \<le> sint (get32 x 0) \<and> loggable ls (head_of x)"

lemma hold_lh_set:
  assumes h: "hold d me L P v D h l c s" and "k < length (lh_block l)"
    and "\<And>t. hold d me L P v D h (l\<lparr>lh_block := (lh_block l)[k := b]\<rparr>) c t \<Longrightarrow> Q () t"
  shows "wp e (lh_set k b) Q B s"
proof -
  have "wp e (lg_mod (\<lambda>m. m\<lparr>lh_block := (lh_block l)[k := b]\<rparr>)) Q B s"
    by (rule hold_lg_mod [OF h]) (use assms(3) in simp)
  then show ?thesis using assms(2) holdD(5) [OF h] by (simp add: lh_set_def)
qed

lemma lh_fill_wp:
  assumes h: "hold d me L P v D h l c s" and g: "length (lh_block l) = nat LOGSIZE" and m: "m \<le> nat LOGSIZE"
  shows "wp e (foreach [0..<m] (\<lambda>k. lh_set k (f k))) (\<lambda>_ t. hold d me L P v D h
    (l\<lparr>lh_block := map f [0..<m] @ drop m (lh_block l)\<rparr>) c t) B s"
  using m
proof (induction m)
  case 0
  then show ?case using h by simp
next
  case (Suc m)
  show ?case
  proof (rule wp_foreach_Suc [where m = m])
    fix t assume h1: "hold d me L P v D h (l\<lparr>lh_block := map f [0..<m] @ drop m (lh_block l)\<rparr>) c t"
    have "(map f [0..<m] @ drop m (lh_block l))[m := f m] = map f [0..<Suc m] @ drop (Suc m) (lh_block l)"
      using Suc.prems g by (intro nth_equalityI) (auto simp: nth_list_update nth_append less_Suc_eq)
    then show "wp e (lh_set m (f m)) (\<lambda>_ t. hold d me L P v D h (l\<lparr>lh_block := map f [0..<Suc m] @ drop (Suc m) (lh_block l)\<rparr>) c t) B t"
      by (intro hold_lh_set [OF h1]) (use Suc.prems g in simp_all)
  qed (use Suc in simp)
qed

lemma read_head_wp:
  assumes h: "hold d me {} {} v D h l c s" and l: "lg_dev l = d" "lg_start l = ls" "length (lh_block l) = nat LOGSIZE"
    and ok: "head_ok ls (D (unat ls))"
    and Q: "\<And>t l'. hold d me {} {} v D h l' c t \<Longrightarrow> log_at d ls (head_of (D (unat ls))) l' \<Longrightarrow> Q () t"
  shows "wp e read_head Q B s"
  unfolding read_head_def wp_bnd wp_gets holdD(5) [OF h] l wp_seq
proof (rule hold_bread [OF h])
  let ?x = "D (unat ls)"
  define n where "n = nat (sint (get32 ?x 0))"
  have n: "sint (get32 ?x 0) = int n" "n \<le> nat LOGSIZE" "length (head_of ?x) = n"
    using ok by (simp_all add: head_ok_def loggable_def n_def head_of_def)
  have vls: "v ls = ?x" by (rule hold_disk [OF h]) simp
  fix i t1 assume h0: "hold d me (insert i {}) {} v D h l (c(i := ls)) t1"
  have it: "v ((c(i := ls)) i) = ?x" using vls by simp
  show "wp e (bdata_get i) (\<lambda>d. wp e (lg_mod (\<lambda>l. l\<lparr>lh_n := sint (get32 d 0)\<rparr>)) (\<lambda>_. wp e (foreach [0..<nat (sint (get32 d 0))]
      (\<lambda>k. lh_set k (get32 d (4 + 4 * k)))) (\<lambda>_. wp e (brelse i) Q B) B) B) B t1"
  proof (rule hold_get [OF h0], simp, unfold it n nat_int, rule hold_lg_mod [OF h0])
    let ?l = "l\<lparr>lh_n := int n\<rparr>" and ?f = "\<lambda>k. get32 ?x (4 + 4 * k)"
    fix t2 assume h1: "hold d me (insert i {}) {} v D h ?l (c(i := ls)) t2"
    have g: "length (lh_block ?l) = nat LOGSIZE" using l(3) by simp
    show "wp e (foreach [0..<n] (\<lambda>k. lh_set k (?f k))) (\<lambda>_. wp e (brelse i) Q B) B t2"
    proof (rule wp_conseq [OF lh_fill_wp [OF h1 g n(2)]])
      let ?l' = "?l\<lparr>lh_block := map ?f [0..<n] @ drop n (lh_block ?l)\<rparr>"
      fix t3 assume h2: "hold d me (insert i {}) {} v D h ?l' (c(i := ls)) t3"
      have at: "log_at d ls (head_of ?x) ?l'" using l n by (simp add: log_at_def head_of_def n_def)
      show "wp e (brelse i) Q B t3"
      proof (rule hold_relse [OF h2])
        fix t4 assume "hold d me (insert i {} - {i}) {} v D h ?l' (c(i := ls)) t4"
        then have "hold d me {} {} v D h ?l' c t4" by (auto elim!: hold_c)
        then show "Q () t4" using at by (rule Q)
      qed (use vls in simp_all)
    qed
  qed
qed simp_all

definition recovery_disks :: "u32 \<Rightarrow> (nat \<Rightarrow> u8 list) \<Rightarrow> (nat \<Rightarrow> u8 list) list" where
  "recovery_disks ls D = (let bl = head_of (D (unat ls))
     in wrote ((!) bl) (\<lambda>k. D (unat (log_slot_at ls k))) (length bl) D @ [recovered ls D])"

lemma recover_wp:
  assumes h: "hold d me {} {} v D h l c s" and l: "lg_dev l = d" "lg_start l = ls" "length (lh_block l) = nat LOGSIZE"
    and ok: "head_ok ls (D (unat ls))"
    and Q: "\<And>t v' l'. hold d me {} {} v' (recovered ls D) (h @ recovery_disks ls D) l' c t \<Longrightarrow> log_at d ls [] l' \<Longrightarrow> Q () t"
  shows "wp e recover_from_log Q B s"
  unfolding recover_from_log_def install_trans_def wp_seq wp_bnd wp_gets
proof (rule read_head_wp [OF h l ok])
  let ?bl = "head_of (D (unat ls))" and ?w = "\<lambda>k. D (unat (log_slot_at ls k))"
  have lb: "loggable ls ?bl" using ok by (simp add: head_ok_def)
  fix t1 l1 assume h1: "hold d me {} {} v D h l1 c t1" and g: "log_at d ls ?bl l1"
  have n: "nat (lh_n (lg t1)) = length ?bl" using holdD(5) [OF h1] log_atD(3) [OF g] by simp
  show "wp e (foreach [0..<nat (lh_n (lg t1))] (install_one True)) (\<lambda>_. wp e (lg_mod (\<lambda>l. l\<lparr>lh_n := 0\<rparr>)) (\<lambda>_. wp e write_head Q B) B) B t1"
    unfolding n
  proof (rule wp_conseq [OF install_wp [OF h1 g lb _ _ order_refl]])
    fix t2 assume "\<exists>v'. hold d me {} {x \<in> {}. c x \<notin> set (take (length ?bl) ?bl)} v' (copied ((!) ?bl) ?w (length ?bl) D)
      (h @ wrote ((!) ?bl) ?w (length ?bl) D) l1 c t2"
    then obtain v2 where h2: "hold d me {} {} v2 (copied ((!) ?bl) ?w (length ?bl) D) (h @ wrote ((!) ?bl) ?w (length ?bl) D) l1 c t2"
      by auto
    show "wp e (lg_mod (\<lambda>l. l\<lparr>lh_n := 0\<rparr>)) (\<lambda>_. wp e write_head Q B) B t2"
    proof (rule hold_lg_mod [OF h2])
      fix t3 assume h3: "hold d me {} {} v2 (copied ((!) ?bl) ?w (length ?bl) D) (h @ wrote ((!) ?bl) ?w (length ?bl) D) (l1\<lparr>lh_n := 0\<rparr>) c t3"
      show "wp e write_head Q B t3"
        by (rule write_head_wp [OF h3 log_at_empty [OF g]])
           (use Q log_at_empty [OF g] in \<open>simp_all add: recovered_def recovery_disks_def Let_def\<close>)
    qed
  qed simp_all
qed

text \<open>The machine starts: the cache is set up and the log recovered, as \<^verbatim>\<open>main\<close> and \<^verbatim>\<open>forkret\<close> do.\<close>

definition boot_log :: "u32 \<Rightarrow> superblock \<Rightarrow> unit km" where
  "boot_log d sblk = seq binit (initlog d sblk)"

lemma hold_start: "cinv d me L P s \<Longrightarrow> hold d me L P (view d s) (disk s) (dhist s) (lg s) (\<lambda>i. blockno (bufs s ! i)) s"
  by (simp add: hold_def)

lemma initlock_wp: "held (kcpu s) = [] \<Longrightarrow> wp e (initlock l) Q B s = Q () s"
  by (simp add: wp_def initlock_calm)

lemma boot_log_run:
  assumes c: "calm me u" and b: "bufs u = replicate (NBUF + 1) bss_buf" and d: "d \<noteq> 0" and k: "\<And>k. length (disk u k) = BSIZE"
    and l: "length (lh_block (lg u)) = nat LOGSIZE" and ok: "head_ok (sb_logstart sblk) (disk u (unat (sb_logstart sblk)))"
  shows "\<exists>r. boot_log d sblk u = Ok () r \<and> cinv d me {} {} r \<and> disk r = recovered (sb_logstart sblk) (disk u) \<and>
    dhist r = dhist u @ recovery_disks (sb_logstart sblk) (disk u)"
proof -
  obtain B where B: "binit u = Ok () (u\<lparr>bufs := B\<rparr>)" "cinv d me {} {} (u\<lparr>bufs := B\<rparr>)"
    using binit_cinv [OF c b d k] by blast
  let ?u = "u\<lparr>bufs := B\<rparr>" and ?ls = "sb_logstart sblk"
  have h: "hold d me {} {} (view d ?u) (disk u) (dhist u) (lg u) (\<lambda>i. blockno (B ! i)) ?u"
    using hold_start [OF B(2)] by simp
  have nil: "held (kcpu ?u) = []" using calmD(7) [OF c] by simp
  let ?R = "\<lambda>r. cinv d me {} {} r \<and> disk r = recovered ?ls (disk u) \<and> dhist r = dhist u @ recovery_disks ?ls (disk u)"
  have "wp False (initlog d sblk) (\<lambda>_. ?R) (\<lambda>_. False) ?u"
    unfolding initlog_def wp_seq
  proof (subst initlock_wp [OF nil], rule hold_lg_mod [OF h])
    fix t1 assume h1: "hold d me {} {} (view d ?u) (disk u) (dhist u) ((lg u)\<lparr>lg_start := ?ls\<rparr>) (\<lambda>i. blockno (B ! i)) t1"
    show "wp False (lg_mod (\<lambda>l. l\<lparr>lg_size := sint (sb_nlog sblk)\<rparr>)) (\<lambda>_. wp False (lg_mod (\<lambda>l. l\<lparr>lg_dev := d\<rparr>))
        (\<lambda>_. wp False recover_from_log (\<lambda>_. ?R) (\<lambda>_. False)) (\<lambda>_. False)) (\<lambda>_. False) t1"
    proof (rule hold_lg_mod [OF h1], rule hold_lg_mod, assumption)
      fix t2 t3 assume h3: "hold d me {} {} (view d ?u) (disk u) (dhist u)
        ((lg u)\<lparr>lg_start := ?ls, lg_size := sint (sb_nlog sblk), lg_dev := d\<rparr>) (\<lambda>i. blockno (B ! i)) t3"
      show "wp False recover_from_log (\<lambda>_. ?R) (\<lambda>_. False) t3"
        by (rule recover_wp [OF h3 _ _ _ ok]) (use l in \<open>simp_all add: hold_def\<close>)
    qed
  qed
  then have "\<exists>x r. initlog d sblk ?u = Ok x r \<and> ?R r" by (rule wp_returns)
  then show ?thesis using B(1) by (auto simp: boot_log_def)
qed

subsection \<open>Crashes\<close>

definition same_files :: "u32 \<Rightarrow> (nat \<Rightarrow> u8 list) \<Rightarrow> (nat \<Rightarrow> u8 list) \<Rightarrow> bool" where
  "same_files ls D E \<longleftrightarrow> (\<forall>b :: u32. \<not> in_log ls b \<longrightarrow> D (unat b) = E (unat b))"

lemma same_files_refl [simp]: "same_files ls D D"
  by (simp add: same_files_def)

lemma same_files_trans: "same_files ls D E \<Longrightarrow> same_files ls E F \<Longrightarrow> same_files ls D F"
  by (simp add: same_files_def)

lemma copied_disk: "D b = E b \<Longrightarrow> copied a w m D b = copied a w m E b"
  by (induction m) auto

lemma same_files_copied: "same_files ls D E \<Longrightarrow> same_files ls (copied a w m D) (copied a w m E)"
  unfolding same_files_def using copied_disk by blast

lemma same_files_log:
  assumes "\<And>k. k < m \<Longrightarrow> in_log ls (a k)"
  shows "same_files ls (copied a w m D) D"
  unfolding same_files_def
proof (intro allI impI)
  fix b :: u32 assume "\<not> in_log ls b"
  then have "unat (a k) \<noteq> unat b" if "k < m" for k using assms [OF that] by (auto simp: word_unat_eq_iff [symmetric])
  then show "copied a w m D (unat b) = D (unat b)" by (rule copied_other)
qed

lemma same_files_head [simp]: "same_files ls (set_head ls bl D) D"
  by (auto simp: same_files_def set_head_def in_log_def word_unat_eq_iff)

lemma copied_again:
  assumes "m \<le> n" and "inj_on a {..<n}"
  shows "copied a w n (copied a w m D) = copied a w n D"
proof
  fix b
  show "copied a w n (copied a w m D) b = copied a w n D b"
  proof (cases "\<exists>k < n. unat (a k) = b")
    case True
    then show ?thesis using copied_at [OF _ assms(2)] by metis
  next
    case False
    then have "copied a w j E b = E b" if "j \<le> n" for j E using that by (intro copied_other) auto
    then show ?thesis using assms(1) by simp
  qed
qed

lemma recovered_nil:
  assumes "head_of (X (unat ls)) = []"
  shows "same_files ls (recovered ls X) X"
  using assms by (simp add: recovered_def)

lemma recovered_bl:
  assumes "head_of (X (unat ls)) = bl" and "\<And>k. k < length bl \<Longrightarrow> X (unat (log_slot_at ls k)) = w k"
  shows "same_files ls (recovered ls X) (copied ((!) bl) w (length bl) X)"
proof -
  have "copied ((!) bl) (\<lambda>k. X (unat (log_slot_at ls k))) (length bl) X = copied ((!) bl) w (length bl) X"
    by (rule copied_cong) (use assms(2) in simp)
  then show ?thesis using assms(1) by (simp add: recovered_def Let_def)
qed

lemma wrote_in: "X \<in> set (wrote a w m D) \<Longrightarrow> \<exists>k \<le> m. X = copied a w k D"
proof -
  assume "X \<in> set (wrote a w m D)"
  then obtain k where "k < m" "X = copied a w (Suc k) D" by (auto simp: wrote_def)
  then show ?thesis by (intro exI [of _ "Suc k"]) simp
qed

lemma head_ok_put: "loggable ls bl \<Longrightarrow> length x = BSIZE \<Longrightarrow> head_ok ls (put_head bl x)"
  using head_put [of bl x] sint_small [of "length bl"] by (simp add: head_ok_def loggable_def)

text \<open>The disks a commit goes through recover to the files before it, or to the files after it.\<close>

lemma commit_disks_recover:
  assumes ok: "loggable ls bl" and len: "\<And>k. length (D k) = BSIZE" and h0: "head_ok ls (D (unat ls))" "head_of (D (unat ls)) = []"
    and X: "X \<in> set (D # commit_disks ls bl w D)"
  shows "head_ok ls (X (unat ls)) \<and> (same_files ls (recovered ls X) D \<or> same_files ls (recovered ls X) (copied ((!) bl) w (length bl) D))"
proof -
  note K = loggableD [OF ok]
  define n where "n = length bl"
  define D1 where "D1 = copied (log_slot_at ls) w n D"
  define D2 where "D2 = set_head ls bl D1"
  define F where "F m = copied ((!) bl) w m D2" for m
  have slots: "k < n \<Longrightarrow> unat (log_slot_at ls k) \<noteq> unat ls" and inl: "k < n \<Longrightarrow> in_log ls (log_slot_at ls k)" for k
    using slot_unat [OF K(1), of k] K(3) by (auto simp: n_def)
  have hd1: "copied (log_slot_at ls) w m D (unat ls) = D (unat ls)" if "m \<le> n" for m
    using that slots by (intro copied_other) auto
  have sf1: "same_files ls (copied (log_slot_at ls) w m D) D" if "m \<le> n" for m
    using that inl by (intro same_files_log) auto
  have hd2: "D2 (unat ls) = put_head bl (D (unat ls))" using hd1 by (simp add: D2_def set_head_def D1_def)
  have sf2: "same_files ls D2 D" unfolding D2_def D1_def by (rule same_files_trans [OF same_files_head sf1]) simp
  have hdF: "F m (unat ls) = put_head bl (D (unat ls))" if "m \<le> n" for m
    unfolding F_def hd2 [symmetric] using that K(6) by (intro copied_other) (auto simp: n_def word_unat_eq_iff [symmetric] in_set_conv_nth)
  have slF: "F m (unat (log_slot_at ls k)) = w k" if "m \<le> n" "k < n" for m k
  proof -
    have "log_slot_at ls k \<notin> set bl" using slot_notin [OF ok] that K(3) by (simp add: n_def)
    then have "F m (unat (log_slot_at ls k)) = D2 (unat (log_slot_at ls k))"
      unfolding F_def using that by (intro copied_other) (auto simp: n_def word_unat_eq_iff [symmetric] in_set_conv_nth)
    also have "\<dots> = w k"
      using slots [OF that(2)] copied_at [OF that(2) slot_inj [OF K(1)]] K(3) by (simp add: D2_def set_head_def D1_def n_def)
    finally show ?thesis .
  qed
  have sfF: "same_files ls (recovered ls (F m)) (copied ((!) bl) w n D)" if "m \<le> n" for m
  proof -
    have "head_of (F m (unat ls)) = bl" unfolding hdF [OF that] using head_put(2) [of bl] K(3) len by simp
    then have "same_files ls (recovered ls (F m)) (copied ((!) bl) w n (F m))"
      unfolding n_def by (rule recovered_bl) (use slF that in \<open>simp add: n_def\<close>)
    moreover have "copied ((!) bl) w n (F m) = copied ((!) bl) w n D2"
      unfolding F_def by (rule copied_again [OF that]) (use K(5) in \<open>simp add: n_def\<close>)
    moreover have "same_files ls (copied ((!) bl) w n D2) (copied ((!) bl) w n D)" by (rule same_files_copied [OF sf2])
    ultimately show ?thesis using same_files_trans by metis
  qed
  have ok2: "head_ok ls (put_head bl (D (unat ls)))" using ok len by (intro head_ok_put)
  have len2: "length (put_head bl (D (unat ls))) = BSIZE" using head_put(1) [of bl "D (unat ls)"] K(3) len by simp
  consider m where "m \<le> n" "X = copied (log_slot_at ls) w m D" | m where "m \<le> n" "X = F m" | "X = set_head ls [] (F n)"
    using X wrote_in [of X "log_slot_at ls" w n D] wrote_in [of X "(!) bl" w n D2]
    by (auto simp: commit_disks_def Let_def n_def [symmetric] D1_def [symmetric] D2_def [symmetric] F_def intro: copied.simps(1) [symmetric])
  then show ?thesis
  proof cases
    case 1
    then have e: "X (unat ls) = D (unat ls)" using hd1 by simp
    then have "same_files ls (recovered ls X) X" using h0 by (intro recovered_nil) simp
    then show ?thesis using e h0(1) sf1 [OF 1(1)] 1(2) same_files_trans by metis
  next
    case 2
    then show ?thesis using sfF [OF 2(1)] hdF [OF 2(1)] ok2 unfolding n_def by metis
  next
    case 3
    have e: "X (unat ls) = put_head [] (put_head bl (D (unat ls)))" using 3 hdF [of n] by (simp add: set_head_def)
    have "head_of (X (unat ls)) = []" unfolding e using head_put(2) [of "[]"] len2 by simp
    then have "same_files ls (recovered ls X) X" by (rule recovered_nil)
    moreover have "same_files ls X (F n)" using 3 by simp
    moreover have "same_files ls (F n) (copied ((!) bl) w n D)" unfolding F_def by (rule same_files_copied [OF sf2])
    moreover have "head_ok ls (X (unat ls))" unfolding e using len2 K(1) by (intro head_ok_put) (simp_all add: loggable_def)
    ultimately show ?thesis unfolding n_def [symmetric] using same_files_trans by metis
  qed
qed

end
