(* ===== verification/Crash.thy ===== *)
theory Crash
  imports Wal
begin

section \<open>The log keeps its promise\<close>

text \<open>
  The theorems on the write-ahead log as a whole: a commit puts the transaction's blocks in their places;
  a machine that stops after any write of a commit and starts again has the files of before the commit or
  of after it; the same holds for a machine that stops while it recovers.
\<close>

lemma recovery_disks_recover:
  assumes len: "\<And>k. length (D k) = BSIZE" and ok: "head_ok ls (D (unat ls))" and X: "X \<in> set (D # recovery_disks ls D)"
  shows "head_ok ls (X (unat ls)) \<and> same_files ls (recovered ls X) (recovered ls D)"
proof -
  define bl where "bl = head_of (D (unat ls))"
  define w where "w = (\<lambda>k. D (unat (log_slot_at ls k)))"
  define F where "F m = copied ((!) bl) w m D" for m
  have lb: "loggable ls bl" using ok by (simp add: head_ok_def bl_def)
  note K = loggableD [OF lb]
  have hdF: "F m (unat ls) = D (unat ls)" if "m \<le> length bl" for m
    unfolding F_def using that K(6) by (intro copied_other) (auto simp: word_unat_eq_iff [symmetric] in_set_conv_nth)
  have slF: "F m (unat (log_slot_at ls k)) = w k" if "m \<le> length bl" "k < length bl" for m k
  proof -
    have "log_slot_at ls k \<notin> set bl" using slot_notin [OF lb] that K(3) by simp
    then show ?thesis
      unfolding F_def w_def using that by (intro copied_other) (auto simp: word_unat_eq_iff [symmetric] in_set_conv_nth)
  qed
  have e: "same_files ls (recovered ls (F m)) (F (length bl))" if "m \<le> length bl" for m
  proof -
    have "same_files ls (recovered ls (F m)) (copied ((!) bl) w (length bl) (F m))"
      by (rule recovered_bl) (use hdF slF that in \<open>simp_all add: bl_def\<close>)
    then show ?thesis unfolding F_def using copied_again [OF that K(5)] by metis
  qed
  have D: "recovered ls D = set_head ls [] (F (length bl))" by (simp add: recovered_def Let_def bl_def F_def w_def)
  have fin: "same_files ls (F (length bl)) (recovered ls D)" unfolding D by (simp add: same_files_def set_head_def in_log_def word_unat_eq_iff)
  consider m where "m \<le> length bl" "X = F m" | "X = recovered ls D"
    using X wrote_in [of X "(!) bl" w "length bl" D]
    by (auto simp: recovery_disks_def Let_def bl_def [symmetric] w_def [symmetric] F_def intro: copied.simps(1) [symmetric])
  then show ?thesis
  proof cases
    case 1
    then show ?thesis using hdF [OF 1(1)] ok same_files_trans [OF e fin] by metis
  next
    case 2
    have x: "X (unat ls) = put_head [] (D (unat ls))" using 2 hdF [of "length bl"] unfolding D by (simp add: set_head_def)
    have "head_of (X (unat ls)) = []" unfolding x using head_put(2) [of "[]"] len by simp
    moreover have "head_ok ls (X (unat ls))" unfolding x using len K(1) by (intro head_ok_put) (simp_all add: loggable_def)
    ultimately show ?thesis using recovered_nil 2 by auto
  qed
qed

lemma commit_run:
  assumes c: "cinv d me {} P s" and g: "log_at d ls bl (lg s)" and ok: "loggable ls bl" and ne: "bl \<noteq> []"
    and p: "(\<lambda>i. blockno (bufs s ! i)) ` P = set bl"
  shows "\<exists>t. commit s = Ok () t \<and> cinv d me {} {} t \<and> log_at d ls [] (lg t) \<and>
    dhist t = dhist s @ commit_disks ls bl (\<lambda>k. view d s (bl ! k)) (disk s) \<and>
    disk t = last (commit_disks ls bl (\<lambda>k. view d s (bl ! k)) (disk s))"
proof -
  have "wp False commit (\<lambda>_ t. cinv d me {} {} t \<and> log_at d ls [] (lg t) \<and>
    dhist t = dhist s @ commit_disks ls bl (\<lambda>k. view d s (bl ! k)) (disk s) \<and>
    disk t = last (commit_disks ls bl (\<lambda>k. view d s (bl ! k)) (disk s))) (\<lambda>_. False) s"
    by (rule commit_wp [OF hold_start [OF c] g ok p ne]) (use log_at_empty [OF g] in \<open>auto simp: hold_def\<close>)
  then show ?thesis by (auto dest: wp_returns)
qed

lemma last_commit: "last (commit_disks ls bl w D) =
    set_head ls [] (copied ((!) bl) w (length bl) (set_head ls bl (copied (log_slot_at ls) w (length bl) D)))"
  by (simp add: commit_disks_def Let_def)

lemma commit_final:
  assumes ok: "loggable ls bl"
  shows "same_files ls (last (commit_disks ls bl w D)) (copied ((!) bl) w (length bl) D)"
proof -
  note K = loggableD [OF ok]
  have "same_files ls (copied (log_slot_at ls) w (length bl) D) D"
    using slot_unat(2) [OF K(1)] K(3) by (intro same_files_log) auto
  then have "same_files ls (set_head ls bl (copied (log_slot_at ls) w (length bl) D)) D"
    by (rule same_files_trans [OF same_files_head])
  then show ?thesis unfolding last_commit by (rule same_files_trans [OF same_files_head same_files_copied])
qed

lemma copied_length: "(\<And>k. length (D k) = n) \<Longrightarrow> (\<And>k. length (w k) = n) \<Longrightarrow> length (copied a w m D b) = n"
  by (induction m) auto

lemma set_head_length: "(\<And>k. length (D k) = BSIZE) \<Longrightarrow> length bl \<le> 30 \<Longrightarrow> length (set_head ls bl D b) = BSIZE"
  using head_put(1) [of bl] by (simp add: set_head_def)

lemma wrote_length: "X \<in> set (wrote a w m D) \<Longrightarrow> (\<And>k. length (D k) = n) \<Longrightarrow> (\<And>k. length (w k) = n) \<Longrightarrow> length (X b) = n"
  using wrote_in [of X a w m D] copied_length [of D n w a] by auto

lemma commit_disk_length:
  assumes ok: "loggable ls bl" and D: "\<And>k. length (D k) = BSIZE" and w: "\<And>k. length (w k) = BSIZE"
    and X: "X \<in> set (D # commit_disks ls bl w D)"
  shows "length (X b) = BSIZE"
proof -
  define D1 where "D1 = copied (log_slot_at ls) w (length bl) D"
  define D2 where "D2 = set_head ls bl D1"
  define D3 where "D3 = copied ((!) bl) w (length bl) D2"
  have n: "length bl \<le> 30" using loggableD(3) [OF ok] by simp
  have 1: "length (D1 k) = BSIZE" for k unfolding D1_def using D w by (rule copied_length)
  have 2: "length (D2 k) = BSIZE" for k unfolding D2_def using 1 n by (rule set_head_length)
  have 3: "length (D3 k) = BSIZE" for k unfolding D3_def using 2 w by (rule copied_length)
  have 4: "length (set_head ls [] D3 k) = BSIZE" for k using 3 by (rule set_head_length) simp
  have "X = D \<or> X \<in> set (wrote (log_slot_at ls) w (length bl) D) \<or> X = D2 \<or> X \<in> set (wrote ((!) bl) w (length bl) D2) \<or> X = set_head ls [] D3"
    using X by (auto simp: commit_disks_def Let_def D1_def D2_def D3_def)
  moreover have "length (X b) = BSIZE" if "X \<in> set (wrote a w m E)" "\<And>k. length (E k) = BSIZE" for a m E
    using that w by (rule wrote_length)
  ultimately show ?thesis using D 2 4 by blast
qed

lemma commit_view:
  assumes c: "cinv d me {} P s" and ok: "loggable ls bl" and p: "(\<lambda>i. blockno (bufs s ! i)) ` P = set bl" and b: "\<not> in_log ls b"
  shows "last (commit_disks ls bl (\<lambda>k. view d s (bl ! k)) (disk s)) (unat b) = view d s b"
proof -
  define w where "w k = view d s (bl ! k)" for k
  note K = loggableD [OF ok]
  have e: "last (commit_disks ls bl w (disk s)) (unat b) = copied ((!) bl) w (length bl) (disk s) (unat b)"
    using commit_final [OF ok] b by (simp add: same_files_def)
  have "copied ((!) bl) w (length bl) (disk s) (unat b) = view d s b"
  proof (cases "b \<in> set bl")
    case True
    then obtain k where "k < length bl" "b = bl ! k" by (auto simp: in_set_conv_nth)
    then show ?thesis using copied_at [OF _ K(5)] by (simp add: w_def)
  next
    case False
    then have "view d s b = disk s (unat b)" using p by (intro view_disk [OF c]) auto
    then show ?thesis using False by (subst copied_other) (auto simp: word_unat_eq_iff [symmetric] in_set_conv_nth)
  qed
  then show ?thesis using e by (simp add: w_def [abs_def])
qed

text \<open>C10: A commit of the log terminates without a panic, leaves the log empty, and every block outside the
  log area then has on the disk the contents that the kernel saw before the commit.\<close>

theorem commit_durable:
  assumes "cinv d me {} P s" and "log_at d ls bl (lg s)" and "loggable ls bl" and "bl \<noteq> []"
    and "(\<lambda>i. blockno (bufs s ! i)) ` P = set bl"
  shows "\<exists>t. commit s = Ok () t \<and> cinv d me {} {} t \<and> lh_n (lg t) = 0 \<and> head_of (disk t (unat ls)) = [] \<and>
    (\<forall>b. \<not> in_log ls b \<longrightarrow> disk t (unat b) = view d s b)"
proof -
  define w where "w k = view d s (bl ! k)" for k
  obtain t where t: "commit s = Ok () t" "cinv d me {} {} t" "log_at d ls [] (lg t)" "disk t = last (commit_disks ls bl w (disk s))"
    using commit_run [OF assms] unfolding w_def by blast
  note K = loggableD [OF assms(3)]
  have "disk t (unat b) = view d s b" if "\<not> in_log ls b" for b
    using commit_view [OF assms(1,3,5) that] t(4) by (simp add: w_def [abs_def])
  moreover have "head_of (disk t (unat ls)) = []"
  proof -
    have l: "length (disk s (unat ls)) = BSIZE" for b using cinvD(7) [OF assms(1)] .
    have "disk t (unat ls) = put_head [] ((copied ((!) bl) w (length bl) (set_head ls bl (copied (log_slot_at ls) w (length bl) (disk s)))) (unat ls))"
      unfolding t(4) last_commit by (simp add: set_head_def)
    moreover have "(copied ((!) bl) w (length bl) (set_head ls bl (copied (log_slot_at ls) w (length bl) (disk s)))) (unat ls) =
        put_head bl (disk s (unat ls))"
    proof -
      have "copied (log_slot_at ls) w (length bl) (disk s) (unat ls) = disk s (unat ls)"
        using slot_unat(3) [OF K(1)] K(3) by (intro copied_other) (auto simp: word_unat_eq_iff [symmetric])
      then show ?thesis using K(6) by (subst copied_other) (auto simp: set_head_def word_unat_eq_iff [symmetric] in_set_conv_nth)
    qed
    ultimately show ?thesis using head_put(1) [of bl] head_put(2) [of "[]"] K(3) l by simp
  qed
  ultimately show ?thesis using t log_atD(3) [OF t(3)] by auto
qed

text \<open>C1: The log makes a transaction atomic: a machine that stops when any number of a commit's disk writes
  are done, and that then sets up its cache and its log, ends with the files of before the commit or with
  the files of after it.\<close>

theorem commit_crash_safe:
  assumes "cinv d me {} P s" and "log_at d ls bl (lg s)" and "loggable ls bl" and "bl \<noteq> []"
    and "(\<lambda>i. blockno (bufs s ! i)) ` P = set bl"
    and "head_ok ls (disk s (unat ls))" and "head_of (disk s (unat ls)) = []"
    and "commit s = Ok () t" and "X \<in> set (disk s # drop (length (dhist s)) (dhist t))"
    and "calm me' u" and "bufs u = replicate (NBUF + 1) bss_buf" and "disk u = X" and "length (lh_block (lg u)) = nat LOGSIZE"
    and "d \<noteq> 0" and "sb_logstart sblk = ls"
  shows "\<exists>r. boot_log d sblk u = Ok () r \<and> (same_files ls (disk r) (disk s) \<or> same_files ls (disk r) (disk t))"
proof -
  define w where "w k = view d s (bl ! k)" for k
  have t: "dhist t = dhist s @ commit_disks ls bl w (disk s)" "disk t = last (commit_disks ls bl w (disk s))" "cinv d me {} {} t"
    using commit_run [OF assms(1-5)] assms(8) unfolding w_def by auto
  have len: "length (disk s k) = BSIZE" for k using cinvD(7) [OF assms(1)] .
  have X: "X \<in> set (disk s # commit_disks ls bl w (disk s))" using assms(9) t(1) by simp
  note R = commit_disks_recover [OF assms(3) len assms(6,7) X]
  have lenX: "length (X k) = BSIZE" for k
    using commit_disk_length [OF assms(3) len _ X] view_length [OF hold_start [OF assms(1)]] by (simp add: w_def)
  obtain r where r: "boot_log d sblk u = Ok () r" "disk r = recovered ls (disk u)"
    using boot_log_run [of me' u d sblk] assms(10-15) lenX R by auto
  have "same_files ls (disk t) (copied ((!) bl) w (length bl) (disk s))" unfolding t(2) by (rule commit_final [OF assms(3)])
  then show ?thesis using r R assms(12) unfolding same_files_def by metis
qed

text \<open>C2: Recovery may itself be interrupted: a machine that stops after any write of its recovery and starts
  again ends with the files that the first recovery would have left.\<close>

theorem recovery_crash_safe:
  assumes "calm me u" and "bufs u = replicate (NBUF + 1) bss_buf" and "length (lh_block (lg u)) = nat LOGSIZE"
    and "d \<noteq> 0" and "\<And>k. length (disk u k) = BSIZE" and "sb_logstart sblk = ls" and "head_ok ls (disk u (unat ls))"
    and "boot_log d sblk u = Ok () r" and "X \<in> set (disk u # drop (length (dhist u)) (dhist r))"
    and "calm me' v" and "bufs v = replicate (NBUF + 1) bss_buf" and "disk v = X" and "length (lh_block (lg v)) = nat LOGSIZE"
  shows "\<exists>q. boot_log d sblk v = Ok () q \<and> same_files ls (disk q) (disk r)"
proof -
  have r: "disk r = recovered ls (disk u)" "dhist r = dhist u @ recovery_disks ls (disk u)"
    using boot_log_run [OF assms(1,2,4,5,3), of sblk] assms(6-8) by auto
  have X: "X \<in> set (disk u # recovery_disks ls (disk u))" using assms(9) r(2) by simp
  note R = recovery_disks_recover [OF assms(5,7) X]
  have lenX: "length (X k) = BSIZE" for k
  proof -
    let ?bl = "head_of (disk u (unat ls))" and ?w = "\<lambda>k. disk u (unat (log_slot_at ls k))"
    have 1: "length (copied ((!) ?bl) ?w (length ?bl) (disk u) k) = BSIZE" for k
      by (rule copied_length) (use assms(5) in simp_all)
    have "length (recovered ls (disk u) k) = BSIZE" for k
      unfolding recovered_def Let_def using 1 by (rule set_head_length) simp
    then show ?thesis
      using X assms(5) wrote_length [of X "(!) ?bl" ?w "length ?bl" "disk u" BSIZE k] by (auto simp: recovery_disks_def Let_def)
  qed
  obtain q where "boot_log d sblk v = Ok () q" "disk q = recovered ls (disk v)"
    using boot_log_run [of me' v d sblk] assms(4,6,10-13) lenX R by auto
  then show ?thesis using R r(1) assms(12) by auto
qed

subsection \<open>A transaction of one block\<close>

text \<open>Buffer 0 holds the new contents of block 50; the log starts at block 2 and is empty on the disk.\<close>

definition demo_bufs :: "u8 list \<Rightarrow> buf list" where
  "demo_bufs x = map (\<lambda>i. bss_buf\<lparr>bvalid := (i = 0), bdev := (if i = 0 then 1 else 0), blockno := (if i = 0 then 50 else 0),
     refcnt := (if i = 0 then 1 else 0), bprev := (if i = 0 then 30 else i - 1), bnext := (if i = 30 then 0 else i + 1),
     bdata := (if i = 0 then x else replicate BSIZE 0)\<rparr>) [0..<31]"

definition demo_boot :: "(nat \<Rightarrow> u8 list) \<Rightarrow> kernel" where
  "demo_boot D = (bss_kernel (\<lambda>_. 0) D)\<lparr>kcpu := \<lparr>cproc = Some 3, cnoff = 0, cintena = True, csie = True, held = []\<rparr>\<rparr>"

definition demo_state :: "u8 list \<Rightarrow> kernel" where
  "demo_state x = (demo_boot (\<lambda>_. replicate BSIZE 0))\<lparr>bufs := demo_bufs x,
     lg := \<lparr>lg_start = 2, lg_size = 30, lg_outstanding = 0, lg_committing = True, lg_dev = 1, lh_n = 1, lh_block = 50 # replicate 29 0\<rparr>\<rparr>"

definition demo_log :: kernel where
  "demo_log = demo_state (replicate BSIZE 7)"

definition demo_sb :: superblock where
  "demo_sb = \<lparr>sb_magic = 0x10203040, sb_size = 2000, sb_nblocks = 1954, sb_ninodes = 200, sb_nlog = 30, sb_logstart = 2,
     sb_inodestart = 32, sb_bmapstart = 45\<rparr>"

lemma path_upt:
  "(\<And>i. a \<le> i \<Longrightarrow> i < n \<Longrightarrow> nx i = Suc i \<and> pv (Suc i) = i) \<Longrightarrow> a < n \<Longrightarrow> chain_to nx pv a [Suc a..<n] n"
proof (induction "n - a" arbitrary: a)
  case (Suc k)
  show ?case
  proof (cases "Suc a < n")
    case True
    then have "chain_to nx pv (Suc a) [Suc (Suc a)..<n] n" using Suc by auto
    then show ?thesis using True Suc.prems(1) [of a] by (simp add: upt_conv_Cons)
  next
    case False
    then have "n = Suc a" using Suc.prems(2) by simp
    then show ?thesis using Suc.prems(1) [of a] by simp
  qed
qed simp

lemma demo_calm: "calm 3 (demo_boot D)"
  by (simp add: calm_def running_def procs_ok_def cpu_ok_def demo_boot_def settle_def)

lemma demo_lru: "lru (demo_bufs x) [0..<30]"
proof -
  have "nxt (demo_bufs x) i = Suc i \<and> prv (demo_bufs x) (Suc i) = i" if "i < 30" for i
    using that by (simp add: nxt_def prv_def demo_bufs_def del: upt_Suc)
  then have "chain_to (nxt (demo_bufs x)) (prv (demo_bufs x)) 0 [Suc 0..<30] 30" by (intro path_upt) auto
  moreover have "nxt (demo_bufs x) 30 = 0" "prv (demo_bufs x) 0 = 30" by (simp_all add: nxt_def prv_def demo_bufs_def del: upt_Suc)
  moreover have "[0..<30] = 0 # [Suc 0..<30]" by (simp add: upt_conv_Cons del: upt_Suc)
  ultimately have "chain_to (nxt (demo_bufs x)) (prv (demo_bufs x)) 30 [0..<30] 30" by (simp only: chain_to.simps)
  then show ?thesis by (simp add: lru_def demo_bufs_def del: upt_Suc) auto
qed

lemma demo_state_cinv:
  assumes "length x = BSIZE"
  shows "cinv 1 3 {} {0} (demo_state x)"
  unfolding cinv_def
proof (intro conjI allI impI)
  show "calm 3 (demo_state x)" unfolding demo_state_def by (rule calm_same [OF demo_calm]) simp_all
  show "\<exists>xs. lru (bufs (demo_state x)) xs" using demo_lru by (auto simp: demo_state_def)
  show "buf_ok 1 3 {} {0} (demo_state x) i" if "i < NBUF" for i
    using that assms by (simp add: buf_ok_def Let_def demo_state_def demo_bufs_def bss_buf_def del: upt_Suc)
  show "once 1 (bufs (demo_state x))"
    by (auto simp: once_def demo_state_def demo_bufs_def bss_buf_def simp del: upt_Suc split: if_splits)
qed (simp_all add: demo_state_def demo_boot_def)

lemma demo_cinv: "cinv 1 3 {} {0} demo_log"
  unfolding demo_log_def by (rule demo_state_cinv) simp

lemma demo_log_ok: "log_at 1 2 [50] (lg demo_log)" "loggable 2 [50]" "(\<lambda>i. blockno (bufs demo_log ! i)) ` {0} = set [50]"
  "head_ok 2 (disk demo_log (unat (2 :: u32)))" "head_of (disk demo_log (unat (2 :: u32))) = []"
proof -
  have g: "get32 (replicate BSIZE 0) 0 = 0" by (simp add: get32_def word_rcat_def)
  show "log_at 1 2 [50] (lg demo_log)" by (simp add: log_at_def demo_log_def demo_state_def)
  show "loggable 2 [50]" by (simp add: loggable_def in_log_def)
  show "(\<lambda>i. blockno (bufs demo_log ! i)) ` {0} = set [50]" by (simp add: demo_log_def demo_state_def demo_bufs_def del: upt_Suc)
  show "head_of (disk demo_log (unat (2 :: u32))) = []" by (simp add: demo_log_def demo_state_def demo_boot_def head_of_def g)
  then show "head_ok 2 (disk demo_log (unat (2 :: u32)))"
    by (simp add: demo_log_def demo_state_def demo_boot_def head_ok_def g loggable_def)
qed

theorem commit_durable_witness:
  "\<exists>t. commit demo_log = Ok () t \<and> disk t 50 = view 1 demo_log 50"
proof -
  have "\<not> in_log 2 50" by (simp add: in_log_def)
  then show ?thesis using commit_durable [OF demo_cinv demo_log_ok(1,2) _ demo_log_ok(3)] by fastforce
qed

theorem commit_crash_safe_witness:
  "\<exists>t. commit demo_log = Ok () t \<and> (\<exists>r. boot_log 1 demo_sb (demo_boot (disk demo_log)) = Ok () r \<and>
     (same_files 2 (disk r) (disk demo_log) \<or> same_files 2 (disk r) (disk t)))"
proof -
  obtain t where t: "commit demo_log = Ok () t"
    using commit_run [OF demo_cinv demo_log_ok(1,2) _ demo_log_ok(3)] by auto
  then show ?thesis
    using commit_crash_safe [OF demo_cinv demo_log_ok(1,2) _ demo_log_ok(3-5) t, of "disk demo_log" 3 "demo_boot (disk demo_log)" demo_sb]
      demo_calm by (simp add: demo_boot_def demo_sb_def bss_kernel_def)
qed

theorem recovery_crash_safe_witness:
  "\<exists>r q. boot_log 1 demo_sb (demo_boot (disk demo_log)) = Ok () r \<and> boot_log 1 demo_sb (demo_boot (disk demo_log)) = Ok () q \<and>
     same_files 2 (disk q) (disk r)"
proof -
  let ?u = "demo_boot (disk demo_log)"
  have u: "bufs ?u = replicate (NBUF + 1) bss_buf" "length (lh_block (lg ?u)) = nat LOGSIZE" "disk ?u = disk demo_log"
    by (simp_all add: demo_boot_def bss_kernel_def)
  have len: "length (disk ?u k) = BSIZE" for k using cinvD(7) [OF demo_cinv] u(3) by simp
  have sb: "sb_logstart demo_sb = 2" by (simp add: demo_sb_def)
  have ok: "head_ok 2 (disk ?u (unat (2 :: u32)))" using demo_log_ok(4) u(3) by simp
  obtain r where r: "boot_log 1 demo_sb ?u = Ok () r" using boot_log_run [OF demo_calm u(1) _ len u(2), of 1 demo_sb] ok sb by auto
  then show ?thesis
    using recovery_crash_safe [OF demo_calm u(1,2) _ len sb ok r _ demo_calm u(1) _ u(2), of "disk ?u"] by auto
qed

end
