(* ===== verification/Transact.thy ===== *)
theory Transact
  imports Crash
begin

section \<open>Transactions\<close>

text \<open>
  The calls that the file system makes around its updates: \<open>begin_op\<close> admits or delays an operation,
  \<open>log_write\<close> adds a block to the transaction once and pins its buffer, the last \<open>end_op\<close> commits.
\<close>

definition transact :: "u32 \<Rightarrow> nat \<Rightarrow> u32 \<Rightarrow> nat set \<Rightarrow> u32 list \<Rightarrow> kernel \<Rightarrow> bool" where
  "transact d me ls L bl s \<longleftrightarrow> loggable ls bl \<and> log_at d ls bl (lg s) \<and>
     (\<exists>P. cinv d me L P s \<and> (\<lambda>i. blockno (bufs s ! i)) ` P = set bl)"

definition add_block :: "u32 list \<Rightarrow> u32 \<Rightarrow> u32 list" where
  "add_block bl b = (if b \<in> set bl then bl else bl @ [b])"

lemma log_slot_old:
  assumes "log_at d ls bl l" and "b \<in> set bl"
  shows "log_slot l b < length bl" "lh_block l ! log_slot l b = b"
proof -
  note G = log_atD [OF assms(1)]
  have "first_idx (\<lambda>x. x = b) bl \<noteq> None" using assms(2) by (simp add: first_idx_None)
  then obtain k where k: "first_idx (\<lambda>x. x = b) bl = Some k" by auto
  then have "k < length bl" "bl ! k = b" using first_idx_bound first_idx_sat [OF k] by auto
  then show "log_slot l b < length bl" "lh_block l ! log_slot l b = b" using G k by (simp_all add: log_slot_def)
qed

lemma log_slot_new: "log_at d ls bl l \<Longrightarrow> b \<notin> set bl \<Longrightarrow> log_slot l b = length bl"
  using log_atD [of d ls bl l] first_idx_None [of "\<lambda>x. x = b" bl] by (auto simp: log_slot_def)

lemma log_write_old:
  assumes c: "calm me s" and i: "i < length (bufs s)" and g: "log_at d ls bl (lg s)" and b: "blockno (bufs s ! i) \<in> set bl"
    and n: "length bl < nat LOGSIZE" "int (length bl) < lg_size (lg s) - 1" "1 \<le> lg_outstanding (lg s)"
  shows "log_write i s = Ok () s"
proof -
  note S = log_slot_old [OF g b] and G = log_atD [OF g]
  have u: "(lh_block (lg s))[log_slot (lg s) (blockno (bufs s ! i)) := blockno (bufs s ! i)] = lh_block (lg s)"
    using S by (metis list_update_id)
  have l: "log_slot (lg s) (blockno (bufs s ! i)) < length (lh_block (lg s))" using S G(4,6) by simp
  have e: "lg s\<lparr>lh_block := lh_block (lg s)\<rparr> = lg s" by simp
  show ?thesis
    using calmD(7) [OF c] calm_locked [OF c, of LLog] i n G(3) S(1) l u by (simp add: log_write_def lh_set_def lg_mod_def Let_def)
qed

lemma log_write_new:
  assumes c: "calm me s" and i: "i < length (bufs s)" and g: "log_at d ls bl (lg s)" and b: "blockno (bufs s ! i) \<notin> set bl"
    and n: "length bl < nat LOGSIZE" "int (length bl) < lg_size (lg s) - 1" "1 \<le> lg_outstanding (lg s)"
  shows "log_write i s = seq (bpin i) (lg_mod (\<lambda>l. l\<lparr>lh_n := int (length bl) + 1,
    lh_block := (lh_block l)[length bl := blockno (bufs s ! i)]\<rparr>)) s"
proof -
  note S = log_slot_new [OF g b] and G = log_atD [OF g]
  have l: "length bl < length (lh_block (lg s))" using n(1) G(4) by simp
  show ?thesis
    using calmD(7) [OF c] calm_locked [OF c, of LLog] calm_locked [OF c, of LBcache] i n G(3) S l
    by (simp add: log_write_def lh_set_def lg_mod_def Let_def bpin_def)
qed

lemma log_write_run:
  assumes "transact d me ls L bl s" and "i \<in> L" and "length bl + 1 < nat LOGSIZE" and "int (length bl) < lg_size (lg s) - 1"
    and "1 \<le> lg_outstanding (lg s)" and "\<not> in_log ls (blockno (bufs s ! i))"
  shows "\<exists>t. log_write i s = Ok () t \<and> transact d me ls L (add_block bl (blockno (bufs s ! i))) t \<and> disk t = disk s \<and>
    dhist t = dhist s \<and> (\<forall>b. view d t b = view d s b) \<and> lg_outstanding (lg t) = lg_outstanding (lg s) \<and>
    lg_size (lg t) = lg_size (lg s) \<and> (\<forall>j \<in> L. blockno (bufs t ! j) = blockno (bufs s ! j))"
proof -
  obtain P where P: "cinv d me L P s" "(\<lambda>i. blockno (bufs s ! i)) ` P = set bl" using assms(1) by (auto simp: transact_def)
  have g: "log_at d ls bl (lg s)" and ok: "loggable ls bl" using assms(1) by (auto simp: transact_def)
  note C = cinvD [OF P(1)] and G = log_atD [OF g]
  have i: "i < length (bufs s)" using cinv_held(1) [OF P(1) assms(2)] C(2) by simp
  let ?b = "blockno (bufs s ! i)" and ?c = "\<lambda>i. blockno (bufs s ! i)"
  show ?thesis
  proof (cases "?b \<in> set bl")
    case True
    then show ?thesis using log_write_old [OF C(1) i g] assms by (auto simp: add_block_def)
  next
    case False
    note h = hold_start [OF P(1)]
    have ip: "i \<notin> P" using False P(2) by auto
    let ?f = "\<lambda>l. l\<lparr>lh_n := int (length bl) + 1, lh_block := (lh_block l)[length bl := ?b]\<rparr>"
    let ?Q = "\<lambda>t. hold d me L (insert i P) (view d s) (disk s) (dhist s) (?f (lg s)) ?c t"
    have "wp False (seq (bpin i) (lg_mod ?f)) (\<lambda>_. ?Q) (\<lambda>_. False) s"
      unfolding wp_seq
    proof (rule hold_pin(1) [OF h assms(2) ip])
      fix t assume h1: "hold d me L (insert i P) (view d s) (disk s) (dhist s) (lg s) ?c t"
      show "wp False (lg_mod ?f) (\<lambda>_. ?Q) (\<lambda>_. False) t" by (rule hold_lg_mod [OF h1])
    qed
    then have "\<exists>x t. seq (bpin i) (lg_mod ?f) s = Ok x t \<and> ?Q t" by (rule wp_returns)
    moreover have "log_write i s = seq (bpin i) (lg_mod ?f) s"
      by (rule log_write_new [OF C(1) i g False]) (use assms(3-5) in simp_all)
    ultimately obtain t where t: "log_write i s = Ok () t" "?Q t" by (simp only:) auto
    have "log_at d ls (bl @ [?b]) (?f (lg s))"
      using g assms(3) by (auto simp: log_at_def take_Suc_conv_app_nth)
    moreover have "loggable ls (bl @ [?b])" using ok False assms(3,6) by (auto simp: loggable_def)
    moreover have "(\<lambda>i. blockno (bufs t ! i)) ` insert i P = set (bl @ [?b])"
      using P(2) holdD(7) [OF t(2)] by auto
    ultimately have "transact d me ls L (bl @ [?b]) t"
      unfolding transact_def holdD(5) [OF t(2)] using holdD(1) [OF t(2)] by blast
    then show ?thesis using t False holdD(2-6) [OF t(2)] by (simp add: add_block_def)
  qed
qed

text \<open>C18: \<open>log_write\<close> adds the buffer's block to the transaction, once however often it is written, and changes
  nothing else that the kernel sees: the contents of every block and the disk stay as they were.\<close>

theorem log_write_spec:
  assumes "transact d me ls L bl s" and "i \<in> L" and "length bl + 1 < nat LOGSIZE" and "int (length bl) < lg_size (lg s) - 1"
    and "1 \<le> lg_outstanding (lg s)" and "\<not> in_log ls (blockno (bufs s ! i))"
  shows "\<exists>t. log_write i s = Ok () t \<and> transact d me ls L (add_block bl (blockno (bufs s ! i))) t \<and> disk t = disk s \<and>
    dhist t = dhist s \<and> (\<forall>b. view d t b = view d s b)"
  using log_write_run [OF assms] by blast

text \<open>C19: \<open>begin_op\<close> admits an operation when the log is not committing and the blocks reserved by the running
  operations, this one included, fit into \<open>LOGSIZE\<close>; otherwise the process sleeps.\<close>

theorem begin_op_spec:
  assumes "calm me s"
  shows "if lg_committing (lg s) \<or> lh_n (lg s) + (lg_outstanding (lg s) + 1) * MAXOPBLOCKS > LOGSIZE
    then \<exists>t. begin_op s = Blocked t \<and> lg t = lg s \<and> pstate (procs t ! me) = SLEEPING \<and> pchan (procs t ! me) = Some CLog
    else begin_op s = Ok () (s\<lparr>lg := (lg s)\<lparr>lg_outstanding := lg_outstanding (lg s) + 1\<rparr>\<rparr>)"
proof -
  note C = calmD [OF assms] and L = calm_locked [OF assms, of LLog]
  have sl: "\<exists>t. sleep_wait CLog LLog (s\<lparr>kcpu := cpu_acq LLog (kcpu s)\<rparr>) = Blocked t \<and> lg t = lg s \<and>
      pstate (procs t ! me) = SLEEPING \<and> pchan (procs t ! me) = Some CLog"
  proof -
    let ?t = "s\<lparr>kcpu := cpu_acq LLog (kcpu s)\<rparr>"
    have "sleep CLog LLog ?t = Blocked (?t\<lparr>procs := (procs ?t)[me := (procs ?t ! me)\<lparr>pchan := Some CLog, pstate := SLEEPING\<rparr>],
       kcpu := cpu_acq (LProc me) (cpu_rel LLog (kcpu ?t))\<rparr>)"
      using C by (subst sleep_run [where i = me]) (auto simp: procs_ok_def)
    then show ?thesis using C by (simp add: sleep_wait_def)
  qed
  show ?thesis using C(7) L sl by (auto simp: begin_op_def lg_mod_def)
qed

lemma hold_woke:
  assumes h: "hold d me L P v D hs l c s" and w: "woke me (procs s) Q"
  shows "hold d me L P v D hs l c (s\<lparr>procs := Q\<rparr>)"
proof -
  note H = holdD [OF h]
  obtain xs where x: "lru (bufs s) xs" using H(1) by (auto simp: cinv_def)
  have "cinv d me L P (s\<lparr>procs := Q\<rparr>)"
    by (rule cinv_shuffle [OF H(1), where ys = xs]) (use x w in simp_all)
  moreover have "view d (s\<lparr>procs := Q\<rparr>) b = view d s b" for b by (rule view_core) simp_all
  ultimately show ?thesis using h unfolding hold_def by simp
qed

lemma end_op_head:
  assumes c: "calm me s" and l: "\<not> lg_committing (lg s)" "lg_outstanding (lg s) = 1"
  shows "end_op s = bnd commit (\<lambda>_. seq (acquire LLog) (seq (lg_mod (\<lambda>l. l\<lparr>lg_committing := False\<rparr>)) (seq (wakeup CLog) (release LLog))))
    (s\<lparr>lg := (lg s)\<lparr>lg_outstanding := 0, lg_committing := True\<rparr>\<rparr>)"
  using calmD(7) [OF c] calm_locked [OF c, of LLog] l by (simp add: end_op_def lg_mod_def)

lemma end_op_tail:
  assumes c: "calm me t"
  shows "seq (acquire LLog) (seq (lg_mod (\<lambda>l. l\<lparr>lg_committing := False\<rparr>)) (seq (wakeup CLog) (release LLog))) t =
    Ok () (t\<lparr>lg := (lg t)\<lparr>lg_committing := False\<rparr>, procs := woken CLog t\<rparr>)"
proof -
  let ?t = "t\<lparr>kcpu := cpu_acq LLog (kcpu t), lg := (lg t)\<lparr>lg_committing := False\<rparr>\<rparr>"
  have w: "wakeup CLog ?t = Ok () (?t\<lparr>procs := woken CLog t\<rparr>)"
    by (rule wakeup_locked [OF c, where l = LLog]) simp_all
  show ?thesis
    using calmD(7) [OF c] calm_locked [OF c, of LLog] w by (simp add: lg_mod_def)
qed

text \<open>C4: The \<open>end_op\<close> of the last running operation returns with the transaction on disk: the log is empty, not
  committing, without reservations, and the disk holds, outside the log area, what the kernel saw.\<close>

theorem end_op_spec:
  assumes "transact d me ls {} bl s" and "\<not> lg_committing (lg s)" and "lg_outstanding (lg s) = 1"
  shows "\<exists>t. end_op s = Ok () t \<and> transact d me ls {} [] t \<and> \<not> lg_committing (lg t) \<and> lg_outstanding (lg t) = 0 \<and>
    (\<forall>b. \<not> in_log ls b \<longrightarrow> disk t (unat b) = view d s b)"
proof -
  obtain P where P: "cinv d me {} P s" "(\<lambda>i. blockno (bufs s ! i)) ` P = set bl" using assms(1) by (auto simp: transact_def)
  have g: "log_at d ls bl (lg s)" and ok: "loggable ls bl" using assms(1) by (auto simp: transact_def)
  let ?l = "(lg s)\<lparr>lg_outstanding := 0, lg_committing := True\<rparr>" and ?s = "s\<lparr>lg := (lg s)\<lparr>lg_outstanding := 0, lg_committing := True\<rparr>\<rparr>"
  have s: "hold d me {} P (view d s) (disk s) (dhist s) ?l (\<lambda>i. blockno (bufs s ! i)) ?s"
    using hold_lg_mod [OF hold_start [OF P(1)], of "\<lambda>l. l\<lparr>lg_outstanding := 0, lg_committing := True\<rparr>"
      "\<lambda>_. hold d me {} P (view d s) (disk s) (dhist s) ?l (\<lambda>i. blockno (bufs s ! i))" False "\<lambda>_. False"]
    by (simp add: lg_mod_def)
  have gs: "log_at d ls bl ?l" using g by (simp add: log_at_def)
  have "\<exists>t. commit ?s = Ok () t \<and> cinv d me {} {} t \<and> log_at d ls [] (lg t) \<and> lg_outstanding (lg t) = 0 \<and>
      (\<forall>b. \<not> in_log ls b \<longrightarrow> disk t (unat b) = view d s b)"
  proof (cases "bl = []")
    case True
    then have "commit ?s = Ok () ?s" using log_atD(3) [OF gs] by (simp add: commit_def)
    moreover have "P = {}" using P(2) True by auto
    moreover have "view d s b = disk s (unat b)" for b by (rule view_disk [OF P(1)]) (use \<open>P = {}\<close> in simp)
    ultimately show ?thesis using holdD(1) [OF s] gs True by simp
  next
    case False
    have "wp False commit (\<lambda>_ t. cinv d me {} {} t \<and> log_at d ls [] (lg t) \<and> lg_outstanding (lg t) = 0 \<and>
        disk t = last (commit_disks ls bl (\<lambda>k. view d s (bl ! k)) (disk s))) (\<lambda>_. False) ?s"
      by (rule commit_wp [OF s gs ok P(2) False]) (use log_at_empty [OF gs] in \<open>auto simp: hold_def\<close>)
    then have "\<exists>x t. commit ?s = Ok x t \<and> cinv d me {} {} t \<and> log_at d ls [] (lg t) \<and> lg_outstanding (lg t) = 0 \<and>
        disk t = last (commit_disks ls bl (\<lambda>k. view d s (bl ! k)) (disk s))" by (rule wp_returns)
    then show ?thesis using commit_view [OF P(1) ok P(2)] by auto
  qed
  then obtain t where t: "commit ?s = Ok () t" "cinv d me {} {} t" "log_at d ls [] (lg t)" "lg_outstanding (lg t) = 0"
    "\<forall>b. \<not> in_log ls b \<longrightarrow> disk t (unat b) = view d s b" by blast
  note C = cinvD [OF t(2)]
  let ?t = "t\<lparr>lg := (lg t)\<lparr>lg_committing := False\<rparr>, procs := woken CLog t\<rparr>"
  have run: "end_op s = Ok () ?t"
    using end_op_head [OF cinvD(1) [OF P(1)] assms(2,3)] end_op_tail [OF C(1)] t(1) by (simp del: run_seq)
  have "hold d me {} {} (view d t) (disk t) (dhist t) ((lg t)\<lparr>lg_committing := False\<rparr>) (\<lambda>i. blockno (bufs t ! i)) (t\<lparr>lg := (lg t)\<lparr>lg_committing := False\<rparr>\<rparr>)"
    using hold_lg_mod [OF hold_start [OF t(2)], of "\<lambda>l. l\<lparr>lg_committing := False\<rparr>"
      "\<lambda>_. hold d me {} {} (view d t) (disk t) (dhist t) ((lg t)\<lparr>lg_committing := False\<rparr>) (\<lambda>i. blockno (bufs t ! i))" False "\<lambda>_. False"]
    by (simp add: lg_mod_def)
  from hold_woke [OF this, of "woken CLog t"] woke_woken [OF C(1)]
  have "cinv d me {} {} ?t" by (simp add: hold_def)
  then have "transact d me ls {} [] ?t" using t(3) ok by (auto simp: transact_def log_at_def loggable_def)
  then show ?thesis using run t(4,5) by auto
qed

subsection \<open>An operation on the example\<close>

definition demo_op :: kernel where
  "demo_op = demo_log\<lparr>lg := (lg demo_log)\<lparr>lg_outstanding := 1, lg_committing := False\<rparr>\<rparr>"

lemma cinv_lg:
  assumes "cinv d me L P s"
  shows "cinv d me L P (s\<lparr>lg := l\<rparr>)"
proof -
  have "wp False (lg_mod (\<lambda>_. l)) (\<lambda>_ t. cinv d me L P t) (\<lambda>_. False) s"
    by (rule hold_lg_mod [OF hold_start [OF assms]]) (simp add: hold_def)
  then show ?thesis by (simp add: lg_mod_def)
qed

lemma demo_op_lg: "lg demo_op = \<lparr>lg_start = 2, lg_size = 30, lg_outstanding = 1, lg_committing = False, lg_dev = 1, lh_n = 1,
    lh_block = 50 # replicate 29 0\<rparr>"
  by (simp add: demo_op_def demo_log_def demo_state_def)

lemma demo_op_cinv: "cinv 1 3 {} {0} demo_op"
  unfolding demo_op_def by (rule cinv_lg [OF demo_cinv])

lemma demo_op_pins: "(\<lambda>i. blockno (bufs demo_op ! i)) ` {0} = set [50]"
  using demo_log_ok(3) by (simp add: demo_op_def)

lemma demo_op_transact: "transact 1 3 2 {} [50] demo_op"
proof -
  have "log_at 1 2 [50] (lg demo_op)" by (simp add: log_at_def demo_op_lg)
  then show ?thesis unfolding transact_def using demo_log_ok(2) demo_op_cinv demo_op_pins by blast
qed

lemma demo_op_read:
  "\<exists>i s. bread 1 60 demo_op = Ok i s \<and> transact 1 3 2 {i} [50] s \<and> lg s = lg demo_op \<and> blockno (bufs s ! i) = 60"
proof -
  let ?c = "\<lambda>i. blockno (bufs demo_op ! i)"
  let ?Q = "\<lambda>i s. i \<noteq> 0 \<and> hold 1 3 {i} {0} (view 1 demo_op) (disk demo_op) (dhist demo_op) (lg demo_op) (?c(i := 60)) s"
  have "wp False (bread 1 60) ?Q (\<lambda>_. False) demo_op"
  proof (rule hold_bread [OF hold_start [OF demo_op_cinv]])
    fix i t assume i: "i \<in> {0} \<Longrightarrow> ?c i = 60"
      and h: "hold 1 3 (insert i {}) {0} (view 1 demo_op) (disk demo_op) (dhist demo_op) (lg demo_op) (?c(i := 60)) t"
    have "?c 0 = 50" using demo_op_pins by simp
    then have "i \<noteq> 0" using i by auto
    then show "?Q i t" using h by simp
  qed simp_all
  then obtain i s where r: "bread 1 60 demo_op = Ok i s" "?Q i s" using wp_returns by fast
  then have h: "i \<noteq> 0" "cinv 1 3 {i} {0} s" "lg s = lg demo_op" "blockno (bufs s ! i) = 60" "blockno (bufs s ! 0) = 50"
    using demo_op_pins by (auto simp: hold_def)
  have "transact 1 3 2 {i} [50] s"
    unfolding transact_def h(3) using h(2,5) demo_op_transact by (auto simp: transact_def intro!: exI [of _ "{0}"])
  then show ?thesis using r(1) h(3,4) by blast
qed

theorem log_write_spec_witness:
  "\<exists>i s t. bread 1 60 demo_op = Ok i s \<and> log_write i s = Ok () t \<and> transact 1 3 2 {i} [50, 60] t"
proof -
  obtain i s where r: "bread 1 60 demo_op = Ok i s" "transact 1 3 2 {i} [50] s" "lg s = lg demo_op" "blockno (bufs s ! i) = 60"
    using demo_op_read by blast
  have "\<not> in_log 2 60" by (simp add: in_log_def)
  then show ?thesis using log_write_spec [OF r(2), of i] r by (auto simp: demo_op_lg add_block_def)
qed

theorem begin_op_spec_witness:
  "begin_op demo_op = Ok () (demo_op\<lparr>lg := (lg demo_op)\<lparr>lg_outstanding := 2\<rparr>\<rparr>)"
  using begin_op_spec [OF cinvD(1) [OF demo_op_cinv]] by (simp add: demo_op_lg)

theorem end_op_spec_witness:
  "\<exists>t. end_op demo_op = Ok () t \<and> disk t 50 = view 1 demo_op 50"
proof -
  have "\<not> in_log 2 50" by (simp add: in_log_def)
  then show ?thesis using end_op_spec [OF demo_op_transact] by (fastforce simp: demo_op_lg)
qed

end
