(* ===== verification/Content.thy ===== *)
theory Content
  imports Fs Transact
begin

section \<open>The contents of a file\<close>

text \<open>
  A file's bytes are those of its blocks, direct and indirect, cut off at its size: \<open>file_bytes\<close>.  Reading
  through the cache gives them.  \<open>peeked\<close> is a state in which one buffer is held, read and not changed.
\<close>

definition peeked :: "u32 \<Rightarrow> nat \<Rightarrow> nat set \<Rightarrow> (u32 \<Rightarrow> u8 list) \<Rightarrow> (nat \<Rightarrow> u8 list) \<Rightarrow> (nat \<Rightarrow> u8 list) list \<Rightarrow> log \<Rightarrow> (nat \<Rightarrow> u32) \<Rightarrow>
    nat \<Rightarrow> u32 \<Rightarrow> kernel \<Rightarrow> bool" where
  "peeked d me P v D h l c i b s \<longleftrightarrow> (\<exists>c'. hold d me {i} P v D h l c' s \<and> c' i = b \<and> (\<forall>x \<in> P. c' x = c x) \<and> (i \<in> P \<or> v b = D (unat b)))"

lemma peek_bread:
  assumes h: "hold d me {} P v D h l c s" and n: "card P < NBUF"
    and Q: "\<And>i t. peeked d me P v D h l c i b t \<Longrightarrow> rest t = rest s \<Longrightarrow> Q i t"
  shows "wp e (bread d b) Q B s"
proof (rule hold_bread [OF h])
  fix i t assume i: "i \<in> P \<Longrightarrow> c i = b" "\<And>j. j \<in> P \<Longrightarrow> c j = b \<Longrightarrow> j = i"
    and t: "hold d me (insert i {}) P v D h l (c(i := b)) t" "rest t = rest s"
  have "i \<in> P \<or> v b = D (unat b)"
  proof (cases "b \<in> c ` P")
    case False
    then show ?thesis using hold_disk [OF h] by simp
  qed (use i in auto)
  then have "peeked d me P v D h l c i b t"
    unfolding peeked_def using t(1) i(1) by (intro exI [of _ "c(i := b)"]) auto
  then show "Q i t" using t(2) by (rule Q)
qed (use n in simp_all)

lemma peek_get:
  assumes "peeked d me P v D h l c i b s" and "Q (v b) s"
  shows "wp e (bdata_get i) Q B s"
proof -
  obtain c' where "hold d me {i} P v D h l c' s" "c' i = b" using assms(1) by (auto simp: peeked_def)
  then show ?thesis using assms(2) by (intro hold_get [where c = c']) auto
qed

lemma peek_relse:
  assumes p: "peeked d me P v D h l c i b s" and Q: "\<And>t. hold d me {} P v D h l c t \<Longrightarrow> rest t = rest s \<Longrightarrow> Q () t"
  shows "wp e (brelse i) Q B s"
proof -
  obtain c' where c': "hold d me {i} P v D h l c' s" "c' i = b" "\<forall>x \<in> P. c' x = c x" "i \<in> P \<or> v b = D (unat b)"
    using p by (auto simp: peeked_def)
  show ?thesis
  proof (rule hold_relse [OF c'(1)])
    fix t assume "hold d me ({i} - {i}) P v D h l c' t" and r: "rest t = rest s"
    then have "hold d me {} P v D h l c t" using c'(3) by (auto elim!: hold_c)
    then show "Q () t" using r by (rule Q)
  qed (use c' in auto)
qed

lemma peeked_calm: "peeked d me P v D h l c i b s \<Longrightarrow> calm me s"
  using cinvD(1) [OF holdD(1)] by (auto simp: peeked_def)

subsection \<open>The block that holds a byte\<close>

definition block_of :: "inode \<Rightarrow> (u32 \<Rightarrow> u8 list) \<Rightarrow> nat \<Rightarrow> u32" where
  "block_of ip v k = (if k < NDIRECT then addrs ip ! k else get32 (v (addrs ip ! NDIRECT)) (4 * (k - NDIRECT)))"

definition allotted :: "inode \<Rightarrow> (u32 \<Rightarrow> u8 list) \<Rightarrow> nat \<Rightarrow> bool" where
  "allotted ip v k \<longleftrightarrow> k < NDIRECT + NINDIRECT \<and> (NDIRECT \<le> k \<longrightarrow> addrs ip ! NDIRECT \<noteq> 0) \<and> block_of ip v k \<noteq> 0"

lemma wp_ret_fun: "wp e (seq m (ret x)) Q B = wp e m (\<lambda>_. Q x) B"
  by (rule ext) (simp add: wp_def bnd_def split: outcome.split)

lemma bmap_wp:
  assumes h: "hold d me {} P v D h l c s" and n: "card P < NBUF" and j: "j < length (inodes s)"
    and ip: "idev (inodes s ! j) = d" "allotted (inodes s ! j) v (unat bn)"
    and Q: "\<And>t. hold d me {} P v D h l c t \<Longrightarrow> rest t = rest s \<Longrightarrow> Q (block_of (inodes s ! j) v (unat bn)) t"
  shows "wp e (bmap j bn) Q B s"
proof -
  let ?ip = "inodes s ! j"
  show ?thesis
  proof (cases "bn < 12")
    case True
    then have k: "unat bn < 12" by (simp add: word_less_nat_alt)
    then have "addrs ?ip ! unat bn \<noteq> 0" "block_of ?ip v (unat bn) = addrs ?ip ! unat bn"
      using ip(2) by (simp_all add: allotted_def block_of_def)
    then show ?thesis using True j Q [OF h refl] by (simp add: bmap_def Let_def)
  next
    case False
    then have k: "12 \<le> unat bn" by (simp add: word_le_nat_alt not_less)
    have u: "unat (bn - 12) = unat bn - 12" using k by (simp add: unat_sub word_le_nat_alt)
    have b: "bn - 12 < 256" "addrs ?ip ! NDIRECT \<noteq> 0" "get32 (v (addrs ?ip ! NDIRECT)) (4 * (unat bn - 12)) \<noteq> 0"
      "block_of ?ip v (unat bn) = get32 (v (addrs ?ip ! NDIRECT)) (4 * (unat bn - 12))"
      using ip(2) k u by (auto simp: allotted_def block_of_def word_less_nat_alt)
    define M where "M i = bnd (bdata_get i) (\<lambda>x. bnd (if get32 x (4 * unat (bn - 12)) = 0 then
        bnd (balloc (idev ?ip)) (\<lambda>a. seq (whenM (a \<noteq> 0) (seq (bdata_mod i (put32 (4 * unat (bn - 12)) a)) (log_write i))) (ret a))
        else ret (get32 x (4 * unat (bn - 12)))) (\<lambda>a. seq (brelse i) (ret a)))" for i
    have "bmap j bn s = bnd (bread d (addrs ?ip ! NDIRECT)) M s"
      using False b j ip(1) by (simp add: bmap_def Let_def M_def [abs_def])
    moreover have "wp e (bread d (addrs ?ip ! NDIRECT)) (\<lambda>i. wp e (M i) Q B) B s"
    proof (rule peek_bread [OF h n])
      fix i t assume p: "peeked d me P v D h l c i (addrs ?ip ! NDIRECT) t" and r: "rest t = rest s"
      show "wp e (M i) Q B t"
        unfolding M_def wp_bnd
      proof (rule peek_get [OF p])
        have "wp e (brelse i) (\<lambda>_. Q (block_of ?ip v (unat bn))) B t"
          by (rule peek_relse [OF p]) (use Q r in simp)
        then show "wp e (if get32 (v (addrs ?ip ! NDIRECT)) (4 * unat (bn - 12)) = 0 then
            bnd (balloc (idev ?ip)) (\<lambda>a. seq (whenM (a \<noteq> 0) (seq (bdata_mod i (put32 (4 * unat (bn - 12)) a)) (log_write i))) (ret a))
            else ret (get32 (v (addrs ?ip ! NDIRECT)) (4 * unat (bn - 12)))) (\<lambda>a. wp e (seq (brelse i) (ret a)) Q B) B t"
          using b u by (simp add: wp_ret_fun)
      qed
    qed
    ultimately show ?thesis using wp_bnd [of e "bread d (addrs ?ip ! NDIRECT)" M Q B s] by (simp add: wp_def)
  qed
qed

subsection \<open>Reading\<close>

definition file_byte :: "inode \<Rightarrow> (u32 \<Rightarrow> u8 list) \<Rightarrow> nat \<Rightarrow> u8" where
  "file_byte ip v p = v (block_of ip v (p div BSIZE)) ! (p mod BSIZE)"

definition file_bytes :: "inode \<Rightarrow> (u32 \<Rightarrow> u8 list) \<Rightarrow> u8 list" where
  "file_bytes ip v = map (file_byte ip v) [0..<unat (isize ip)]"

text \<open>Every block of the file is allotted.\<close>

definition whole :: "inode \<Rightarrow> (u32 \<Rightarrow> u8 list) \<Rightarrow> bool" where
  "whole ip v \<longleftrightarrow> (\<forall>p < unat (isize ip). allotted ip v (p div BSIZE))"

lemma chunk_slice:
  assumes "length (v (block_of ip v (p div BSIZE))) = BSIZE" and "m \<le> BSIZE - p mod BSIZE"
  shows "take m (drop (p mod BSIZE) (v (block_of ip v (p div BSIZE)))) = map (file_byte ip v) [p..<p + m]"
proof (rule nth_equalityI)
  fix i assume "i < length (take m (drop (p mod BSIZE) (v (block_of ip v (p div BSIZE)))))"
  then have i: "i < m" using assms by simp
  then have lt: "p mod BSIZE + i < BSIZE" using assms(2) by simp
  have "p + i = BSIZE * (p div BSIZE) + (p mod BSIZE + i)" by simp
  then have "(p + i) div BSIZE = p div BSIZE" "(p + i) mod BSIZE = p mod BSIZE + i"
    using lt by (metis div_mult_self4 div_less add.commute add_cancel_left_left zero_neq_numeral, metis mod_mult_self4 mod_less)
  then show "take m (drop (p mod BSIZE) (v (block_of ip v (p div BSIZE)))) ! i = map (file_byte ip v) [p..<p + m] ! i"
    using assms i by (simp add: file_byte_def)
qed (use assms in simp)

lemma copyout_var: "calm me s \<Longrightarrow> either_copyout KVar bs s = Ok 0 s"
  using calmD [of me s] by (simp add: either_copyout_def)

lemma readi_loop_wp:
  assumes "hold d me {} P v D h l c s" and "card P < NBUF" and "j < length (inodes s)" and "idev (inodes s ! j) = d"
    and "unat off + left \<le> unat (isize (inodes s ! j))" and "whole (inodes s ! j) v"
    and "\<And>t. hold d me {} P v D h l c t \<Longrightarrow> rest t = rest s \<Longrightarrow>
      Q (int (tot + left), got @ map (file_byte (inodes s ! j) v) [unat off..<unat off + left]) t"
  shows "wp e (readi_loop j KVar off left tot got) Q B s"
  using assms
proof (induction left arbitrary: off tot got s rule: less_induct)
  case (less left)
  note h = less.prems(1) and n = less.prems(2) and j = less.prems(3,4) and sz = less.prems(5) and w = less.prems(6) and Q = less.prems(7)
  let ?ip = "inodes s ! j"
  show ?case
  proof (cases "left = 0")
    case True
    then show ?thesis using Q [OF h refl] by (simp add: readi_loop.simps)
  next
    case False
    have bd: "unat (off div 1024) = unat off div BSIZE" by (simp add: unat_div)
    have al: "allotted ?ip v (unat off div BSIZE)" using w False sz by (simp add: whole_def)
    let ?b = "block_of ?ip v (unat off div BSIZE)" and ?m = "chunk off left"
    have b0: "?b \<noteq> 0" using al by (simp add: allotted_def)
    have m: "0 < ?m" "?m \<le> left" "?m \<le> BSIZE - unat off mod BSIZE" using chunk_bounds False by (auto simp: chunk_def)
    let ?bs = "map (file_byte ?ip v) [unat off..<unat off + ?m]"
    have bs: "take ?m (drop (unat off mod 1024) (v ?b)) = ?bs"
      by (rule chunk_slice) (use view_length [OF h] m in simp_all)
    have om: "unat (off + of_nat ?m) = unat off + ?m"
    proof -
      have "unat (isize ?ip) < 2 ^ 32" by (rule order.strict_trans2 [OF unsigned_less]) simp
      then have "unat off + ?m < 2 ^ 32" using sz m(2) by simp
      then show ?thesis by (simp add: unat_word_ariths unsigned_of_nat take_bit_nat_eq_self)
    qed
    define M where "M i = bnd (bdata_get i) (\<lambda>x. bnd (either_copyout KVar (take ?m (drop (unat off mod 1024) x))) (\<lambda>r. seq (brelse i)
        (if r = -1 then ret (-1, got) else readi_loop j KVar (off + of_nat ?m) (left - ?m) (tot + ?m) (got @ take ?m (drop (unat off mod 1024) x)))))" for i
    have unf: "readi_loop j KVar off left tot got = bnd (bmap j (off div 1024)) (\<lambda>a. if a = 0 then ret (int tot, got)
        else bnd (inode_get j) (\<lambda>ip. bnd (bread (idev ip) a) M))"
      unfolding M_def using False by (subst readi_loop.simps) (simp add: Let_def cong: if_cong)
    show ?thesis
      unfolding unf wp_bnd
    proof (rule bmap_wp [OF h n j], unfold bd, rule al)
      fix t assume t: "hold d me {} P v D h l c t" "rest t = rest s"
      have it: "inodes t = inodes s" using restD [OF t(2)] by simp
      have "wp e (bread d ?b) (\<lambda>i. wp e (M i) Q B) B t"
      proof (rule peek_bread [OF t(1) n])
        fix i u assume u: "peeked d me P v D h l c i ?b u" "rest u = rest t"
        show "wp e (M i) Q B u"
          unfolding M_def wp_bnd
        proof (rule peek_get [OF u(1)], unfold bs)
          have "wp e (brelse i) (\<lambda>_. wp e (readi_loop j KVar (off + of_nat ?m) (left - ?m) (tot + ?m) (got @ ?bs)) Q B) B u"
          proof (rule peek_relse [OF u(1)])
            fix x assume x: "hold d me {} P v D h l c x" "rest x = rest u"
            have ix: "inodes x = inodes s" "rest x = rest s" using restD(1) [OF x(2)] restD(1) [OF u(2)] it x(2) u(2) t(2) by simp_all
            show "wp e (readi_loop j KVar (off + of_nat ?m) (left - ?m) (tot + ?m) (got @ ?bs)) Q B x"
            proof (rule less.IH [OF _ x(1) n])
              fix y assume y: "hold d me {} P v D h l c y" "rest y = rest x"
              have "?bs @ map (file_byte ?ip v) [unat off + ?m..<unat off + left] = map (file_byte ?ip v) [unat off..<unat off + left]"
                using m(2) upt_add_eq_append [of "unat off" "unat off + ?m" "left - ?m"] by (simp flip: map_append)
              then show "Q (int (tot + ?m + (left - ?m)), (got @ ?bs) @ map (file_byte (inodes x ! j) v)
                  [unat (off + of_nat ?m)..<unat (off + of_nat ?m) + (left - ?m)]) y"
                using Q [OF y(1)] y(2) ix m(2) om by simp
            qed (use ix j sz w m om in simp_all)
          qed
          then show "wp e (either_copyout KVar ?bs) (\<lambda>r. wp e (seq (brelse i) (if r = -1 then ret (-1, got)
              else readi_loop j KVar (off + of_nat ?m) (left - ?m) (tot + ?m) (got @ ?bs))) Q B) B u"
            using copyout_var [OF peeked_calm [OF u(1)]] by (simp add: wp_def [of e "either_copyout KVar ?bs"])
        qed
      qed
      then show "wp e (if ?b = 0 then ret (int tot, got) else bnd (inode_get j) (\<lambda>ip. bnd (bread (idev ip) ?b) M)) Q B t"
        using b0 j it by simp
    qed
  qed
qed

lemma readi_run:
  assumes "cinv d me {} P s" and "card P < NBUF" and "j < length (inodes s)" and "idev (inodes s ! j) = d"
    and "whole (inodes s ! j) (view d s)" and "unat off + unat n < 2 ^ 32"
  shows "\<exists>t. readi j KVar off n s = Ok (int (length (take (unat n) (drop (unat off) (file_bytes (inodes s ! j) (view d s))))),
      take (unat n) (drop (unat off) (file_bytes (inodes s ! j) (view d s)))) t \<and>
    cinv d me {} P t \<and> (\<forall>b. view d t b = view d s b) \<and> disk t = disk s \<and> rest t = rest s"
proof -
  let ?ip = "inodes s ! j" and ?v = "view d s"
  have sum: "unat (off + n) = unat off + unat n" using assms(6) by (simp add: unat_word_ariths)
  have no: "\<not> off + n < off" using sum by (simp add: word_less_nat_alt)
  have len: "length (file_bytes ?ip ?v) = unat (isize ?ip)" by (simp add: file_bytes_def)
  show ?thesis
  proof (cases "off > isize ?ip")
    case True
    then show ?thesis using assms no len by (auto simp: readi_def word_less_nat_alt)
  next
    case False
    then have o: "unat off \<le> unat (isize ?ip)" by (simp add: word_le_nat_alt not_less)
    define m where "m = (if off + n > isize ?ip then isize ?ip - off else n)"
    have m: "unat m = min (unat n) (unat (isize ?ip) - unat off)"
      using o sum by (auto simp: m_def word_less_nat_alt unat_sub word_le_nat_alt)
    let ?R = "take (unat n) (drop (unat off) (file_bytes ?ip ?v))"
    have R: "map (file_byte ?ip ?v) [unat off..<unat off + unat m] = ?R"
      using o m by (simp add: file_bytes_def drop_map take_map min_def)
    let ?Q = "\<lambda>r t. r = (int (unat m), ?R) \<and> cinv d me {} P t \<and> (\<forall>b. view d t b = view d s b) \<and> disk t = disk s \<and> rest t = rest s"
    have "wp False (readi_loop j KVar off (unat m) 0 []) ?Q (\<lambda>_. False) s"
      by (rule readi_loop_wp [OF hold_start [OF assms(1)] assms(2-4) _ assms(5)])
         (use o m R in \<open>auto simp: hold_def\<close>)
    then obtain r t where t: "readi_loop j KVar off (unat m) 0 [] s = Ok r t" "?Q r t" using wp_returns by fast
    have "allotted ?ip ?v ((unat (isize ?ip) - 1) div BSIZE)" if "0 < unat (isize ?ip)" using assms(5) that by (simp add: whole_def)
    then have "unat (isize ?ip) \<le> 268 * 1024" by (cases "unat (isize ?ip)") (auto simp: allotted_def div_less_iff_less_mult)
    then have mb: "unat m < 2 ^ 31" using m by simp
    have sx: "sint (word_of_int (int (unat m)) :: u32) = int (unat m)" by (rule sint_small [OF mb])
    have lr: "length ?R = unat m" using len m o by simp
    have "readi j KVar off n s = Ok (int (unat m), ?R) t"
      using t False no assms(3) sx by (simp add: readi_def m_def [symmetric])
    then show ?thesis using t(2) lr by simp
  qed
qed

text \<open>C16: \<open>readi\<close> returns the bytes of the file: of the contents from the offset on as many as are wanted and
  there are, and none when the offset is past the end.  It changes neither what the kernel sees nor the disk.\<close>

theorem readi_spec:
  assumes "cinv d me {} P s" and "card P < NBUF" and "j < length (inodes s)" and "idev (inodes s ! j) = d"
    and "whole (inodes s ! j) (view d s)" and "unat off + unat n < 2 ^ 32"
  shows "\<exists>t. readi j KVar off n s = Ok (int (length (take (unat n) (drop (unat off) (file_bytes (inodes s ! j) (view d s))))),
      take (unat n) (drop (unat off) (file_bytes (inodes s ! j) (view d s)))) t \<and>
    cinv d me {} P t \<and> (\<forall>b. view d t b = view d s b) \<and> disk t = disk s \<and> inodes t = inodes s"
  using readi_run [OF assms] restD(1) by blast

text \<open>A file of ten bytes in block 50 of the example.\<close>

definition demo_file :: kernel where
  "demo_file = demo_log\<lparr>inodes := [bss_inode\<lparr>idev := 1, inum := 5, iref := 1, ivalid := True, itype := 2, nlink := 1,
     isize := 10, addrs := 50 # replicate 12 0\<rparr>]\<rparr>"

lemma cinv_inodes:
  assumes "cinv d me L P s"
  shows "cinv d me L P (s\<lparr>inodes := x\<rparr>)" "view d (s\<lparr>inodes := x\<rparr>) b = view d s b"
proof -
  let ?t = "s\<lparr>inodes := x\<rparr>"
  have e: "bufs ?t = bufs s" "disk ?t = disk s" "blocked_by ?t me = blocked_by s me" by (simp_all add: blocked_by_def)
  have "calm me ?t" by (rule calm_same [OF cinvD(1) [OF assms]]) simp_all
  then show "cinv d me L P ?t" using assms unfolding cinv_def buf_ok_def e by blast
  show "view d ?t b = view d s b" by (simp add: view_def split: option.split)
qed

lemma demo_view: "view 1 demo_log 50 = replicate BSIZE 7"
proof -
  have "bufs demo_log ! 0 = bss_buf\<lparr>bvalid := True, bdev := 1, blockno := 50, refcnt := 1, bprev := 30, bnext := 1, bdata := replicate BSIZE 7\<rparr>"
    by (simp add: demo_log_def demo_state_def demo_bufs_def del: upt_Suc)
  then show ?thesis using view_cached [OF cinvD(3) [OF demo_cinv], of 0] by simp
qed

theorem readi_spec_witness:
  "\<exists>t. readi 0 KVar 6 100 demo_file = Ok (4, [7, 7, 7, 7]) t \<and> disk t = disk demo_file"
proof -
  have c: "cinv 1 3 {} {0} demo_file" unfolding demo_file_def by (rule cinv_inodes(1) [OF demo_cinv])
  have v: "view 1 demo_file 50 = replicate BSIZE 7" unfolding demo_file_def cinv_inodes(2) [OF demo_cinv] by (rule demo_view)
  let ?ip = "inodes demo_file ! 0"
  have ip: "idev ?ip = 1" "isize ?ip = 10" "addrs ?ip = 50 # replicate 12 0" "length (inodes demo_file) = 1"
    by (simp_all add: demo_file_def)
  have b: "block_of ?ip (view 1 demo_file) 0 = 50" by (simp add: block_of_def ip)
  have w: "whole ?ip (view 1 demo_file)"
    using b by (simp add: whole_def allotted_def ip)
  have f: "file_bytes ?ip (view 1 demo_file) = replicate 10 7"
  proof (rule nth_equalityI)
    fix i assume "i < length (file_bytes ?ip (view 1 demo_file))"
    then have "i < 10" by (simp add: file_bytes_def ip)
    then show "file_bytes ?ip (view 1 demo_file) ! i = replicate 10 7 ! i"
      using b v by (simp add: file_bytes_def file_byte_def ip del: upt_Suc)
  qed (simp add: file_bytes_def ip)
  have "take (unat (100 :: u32)) (drop (unat (6 :: u32)) (file_bytes ?ip (view 1 demo_file))) = [7, 7, 7, 7]"
  proof -
    have "take (unat (100 :: u32)) (drop (unat (6 :: u32)) (replicate 10 (7 :: u8))) = replicate 4 7" by simp
    also have "\<dots> = [7, 7, 7, 7]" by (simp add: numeral_eq_Suc)
    finally show ?thesis unfolding f .
  qed
  then show ?thesis
    using readi_spec [OF c _ _ _ w, of 6 100] ip by auto
qed

end
