(* ===== verification/Dirs.thy ===== *)
theory Dirs
  imports Dir Content
begin

section \<open>Looking up names in directories\<close>

text \<open>
  A directory is a file of 16-byte entries.  \<open>entry d k\<close> is entry \<open>k\<close> of the contents \<open>d\<close>; it is found by its
  name, of which at most 14 characters count.  \<open>dirlookup\<close> finds the first entry in use with the name.
\<close>

definition entry :: "u8 list \<Rightarrow> nat \<Rightarrow> u8 list" where
  "entry d k = take 16 (drop (16 * k) d)"

definition name14 :: "u8 list \<Rightarrow> u8 list" where
  "name14 s = takeWhile (\<lambda>c. c \<noteq> 0) (take DIRSIZ s)"

definition matches :: "u8 list \<Rightarrow> u8 list \<Rightarrow> nat \<Rightarrow> bool" where
  "matches d name k \<longleftrightarrow> get16 (entry d k) 0 \<noteq> 0 \<and> name14 (drop 2 (entry d k)) = name14 name"

lemma strncmp_names:
  "n \<le> length p \<Longrightarrow> n \<le> length q \<Longrightarrow>
    \<exists>r. strncmp p q n = Some r \<and> (r = 0 \<longleftrightarrow> takeWhile (\<lambda>c. c \<noteq> 0) (take n p) = takeWhile (\<lambda>c. c \<noteq> 0) (take n q))"
  by (induction p q n rule: strncmp.induct) (auto simp: word_uint_eq_iff)

lemma namecmp_run:
  assumes "DIRSIZ \<le> length p" and "DIRSIZ \<le> length q"
  shows "\<exists>r. namecmp p q s = Ok r s \<and> (r = 0 \<longleftrightarrow> name14 p = name14 q)"
  using strncmp_names [OF assms] by (auto simp: namecmp_def name14_def)

lemma wp_search:
  fixes f :: "'i \<Rightarrow> ('s, 'a option) kM"
  assumes "I s"
    and "\<And>i t. i \<in> set is \<Longrightarrow> I t \<Longrightarrow> \<not> P i \<Longrightarrow> wp e (f i) (\<lambda>r u. r = None \<and> I u) B t"
    and "\<And>i t. i \<in> set is \<Longrightarrow> I t \<Longrightarrow> P i \<Longrightarrow> wp e (f i) (\<lambda>r u. \<exists>x. r = Some x \<and> R i x u) B t"
  shows "wp e (search is f) (\<lambda>r u. case find P is of None \<Rightarrow> r = None \<and> I u | Some i \<Rightarrow> \<exists>x. r = Some x \<and> R i x u) B s"
  using assms
proof (induction "is" arbitrary: s)
  case (Cons i "is")
  show ?case
  proof (cases "P i")
    case True
    show ?thesis
      unfolding search.simps wp_bnd
      by (rule wp_conseq [OF Cons.prems(3) [of i s]]) (use Cons.prems(1) True in auto)
  next
    case False
    show ?thesis
      unfolding search.simps wp_bnd
    proof (rule wp_conseq [OF Cons.prems(2) [of i s]])
      fix r :: "'a option" and t assume "r = None \<and> I t"
      then show "wp e (case r of None \<Rightarrow> search is f | Some x \<Rightarrow> ret (Some x))
          (\<lambda>r u. case find P (i # is) of None \<Rightarrow> r = None \<and> I u | Some i \<Rightarrow> \<exists>x. r = Some x \<and> R i x u) B t"
        using Cons.IH [of t] Cons.prems(2,3) False by simp
    qed (use Cons.prems(1) False in simp_all)
  qed
qed simp

text \<open>\<open>iget\<close> finds the entry of an inode or takes a free one; the entry's count goes up.\<close>

definition iget_slot :: "u32 \<Rightarrow> u32 \<Rightarrow> inode list \<Rightarrow> nat option" where
  "iget_slot d n t = (case first_idx (\<lambda>ip. iref ip > 0 \<and> idev ip = d \<and> inum ip = n) t of
     Some i \<Rightarrow> Some i | None \<Rightarrow> first_idx (\<lambda>ip. iref ip = 0) t)"

lemma iget_run:
  assumes c: "calm me s" and i: "iget_slot d n (inodes s) = Some i"
  shows "\<exists>ip. iget d n s = Ok i (s\<lparr>inodes := (inodes s)[i := ip]\<rparr>) \<and> i < length (inodes s) \<and> idev ip = d \<and> inum ip = n \<and>
    iref ip = iref (inodes s ! i) + 1 \<and> (iref (inodes s ! i) > 0 \<longrightarrow> ip = (inodes s ! i)\<lparr>iref := iref (inodes s ! i) + 1\<rparr>)"
proof (cases "first_idx (\<lambda>ip. iref ip > 0 \<and> idev ip = d \<and> inum ip = n) (inodes s)")
  case (Some k)
  then have k: "k = i" using i by (simp add: iget_slot_def)
  then have "i < length (inodes s)" "iref (inodes s ! i) > 0 \<and> idev (inodes s ! i) = d \<and> inum (inodes s ! i) = n"
    using first_idx_bound [OF Some] first_idx_sat [OF Some] by auto
  then show ?thesis
    using Some k calmD(7) [OF c] calm_locked [OF c, of LItable]
    by (intro exI [of _ "(inodes s ! i)\<lparr>iref := iref (inodes s ! i) + 1\<rparr>"]) (simp add: iget_def)
next
  case None
  then have f: "first_idx (\<lambda>ip. iref ip = 0) (inodes s) = Some i" using i by (simp add: iget_slot_def)
  then have "i < length (inodes s)" "iref (inodes s ! i) = 0" using first_idx_bound first_idx_sat [OF f] by auto
  then show ?thesis
    using None f calmD(7) [OF c] calm_locked [OF c, of LItable]
    by (intro exI [of _ "(inodes s ! i)\<lparr>idev := d, inum := n, iref := 1, ivalid := False\<rparr>"]) (simp add: iget_def)
qed

lemma read_dirent_run:
  assumes "cinv d me {} P s" and "card P < NBUF" and "j < length (inodes s)" and "idev (inodes s ! j) = d"
    and "whole (inodes s ! j) (view d s)" and k: "16 * k + 16 \<le> unat (isize (inodes s ! j))"
  shows "\<exists>t. read_dirent j (of_nat (16 * k)) msg s = Ok (entry (file_bytes (inodes s ! j) (view d s)) k) t \<and>
    cinv d me {} P t \<and> (\<forall>b. view d t b = view d s b) \<and> disk t = disk s \<and> rest t = rest s"
proof -
  have sz: "unat (isize (inodes s ! j)) < 2 ^ 32" by (rule order.strict_trans2 [OF unsigned_less]) simp
  define off where "off = (of_nat (16 * k) :: u32)"
  have u: "unat off = 16 * k"
    using k sz unfolding off_def by (simp only: unsigned_of_nat) (simp add: take_bit_nat_eq_self)
  let ?R = "take (unat (16 :: u32)) (drop (unat off) (file_bytes (inodes s ! j) (view d s)))"
  have R: "?R = entry (file_bytes (inodes s ! j) (view d s)) k" "length (entry (file_bytes (inodes s ! j) (view d s)) k) = 16"
    using u k by (simp_all add: entry_def file_bytes_def)
  have "unat off + unat (16 :: u32) < 2 ^ 32 \<or> 16 * k + 16 = 2 ^ 32" using k sz u by auto
  then have "unat off + unat (16 :: u32) < 2 ^ 32" using k sz by auto
  from readi_run [OF assms(1-5) this, unfolded R(1) R(2)] show ?thesis
    unfolding off_def [symmetric] by (auto simp: read_dirent_def)
qed

text \<open>C17: \<open>dirlookup\<close> answers with the first entry of the directory that is in use and has the name: its offset,
  and a reference to its inode in the inode table.  Without such an entry it answers that there is none.\<close>

theorem dirlookup_spec:
  assumes "cinv d me {} P s" and "card P < NBUF" and "j < length (inodes s)" and "idev (inodes s ! j) = d"
    and "whole (inodes s ! j) (view d s)" and "itype (inodes s ! j) = T_DIR" and "16 dvd unat (isize (inodes s ! j))"
    and "DIRSIZ \<le> length name" and "\<exists>ip \<in> set (inodes s). iref ip = 0"
  shows "case find (matches (file_bytes (inodes s ! j) (view d s)) name) [0..<unat (isize (inodes s ! j)) div 16] of
      None \<Rightarrow> \<exists>t. dirlookup j name s = Ok None t \<and> inodes t = inodes s \<and> disk t = disk s
    | Some k \<Rightarrow> \<exists>i ip t. dirlookup j name s = Ok (Some (i, of_nat (16 * k))) t \<and> inodes t = (inodes s)[i := ip] \<and> disk t = disk s \<and>
        i < length (inodes s) \<and> idev ip = d \<and> inum ip = ucast (get16 (entry (file_bytes (inodes s ! j) (view d s)) k) 0) \<and>
        iref ip = iref (inodes s ! i) + 1"
proof -
  let ?ip = "inodes s ! j" and ?bytes = "file_bytes (inodes s ! j) (view d s)"
  let ?n = "unat (isize ?ip) div 16"
  define I where "I t \<longleftrightarrow> cinv d me {} P t \<and> (\<forall>b. view d t b = view d s b) \<and> disk t = disk s \<and> inodes t = inodes s" for t
  define f where "f off = bnd (read_dirent j off ''dirlookup read'') (\<lambda>de. if get16 de 0 = 0 then ret None
      else bnd (namecmp name (drop 2 de)) (\<lambda>c. if c = 0 then
        bnd (iget d (ucast (get16 de 0))) (\<lambda>j. ret (Some (j, off))) else ret None))" for off
  have same: "view d t = view d s" if "I t" for t using that by (auto simp: I_def)
  have rd: "\<exists>u. read_dirent j (of_nat (16 * k)) ''dirlookup read'' t = Ok (entry ?bytes k) u \<and> I u" if "k < ?n" "I t" for k t
  proof -
    have "16 * k + 16 \<le> unat (isize (inodes t ! j))" using that assms(7) by (auto simp: I_def dvd_def)
    from read_dirent_run [OF _ assms(2) _ _ _ this, of d me "''dirlookup read''"] show ?thesis
      using that(2) assms(3-5) same [OF that(2)] by (auto simp: I_def dest: restD)
  qed
  have len: "length (entry ?bytes k) = 16" if "k < ?n" for k
    using that by (auto simp: entry_def file_bytes_def)
  have nm: "\<exists>r. namecmp name (drop 2 (entry ?bytes k)) t = Ok r t \<and> (r = 0 \<longleftrightarrow> name14 (drop 2 (entry ?bytes k)) = name14 name)"
    if "k < ?n" for k t
    using namecmp_run [OF assms(8), of "drop 2 (entry ?bytes k)" t] len [OF that] by auto
  have free: "iget_slot d n (inodes s) \<noteq> None" for n
    using assms(9) first_idx_None [of "\<lambda>ip. iref ip = 0" "inodes s"] by (auto simp: iget_slot_def split: option.split)
  define R where "R k x u \<longleftrightarrow> (\<exists>i ip. x = (i, of_nat (16 * k)) \<and> inodes u = (inodes s)[i := ip] \<and> disk u = disk s \<and>
      i < length (inodes s) \<and> idev ip = d \<and> inum ip = ucast (get16 (entry ?bytes k) 0) \<and> iref ip = iref (inodes s ! i) + 1)" for k and x :: "nat \<times> u32" and u :: kernel
  have "wp False (search [0..<?n] (\<lambda>k. f (of_nat (16 * k)))) (\<lambda>r u. case find (matches ?bytes name) [0..<?n] of
      None \<Rightarrow> r = None \<and> I u | Some k \<Rightarrow> \<exists>x. r = Some x \<and> R k x u) (\<lambda>_. False) s"
  proof (rule wp_search)
    show "I s" using assms(1) by (simp add: I_def)
    fix k t assume k: "k \<in> set [0..<?n]" and t: "I t"
    then have k: "k < ?n" by simp
    obtain u where u: "read_dirent j (of_nat (16 * k)) ''dirlookup read'' t = Ok (entry ?bytes k) u" "I u" using rd [OF k t] by blast
    obtain r where r: "namecmp name (drop 2 (entry ?bytes k)) u = Ok r u" "r = 0 \<longleftrightarrow> name14 (drop 2 (entry ?bytes k)) = name14 name"
      using nm [OF k] by blast
    show "wp False (f (of_nat (16 * k))) (\<lambda>r u. r = None \<and> I u) (\<lambda>_. False) t" if "\<not> matches ?bytes name k"
      using that u r by (auto simp: f_def wp_def matches_def)
    show "wp False (f (of_nat (16 * k))) (\<lambda>r u. \<exists>x. r = Some x \<and> R k x u) (\<lambda>_. False) t" if "matches ?bytes name k"
    proof -
      let ?m = "ucast (get16 (entry ?bytes k) 0) :: u32"
      have iu: "inodes u = inodes s" "calm me u" "disk u = disk s" using u(2) cinvD(1) by (auto simp: I_def)
      then obtain i where i: "iget_slot d ?m (inodes u) = Some i" using free [of ?m] by auto
      obtain ip where "iget d ?m u = Ok i (u\<lparr>inodes := (inodes u)[i := ip]\<rparr>)" "i < length (inodes u)" "idev ip = d"
        "inum ip = ?m" "iref ip = iref (inodes u ! i) + 1"
        using iget_run [OF iu(2) i] by blast
      then show ?thesis using that u(1) r iu by (auto simp: f_def wp_def matches_def R_def)
    qed
  qed
  moreover have "dirlookup j name s = search [0..<?n] (\<lambda>k. f (of_nat (16 * k))) s"
  proof -
    have "dir_offs (isize ?ip) = map (\<lambda>k. of_nat (16 * k)) [0..<?n]" using assms(7) by (auto simp: dir_offs_def dvd_def)
    moreover have "search (map g xs) h = search xs (\<lambda>k. h (g k))" for g :: "nat \<Rightarrow> u32" and h :: "u32 \<Rightarrow> (nat \<times> u32) option km" and xs
      by (induction xs) (simp_all cong: option.case_cong)
    ultimately show ?thesis using assms(3,4,6) by (simp add: dirlookup_def f_def [abs_def] cong: if_cong)
  qed
  ultimately show ?thesis
    by (auto simp: wp_def R_def I_def split: outcome.splits option.splits)
qed

text \<open>A directory with the entries \<^verbatim>\<open>.\<close> and \<^verbatim>\<open>ab\<close> in block 50.\<close>

definition demo_entries :: "u8 list" where
  "demo_entries = [1, 0, 46, 0, 0, 0, 0, 0, 0, 0, 0, 0, 0, 0, 0, 0, 7, 0, 97, 98, 0, 0, 0, 0, 0, 0, 0, 0, 0, 0, 0, 0]"

definition demo_dir :: kernel where
  "demo_dir = (demo_state (demo_entries @ replicate 992 0))\<lparr>inodes := [bss_inode\<lparr>idev := 1, inum := 1, iref := 1, ivalid := True,
     itype := 1, nlink := 1, isize := 32, addrs := 50 # replicate 12 0\<rparr>, bss_inode]\<rparr>"

theorem dirlookup_spec_witness:
  "\<exists>i ip t. dirlookup 0 ([97, 98] @ replicate 12 0) demo_dir = Ok (Some (i, 16)) t \<and> inodes t = (inodes demo_dir)[i := ip] \<and> inum ip = 7"
proof -
  let ?x = "demo_entries @ replicate 992 0"
  have lx: "length ?x = BSIZE" by (simp add: demo_entries_def)
  have c0: "cinv 1 3 {} {0} (demo_state ?x)" by (rule demo_state_cinv [OF lx])
  have c: "cinv 1 3 {} {0} demo_dir" unfolding demo_dir_def by (rule cinv_inodes(1) [OF c0])
  have v: "view 1 demo_dir 50 = ?x"
  proof -
    have "bufs (demo_state ?x) ! 0 = bss_buf\<lparr>bvalid := True, bdev := 1, blockno := 50, refcnt := 1, bprev := 30, bnext := 1, bdata := ?x\<rparr>"
      by (simp add: demo_state_def demo_bufs_def del: upt_Suc)
    then have "view 1 (demo_state ?x) 50 = ?x" using view_cached [OF cinvD(3) [OF c0], of 0] by simp
    then show ?thesis unfolding demo_dir_def cinv_inodes(2) [OF c0] .
  qed
  let ?ip = "inodes demo_dir ! 0"
  have ip: "idev ?ip = 1" "isize ?ip = 32" "addrs ?ip = 50 # replicate 12 0" "length (inodes demo_dir) = 2" "itype ?ip = 1"
    "\<exists>ip \<in> set (inodes demo_dir). iref ip = 0"
    by (simp_all add: demo_dir_def bss_inode_def)
  have b: "block_of ?ip (view 1 demo_dir) 0 = 50" by (simp add: block_of_def ip)
  have w: "whole ?ip (view 1 demo_dir)" using b by (simp add: whole_def allotted_def ip)
  have le: "length demo_entries = 32" by (simp add: demo_entries_def)
  have f: "file_bytes ?ip (view 1 demo_dir) = demo_entries"
  proof (rule nth_equalityI)
    fix i assume "i < length (file_bytes ?ip (view 1 demo_dir))"
    then have "i < 32" by (simp add: file_bytes_def ip)
    then show "file_bytes ?ip (view 1 demo_dir) ! i = demo_entries ! i"
      using b v le by (simp add: file_bytes_def file_byte_def ip nth_append del: upt_Suc)
  qed (simp add: file_bytes_def ip le)
  have m: "matches demo_entries ([97, 98] @ replicate 12 0) 1" "\<not> matches demo_entries ([97, 98] @ replicate 12 0) 0"
    by (simp_all add: matches_def entry_def demo_entries_def name14_def get16_def word_rcat_def)
  moreover have "[0..<unat (isize ?ip) div 16] = [0, 1]" by (simp add: ip upt_rec)
  ultimately have fd: "find (matches demo_entries ([97, 98] @ replicate 12 0)) [0..<unat (isize ?ip) div 16] = Some 1"
    by (simp only: find.simps if_True if_False)
  have n: "ucast (get16 (entry demo_entries 1) 0) = (7 :: u32)" by (simp add: entry_def demo_entries_def get16_def word_rcat_def)
  show ?thesis
    using dirlookup_spec [OF c _ _ _ w, of "[97, 98] @ replicate 12 0"] ip n unfolding f fd by auto
qed

end
