(* ===== verification/Paths.thy ===== *)
theory Paths
  imports Dir
begin

section \<open>Path names\<close>

text \<open>
  \<open>elements s\<close> is what a path name means: its parts between slashes, the empty ones left out.  It is the
  reference for \<open>skipelem\<close>, which takes one element off the front in place.
\<close>

primrec splits :: "u8 list \<Rightarrow> u8 list list" where
  "splits [] = [[]]"
| "splits (c # s) = (if c = 47 then [] # splits s else (c # hd (splits s)) # tl (splits s))"

definition elements :: "u8 list \<Rightarrow> u8 list list" where
  "elements s = filter (\<lambda>e. e \<noteq> []) (splits s)"

lemma splits_ne [simp]: "splits s \<noteq> []"
  by (cases s) auto

lemma splits_part:
  "47 \<notin> set e \<Longrightarrow> splits (e @ 47 # s) = e # splits s" "47 \<notin> set e \<Longrightarrow> splits e = [e]"
  by (induction e) auto

lemma elements_slash [simp]: "elements (47 # s) = elements s" "elements [] = []"
  by (simp_all add: elements_def)

lemma elements_skip: "elements (dropWhile (\<lambda>c. c = 47) s) = elements s"
  by (induction s) auto

lemma elements_part:
  assumes "s \<noteq> []" and "hd s \<noteq> 47"
  shows "elements s = takeWhile (\<lambda>c. c \<noteq> 47) s # elements (dropWhile (\<lambda>c. c \<noteq> 47) s)"
proof -
  let ?e = "takeWhile (\<lambda>c. c \<noteq> 47) s" and ?r = "dropWhile (\<lambda>c. c \<noteq> 47) s"
  have e: "47 \<notin> set ?e" by (auto dest: set_takeWhileD)
  have ne: "?e \<noteq> []" using assms by (cases s) auto
  show ?thesis
  proof (cases ?r)
    case Nil
    then have es: "?e = s" by (simp add: dropWhile_eq_Nil_conv)
    have "splits s = [s]" using splits_part(2) [OF e] unfolding es .
    then have "elements s = [s]" using assms(1) by (simp add: elements_def)
    then show ?thesis unfolding es Nil by simp
  next
    case (Cons c r)
    then have "c = 47" using hd_dropWhile [of "\<lambda>c. c \<noteq> 47" s] by force
    then have "splits s = ?e # splits r" using splits_part(1) [OF e, of r] Cons takeWhile_dropWhile_id [of "\<lambda>c. c \<noteq> 47" s] by simp
    then show ?thesis using ne Cons \<open>c = 47\<close> by (simp add: elements_def)
  qed
qed

lemma skip_slashes_eq: "0 \<in> set p \<Longrightarrow> skip_slashes p = Some (dropWhile (\<lambda>c. c = 47) p)"
  by (induction p) auto

lemma span_elem_eq:
  "0 \<in> set p \<Longrightarrow> span_elem p = Some (takeWhile (\<lambda>c. c \<noteq> 47) (cstr p), dropWhile (\<lambda>c. c \<noteq> 47 \<and> c \<noteq> 0) p)"
  by (induction p) (auto simp: cstr_def)

lemma cstr_skip: "0 \<in> set p \<Longrightarrow> cstr (dropWhile (\<lambda>c. c = 47) p) = dropWhile (\<lambda>c. c = 47) (cstr p) \<and> 0 \<in> set (dropWhile (\<lambda>c. c = 47) p)"
  by (induction p) (auto simp: cstr_def)

lemma cstr_span: "0 \<in> set p \<Longrightarrow> cstr (dropWhile (\<lambda>c. c \<noteq> 47 \<and> c \<noteq> 0) p) = dropWhile (\<lambda>c. c \<noteq> 47) (cstr p) \<and>
    0 \<in> set (dropWhile (\<lambda>c. c \<noteq> 47 \<and> c \<noteq> 0) p)"
  by (induction p) (auto simp: cstr_def)

lemma name14_put:
  assumes "0 \<notin> set e"
  shows "takeWhile (\<lambda>c. c \<noteq> 0) (take DIRSIZ (put_name e name)) = take DIRSIZ e"
proof (cases "DIRSIZ \<le> length e")
  case True
  then have "takeWhile (\<lambda>c. c \<noteq> 0) (take DIRSIZ e) = take DIRSIZ e"
    using assms by (auto simp: takeWhile_eq_all_conv dest: in_set_takeD)
  then show ?thesis using True by (simp add: put_name_def)
next
  case False
  then have "take DIRSIZ (e @ [0] @ drop (length e + 1) name) = e @ 0 # take (DIRSIZ - length e - 1) (drop (length e + 1) name)"
    by (cases "DIRSIZ - length e") auto
  moreover have "takeWhile (\<lambda>c. c \<noteq> 0) (e @ 0 # r) = e" for r using assms by (induction e) auto
  ultimately show ?thesis using False by (simp add: put_name_def)
qed

text \<open>C20: \<open>skipelem\<close> agrees with the reference: it answers with the null pointer exactly when the path has no
  elements left; otherwise the name holds the first element, cut off after 14 characters, and the rest of
  the path has the remaining elements.\<close>

theorem skipelem_elements:
  assumes "0 \<in> set p"
  shows "case elements (cstr p) of
      [] \<Rightarrow> skipelem p name = Some None
    | e # es \<Rightarrow> \<exists>r nm. skipelem p name = Some (Some (r, nm)) \<and> 0 \<in> set r \<and> elements (cstr r) = es \<and>
        takeWhile (\<lambda>c. c \<noteq> 0) (take DIRSIZ nm) = take DIRSIZ e"
proof -
  let ?q = "dropWhile (\<lambda>c. c = 47) p"
  have q: "skip_slashes p = Some ?q" "cstr ?q = dropWhile (\<lambda>c. c = 47) (cstr p)" "0 \<in> set ?q"
    using skip_slashes_eq [OF assms] cstr_skip [OF assms] by auto
  have el: "elements (cstr ?q) = elements (cstr p)" unfolding q(2) by (rule elements_skip)
  show ?thesis
  proof (cases "hd ?q = 0")
    case True
    then have "cstr ?q = []" using q(3) by (cases ?q) (auto simp: cstr_def)
    then show ?thesis using el q(1) True by (simp add: skipelem_def)
  next
    case False
    have ne: "cstr ?q \<noteq> []" "hd (cstr ?q) \<noteq> 47"
    proof -
      obtain c r where cr: "?q = c # r" using q(3) by (cases ?q) auto
      then have "c \<noteq> 47" using hd_dropWhile [of "\<lambda>c. c = 47" p] by force
      then show "cstr ?q \<noteq> []" "hd (cstr ?q) \<noteq> 47" using False cr by (simp_all add: cstr_def)
    qed
    let ?e = "takeWhile (\<lambda>c. c \<noteq> 47) (cstr ?q)" and ?r = "dropWhile (\<lambda>c. c \<noteq> 47 \<and> c \<noteq> 0) ?q"
    have r: "cstr ?r = dropWhile (\<lambda>c. c \<noteq> 47) (cstr ?q)" "0 \<in> set ?r" using cstr_span [OF q(3)] by auto
    let ?r' = "dropWhile (\<lambda>c. c = 47) ?r"
    have r': "skip_slashes ?r = Some ?r'" "cstr ?r' = dropWhile (\<lambda>c. c = 47) (cstr ?r)" "0 \<in> set ?r'"
      using skip_slashes_eq [OF r(2)] cstr_skip [OF r(2)] by auto
    have run: "skipelem p name = Some (Some (?r', put_name ?e name))"
      using False q(1) span_elem_eq [OF q(3)] r'(1) by (simp add: skipelem_def)
    have "elements (cstr p) = ?e # elements (cstr ?r)" using elements_part [OF ne] el r(1) by simp
    moreover have "elements (cstr ?r') = elements (cstr ?r)" unfolding r'(2) by (rule elements_skip)
    moreover have "0 \<notin> set ?e" by (auto simp: cstr_def dest!: set_takeWhileD)
    ultimately show ?thesis using run r'(3) name14_put [of ?e name] by simp
  qed
qed

theorem skipelem_elements_witness:
  "\<exists>r nm. skipelem [47, 47, 97, 47, 98, 0] (replicate 14 0) = Some (Some (r, nm)) \<and> elements (cstr r) = [[98]]"
  using skipelem_elements [of "[47, 47, 97, 47, 98, 0]" "replicate 14 0"]
  by (auto simp: cstr_def elements_def)

end
