(* ===== verification/Print.thy ===== *)
theory Print
  imports Console
begin

section \<open>Numbers in the kernel's printf\<close>

text \<open>
  \<open>to_digits\<close> is the reference: the digits of a number, most significant first.  \<open>said\<close> is the state after
  bytes went to the UART.
\<close>

fun to_digits :: "nat \<Rightarrow> nat \<Rightarrow> nat list" where
  "to_digits b x = (if b < 2 then [] else if x < b then [x] else to_digits b (x div b) @ [x mod b])"

declare to_digits.simps [simp del]

text \<open>The reference is right: digits below the base that make up the number, without a leading zero.\<close>

lemma to_digits_value:
  "2 \<le> b \<Longrightarrow> foldl (\<lambda>a d. a * b + d) 0 (to_digits b x) = x \<and> (\<forall>d \<in> set (to_digits b x). d < b) \<and>
    to_digits b x \<noteq> [] \<and> (0 < x \<longrightarrow> hd (to_digits b x) \<noteq> 0)"
proof (induction b x rule: to_digits.induct)
  case (1 b x)
  show ?case
  proof (cases "x < b")
    case True
    then show ?thesis using 1(2) by (subst (1 2 3 4) to_digits.simps) simp
  next
    case False
    have ih: "foldl (\<lambda>a d. a * b + d) 0 (to_digits b (x div b)) = x div b" "\<forall>d \<in> set (to_digits b (x div b)). d < b"
      "to_digits b (x div b) \<noteq> []" "hd (to_digits b (x div b)) \<noteq> 0"
      using 1 False by (auto simp: div_greater_zero_iff)
    have e: "to_digits b x = to_digits b (x div b) @ [x mod b]" using False 1(2) by (subst to_digits.simps) simp
    show ?thesis unfolding e using ih 1(2) by simp
  qed
qed

lemma to_digits_length: "2 \<le> b \<Longrightarrow> 0 < k \<Longrightarrow> x < b ^ k \<Longrightarrow> length (to_digits b x) \<le> k"
proof (induction b x arbitrary: k rule: to_digits.induct)
  case (1 b x)
  show ?case
  proof (cases "x < b")
    case True
    then show ?thesis using 1(2,3) by (subst to_digits.simps) simp
  next
    case False
    obtain j where j: "k = Suc j" using 1(3) by (cases k) auto
    have "j \<noteq> 0" using False 1(4) j by (cases j) auto
    moreover have "x div b < b ^ j" using 1(4) j by (simp add: less_mult_imp_div_less mult.commute)
    ultimately have "length (to_digits b (x div b)) \<le> j" using 1 False by simp
    then show ?thesis using False 1(2) j by (subst to_digits.simps) simp
  qed
qed

lemma digits_rev_eq: "2 \<le> b \<Longrightarrow> rev (digits_rev b x) = to_digits b x"
proof (induction b x rule: digits_rev.induct)
  case (1 b x)
  show ?case
  proof (cases "x < b")
    case True
    then show ?thesis using 1(2) by (subst digits_rev.simps, subst to_digits.simps) simp
  next
    case False
    then have "x div b \<noteq> 0" using 1(2) by (simp add: div_eq_0_iff)
    then show ?thesis using 1 False by (subst digits_rev.simps, subst to_digits.simps) simp
  qed
qed

definition said :: "u8 list \<Rightarrow> kernel \<Rightarrow> kernel" where
  "said bs s = s\<lparr>uart_st := (uart_st s)\<lparr>thr_out := thr_out (uart_st s) @ bs, thr_ready := thr_ready (uart_st s) - length bs\<rparr>\<rparr>"

lemma said_said: "said bs (said as s) = said (as @ bs) s"
  by (simp add: said_def)

lemma said_nil [simp]: "said [] s = s"
  by (simp add: said_def)

lemma said_cpu [simp]: "kcpu (said bs s) = kcpu s" "procs (said bs s) = procs s"
  by (simp_all add: said_def)

definition quiet :: "kernel \<Rightarrow> bool" where
  "quiet s \<longleftrightarrow> cpu_ok (kcpu s) \<and> settle (kcpu s) = kcpu s"

lemma uartputc_sync_run: "quiet s \<Longrightarrow> uartputc_sync c s = Ok () (said [c] s)"
proof -
  assume q: "quiet s"
  have "kpop_off ((said [c] s)\<lparr>kcpu := cpu_push (kcpu s)\<rparr>) = Ok () ((said [c] s)\<lparr>kcpu := settle (kcpu s)\<rparr>)"
    using q by (intro run_pop_push) (simp add: quiet_def)
  moreover have "(said [c] s)\<lparr>kcpu := settle (kcpu s)\<rparr> = said [c] s"
    using q by (cases s) (simp add: quiet_def said_def)
  moreover have "write_thr c (s\<lparr>kcpu := cpu_push (kcpu s)\<rparr>) = Ok () ((said [c] s)\<lparr>kcpu := cpu_push (kcpu s)\<rparr>)"
    by (cases s) (simp add: write_thr_def uart_mod_def said_def)
  ultimately show ?thesis by (simp add: uartputc_sync_def run_push_off)
qed

lemma consputc_run: "quiet s \<Longrightarrow> consputc (uint c) s = Ok () (said [c] s)"
  using uint_lt2p [of c] by (simp add: consputc_def BACKSPACE_def uartputc_sync_run)

lemma quiet_said [simp]: "quiet (said bs s) = quiet s"
  by (simp add: quiet_def)

lemma put_str_run: "quiet s \<Longrightarrow> foreach bs (\<lambda>c. consputc (uint c)) s = Ok () (said bs s)"
  by (induction bs arbitrary: s) (simp_all add: consputc_run said_said)

text \<open>The text of a number, and what \<open>printint\<close> keeps in its buffer.\<close>

definition num_text :: "nat \<Rightarrow> int \<Rightarrow> u8 list" where
  "num_text b x = (if x < 0 then [45] else []) @ map digit_char (to_digits b (nat \<bar>x\<bar>))"

lemma unat_neg:
  assumes "sint (x :: u64) < 0"
  shows "unat (- x) = nat (- sint x)"
proof -
  have x: "- x = word_of_int (- sint x)" by simp
  have "- sint x \<le> 2 ^ 63" using sint_ge [of x] by simp
  then have "uint (word_of_int (- sint x) :: u64) = - sint x"
    using assms by (subst uint_word_of_int) (simp add: mod_pos_pos_trivial)
  then have "uint (- x) = - sint x" by (simp only: x [symmetric])
  then show ?thesis by (metis nat_uint_eq)
qed

lemma unat_pos: "0 \<le> sint (x :: u64) \<Longrightarrow> unat x = nat (sint x)"
proof -
  assume p: "0 \<le> sint x"
  have "sint x < 2 ^ 63" using sint_lt [of x] by simp
  then have "uint x = sint x" using p uint_sint [of x] by (simp add: take_bit_int_eq_self)
  then show ?thesis by (metis nat_uint_eq)
qed

lemma printint_buf_text:
  assumes "2 \<le> b"
  shows "rev (printint_buf xx b sign) = num_text b (if sign then sint xx else uint xx)"
proof (cases "sign \<and> sint xx < 0")
  case True
  then show ?thesis using unat_neg [of xx] digits_rev_eq [OF assms] by (simp add: printint_buf_def Let_def num_text_def rev_map)
next
  case False
  then have "sign \<Longrightarrow> unat xx = nat (sint xx)" using unat_pos by auto
  then show ?thesis using False digits_rev_eq [OF assms] by (auto simp: printint_buf_def Let_def num_text_def rev_map)
qed

text \<open>\<open>printint\<close> prints a number as the reference writes it in the given base, with a minus sign when the
  number is signed and negative.  Its buffer has sixteen bytes: a longer text runs past the buffer's
  end, which C leaves undefined.\<close>

theorem printint_spec:
  assumes "quiet s" and "2 \<le> b"
  shows "printint xx b sign s =
    (let text = num_text b (if sign then sint xx else uint xx) in if length text \<le> 16 then Ok () (said text s) else Stuck)"
proof -
  have "length (printint_buf xx b sign) = length (num_text b (if sign then sint xx else uint xx))"
    unfolding printint_buf_text [OF assms(2), symmetric] by simp
  then show ?thesis
    using put_str_run [OF assms(1)] printint_buf_text [OF assms(2), of xx sign] by (simp add: printint_def Let_def)
qed

definition quiet_boot :: kernel where
  "quiet_boot = (bss_kernel (\<lambda>_. 0) (\<lambda>_. []))\<lparr>kcpu := \<lparr>cproc = None, cnoff = 0, cintena = False, csie = False, held = []\<rparr>\<rparr>"

lemma quiet_quiet_boot: "quiet quiet_boot"
  by (simp add: quiet_def quiet_boot_def cpu_ok_def settle_def)

theorem printint_spec_witness:
  "printint (-42) 10 True quiet_boot = Ok () (said [45, 52, 50] quiet_boot) \<and>
   printint 12345678901234567 10 True quiet_boot = Stuck"
proof -
  have t: "num_text 10 (-42) = [45, 52, 50]" "num_text 10 12345678901234567 =
      [49, 50, 51, 52, 53, 54, 55, 56, 57, 48, 49, 50, 51, 52, 53, 54, 55]"
    by (simp_all add: num_text_def to_digits.simps digit_char_def)
  have s: "sint (-42 :: u64) = -42" "sint (12345678901234567 :: u64) = 12345678901234567" by simp_all
  show ?thesis
    using printint_spec [OF quiet_quiet_boot, of 10 "-42" True] printint_spec [OF quiet_quiet_boot, of 10 12345678901234567 True]
    unfolding if_True s t Let_def by simp
qed

end
