(* ===== verification/Terminal.thy ===== *)
theory Terminal
  imports Calm Print
begin

section \<open>The terminal: output queue and line editing\<close>

text \<open>
  The UART driver's queue is first-in first-out; \<open>consoleintr\<close> edits a line the way a pair of byte lists
  is edited: the bytes a reader may have and the line being typed.
\<close>

subsection \<open>Output\<close>

definition uart_ok :: "uart \<Rightarrow> bool" where
  "uart_ok u \<longleftrightarrow> length (tx_buf u) = 32 \<and> unat (tx_w u - tx_r u) \<le> 32"

definition queued :: "uart \<Rightarrow> u8 list" where
  "queued u = ring 32 (tx_buf u) (tx_r u) (tx_w u)"

text \<open>The device takes \<open>n\<close> bytes from the queue.\<close>

definition sent :: "nat \<Rightarrow> uart \<Rightarrow> uart" where
  "sent n u = u\<lparr>tx_r := tx_r u + of_nat n, thr_out := thr_out u @ take n (queued u), thr_ready := thr_ready u - n\<rparr>"

lemma queued_one:
  assumes "tx_w u \<noteq> tx_r u"
  shows "queued u = tx_buf u ! unat (tx_r u mod 32) # queued (sent 1 u)" "sent 1 u = u\<lparr>tx_r := tx_r u + 1,
    thr_out := thr_out u @ [tx_buf u ! unat (tx_r u mod 32)], thr_ready := thr_ready u - 1\<rparr>"
proof -
  show 1: "queued u = tx_buf u ! unat (tx_r u mod 32) # queued (sent 1 u)"
    using uart_ring.ring_get [OF assms, of "tx_buf u"] by (simp add: queued_def sent_def unat_mod)
  show "sent 1 u = u\<lparr>tx_r := tx_r u + 1, thr_out := thr_out u @ [tx_buf u ! unat (tx_r u mod 32)], thr_ready := thr_ready u - 1\<rparr>"
  proof -
    have "take 1 (queued u) = [tx_buf u ! unat (tx_r u mod 32)]" by (subst 1) simp
    then show ?thesis by (simp add: sent_def)
  qed
qed

lemma sent_Suc:
  assumes "tx_w u \<noteq> tx_r u"
  shows "sent n (sent 1 u) = sent (Suc n) u"
  using queued_one(1) [OF assms] by (simp add: sent_def queued_def add.assoc)

definition locked_uart :: "kernel \<Rightarrow> kernel" where
  "locked_uart s = s\<lparr>kcpu := cpu_acq LUart (kcpu s)\<rparr>"

lemma uartstart_loop_run:
  "calm me s \<Longrightarrow> k = unat (tx_w (uart_st s) - tx_r (uart_st s)) \<Longrightarrow>
    \<exists>Q. uartstart_loop k (locked_uart s) = Ok () (locked_uart (s\<lparr>procs := Q, uart_st := sent (min k (thr_ready (uart_st s))) (uart_st s)\<rparr>)) \<and>
      woke me (procs s) Q"
proof (induction k arbitrary: s)
  case 0
  have "sent 0 (uart_st s) = uart_st s" by (simp add: sent_def)
  then show ?case by (intro exI [of _ "procs s"]) simp
next
  case (Suc k)
  let ?u = "uart_st s"
  have ne: "tx_w ?u \<noteq> tx_r ?u" using Suc.prems(2) by auto
  show ?case
  proof (cases "thr_ready ?u = 0")
    case True
    have "sent 0 ?u = ?u" by (simp add: sent_def)
    then show ?thesis using True by (intro exI [of _ "procs s"]) (simp add: locked_uart_def)
  next
    case False
    let ?s = "s\<lparr>procs := woken CUart s, uart_st := sent 1 ?u\<rparr>"
    have c: "calm me ?s" by (rule calm_woke [OF Suc.prems(1) woke_woken [OF Suc.prems(1)]]) simp_all
    have w: "wakeup CUart (s\<lparr>kcpu := cpu_acq LUart (kcpu s), uart_st := x\<rparr>) =
        Ok () (s\<lparr>kcpu := cpu_acq LUart (kcpu s), uart_st := x, procs := woken CUart s\<rparr>)" for x
      by (rule wakeup_locked [OF Suc.prems(1), where l = LUart]) simp_all
    have one: "uartstart_loop (Suc k) (locked_uart s) = uartstart_loop k (locked_uart ?s)"
    proof -
      have "locked_uart ?s = s\<lparr>kcpu := cpu_acq LUart (kcpu s), uart_st := sent 1 ?u, procs := woken CUart s\<rparr>"
        by (cases s) (simp add: locked_uart_def)
      then show ?thesis
        unfolding queued_one(2) [OF ne] using False w by (cases s) (simp add: locked_uart_def uart_mod_def write_thr_def Let_def)
    qed
    have "k = unat (tx_w (uart_st ?s) - tx_r (uart_st ?s))"
    proof -
      have "length (queued ?u) = Suc (length (queued (sent 1 ?u)))" using queued_one(1) [OF ne] by simp
      then show ?thesis using Suc.prems(2) by (simp add: queued_def)
    qed
    from Suc.IH [OF c this] obtain Q where Q: "uartstart_loop k (locked_uart ?s) =
        Ok () (locked_uart (?s\<lparr>procs := Q, uart_st := sent (min k (thr_ready (uart_st ?s))) (uart_st ?s)\<rparr>))" "woke me (procs ?s) Q"
      by blast
    have n: "Suc (min k (thr_ready (sent 1 ?u))) = min (Suc k) (thr_ready ?u)" using False by (simp add: sent_def)
    have "locked_uart (?s\<lparr>procs := Q, uart_st := sent (min k (thr_ready (uart_st ?s))) (uart_st ?s)\<rparr>) =
        locked_uart (s\<lparr>procs := Q, uart_st := sent (min (Suc k) (thr_ready ?u)) ?u\<rparr>)"
      using sent_Suc [OF ne, of "min k (thr_ready (sent 1 ?u))"] n by simp
    moreover have "woke me (procs s) Q" using woke_trans [OF woke_woken [OF Suc.prems(1)]] Q(2) by simp
    ultimately show ?thesis using one Q(1) by auto
  qed
qed

text \<open>C27: Output is in order and does not stall: \<open>uartputc\<close> waits while the queue is full; otherwise it adds
  the byte and returns after the device took all the bytes it was ready for, so that the bytes sent and
  the bytes queued together are those of before followed by the new one, and the queue is empty unless
  the device is busy.\<close>

theorem uartputc_fifo:
  assumes "calm me s" and "uart_ok (uart_st s)"
  shows "if length (queued (uart_st s)) = 32 then \<exists>t. uartputc c s = Blocked t \<and> uart_st t = uart_st s
    else \<exists>t. uartputc c s = Ok () t \<and> calm me t \<and> uart_ok (uart_st t) \<and>
      thr_out (uart_st t) @ queued (uart_st t) = thr_out (uart_st s) @ queued (uart_st s) @ [c] \<and>
      (queued (uart_st t) = [] \<or> thr_ready (uart_st t) = 0)"
proof -
  let ?u = "uart_st s"
  note C = calmD [OF assms(1)] and L = calm_locked [OF assms(1), of LUart]
  have len: "length (queued ?u) = unat (tx_w ?u - tx_r ?u)" by (simp add: queued_def)
  have full: "length (queued ?u) = 32 \<longleftrightarrow> tx_w ?u = tx_r ?u + 32" using uart_ring.ring_full [of "tx_w ?u" "tx_r ?u"] len by simp
  show ?thesis
  proof (cases "length (queued ?u) = 32")
    case True
    let ?t = "s\<lparr>kcpu := cpu_acq LUart (kcpu s)\<rparr>"
    have "sleep CUart LUart ?t = Blocked (?t\<lparr>procs := (procs ?t)[me := (procs ?t ! me)\<lparr>pchan := Some CUart, pstate := SLEEPING\<rparr>],
       kcpu := cpu_acq (LProc me) (cpu_rel LUart (kcpu ?t))\<rparr>)"
      using C by (subst sleep_run [where i = me]) (auto simp: procs_ok_def)
    then show ?thesis using True full C(7) by (simp add: uartputc_def sleep_wait_def)
  next
    case False
    then have lt: "unat (tx_w ?u - tx_r ?u) < 32" using assms(2) len by (simp add: uart_ok_def)
    let ?v = "?u\<lparr>tx_buf := (tx_buf ?u)[unat (tx_w ?u mod 32) := c], tx_w := tx_w ?u + 1\<rparr>"
    have q: "queued ?v = queued ?u @ [c]"
      using uart_ring.ring_put [OF lt, of "tx_buf ?u" c] assms(2) by (simp add: queued_def uart_ok_def unat_mod)
    let ?s = "s\<lparr>uart_st := ?v\<rparr>"
    have c: "calm me ?s" by (rule calm_same [OF assms(1)]) simp_all
    define k where "k = unat (tx_w ?v - tx_r ?v)"
    have k: "length (queued ?v) = k" by (simp add: queued_def k_def)
    obtain Q where Q: "uartstart_loop k (locked_uart ?s) = Ok () (locked_uart (?s\<lparr>procs := Q, uart_st := sent (min k (thr_ready ?v)) ?v\<rparr>))"
      "woke me (procs s) Q"
      using uartstart_loop_run [OF c, of k] by (auto simp: k_def)
    let ?n = "min k (thr_ready ?v)"
    let ?t = "s\<lparr>procs := Q, uart_st := sent ?n ?v\<rparr>"
    have run: "uartputc c s = Ok () ?t"
    proof -
      have 1: "locked_uart ?s = s\<lparr>kcpu := cpu_acq LUart (kcpu s), uart_st := ?v\<rparr>" by (cases s) (simp add: locked_uart_def)
      have "uartputc c s = bnd (uartstart_loop k) (\<lambda>_. release LUart) (locked_uart ?s)"
        unfolding 1 using False full C(7) by (simp add: uartputc_def uartstart_def uart_mod_def k_def)
      also have "\<dots> = Ok () ?t"
        using Q(1) L C by (simp add: locked_uart_def)
      finally show ?thesis .
    qed
    have ct: "calm me ?t" by (rule calm_woke [OF assms(1) Q(2)]) simp_all
    have "unat (tx_w ?v - tx_r ?v) \<le> 32" using k q len lt by (simp add: k_def)
    moreover have qs: "queued (sent ?n ?v) = drop ?n (queued ?v)"
      using uart_ring.ring_drop [of ?n "tx_w ?v" "tx_r ?v" "tx_buf ?v"] by (simp add: queued_def sent_def k_def)
    moreover have "length (queued (sent ?n ?v)) = unat (tx_w (sent ?n ?v) - tx_r (sent ?n ?v))" by (simp add: queued_def)
    ultimately have "uart_ok (sent ?n ?v)" using assms(2) k by (simp add: uart_ok_def k_def sent_def) 
    moreover have "thr_out (sent ?n ?v) @ queued (sent ?n ?v) = thr_out ?u @ queued ?u @ [c]" unfolding qs q [symmetric] by (simp add: sent_def)
    moreover have "queued (sent ?n ?v) = [] \<or> thr_ready (sent ?n ?v) = 0" unfolding qs using k by (auto simp: sent_def min_def)
    ultimately show ?thesis using run ct False by auto
  qed
qed

theorem uartputc_fifo_witness:
  "\<exists>s t. calm 3 s \<and> uartputc 65 s = Ok () t \<and> thr_out (uart_st t) @ queued (uart_st t) = [65]"
proof -
  let ?s = "(bss_kernel (\<lambda>_. 0) (\<lambda>_. []))\<lparr>kcpu := \<lparr>cproc = Some 3, cnoff = 0, cintena = True, csie = True, held = []\<rparr>\<rparr>"
  have u: "uart_st ?s = \<lparr>tx_buf = replicate 32 0, tx_w = 0, tx_r = 0, thr_ready = 1, thr_out = [], rhr_in = [], uart_regs = []\<rparr>"
    by (simp add: bss_kernel_def)
  have c: "calm 3 ?s" by (simp add: calm_def running_def procs_ok_def cpu_ok_def settle_def)
  have "uart_ok (uart_st ?s)" "queued (uart_st ?s) = []" unfolding u by (simp_all add: uart_ok_def queued_def)
  then show ?thesis using uartputc_fifo [OF c, of 65] c u by auto
qed

subsection \<open>Line editing\<close>

definition cons_ring_of :: "console \<Rightarrow> u8 list" where
  "cons_ring_of c = ring 128 (cons_buf c) (cons_r c) (cons_e c)"

definition ready :: "console \<Rightarrow> u8 list" where
  "ready c = take (unat (cons_w c - cons_r c)) (cons_ring_of c)"

definition typed :: "console \<Rightarrow> u8 list" where
  "typed c = drop (unat (cons_w c - cons_r c)) (cons_ring_of c)"

definition cons_ok :: "console \<Rightarrow> bool" where
  "cons_ok c \<longleftrightarrow> length (cons_buf c) = 128 \<and> unat (cons_w c - cons_r c) \<le> unat (cons_e c - cons_r c) \<and>
     unat (cons_e c - cons_r c) \<le> 128 \<and> 10 \<notin> set (typed c)"

text \<open>What a key does to the bytes that readers may have and to the line being typed.\<close>

definition edit :: "u8 \<Rightarrow> u8 list \<times> u8 list \<Rightarrow> u8 list \<times> u8 list" where
  "edit ch = (\<lambda>(a, b).
     if ch = 21 then (a, [])
     else if ch = 8 \<or> ch = 127 then (a, butlast b)
     else if ch \<noteq> 0 \<and> length a + length b < 128 then
       (let ch' = (if ch = 13 then 10 else ch) in
        if ch' = 10 \<or> ch' = 4 \<or> length a + length b = 127 then (a @ b @ [ch'], []) else (a, b @ [ch']))
     else (a, b))"

lemma ready_typed [simp]: "ready c @ typed c = cons_ring_of c"
  by (simp add: ready_def typed_def)

lemma cons_lengths:
  assumes "cons_ok c"
  shows "length (ready c) = unat (cons_w c - cons_r c)" "length (typed c) = unat (cons_e c - cons_w c)"
    "length (ready c) + length (typed c) = unat (cons_e c - cons_r c)" "typed c = [] \<longleftrightarrow> cons_e c = cons_w c"
proof -
  have le: "unat (cons_w c - cons_r c) \<le> unat (cons_e c - cons_r c)" using assms by (simp add: cons_ok_def)
  then show 1: "length (ready c) = unat (cons_w c - cons_r c)" by (simp add: ready_def cons_ring_of_def)
  have "cons_e c - cons_w c = (cons_e c - cons_r c) - (cons_w c - cons_r c)" by simp
  then have "unat (cons_e c - cons_w c) = unat (cons_e c - cons_r c) - unat (cons_w c - cons_r c)"
    using le by (simp only: unat_sub word_le_nat_alt)
  then show 2: "length (typed c) = unat (cons_e c - cons_w c)" by (simp add: typed_def cons_ring_of_def)
  show "length (ready c) + length (typed c) = unat (cons_e c - cons_r c)"
    using ready_typed [of c] by (metis cons_ring_of_def length_append length_ring)
  show "typed c = [] \<longleftrightarrow> cons_e c = cons_w c" using 2 by (metis eq_iff_diff_eq_0 length_0_conv unat_eq_0)
qed

lemma ring_back:
  fixes r e :: u32
  assumes "e \<noteq> r"
  shows "ring n d r (e - 1) = butlast (ring n d r e)" "last (ring n d r e) = d ! (unat (e - 1) mod n)"
proof -
  have ne: "e - r \<noteq> 0" using assms by simp
  have "e - 1 - r = (e - r) - 1" by simp
  then have u: "unat (e - 1 - r) = unat (e - r) - 1" by (simp only: unat_minus_one [OF ne])
  have p: "0 < unat (e - r)" using ne by (simp add: unat_gt_0)
  have up: "[0..<unat (e - r)] = [0..<unat (e - r) - 1] @ [unat (e - r) - 1]" using p by (metis Suc_pred' upt_Suc_append zero_le)
  show "ring n d r (e - 1) = butlast (ring n d r e)" unfolding ring_def u by (subst up) simp
  have "r + of_nat (unat (e - 1 - r)) = e - 1" by simp
  then show "last (ring n d r e) = d ! (unat (e - 1) mod n)" unfolding ring_def by (subst up) (simp add: u)
qed

text \<open>Taking back the last character typed.\<close>

lemma rubout:
  assumes "cons_ok c" and "cons_e c \<noteq> cons_w c"
  defines "c' \<equiv> c\<lparr>cons_e := cons_e c - 1\<rparr>"
  shows "cons_ok c'" "ready c' = ready c" "typed c' = butlast (typed c)"
    "cons_buf c ! unat ((cons_e c - 1) mod 128) = last (typed c)"
proof -
  note L = cons_lengths [OF assms(1)]
  have ne: "typed c \<noteq> []" using L(4) assms(2) by simp
  have er: "cons_e c \<noteq> cons_r c" using L(3) ne by (metis add_is_0 diff_self length_0_conv unat_0)
  have r: "cons_ring_of c' = butlast (cons_ring_of c)" unfolding cons_ring_of_def c'_def using ring_back(1) [OF er] by simp
  then have r': "cons_ring_of c' = ready c @ butlast (typed c)" using ne by (simp flip: ready_typed add: butlast_append)
  have k: "cons_w c' = cons_w c" "cons_r c' = cons_r c" by (simp_all add: c'_def)
  show 1: "ready c' = ready c" unfolding ready_def k r' using L(1) by (simp add: ready_def)
  show 2: "typed c' = butlast (typed c)" unfolding typed_def k r' using L(1) by (simp add: typed_def)
  have "unat (cons_e c' - cons_r c') = length (ready c) + (length (typed c) - 1)"
    using arg_cong [OF r', of length] by (simp add: cons_ring_of_def)
  then show "cons_ok c'" using assms(1) L ne 2 by (auto simp: cons_ok_def c'_def dest: in_set_butlastD)
  have "last (cons_ring_of c) = last (typed c)" using ne by (metis last_appendR ready_typed)
  then show "cons_buf c ! unat ((cons_e c - 1) mod 128) = last (typed c)"
    using ring_back(2) [OF er, of 128 "cons_buf c"] by (simp add: cons_ring_of_def unat_mod)
qed

lemma quiet_locked: "calm me s \<Longrightarrow> quiet (s\<lparr>kcpu := cpu_acq l (kcpu s), cons := c\<rparr>)"
  using calm_locked [of me s l] by (simp add: quiet_def)

lemma backspace_run: "quiet s \<Longrightarrow> consputc BACKSPACE s = Ok () (said [8, 32, 8] s)"
  by (simp add: consputc_def uartputc_sync_run said_said)

definition heard :: "console \<Rightarrow> u8 list \<Rightarrow> kernel \<Rightarrow> kernel" where
  "heard c bs s = said bs (s\<lparr>cons := c\<rparr>)"

lemma heard_simps [simp]:
  "cons (heard c bs s) = c" "kcpu (heard c bs s) = kcpu s" "procs (heard c bs s) = procs s" "quiet (heard c bs s) = quiet s"
  "said as (heard c bs s) = heard c (bs @ as) s" "(heard c bs s)\<lparr>cons := c'\<rparr> = heard c' bs s"
  by (simp_all add: heard_def said_def quiet_def)

lemma killed_line:
  assumes "cons_ok c"
  shows "cons_ok (c\<lparr>cons_e := cons_w c\<rparr>)" "ready (c\<lparr>cons_e := cons_w c\<rparr>) = ready c" "typed (c\<lparr>cons_e := cons_w c\<rparr>) = []"
proof -
  let ?d = "c\<lparr>cons_e := cons_w c\<rparr>"
  have r: "cons_ring_of ?d = ready c"
    using assms by (simp add: cons_ring_of_def ready_def ring_def take_map cons_ok_def)
  have l: "length (ready c) = unat (cons_w c - cons_r c)" by (rule cons_lengths(1) [OF assms])
  show "ready ?d = ready c" unfolding ready_def [of ?d] r using l by simp
  show t: "typed ?d = []" unfolding typed_def r using l by simp
  show "cons_ok ?d" unfolding cons_ok_def t using assms by (auto simp: cons_ok_def)
qed

lemma kill_line_run:
  "quiet s \<Longrightarrow> cons_ok c \<Longrightarrow> k = length (typed c) \<Longrightarrow> \<exists>bs'. kill_line k (heard c bs s) = Ok () (heard (c\<lparr>cons_e := cons_w c\<rparr>) bs' s)"
proof (induction k arbitrary: c bs)
  case 0
  then have "c\<lparr>cons_e := cons_w c\<rparr> = c" using cons_lengths(4) [of c] by simp
  then show ?case by auto
next
  case (Suc k)
  have e: "cons_e c \<noteq> cons_w c" using cons_lengths(4) [OF Suc.prems(2)] Suc.prems(3) by auto
  note R = rubout [OF Suc.prems(2) e]
  have "last (typed c) \<noteq> 10" using Suc.prems(2,3) by (metis cons_ok_def last_in_set length_0_conv nat.distinct(1))
  then have step: "kill_line (Suc k) (heard c bs s) = kill_line k (heard (c\<lparr>cons_e := cons_e c - 1\<rparr>) (bs @ [8, 32, 8]) s)"
    using e R(4) Suc.prems(1) by (simp add: cons_mod_def backspace_run)
  have "k = length (typed (c\<lparr>cons_e := cons_e c - 1\<rparr>))" using Suc.prems(3) R(3) by simp
  from Suc.IH [OF Suc.prems(1) R(1) this] show ?case unfolding step by simp
qed

text \<open>A character goes into the ring; the line is given to the readers at its end or when the ring is full.\<close>

definition stored :: "u8 \<Rightarrow> console \<Rightarrow> console" where
  "stored ch c = c\<lparr>cons_buf := (cons_buf c)[unat (cons_e c mod 128) := ch], cons_e := cons_e c + 1\<rparr>"

lemma stored_ring:
  assumes "cons_ok c" and "unat (cons_e c - cons_r c) < 128"
  shows "cons_ring_of (stored ch c) = cons_ring_of c @ [ch]" "cons_w (stored ch c) = cons_w c" "cons_r (stored ch c) = cons_r c"
    "unat (cons_e (stored ch c) - cons_r (stored ch c)) = unat (cons_e c - cons_r c) + 1" "length (cons_buf (stored ch c)) = 128"
proof -
  show 1: "cons_ring_of (stored ch c) = cons_ring_of c @ [ch]"
    using cons_ring.ring_put [OF assms(2), of "cons_buf c" ch] assms(1) by (simp add: cons_ring_of_def stored_def cons_ok_def)
  show "cons_w (stored ch c) = cons_w c" "cons_r (stored ch c) = cons_r c" "length (cons_buf (stored ch c)) = 128"
    using assms(1) by (simp_all add: stored_def cons_ok_def)
  show "unat (cons_e (stored ch c) - cons_r (stored ch c)) = unat (cons_e c - cons_r c) + 1"
    using arg_cong [OF 1, of length] by (simp add: cons_ring_of_def)
qed

lemma stored_typing:
  assumes "cons_ok c" and "unat (cons_e c - cons_r c) < 128" and "ch \<noteq> 10"
  shows "cons_ok (stored ch c)" "ready (stored ch c) = ready c" "typed (stored ch c) = typed c @ [ch]"
proof -
  note S = stored_ring [OF assms(1,2), of ch] and L = cons_lengths [OF assms(1)]
  have le: "unat (cons_w c - cons_r c) \<le> length (cons_ring_of c)" using assms(1) by (simp add: cons_ok_def cons_ring_of_def)
  show "ready (stored ch c) = ready c" unfolding ready_def S(1-3) using le by simp
  show t: "typed (stored ch c) = typed c @ [ch]" unfolding typed_def S(1-3) using le by simp
  then show "cons_ok (stored ch c)" using assms S(2-5) by (auto simp: cons_ok_def)
qed

lemma given:
  assumes "length (cons_buf c) = 128" and "unat (cons_e c - cons_r c) \<le> 128"
  shows "cons_ok (c\<lparr>cons_w := cons_e c\<rparr>)" "ready (c\<lparr>cons_w := cons_e c\<rparr>) = cons_ring_of c" "typed (c\<lparr>cons_w := cons_e c\<rparr>) = []"
proof -
  have r: "cons_ring_of (c\<lparr>cons_w := cons_e c\<rparr>) = cons_ring_of c" by (simp add: cons_ring_of_def)
  have l: "length (cons_ring_of c) = unat (cons_e c - cons_r c)" by (simp add: cons_ring_of_def)
  show "ready (c\<lparr>cons_w := cons_e c\<rparr>) = cons_ring_of c" unfolding ready_def r using l by simp
  show t: "typed (c\<lparr>cons_w := cons_e c\<rparr>) = []" unfolding typed_def r using l by simp
  show "cons_ok (c\<lparr>cons_w := cons_e c\<rparr>)" unfolding cons_ok_def t using assms by simp
qed

definition locked_cons :: "kernel \<Rightarrow> kernel" where
  "locked_cons s = s\<lparr>kcpu := cpu_acq LCons (kcpu s)\<rparr>"

text \<open>The state after the key, the lock given up.\<close>

definition typed_state :: "kernel \<Rightarrow> proc list \<Rightarrow> console \<Rightarrow> u8 list \<Rightarrow> kernel" where
  "typed_state s Q c bs = heard c bs (s\<lparr>procs := Q\<rparr>)"

lemma cons_unlock:
  assumes "calm me s"
  shows "release LCons (heard c bs (s\<lparr>procs := Q, kcpu := cpu_acq LCons (kcpu s)\<rparr>)) = Ok () (typed_state s Q c bs)"
proof -
  have "release LCons (heard c bs (s\<lparr>procs := Q, kcpu := cpu_acq LCons (kcpu s)\<rparr>)) =
      Ok () ((heard c bs (s\<lparr>procs := Q, kcpu := cpu_acq LCons (kcpu s)\<rparr>))\<lparr>kcpu := kcpu s\<rparr>)"
    using calm_locked [OF assms, of LCons] by simp
  then show ?thesis by (simp add: typed_state_def heard_def said_def)
qed

lemma cons_store_run:
  assumes c: "calm me s" and ok: "cons_ok (cons s)" and n: "unat (cons_e (cons s) - cons_r (cons s)) < 128"
  shows "\<exists>Q d. cons_store ch (heard (cons s) bs (s\<lparr>kcpu := cpu_acq LCons (kcpu s)\<rparr>)) =
      Ok () (heard d bs (s\<lparr>procs := Q, kcpu := cpu_acq LCons (kcpu s)\<rparr>)) \<and> woke me (procs s) Q \<and> cons_ok d \<and>
    (ready d, typed d) = (if ch = 10 \<or> ch = 4 \<or> length (ready (cons s)) + length (typed (cons s)) = 127
      then (ready (cons s) @ typed (cons s) @ [ch], []) else (ready (cons s), typed (cons s) @ [ch]))"
proof -
  let ?c = "cons s" and ?l = "s\<lparr>kcpu := cpu_acq LCons (kcpu s)\<rparr>"
  let ?d = "stored ch ?c"
  note S = stored_ring [OF ok n, of ch] and L = cons_lengths [OF ok]
  have e128: "cons_e ?d - cons_r ?d = 128 \<longleftrightarrow> length (ready ?c) + length (typed ?c) = 127"
    unfolding word_unat_eq_iff S(4) L(3) by simp
  have st: "cons_store ch (heard ?c bs ?l) = bnd (gets cons) (\<lambda>c. whenM (ch = 10 \<or> ch = 4 \<or> cons_e c - cons_r c = 128)
      (seq (cons_mod (\<lambda>c. c\<lparr>cons_w := cons_e c\<rparr>)) (wakeup CCons))) (heard ?d bs ?l)"
    by (simp add: cons_store_def cons_mod_def stored_def)
  show ?thesis
  proof (cases "ch = 10 \<or> ch = 4 \<or> length (ready ?c) + length (typed ?c) = 127")
    case True
    let ?g = "?d\<lparr>cons_w := cons_e ?d\<rparr>"
    have w: "wakeup CCons (heard ?g bs ?l) = Ok () ((heard ?g bs ?l)\<lparr>procs := woken CCons s\<rparr>)"
      by (rule wakeup_locked [OF c, where l = LCons]) simp_all
    have eq: "(heard ?g bs ?l)\<lparr>procs := woken CCons s\<rparr> = heard ?g bs (s\<lparr>procs := woken CCons s, kcpu := cpu_acq LCons (kcpu s)\<rparr>)"
      by (cases s) (simp add: heard_def said_def)
    have run: "cons_store ch (heard ?c bs ?l) = Ok () (heard ?g bs (s\<lparr>procs := woken CCons s, kcpu := cpu_acq LCons (kcpu s)\<rparr>))"
      unfolding st using True e128 w eq by (simp add: cons_mod_def)
    have "unat (cons_e ?d - cons_r ?d) \<le> 128" using S(4) n by simp
    then show ?thesis
      using run woke_woken [OF c] given [OF S(5)] S(1) True by (intro exI [of _ "woken CCons s"] exI [of _ ?g]) (simp flip: ready_typed)
  next
    case False
    have run: "cons_store ch (heard ?c bs ?l) = Ok () (heard ?d bs (s\<lparr>procs := procs s, kcpu := cpu_acq LCons (kcpu s)\<rparr>))"
      unfolding st using False e128 by simp
    then show ?thesis
      using stored_typing [OF ok n] False by (intro exI [of _ "procs s"] exI [of _ ?d]) auto
  qed
qed

text \<open>C28: \<open>consoleintr\<close> edits the line: for every key but the one that prints the process table, the bytes that
  readers may have and the line being typed change as \<open>edit\<close> says, in a ring of 128 bytes that is never
  overrun.\<close>

theorem consoleintr_edits:
  assumes "calm me s" and "cons_ok (cons s)" and "ch \<noteq> 16"
  shows "\<exists>t. consoleintr ch s = Ok () t \<and> calm me t \<and> cons_ok (cons t) \<and>
    (ready (cons t), typed (cons t)) = edit ch (ready (cons s), typed (cons s))"
proof -
  let ?c = "cons s" and ?l = "s\<lparr>kcpu := cpu_acq LCons (kcpu s)\<rparr>"
  note L = cons_lengths [OF assms(2)]
  have l: "?l = heard ?c [] ?l" by (simp add: heard_def)
  have q: "quiet ?l" using calm_locked [OF assms(1), of LCons] by (simp add: quiet_def)
  have fin: "\<exists>t. consoleintr ch s = Ok () t \<and> calm me t \<and> cons_ok (cons t) \<and> (ready (cons t), typed (cons t)) = edit ch (ready ?c, typed ?c)"
    if "consoleintr ch s = release LCons (heard d bs (s\<lparr>procs := Q, kcpu := cpu_acq LCons (kcpu s)\<rparr>))" "woke me (procs s) Q"
      "cons_ok d" "(ready d, typed d) = edit ch (ready ?c, typed ?c)" for d bs Q
  proof -
    have "calm me (typed_state s Q d bs)" by (rule calm_woke [OF assms(1) that(2)]) (simp_all add: typed_state_def)
    then show ?thesis using that cons_unlock [OF assms(1)] by (simp add: typed_state_def)
  qed
  note fin0 = fin [where Q = "procs s", simplified]
  have start: "consoleintr ch s = bnd (if ch = 16 then procdump
          else if ch = 21 then kill_line (unat (cons_e ?c - cons_w ?c))
          else if ch = 8 \<or> ch = 127 then
            whenM (cons_e ?c \<noteq> cons_w ?c) (seq (cons_mod (\<lambda>c. c\<lparr>cons_e := cons_e c - 1\<rparr>)) (consputc BACKSPACE))
          else whenM (ch \<noteq> 0 \<and> cons_e ?c - cons_r ?c < 128)
              (let ch = (if ch = 13 then 10 else ch) in seq (consputc (uint ch)) (cons_store ch))) (\<lambda>_. release LCons) (heard ?c [] ?l)"
    using calmD(7) [OF assms(1)] by (simp add: consoleintr_def flip: l)
  consider "ch = 21" | "ch = 8 \<or> ch = 127" | "ch \<noteq> 21" "ch \<noteq> 8" "ch \<noteq> 127" by blast
  then show ?thesis
  proof cases
    case 1
    obtain bs where k: "kill_line (length (typed ?c)) (heard ?c [] ?l) = Ok () (heard (?c\<lparr>cons_e := cons_w ?c\<rparr>) bs ?l)"
      using kill_line_run [OF q assms(2) refl] by blast
    show ?thesis
      by (rule fin0 [of "?c\<lparr>cons_e := cons_w ?c\<rparr>" bs]) (use 1 k start killed_line [OF assms(2)] L(2) in \<open>simp_all add: edit_def\<close>)
  next
    case 2
    show ?thesis
    proof (cases "cons_e ?c = cons_w ?c")
      case True
      then show ?thesis
        by (intro fin0 [of ?c "[]"]) (use 2 start L(4) assms(2) in \<open>auto simp: edit_def\<close>)
    next
      case False
      note R = rubout [OF assms(2) False]
      show ?thesis
        by (rule fin0 [of "?c\<lparr>cons_e := cons_e ?c - 1\<rparr>" "[8, 32, 8]"])
           (use 2 start False R q in \<open>auto simp: edit_def cons_mod_def backspace_run\<close>)
    qed
  next
    case 3
    show ?thesis
    proof (cases "ch \<noteq> 0 \<and> cons_e ?c - cons_r ?c < 128")
      case False
      then have "\<not> (ch \<noteq> 0 \<and> length (ready ?c) + length (typed ?c) < 128)" using L(3) by (simp add: word_less_nat_alt)
      then show ?thesis
        by (intro fin0 [of ?c "[]"]) (use 3 start False assms(2,3) in \<open>auto simp: edit_def\<close>)
    next
      case True
      then have n: "unat (cons_e ?c - cons_r ?c) < 128" by (simp add: word_less_nat_alt)
      let ?h = "if ch = 13 then 10 else ch"
      obtain Q d where S: "cons_store ?h (heard ?c [?h] ?l) = Ok () (heard d [?h] (s\<lparr>procs := Q, kcpu := cpu_acq LCons (kcpu s)\<rparr>))"
        "woke me (procs s) Q" "cons_ok d"
        "(ready d, typed d) = (if ?h = 10 \<or> ?h = 4 \<or> length (ready ?c) + length (typed ?c) = 127
          then (ready ?c @ typed ?c @ [?h], []) else (ready ?c, typed ?c @ [?h]))"
        using cons_store_run [OF assms(1,2) n, of ?h "[?h]"] by blast
      have e: "edit ch (ready ?c, typed ?c) = (if ?h = 10 \<or> ?h = 4 \<or> length (ready ?c) + length (typed ?c) = 127
          then (ready ?c @ typed ?c @ [?h], []) else (ready ?c, typed ?c @ [?h]))"
        using 3 True n L(3) by (simp add: edit_def Let_def)
      have "consoleintr ch s = bnd (cons_store ?h) (\<lambda>_. release LCons) (heard ?c [?h] ?l)"
        unfolding start using 3 True assms(3) consputc_run [of "heard ?c [] ?l" ?h] q by (simp add: Let_def)
      then have "consoleintr ch s = release LCons (heard d [?h] (s\<lparr>procs := Q, kcpu := cpu_acq LCons (kcpu s)\<rparr>))"
        using S(1) by simp
      then show ?thesis by (rule fin) (use S(2-4) e in simp_all)
    qed
  qed
qed

theorem consoleintr_edits_witness:
  "\<exists>s t. calm 3 s \<and> consoleintr 13 s = Ok () t \<and> (ready (cons t), typed (cons t)) = ([10], [])"
proof -
  let ?s = "(bss_kernel (\<lambda>_. 0) (\<lambda>_. []))\<lparr>kcpu := \<lparr>cproc = Some 3, cnoff = 0, cintena = True, csie = True, held = []\<rparr>\<rparr>"
  have u: "cons ?s = \<lparr>cons_buf = replicate 128 0, cons_r = 0, cons_w = 0, cons_e = 0\<rparr>" by (simp add: bss_kernel_def)
  have c: "calm 3 ?s" by (simp add: calm_def running_def procs_ok_def cpu_ok_def settle_def)
  have r: "ready (cons ?s) = []" "typed (cons ?s) = []" unfolding u by (simp_all add: ready_def typed_def cons_ring_of_def)
  then have "cons_ok (cons ?s)" unfolding cons_ok_def u by simp
  from consoleintr_edits [OF c this, of 13] obtain t where t: "consoleintr 13 ?s = Ok () t"
    "(ready (cons t), typed (cons t)) = edit 13 ([], [])" unfolding r by auto
  have "edit 13 ([], []) = ([10], [])" by (simp add: edit_def)
  then show ?thesis using c t by (intro exI [of _ ?s] exI [of _ t]) simp
qed

end
