(* ===== verification/Dispatch.thy ===== *)
theory Dispatch
  imports Trap Print Calm
begin

section \<open>System-call dispatch\<close>

text \<open>
  The dispatcher reads the call's number from the trap frame, stores the answer there, and prints a line for
  the calls that the process traces.
\<close>

subsection \<open>The two messages\<close>

lemma trace_format: "line ''%d: syscall %s -> %ld'' = [37, 100, 58, 32, 115, 121, 115, 99, 97, 108, 108, 32, 37, 115, 32, 45, 62, 32, 37, 108, 100, 10]"
  by (simp add: line_def bytes_of_def of_char_def)

lemma unknown_format: "line ''%d %s: unknown sys call %d'' =
    [37, 100, 32, 37, 115, 58, 32, 117, 110, 107, 110, 111, 119, 110, 32, 115, 121, 115, 32, 99, 97, 108, 108, 32, 37, 100, 10]"
  by (simp add: line_def bytes_of_def of_char_def)

definition dec_text :: "u64 \<Rightarrow> u8 list" where
  "dec_text v = num_text 10 (sint v)"

lemma printint_run: "quiet s \<Longrightarrow> length (dec_text v) \<le> 16 \<Longrightarrow> printint v 10 True s = Ok () (said (dec_text v) s)"
proof -
  assume q: "quiet s" and l: "length (dec_text v) \<le> 16"
  have r: "rev (printint_buf v 10 True) = dec_text v" using printint_buf_text [of 10 v True] by (simp add: dec_text_def)
  then have "length (printint_buf v 10 True) \<le> 16" using l by (metis length_rev)
  then show ?thesis using put_str_run [OF q] r by (simp add: printint_def Let_def)
qed

lemma consputc_lit: "quiet s \<Longrightarrow> consputc (numeral k) s = Ok () (said [numeral k] s)" if "(numeral k :: int) < 256"
  using that by (simp add: consputc_def BACKSPACE_def uartputc_sync_run)

lemma trace_loop:
  assumes "quiet s" and "length (dec_text (arg_int p)) \<le> 16" and "length (dec_text v) \<le> 16"
  shows "printf_loop (line ''%d: syscall %s -> %ld'') [PVal p, PStr (Some n), PVal v] s =
    Ok () (said (dec_text (arg_int p) @ [58, 32, 115, 121, 115, 99, 97, 108, 108, 32] @ n @ [32, 45, 62, 32] @ dec_text v @ [10]) s)"
  using assms
  by (simp add: trace_format conv_of_def fmt_at_def Let_def consputc_lit printint_run put_str_def put_str_run said_said)

lemma unknown_loop:
  assumes "quiet s" and "length (dec_text (arg_int p)) \<le> 16" and "length (dec_text (arg_int v)) \<le> 16"
  shows "printf_loop (line ''%d %s: unknown sys call %d'') [PVal p, PStr (Some n), PVal v] s =
    Ok () (said (dec_text (arg_int p) @ [32] @ n @ [58, 32, 117, 110, 107, 110, 111, 119, 110, 32, 115, 121, 115, 32, 99, 97, 108, 108, 32] @
      dec_text (arg_int v) @ [10]) s)"
  using assms
  by (simp add: unknown_format conv_of_def fmt_at_def Let_def consputc_lit printint_run put_str_def put_str_run said_said)

text \<open>An \<open>int\<close> has at most eleven characters, so only an answer of 64 bits can be too long.\<close>

lemma int_text_fits: "length (dec_text (arg_int v)) \<le> 16"
proof -
  have s: "sint (arg_int v) = sint (ucast v :: u32)" by (simp add: arg_int_def sint_up_scast is_up)
  have "nat \<bar>sint (ucast v :: u32)\<bar> < 10 ^ 10"
    using sint_ge [of "ucast v :: u32"] sint_lt [of "ucast v :: u32"] by simp
  then have "length (to_digits 10 (nat \<bar>sint (ucast v :: u32)\<bar>)) \<le> 10" by (intro to_digits_length) simp_all
  then show ?thesis unfolding dec_text_def num_text_def s length_append length_map
    by (cases "sint (ucast v :: u32) < 0") simp_all
qed

subsection \<open>The call\<close>

lemma printf_calm:
  assumes c: "calm me s" and p: "\<And>t. quiet t \<Longrightarrow> printf_loop fmt as t = Ok () (said bs t)"
  shows "printf fmt as s = Ok () (said bs s)"
proof -
  let ?l = "s\<lparr>kcpu := cpu_acq LPr (kcpu s)\<rparr>"
  have "quiet ?l" using calm_locked [OF c, of LPr] by (simp add: quiet_def)
  moreover have "(said bs ?l)\<lparr>kcpu := kcpu s\<rparr> = said bs s" by (cases s) (simp add: said_def)
  ultimately show ?thesis using p [of ?l] calmD(7) [OF c] calm_locked [OF c, of LPr] by (simp add: printf_def)
qed

definition trace_line :: "proc \<Rightarrow> nat \<Rightarrow> u64 \<Rightarrow> u8 list" where
  "trace_line p n r = dec_text (arg_int (word_of_int (pid p))) @ [58, 32, 115, 121, 115, 99, 97, 108, 108, 32] @
     bytes_of (syscallnames ! n) @ [32, 45, 62, 32] @ dec_text r @ [10]"

definition call_number :: "proc \<Rightarrow> kernel \<Rightarrow> int" where
  "call_number p s = sint (ucast (load64 (mem s) (trapframe p + TF_a7)) :: u32)"

definition answered :: "u64 \<Rightarrow> proc \<Rightarrow> kernel \<Rightarrow> kernel" where
  "answered r p s = s\<lparr>mem := store64 (mem s) (trapframe p + TF_a0) r\<rparr>"

lemma syscall_start:
  assumes "calm me s"
  shows "syscall pad s =
    (let p = procs s ! me; num = call_number p s in
     if num > 0 \<and> num < 24 then
       bnd (syscalls pad ! (nat num - 1)) (\<lambda>r.
       bnd (proc_get me) (\<lambda>p.
       seq (st64 (trapframe p + TF_a0) r) (
       whenM (trace_mask p AND push_bit (nat num) 1 \<noteq> 0)
         (bnd (ld64 (trapframe p + TF_a0)) (\<lambda>a0.
          printf (line ''%d: syscall %s -> %ld'')
            [PVal (word_of_int (pid p)), PStr (Some (bytes_of (syscallnames ! nat num))), PVal a0]))))) s
     else
       seq (printf (line ''%d %s: unknown sys call %d'')
              [PVal (word_of_int (pid p)), PStr (Some (takeWhile (\<lambda>c. c \<noteq> 0) (pname p))), PVal (word_of_int num)])
           (st64 (trapframe p + TF_a0) (-1)) s)"
  using calmD [OF assms] by (simp add: syscall_def ld64_def call_number_def Let_def)

text \<open>
  C13: a system call with a number of the table stores what its handler answers in \<^verbatim>\<open>a0\<close> of the trap frame, and
  prints the process, the name of the call and the answer exactly when the bit of the call is set in the trace
  mask after the handler ran (so that \<open>trace\<close> traces itself).  An answer of more than sixteen characters must not be traced:
  it overruns the buffer of \<open>printint\<close>.
\<close>

theorem syscall_traced:
  assumes "calm me s" and "call_number (procs s ! me) s = int n" and "0 < n" and "n < 24"
    and "(syscalls pad ! (n - 1)) s = Ok r t" and "calm me t"
    and "length (dec_text r) \<le> 16 \<or> trace_mask (procs t ! me) AND push_bit n 1 = 0"
  shows "syscall pad s =
    (let p = procs t ! me; u = answered r p t in
     Ok () (if trace_mask p AND push_bit n 1 = 0 then u else said (trace_line p n r) u))"
proof -
  let ?p = "procs t ! me"
  let ?u = "answered r ?p t"
  note T = calmD [OF assms(6)]
  have u: "calm me ?u" by (rule calm_same [OF assms(6)]) (simp_all add: answered_def)
  have a: "load64 (mem ?u) (trapframe ?p + TF_a0) = r" by (simp add: answered_def load64_store64)
  have "syscall pad s = (whenM (trace_mask ?p AND push_bit n 1 \<noteq> 0)
      (printf (line ''%d: syscall %s -> %ld'') [PVal (word_of_int (pid ?p)), PStr (Some (bytes_of (syscallnames ! n))), PVal r])) ?u"
    using assms(2-5) T a by (simp add: syscall_start [OF assms(1)] Let_def st64_def ld64_def answered_def [symmetric] whenM_def)
  moreover have "printf (line ''%d: syscall %s -> %ld'') [PVal (word_of_int (pid ?p)), PStr (Some (bytes_of (syscallnames ! n))), PVal r] ?u =
      Ok () (said (trace_line ?p n r) ?u)" if "length (dec_text r) \<le> 16"
    unfolding trace_line_def by (rule printf_calm [OF u], rule trace_loop) (use that int_text_fits in simp_all)
  ultimately show ?thesis using assms(7) by (auto simp: Let_def whenM_def)
qed

text \<open>Process 3 has pid 7 and traces \<open>getpid\<close>, number 11.\<close>

definition demo_call :: "u64 \<Rightarrow> kernel" where
  "demo_call n = (let s = bss_kernel (\<lambda>_. 0) (\<lambda>_. []) in
     s\<lparr>kcpu := \<lparr>cproc = Some 3, cnoff = 0, cintena = True, csie = True, held = []\<rparr>,
       procs := (procs s)[3 := (procs s ! 3)\<lparr>pid := 7, trapframe := 0x87000000, trace_mask := 0x800\<rparr>],
       mem := store64 (mem s) (0x87000000 + TF_a7) n\<rparr>)"

lemma demo_call_facts:
  "calm 3 (demo_call n)" "procs (demo_call n) ! 3 = (procs (bss_kernel (\<lambda>_. 0) (\<lambda>_. [])) ! 3)\<lparr>pid := 7, trapframe := 0x87000000, trace_mask := 0x800\<rparr>"
  "load64 (mem (demo_call n)) (0x87000000 + TF_a7) = n" "length (procs (demo_call n)) = NPROC" "kcpu (demo_call n) = \<lparr>cproc = Some 3, cnoff = 0, cintena = True, csie = True, held = []\<rparr>"
  by (simp_all add: demo_call_def Let_def calm_def running_def procs_ok_def cpu_ok_def settle_def load64_store64)

theorem syscall_traced_witness:
  "\<exists>t. syscall [] (demo_call 11) = Ok () t \<and> thr_out (uart_st t) =
     line ''7: syscall getpid -> 7''"
proof -
  let ?s = "demo_call 11" and ?p = "procs (demo_call 11) ! 3"
  note F = demo_call_facts [of 11]
  have n: "call_number ?p ?s = int 11" using F(3) by (simp add: call_number_def F(2))
  have g: "(syscalls [] ! (11 - 1)) ?s = Ok 7 ?s"
    using F by (simp add: syscalls_def sys_getpid_def mine_def proc_get_def settle_def cpu_ok_def)
  have d: "dec_text 7 = [55]" by (simp add: dec_text_def num_text_def to_digits.simps digit_char_def)
  have t: "trace_line ?p 11 7 = line ''7: syscall getpid -> 7''"
    using d by (simp add: trace_line_def F(2) arg_int_def line_def bytes_of_def syscallnames_def of_char_def)
  have o: "thr_out (uart_st ?s) = []" by (simp add: demo_call_def Let_def bss_kernel_def)
  show ?thesis
    using syscall_traced [OF F(1) n _ _ g F(1)] d t by (simp add: F(2) said_def answered_def o Let_def)
qed

text \<open>
  A number outside the table changes nothing but \<^verbatim>\<open>a0\<close>, which becomes -1; a line with the process,
  its name and the number is printed.  The number is an \<^verbatim>\<open>int\<close>: only the low 32 bits of \<^verbatim>\<open>a7\<close> count.
\<close>

theorem syscall_unknown:
  assumes "calm me s" and "p = procs s ! me" and "num = call_number p s" and "num \<le> 0 \<or> 24 \<le> num"
  shows "syscall pad s = Ok () (answered (-1) p (said
    (dec_text (arg_int (word_of_int (pid p))) @ [32] @ takeWhile (\<lambda>c. c \<noteq> 0) (pname p) @
     [58, 32, 117, 110, 107, 110, 111, 119, 110, 32, 115, 121, 115, 32, 99, 97, 108, 108, 32] @ dec_text (arg_int (word_of_int num)) @ [10]) s))"
proof -
  have "printf (line ''%d %s: unknown sys call %d'')
      [PVal (word_of_int (pid p)), PStr (Some (takeWhile (\<lambda>c. c \<noteq> 0) (pname p))), PVal (word_of_int num)] s =
    Ok () (said (dec_text (arg_int (word_of_int (pid p))) @ [32] @ takeWhile (\<lambda>c. c \<noteq> 0) (pname p) @
     [58, 32, 117, 110, 107, 110, 111, 119, 110, 32, 115, 121, 115, 32, 99, 97, 108, 108, 32] @ dec_text (arg_int (word_of_int num)) @ [10]) s)"
    by (rule printf_calm [OF assms(1)], rule unknown_loop) (use int_text_fits in simp_all)
  then show ?thesis
    using assms(2-4) by (auto simp: syscall_start [OF assms(1)] Let_def st64_def answered_def said_def)
qed

theorem syscall_unknown_witness:
  "\<exists>t. syscall [] (demo_call 0x100000063) = Ok () t \<and> load64 (mem t) (0x87000000 + TF_a0) = -1"
proof -
  let ?s = "demo_call 0x100000063"
  note F = demo_call_facts [of "0x100000063"]
  have n: "call_number (procs ?s ! 3) ?s = 99" using F(3) by (simp add: call_number_def F(2))
  show ?thesis
    using syscall_unknown [OF F(1) refl refl, of "[]"] n by (simp add: F(2) answered_def load64_store64 said_def)
qed

end
