(* ===== verification/Fair.thy ===== *)
theory Fair
  imports Sched
begin

section \<open>No process is passed over\<close>

text \<open>
  The scheduler looks at every slot of the table in each pass.  What a process does when it runs is
  described by a goal \<open>G\<close> of the state: \<open>j\<close> reaches it in its own run, the other processes keep it.
  \<open>served G j is t\<close> holds in a scan with the slots \<open>is\<close> left.
\<close>

definition served :: "(kernel \<Rightarrow> bool) \<Rightarrow> nat \<Rightarrow> nat list \<Rightarrow> kernel \<Rightarrow> bool" where
  "served G j is t \<longleftrightarrow> idle t \<and> (G t \<or> j \<in> set is \<and> pstate (procs t ! j) = RUNNABLE)"

definition stable :: "(kernel \<Rightarrow> bool) \<Rightarrow> bool" where
  "stable G \<longleftrightarrow> (\<forall>t c. G t \<longrightarrow> G (t\<lparr>kcpu := c\<rparr>)) \<and>
     (\<forall>t i. G t \<longrightarrow> G (t\<lparr>procs := (procs t)[i := (procs t ! i)\<lparr>pstate := RUNNING\<rparr>]\<rparr>))"

text \<open>What the processes do: \<open>other\<close> keeps \<open>j\<close> runnable, \<open>own\<close> reaches the goal, \<open>keep\<close> preserves it.\<close>

definition serves :: "(nat \<Rightarrow> unit km) \<Rightarrow> (kernel \<Rightarrow> bool) \<Rightarrow> nat \<Rightarrow> bool" where
  "serves run G j \<longleftrightarrow>
     (\<forall>i t. i < NPROC \<and> i \<noteq> j \<and> on_cpu i t \<and> pstate (procs t ! j) = RUNNABLE \<longrightarrow>
        wp False (run i) (\<lambda>_ u. off_cpu i u \<and> pstate (procs u ! j) = RUNNABLE) (\<lambda>_. False) t) \<and>
     (\<forall>t. on_cpu j t \<longrightarrow> wp False (run j) (\<lambda>_ u. off_cpu j u \<and> G u) (\<lambda>_. False) t) \<and>
     (\<forall>i t. i < NPROC \<and> on_cpu i t \<and> G t \<longrightarrow> wp False (run i) (\<lambda>_ u. off_cpu i u \<and> G u) (\<lambda>_. False) t)"

lemma idleD:
  assumes "idle s"
  shows "cpu_ok (kcpu s)" "length (procs s) = NPROC" "held (kcpu s) = []" "cnoff (kcpu s) = 0"
    "cproc (kcpu s) = None" "\<forall>p \<in> set (procs s). pstate p \<noteq> RUNNING"
  using assms by (auto simp: idle_def procs_ok_def)

abbreviation chosen :: "nat \<Rightarrow> kernel \<Rightarrow> kernel" where
  "chosen i s \<equiv> s\<lparr>procs := (procs s)[i := (procs s ! i)\<lparr>pstate := RUNNING\<rparr>],
     kcpu := (cpu_acq (LProc i) (kcpu s))\<lparr>cproc := Some i\<rparr>\<rparr>"

lemma on_cpu_chosen:
  assumes "idle s" and "i < NPROC"
  shows "on_cpu i (chosen i s)"
proof -
  note S = idleD [OF assms(1)]
  have "cpu_ok ((cpu_acq (LProc i) (kcpu s))\<lparr>cproc := Some i\<rparr>)"
    using cpu_ok_acq [of "kcpu s" "LProc i"] S by (simp add: cpu_ok_def)
  then show ?thesis using S assms(2) by (auto simp: on_cpu_def procs_ok_def nth_list_update all_set_conv_all_nth)
qed

text \<open>The run of a chosen process leads from \<open>served\<close> to \<open>served\<close>, with its slot done.\<close>

lemma run_chosen:
  assumes "serves run G j" and "stable G" and "j < NPROC" and "served G j (i # is) s" and "i < NPROC"
  shows "wp False (run i) (\<lambda>_ u. off_cpu i u \<and> (G u \<or> j \<in> set is \<and> pstate (procs u ! j) = RUNNABLE)) (\<lambda>_. False) (chosen i s)"
proof -
  have s: "idle s" and on: "on_cpu i (chosen i s)"
    using assms(4,5) on_cpu_chosen by (auto simp: served_def)
  consider "G s" | "i = j" | "i \<noteq> j" "j \<in> set is" "pstate (procs s ! j) = RUNNABLE"
    using assms(4) by (auto simp: served_def)
  then show ?thesis
  proof cases
    case 1
    then have "G (s\<lparr>procs := (procs s)[i := (procs s ! i)\<lparr>pstate := RUNNING\<rparr>]\<rparr>)"
      using assms(2) by (simp add: stable_def)
    then have "G ((s\<lparr>procs := (procs s)[i := (procs s ! i)\<lparr>pstate := RUNNING\<rparr>]\<rparr>)\<lparr>kcpu := (cpu_acq (LProc i) (kcpu s))\<lparr>cproc := Some i\<rparr>\<rparr>)"
      using assms(2) unfolding stable_def by blast
    then have "G (chosen i s)" by simp
    then have "wp False (run i) (\<lambda>_ u. off_cpu i u \<and> G u) (\<lambda>_. False) (chosen i s)"
      using assms(1,5) on unfolding serves_def by blast
    then show ?thesis by (rule wp_conseq) simp_all
  next
    case 2
    then have "wp False (run i) (\<lambda>_ u. off_cpu i u \<and> G u) (\<lambda>_. False) (chosen i s)"
      using assms(1) on unfolding serves_def by blast
    then show ?thesis by (rule wp_conseq) simp_all
  next
    case 3
    then have "pstate (procs (chosen i s) ! j) = RUNNABLE" by simp
    then have "wp False (run i) (\<lambda>_ u. off_cpu i u \<and> pstate (procs u ! j) = RUNNABLE) (\<lambda>_. False) (chosen i s)"
      using assms(1,5) on 3(1) unfolding serves_def by blast
    then show ?thesis by (rule wp_conseq) (simp_all add: 3)
  qed
qed

lemma sched_scan_served:
  assumes "serves run G j" and "stable G" and "j < NPROC"
  shows "set is \<subseteq> {..<NPROC} \<Longrightarrow> served G j is s \<Longrightarrow>
    wp False (sched_scan run is found) (\<lambda>_ t. idle t \<and> G t) (\<lambda>_. False) s"
proof (induction "is" arbitrary: s found)
  case Nil
  then show ?case by (simp add: served_def)
next
  case (Cons i "is")
  have i: "i < NPROC" and s: "idle s" using Cons.prems by (auto simp: served_def)
  note S = idleD [OF s]
  have ih: "served G j is t \<Longrightarrow> wp False (sched_scan run is f) (\<lambda>_ t. idle t \<and> G t) (\<lambda>_. False) t" for t f
    using Cons by simp
  have G_cpu: "G t \<Longrightarrow> G (t\<lparr>kcpu := c\<rparr>)" for t c using assms(2) by (simp add: stable_def)
  show ?case
  proof (cases "pstate (procs s ! i) = RUNNABLE")
    case True
    have rejoin: "wp False (release (LProc i)) (\<lambda>_. wp False (sched_scan run is True) (\<lambda>_ t. idle t \<and> G t) (\<lambda>_. False))
        (\<lambda>_. False) (t\<lparr>kcpu := (kcpu t)\<lparr>cproc := None\<rparr>\<rparr>)"
      if "off_cpu i t \<and> (G t \<or> j \<in> set is \<and> pstate (procs t ! j) = RUNNABLE)" for t
    proof -
      have "served G j is (t\<lparr>kcpu := cpu_rel (LProc i) ((kcpu t)\<lparr>cproc := None\<rparr>)\<rparr>)"
        using that idle_release [of i t] G_cpu by (auto simp: served_def)
      then show ?thesis using that ih idle_release [of i t] by (simp add: off_cpu_def)
    qed
    show ?thesis
      using True S i
      by (simp add: cpu_mod_def) (rule wp_conseq [OF run_chosen [OF assms Cons.prems(2) i]]; simp add: rejoin)
  next
    case False
    have "idle (s\<lparr>kcpu := settle (kcpu s)\<rparr>)" using s by (simp add: idle_def procs_ok_def)
    then have "served G j is (s\<lparr>kcpu := settle (kcpu s)\<rparr>)"
      using Cons.prems(2) False G_cpu by (auto simp: served_def)
    then show ?thesis using False S i ih by simp
  qed
qed

text \<open>
  C12: a pass of the scheduler serves every runnable process.  If slot \<open>j\<close> is runnable when the pass
  begins, the other processes leave it runnable and come back as \<open>sched\<close> checks, and the run of \<open>j\<close>
  reaches a goal that the others keep, then the pass ends without panic in a state with the goal: \<open>j\<close> ran.
\<close>

theorem scheduler_serves:
  assumes "idle s" and "j < NPROC" and "pstate (procs s ! j) = RUNNABLE" and "serves run G j" and "stable G"
    and "\<And>t a b. G t \<Longrightarrow> G (t\<lparr>runnable_procs := a, loadavg := b\<rparr>)"
  shows "\<exists>t. scheduler_pass run s = Ok () t \<and> idle t \<and> G t"
proof -
  have idle_sie: "idle (t\<lparr>kcpu := (kcpu t)\<lparr>csie := b\<rparr>\<rparr>)" if "idle t" for t b
    using that by (auto simp: idle_def procs_ok_def cpu_ok_def)
  have G_cpu: "G t \<Longrightarrow> G (t\<lparr>kcpu := c\<rparr>)" for t c using assms(5) by (simp add: stable_def)
  have "idle (s\<lparr>runnable_procs := a, loadavg := b, kcpu := (kcpu s)\<lparr>csie := True\<rparr>\<rparr>)" for a b
    using assms(1) by (auto simp: idle_def procs_ok_def cpu_ok_def)
  then have "served G j [0..<NPROC] (s\<lparr>runnable_procs := a, loadavg := b, kcpu := (kcpu s)\<lparr>csie := True\<rparr>\<rparr>)" for a b
    using assms(2,3) by (simp add: served_def)
  then have "wp False (scheduler_pass run) (\<lambda>_ t. idle t \<and> G t) (\<lambda>_. False) s"
    unfolding scheduler_pass_def update_runnable_procs_def
    by (simp add: kintr_on_def cpu_mod_def)
      (rule wp_conseq [OF sched_scan_served [OF assms(4,5,2)]];
        auto simp: idle_sie G_cpu)
  then show ?thesis by (auto dest: wp_returns)
qed

text \<open>Slot 5 counts a tick when it runs, every other process just sleeps.\<close>

definition demo_run :: "nat \<Rightarrow> unit km" where
  "demo_run i = seq (whenM (i = 5) (modify (\<lambda>s. s\<lparr>ticks := 1\<rparr>))) (proc_mod i (\<lambda>p. p\<lparr>pstate := SLEEPING\<rparr>))"

theorem scheduler_serves_witness:
  "\<exists>s t. pstate (procs s ! 5) = RUNNABLE \<and> scheduler_pass demo_run s = Ok () t \<and> idle t \<and> ticks t = 1"
proof -
  let ?b = "bss_kernel (\<lambda>_. 0) (\<lambda>_. [])"
  let ?s = "?b\<lparr>procs := (procs ?b)[5 := (procs ?b ! 5)\<lparr>pstate := RUNNABLE\<rparr>]\<rparr>"
  have r: "wp False (demo_run i) (\<lambda>_ u. off_cpu i u \<and> (i = 5 \<or> ticks t = 1 \<longrightarrow> ticks u = 1) \<and>
      (i \<noteq> 5 \<longrightarrow> procs u ! 5 = procs t ! 5)) (\<lambda>_. False) t" if "i < NPROC" "on_cpu i t" for i t
    using that by (auto simp: demo_run_def on_cpu_def off_cpu_def procs_ok_def nth_list_update whenM_def)
  have "serves demo_run (\<lambda>t. ticks t = 1) 5"
    unfolding serves_def by (intro conjI allI impI; rule wp_conseq [OF r]; auto)
  moreover have "stable (\<lambda>t. ticks t = 1)" by (simp add: stable_def)
  moreover have "idle ?s"
    using set_update_subset_insert [of "procs ?b" 5 "(procs ?b ! 5)\<lparr>pstate := RUNNABLE\<rparr>"]
    by (auto simp: idle_def procs_ok_def cpu_ok_def bss_proc_def)
  moreover have "pstate (procs ?s ! 5) = RUNNABLE" by simp
  ultimately have "\<exists>t. scheduler_pass demo_run ?s = Ok () t \<and> idle t \<and> ticks t = 1"
    using scheduler_serves [of ?s 5 demo_run "\<lambda>t. ticks t = 1"] by auto
  then show ?thesis using \<open>pstate (procs ?s ! 5) = RUNNABLE\<close> by blast
qed

end
