(* ===== verification/Request.thy ===== *)
theory Request
  imports Virtio Calm
begin

section \<open>The life of a disk request\<close>

text \<open>
  \<open>free_ids\<close> are the descriptors that are free.  A request takes the first three of them, links them into
  a chain that the device reads, and gives them back when it is done.
\<close>

definition ring_ok :: "vdisk \<Rightarrow> bool" where
  "ring_ok d \<longleftrightarrow> length (vd_desc d) = 8 \<and> length (av_ring d) = 8 \<and> length (vd_free d) = 8 \<and>
     length (vd_info_b d) = 8 \<and> length (vd_info_status d) = 8 \<and> length (vd_ops d) = 8"

definition free_ids :: "bool list \<Rightarrow> nat list" where
  "free_ids fr = filter (\<lambda>i. fr ! i) [0..<length fr]"

lemma free_ids_Nil [simp]: "free_ids [] = []"
  by (simp add: free_ids_def)

lemma free_ids_Cons: "free_ids (x # fr) = (if x then [0] else []) @ map Suc (free_ids fr)"
proof -
  have "[0..<length (x # fr)] = 0 # map Suc [0..<length fr]" by (simp add: map_Suc_upt upt_conv_Cons del: upt_Suc)
  then show ?thesis by (simp add: free_ids_def filter_map o_def)
qed

lemma first_free: "first_idx (\<lambda>x. x) fr = (case free_ids fr of [] \<Rightarrow> None | i # _ \<Rightarrow> Some i)"
  by (induction fr) (auto simp: free_ids_Cons split: list.splits)

lemma free_ids_take: "free_ids fr = i # is \<Longrightarrow> free_ids (fr[i := False]) = is \<and> i < length fr \<and> fr ! i"
proof (induction fr arbitrary: i "is")
  case (Cons x fr)
  show ?case
  proof (cases x)
    case False
    then obtain j js where "free_ids fr = j # js" "i = Suc j" "is = map Suc js" using Cons.prems by (auto simp: free_ids_Cons)
    then show ?thesis using Cons.IH [of j js] False by (simp add: free_ids_Cons)
  qed (use Cons.prems in \<open>auto simp: free_ids_Cons\<close>)
qed simp

lemma free_ids_set: "i \<in> set (free_ids fr) \<longleftrightarrow> i < length fr \<and> fr ! i"
  by (auto simp: free_ids_def)

lemma free_ids_distinct: "distinct (free_ids fr)"
  by (simp add: free_ids_def)

subsection \<open>Taking and giving back a descriptor\<close>

lemma alloc_desc_run:
  "alloc_desc s = (case free_ids (vd_free (vdisk s)) of
     [] \<Rightarrow> Ok None s
   | i # _ \<Rightarrow> Ok (Some i) (s\<lparr>vdisk := (vdisk s)\<lparr>vd_free := (vd_free (vdisk s))[i := False]\<rparr>\<rparr>))"
  by (simp add: alloc_desc_def first_free vd_mod_def split: list.split)

text \<open>Inside the critical section of a process \<open>me\<close> that was calm in \<open>s\<close>; other processes may have been woken.\<close>

definition in_disk :: "nat \<Rightarrow> kernel \<Rightarrow> kernel \<Rightarrow> bool" where
  "in_disk me s t \<longleftrightarrow> calm me s \<and> kcpu t = cpu_acq LDisk (kcpu s) \<and> woke me (procs s) (procs t)"

definition blank :: virtq_desc where
  "blank = \<lparr>vq_addr = DmaNone, vq_len = 0, vq_flags = 0, vq_next = 0\<rparr>"

definition freed :: "nat \<Rightarrow> vdisk \<Rightarrow> vdisk" where
  "freed i d = d\<lparr>vd_desc := (vd_desc d)[i := blank], vd_free := (vd_free d)[i := True]\<rparr>"

lemma freed_fields [simp]:
  "vd_free (freed i d) = (vd_free d)[i := True]" "vd_desc (freed i d) = (vd_desc d)[i := blank]" "ring_ok (freed i d) = ring_ok d"
  by (simp_all add: freed_def ring_ok_def)

lemma free_desc_run:
  assumes "in_disk me s t" and "i < 8" and "\<not> vd_free (vdisk t) ! i"
  shows "\<exists>Q. free_desc i t = Ok () (t\<lparr>vdisk := freed i (vdisk t), procs := Q\<rparr>) \<and>
    in_disk me s (t\<lparr>vdisk := freed i (vdisk t), procs := Q\<rparr>)"
proof -
  let ?s = "s\<lparr>procs := procs t\<rparr>" and ?t = "t\<lparr>vdisk := freed i (vdisk t)\<rparr>"
  have c: "calm me ?s" using assms(1) by (intro calm_woke [of me s "procs t" ?s]) (auto simp: in_disk_def)
  have "wakeup CDiskFree ?t = Ok () (?t\<lparr>procs := woken CDiskFree ?s\<rparr>)"
    by (rule wakeup_locked [OF c, where l = LDisk]) (use assms(1) in \<open>auto simp: in_disk_def\<close>)
  moreover have "woke me (procs ?s) (woken CDiskFree ?s)" by (rule woke_woken [OF c])
  ultimately show ?thesis
    using assms woke_trans [of me "procs s" "procs t" "woken CDiskFree ?s"]
    by (intro exI [of _ "woken CDiskFree ?s"]) (simp add: free_desc_def vd_mod_def in_disk_def freed_def blank_def)
qed

text \<open>A chain of descriptors from \<open>i\<close> on, each with the flag that a next one follows but the last.\<close>

fun linked :: "virtq_desc list \<Rightarrow> nat \<Rightarrow> nat list \<Rightarrow> bool" where
  "linked ds i [] = (i < length ds \<and> vq_flags (ds ! i) AND 1 = 0)"
| "linked ds i (j # js) = (i < length ds \<and> vq_flags (ds ! i) AND 1 \<noteq> 0 \<and> unat (vq_next (ds ! i)) = j \<and> linked ds j js)"

lemma linked_update: "linked ds i js \<Longrightarrow> k \<notin> set (i # js) \<Longrightarrow> linked (ds[k := x]) i js"
  by (induction js arbitrary: i) auto

lemma free_chain_run:
  assumes "in_disk me s t" and "ring_ok (vdisk t)" and "linked (vd_desc (vdisk t)) i js"
    and "distinct (i # js)" and "\<forall>j \<in> set (i # js). \<not> vd_free (vdisk t) ! j" and "length js < k"
  shows "\<exists>Q. free_chain_loop k i t = Ok () (t\<lparr>vdisk := fold freed (i # js) (vdisk t), procs := Q\<rparr>) \<and>
    in_disk me s (t\<lparr>vdisk := fold freed (i # js) (vdisk t), procs := Q\<rparr>)"
  using assms
proof (induction js arbitrary: k i t)
  case Nil
  then obtain m where k: "k = Suc m" by (cases k) auto
  have "i < 8" using Nil.prems(2,3) by (simp add: ring_ok_def)
  then show ?case using free_desc_run [OF Nil.prems(1), of i] Nil.prems k by (auto simp: ring_ok_def)
next
  case (Cons j js)
  then obtain m where k: "k = Suc m" by (cases k) auto
  have i: "i < 8" "\<not> vd_free (vdisk t) ! i" using Cons.prems(2,3,5) by (auto simp: ring_ok_def)
  obtain Q where Q: "free_desc i t = Ok () (t\<lparr>vdisk := freed i (vdisk t), procs := Q\<rparr>)"
    "in_disk me s (t\<lparr>vdisk := freed i (vdisk t), procs := Q\<rparr>)" using free_desc_run [OF Cons.prems(1) i] by auto
  let ?t = "t\<lparr>vdisk := freed i (vdisk t), procs := Q\<rparr>"
  have "linked (vd_desc (vdisk ?t)) j js"
    using Cons.prems(3,4) by (simp add: linked_update)
  moreover have "ring_ok (vdisk ?t)" using Cons.prems(2) by simp
  moreover have "\<forall>j \<in> set (j # js). \<not> vd_free (vdisk ?t) ! j"
  proof
    fix k assume k: "k \<in> set (j # js)"
    then have "k \<noteq> i" using Cons.prems(4) by auto
    then show "\<not> vd_free (vdisk ?t) ! k" using k Cons.prems(5) by auto
  qed
  ultimately have "\<exists>R. free_chain_loop m j ?t = Ok () (?t\<lparr>vdisk := fold freed (j # js) (vdisk ?t), procs := R\<rparr>) \<and>
    in_disk me s (?t\<lparr>vdisk := fold freed (j # js) (vdisk ?t), procs := R\<rparr>)"
    by (intro Cons.IH [OF Q(2)]) (use Cons.prems(4,6) k in simp_all)
  then show ?case using Q(1) Cons.prems(2,3) i k by (auto simp: ring_ok_def)
qed

text \<open>
  \<open>leads ds i js k\<close>: from \<open>i\<close> the chain visits the descriptors \<open>js\<close>, each of the table and with the flag that a next one
  follows, and is then at \<open>k\<close>.
\<close>

fun leads :: "virtq_desc list \<Rightarrow> nat \<Rightarrow> nat list \<Rightarrow> nat \<Rightarrow> bool" where
  "leads ds i [] k = (i = k)"
| "leads ds i (j # js) k = (i = j \<and> i < 8 \<and> vq_flags (ds ! i) AND 1 \<noteq> 0 \<and> leads ds (unat (vq_next (ds ! i))) js k)"

lemma leads_update: "leads (ds[n := x]) i js k \<Longrightarrow> n \<notin> set js \<Longrightarrow> leads ds i js k"
  by (induction js arbitrary: i) auto

definition chain_freed :: "nat \<Rightarrow> kernel \<Rightarrow> kernel \<Rightarrow> nat list \<Rightarrow> nat \<Rightarrow> (kernel, unit) outcome \<Rightarrow> bool" where
  "chain_freed me s t js k r \<longleftrightarrow>
     (if k \<ge> 8 then r = Panic ''free_desc 1''
      else if vd_free (vdisk t) ! k \<or> k \<in> set js then r = Panic ''free_desc 2''
      else vq_flags (vd_desc (vdisk t) ! k) AND 1 = 0 \<and>
        (\<exists>u. r = Ok () u \<and> in_disk me s u \<and> vdisk u = fold freed (js @ [k]) (vdisk t)))"

text \<open>Every pass of the loop frees a descriptor that was in use, so nine passes end every chain.\<close>

lemma free_chain_ends:
  assumes "in_disk me s t" and "ring_ok (vdisk t)" and "length (filter Not (vd_free (vdisk t))) < n"
  shows "\<exists>js k. leads (vd_desc (vdisk t)) i js k \<and> distinct js \<and> (\<forall>j \<in> set js. \<not> vd_free (vdisk t) ! j) \<and>
    chain_freed me s t js k (free_chain_loop n i t)"
  using assms
proof (induction n arbitrary: i t)
  case (Suc n)
  let ?d = "vd_desc (vdisk t) ! i"
  consider "i \<ge> 8" | "i < 8" "vd_free (vdisk t) ! i" | "i < 8" "\<not> vd_free (vdisk t) ! i" by linarith
  then show ?case
  proof cases
    case 1
    then show ?thesis by (intro exI [of _ "[]"] exI [of _ i]) (simp add: chain_freed_def free_desc_def)
  next
    case 2
    then show ?thesis by (intro exI [of _ "[]"] exI [of _ i]) (simp add: chain_freed_def free_desc_def)
  next
    case 3
    obtain Q where Q: "free_desc i t = Ok () (t\<lparr>vdisk := freed i (vdisk t), procs := Q\<rparr>)"
      "in_disk me s (t\<lparr>vdisk := freed i (vdisk t), procs := Q\<rparr>)"
      using free_desc_run [OF Suc.prems(1) 3] by auto
    let ?t = "t\<lparr>vdisk := freed i (vdisk t), procs := Q\<rparr>"
    have l: "i < length (vd_free (vdisk t))" "i < length (vd_desc (vdisk t))" using Suc.prems(2) 3 by (auto simp: ring_ok_def)
    show ?thesis
    proof (cases "vq_flags ?d AND 1 = 0")
      case True
      then show ?thesis using Q 3 by (intro exI [of _ "[]"] exI [of _ i]) (simp add: chain_freed_def)
    next
      case False
      have "length (filter Not (vd_free (vdisk ?t))) < n"
        using length_filter_update [OF l(1), of Not True] 3 Suc.prems(3) by simp
      then obtain js k where I: "leads (vd_desc (vdisk ?t)) (unat (vq_next ?d)) js k" "distinct js"
        "\<forall>j \<in> set js. \<not> vd_free (vdisk ?t) ! j" "chain_freed me s ?t js k (free_chain_loop n (unat (vq_next ?d)) ?t)"
        using Suc.IH [OF Q(2), of "unat (vq_next ?d)"] Suc.prems(2) by auto
      have i: "i \<notin> set js" using I(3) l(1) by auto
      have "\<not> vd_free (vdisk t) ! j" if "j \<in> set (i # js)" for j
      proof (cases "j = i")
        case True
        then show ?thesis using 3 by simp
      next
        case False
        then have "j \<in> set js" using that by simp
        then show ?thesis using I(3) False by force
      qed
      then have "\<forall>j \<in> set (i # js). \<not> vd_free (vdisk t) ! j" by blast
      moreover have "leads (vd_desc (vdisk t)) i (i # js) k" using I(1) i 3 False by (simp add: leads_update)
      moreover have "free_chain_loop (Suc n) i t = free_chain_loop n (unat (vq_next ?d)) ?t" using Q False by simp
      moreover have "chain_freed me s t (i # js) k (free_chain_loop n (unat (vq_next ?d)) ?t)"
        using I(4) l by (auto simp: chain_freed_def nth_list_update split: if_splits)
      ultimately show ?thesis using I(2) i by (intro exI [of _ "i # js"] exI [of _ k]) simp
    qed
  qed
qed simp

text \<open>
  C26: \<open>free_chain\<close> ends on every descriptor table and every index, whatever the chain looks like.  It follows the
  chain through descriptors \<open>js\<close> that are in use, each once, up to a last index \<open>k\<close>.  If \<open>k\<close> lies behind the table it
  panics with \<^verbatim>\<open>free_desc 1\<close>; if descriptor \<open>k\<close> is free or was freed on the way (a cycle) it panics with \<^verbatim>\<open>free_desc 2\<close>;
  otherwise \<open>k\<close> has no next one and it returns with the lock of the disk held as before and exactly the descriptors
  of the chain blank and free.
\<close>

theorem free_chain_terminates:
  assumes "in_disk me s t" and "ring_ok (vdisk t)"
  shows "\<exists>js k. leads (vd_desc (vdisk t)) i js k \<and> distinct js \<and> (\<forall>j \<in> set js. \<not> vd_free (vdisk t) ! j) \<and>
    (if k \<ge> 8 then free_chain i t = Panic ''free_desc 1''
     else if vd_free (vdisk t) ! k \<or> k \<in> set js then free_chain i t = Panic ''free_desc 2''
     else vq_flags (vd_desc (vdisk t) ! k) AND 1 = 0 \<and>
       (\<exists>u. free_chain i t = Ok () u \<and> in_disk me s u \<and> vdisk u = fold freed (js @ [k]) (vdisk t)))"
proof -
  have "length (filter Not (vd_free (vdisk t))) < 8 + 1"
    by (rule le_less_trans [OF length_filter_le]) (use assms(2) in \<open>simp add: ring_ok_def\<close>)
  from free_chain_ends [OF assms this, of i] show ?thesis unfolding free_chain_def chain_freed_def .
qed

subsection \<open>A request from the driver to the device and back\<close>

definition sector_of :: "buf \<Rightarrow> u64" where
  "sector_of b = ucast (blockno b * 2 :: u32)"

text \<open>The chain \<open>i0\<close>, \<open>i1\<close>, \<open>i2\<close> asks for a transfer of buffer \<open>b\<close>.\<close>

definition asks :: "vdisk \<Rightarrow> nat \<Rightarrow> bool \<Rightarrow> u64 \<Rightarrow> nat \<times> nat \<times> nat \<Rightarrow> bool" where
  "asks d b w sec = (\<lambda>(i0, i1, i2).
     linked (vd_desc d) i0 [i1, i2] \<and>
     vq_addr (vd_desc d ! i0) = DmaReq i0 \<and> vq_len (vd_desc d ! i0) = 16 \<and> vq_flags (vd_desc d ! i0) AND 2 = 0 \<and> vd_ops d ! i0 = \<lparr>rq_type = (if w then 1 else 0), rq_reserved = 0, rq_sector = sec\<rparr> \<and>
     vq_addr (vd_desc d ! i1) = DmaBuf b \<and> vq_len (vd_desc d ! i1) = 1024 \<and> (vq_flags (vd_desc d ! i1) AND 2 = 0 \<longleftrightarrow> w) \<and>
     vq_addr (vd_desc d ! i2) = DmaStatus i0 \<and> vq_len (vd_desc d ! i2) = 1 \<and> vq_flags (vd_desc d ! i2) AND 2 \<noteq> 0 \<and>
     vd_info_b d ! i0 = Some b \<and> vd_info_status d ! i0 = 0xff)"

lemma alloc3_run:
  assumes "free_ids (vd_free (vdisk t)) = i0 # i1 # i2 # is"
  shows "alloc3_desc t = Ok (Some [i0, i1, i2])
    (t\<lparr>vdisk := (vdisk t)\<lparr>vd_free := (vd_free (vdisk t))[i0 := False, i1 := False, i2 := False]\<rparr>\<rparr>)"
proof -
  note a = free_ids_take [OF assms]
  note b = free_ids_take [OF conjunct1 [OF a]]
  show ?thesis using assms a b by (simp add: alloc3_desc_def numeral_3_eq_3 alloc_desc_run)
qed

lemma submit_run:
  assumes "calm me s" and "ring_ok (vdisk s)" and "b < length (bufs s)"
    and "free_ids (vd_free (vdisk s)) = i0 # i1 # i2 # is"
  shows "\<exists>t. virtio_submit b w s = Ok i0 t \<and> in_disk me s t \<and> ring_ok (vdisk t) \<and>
    asks (vdisk t) b w (sector_of (bufs s ! b)) (i0, i1, i2) \<and> free_ids (vd_free (vdisk t)) = is \<and>
    (\<forall>k < 8. k \<notin> {i0, i1, i2} \<longrightarrow> vd_desc (vdisk t) ! k = vd_desc (vdisk s) ! k) \<and>
    av_ring (vdisk t) = (av_ring (vdisk s))[unat (av_idx (vdisk s)) mod 8 := of_nat i0] \<and>
    av_idx (vdisk t) = av_idx (vdisk s) + 1 \<and> hd (vd_writes (vdisk t)) = (0x50, 0) \<and> bdisk (bufs t ! b)"
proof -
  note a = free_ids_take [OF assms(4)]
  note b = free_ids_take [OF conjunct1 [OF a]]
  note c = free_ids_take [OF conjunct1 [OF b]]
  have d: "i0 \<noteq> i1" "i0 \<noteq> i2" "i1 \<noteq> i2" using free_ids_distinct [of "vd_free (vdisk s)"] assms(4) by auto
  have l: "i0 < 8" "i1 < 8" "i2 < 8" using a b c assms(2) by (auto simp: ring_ok_def)
  have w: "unat (of_nat i :: u16) = i" if "i < 8" for i
    using that by (simp add: unat_of_nat)
  let ?t = "s\<lparr>kcpu := cpu_acq LDisk (kcpu s)\<rparr>"
  have al: "alloc3_desc ?t = Ok (Some [i0, i1, i2])
      (?t\<lparr>vdisk := (vdisk s)\<lparr>vd_free := (vd_free (vdisk s))[i0 := False, i1 := False, i2 := False]\<rparr>\<rparr>)"
    using alloc3_run [of ?t] assms(4) by simp
  show ?thesis
    using assms calmD [OF assms(1)] al a b c d l w
    by (simp add: virtio_submit_def Let_def vd_mod_def set_desc_def vd_wr_def in_disk_def asks_def sector_of_def ring_ok_def)
qed

lemma finish_run:
  assumes "in_disk me s t" and "ring_ok (vdisk t)" and "linked (vd_desc (vdisk t)) i0 [i1, i2]" and "distinct [i0, i1, i2]"
    and "\<forall>i \<in> {i0, i1, i2}. \<not> vd_free (vdisk t) ! i" and "b < length (bufs t)" and "\<not> bdisk (bufs t ! b)"
  shows "\<exists>u. virtio_finish b i0 t = Ok () u \<and> calm me u \<and> vd_free (vdisk u) = (vd_free (vdisk t))[i0 := True, i1 := True, i2 := True] \<and>
    (\<forall>k. k \<notin> {i0, i1, i2} \<longrightarrow> vd_desc (vdisk u) ! k = vd_desc (vdisk t) ! k)"
proof -
  let ?t = "t\<lparr>vdisk := (vdisk t)\<lparr>vd_info_b := (vd_info_b (vdisk t))[i0 := None]\<rparr>\<rparr>"
  let ?d = "fold freed [i0, i1, i2] (vdisk ?t)"
  have "\<exists>Q. free_chain_loop 9 i0 ?t = Ok () (?t\<lparr>vdisk := ?d, procs := Q\<rparr>) \<and> in_disk me s (?t\<lparr>vdisk := ?d, procs := Q\<rparr>)"
    by (rule free_chain_run) (use assms in \<open>simp_all add: in_disk_def ring_ok_def\<close>)
  then obtain Q where Q: "free_chain i0 ?t = Ok () (?t\<lparr>vdisk := ?d, procs := Q\<rparr>)" "in_disk me s (?t\<lparr>vdisk := ?d, procs := Q\<rparr>)"
    by (auto simp: free_chain_def)
  let ?u = "?t\<lparr>vdisk := ?d, procs := Q, kcpu := kcpu s\<rparr>"
  have s: "calm me s" using assms(1) by (simp add: in_disk_def)
  have u: "release LDisk (?t\<lparr>vdisk := ?d, procs := Q\<rparr>) = Ok () ?u"
    using Q(2) calm_locked [OF s, of LDisk] by (simp add: in_disk_def)
  have "calm me ?u" by (rule calm_woke [OF s]) (use Q(2) in \<open>simp_all add: in_disk_def\<close>)
  moreover have "virtio_finish b i0 t = Ok () ?u"
    using assms(6,7) Q(1) u by (simp add: virtio_finish_def vd_mod_def del: fold_simps)
  ultimately show ?thesis by (intro exI [of _ ?u]) simp
qed

text \<open>
  C15: the life of a request.  With three free descriptors \<open>virtio_disk_rw\<close> takes the first three of them and no other,
  links them into the chain of header, data and status that the device expects (the device writes the
  data exactly for a read), puts the head in the next slot of the avail ring, and only then counts it
  and notifies the device.  Whatever happens to the rest of the queue in between, once the interrupt
  handler has cleared the buffer's \<^verbatim>\<open>disk\<close> flag the routine returns and the three descriptors are free again.
\<close>

theorem request_cycle:
  assumes "calm me s" and "ring_ok (vdisk s)" and "b < length (bufs s)"
    and "free_ids (vd_free (vdisk s)) = i0 # i1 # i2 # is"
  shows "\<exists>t. virtio_submit b w s = Ok i0 t \<and> in_disk me s t \<and> free_ids (vd_free (vdisk t)) = is \<and> bdisk (bufs t ! b) \<and>
    asks (vdisk t) b w (sector_of (bufs s ! b)) (i0, i1, i2) \<and>
    (\<forall>k < 8. k \<notin> {i0, i1, i2} \<longrightarrow> vd_desc (vdisk t) ! k = vd_desc (vdisk s) ! k) \<and>
    av_ring (vdisk t) = (av_ring (vdisk s))[unat (av_idx (vdisk s)) mod 8 := of_nat i0] \<and>
    av_idx (vdisk t) = av_idx (vdisk s) + 1 \<and> hd (vd_writes (vdisk t)) = (0x50, 0) \<and>
    (\<forall>me' s' u. in_disk me' s' u \<and> ring_ok (vdisk u) \<and> b < length (bufs u) \<and> \<not> bdisk (bufs u ! b) \<and>
       (\<forall>i \<in> {i0, i1, i2}. vd_desc (vdisk u) ! i = vd_desc (vdisk t) ! i \<and> \<not> vd_free (vdisk u) ! i) \<longrightarrow>
       (\<exists>v. virtio_finish b i0 u = Ok () v \<and> calm me' v \<and>
          vd_free (vdisk v) = (vd_free (vdisk u))[i0 := True, i1 := True, i2 := True] \<and>
          (\<forall>k. k \<notin> {i0, i1, i2} \<longrightarrow> vd_desc (vdisk v) ! k = vd_desc (vdisk u) ! k)))"
proof -
  obtain t where T: "virtio_submit b w s = Ok i0 t" "in_disk me s t" "ring_ok (vdisk t)"
    "asks (vdisk t) b w (sector_of (bufs s ! b)) (i0, i1, i2)" "free_ids (vd_free (vdisk t)) = is"
    "\<forall>k < 8. k \<notin> {i0, i1, i2} \<longrightarrow> vd_desc (vdisk t) ! k = vd_desc (vdisk s) ! k"
    "av_ring (vdisk t) = (av_ring (vdisk s))[unat (av_idx (vdisk s)) mod 8 := of_nat i0]"
    "av_idx (vdisk t) = av_idx (vdisk s) + 1" "hd (vd_writes (vdisk t)) = (0x50, 0)" "bdisk (bufs t ! b)"
    using submit_run [OF assms, of w] by blast
  have d: "distinct [i0, i1, i2]" using free_ids_distinct [of "vd_free (vdisk s)"] assms(4) by simp
  have chain: "linked (vd_desc (vdisk u)) i0 [i1, i2]"
    if "ring_ok (vdisk u)" "\<forall>i \<in> {i0, i1, i2}. vd_desc (vdisk u) ! i = vd_desc (vdisk t) ! i" for u
    using T(3,4) that by (auto simp: asks_def ring_ok_def)
  have "\<exists>v. virtio_finish b i0 u = Ok () v \<and> calm me' v \<and>
      vd_free (vdisk v) = (vd_free (vdisk u))[i0 := True, i1 := True, i2 := True] \<and>
      (\<forall>k. k \<notin> {i0, i1, i2} \<longrightarrow> vd_desc (vdisk v) ! k = vd_desc (vdisk u) ! k)"
    if "in_disk me' s' u" "ring_ok (vdisk u)" "b < length (bufs u)" "\<not> bdisk (bufs u ! b)"
      "\<forall>i \<in> {i0, i1, i2}. vd_desc (vdisk u) ! i = vd_desc (vdisk t) ! i \<and> \<not> vd_free (vdisk u) ! i" for me' s' u
    by (rule finish_run [OF that(1,2) chain [OF that(2)] d _ that(3,4)]) (use that(5) in auto)
  then show ?thesis using T by blast
qed

definition demo_disk :: kernel where
  "demo_disk = (let s = bss_kernel (\<lambda>_. 0) (\<lambda>_. []) in
     s\<lparr>kcpu := \<lparr>cproc = Some 3, cnoff = 0, cintena = True, csie = True, held = []\<rparr>,
       vdisk := (vdisk s)\<lparr>vd_free := [False, True, False, False, True, False, True, True]\<rparr>\<rparr>)"

lemma demo_disk_facts:
  "calm 3 demo_disk" "ring_ok (vdisk demo_disk)" "2 < length (bufs demo_disk)" "free_ids (vd_free (vdisk demo_disk)) = [1, 4, 6, 7]"
  by (simp_all add: demo_disk_def Let_def calm_def running_def procs_ok_def cpu_ok_def settle_def ring_ok_def bss_kernel_def free_ids_Cons)

theorem request_cycle_witness:
  "\<exists>t. virtio_submit 2 True demo_disk = Ok 1 t \<and> free_ids (vd_free (vdisk t)) = [7] \<and> asks (vdisk t) 2 True (sector_of (bufs demo_disk ! 2)) (1, 4, 6)"
  using request_cycle [OF demo_disk_facts, of True] by blast

text \<open>A descriptor that names one behind the table.\<close>

theorem free_chain_terminates_witness:
  "free_chain 0 (demo_disk\<lparr>kcpu := cpu_acq LDisk (kcpu demo_disk), vdisk := (vdisk demo_disk)\<lparr>
     vd_desc := (vd_desc (vdisk demo_disk))[0 := \<lparr>vq_addr = DmaNone, vq_len = 0, vq_flags = 1, vq_next = 300\<rparr>]\<rparr>\<rparr>) = Panic ''free_desc 1''"
  (is "free_chain 0 ?t = _")
proof -
  have t: "in_disk 3 demo_disk ?t" "ring_ok (vdisk ?t)" using demo_disk_facts(1,2) by (simp_all add: in_disk_def ring_ok_def)
  have d: "vd_desc (vdisk ?t) ! 0 = \<lparr>vq_addr = DmaNone, vq_len = 0, vq_flags = 1, vq_next = 300\<rparr>" "\<not> vd_free (vdisk ?t) ! 0"
    using demo_disk_facts(2) by (simp_all add: ring_ok_def) (simp add: demo_disk_def Let_def)
  obtain js k where C: "leads (vd_desc (vdisk ?t)) 0 js k" "if k \<ge> 8 then free_chain 0 ?t = Panic ''free_desc 1''
     else if vd_free (vdisk ?t) ! k \<or> k \<in> set js then free_chain 0 ?t = Panic ''free_desc 2''
     else vq_flags (vd_desc (vdisk ?t) ! k) AND 1 = 0 \<and>
       (\<exists>u. free_chain 0 ?t = Ok () u \<and> in_disk 3 demo_disk u \<and> vdisk u = fold freed (js @ [k]) (vdisk ?t))"
    using free_chain_terminates [OF t, of 0] by blast
  show ?thesis
  proof (cases js)
    case Nil
    then have "k = 0" using C(1) by simp
    then show ?thesis using C(2) d Nil by simp
  next
    case (Cons j js')
    then have "leads (vd_desc (vdisk ?t)) 300 js' k" using C(1) d(1) by simp
    then have "k = 300" by (cases js') auto
    then show ?thesis using C(2) by simp
  qed
qed

end
