(* ===== verification/Resume.thy ===== *)
theory Resume
  imports Boot
begin

section \<open>What runs after a sleep\<close>

text \<open>
  A routine that gives up the CPU ends in \<open>Blocked\<close>.  This theory writes down what is left of it: for each wait loop the
  loop from its start with the lock held again (\<open>sleep\<close> has just taken it), with the values of its variables as parameters and what
  follows the loop; and for a system call that waits itself the rest of the call, of \<open>syscall\<close> and of \<open>usertrap\<close>.  The
  lemmas show that the routines are made of these parts.
\<close>

subsection \<open>The wait loops\<close>

definition acquiresleep_again :: "slockid \<Rightarrow> unit km" where
  "acquiresleep_again l =
     bnd (slk_get l) (\<lambda>k.
     if slocked k then sleep_wait (CSleep l) (LSleep l)
     else
       seq (slk_mod l (\<lambda>k. k\<lparr>slocked := True\<rparr>)) (
       bnd my_pid (\<lambda>n.
       seq (slk_mod l (\<lambda>k. k\<lparr>slpid := n\<rparr>))
           (release (LSleep l)))))"

lemma acquiresleep_parts: "acquiresleep l = seq (acquire (LSleep l)) (acquiresleep_again l)"
  by (simp add: acquiresleep_def acquiresleep_again_def)

definition pipewrite_again :: "nat \<Rightarrow> u64 \<Rightarrow> nat \<Rightarrow> u64 \<Rightarrow> int \<Rightarrow> int km" where
  "pipewrite_again k pi me addr i =
     bnd (pipewrite_loop k pi me addr i) (\<lambda>r.
     case r of None \<Rightarrow> ret (-1)
     | Some i \<Rightarrow>
         seq (wakeup (CPipeR pi)) (
         seq (release (LPipe pi)) (ret i)))"

lemma pipewrite_parts:
  "pipewrite pi addr n = bnd mine (\<lambda>me. seq (acquire (LPipe pi)) (pipewrite_again (nat n) pi me addr 0))"
  by (simp add: pipewrite_def pipewrite_again_def)

definition piperead_again :: "u64 \<Rightarrow> nat \<Rightarrow> u64 \<Rightarrow> int \<Rightarrow> int km" where
  "piperead_again pi me addr n =
     bnd (pipe_get pi) (\<lambda>p.
     bnd (if nread p = nwrite p \<and> writeopen p then
            bnd (killed me) (\<lambda>v.
            if v \<noteq> 0 then seq (release (LPipe pi)) (ret True)
            else sleep_wait (CPipeR pi) (LPipe pi))
          else ret False) (\<lambda>stop.
     if stop then ret (-1)
     else
       bnd (piperead_loop (nat n) pi me addr 0) (\<lambda>i.
       seq (wakeup (CPipeW pi)) (
       seq (release (LPipe pi)) (ret i)))))"

lemma piperead_parts: "piperead pi addr n = bnd mine (\<lambda>me. seq (acquire (LPipe pi)) (piperead_again pi me addr n))"
  by (simp add: piperead_def piperead_again_def)

definition consoleread_again :: "nat \<Rightarrow> udst \<Rightarrow> int \<Rightarrow> int km" where
  "consoleread_again left dst n =
     bnd (consoleread_loop left dst (nat n)) (\<lambda>r.
     case r of
       None \<Rightarrow> ret (-1)
     | Some left \<Rightarrow> seq (release LCons) (ret (n - int left)))"

lemma consoleread_parts:
  "consoleread dst n = seq (acquire LCons) (if n \<le> 0 then seq (release LCons) (ret 0) else consoleread_again (nat n) dst n)"
  by (simp add: consoleread_def consoleread_again_def)

definition uartputc_again :: "u8 \<Rightarrow> unit km" where
  "uartputc_again c =
     bnd (gets uart_st) (\<lambda>u.
     if tx_w u = tx_r u + UART_TX_BUF_SIZE then sleep_wait CUart LUart
     else
       seq (uart_mod (\<lambda>u. u\<lparr>tx_buf := (tx_buf u)[unat (tx_w u mod UART_TX_BUF_SIZE) := c]\<rparr>)) (
       seq (uart_mod (\<lambda>u. u\<lparr>tx_w := tx_w u + 1\<rparr>)) (
       seq uartstart
           (release LUart))))"

lemma uartputc_parts: "uartputc c = seq (acquire LUart) (uartputc_again c)"
  by (simp add: uartputc_def uartputc_again_def)

definition begin_op_again :: "unit km" where
  "begin_op_again =
     bnd (gets lg) (\<lambda>l.
     if lg_committing l then sleep_wait CLog LLog
     else if lh_n l + (lg_outstanding l + 1) * MAXOPBLOCKS > LOGSIZE then sleep_wait CLog LLog
     else
       seq (lg_mod (\<lambda>l. l\<lparr>lg_outstanding := lg_outstanding l + 1\<rparr>))
           (release LLog))"

lemma begin_op_parts: "begin_op = seq (acquire LLog) begin_op_again"
  by (simp add: begin_op_def begin_op_again_def)

definition wait_again :: "nat \<Rightarrow> u64 \<Rightarrow> int km" where
  "wait_again me addr =
     bnd (wait_scan me addr [0..<NPROC] False) (\<lambda>r.
     case r of
       Inl x \<Rightarrow> ret x
     | Inr havekids \<Rightarrow>
         bnd (if havekids then killed me else ret 1) (\<lambda>k.
         if k \<noteq> 0 then seq (release LWait) (ret (-1))
         else sleep_wait (CProc me) LWait))"

lemma wait_parts: "wait addr = bnd mine (\<lambda>me. seq (acquire LWait) (wait_again me addr))"
  by (simp add: wait_def wait_again_def)

text \<open>The system call \<open>sys_sleep\<close> waits in \<open>sys_sleep_loop\<close>, the disk driver in \<open>virtio_finish\<close> and for descriptors.\<close>

definition virtio_submit_again :: "nat \<Rightarrow> bool \<Rightarrow> u64 \<Rightarrow> nat km" where
  "virtio_submit_again b write sector =
     bnd alloc3_desc (\<lambda>r.
     case r of None \<Rightarrow> sleep_wait CDiskFree LDisk
     | Some idx \<Rightarrow>
         let i0 = idx ! 0; i1 = idx ! 1; i2 = idx ! 2 in
         seq (vd_mod (\<lambda>d. d\<lparr>vd_ops := (vd_ops d)[i0 :=
                \<lparr>rq_type = (if write then 1 else 0), rq_reserved = 0, rq_sector = sector\<rparr>]\<rparr>)) (
         seq (set_desc i0 (DmaReq i0) 16 VRING_DESC_F_NEXT i1) (
         seq (set_desc i1 (DmaBuf b) (of_nat BSIZE)
                ((if write then 0 else VRING_DESC_F_WRITE) OR VRING_DESC_F_NEXT) i2) (
         seq (vd_mod (\<lambda>d. d\<lparr>vd_info_status := (vd_info_status d)[i0 := 0xff]\<rparr>)) (
         seq (set_desc i2 (DmaStatus i0) 1 VRING_DESC_F_WRITE 0) (
         seq (buf_mod b (\<lambda>x. x\<lparr>bdisk := True\<rparr>)) (
         seq (vd_mod (\<lambda>d. d\<lparr>vd_info_b := (vd_info_b d)[i0 := Some b]\<rparr>)) (
         seq (vd_mod (\<lambda>d. d\<lparr>av_ring := (av_ring d)[unat (av_idx d) mod NUM := of_nat i0]\<rparr>)) (
         seq (vd_mod (\<lambda>d. d\<lparr>av_idx := av_idx d + 1\<rparr>)) (
         seq (vd_wr 0x050 0)
             (ret i0)))))))))))"

lemma virtio_submit_parts:
  "virtio_submit b write = bnd (buf_get b) (\<lambda>bb. seq (acquire LDisk) (virtio_submit_again b write (ucast (blockno bb * 2 :: u32))))"
  unfolding virtio_submit_def virtio_submit_again_def Let_def ..

subsection \<open>System calls that wait\<close>

text \<open>\<open>waits lk m\<close>: a system call that is woken with the lock \<open>lk\<close> goes on with \<open>m\<close>, up to its answer.\<close>

inductive waits :: "lock \<Rightarrow> u64 km \<Rightarrow> bool" where
  pipe_write: "waits (LPipe pi) (bnd (pipewrite_again k pi me addr i) (\<lambda>r. ret (word_of_int r)))"
| pipe_read: "waits (LPipe pi) (bnd (piperead_again pi me addr n) (\<lambda>r. ret (word_of_int r)))"
| console_read: "waits LCons (bnd (consoleread_again left dst n) (\<lambda>r. ret (word_of_int r)))"
| console_write: "waits LUart (bnd (seq (uartputc_again c) (consolewrite_loop k src i)) (\<lambda>r. ret (word_of_int r)))"
| child: "waits LWait (bnd (wait_again me addr) (\<lambda>r. ret (word_of_int r)))"
| tick: "waits LTicks (sys_sleep_loop ticks0 n)"

subsection \<open>The way back to user space\<close>

text \<open>\<open>syscall\<close> after the handler, \<open>usertrap\<close> after the call or the interrupt.\<close>

definition syscall_tail :: "nat \<Rightarrow> int \<Rightarrow> u64 \<Rightarrow> unit km" where
  "syscall_tail i num r =
     bnd (proc_get i) (\<lambda>p.
     seq (st64 (trapframe p + TF_a0) r) (
     whenM (trace_mask p AND push_bit (nat num) 1 \<noteq> 0)
       (bnd (ld64 (trapframe p + TF_a0)) (\<lambda>a0.
        printf (line ''%d: syscall %s -> %ld'')
          [PVal (word_of_int (pid p)), PStr (Some (bytes_of (syscallnames ! nat num))), PVal a0]))))"

lemma syscall_parts:
  "syscall pad =
     bnd mine (\<lambda>i.
     bnd (proc_get i) (\<lambda>p.
     bnd (ld64 (trapframe p + TF_a7)) (\<lambda>a7.
     let num = sint (ucast a7 :: u32) in
     if num > 0 \<and> num < 24 then bnd (syscalls pad ! (nat num - 1)) (syscall_tail i num)
     else
       seq (printf (line ''%d %s: unknown sys call %d'')
              [PVal (word_of_int (pid p)), PStr (Some (takeWhile (\<lambda>c. c \<noteq> 0) (pname p))), PVal (word_of_int num)])
           (st64 (trapframe p + TF_a0) (-1)))))"
  unfolding syscall_def syscall_tail_def Let_def ..

definition trap_tail :: "nat \<Rightarrow> int \<Rightarrow> (u64 \<times> u64) km" where
  "trap_tail i which_dev =
     bnd (killed i) (\<lambda>k.
     seq (whenM (k \<noteq> 0) (exit (-1))) (
     seq (whenM (which_dev = 2) yield)
         usertrapret))"

lemma usertrap_parts:
  "usertrap pad =
     bnd r_sstatus (\<lambda>st.
     seq (guard_panic (st AND SSTATUS_SPP \<noteq> 0) ''usertrap: not from user mode'') (
     seq trapinithart (
     bnd mine (\<lambda>i.
     bnd (proc_get i) (\<lambda>p.
     bnd (gets csrs) (\<lambda>c.
     seq (st64 (trapframe p + TF_epc) (sepc c)) (
     bnd (if scause c = 8 then
            bnd (killed i) (\<lambda>k.
            seq (whenM (k \<noteq> 0) (exit (-1))) (
            bnd (ld64 (trapframe p + TF_epc)) (\<lambda>pc.
            seq (st64 (trapframe p + TF_epc) (pc + 4)) (
            seq kintr_on (
            seq (syscall pad)
                (ret 0))))))
          else
            bnd devintr (\<lambda>d.
            seq (whenM (d = 0)
              (bnd (gets csrs) (\<lambda>c.
               seq (printf (line ''usertrap(): unexpected scause 0x%lx pid=%d'') [PVal (scause c), PVal (word_of_int (pid p))]) (
               seq (printf (line ''            sepc=0x%lx stval=0x%lx'') [PVal (sepc c), PVal (stval c)])
                   (setkilled i)))))
             (ret d))) (trap_tail i))))))))"
  unfolding usertrap_def trap_tail_def ..

text \<open>A woken system call up to user space.\<close>

definition call_rest :: "nat \<Rightarrow> int \<Rightarrow> u64 km \<Rightarrow> (u64 \<times> u64) km" where
  "call_rest i num m = bnd m (\<lambda>r. seq (syscall_tail i num r) (trap_tail i 0))"

text \<open>The rest of a \<open>yield\<close> in \<open>usertrap\<close> and in \<open>kerneltrap\<close>.\<close>

definition user_yield_rest :: "nat \<Rightarrow> (u64 \<times> u64) km" where
  "user_yield_rest i = seq (release (LProc i)) usertrapret"

definition kernel_yield_rest :: "nat \<Rightarrow> u64 \<Rightarrow> u64 \<Rightarrow> unit km" where
  "kernel_yield_rest i epc st =
     seq (release (LProc i)) (
     seq (csr_mod (\<lambda>k. k\<lparr>sepc := epc\<rparr>))
         (w_sstatus st))"

end
