(* ===== verification/Typing.thy ===== *)
theory Typing
  imports Bytes Resume
begin

section \<open>The kernel's state is well typed\<close>

text \<open>
  In C an array keeps its size and a pointer into a table points to one of its elements.  The model has lists and
  indices, so this is a property of the state: \<open>typed\<close>.  \<open>ty m T\<close> says that the routine \<open>m\<close> preserves it, also where it
  gives up the CPU, and that its result satisfies \<open>T\<close>.  There is one rule for each construct of the monad and one lemma
  for each routine, in the order of the code.
\<close>

definition idx :: "nat \<Rightarrow> nat option \<Rightarrow> bool" where
  "idx n p \<longleftrightarrow> (\<forall>i. p = Some i \<longrightarrow> i < n)"

definition proc_ty :: "proc \<Rightarrow> bool" where
  "proc_ty p \<longleftrightarrow> length (ofile p) = NOFILE \<and> (\<forall>f \<in> set (ofile p). idx NFILE f) \<and> idx NINODE (cwd p) \<and>
     idx NPROC (parent p) \<and> length (pname p) = 16 \<and> length (ctx_s (pcontext p)) = 12"

definition file_ty :: "kfile \<Rightarrow> bool" where
  "file_ty f \<longleftrightarrow> idx NINODE (fip f)"

definition inode_ty :: "inode \<Rightarrow> bool" where
  "inode_ty ip \<longleftrightarrow> length (addrs ip) = NDIRECT + 1"

definition buf_ty :: "buf \<Rightarrow> bool" where
  "buf_ty b \<longleftrightarrow> length (bdata b) = BSIZE \<and> bprev b < NBUF + 1 \<and> bnext b < NBUF + 1"

definition vdisk_ty :: "vdisk \<Rightarrow> bool" where
  "vdisk_ty d \<longleftrightarrow> length (vd_desc d) = NUM \<and> length (av_ring d) = NUM \<and> length (us_ring d) = NUM \<and> length (vd_free d) = NUM \<and>
     length (vd_info_b d) = NUM \<and> (\<forall>b \<in> set (vd_info_b d). idx (NBUF + 1) b) \<and> length (vd_info_status d) = NUM \<and>
     length (vd_ops d) = NUM"

definition typed :: "kernel \<Rightarrow> bool" where
  "typed s \<longleftrightarrow>
     idx NPROC (cproc (kcpu s)) \<and> idx NPROC (initproc s) \<and>
     length (procs s) = NPROC \<and> (\<forall>p \<in> set (procs s). proc_ty p) \<and>
     length (files s) = NFILE \<and> (\<forall>f \<in> set (files s). file_ty f) \<and>
     length (inodes s) = NINODE \<and> (\<forall>ip \<in> set (inodes s). inode_ty ip) \<and>
     length (bufs s) = NBUF + 1 \<and> (\<forall>b \<in> set (bufs s). buf_ty b) \<and>
     length (lh_block (lg s)) = 30 \<and>
     (\<forall>pi. length (pi_data (pipes s pi)) = 512) \<and>
     length (cons_buf (cons s)) = 128 \<and> length (tx_buf (uart_st s)) = 32 \<and>
     vdisk_ty (vdisk s) \<and>
     (\<forall>b. length (disk s b) = BSIZE)"

definition ty :: "'a km \<Rightarrow> ('a \<Rightarrow> bool) \<Rightarrow> bool" where
  "ty m T \<longleftrightarrow> (\<forall>s. typed s \<longrightarrow> wp True m (\<lambda>x t. typed t \<and> T x) typed s)"

abbreviation any :: "'a \<Rightarrow> bool" where
  "any \<equiv> \<lambda>_. True"

definition opt :: "('a \<Rightarrow> bool) \<Rightarrow> 'a option \<Rightarrow> bool" where
  "opt P r \<longleftrightarrow> (\<forall>x. r = Some x \<longrightarrow> P x)"

named_theorems typing \<open>the type of every routine\<close>

lemma idx_simps [simp]: "idx n None" "idx n (Some i) \<longleftrightarrow> i < n"
  by (simp_all add: idx_def)

lemma opt_simps [simp]: "opt P None" "opt P (Some x) \<longleftrightarrow> P x"
  by (simp_all add: opt_def)

subsection \<open>The constructs of the monad\<close>

lemma tyD: "ty m T \<Longrightarrow> typed s \<Longrightarrow> wp True m (\<lambda>x t. typed t \<and> T x) typed s"
  by (simp add: ty_def)

lemma ty_weaken: "ty m T0 \<Longrightarrow> (\<And>x. T0 x \<Longrightarrow> T x) \<Longrightarrow> ty m T"
  unfolding ty_def by (blast intro: wp_conseq)

lemma ty_ret: "T x \<Longrightarrow> ty (ret x) T"
  by (simp add: ty_def)

lemma ty_bnd: "ty m T0 \<Longrightarrow> (\<And>x. T0 x \<Longrightarrow> ty (f x) T) \<Longrightarrow> ty (bnd m f) T"
  unfolding ty_def wp_bnd by (blast intro: wp_conseq)

lemma ty_tail: "ty (bnd m ret) T \<Longrightarrow> ty m T"
  by simp

lemma ty_bnd_any: "ty m any \<Longrightarrow> (\<And>x. ty (f x) T) \<Longrightarrow> ty (bnd m f) T"
  by (rule ty_bnd)

lemma ty_seq: "ty (bnd m (\<lambda>_. n)) T \<Longrightarrow> ty (seq m n) T"
  by (simp add: seq_def)

lemma ty_bnd_gets: "(\<And>s. typed s \<Longrightarrow> ty (f (g s)) T) \<Longrightarrow> ty (bnd (gets g) f) T"
  by (simp add: ty_def)

lemma ty_gets: "(\<And>s. typed s \<Longrightarrow> T (g s)) \<Longrightarrow> ty (gets g) T"
  by (simp add: ty_def)

lemma ty_modify [THEN ty_bnd, typing, THEN ty_tail, typing]: "(\<And>s. typed s \<Longrightarrow> typed (g s)) \<Longrightarrow> ty (modify g) any"
  by (simp add: ty_def)

lemma ty_panic: "ty (panic e) T"
  by (simp add: ty_def)

lemma ty_stuck: "ty stuck T"
  by (simp add: ty_def)

lemma ty_block: "ty block T"
  by (simp add: ty_def)

lemma ty_guard [THEN ty_bnd, typing, THEN ty_tail, typing]: "ty (guard_panic c e) (\<lambda>_. \<not> c)"
  by (simp add: ty_def)

lemma ty_defined [THEN ty_bnd, typing, THEN ty_tail, typing]: "ty (defined_if c) (\<lambda>_. c)"
  by (simp add: ty_def)

lemma ty_when: "(c \<Longrightarrow> ty m any) \<Longrightarrow> ty (whenM c m) any"
  by (simp add: ty_def)

lemma ty_if: "(c \<Longrightarrow> ty m T) \<Longrightarrow> (\<not> c \<Longrightarrow> ty n T) \<Longrightarrow> ty (if c then m else n) T"
  by simp

lemma ty_let: "ty (f e) T \<Longrightarrow> ty (Let e f) T"
  by simp

lemma ty_option: "(r = None \<Longrightarrow> ty m T) \<Longrightarrow> (\<And>x. r = Some x \<Longrightarrow> ty (f x) T) \<Longrightarrow> ty (case r of None \<Rightarrow> m | Some x \<Rightarrow> f x) T"
  by (cases r) auto

lemma ty_prod: "(\<And>x y. r = (x, y) \<Longrightarrow> ty (f x y) T) \<Longrightarrow> ty (case r of (x, y) \<Rightarrow> f x y) T"
  by (cases r) auto

lemma ty_sum: "(\<And>x. r = Inl x \<Longrightarrow> ty (f x) T) \<Longrightarrow> (\<And>y. r = Inr y \<Longrightarrow> ty (g y) T) \<Longrightarrow> ty (case r of Inl x \<Rightarrow> f x | Inr y \<Rightarrow> g y) T"
  by (cases r) auto

lemma ty_list: "(r = [] \<Longrightarrow> ty m T) \<Longrightarrow> (\<And>x xs. r = x # xs \<Longrightarrow> ty (f x xs) T) \<Longrightarrow> ty (case r of [] \<Rightarrow> m | x # xs \<Rightarrow> f x xs) T"
  by (cases r) auto

lemma ty_foreach: "(\<And>i. i \<in> set is \<Longrightarrow> ty (f i) any) \<Longrightarrow> ty (foreach is f) any"
  by (induction "is") (auto intro: ty_ret ty_seq ty_bnd_any)

lemma ty_search: "(\<And>i. i \<in> set is \<Longrightarrow> ty (f i) (opt P)) \<Longrightarrow> ty (search is f) (opt P)"
proof (induction "is")
  case (Cons i "is")
  show ?case unfolding search.simps
    by (rule ty_bnd [OF Cons.prems], simp, rule ty_option) (auto intro!: ty_ret Cons)
qed (simp add: ty_ret)

lemma ty_search_any: "(\<And>i. i \<in> set is \<Longrightarrow> ty (f i) any) \<Longrightarrow> ty (search is f) any"
proof (induction "is")
  case (Cons i "is")
  show ?case unfolding search.simps
    by (rule ty_bnd_any, rule Cons.prems, simp, rule ty_option) (auto intro!: ty_ret Cons)
qed (simp add: ty_ret)

lemma ty_deref [THEN ty_bnd, typing, THEN ty_tail, typing]: "ty (deref p) (\<lambda>i. p = Some i)"
  by (cases p) (simp_all add: ty_ret ty_stuck)

lemmas ty_control = ty_ret ty_bnd_gets ty_gets ty_panic ty_stuck ty_block ty_when ty_if ty_let ty_option ty_prod ty_sum ty_list
  ty_foreach ty_search ty_search_any ty_seq ty_bnd_any

subsection \<open>Access to the tables\<close>

lemma typed_elems:
  assumes "typed s"
  shows "i < NPROC \<Longrightarrow> proc_ty (procs s ! i)" "i < NFILE \<Longrightarrow> file_ty (files s ! i)" "i < NINODE \<Longrightarrow> inode_ty (inodes s ! i)"
    "i < NBUF + 1 \<Longrightarrow> buf_ty (bufs s ! i)"
  using assms by (auto simp: typed_def)

lemma mem_update: "x \<in> set (xs[i := y]) \<Longrightarrow> x = y \<or> x \<in> set xs"
  using set_update_subset_insert [of xs i y] by blast

lemma ty_proc_get [THEN ty_bnd, typing, THEN ty_tail, typing]: "ty (proc_get i) (\<lambda>p. i < NPROC \<and> proc_ty p)"
  by (simp add: ty_def typed_def)

lemma ty_proc_mod [THEN ty_bnd, typing, THEN ty_tail, typing]:
  "(\<And>p. i < NPROC \<Longrightarrow> proc_ty p \<Longrightarrow> proc_ty (f p)) \<Longrightarrow> ty (proc_mod i f) (\<lambda>_. i < NPROC)"
  by (auto simp: ty_def typed_def dest!: mem_update)

lemma ty_file_get [THEN ty_bnd, typing, THEN ty_tail, typing]: "ty (file_get i) (\<lambda>p. i < NFILE \<and> file_ty p)"
  by (simp add: ty_def typed_def)

lemma ty_file_mod [THEN ty_bnd, typing, THEN ty_tail, typing]:
  "(\<And>p. i < NFILE \<Longrightarrow> file_ty p \<Longrightarrow> file_ty (f p)) \<Longrightarrow> ty (file_mod i f) (\<lambda>_. i < NFILE)"
  by (auto simp: ty_def typed_def dest!: mem_update)

lemma ty_inode_get [THEN ty_bnd, typing, THEN ty_tail, typing]: "ty (inode_get i) (\<lambda>p. i < NINODE \<and> inode_ty p)"
  by (simp add: ty_def typed_def)

lemma ty_inode_mod [THEN ty_bnd, typing, THEN ty_tail, typing]:
  "(\<And>p. i < NINODE \<Longrightarrow> inode_ty p \<Longrightarrow> inode_ty (f p)) \<Longrightarrow> ty (inode_mod i f) (\<lambda>_. i < NINODE)"
  by (auto simp: ty_def typed_def dest!: mem_update)

lemma ty_buf_get [THEN ty_bnd, typing, THEN ty_tail, typing]: "ty (buf_get i) (\<lambda>p. i < NBUF + 1 \<and> buf_ty p)"
  by (simp add: ty_def typed_def)

lemma ty_buf_mod [THEN ty_bnd, typing, THEN ty_tail, typing]:
  "(\<And>p. i < NBUF + 1 \<Longrightarrow> buf_ty p \<Longrightarrow> buf_ty (f p)) \<Longrightarrow> ty (buf_mod i f) (\<lambda>_. i < NBUF + 1)"
  by (auto simp: ty_def typed_def dest!: mem_update)

lemma ty_cpu_mod [THEN ty_bnd, typing, THEN ty_tail, typing]:
  "(\<And>c. idx NPROC (cproc c) \<Longrightarrow> idx NPROC (cproc (f c))) \<Longrightarrow> ty (cpu_mod f) any"
  unfolding cpu_mod_def by (intro typing ty_control) (simp_all add: typed_def)

lemmas shapes = proc_ty_def file_ty_def inode_ty_def buf_ty_def vdisk_ty_def

text \<open>These fields have no shape.\<close>

lemma typed_frame [simp]:
  "typed (s\<lparr>mem := m\<rparr>) = typed s" "typed (s\<lparr>nextpid := n\<rparr>) = typed s" "typed (s\<lparr>loadavg := a\<rparr>) = typed s"
  "typed (s\<lparr>runnable_procs := a\<rparr>) = typed s" "typed (s\<lparr>freelist := a\<rparr>) = typed s" "typed (s\<lparr>kernel_pagetable := a\<rparr>) = typed s"
  "typed (s\<lparr>ticks := k\<rparr>) = typed s" "typed (s\<lparr>csrs := c\<rparr>) = typed s" "typed (s\<lparr>plic := pl\<rparr>) = typed s" "typed (s\<lparr>rtime := a\<rparr>) = typed s"
  "typed (s\<lparr>sb := b\<rparr>) = typed s" "typed (s\<lparr>fs_first := f\<rparr>) = typed s" "typed (s\<lparr>dhist := h\<rparr>) = typed s"
  by (simp_all add: typed_def)

subsection \<open>Locks and scheduling\<close>

lemma ty_kintr_get [THEN ty_bnd, typing, THEN ty_tail, typing]: "ty kintr_get any"
  unfolding kintr_get_def by (intro typing ty_control) (auto simp: shapes)

lemma ty_kintr_on [THEN ty_bnd, typing, THEN ty_tail, typing]: "ty kintr_on any"
  unfolding kintr_on_def by (intro typing ty_control) (auto simp: shapes)

lemma ty_kintr_off [THEN ty_bnd, typing, THEN ty_tail, typing]: "ty kintr_off any"
  unfolding kintr_off_def by (intro typing ty_control) (auto simp: shapes)

lemma ty_kpush_off [THEN ty_bnd, typing, THEN ty_tail, typing]: "ty kpush_off any"
  unfolding kpush_off_def by (intro typing ty_control) (auto simp: shapes)

lemma ty_kpop_off [THEN ty_bnd, typing, THEN ty_tail, typing]: "ty kpop_off any"
  unfolding kpop_off_def by (intro typing ty_control) (auto simp: shapes)

lemma ty_initlock [THEN ty_bnd, typing, THEN ty_tail, typing]: "ty (initlock l) any"
  unfolding initlock_def by (intro typing ty_control) (auto simp: shapes)

lemma ty_acquire [THEN ty_bnd, typing, THEN ty_tail, typing]: "ty (acquire l) any"
  unfolding acquire_def holding_def by (intro typing ty_control) (auto simp: shapes)

lemma ty_release [THEN ty_bnd, typing, THEN ty_tail, typing]: "ty (release l) any"
  unfolding release_def holding_def by (intro typing ty_control) (auto simp: shapes)

lemma ty_myproc [THEN ty_bnd, typing, THEN ty_tail, typing]: "ty myproc (idx NPROC)"
  unfolding myproc_def by (intro typing ty_control) (auto simp: typed_def)

lemma ty_mine [THEN ty_bnd, typing, THEN ty_tail, typing]: "ty mine (\<lambda>i. i < NPROC)"
  unfolding mine_def by (intro typing ty_control) auto

lemma ty_allocpid [THEN ty_bnd, typing, THEN ty_tail, typing]: "ty allocpid any"
  unfolding allocpid_def by (intro typing ty_control) (auto simp: typed_def)

lemma ty_procinit [THEN ty_bnd, typing, THEN ty_tail, typing]: "ty procinit any"
  unfolding procinit_def by (intro typing ty_control) (auto simp: shapes)

lemma ty_sched [THEN ty_bnd, typing, THEN ty_tail, typing]: "ty sched any"
  unfolding sched_def holding_def by (intro typing ty_control) (auto simp: shapes)

lemma ty_yield [THEN ty_bnd, typing, THEN ty_tail, typing]: "ty yield any"
  unfolding yield_def by (intro typing ty_control) (auto simp: shapes)

lemma ty_sleep [THEN ty_bnd, typing, THEN ty_tail, typing]: "ty (sleep ch lk) any"
  unfolding sleep_def by (intro typing ty_control) (auto simp: shapes)

lemma ty_sleep_wait [THEN ty_bnd, typing, THEN ty_tail, typing]: "ty (sleep_wait ch lk) (\<lambda>_. False)"
  unfolding sleep_wait_def by (intro typing ty_control) (auto simp: shapes)

lemma ty_wakeup [THEN ty_bnd, typing, THEN ty_tail, typing]: "ty (wakeup ch) any"
  unfolding wakeup_def by (intro typing ty_control) (auto simp: shapes)

lemma ty_kill [THEN ty_bnd, typing, THEN ty_tail, typing]: "ty (kill n) any"
  unfolding kill_def by (intro typing ty_control) (auto simp: shapes)

lemma ty_setkilled [THEN ty_bnd, typing, THEN ty_tail, typing]: "ty (setkilled i) any"
  unfolding setkilled_def by (intro typing ty_control) (auto simp: shapes)

lemma ty_killed [THEN ty_bnd, typing, THEN ty_tail, typing]: "ty (killed i) any"
  unfolding killed_def by (intro typing ty_control) (auto simp: shapes)

lemma ty_nproc [THEN ty_bnd, typing, THEN ty_tail, typing]: "ty nproc any"
  unfolding nproc_def by (intro typing ty_control) (auto simp: shapes)

subsection \<open>Memory\<close>

lemma ty_update_runnable_procs [THEN ty_bnd, typing, THEN ty_tail, typing]: "ty update_runnable_procs any"
  unfolding update_runnable_procs_def by (intro typing ty_control) (auto simp: shapes)

lemma ty_ld64 [THEN ty_bnd, typing, THEN ty_tail, typing]: "ty (ld64 a) any"
  unfolding ld64_def by (intro typing ty_control) (auto simp: shapes)

lemma ty_st64 [THEN ty_bnd, typing, THEN ty_tail, typing]: "ty (st64 a v) any"
  unfolding st64_def by (intro typing ty_control) (auto simp: shapes)

lemma ty_kfree [THEN ty_bnd, typing, THEN ty_tail, typing]: "ty (kfree pa) any"
  unfolding kfree_def by (intro typing ty_control) (auto simp: shapes)

lemma ty_kalloc [THEN ty_bnd, typing, THEN ty_tail, typing]: "ty kalloc any"
  unfolding kalloc_def by (intro typing ty_control) (auto simp: shapes)

lemma ty_freerange_loop [THEN ty_bnd, typing, THEN ty_tail, typing]: "ty (freerange_loop p e) any"
proof (induction p e rule: freerange_loop.induct)
  case (1 p e)
  show ?case by (subst freerange_loop.simps) (intro typing ty_control 1; simp)
qed

lemma ty_freerange [THEN ty_bnd, typing, THEN ty_tail, typing]: "ty (freerange a e) any"
  unfolding freerange_def by (intro typing ty_control) (auto simp: shapes)

lemma ty_kinit [THEN ty_bnd, typing, THEN ty_tail, typing]: "ty kinit any"
  unfolding kinit_def by (intro typing ty_control) (auto simp: shapes)

lemma ty_nfree [THEN ty_bnd, typing, THEN ty_tail, typing]: "ty nfree any"
  unfolding nfree_def by (intro typing ty_control) (auto simp: shapes)

lemma ty_kmemset [THEN ty_bnd, typing, THEN ty_tail, typing]: "ty (kmemset a c n) any"
  unfolding kmemset_def by (intro typing ty_control) (auto simp: shapes)

lemma ty_kmemmove [THEN ty_bnd, typing, THEN ty_tail, typing]: "ty (kmemmove d a n) any"
  unfolding kmemmove_def by (intro typing ty_control) (auto simp: shapes)

lemma ty_walk_level [THEN ty_bnd, typing, THEN ty_tail, typing]: "ty (walk_level alloc va level pt) any"
  unfolding walk_level_def by (intro typing ty_control) (auto simp: shapes)

lemma ty_walk [THEN ty_bnd, typing, THEN ty_tail, typing]: "ty (walk pt va alloc) any"
  unfolding walk_def by (intro typing ty_control) (auto simp: shapes)

lemma ty_walkaddr [THEN ty_bnd, typing, THEN ty_tail, typing]: "ty (walkaddr pt va) any"
  unfolding walkaddr_def by (intro typing ty_control) (auto simp: shapes)

lemma ty_mappages_loop [THEN ty_bnd, typing, THEN ty_tail, typing]: "ty (mappages_loop n pt a lst pa perm) any"
  by (induction n arbitrary: a pa) (simp_all only: mappages_loop.simps, (intro typing ty_control; simp add: shapes)+)

lemma ty_mappages [THEN ty_bnd, typing, THEN ty_tail, typing]: "ty (mappages pt va n pa perm) any"
  unfolding mappages_def by (intro typing ty_control) (auto simp: shapes)

lemma ty_kvmmap [THEN ty_bnd, typing, THEN ty_tail, typing]: "ty (kvmmap pt va pa n perm) any"
  unfolding kvmmap_def by (intro typing ty_control) (auto simp: shapes)

lemma ty_uvmunmap_loop [THEN ty_bnd, typing, THEN ty_tail, typing]: "ty (uvmunmap_loop n pt a e do_free) any"
  by (induction n arbitrary: a) (simp_all only: uvmunmap_loop.simps, (intro typing ty_control; simp add: shapes)+)

lemma ty_uvmunmap [THEN ty_bnd, typing, THEN ty_tail, typing]: "ty (uvmunmap pt va n do_free) any"
  unfolding uvmunmap_def by (intro typing ty_control) (auto simp: shapes)

lemma ty_proc_mapstacks_loop [THEN ty_bnd, typing, THEN ty_tail, typing]: "ty (proc_mapstacks_loop is pt) any"
  by (induction "is") (simp_all only: proc_mapstacks_loop.simps, (intro typing ty_control; simp add: shapes)+)

lemma ty_proc_mapstacks [THEN ty_bnd, typing, THEN ty_tail, typing]: "ty (proc_mapstacks pt) any"
  unfolding proc_mapstacks_def by (intro typing ty_control) (auto simp: shapes)

lemma ty_kvmmake [THEN ty_bnd, typing, THEN ty_tail, typing]: "ty kvmmake any"
  unfolding kvmmake_def by (intro typing ty_control) (auto simp: shapes)

lemma ty_kvminit [THEN ty_bnd, typing, THEN ty_tail, typing]: "ty kvminit any"
  unfolding kvminit_def by (intro typing ty_control) (auto simp: shapes)

lemma ty_uvmcreate [THEN ty_bnd, typing, THEN ty_tail, typing]: "ty uvmcreate any"
  unfolding uvmcreate_def by (intro typing ty_control) (auto simp: shapes)

lemma ty_uvmfirst [THEN ty_bnd, typing, THEN ty_tail, typing]: "ty (uvmfirst pt src) any"
  unfolding uvmfirst_def by (intro typing ty_control) (auto simp: shapes)

lemma ty_uvmdealloc [THEN ty_bnd, typing, THEN ty_tail, typing]: "ty (uvmdealloc pt a b) any"
  unfolding uvmdealloc_def by (intro typing ty_control) (auto simp: shapes)

lemma ty_uvmalloc_loop [THEN ty_bnd, typing, THEN ty_tail, typing]: "ty (uvmalloc_loop n pt a oldsz newsz xperm) any"
  by (induction n arbitrary: a) (simp_all only: uvmalloc_loop.simps, (intro typing ty_control; simp add: shapes)+)

lemma ty_uvmalloc [THEN ty_bnd, typing, THEN ty_tail, typing]: "ty (uvmalloc pt a b x) any"
  unfolding uvmalloc_def by (intro typing ty_control) (auto simp: shapes)

lemma ty_freewalk [THEN ty_bnd, typing, THEN ty_tail, typing]: "ty (freewalk d pt) any"
  by (induction d arbitrary: pt) (simp_all only: freewalk.simps, (intro typing ty_control; simp add: shapes)+)

lemma ty_uvmfree [THEN ty_bnd, typing, THEN ty_tail, typing]: "ty (uvmfree pt n) any"
  unfolding uvmfree_def by (intro typing ty_control) (auto simp: shapes)

lemma ty_uvmcopy_loop [THEN ty_bnd, typing, THEN ty_tail, typing]: "ty (uvmcopy_loop n old new i m) any"
  by (induction n arbitrary: i) (simp_all only: uvmcopy_loop.simps, (intro typing ty_control; simp add: shapes)+)

lemma ty_uvmcopy [THEN ty_bnd, typing, THEN ty_tail, typing]: "ty (uvmcopy old new n) any"
  unfolding uvmcopy_def by (intro typing ty_control) (auto simp: shapes)

lemma ty_uvmclear [THEN ty_bnd, typing, THEN ty_tail, typing]: "ty (uvmclear pt va) any"
  unfolding uvmclear_def by (intro typing ty_control) (auto simp: shapes)

subsection \<open>Copies and pipes\<close>

text \<open>\<open>copyin\<close> answers with at most the bytes asked for.\<close>

lemma ty_copyin_loop [THEN ty_bnd, typing, THEN ty_tail, typing]:
  "ty (copyin_loop pt srcva len got) (\<lambda>r. length (snd r) \<le> length got + unat len)"
proof (induction pt srcva len got rule: copyin_loop.induct)
  case (1 pt srcva len got)
  have le: "unat (page_part srcva len) + unat (len - page_part srcva len) \<le> unat len"
    by (simp add: unat_page_part unat_sub word_le_nat_alt)
  show ?case
    by (subst copyin_loop.simps, intro typing 1 [THEN ty_weaken] ty_control) (use le in \<open>auto simp: read_bytes_def\<close>)
qed

lemma ty_copyin [THEN ty_bnd, typing, THEN ty_tail, typing]: "ty (copyin pt a len) (\<lambda>r. length (snd r) \<le> unat len)"
  unfolding copyin_def by (intro typing ty_control) (auto simp: shapes)

lemma ty_copyout [THEN ty_bnd, typing, THEN ty_tail, typing]: "ty (copyout pt dstva src len) any"
proof (induction pt dstva src len rule: copyout.induct)
  case (1 pt dstva src len)
  show ?case by (subst copyout.simps, intro typing 1 ty_control) auto
qed

lemma ty_copyinstr_loop [THEN ty_bnd, typing, THEN ty_tail, typing]: "ty (copyinstr_loop pt srcva mx got) any"
proof (induction pt srcva mx got rule: copyinstr_loop.induct)
  case (1 pt srcva mx got)
  show ?case by (subst copyinstr_loop.simps, intro typing 1 ty_control) auto
qed

lemma ty_copyinstr [THEN ty_bnd, typing, THEN ty_tail, typing]: "ty (copyinstr pt a mx) any"
  unfolding copyinstr_def by (intro typing ty_control) (auto simp: shapes)

lemma unat_of_nat_le: "unat (of_nat n :: 'a :: len word) \<le> n"
  by (simp add: unat_of_nat)

lemma ty_either_copyout [THEN ty_bnd, typing, THEN ty_tail, typing]: "ty (either_copyout dst src) any"
  unfolding either_copyout_def by (cases dst; simp only: udst.case; intro typing ty_control; simp)

lemma ty_either_copyin [THEN ty_bnd, typing, THEN ty_tail, typing]: "ty (either_copyin src len) (\<lambda>r. length (snd r) \<le> len)"
  unfolding either_copyin_def
  by (cases src; simp only: usrc.case; intro typing ty_control) (auto intro: order_trans [OF _ unat_of_nat_le])

lemma ty_slk_get [THEN ty_bnd, typing, THEN ty_tail, typing]: "ty (slk_get l) any"
  by (cases l; simp only: slk_get.simps; intro typing ty_control; simp)

lemma ty_slk_mod [THEN ty_bnd, typing, THEN ty_tail, typing]: "ty (slk_mod l f) any"
  by (cases l; simp only: slk_mod.simps; intro typing ty_control; simp add: shapes)

lemma ty_my_pid [THEN ty_bnd, typing, THEN ty_tail, typing]: "ty my_pid any"
  unfolding my_pid_def by (intro typing ty_control) (auto simp: shapes)

lemma ty_initsleeplock [THEN ty_bnd, typing, THEN ty_tail, typing]: "ty (initsleeplock l) any"
  unfolding initsleeplock_def by (intro typing ty_control) (auto simp: shapes)

lemma ty_acquiresleep [THEN ty_bnd, typing, THEN ty_tail, typing]: "ty (acquiresleep l) any"
  unfolding acquiresleep_def by (intro typing ty_control) (auto simp: shapes)

lemma ty_releasesleep [THEN ty_bnd, typing, THEN ty_tail, typing]: "ty (releasesleep l) any"
  unfolding releasesleep_def by (intro typing ty_control) (auto simp: shapes)

lemma ty_holdingsleep [THEN ty_bnd, typing, THEN ty_tail, typing]: "ty (holdingsleep l) any"
  unfolding holdingsleep_def by (intro typing ty_control) (auto simp: shapes)

lemma ty_pipe_get [THEN ty_bnd, typing, THEN ty_tail, typing]: "ty (pipe_get pi) any"
  unfolding pipe_get_def by (intro typing ty_control) (auto simp: shapes)

lemma ty_pipe_mod [THEN ty_bnd, typing, THEN ty_tail, typing]:
  "(\<And>p. length (pi_data p) = 512 \<Longrightarrow> length (pi_data (f p)) = 512) \<Longrightarrow> ty (pipe_mod pi f) any"
  unfolding pipe_mod_def by (intro typing ty_control) (simp_all add: typed_def)

lemma ty_pipeclose [THEN ty_bnd, typing, THEN ty_tail, typing]: "ty (pipeclose pi w) any"
  unfolding pipeclose_def by (intro typing ty_control) (auto simp: shapes)

lemma ty_pipewrite_loop [THEN ty_bnd, typing, THEN ty_tail, typing]: "ty (pipewrite_loop k pi me a i) any"
  by (induction k arbitrary: i) (simp_all only: pipewrite_loop.simps, (intro typing ty_control; simp add: shapes pipe_put_def)+)

lemma ty_pipewrite [THEN ty_bnd, typing, THEN ty_tail, typing]: "ty (pipewrite pi a n) any"
  unfolding pipewrite_def by (intro typing ty_control) (auto simp: shapes)

lemma ty_piperead_loop [THEN ty_bnd, typing, THEN ty_tail, typing]: "ty (piperead_loop k pi me a i) any"
  by (induction k arbitrary: i) (simp_all only: piperead_loop.simps, (intro typing ty_control; simp add: shapes)+)

lemma ty_piperead [THEN ty_bnd, typing, THEN ty_tail, typing]: "ty (piperead pi a n) any"
  unfolding piperead_def by (intro typing ty_control) (auto simp: shapes)

subsection \<open>The console\<close>

lemma ty_uart_mod [THEN ty_bnd, typing, THEN ty_tail, typing]:
  "(\<And>u. length (tx_buf u) = 32 \<Longrightarrow> length (tx_buf (f u)) = 32) \<Longrightarrow> ty (uart_mod f) any"
  unfolding uart_mod_def by (intro typing ty_control) (simp_all add: typed_def)

lemma ty_cons_mod [THEN ty_bnd, typing, THEN ty_tail, typing]:
  "(\<And>c. length (cons_buf c) = 128 \<Longrightarrow> length (cons_buf (f c)) = 128) \<Longrightarrow> ty (cons_mod f) any"
  unfolding cons_mod_def by (intro typing ty_control) (simp_all add: typed_def)

lemma ty_WriteReg [THEN ty_bnd, typing, THEN ty_tail, typing]: "ty (WriteReg r v) any"
  unfolding WriteReg_def by (intro typing ty_control) (auto simp: shapes)

lemma ty_uartinit [THEN ty_bnd, typing, THEN ty_tail, typing]: "ty uartinit any"
  unfolding uartinit_def by (intro typing ty_control) (auto simp: shapes)

lemma ty_write_thr [THEN ty_bnd, typing, THEN ty_tail, typing]: "ty (write_thr c) any"
  unfolding write_thr_def by (intro typing ty_control) (auto simp: shapes)

lemma ty_uartstart_loop [THEN ty_bnd, typing, THEN ty_tail, typing]: "ty (uartstart_loop k) any"
  by (induction k) (simp_all only: uartstart_loop.simps, (intro typing ty_control; simp add: shapes)+)

lemma ty_uartstart [THEN ty_bnd, typing, THEN ty_tail, typing]: "ty uartstart any"
  unfolding uartstart_def by (intro typing ty_control) (auto simp: shapes)

lemma ty_uartputc [THEN ty_bnd, typing, THEN ty_tail, typing]: "ty (uartputc c) any"
  unfolding uartputc_def by (intro typing ty_control) (auto simp: shapes)

lemma ty_uartputc_sync [THEN ty_bnd, typing, THEN ty_tail, typing]: "ty (uartputc_sync c) any"
  unfolding uartputc_sync_def by (intro typing ty_control) (auto simp: shapes)

lemma ty_uartgetc [THEN ty_bnd, typing, THEN ty_tail, typing]: "ty uartgetc any"
  unfolding uartgetc_def by (intro typing ty_control) (auto simp: shapes)

lemma ty_consputc [THEN ty_bnd, typing, THEN ty_tail, typing]: "ty (consputc c) any"
  unfolding consputc_def by (intro typing ty_control) (auto simp: shapes)

lemma ty_printint [THEN ty_bnd, typing, THEN ty_tail, typing]: "ty (printint x b sg) any"
  unfolding printint_def by (intro typing ty_control) (auto simp: shapes)

lemma ty_printptr_loop [THEN ty_bnd, typing, THEN ty_tail, typing]: "ty (printptr_loop k x) any"
  by (induction k arbitrary: x) (simp_all only: printptr_loop.simps, (intro typing ty_control; simp add: shapes)+)

lemma ty_printptr [THEN ty_bnd, typing, THEN ty_tail, typing]: "ty (printptr x) any"
  unfolding printptr_def by (intro typing ty_control) (auto simp: shapes)

lemma ty_put_str [THEN ty_bnd, typing, THEN ty_tail, typing]: "ty (put_str cs) any"
  unfolding put_str_def by (intro typing ty_control) (auto simp: shapes)

lemma ty_print_conv [THEN ty_bnd, typing, THEN ty_tail, typing]: "ty (print_conv c as) any"
  by (induction c as rule: print_conv.induct) (simp_all only: print_conv.simps, (intro typing ty_control; simp)+)

lemma ty_printf_loop [THEN ty_bnd, typing, THEN ty_tail, typing]: "ty (printf_loop fmt as) any"
proof (induction fmt as rule: printf_loop.induct)
  case (2 c f as)
  show ?case by (subst printf_loop.simps, intro typing 2 ty_control) auto
qed (simp add: ty_ret)

lemma ty_printf [THEN ty_bnd, typing, THEN ty_tail, typing]: "ty (printf fmt as) any"
  unfolding printf_def by (intro typing ty_control) (auto simp: shapes)

lemma ty_procdump [THEN ty_bnd, typing, THEN ty_tail, typing]: "ty procdump any"
  unfolding procdump_def by (intro typing ty_control) (auto simp: shapes)

lemma ty_consolewrite_loop [THEN ty_bnd, typing, THEN ty_tail, typing]: "ty (consolewrite_loop k src i) any"
  by (induction k arbitrary: src i) (simp_all only: consolewrite_loop.simps, (intro typing ty_control; simp add: shapes)+)

lemma ty_consolewrite [THEN ty_bnd, typing, THEN ty_tail, typing]: "ty (consolewrite src n) any"
  unfolding consolewrite_def by (intro typing ty_control) (auto simp: shapes)

lemma ty_consoleread_loop [THEN ty_bnd, typing, THEN ty_tail, typing]: "ty (consoleread_loop n dst target) any"
  by (induction n arbitrary: dst) (simp_all only: consoleread_loop.simps, (intro typing ty_control; simp add: shapes)+)

lemma ty_consoleread [THEN ty_bnd, typing, THEN ty_tail, typing]: "ty (consoleread dst n) any"
  unfolding consoleread_def by (intro typing ty_control) (auto simp: shapes)

lemma ty_kill_line [THEN ty_bnd, typing, THEN ty_tail, typing]: "ty (kill_line k) any"
  by (induction k) (simp_all only: kill_line.simps, (intro typing ty_control; simp add: shapes)+)

lemma ty_cons_store [THEN ty_bnd, typing, THEN ty_tail, typing]: "ty (cons_store ch) any"
  unfolding cons_store_def by (intro typing ty_control) (auto simp: shapes)

lemma ty_consoleintr [THEN ty_bnd, typing, THEN ty_tail, typing]: "ty (consoleintr ch) any"
  unfolding consoleintr_def by (intro typing ty_control) (auto simp: shapes)

lemma ty_consoleinit [THEN ty_bnd, typing, THEN ty_tail, typing]: "ty consoleinit any"
  unfolding consoleinit_def by (intro typing ty_control) (auto simp: shapes)

lemma ty_uartintr_loop [THEN ty_bnd, typing, THEN ty_tail, typing]: "ty (uartintr_loop k) any"
  by (induction k) (simp_all only: uartintr_loop.simps, (intro typing ty_control; simp add: shapes)+)

lemma ty_uartintr [THEN ty_bnd, typing, THEN ty_tail, typing]: "ty uartintr any"
  unfolding uartintr_def by (intro typing ty_control) (auto simp: shapes)

subsection \<open>Blocks and the log\<close>

lemma ty_virtio_disk_rw [THEN ty_bnd, typing, THEN ty_tail, typing]: "ty (virtio_disk_rw i write) any"
  unfolding virtio_disk_rw_def by (intro typing ty_control) (auto simp: typed_def buf_ty_def)

lemma ty_set_next [THEN ty_bnd, typing, THEN ty_tail, typing]: "j < NBUF + 1 \<Longrightarrow> ty (set_next i j) (\<lambda>_. i < NBUF + 1)"
  unfolding set_next_def by (intro typing ty_control) (auto simp: shapes)

lemma ty_set_prev [THEN ty_bnd, typing, THEN ty_tail, typing]: "j < NBUF + 1 \<Longrightarrow> ty (set_prev i j) (\<lambda>_. i < NBUF + 1)"
  unfolding set_prev_def by (intro typing ty_control) (auto simp: shapes)

lemma ty_link_front [THEN ty_bnd, typing, THEN ty_tail, typing]: "i < NBUF + 1 \<Longrightarrow> ty (link_front i) any"
  unfolding link_front_def by (intro typing ty_control) (auto simp: shapes)

lemma ty_binit [THEN ty_bnd, typing, THEN ty_tail, typing]: "ty binit any"
  unfolding binit_def by (intro typing ty_control) (auto simp: shapes)

lemma ty_find_cached [THEN ty_bnd, typing, THEN ty_tail, typing]: "ty (find_cached n dev bno i) (opt (\<lambda>i. i < NBUF + 1))"
  by (induction n arbitrary: i) (simp_all only: find_cached.simps, (intro typing ty_control; simp add: shapes)+)

lemma ty_find_unused [THEN ty_bnd, typing, THEN ty_tail, typing]: "ty (find_unused n i) (opt (\<lambda>i. i < NBUF + 1))"
  by (induction n arbitrary: i) (simp_all only: find_unused.simps, (intro typing ty_control; simp add: shapes)+)

lemma ty_bget [THEN ty_bnd, typing, THEN ty_tail, typing]: "ty (bget dev bno) (\<lambda>i. i < NBUF + 1)"
  unfolding bget_def by (intro typing ty_control) (auto simp: shapes)

lemma ty_bread [THEN ty_bnd, typing, THEN ty_tail, typing]: "ty (bread dev bno) (\<lambda>i. i < NBUF + 1)"
  unfolding bread_def by (intro typing ty_control) (auto simp: shapes)

lemma ty_bwrite [THEN ty_bnd, typing, THEN ty_tail, typing]: "ty (bwrite i) any"
  unfolding bwrite_def by (intro typing ty_control) (auto simp: shapes)

lemma ty_brelse [THEN ty_bnd, typing, THEN ty_tail, typing]: "ty (brelse i) any"
  unfolding brelse_def by (intro typing ty_control) (auto simp: shapes)

lemma ty_bpin [THEN ty_bnd, typing, THEN ty_tail, typing]: "ty (bpin i) any"
  unfolding bpin_def by (intro typing ty_control) (auto simp: shapes)

lemma ty_bunpin [THEN ty_bnd, typing, THEN ty_tail, typing]: "ty (bunpin i) any"
  unfolding bunpin_def by (intro typing ty_control) (auto simp: shapes)

lemma ty_bdata_mod [THEN ty_bnd, typing, THEN ty_tail, typing]:
  "(\<And>d. length d = BSIZE \<Longrightarrow> length (f d) = BSIZE) \<Longrightarrow> ty (bdata_mod i f) any"
  unfolding bdata_mod_def by (intro typing ty_control) (simp_all add: shapes)

lemma ty_lg_mod [THEN ty_bnd, typing, THEN ty_tail, typing]:
  "(\<And>l. length (lh_block l) = 30 \<Longrightarrow> length (lh_block (f l)) = 30) \<Longrightarrow> ty (lg_mod f) any"
  unfolding lg_mod_def by (intro typing ty_control) (simp_all add: typed_def)

lemma ty_bdata_get [THEN ty_bnd, typing, THEN ty_tail, typing]: "ty (bdata_get i) (\<lambda>d. length d = BSIZE)"
  unfolding bdata_get_def by (intro typing ty_control) (auto simp: shapes)

lemma ty_lh_get [THEN ty_bnd, typing, THEN ty_tail, typing]: "ty (lh_get k) (\<lambda>_. k < 30)"
  unfolding lh_get_def by (intro typing ty_control) (auto simp: typed_def)

lemma ty_lh_set [THEN ty_bnd, typing, THEN ty_tail, typing]: "ty (lh_set k v) any"
  unfolding lh_set_def by (intro typing ty_control) (auto simp: typed_def)

lemma ty_install_one [THEN ty_bnd, typing, THEN ty_tail, typing]: "ty (install_one r k) any"
  unfolding install_one_def by (intro typing ty_control) (auto simp: shapes)

lemma ty_install_trans [THEN ty_bnd, typing, THEN ty_tail, typing]: "ty (install_trans r) any"
  unfolding install_trans_def by (intro typing ty_control) (auto simp: shapes)

lemma ty_read_head [THEN ty_bnd, typing, THEN ty_tail, typing]: "ty read_head any"
  unfolding read_head_def by (intro typing ty_control) (auto simp: shapes)

lemma ty_write_head [THEN ty_bnd, typing, THEN ty_tail, typing]: "ty write_head any"
  unfolding write_head_def by (intro typing ty_control) (auto simp: shapes)

lemma ty_recover_from_log [THEN ty_bnd, typing, THEN ty_tail, typing]: "ty recover_from_log any"
  unfolding recover_from_log_def by (intro typing ty_control) (auto simp: shapes)

lemma ty_initlog [THEN ty_bnd, typing, THEN ty_tail, typing]: "ty (initlog dev sblk) any"
  unfolding initlog_def by (intro typing ty_control) (auto simp: shapes)

lemma ty_begin_op [THEN ty_bnd, typing, THEN ty_tail, typing]: "ty begin_op any"
  unfolding begin_op_def by (intro typing ty_control) (auto simp: shapes)

lemma ty_write_log_one [THEN ty_bnd, typing, THEN ty_tail, typing]: "ty (write_log_one k) any"
  unfolding write_log_one_def by (intro typing ty_control) (auto simp: shapes)

lemma ty_write_log [THEN ty_bnd, typing, THEN ty_tail, typing]: "ty write_log any"
  unfolding write_log_def by (intro typing ty_control) (auto simp: shapes)

lemma ty_commit [THEN ty_bnd, typing, THEN ty_tail, typing]: "ty commit any"
  unfolding commit_def by (intro typing ty_control) (auto simp: shapes)

lemma ty_end_op [THEN ty_bnd, typing, THEN ty_tail, typing]: "ty end_op any"
  unfolding end_op_def by (intro typing ty_control) (auto simp: shapes)

lemma ty_log_write [THEN ty_bnd, typing, THEN ty_tail, typing]: "ty (log_write i) any"
  unfolding log_write_def by (intro typing ty_control) (auto simp: shapes)

subsection \<open>The file system\<close>

lemma ty_readsb [THEN ty_bnd, typing, THEN ty_tail, typing]: "ty (readsb dev) any"
  unfolding readsb_def by (intro typing ty_control) (auto simp: shapes)

lemma ty_fsinit [THEN ty_bnd, typing, THEN ty_tail, typing]: "ty (fsinit dev) any"
  unfolding fsinit_def by (intro typing ty_control) (auto simp: shapes)

lemma ty_bzero [THEN ty_bnd, typing, THEN ty_tail, typing]: "ty (bzero dev b) any"
  unfolding bzero_def by (intro typing ty_control) (auto simp: shapes)

lemma ty_balloc [THEN ty_bnd, typing, THEN ty_tail, typing]: "ty (balloc dev) any"
  unfolding balloc_def by (intro typing ty_control) (auto simp: shapes)

lemma ty_bfree [THEN ty_bnd, typing, THEN ty_tail, typing]: "ty (bfree dev b) any"
  unfolding bfree_def by (intro typing ty_control) (auto simp: shapes)

lemma ty_iinit [THEN ty_bnd, typing, THEN ty_tail, typing]: "ty iinit any"
  unfolding iinit_def by (intro typing ty_control) (auto simp: shapes)

lemma ty_iget [THEN ty_bnd, typing, THEN ty_tail, typing]: "ty (iget dev n) (\<lambda>i. i < NINODE)"
  unfolding iget_def by (intro typing ty_control) (auto simp: shapes)

lemma ty_idup [THEN ty_bnd, typing, THEN ty_tail, typing]: "ty (idup i) (\<lambda>i. i < NINODE)"
  unfolding idup_def by (intro typing ty_control) (auto simp: shapes)

lemma dino_slot:
  fixes n :: u32
  assumes "length d = 1024" and "length bs \<le> 64"
  shows "length (put_bytes (64 * unat (n mod IPB)) bs d) = 1024"
proof -
  have "unat (n mod IPB) = unat n mod 16" by (simp add: unat_mod)
  then have "unat (n mod IPB) \<le> 15" by simp
  then have "64 * unat (n mod IPB) + length bs \<le> length d" using assms by linarith
  then show ?thesis using assms by simp
qed

lemma map_slot: "n < 256 \<Longrightarrow> length d = 1024 \<Longrightarrow> length (put32 (4 * unat n) a d) = 1024" for n :: u32
  by (simp add: word_less_nat_alt)

lemma length_dinode_bytes: "inode_ty ip \<Longrightarrow> length (dinode_bytes ip) = 64"
  by (simp add: dinode_bytes_def inode_ty_def length_concat comp_def sum_list_triv)

lemma ty_ialloc [THEN ty_bnd, typing, THEN ty_tail, typing]: "ty (ialloc dev t) (opt (\<lambda>i. i < NINODE))"
  unfolding ialloc_def by (intro typing ty_search [where P = "\<lambda>i. i < NINODE", THEN ty_bnd] ty_control) (auto simp: shapes dino_slot)

lemma ty_iupdate [THEN ty_bnd, typing, THEN ty_tail, typing]: "ty (iupdate j) any"
  unfolding iupdate_def by (intro typing ty_control) (auto simp: shapes dino_slot length_dinode_bytes)

lemma ty_ilock_in [THEN ty_bnd, typing, THEN ty_tail, typing]: "ty (ilock_in j) any"
  unfolding ilock_in_def by (intro typing ty_control) (auto simp: shapes load_dinode_def)

lemma ty_iunlock_in [THEN ty_bnd, typing, THEN ty_tail, typing]: "ty (iunlock_in j) any"
  unfolding iunlock_in_def by (intro typing ty_control) (auto simp: shapes)

lemma ty_ilock_p [THEN ty_bnd, typing, THEN ty_tail, typing]: "ty (ilock_p p) any"
  unfolding ilock_p_def by (intro typing ty_control) (auto simp: shapes)

lemma ty_iunlock_p [THEN ty_bnd, typing, THEN ty_tail, typing]: "ty (iunlock_p p) any"
  unfolding iunlock_p_def by (intro typing ty_control) (auto simp: shapes)

lemma ty_set_addr [THEN ty_bnd, typing, THEN ty_tail, typing]: "ty (set_addr j k a) any"
  unfolding set_addr_def by (intro typing ty_control) (auto simp: shapes)

lemma ty_bmap [THEN ty_bnd, typing, THEN ty_tail, typing]: "ty (bmap j bn) any"
  unfolding bmap_def by (intro typing ty_control) (auto simp: shapes map_slot)

lemma ty_itrunc [THEN ty_bnd, typing, THEN ty_tail, typing]: "ty (itrunc j) any"
  unfolding itrunc_def by (intro typing ty_control) (auto simp: shapes)

lemma ty_iput [THEN ty_bnd, typing, THEN ty_tail, typing]: "ty (iput j) any"
  unfolding iput_def by (intro typing ty_control) (auto simp: shapes)

lemma ty_iput_p [THEN ty_bnd, typing, THEN ty_tail, typing]: "ty (iput_p p) any"
  unfolding iput_p_def by (intro typing ty_control) (auto simp: shapes)

lemma ty_iunlockput [THEN ty_bnd, typing, THEN ty_tail, typing]: "ty (iunlockput j) any"
  unfolding iunlockput_def by (intro typing ty_control) (auto simp: shapes)

lemma ty_readi_loop [THEN ty_bnd, typing, THEN ty_tail, typing]: "ty (readi_loop j dst off left tot got) any"
proof (induction j dst off left tot got rule: readi_loop.induct)
  case (1 j dst off left tot got)
  show ?case by (subst readi_loop.simps, intro typing 1 ty_control) (auto simp: chunk_def)
qed

lemma ty_readi [THEN ty_bnd, typing, THEN ty_tail, typing]: "ty (readi j dst off n) any"
  unfolding readi_def by (intro typing ty_control) (auto simp: shapes)

lemma ty_writei_loop [THEN ty_bnd, typing, THEN ty_tail, typing]: "ty (writei_loop j src off left tot) any"
proof (induction j src off left tot rule: writei_loop.induct)
  case (1 j src off left tot)
  show ?case by (subst writei_loop.simps, intro typing 1 ty_control) (auto simp: chunk_def)
qed

lemma ty_writei [THEN ty_bnd, typing, THEN ty_tail, typing]: "ty (writei j src off n) any"
  unfolding writei_def by (intro typing ty_control) (auto simp: shapes)

subsection \<open>Directories\<close>

lemma ty_namecmp [THEN ty_bnd, typing, THEN ty_tail, typing]: "ty (namecmp p q) any"
  unfolding namecmp_def by (intro typing ty_control) (auto simp: shapes)

lemma ty_read_dirent [THEN ty_bnd, typing, THEN ty_tail, typing]: "ty (read_dirent dp off msg) any"
  unfolding read_dirent_def by (intro typing ty_control) (auto simp: shapes)

lemma ty_dirlookup [THEN ty_bnd, typing, THEN ty_tail, typing]: "ty (dirlookup dp name) (opt (\<lambda>r. fst r < NINODE))"
  unfolding dirlookup_def by (intro typing ty_search [where P = "\<lambda>r. fst r < NINODE", THEN ty_bnd] ty_control) (auto simp: shapes)

lemma ty_dirlink [THEN ty_bnd, typing, THEN ty_tail, typing]: "ty (dirlink dp name n) any"
  unfolding dirlink_def by (intro typing ty_control) (auto simp: shapes)

lemma ty_namex_loop [THEN ty_bnd, typing, THEN ty_tail, typing]:
  "ip < NINODE \<Longrightarrow> ty (namex_loop path w name ip) (\<lambda>r. idx NINODE (fst r))"
proof (induction path w name ip rule: namex_loop.induct)
  case (1 path w name ip)
  show ?case by (subst namex_loop.simps, intro typing 1(1) ty_control) (use 1(2) in auto)
qed

lemma ty_namex [THEN ty_bnd, typing, THEN ty_tail, typing]: "ty (namex path w name) (\<lambda>r. idx NINODE (fst r))"
  unfolding namex_def by (intro typing ty_if [where T = "\<lambda>i. i < NINODE", THEN ty_bnd] ty_control) (auto simp: shapes)

lemma ty_namei [THEN ty_bnd, typing, THEN ty_tail, typing]: "ty (namei path) (idx NINODE)"
  unfolding namei_def by (intro typing ty_control) (auto simp: shapes)

lemma ty_nameiparent [THEN ty_bnd, typing, THEN ty_tail, typing]: "ty (nameiparent path name) (\<lambda>r. idx NINODE (fst r))"
  unfolding nameiparent_def by (intro typing ty_control) (auto simp: shapes)

subsection \<open>Files\<close>

lemma ty_fileinit [THEN ty_bnd, typing, THEN ty_tail, typing]: "ty fileinit any"
  unfolding fileinit_def by (intro typing ty_control) (auto simp: shapes)

lemma ty_filealloc [THEN ty_bnd, typing, THEN ty_tail, typing]: "ty filealloc (opt (\<lambda>i. i < NFILE))"
  unfolding filealloc_def by (intro typing ty_search [where P = "\<lambda>i. i < NFILE", THEN ty_bnd] ty_control) (auto simp: shapes)

lemma ty_filedup [THEN ty_bnd, typing, THEN ty_tail, typing]: "ty (filedup i) (\<lambda>i. i < NFILE)"
  unfolding filedup_def by (intro typing ty_control) (auto simp: shapes)

lemma ty_fileclose [THEN ty_bnd, typing, THEN ty_tail, typing]: "ty (fileclose i) any"
  unfolding fileclose_def by (intro typing ty_control) (auto simp: shapes)

lemma ty_filestat [THEN ty_bnd, typing, THEN ty_tail, typing]: "ty (filestat pad i a) any"
  unfolding filestat_def by (intro typing ty_control) (auto simp: shapes)

lemma ty_fileread [THEN ty_bnd, typing, THEN ty_tail, typing]: "ty (fileread i a n) any"
  unfolding fileread_def dev_read_def
  by (intro typing ty_control) (auto simp: shapes split: fdtype.split if_splits intro!: typing ty_control)

lemma ty_filewrite_chunk [THEN ty_bnd, typing, THEN ty_tail, typing]: "ty (filewrite_chunk k a n1) any"
  unfolding filewrite_chunk_def by (intro typing ty_control) (auto simp: shapes)

lemma ty_filewrite_loop [THEN ty_bnd, typing, THEN ty_tail, typing]: "ty (filewrite_loop k a n i) any"
proof (induction k a n i rule: filewrite_loop.induct)
  case (1 k a n i)
  show ?case by (subst filewrite_loop.simps, intro typing 1 ty_control) auto
qed

lemma ty_filewrite [THEN ty_bnd, typing, THEN ty_tail, typing]: "ty (filewrite k a n) any"
  unfolding filewrite_def dev_write_def
  by (intro typing ty_control) (auto simp: shapes split: fdtype.split if_splits intro!: typing ty_control)

lemma ty_pipe_bad [THEN ty_bnd, typing, THEN ty_tail, typing]: "ty (pipe_bad f0 f1) (\<lambda>r. r = None)"
  unfolding pipe_bad_def by (intro typing ty_control) (auto simp: shapes)

lemma ty_pipealloc [THEN ty_bnd, typing, THEN ty_tail, typing]: "ty pipealloc (opt (\<lambda>r. fst r < NFILE \<and> snd r < NFILE))"
  unfolding pipealloc_def by (intro typing ty_control) (auto simp: shapes)

subsection \<open>Processes\<close>

lemma ty_proc_pagetable [THEN ty_bnd, typing, THEN ty_tail, typing]: "ty (proc_pagetable i) any"
  unfolding proc_pagetable_def by (intro typing ty_control) (auto simp: shapes)

lemma ty_proc_freepagetable [THEN ty_bnd, typing, THEN ty_tail, typing]: "ty (proc_freepagetable pt n) any"
  unfolding proc_freepagetable_def by (intro typing ty_control) (auto simp: shapes)

lemma ty_freeproc [THEN ty_bnd, typing, THEN ty_tail, typing]: "ty (freeproc i) any"
  unfolding freeproc_def by (intro typing ty_control) (auto simp: shapes)

lemma ty_alloc_failed [THEN ty_bnd, typing, THEN ty_tail, typing]: "ty (alloc_failed i) (\<lambda>r. r = None)"
  unfolding alloc_failed_def by (intro typing ty_control) (auto simp: shapes)

lemma ty_alloc_found [THEN ty_bnd, typing, THEN ty_tail, typing]: "ty (alloc_found i) (opt (\<lambda>i. i < NPROC))"
  unfolding alloc_found_def by (intro typing ty_control) (auto simp: shapes)

lemma ty_allocproc [THEN ty_bnd, typing, THEN ty_tail, typing]: "ty allocproc (opt (\<lambda>i. i < NPROC))"
  unfolding allocproc_def by (intro typing ty_search [where P = "\<lambda>i. i < NPROC", THEN ty_bnd] ty_control) (auto simp: shapes)

lemma length_safestrcpy: "safestrcpy s t n = Some r \<Longrightarrow> length r = length s"
proof -
  have "safestrcpy_loop s t k = Some r \<Longrightarrow> length r = length s" for k
    by (induction s t k arbitrary: r rule: safestrcpy_loop.induct) (auto split: if_splits list.splits)
  then show "safestrcpy s t n = Some r \<Longrightarrow> length r = length s" by (auto simp: safestrcpy_def split: if_splits)
qed

lemma ty_set_name [THEN ty_bnd, typing, THEN ty_tail, typing]: "ty (set_name i nm) any"
  unfolding set_name_def by (intro typing ty_control) (auto simp: shapes length_safestrcpy)

lemma ty_userinit [THEN ty_bnd, typing, THEN ty_tail, typing]: "ty userinit any"
  unfolding userinit_def by (intro typing ty_control) (auto simp: shapes typed_def opt_def idx_def)

lemma ty_growproc [THEN ty_bnd, typing, THEN ty_tail, typing]: "ty (growproc n) any"
  unfolding growproc_def by (intro typing ty_control) (auto simp: shapes)

lemma ty_fork_files [THEN ty_bnd, typing, THEN ty_tail, typing]: "ty (fork_files me np) any"
  unfolding fork_files_def by (intro typing ty_control) (auto dest!: mem_update simp: shapes)

lemma ty_fork [THEN ty_bnd, typing, THEN ty_tail, typing]: "ty fork any"
  unfolding fork_def by (intro typing ty_control) (auto simp: shapes)

lemma ty_wakeup_proc [THEN ty_bnd, typing, THEN ty_tail, typing]: "ty (wakeup_proc p) any"
  unfolding wakeup_proc_def by (intro typing ty_control) (auto simp: shapes)

lemma ty_reparent [THEN ty_bnd, typing, THEN ty_tail, typing]: "ty (reparent me) any"
  unfolding reparent_def by (intro typing ty_control) (auto simp: shapes typed_def)

lemma ty_exit_files [THEN ty_bnd, typing, THEN ty_tail, typing]: "ty (exit_files me) any"
  unfolding exit_files_def by (intro typing ty_control) (auto dest!: mem_update simp: shapes)

lemma ty_exit [THEN ty_bnd, typing, THEN ty_tail, typing]: "ty (exit st) (\<lambda>_. False)"
  unfolding exit_def by (intro typing ty_control) (auto simp: shapes)

lemma ty_wait_scan [THEN ty_bnd, typing, THEN ty_tail, typing]: "ty (wait_scan me a is kids) any"
  by (induction "is" arbitrary: kids) (simp_all only: wait_scan.simps, (intro typing ty_control; simp add: shapes)+)

lemma ty_wait [THEN ty_bnd, typing, THEN ty_tail, typing]: "ty (wait a) any"
  unfolding wait_def by (intro typing ty_control) (auto simp: shapes)

lemma ty_fetchaddr [THEN ty_bnd, typing, THEN ty_tail, typing]: "ty (fetchaddr a) any"
  unfolding fetchaddr_def by (intro typing ty_control) (auto simp: shapes)

lemma ty_fetchstr [THEN ty_bnd, typing, THEN ty_tail, typing]: "ty (fetchstr a mx) any"
  unfolding fetchstr_def by (intro typing ty_control) (auto simp: shapes)

lemma ty_argraw [THEN ty_bnd, typing, THEN ty_tail, typing]: "ty (argraw n) any"
  unfolding argraw_def by (intro typing ty_control) (auto simp: shapes)

lemma ty_argint [THEN ty_bnd, typing, THEN ty_tail, typing]: "ty (argint n) any"
  unfolding argint_def by (intro typing ty_control) (auto simp: shapes)

lemma ty_argaddr [THEN ty_bnd, typing, THEN ty_tail, typing]: "ty (argaddr n) any"
  unfolding argaddr_def by (intro typing ty_control) (auto simp: shapes)

lemma ty_argstr [THEN ty_bnd, typing, THEN ty_tail, typing]: "ty (argstr n mx) any"
  unfolding argstr_def by (intro typing ty_control) (auto simp: shapes)

lemma ty_sys_exit [THEN ty_bnd, typing, THEN ty_tail, typing]: "ty sys_exit any"
  unfolding sys_exit_def by (intro typing ty_control) (auto simp: shapes)

lemma ty_sys_getpid [THEN ty_bnd, typing, THEN ty_tail, typing]: "ty sys_getpid any"
  unfolding sys_getpid_def by (intro typing ty_control) (auto simp: shapes)

lemma ty_sys_fork [THEN ty_bnd, typing, THEN ty_tail, typing]: "ty sys_fork any"
  unfolding sys_fork_def by (intro typing ty_control) (auto simp: shapes)

lemma ty_sys_wait [THEN ty_bnd, typing, THEN ty_tail, typing]: "ty sys_wait any"
  unfolding sys_wait_def by (intro typing ty_control) (auto simp: shapes)

lemma ty_sys_sbrk [THEN ty_bnd, typing, THEN ty_tail, typing]: "ty sys_sbrk any"
  unfolding sys_sbrk_def by (intro typing ty_control) (auto simp: shapes)

lemma ty_sys_sleep_loop [THEN ty_bnd, typing, THEN ty_tail, typing]: "ty (sys_sleep_loop t0 n) any"
  unfolding sys_sleep_loop_def by (intro typing ty_control) (auto simp: shapes)

lemma ty_sys_sleep [THEN ty_bnd, typing, THEN ty_tail, typing]: "ty sys_sleep any"
  unfolding sys_sleep_def by (intro typing ty_control) (auto simp: shapes)

lemma ty_sys_kill [THEN ty_bnd, typing, THEN ty_tail, typing]: "ty sys_kill any"
  unfolding sys_kill_def by (intro typing ty_control) (auto simp: shapes)

lemma ty_sys_uptime [THEN ty_bnd, typing, THEN ty_tail, typing]: "ty sys_uptime any"
  unfolding sys_uptime_def by (intro typing ty_control) (auto simp: shapes)

lemma ty_sys_trace [THEN ty_bnd, typing, THEN ty_tail, typing]: "ty sys_trace any"
  unfolding sys_trace_def by (intro typing ty_control) (auto simp: shapes)

lemma ty_sys_sysinfo [THEN ty_bnd, typing, THEN ty_tail, typing]: "ty sys_sysinfo any"
  unfolding sys_sysinfo_def by (intro typing ty_control) (auto simp: shapes)

subsection \<open>Programs and file system calls\<close>

lemma ty_loadseg_loop [THEN ty_bnd, typing, THEN ty_tail, typing]: "ty (loadseg_loop k pt va j off n i) any"
  by (induction k arbitrary: i) (simp_all only: loadseg_loop.simps, (intro typing ty_control; simp add: shapes)+)

lemma ty_loadseg [THEN ty_bnd, typing, THEN ty_tail, typing]: "ty (loadseg pt va j off n) any"
  unfolding loadseg_def by (intro typing ty_control) (auto simp: shapes)

lemma ty_exec_load [THEN ty_bnd, typing, THEN ty_tail, typing]: "ty (exec_load k j pt off n) any"
  by (induction k arbitrary: off n) (simp_all only: exec_load.simps, (intro typing ty_control; simp add: shapes)+)

lemma ty_page_str [THEN ty_bnd, typing, THEN ty_tail, typing]: "ty (page_str p) any"
  unfolding page_str_def by (intro typing ty_control) (auto simp: shapes)

lemma ty_exec_args [THEN ty_bnd, typing, THEN ty_tail, typing]: "ty (exec_args as pt base argc sp us) any"
  by (induction as arbitrary: argc sp us) (simp_all only: exec_args.simps, (intro typing ty_control; simp add: shapes)+)

lemma ty_exec_bad [THEN ty_bnd, typing, THEN ty_tail, typing]: "ty (exec_bad pt n ip) any"
  unfolding exec_bad_def by (intro typing ty_control) (auto simp: shapes)

lemma ty_exec_commit [THEN ty_bnd, typing, THEN ty_tail, typing]: "ty (exec_commit me path pt n old entry sp argc) any"
  unfolding exec_commit_def by (intro typing ty_control) (auto simp: shapes)

lemma ty_exec_stack [THEN ty_bnd, typing, THEN ty_tail, typing]: "ty (exec_stack me path argv pt n entry) any"
  unfolding exec_stack_def by (intro typing ty_control) (auto simp: shapes)

lemma ty_exec [THEN ty_bnd, typing, THEN ty_tail, typing]: "ty (exec path argv) any"
  unfolding exec_def by (intro typing ty_control) (auto simp: shapes)

lemma ofile_ty: "ofile p ! fd = Some f \<Longrightarrow> proc_ty p \<Longrightarrow> fd < NOFILE \<Longrightarrow> f < NFILE"
  unfolding proc_ty_def by (metis idx_simps(2) nth_mem)

lemma ty_argfd [THEN ty_bnd, typing, THEN ty_tail, typing]: "ty (argfd n) (opt (\<lambda>r. snd r < NFILE))"
  unfolding argfd_def by (intro typing ty_control) (auto split: option.split elim: ofile_ty)

lemma ty_set_ofile [THEN ty_bnd, typing, THEN ty_tail, typing]: "idx NFILE v \<Longrightarrow> ty (set_ofile i fd v) any"
  unfolding set_ofile_def by (intro typing ty_control) (auto dest!: mem_update simp: shapes)

lemma ty_fdalloc [THEN ty_bnd, typing, THEN ty_tail, typing]: "f < NFILE \<Longrightarrow> ty (fdalloc f) any"
  unfolding fdalloc_def by (intro typing ty_control) (auto simp: shapes)

lemma ty_sys_dup [THEN ty_bnd, typing, THEN ty_tail, typing]: "ty sys_dup any"
  unfolding sys_dup_def by (intro typing ty_control) (auto simp: shapes)

lemma ty_sys_read [THEN ty_bnd, typing, THEN ty_tail, typing]: "ty sys_read any"
  unfolding sys_read_def by (intro typing ty_control) (auto simp: shapes)

lemma ty_sys_write [THEN ty_bnd, typing, THEN ty_tail, typing]: "ty sys_write any"
  unfolding sys_write_def by (intro typing ty_control) (auto simp: shapes)

lemma ty_sys_close [THEN ty_bnd, typing, THEN ty_tail, typing]: "ty sys_close any"
  unfolding sys_close_def by (intro typing ty_control) (auto simp: shapes)

lemma ty_sys_fstat [THEN ty_bnd, typing, THEN ty_tail, typing]: "ty (sys_fstat pad) any"
  unfolding sys_fstat_def by (intro typing ty_control) (auto simp: shapes)

lemma ty_link_bad [THEN ty_bnd, typing, THEN ty_tail, typing]: "ty (link_bad i) any"
  unfolding link_bad_def by (intro typing ty_control) (auto simp: shapes)

lemma ty_sys_link [THEN ty_bnd, typing, THEN ty_tail, typing]: "ty sys_link any"
  unfolding sys_link_def by (intro typing ty_control) (auto simp: shapes)

lemma ty_isdirempty [THEN ty_bnd, typing, THEN ty_tail, typing]: "ty (isdirempty dp) any"
  unfolding isdirempty_def by (intro typing ty_control) (auto simp: shapes)

lemma ty_unlink_bad [THEN ty_bnd, typing, THEN ty_tail, typing]: "ty (unlink_bad dp) any"
  unfolding unlink_bad_def by (intro typing ty_control) (auto simp: shapes)

lemma ty_unlink_entry [THEN ty_bnd, typing, THEN ty_tail, typing]: "ty (unlink_entry dp ip off) any"
  unfolding unlink_entry_def by (intro typing ty_control) (auto simp: shapes)

lemma ty_sys_unlink [THEN ty_bnd, typing, THEN ty_tail, typing]: "ty sys_unlink any"
  unfolding sys_unlink_def by (intro typing ty_control) (auto simp: shapes)

lemma ty_create_fail [THEN ty_bnd, typing, THEN ty_tail, typing]: "ty (create_fail dp ip) (\<lambda>r. r = None)"
  unfolding create_fail_def by (intro typing ty_control) (auto simp: shapes)

lemma ty_create_new [THEN ty_bnd, typing, THEN ty_tail, typing]: "ty (create_new dp nm t ma mi) (opt (\<lambda>i. i < NINODE))"
  unfolding create_new_def by (intro typing ty_control) (auto simp: shapes)

lemma ty_create [THEN ty_bnd, typing, THEN ty_tail, typing]: "ty (create path t ma mi) (opt (\<lambda>i. i < NINODE))"
  unfolding create_def by (intro typing ty_control) (auto simp: shapes)

lemma ty_open_inode [THEN ty_bnd, typing, THEN ty_tail, typing]: "ty (open_inode path om) (opt (\<lambda>i. i < NINODE))"
  unfolding open_inode_def by (intro typing ty_control) (auto simp: shapes)

lemma ty_open_bad [THEN ty_bnd, typing, THEN ty_tail, typing]: "ty (open_bad f ip) any"
  unfolding open_bad_def by (intro typing ty_control) (auto simp: shapes)

lemma ty_open_file [THEN ty_bnd, typing, THEN ty_tail, typing]: "ty (open_file f fd ip om) any"
  unfolding open_file_def by (intro typing ty_control) (auto simp: shapes)

lemma ty_sys_open [THEN ty_bnd, typing, THEN ty_tail, typing]: "ty sys_open any"
  unfolding sys_open_def by (intro typing ty_control) (auto simp: shapes)

lemma ty_close_new [THEN ty_bnd, typing, THEN ty_tail, typing]: "ty (close_new r) any"
  unfolding close_new_def by (intro typing ty_control) (auto simp: shapes)

lemma ty_sys_mkdir [THEN ty_bnd, typing, THEN ty_tail, typing]: "ty sys_mkdir any"
  unfolding sys_mkdir_def by (intro typing ty_control) (auto simp: shapes)

lemma ty_sys_mknod [THEN ty_bnd, typing, THEN ty_tail, typing]: "ty sys_mknod any"
  unfolding sys_mknod_def by (intro typing ty_control) (auto simp: shapes)

lemma ty_sys_chdir [THEN ty_bnd, typing, THEN ty_tail, typing]: "ty sys_chdir any"
  unfolding sys_chdir_def by (intro typing ty_if [where T = "idx NINODE", THEN ty_bnd] ty_control) (auto simp: shapes)

lemma ty_fetch_args [THEN ty_bnd, typing, THEN ty_tail, typing]: "ty (fetch_args k ua i av) any"
  by (induction k arbitrary: i av) (simp_all only: fetch_args.simps, (intro typing ty_control; simp add: shapes)+)

lemma ty_sys_exec [THEN ty_bnd, typing, THEN ty_tail, typing]: "ty sys_exec any"
  unfolding sys_exec_def by (intro typing ty_control) (auto simp: shapes)

lemma ty_pipe_undo [THEN ty_bnd, typing, THEN ty_tail, typing]: "ty (pipe_undo me a b c d) any"
  unfolding pipe_undo_def by (intro typing ty_control) (auto simp: shapes)

lemma ty_sys_pipe [THEN ty_bnd, typing, THEN ty_tail, typing]: "ty sys_pipe any"
  unfolding sys_pipe_def by (intro typing ty_control) (auto simp: shapes)

subsection \<open>The disk driver\<close>

lemma ty_vd_mod [THEN ty_bnd, typing, THEN ty_tail, typing]: "(\<And>d. vdisk_ty d \<Longrightarrow> vdisk_ty (f d)) \<Longrightarrow> ty (vd_mod f) any"
  unfolding vd_mod_def by (intro typing ty_control) (simp_all add: typed_def)

lemma ty_vd_rd [THEN ty_bnd, typing, THEN ty_tail, typing]: "ty (vd_rd r) any"
  unfolding vd_rd_def by (intro typing ty_control) (auto simp: shapes)

lemma ty_vd_wr [THEN ty_bnd, typing, THEN ty_tail, typing]: "ty (vd_wr r v) any"
  unfolding vd_wr_def by (intro typing ty_control) (auto simp: shapes)

lemma ty_virtio_disk_init [THEN ty_bnd, typing, THEN ty_tail, typing]: "ty virtio_disk_init any"
  unfolding virtio_disk_init_def by (intro typing ty_control) (auto simp: shapes)

lemma ty_alloc_desc [THEN ty_bnd, typing, THEN ty_tail, typing]: "ty alloc_desc any"
  unfolding alloc_desc_def by (intro typing ty_control) (auto simp: shapes)

lemma ty_free_desc [THEN ty_bnd, typing, THEN ty_tail, typing]: "ty (free_desc i) any"
  unfolding free_desc_def by (intro typing ty_control) (auto simp: shapes)

lemma ty_free_chain_loop [THEN ty_bnd, typing, THEN ty_tail, typing]: "ty (free_chain_loop k i) any"
  by (induction k arbitrary: i) (simp_all only: free_chain_loop.simps, (intro typing ty_control; simp add: shapes)+)

lemma ty_free_chain [THEN ty_bnd, typing, THEN ty_tail, typing]: "ty (free_chain i) any"
  unfolding free_chain_def by (intro typing ty_control) (auto simp: shapes)

lemma ty_alloc_descs [THEN ty_bnd, typing, THEN ty_tail, typing]: "ty (alloc_descs k got) any"
  by (induction k arbitrary: got) (simp_all only: alloc_descs.simps, (intro typing ty_control; simp add: shapes)+)

lemma ty_alloc3_desc [THEN ty_bnd, typing, THEN ty_tail, typing]: "ty alloc3_desc any"
  unfolding alloc3_desc_def by (intro typing ty_control) (auto simp: shapes)

lemma ty_set_desc [THEN ty_bnd, typing, THEN ty_tail, typing]: "ty (set_desc i a len fl nx) any"
  unfolding set_desc_def by (intro typing ty_control) (auto simp: shapes)

lemma ty_virtio_submit [THEN ty_bnd, typing, THEN ty_tail, typing]: "ty (virtio_submit b w) any"
  unfolding virtio_submit_def by (intro typing ty_control) (auto dest!: mem_update simp: shapes)

lemma ty_virtio_finish [THEN ty_bnd, typing, THEN ty_tail, typing]: "ty (virtio_finish b i) any"
  unfolding virtio_finish_def by (intro typing ty_control) (auto dest!: mem_update simp: shapes)

lemma ty_virtio_intr_loop [THEN ty_bnd, typing, THEN ty_tail, typing]: "ty (virtio_intr_loop k) any"
  by (induction k) (simp_all only: virtio_intr_loop.simps, (intro typing ty_control; simp add: shapes)+)

lemma ty_virtio_disk_intr [THEN ty_bnd, typing, THEN ty_tail, typing]: "ty virtio_disk_intr any"
  unfolding virtio_disk_intr_def by (intro typing ty_control) (auto simp: shapes)

subsection \<open>Traps and boot\<close>

lemma ty_syscalls: "\<forall>m \<in> set (syscalls pad). ty m any"
  unfolding syscalls_def by (simp; intro conjI typing ty_ret) simp_all

lemma ty_call: "n < 23 \<Longrightarrow> ty (syscalls pad ! n) any"
  by (rule bspec [OF ty_syscalls nth_mem]) (simp add: syscalls_def)

lemma ty_syscall [THEN ty_bnd, typing, THEN ty_tail, typing]: "ty (syscall pad) any"
  unfolding syscall_def by (intro typing ty_call [THEN ty_bnd] ty_control) auto

lemma ty_csr_mod [THEN ty_bnd, typing, THEN ty_tail, typing]: "ty (csr_mod f) any"
  unfolding csr_mod_def by (intro typing ty_control) simp_all

lemma ty_plic_mod [THEN ty_bnd, typing, THEN ty_tail, typing]: "ty (plic_mod f) any"
  unfolding plic_mod_def by (intro typing ty_control) simp_all

lemma ty_r_sstatus [THEN ty_bnd, typing, THEN ty_tail, typing]: "ty r_sstatus any"
  unfolding r_sstatus_def by (intro typing ty_control) (auto simp: shapes)

lemma ty_w_sstatus [THEN ty_bnd, typing, THEN ty_tail, typing]: "ty (w_sstatus x) any"
  unfolding w_sstatus_def by (intro typing ty_control) (auto simp: shapes)

lemma ty_cpuid [THEN ty_bnd, typing, THEN ty_tail, typing]: "ty cpuid any"
  unfolding cpuid_def by (intro typing ty_control) (auto simp: shapes)

lemma ty_plicinit [THEN ty_bnd, typing, THEN ty_tail, typing]: "ty plicinit any"
  unfolding plicinit_def by (intro typing ty_control) (auto simp: shapes)

lemma ty_plicinithart [THEN ty_bnd, typing, THEN ty_tail, typing]: "ty plicinithart any"
  unfolding plicinithart_def by (intro typing ty_control) (auto simp: shapes)

lemma ty_plic_claim [THEN ty_bnd, typing, THEN ty_tail, typing]: "ty plic_claim any"
  unfolding plic_claim_def by (intro typing ty_control) (auto simp: shapes)

lemma ty_plic_complete [THEN ty_bnd, typing, THEN ty_tail, typing]: "ty (plic_complete irq) any"
  unfolding plic_complete_def by (intro typing ty_control) (auto simp: shapes)

lemma ty_trapinit [THEN ty_bnd, typing, THEN ty_tail, typing]: "ty trapinit any"
  unfolding trapinit_def by (intro typing ty_control) (auto simp: shapes)

lemma ty_trapinithart [THEN ty_bnd, typing, THEN ty_tail, typing]: "ty trapinithart any"
  unfolding trapinithart_def by (intro typing ty_control) (auto simp: shapes)

lemma ty_clockintr [THEN ty_bnd, typing, THEN ty_tail, typing]: "ty clockintr any"
  unfolding clockintr_def by (intro typing ty_control) (auto simp: shapes)

lemma ty_devintr [THEN ty_bnd, typing, THEN ty_tail, typing]: "ty devintr any"
  unfolding devintr_def by (intro typing ty_control) (auto simp: shapes)

lemma ty_usertrapret [THEN ty_bnd, typing, THEN ty_tail, typing]: "ty usertrapret any"
  unfolding usertrapret_def by (intro typing ty_control) (simp_all add: shapes)

lemma ty_usertrap [THEN ty_bnd, typing, THEN ty_tail, typing]: "ty (usertrap pad) any"
  unfolding usertrap_def by (intro typing ty_control) (simp_all add: shapes)

lemma ty_forkret [THEN ty_bnd, typing, THEN ty_tail, typing]: "ty forkret any"
  unfolding forkret_def by (intro typing ty_control) (simp_all add: shapes)

lemma ty_kerneltrap [THEN ty_bnd, typing, THEN ty_tail, typing]: "ty kerneltrap any"
  unfolding kerneltrap_def by (intro typing ty_control) (auto simp: shapes)

lemma ty_kvminithart [THEN ty_bnd, typing, THEN ty_tail, typing]: "ty kvminithart any"
  unfolding kvminithart_def by (intro typing ty_control) (auto simp: shapes)

lemma ty_main_boot [THEN ty_bnd, typing, THEN ty_tail, typing]: "ty main_boot any"
  unfolding main_boot_def by (intro typing ty_control) (auto simp: shapes)

lemma ty_main_hart [THEN ty_bnd, typing, THEN ty_tail, typing]: "ty main_hart any"
  unfolding main_hart_def by (intro typing ty_control) (auto simp: shapes)

lemma ty_sched_resume [THEN ty_bnd, typing, THEN ty_tail, typing]: "ty (sched_resume ie) any"
  unfolding sched_resume_def by (intro typing ty_control) (auto simp: shapes)

lemma ty_sleep_resume [THEN ty_bnd, typing, THEN ty_tail, typing]: "ty (sleep_resume ie i lk) any"
  unfolding sleep_resume_def by (intro typing ty_control) (auto simp: shapes)

lemma ty_switch_in [THEN ty_bnd, typing, THEN ty_tail, typing]:
  "ty (seq (proc_mod i (\<lambda>p. p\<lparr>pstate := RUNNING\<rparr>)) (cpu_mod (\<lambda>c. c\<lparr>cproc := Some i\<rparr>))) any"
  by (intro typing ty_control) (auto simp: shapes)

lemma ty_switch_out [THEN ty_bnd, typing, THEN ty_tail, typing]: "ty (cpu_mod (\<lambda>c. c\<lparr>cproc := None\<rparr>)) any"
  by (intro typing ty_control) simp_all

subsection \<open>What runs after a sleep\<close>

lemma ty_acquiresleep_again [THEN ty_bnd, typing, THEN ty_tail, typing]: "ty (acquiresleep_again l) any"
  unfolding acquiresleep_again_def by (intro typing ty_control) (auto simp: shapes)

lemma ty_pipewrite_again [THEN ty_bnd, typing, THEN ty_tail, typing]: "ty (pipewrite_again k pi me a i) any"
  unfolding pipewrite_again_def by (intro typing ty_control) (auto simp: shapes)

lemma ty_piperead_again [THEN ty_bnd, typing, THEN ty_tail, typing]: "ty (piperead_again pi me a n) any"
  unfolding piperead_again_def by (intro typing ty_control) (auto simp: shapes)

lemma ty_consoleread_again [THEN ty_bnd, typing, THEN ty_tail, typing]: "ty (consoleread_again left dst n) any"
  unfolding consoleread_again_def by (intro typing ty_control) (auto simp: shapes)

lemma ty_uartputc_again [THEN ty_bnd, typing, THEN ty_tail, typing]: "ty (uartputc_again c) any"
  unfolding uartputc_again_def by (intro typing ty_control) (auto simp: shapes)

lemma ty_begin_op_again [THEN ty_bnd, typing, THEN ty_tail, typing]: "ty begin_op_again any"
  unfolding begin_op_again_def by (intro typing ty_control) (auto simp: shapes)

lemma ty_wait_again [THEN ty_bnd, typing, THEN ty_tail, typing]: "ty (wait_again me a) any"
  unfolding wait_again_def by (intro typing ty_control) (auto simp: shapes)

lemma ty_virtio_submit_again [THEN ty_bnd, typing, THEN ty_tail, typing]: "b < NBUF + 1 \<Longrightarrow> ty (virtio_submit_again b w x) any"
  unfolding virtio_submit_again_def by (intro typing ty_control) (auto dest!: mem_update simp: shapes)

lemma ty_waits: "waits lk m \<Longrightarrow> ty m any"
  by (induction rule: waits.induct) (intro typing ty_control; simp)+

lemma ty_syscall_tail [THEN ty_bnd, typing, THEN ty_tail, typing]: "ty (syscall_tail i num r) any"
  unfolding syscall_tail_def by (intro typing ty_control) auto

lemma ty_trap_tail [THEN ty_bnd, typing, THEN ty_tail, typing]: "ty (trap_tail i d) any"
  unfolding trap_tail_def by (intro typing ty_control) (simp_all add: shapes)

lemma ty_call_rest [THEN ty_bnd, typing, THEN ty_tail, typing]: "waits lk m \<Longrightarrow> ty (call_rest i num m) any"
  unfolding call_rest_def by (intro ty_waits [THEN ty_bnd] typing ty_control) auto

lemma ty_yield_rest [THEN ty_bnd, typing, THEN ty_tail, typing]: "ty (user_yield_rest i) any" "ty (kernel_yield_rest i epc st) any"
  unfolding user_yield_rest_def kernel_yield_rest_def by (intro typing ty_control; simp add: shapes)+

subsection \<open>Every reachable state\<close>

text \<open>
  One step runs a piece of the kernel up to its end or to where it gives the CPU up: the boot of hart 0 and of the others, a trap from user
  mode with its system call or from the kernel, the first return of a new process; a system call that was woken, up to its return
  to user space; a \<open>yield\<close> that is scheduled again, up to the end of the trap; the waiting routines of the file system once more after
  a wakeup; the disk driver's request up to its wait and from there on; the scheduler before and after \<^verbatim>\<open>swtch\<close>.  Outside the
  kernel, user code and the devices store to memory, the registers and the used ring.  What the callers of the waiting routines of the file system
  (\<open>acquiresleep\<close>, \<open>begin_op\<close>, the driver) do after such a wait is not a step of its own.  An access out of range has no successor.
\<close>

definition outside :: "kernel \<Rightarrow> kernel \<Rightarrow> bool" where
  "outside s t \<longleftrightarrow> (\<exists>m c q n p tm k ring st dev. length ring = NUM \<and> length st = NUM \<and>
     t = s\<lparr>mem := m, csrs := c, uart_st := (uart_st s)\<lparr>rhr_in := q, thr_ready := n\<rparr>, plic := p, rtime := tm,
       vdisk := (vdisk s)\<lparr>us_idx := k, us_ring := ring, vd_info_status := st, vd_dev := dev\<rparr>\<rparr>)"

text \<open>The state in which a piece of code returns or gives up the CPU.\<close>

definition ends :: "'a km \<Rightarrow> kernel \<Rightarrow> kernel \<Rightarrow> bool" where
  "ends m s t \<longleftrightarrow> (\<exists>x. m s = Ok x t) \<or> m s = Blocked t"

inductive kstep :: "kernel \<Rightarrow> kernel \<Rightarrow> bool" where
  boot: "ends main_boot s t \<Longrightarrow> kstep s t"
| hart: "ends main_hart s t \<Longrightarrow> kstep s t"
| user: "ends (usertrap pad) s t \<Longrightarrow> kstep s t"
| trap: "ends kerneltrap s t \<Longrightarrow> kstep s t"
| first: "ends forkret s t \<Longrightarrow> kstep s t"
| woken: "waits lk m \<Longrightarrow> ends (seq (sleep_resume ie i lk) (call_rest i num m)) s t \<Longrightarrow> kstep s t"
| yielded: "ends (seq (sched_resume ie) (user_yield_rest i)) s t \<Longrightarrow> kstep s t"
| preempted: "ends (seq (sched_resume ie) (kernel_yield_rest i epc st)) s t \<Longrightarrow> kstep s t"
| sleeplock: "ends (seq (sleep_resume ie i (LSleep l)) (acquiresleep_again l)) s t \<Longrightarrow> kstep s t"
| admitted: "ends (seq (sleep_resume ie i LLog) begin_op_again) s t \<Longrightarrow> kstep s t"
| submit: "ends (virtio_submit b w) s t \<Longrightarrow> kstep s t"
| descriptors: "b < NBUF + 1 \<Longrightarrow> ends (seq (sleep_resume ie i LDisk) (virtio_submit_again b w x)) s t \<Longrightarrow> kstep s t"
| finish: "ends (virtio_finish b k) s t \<Longrightarrow> kstep s t"
| completed: "ends (seq (sleep_resume ie i LDisk) (virtio_finish b k)) s t \<Longrightarrow> kstep s t"
| switch_in: "ends (seq (proc_mod i (\<lambda>p. p\<lparr>pstate := RUNNING\<rparr>)) (cpu_mod (\<lambda>c. c\<lparr>cproc := Some i\<rparr>))) s t \<Longrightarrow> kstep s t"
| switch_out: "ends (cpu_mod (\<lambda>c. c\<lparr>cproc := None\<rparr>)) s t \<Longrightarrow> kstep s t"
| device: "outside s t \<Longrightarrow> kstep s t"

lemma ty_ends: "ends m s t \<Longrightarrow> typed s \<Longrightarrow> ty m any \<Longrightarrow> typed t"
  using tyD [of m any s] by (auto simp: wp_def ends_def)

lemma ty_entries:
  "ty main_boot any" "ty main_hart any" "ty (usertrap pad) any" "ty kerneltrap any" "ty forkret any"
  "ty (seq (sched_resume ie) (user_yield_rest i)) any" "ty (seq (sched_resume ie) (kernel_yield_rest i epc st)) any"
  "ty (seq (sleep_resume ie i (LSleep l)) (acquiresleep_again l)) any" "ty (seq (sleep_resume ie i LLog) begin_op_again) any"
  "ty (virtio_submit b w) any" "ty (virtio_finish b k) any" "ty (seq (sleep_resume ie i LDisk) (virtio_finish b k)) any"
  "ty (seq (proc_mod i (\<lambda>p. p\<lparr>pstate := RUNNING\<rparr>)) (cpu_mod (\<lambda>c. c\<lparr>cproc := Some i\<rparr>))) any"
  "ty (cpu_mod (\<lambda>c. c\<lparr>cproc := None\<rparr>)) any"
  by (intro typing ty_control ty_switch_in ty_switch_out ty_ret; simp)+

lemma ty_woken:
  "waits lk m \<Longrightarrow> ty (seq (sleep_resume ie i lk) (call_rest i num m)) any"
  "b < NBUF + 1 \<Longrightarrow> ty (seq (sleep_resume ie i LDisk) (virtio_submit_again b w x)) any"
  by (intro typing ty_control; assumption | simp)+

lemma kstep_typed: "kstep s t \<Longrightarrow> typed s \<Longrightarrow> typed t"
proof (induction rule: kstep.induct)
  case (device s t)
  then show ?case by (auto simp: outside_def typed_def vdisk_ty_def)
next
  case (woken lk m ie i num s t)
  then show ?case using ty_ends [OF woken(2,3) ty_woken(1)] by blast
next
  case (descriptors b ie i w x s t)
  then show ?case using ty_ends [OF descriptors(2,3) ty_woken(2)] by blast
qed (rule ty_ends, assumption, assumption, rule ty_entries)+

lemma boot_typed: "\<forall>b. length (d b) = BSIZE \<Longrightarrow> typed (bss_kernel m d)"
  by (simp add: typed_def bss_kernel_def bss_proc_def bss_file_def bss_inode_def bss_buf_def shapes)

text \<open>
  C3: the kernel is type safe along the runs of \<open>kstep\<close>.  In every state that it reaches from the static data by the boot, traps and system calls, the
  rest of system calls that were woken and of yields, waits of the file system and of the disk driver, and switches, in any order and with any behaviour of
  users and devices, each array has the size it is declared with, and each pointer stored in a structure (the open files and the
  directory of a process, its parent, the inode of a file, the links of the buffer list, the buffers of the disk's requests) points into its table.
\<close>

theorem kernel_typed:
  assumes "\<forall>b. length (d b) = BSIZE" and "kstep\<^sup>*\<^sup>* (bss_kernel m d) t"
  shows "typed t"
  using assms(2)
proof (induction rule: rtranclp_induct)
  case base
  show ?case by (rule boot_typed [OF assms(1)])
next
  case (step t u)
  then show ?case by (blast intro: kstep_typed)
qed

text \<open>A timer interrupt before the boot.\<close>

definition timer_set :: kernel where
  "timer_set = (let s = bss_kernel (\<lambda>_. 0) (\<lambda>_. replicate BSIZE 0) in
     s\<lparr>csrs := (csrs s)\<lparr>sstatus := SSTATUS_SPP, scause := 0x8000000000000005, tp := 1\<rparr>\<rparr>)"

lemma timer_step: "\<exists>t. kerneltrap timer_set = Ok () t \<and> stimecmp (csrs t) = 1000000"
  by (simp add: kerneltrap_def r_sstatus_def timer_set_def bss_kernel_def kintr_get_def devintr_def clockintr_def cpuid_def csr_mod_def
      myproc_def kpush_off_def kintr_off_def cpu_mod_def kpop_off_def kintr_on_def w_sstatus_def)

theorem kernel_typed_witness:
  "\<exists>t. kstep\<^sup>*\<^sup>* (bss_kernel (\<lambda>_. 0) (\<lambda>_. replicate BSIZE 0)) t \<and> stimecmp (csrs t) = 1000000 \<and> typed t"
proof -
  have "outside (bss_kernel (\<lambda>_. 0) (\<lambda>_. replicate BSIZE 0)) timer_set"
    by (simp add: outside_def timer_set_def bss_kernel_def)
  then have "kstep (bss_kernel (\<lambda>_. 0) (\<lambda>_. replicate BSIZE 0)) timer_set" by (rule kstep.device)
  moreover obtain t where t: "kerneltrap timer_set = Ok () t" "stimecmp (csrs t) = 1000000" using timer_step by blast
  ultimately have "kstep\<^sup>*\<^sup>* (bss_kernel (\<lambda>_. 0) (\<lambda>_. replicate BSIZE 0)) t"
    by (meson converse_rtranclp_into_rtranclp ends_def kstep.trap r_into_rtranclp)
  then show ?thesis using kernel_typed [of "\<lambda>_. replicate BSIZE 0"] t(2) by auto
qed

end
