(* ===== verification/Grep.thy ===== *)
theory Grep
  imports Prelude
begin

section \<open>Pattern matching in \<^verbatim>\<open>grep\<close> (\<^verbatim>\<open>user/grep.c\<close>)\<close>

text \<open>
  Strings are the lists of their bytes before the terminating zero.  The matcher knows \<^verbatim>\<open>^\<close> at the
  beginning, \<^verbatim>\<open>$\<close> at the end, \<^verbatim>\<open>.\<close> and \<^verbatim>\<open>c*\<close>.
\<close>

abbreviation (input) "c_star \<equiv> 42 :: u8"
abbreviation (input) "c_dot \<equiv> 46 :: u8"
abbreviation (input) "c_dollar \<equiv> 36 :: u8"
abbreviation (input) "c_hat \<equiv> 94 :: u8"
abbreviation (input) "c_nl \<equiv> 10 :: u8"

function (sequential) matchhere :: "u8 list \<Rightarrow> u8 list \<Rightarrow> bool"
  and matchstar :: "u8 \<Rightarrow> u8 list \<Rightarrow> u8 list \<Rightarrow> bool" where
  "matchhere [] str = True"
| "matchhere (c # re) str =
     (if re \<noteq> [] \<and> hd re = c_star then matchstar c (tl re) str
      else if c = c_dollar \<and> re = [] then str = []
      else if str \<noteq> [] \<and> (c = c_dot \<or> c = hd str) then matchhere re (tl str)
      else False)"
| "matchstar c re str =
     (if matchhere re str then True
      else if str \<noteq> [] \<and> (hd str = c \<or> c = c_dot) then matchstar c re (tl str)
      else False)"
  by pat_completeness auto
termination
  by (relation "measures [case_sum (\<lambda>(re, str). length re) (\<lambda>(c, re, str). length re),
      case_sum (\<lambda>(re, str). length str) (\<lambda>(c, re, str). length str),
      case_sum (\<lambda>_. 0) (\<lambda>_. 1)]") (auto simp: length_greater_0_conv [symmetric] simp del: length_greater_0_conv)

primrec match_from :: "u8 list \<Rightarrow> u8 list \<Rightarrow> bool" where
  "match_from re [] = matchhere re []"
| "match_from re (c # str) = (if matchhere re (c # str) then True else match_from re str)"

definition match :: "u8 list \<Rightarrow> u8 list \<Rightarrow> bool" where
  "match re str = (if re \<noteq> [] \<and> hd re = c_hat then matchhere (tl re) str else match_from re str)"

text \<open>
  The loop of \<open>grep\<close>.  A read of at most \<open>n\<close> bytes takes \<open>read_len k n inp\<close> of them from the front of the
  file: nothing at its end, else at least one; \<open>k\<close> is the kernel's choice.  \<open>scan\<close> takes the finished lines out of
  the buffer: the search for a newline ends at a zero byte.  What is left moves to the front.
\<close>

definition read_len :: "nat \<Rightarrow> nat \<Rightarrow> u8 list \<Rightarrow> nat" where
  "read_len k n inp = (if n = 0 \<or> inp = [] then 0 else max 1 (min k (min n (length inp))))"

definition newline_at :: "u8 list \<Rightarrow> nat option" where
  "newline_at p = first_idx (\<lambda>c. c = c_nl) (takeWhile (\<lambda>c. c \<noteq> 0) p)"

function scan :: "u8 list \<Rightarrow> u8 list \<Rightarrow> u8 list \<times> u8 list" where
  "scan re p =
     (case newline_at p of
        None \<Rightarrow> ([], p)
      | Some q \<Rightarrow>
          let r = scan re (drop (q + 1) p) in
          ((if match re (take q p) then take (q + 1) p else []) @ fst r, snd r))"
  by pat_completeness auto
termination
proof (relation "measure (\<lambda>(re, p). length p)")
  fix re p :: "u8 list" and q
  assume "newline_at p = Some q"
  then have "q < length (takeWhile (\<lambda>c. c \<noteq> 0) p)" by (auto simp: newline_at_def dest: first_idx_bound)
  then have "q < length p" using length_takeWhile_le [of "\<lambda>c. c \<noteq> 0" p] by simp
  then show "((re, drop (q + 1) p), re, p) \<in> measure (\<lambda>(re, p). length p)" by simp
qed simp

text \<open>Call \<open>t\<close> of \<^verbatim>\<open>read\<close> with \<open>buf\<close> in the buffer; the answer is what \<open>grep\<close> writes from there on.\<close>

function grep :: "(nat \<Rightarrow> nat) \<Rightarrow> nat \<Rightarrow> u8 list \<Rightarrow> u8 list \<Rightarrow> u8 list \<Rightarrow> u8 list" where
  "grep sz t re buf inp =
     (let n = read_len (sz t) (1024 - length buf - 1) inp in
      if n = 0 then []
      else let r = scan re (buf @ take n inp) in fst r @ grep sz (t + 1) re (snd r) (drop n inp))"
  by pat_completeness auto
termination
proof (relation "measure (\<lambda>(sz, t, re, buf, inp). length inp)")
  fix sz :: "nat \<Rightarrow> nat" and t n and re buf inp :: "u8 list" and r
  assume "n = read_len (sz t) (1024 - length buf - 1) inp" and "n \<noteq> 0"
  then have "inp \<noteq> []" by (auto simp: read_len_def)
  then show "((sz, t + 1, re, snd r, drop n inp), sz, t, re, buf, inp) \<in> measure (\<lambda>(sz, t, re, buf, inp). length inp)"
    using \<open>n \<noteq> 0\<close> by simp
qed simp

declare scan.simps [simp del] grep.simps [simp del]

declare matchhere.simps [simp del] matchstar.simps [simp del]

subsection \<open>What a pattern means\<close>

text \<open>A pattern is a sequence of characters and repetitions, with or without an anchor at the end.\<close>

datatype piece = One u8 | Many u8

definition fits :: "u8 \<Rightarrow> u8 \<Rightarrow> bool" where
  "fits c x \<longleftrightarrow> c = c_dot \<or> c = x"

fun pieces :: "u8 list \<Rightarrow> piece list" where
  "pieces (c # d # re) = (if d = c_star then Many c # pieces re else One c # pieces (d # re))"
| "pieces [c] = (if c = c_dollar then [] else [One c])"
| "pieces [] = []"

fun anchored :: "u8 list \<Rightarrow> bool" where
  "anchored (c # d # re) = (if d = c_star then anchored re else anchored (d # re))"
| "anchored [c] = (c = c_dollar)"
| "anchored [] = False"

fun lang :: "piece list \<Rightarrow> u8 list set" where
  "lang [] = {[]}"
| "lang (One c # ps) = {x # w | x w. fits c x \<and> w \<in> lang ps}"
| "lang (Many c # ps) = {v @ w | v w. (\<forall>x \<in> set v. fits c x) \<and> w \<in> lang ps}"

text \<open>What may stand beside the match, at an end that is anchored or not.\<close>

definition beside :: "bool \<Rightarrow> u8 list set" where
  "beside tied = (if tied then {[]} else UNIV)"

lemma beside_iff: "w \<in> beside tied \<longleftrightarrow> (tied \<longrightarrow> w = [])"
  by (simp add: beside_def)

text \<open>\<open>w\<close> is in the language of the pattern and what follows it is allowed.\<close>

definition part :: "u8 list \<Rightarrow> u8 list \<Rightarrow> u8 list \<Rightarrow> bool" where
  "part re w post \<longleftrightarrow> w \<in> lang (pieces re) \<and> (anchored re \<longrightarrow> post = [])"

definition prefix_matches :: "u8 list \<Rightarrow> u8 list \<Rightarrow> bool" where
  "prefix_matches re str \<longleftrightarrow> (\<exists>w post. str = w @ post \<and> part re w post)"

lemma part_one:
  assumes "\<not> (re \<noteq> [] \<and> hd re = c_star)" and "\<not> (c = c_dollar \<and> re = [])"
  shows "part (c # re) w post \<longleftrightarrow> (\<exists>x v. w = x # v \<and> fits c x \<and> part re v post)"
proof -
  have "pieces (c # re) = One c # pieces re" "anchored (c # re) = anchored re"
    using assms by (cases re; simp)+
  then show ?thesis by (auto simp: part_def)
qed

lemma part_many: "part (c # c_star # re) w post \<longleftrightarrow> (\<exists>u v. w = u @ v \<and> (\<forall>x \<in> set u. fits c x) \<and> part re v post)"
  by (auto simp: part_def)

lemma prefix_matches_Nil: "prefix_matches [] str"
  by (simp add: prefix_matches_def part_def)

lemma prefix_matches_end: "prefix_matches [c_dollar] str \<longleftrightarrow> str = []"
  by (auto simp: prefix_matches_def part_def)

lemma prefix_matches_one:
  assumes "\<not> (re \<noteq> [] \<and> hd re = c_star)" and "\<not> (c = c_dollar \<and> re = [])"
  shows "prefix_matches (c # re) str \<longleftrightarrow> (\<exists>x rest. str = x # rest \<and> fits c x \<and> prefix_matches re rest)"
  unfolding prefix_matches_def part_one [OF assms] by (metis append_Cons)

lemma prefix_matches_many:
  "prefix_matches (c # c_star # re) str \<longleftrightarrow> (\<exists>v rest. str = v @ rest \<and> (\<forall>x \<in> set v. fits c x) \<and> prefix_matches re rest)"
  unfolding prefix_matches_def part_many by (metis append.assoc)

text \<open>The loop of \<open>matchstar\<close> tries the shortest repetition first.\<close>

lemma many_step:
  "(\<exists>v rest. str = v @ rest \<and> (\<forall>x \<in> set v. fits c x) \<and> P rest) =
   (P str \<or> (\<exists>x rest. str = x # rest \<and> fits c x \<and> (\<exists>v rest'. rest = v @ rest' \<and> (\<forall>x \<in> set v. fits c x) \<and> P rest')))"
  (is "?l = ?r")
proof
  assume ?l
  then obtain v rest where "str = v @ rest" "\<forall>x \<in> set v. fits c x" "P rest" by blast
  then show ?r by (cases v) auto
next
  assume ?r
  then show ?l
  proof
    assume "P str"
    then show ?l by (intro exI [of _ "[]"] exI [of _ str]) simp
  next
    assume "\<exists>x rest. str = x # rest \<and> fits c x \<and> (\<exists>v rest'. rest = v @ rest' \<and> (\<forall>x \<in> set v. fits c x) \<and> P rest')"
    then obtain x v rest where "str = x # v @ rest" "fits c x" "\<forall>x \<in> set v. fits c x" "P rest" by blast
    then show ?l by (intro exI [of _ "x # v"] exI [of _ rest]) simp
  qed
qed

lemma matchhere_matchstar:
  "matchhere re str \<longleftrightarrow> prefix_matches re str"
  "matchstar c re str \<longleftrightarrow> (\<exists>v rest. str = v @ rest \<and> (\<forall>x \<in> set v. fits c x) \<and> prefix_matches re rest)"
proof (induction re str and c re str rule: matchhere_matchstar.induct)
  case (2 c re str)
  show ?case
  proof (cases "re \<noteq> [] \<and> hd re = c_star")
    case True
    then obtain re' where re: "re = c_star # re'" by (cases re) auto
    then show ?thesis using 2(1) by (simp add: matchhere.simps prefix_matches_many)
  next
    case False
    then show ?thesis using 2(2) prefix_matches_one [OF False, of c str] prefix_matches_end [of str]
      by (cases str) (auto simp: matchhere.simps fits_def)
  qed
next
  case (3 c re str)
  show ?case
    by (subst many_step [of str c "prefix_matches re"], subst matchstar.simps, use 3 in \<open>cases str; auto simp: fits_def\<close>)
qed (simp add: matchhere.simps prefix_matches_Nil)

lemma match_from_suffix: "match_from re str \<longleftrightarrow> (\<exists>pre rest. str = pre @ rest \<and> prefix_matches re rest)"
proof (induction str)
  case (Cons x str)
  have "(\<exists>pre rest. x # str = pre @ rest \<and> prefix_matches re rest) \<longleftrightarrow>
      prefix_matches re (x # str) \<or> (\<exists>pre rest. str = pre @ rest \<and> prefix_matches re rest)"
    by (auto simp: Cons_eq_append_conv)
  then show ?case using Cons by (simp add: matchhere_matchstar)
qed (simp add: matchhere_matchstar)

text \<open>
  C21: the matcher decides its patterns.  A text matches exactly when a part of it is in the language of the
  pattern, a part at the beginning if the pattern begins with a hat, at the end if it ends with a dollar sign.
\<close>

theorem match_language:
  "match re str \<longleftrightarrow>
     (let hat = (re \<noteq> [] \<and> hd re = c_hat); re = (if hat then tl re else re) in
      \<exists>pre w post. str = pre @ w @ post \<and> w \<in> lang (pieces re) \<and> pre \<in> beside hat \<and> post \<in> beside (anchored re))"
proof (cases "re \<noteq> [] \<and> hd re = c_hat")
  case True
  then show ?thesis by (simp add: match_def Let_def matchhere_matchstar prefix_matches_def part_def beside_iff)
next
  case False
  then have "match re str \<longleftrightarrow> (\<exists>pre rest. str = pre @ rest \<and> prefix_matches re rest)" using match_from_suffix [of re str] by (simp only: match_def if_False)
  also have "\<dots> \<longleftrightarrow> (\<exists>pre w post. str = pre @ w @ post \<and> part re w post)" unfolding prefix_matches_def by metis
  finally show ?thesis using False by (simp only: Let_def part_def beside_iff) simp
qed

subsection \<open>The lines of a file\<close>

text \<open>The finished lines of a file and the bytes behind the last newline.\<close>

function complete :: "u8 list \<Rightarrow> u8 list list" where
  "complete x = (if c_nl \<in> set x then takeWhile (\<lambda>c. c \<noteq> c_nl) x # complete (tl (dropWhile (\<lambda>c. c \<noteq> c_nl) x)) else [])"
  by pat_completeness auto
termination
proof (relation "measure length")
  fix x :: "u8 list"
  assume "c_nl \<in> set x"
  then have "dropWhile (\<lambda>c. c \<noteq> c_nl) x \<noteq> []" by auto
  then have "length (tl (dropWhile (\<lambda>c. c \<noteq> c_nl) x)) < length (dropWhile (\<lambda>c. c \<noteq> c_nl) x)" by simp
  also have "\<dots> \<le> length x" by (rule length_dropWhile_le)
  finally show "(tl (dropWhile (\<lambda>c. c \<noteq> c_nl) x), x) \<in> measure length" by simp
qed simp

declare complete.simps [simp del]

definition unfinished :: "u8 list \<Rightarrow> u8 list" where
  "unfinished x = rev (takeWhile (\<lambda>c. c \<noteq> c_nl) (rev x))"

lemma no_newline:
  "c_nl \<notin> set x \<Longrightarrow> takeWhile (\<lambda>c. c \<noteq> c_nl) x = x"
  "c_nl \<notin> set x \<Longrightarrow> takeWhile (\<lambda>c. c \<noteq> c_nl) (x @ c_nl # y) = x"
  "c_nl \<notin> set x \<Longrightarrow> dropWhile (\<lambda>c. c \<noteq> c_nl) (x @ c_nl # y) = c_nl # y"
  by (induction x) auto

lemma complete_none: "c_nl \<notin> set x \<Longrightarrow> complete x = []"
  by (subst complete.simps) simp

lemma complete_line: "c_nl \<notin> set l \<Longrightarrow> complete (l @ c_nl # x) = l # complete x"
  by (subst complete.simps) (simp add: no_newline)

lemma unfinished_none: "c_nl \<notin> set x \<Longrightarrow> unfinished x = x"
  by (simp add: unfinished_def no_newline)

lemma unfinished_line: "unfinished (l @ c_nl # x) = unfinished x"
  by (cases "c_nl \<in> set x") (auto simp: unfinished_def takeWhile_append takeWhile_tail no_newline)

lemma line_cases:
  obtains (none) "c_nl \<notin> set x" | (line) l y where "x = l @ c_nl # y" "c_nl \<notin> set l" "length y < length x"
proof (cases "c_nl \<in> set x")
  case True
  then obtain l y where "x = l @ c_nl # y" "c_nl \<notin> set l" by (metis split_list_first)
  then show ?thesis by (auto intro: line)
qed (rule none)

lemma complete_append: "complete (x @ y) = complete x @ complete (unfinished x @ y)"
proof (induction "length x" arbitrary: x rule: less_induct)
  case less
  show ?case
  proof (cases x rule: line_cases)
    case none
    then show ?thesis by (simp add: complete_none unfinished_none)
  next
    case (line l z)
    then show ?thesis using less [of z] by (simp add: complete_line unfinished_line)
  qed
qed

lemma unfinished_append: "unfinished (unfinished x @ y) = unfinished (x @ y)"
  by (cases "c_nl \<in> set y") (auto simp: unfinished_def takeWhile_append takeWhile_eq_all_conv dest: set_takeWhileD)

lemma unfinished_free: "c_nl \<notin> set (unfinished x)"
  by (auto simp: unfinished_def dest: set_takeWhileD)

lemma set_unfinished: "set (unfinished x) \<subseteq> set x"
  by (auto simp: unfinished_def dest: set_takeWhileD)

definition selected :: "u8 list \<Rightarrow> u8 list list \<Rightarrow> u8 list" where
  "selected re ls = concat (map (\<lambda>l. l @ [c_nl]) (filter (match re) ls))"

lemma newline_at_line: "0 \<notin> set l \<Longrightarrow> c_nl \<notin> set l \<Longrightarrow> newline_at (l @ c_nl # x) = Some (length l)"
  by (induction l) (auto simp: newline_at_def)

lemma newline_at_none: "0 \<notin> set x \<Longrightarrow> c_nl \<notin> set x \<Longrightarrow> newline_at x = None"
  by (induction x) (auto simp: newline_at_def)

lemma scan_lines: "0 \<notin> set p \<Longrightarrow> scan re p = (selected re (complete p), unfinished p)"
proof (induction "length p" arbitrary: p rule: less_induct)
  case less
  show ?case
  proof (cases p rule: line_cases)
    case none
    then show ?thesis using less(2)
      by (subst scan.simps) (simp add: newline_at_none complete_none unfinished_none selected_def)
  next
    case (line l y)
    then have "scan re y = (selected re (complete y), unfinished y)" using less by simp
    then show ?thesis using line less(2)
      by (subst scan.simps) (simp add: newline_at_line complete_line unfinished_line selected_def)
  qed
qed

definition short :: "u8 list \<Rightarrow> bool" where
  "short x \<longleftrightarrow> (\<forall>l \<in> set (complete x @ [unfinished x]). length l < 1023)"

lemma short_append: "short (x @ y) \<Longrightarrow> short (unfinished x @ y)"
  by (auto simp: short_def complete_append [of x y] unfinished_append)

lemma short_prefix:
  assumes "short (x @ y)" and "c_nl \<notin> set x"
  shows "length x < 1023"
proof (cases y rule: line_cases)
  case none
  then show ?thesis using assms by (simp add: short_def unfinished_none complete_none)
next
  case (line l z)
  then have "complete (x @ y) = (x @ l) # complete z" using assms(2) complete_line [of "x @ l" z] by simp
  then show ?thesis using assms(1) by (simp add: short_def)
qed

lemma grep_run:
  "0 \<notin> set (buf @ inp) \<Longrightarrow> short (buf @ inp) \<Longrightarrow> c_nl \<notin> set buf \<Longrightarrow>
   grep sz t re buf inp = selected re (complete (buf @ inp))"
proof (induction "length inp" arbitrary: t buf inp rule: less_induct)
  case less
  show ?case
  proof (cases "inp = []")
    case True
    then show ?thesis using less(4) by (subst grep.simps) (simp add: read_len_def complete_none selected_def)
  next
    case False
    let ?n = "read_len (sz t) (1024 - length buf - 1) inp"
    let ?x = "buf @ take ?n inp" and ?y = "drop ?n inp"
    have b: "length buf < 1023" using short_prefix less(3,4) by blast
    then have n: "0 < ?n" "?n \<le> length inp" using False by (auto simp: read_len_def Suc_le_eq)
    have split: "buf @ inp = ?x @ ?y" by simp
    have "grep sz (t + 1) re (unfinished ?x) ?y = selected re (complete (unfinished ?x @ ?y))"
    proof (rule less(1))
      show "length ?y < length inp" using n by simp
      show "0 \<notin> set (unfinished ?x @ ?y)" using less(2) set_unfinished [of ?x] by (auto dest: in_set_takeD in_set_dropD)
      show "short (unfinished ?x @ ?y)" by (rule short_append) (use less(3) in simp)
      show "c_nl \<notin> set (unfinished ?x)" by (rule unfinished_free)
    qed
    moreover have "0 \<notin> set ?x" using less(2) by (auto dest: in_set_takeD)
    ultimately have "grep sz t re buf inp = selected re (complete ?x) @ selected re (complete (unfinished ?x @ ?y))"
      using n by (subst grep.simps) (simp add: Let_def scan_lines)
    also have "\<dots> = selected re (complete (buf @ inp))"
      using complete_append [of ?x ?y] by (simp add: selected_def)
    finally show ?thesis .
  qed
qed

text \<open>
  C36: \<open>grep\<close> prints the matching lines.  If a file has no zero byte and no line of 1023 bytes or more, then however
  the reads cut it into pieces, the output is exactly the finished lines that match, in order, each with
  its newline.  (A line that fills the buffer ends the program: the next read asks for zero bytes.)
\<close>

theorem grep_output:
  assumes "0 \<notin> set inp" and "\<forall>l \<in> set (complete inp @ [unfinished inp]). length l < 1023"
  shows "grep sz t re [] inp = concat (map (\<lambda>l. l @ [c_nl]) (filter (match re) (complete inp)))"
proof -
  have "short inp" using assms(2) by (simp add: short_def)
  then show ?thesis using grep_run [of "[]" inp sz t re] assms(1) by (simp add: selected_def)
qed

text \<open>The file \<^verbatim>\<open>ab\<close>, \<^verbatim>\<open>b\<close>, \<^verbatim>\<open>a\<close> and the pattern \<^verbatim>\<open>^a\<close>, read in pieces of two bytes.\<close>

theorem grep_output_witness:
  "grep (\<lambda>_. 2) 0 [94, 97] [] [97, 98, 10, 98, 10, 97, 10] = [97, 98, 10, 97, 10]"
proof -
  have c: "complete [97, 98, 10, 98, 10, 97, 10] = [[97, 98], [98], [97]]"
    by (simp add: complete.simps)
  have m: "match [94, 97] [97, 98]" "\<not> match [94, 97] [98]" "match [94, 97] [97]"
    by (simp_all add: match_def matchhere.simps)
  show ?thesis
    by (subst grep_output) (use m in \<open>simp_all add: c unfinished_def\<close>)
qed

end
