(* ===== verification/Umalloc.thy ===== *)
theory Umalloc
  imports Prelude
begin

section \<open>The user-level allocator (\<^verbatim>\<open>user/umalloc.c\<close>)\<close>

text \<open>
  Memory is seen through the headers of the blocks, 16 bytes each: \<open>hptr\<close> and \<open>hsize\<close> are the two fields of
  the header at an address.  \<open>ubase\<close> is the address of the static \<^verbatim>\<open>base\<close>, \<open>ubrk\<close> the end of the process's
  memory.  \<open>can b n\<close>, a parameter, says whether \<^verbatim>\<open>sbrk(n)\<close> succeeds at the break \<open>b\<close>; it then answers \<open>b\<close> and
  the new break is \<open>b + n\<close>.  A loop that never ends has the value \<open>None\<close>.
\<close>

record uheap =
  hptr :: "u64 \<Rightarrow> u64"
  hsize :: "u64 \<Rightarrow> u32"
  ubase :: u64
  ufreep :: u64
  ubrk :: u64

text \<open>\<^verbatim>\<open>p + p->s.size\<close> for a pointer to headers.\<close>

definition block_end :: "uheap \<Rightarrow> u64 \<Rightarrow> u64" where
  "block_end h p = p + 16 * ucast (hsize h p)"

definition set_ptr :: "u64 \<Rightarrow> u64 \<Rightarrow> uheap \<Rightarrow> uheap" where
  "set_ptr p v h = h\<lparr>hptr := (hptr h)(p := v)\<rparr>"

definition set_size :: "u64 \<Rightarrow> u32 \<Rightarrow> uheap \<Rightarrow> uheap" where
  "set_size p n h = h\<lparr>hsize := (hsize h)(p := n)\<rparr>"

lemma set_fields [simp]:
  "hptr (set_ptr p v h) = (hptr h)(p := v)" "hsize (set_ptr p v h) = hsize h"
  "ubase (set_ptr p v h) = ubase h" "ufreep (set_ptr p v h) = ufreep h" "ubrk (set_ptr p v h) = ubrk h"
  "hptr (set_size p n h) = hptr h" "hsize (set_size p n h) = (hsize h)(p := n)"
  "ubase (set_size p n h) = ubase h" "ufreep (set_size p n h) = ufreep h" "ubrk (set_size p n h) = ubrk h"
  by (simp_all add: set_ptr_def set_size_def)

partial_function (option) free_pos :: "(u64 \<Rightarrow> u64) \<Rightarrow> u64 \<Rightarrow> u64 \<Rightarrow> u64 option" where
  "free_pos nx bp p =
     (if bp > p \<and> bp < nx p then Some p
      else if p \<ge> nx p \<and> (bp > p \<or> bp < nx p) then Some p
      else free_pos nx bp (nx p))"

definition free :: "u64 \<Rightarrow> uheap \<Rightarrow> uheap option" where
  "free ap h =
     (let bp = ap - 16 in
      case free_pos (hptr h) bp (ufreep h) of
        None \<Rightarrow> None
      | Some p \<Rightarrow>
          let h = (if block_end h bp = hptr h p then
                     let h = set_size bp (hsize h bp + hsize h (hptr h p)) h
                     in set_ptr bp (hptr h (hptr h p)) h
                   else set_ptr bp (hptr h p) h);
              h = (if block_end h p = bp then
                     let h = set_size p (hsize h p + hsize h bp) h
                     in set_ptr p (hptr h bp) h
                   else set_ptr p bp h)
          in Some (h\<lparr>ufreep := p\<rparr>))"

text \<open>The answer 0 is the null pointer.  The argument of \<^verbatim>\<open>sbrk\<close> is an \<^verbatim>\<open>int\<close>.\<close>

definition morecore :: "(u64 \<Rightarrow> int \<Rightarrow> bool) \<Rightarrow> u32 \<Rightarrow> uheap \<Rightarrow> (u64 \<times> uheap) option" where
  "morecore can nu h =
     (let nu = (if nu < 4096 then 4096 else nu); n = sint (ucast (ucast nu * 16 :: u64) :: u32); p = ubrk h in
      if \<not> can p n then Some (0, h)
      else
        let h = set_size p nu (h\<lparr>ubrk := p + word_of_int n\<rparr>) in
        case free (p + 16) h of None \<Rightarrow> None | Some h \<Rightarrow> Some (ufreep h, h))"

definition take_block :: "u32 \<Rightarrow> u64 \<Rightarrow> u64 \<Rightarrow> uheap \<Rightarrow> u64 \<times> uheap" where
  "take_block nunits prevp p h =
     (let (p, h) =
        (if hsize h p = nunits then (p, set_ptr prevp (hptr h p) h)
         else
           let h = set_size p (hsize h p - nunits) h; p = block_end h p
           in (p, set_size p nunits h))
      in (p + 16, h\<lparr>ufreep := prevp\<rparr>))"

partial_function (option) malloc_loop ::
    "(u64 \<Rightarrow> int \<Rightarrow> bool) \<Rightarrow> u32 \<Rightarrow> u64 \<Rightarrow> u64 \<Rightarrow> uheap \<Rightarrow> (u64 \<times> uheap) option" where
  "malloc_loop can nunits prevp p h =
     (if hsize h p \<ge> nunits then Some (take_block nunits prevp p h)
      else if p = ufreep h then
        (case morecore can nunits h of
           None \<Rightarrow> None
         | Some r \<Rightarrow>
             (if fst r = 0 then Some (0, snd r)
              else malloc_loop can nunits (fst r) (hptr (snd r) (fst r)) (snd r)))
      else malloc_loop can nunits p (hptr h p) h)"

definition units_for :: "u32 \<Rightarrow> u32" where
  "units_for nbytes = ucast ((ucast nbytes + 16 - 1) div 16 + 1 :: u64)"

definition malloc :: "(u64 \<Rightarrow> int \<Rightarrow> bool) \<Rightarrow> u32 \<Rightarrow> uheap \<Rightarrow> (u64 \<times> uheap) option" where
  "malloc can nbytes h =
     (let h = (if ufreep h = 0 then set_size (ubase h) 0 (set_ptr (ubase h) (ubase h) (h\<lparr>ufreep := ubase h\<rparr>)) else h)
      in malloc_loop can (units_for nbytes) (ufreep h) (hptr h (ufreep h)) h)"

subsection \<open>The free list\<close>

fun links :: "(u64 \<Rightarrow> u64) \<Rightarrow> u64 list \<Rightarrow> bool" where
  "links nx (a # b # xs) = (nx a = b \<and> links nx (b # xs))"
| "links nx _ = True"

lemma links_append: "links nx (xs @ a # ys) \<longleftrightarrow> links nx (xs @ [a]) \<and> links nx (a # ys)"
proof (induction xs)
  case (Cons x xs)
  then show ?case by (cases xs) auto
qed simp

lemma links_update: "k \<notin> set (butlast xs) \<Longrightarrow> links (nx(k := v)) xs = links nx xs"
  by (induction nx xs rule: links.induct) auto

text \<open>
  \<open>limit h a\<close> is the first address behind a block, as a number.  The allocated blocks are a set \<open>A\<close> of addresses
  of headers, the free list is \<^verbatim>\<open>base\<close> followed by \<open>L\<close>: sorted, with a gap behind each block, since neighbours
  are merged.  All blocks lie between \<open>lo\<close> and the break and do not overlap.
\<close>

definition limit :: "uheap \<Rightarrow> u64 \<Rightarrow> nat" where
  "limit h a = unat a + 16 * unat (hsize h a)"

definition apart :: "uheap \<Rightarrow> u64 \<Rightarrow> u64 \<Rightarrow> bool" where
  "apart h a b \<longleftrightarrow> limit h a \<le> unat b \<or> limit h b \<le> unat a"

definition in_heap :: "nat \<Rightarrow> uheap \<Rightarrow> u64 \<Rightarrow> bool" where
  "in_heap lo h a \<longleftrightarrow> hsize h a \<noteq> 0 \<and> lo \<le> unat a \<and> limit h a \<le> unat (ubrk h)"

definition free_list :: "uheap \<Rightarrow> u64 list \<Rightarrow> bool" where
  "free_list h L \<longleftrightarrow> links (hptr h) (ubase h # L @ [ubase h]) \<and> sorted_wrt (\<lambda>a b. limit h a < unat b) (ubase h # L) \<and>
     hsize h (ubase h) = 0 \<and> ufreep h \<in> set (ubase h # L)"

definition heap_of :: "nat \<Rightarrow> uheap \<Rightarrow> u64 list \<Rightarrow> u64 set \<Rightarrow> bool" where
  "heap_of lo h L A \<longleftrightarrow> free_list h L \<and> 0 < ubase h \<and> unat (ubase h) < lo \<and> lo \<le> unat (ubrk h) \<and> unat (ubrk h) \<le> 2 ^ 35 \<and>
     (\<forall>a \<in> set L \<union> A. in_heap lo h a) \<and> A \<inter> set L = {} \<and>
     (\<forall>a \<in> A. \<forall>b \<in> set L \<union> A. a \<noteq> b \<longrightarrow> apart h a b)"

lemma units_bytes: "unat (16 * ucast (n :: u32) :: u64) = 16 * unat n"
  using unsigned_less [of n, where 'a = nat] by (simp add: unat_word_ariths unsigned_ucast_eq take_bit_eq_mod)

lemma block_end_eq:
  assumes "limit h p < 2 ^ 64"
  shows "unat (block_end h p) = limit h p"
  using assms by (simp add: block_end_def limit_def unat_word_ariths(1) units_bytes)

lemma heap_bounds:
  assumes "heap_of lo h L A" and "a \<in> set (ubase h # L) \<union> A"
  shows "limit h a \<le> unat (ubrk h)" "limit h a < 2 ^ 64" "unat (block_end h a) = limit h a"
proof -
  show *: "limit h a \<le> unat (ubrk h)" using assms by (auto simp: heap_of_def in_heap_def free_list_def limit_def)
  also have "\<dots> < 2 ^ 64" using assms(1) by (simp add: heap_of_def)
  finally show "limit h a < 2 ^ 64" .
  then show "unat (block_end h a) = limit h a" by (rule block_end_eq)
qed

subsection \<open>The place in the free list\<close>

text \<open>The search ends at the last header before \<open>bp\<close>, wherever it begins.\<close>

lemma links_at:
  assumes "links nx (b # L @ [b])" and "b # L = xs @ q # ys"
  shows "links nx (q # ys @ [b])"
proof -
  have e: "b # L @ [b] = xs @ q # (ys @ [b])" using assms(2) by (metis append_Cons append_assoc)
  have "links nx (xs @ q # (ys @ [b]))" using assms(1) by (simp only: e)
  then show ?thesis by (simp only: links_append [of nx xs q "ys @ [b]"])
qed

lemma free_pos_here:
  assumes "links nx (b # L @ [b])" and "sorted_wrt (<) (b # L)" and "b # L = xs @ p # ys"
    and "p < bp" and "\<forall>y \<in> set ys. bp < y"
  shows "free_pos nx bp p = Some p"
proof -
  have "links nx (p # ys @ [b])" by (rule links_at [OF assms(1,3)])
  moreover have "b \<le> p" using assms(2,3) by (cases xs) auto
  ultimately have "p < bp \<and> bp < nx p \<or> nx p \<le> p" using assms(4,5) by (cases ys) auto
  then show ?thesis using assms(4) by (subst free_pos.simps) auto
qed

lemma free_pos_below:
  assumes "links nx (b # L @ [b])" and "sorted_wrt (<) (b # L)" and "p < bp" and "\<forall>y \<in> set ys. bp < y"
  shows "b # L = xs @ q # zs @ p # ys \<Longrightarrow> free_pos nx bp q = Some p"
proof (induction zs arbitrary: xs q)
  case Nil
  then have "links nx (q # p # ys @ [b])" using links_at [OF assms(1) Nil] by simp
  then have "nx q = p" by simp
  moreover have "q < p" using Nil assms(2) by (auto simp: sorted_wrt_append)
  moreover have "free_pos nx bp p = Some p"
    by (rule free_pos_here [OF assms(1,2) _ assms(3,4), of "xs @ [q]"]) (use Nil in simp)
  ultimately show ?case using assms(3) by (subst free_pos.simps) auto
next
  case (Cons z zs)
  then have "links nx (q # z # zs @ p # ys @ [b])"
    using links_at [OF assms(1) Cons(2)] by simp
  then have "nx q = z" by simp
  moreover have "q < z" "z < p" using Cons(2) assms(2) by (auto simp: sorted_wrt_append)
  moreover have "free_pos nx bp z = Some p" by (rule Cons.IH [of "xs @ [q]"]) (use Cons(2) in simp)
  ultimately show ?case using assms(3) by (subst free_pos.simps) auto
qed

lemma free_pos_above:
  assumes "links nx (b # L @ [b])" and "sorted_wrt (<) (b # L)" and "b # L = xs @ p # ys" and "p < bp" and "\<forall>y \<in> set ys. bp < y"
  shows "ys = us @ q # vs \<Longrightarrow> free_pos nx bp q = Some p"
proof (induction vs arbitrary: us q)
  case Nil
  then have "links nx (q # [b])" using links_at [OF assms(1), of "xs @ p # us" q "[]"] assms(3) by simp
  then have n: "nx q = b" by simp
  have q: "bp < q" using Nil assms(5) by simp
  moreover have "b < bp" using assms(2,3,4) by (cases xs) auto
  moreover have "free_pos nx bp b = Some p"
  proof (cases xs)
    case Nil
    then show ?thesis using free_pos_here [OF assms(1-5)] assms(3) by simp
  next
    case (Cons x xs')
    then show ?thesis using free_pos_below [OF assms(1,2,4,5), of "[]" b xs'] assms(3) by simp
  qed
  ultimately show ?case using n by (subst free_pos.simps) auto
next
  case (Cons v vs)
  then have "links nx (q # v # vs @ [b])"
    using links_at [OF assms(1), of "xs @ p # us" q "v # vs"] assms(3) by simp
  then have "nx q = v" by simp
  moreover have "bp < q" "q < v" using Cons(2) assms(2,3,5) by (auto simp: sorted_wrt_append)
  moreover have "free_pos nx bp v = Some p" by (rule Cons.IH [of "us @ [q]"]) (use Cons(2) in simp)
  ultimately show ?case by (subst free_pos.simps) auto
qed

lemma free_pos_finds:
  assumes "links nx (b # L @ [b])" and "sorted_wrt (<) (b # L)" and "b # L = xs @ p # ys" and "p < bp" and "\<forall>y \<in> set ys. bp < y"
    and "q \<in> set (b # L)"
  shows "free_pos nx bp q = Some p"
proof -
  consider "q = p" | us vs where "xs = us @ q # vs" | us vs where "ys = us @ q # vs"
    using assms(3,6) by (metis UnE in_set_conv_decomp set_ConsD set_append)
  then show ?thesis
  proof cases
    case 2
    then show ?thesis using free_pos_below [OF assms(1,2,4,5), of us q vs] assms(3) by simp
  qed (use free_pos_here [OF assms(1-5)] free_pos_above [OF assms(1-5)] in simp_all)
qed

subsection \<open>Putting a block back\<close>

text \<open>The block \<open>bp\<close> is out of the list: \<open>p\<close> is the header before it, \<open>Y\<close> are the ones behind it.\<close>

definition gap :: "nat \<Rightarrow> uheap \<Rightarrow> u64 list \<Rightarrow> u64 \<Rightarrow> u64 \<Rightarrow> u64 list \<Rightarrow> u64 set \<Rightarrow> bool" where
  "gap lo h xs p bp Y A \<longleftrightarrow>
     links (hptr h) (xs @ [p]) \<and> links (hptr h) (bp # Y @ [ubase h]) \<and> hd (xs @ [p]) = ubase h \<and>
     sorted_wrt (\<lambda>a b. limit h a < unat b) (xs @ [p]) \<and> sorted_wrt (\<lambda>a b. limit h a < unat b) Y \<and>
     limit h p \<le> unat bp \<and> (\<forall>y \<in> set Y. limit h bp \<le> unat y) \<and> hsize h (ubase h) = 0 \<and>
     0 < ubase h \<and> unat (ubase h) < lo \<and> lo \<le> unat (ubrk h) \<and> unat (ubrk h) \<le> 2 ^ 35 \<and>
     (\<forall>a \<in> set (tl (xs @ [p])) \<union> set (bp # Y) \<union> A. in_heap lo h a) \<and>
     A \<inter> (set (xs @ [p]) \<union> set (bp # Y)) = {} \<and>
     (\<forall>a \<in> A. \<forall>b \<in> set (tl (xs @ [p])) \<union> set (bp # Y) \<union> A. a \<noteq> b \<longrightarrow> apart h a b)"

lemma limit_ge: "unat a \<le> limit h a"
  by (simp add: limit_def)

lemma limit_gt: "in_heap lo h a \<Longrightarrow> unat a < limit h a"
  using unat_gt_0 [of "hsize h a"] by (simp add: in_heap_def limit_def)

lemma add_units:
  assumes "unat (a :: u64) + 16 * (unat (m :: u32) + unat n) \<le> 2 ^ 35"
  shows "unat (m + n) = unat m + unat n"
proof -
  have "unat m + unat n < 2 ^ 32" using assms by simp
  then show ?thesis by (simp add: unat_word_ariths(1))
qed

lemma sorted_less: "sorted_wrt (\<lambda>a b. limit h a < unat b) xs \<Longrightarrow> sorted_wrt (<) xs"
  by (erule sorted_wrt_mono_rel [rotated]) (use limit_ge [of _ h] in \<open>auto simp: word_less_nat_alt intro: le_less_trans\<close>)

lemma sorted_same:
  "(\<And>x. x \<in> set xs \<Longrightarrow> limit h' x = limit h x) \<Longrightarrow>
   sorted_wrt (\<lambda>a b. limit h' a < unat b) xs = sorted_wrt (\<lambda>a b. limit h a < unat b) xs"
  by (induction xs) auto

lemma sorted_partition:
  "sorted_wrt (<) xs \<Longrightarrow> filter (\<lambda>x. x < k) xs @ filter (\<lambda>x. \<not> x < (k :: u64)) xs = xs"
proof (induction xs)
  case (Cons x xs)
  show ?case
  proof (cases "x < k")
    case False
    then have "filter (\<lambda>x. x < k) xs = []" using Cons.prems by (auto simp: filter_empty_conv dest: order.strict_trans)
    then show ?thesis using Cons False by simp
  qed (use Cons in simp)
qed simp

lemma sorted_split:
  assumes "sorted_wrt (<) (b # L)" and "b < bp" and "bp \<notin> set L"
  obtains xs p ys where "b # L = xs @ p # ys" "p < bp" "\<forall>y \<in> set ys. bp < (y :: u64)" "\<forall>x \<in> set xs. x < p"
proof -
  define us where "us = filter (\<lambda>x. x < bp) (b # L)"
  define vs where "vs = filter (\<lambda>x. \<not> x < bp) (b # L)"
  have e: "b # L = us @ vs"
    using sorted_partition [OF assms(1), of bp] by (simp only: us_def vs_def)
  have "us \<noteq> []" using assms(2) by (simp add: us_def)
  then obtain xs p where u: "us = xs @ [p]" by (metis rev_exhaust)
  show ?thesis
  proof (rule that [of xs p vs])
    show "b # L = xs @ p # vs" using e u by simp
    have "p \<in> set us" using u by simp
    then show "p < bp" by (simp only: us_def set_filter mem_Collect_eq)
    show "\<forall>y \<in> set vs. bp < y" using assms(2,3) by (auto simp: vs_def not_less order.order_iff_strict)
    show "\<forall>x \<in> set xs. x < p" using assms(1) e u by (auto simp: sorted_wrt_append)
  qed
qed

lemma limit_set_ptr [simp]: "limit (set_ptr p v h) = limit h" "in_heap lo (set_ptr p v h) = in_heap lo h" "apart (set_ptr p v h) = apart h"
  by (simp_all add: limit_def in_heap_def apart_def fun_eq_iff)

lemma limit_freep [simp]: "limit (h\<lparr>ufreep := p\<rparr>) = limit h" "in_heap lo (h\<lparr>ufreep := p\<rparr>) = in_heap lo h" "apart (h\<lparr>ufreep := p\<rparr>) = apart h"
  by (simp_all add: limit_def in_heap_def apart_def fun_eq_iff)

lemma pull_out:
  assumes h: "heap_of lo h L (insert bp A)" and A: "bp \<notin> A"
  obtains xs p ys where "ubase h # L = xs @ p # ys" "free_pos (hptr h) bp (ufreep h) = Some p"
    "hptr h p = hd (ys @ [ubase h])" "gap lo (set_ptr bp (hptr h p) h) xs p bp ys A" "p < bp" "bp \<notin> set (ubase h # L)"
proof -
  have f: "links (hptr h) (ubase h # L @ [ubase h])" "sorted_wrt (\<lambda>a b. limit h a < unat b) (ubase h # L)"
    "hsize h (ubase h) = 0" "ufreep h \<in> set (ubase h # L)" using h by (auto simp: heap_of_def free_list_def)
  have lt: "sorted_wrt (<) (ubase h # L)" by (rule sorted_less [OF f(2)])
  have bp: "in_heap lo h bp" "bp \<notin> set L" using h by (auto simp: heap_of_def)
  then have "unat (ubase h) < unat bp" using h by (auto simp: heap_of_def in_heap_def)
  then have b: "ubase h < bp" by (simp add: word_less_nat_alt)
  obtain xs p ys where s: "ubase h # L = xs @ p # ys" "p < bp" "\<forall>y \<in> set ys. bp < y" "\<forall>x \<in> set xs. x < p"
    using sorted_split [OF lt b bp(2)] .
  have n: "links (hptr h) (p # ys @ [ubase h])" by (rule links_at [OF f(1) s(1)])
  then have np: "hptr h p = hd (ys @ [ubase h])" by (cases ys) auto
  have bp_new: "bp \<notin> set (ubase h # L)" using b bp(2) by auto
  then have bp': "bp \<notin> set (xs @ p # ys)" using s(1) by simp
  have ap: "apart h bp a" if "a \<in> set L" for a using h that bp(2) by (auto simp: heap_of_def)
  have before: "limit h p \<le> unat bp"
  proof (cases "p = ubase h")
    case True
    then show ?thesis using f(3) b by (simp add: limit_def word_less_nat_alt)
  next
    case False
    then have "p \<in> set L" using s(1) by (metis in_set_conv_decomp set_ConsD)
    then show ?thesis using ap [of p] s(2) limit_gt [OF bp(1)] by (auto simp: apart_def word_less_nat_alt)
  qed
  have behind: "limit h bp < unat y \<or> limit h bp = unat y" if "y \<in> set ys" for y
  proof -
    have y: "bp < y" using s(3) that by simp
    have "y \<in> set (ubase h # L)" using that s(1) by simp
    then have "y \<in> set L" using b y by auto
    then show ?thesis using ap [of y] y limit_ge [of y h] by (auto simp: apart_def word_less_nat_alt)
  qed
  show ?thesis
  proof (rule that [OF s(1) free_pos_finds [OF f(1) lt s(1,2,3) f(4)] np _ s(2) bp_new])
    show "gap lo (set_ptr bp (hptr h p) h) xs p bp ys A"
      unfolding gap_def
    proof (intro conjI)
      have "links (hptr h) (xs @ [p])" using f(1) s(1) links_append [of "hptr h" xs p "ys @ [ubase h]"]
        by (metis append_Cons append_assoc)
      then show "links (hptr (set_ptr bp (hptr h p) h)) (xs @ [p])" using bp' by (simp add: links_update)
      have "links (hptr h) (ys @ [ubase h])" using n by (cases ys) auto
      moreover have "links ((hptr h)(bp := hptr h p)) (ys @ [ubase h]) = links (hptr h) (ys @ [ubase h])"
        using bp' by (intro links_update) (auto simp: butlast_append dest: in_set_butlastD)
      ultimately show "links (hptr (set_ptr bp (hptr h p) h)) (bp # ys @ [ubase (set_ptr bp (hptr h p) h)])"
        using np by (cases ys) auto
      show "hd (xs @ [p]) = ubase (set_ptr bp (hptr h p) h)" using s(1) by (cases xs) auto
      show "\<forall>y \<in> set ys. limit (set_ptr bp (hptr h p) h) bp \<le> unat y" using behind by (fastforce simp: less_imp_le)
      have L: "set L = set (tl (xs @ [p])) \<union> set ys" using s(1) by (cases xs) auto
      show "\<forall>a \<in> set (tl (xs @ [p])) \<union> set (bp # ys) \<union> A. in_heap lo (set_ptr bp (hptr h p) h) a"
        using h L by (auto simp: heap_of_def)
      have "A \<inter> set L = {}" "ubase h \<notin> A" using h f(3) by (auto simp: heap_of_def in_heap_def)
      moreover have "set (xs @ [p]) \<union> set (bp # ys) = insert bp (insert (ubase h) (set L))"
        using arg_cong [OF s(1), of set] by auto
      ultimately show "A \<inter> (set (xs @ [p]) \<union> set (bp # ys)) = {}" using A by simp
      show "\<forall>a \<in> A. \<forall>b \<in> set (tl (xs @ [p])) \<union> set (bp # ys) \<union> A. a \<noteq> b \<longrightarrow> apart (set_ptr bp (hptr h p) h) a b"
        using h L by (auto simp: heap_of_def)
    qed (use f(2,3) s(1) before h in \<open>auto simp: sorted_wrt_append heap_of_def\<close>)
  qed
qed

lemma limit_set_size: "limit (set_size p n h) a = (if a = p then unat p + 16 * unat n else limit h a)"
  by (simp add: limit_def)

lemma size_le: "in_heap lo h a \<Longrightarrow> unat (ubrk h) \<le> 2 ^ 35 \<Longrightarrow> unat a + 16 * unat (hsize h a) \<le> 2 ^ 35"
  by (simp add: in_heap_def limit_def)

text \<open>Two adjacent blocks joined: \<open>a\<close> grows over \<open>b\<close>.\<close>

definition join :: "u64 \<Rightarrow> u64 \<Rightarrow> uheap \<Rightarrow> uheap" where
  "join a b h = set_ptr a (hptr h b) (set_size a (hsize h a + hsize h b) h)"

lemma join_fields [simp]:
  "hptr (join a b h) = (hptr h)(a := hptr h b)" "ubase (join a b h) = ubase h" "ubrk (join a b h) = ubrk h" "ufreep (join a b h) = ufreep h"
  "hsize (join a b h) = (hsize h)(a := hsize h a + hsize h b)"
  by (simp_all add: join_def)

lemma join_sizes:
  assumes "in_heap lo h a" and "in_heap lo h b" and "limit h a = unat b" and "unat (ubrk h) \<le> 2 ^ 35"
  shows "unat (hsize h a + hsize h b) = unat (hsize h a) + unat (hsize h b)" and "limit (join a b h) a = limit h b"
    and "in_heap lo (join a b h) a"
proof -
  have "unat a + 16 * (unat (hsize h a) + unat (hsize h b)) \<le> 2 ^ 35"
    using size_le [OF assms(2,4)] assms(3) by (simp add: limit_def)
  then show s: "unat (hsize h a + hsize h b) = unat (hsize h a) + unat (hsize h b)" by (rule add_units)
  then show l: "limit (join a b h) a = limit h b" using assms(3) by (simp add: limit_def)
  have "hsize h a + hsize h b \<noteq> 0" using s assms(1) by (auto simp: in_heap_def unat_eq_zero simp flip: unat_gt_0)
  then show "in_heap lo (join a b h) a" using l assms(1,2) by (simp add: in_heap_def)
qed

lemma join_other:
  "x \<noteq> a \<Longrightarrow> limit (join a b h) x = limit h x" "x \<noteq> a \<Longrightarrow> in_heap lo (join a b h) x = in_heap lo h x"
  by (simp_all add: limit_def in_heap_def)

lemma join_apart:
  assumes "limit (join a b h) a = limit h b" and "limit h a = unat b" and "in_heap lo h x" and "x \<noteq> a"
    and "apart h x a" and "apart h x b"
  shows "apart (join a b h) x a"
  using assms limit_gt [OF assms(3)] by (auto simp: apart_def join_other)

lemma gap_right:
  assumes g: "gap lo h xs p bp (q # Y) A" and e: "limit h bp = unat q"
  shows "gap lo (join bp q h) xs p bp Y A" and "\<forall>y \<in> set Y. limit (join bp q h) bp < unat y"
    and "hsize h bp \<le> hsize (join bp q h) bp" and "limit (join bp q h) bp = limit h q"
proof -
  note G = g [unfolded gap_def]
  have i: "in_heap lo h bp" "in_heap lo h q" "unat (ubrk h) \<le> 2 ^ 35" using G by auto
  note J = join_sizes [OF i(1,2) e i(3)]
  show "hsize h bp \<le> hsize (join bp q h) bp" using J(1) by (simp add: word_le_nat_alt)
  show strict: "\<forall>y \<in> set Y. limit (join bp q h) bp < unat y" using G J(2) by simp
  show "limit (join bp q h) bp = limit h q" by (rule J(2))
  have lt: "unat bp < unat q" using limit_gt [OF i(1)] e by simp
  have nbp: "bp \<notin> set (xs @ [p])"
  proof
    assume m: "bp \<in> set (xs @ [p])"
    then have "limit h bp \<le> unat bp" using G limit_ge [of p h] by (fastforce simp: sorted_wrt_append)
    then show False using limit_gt [OF i(1)] by simp
  qed
  have nY: "bp \<notin> set Y"
    using strict J(2) limit_gt [OF i(1)] lt limit_ge [of q h] by (metis le_less_trans less_le_trans nat_less_le order_less_imp_le)
  have ids: "limit (join bp q h) x = limit h x" "in_heap lo (join bp q h) x = in_heap lo h x" if "x \<noteq> bp" for x
    using join_other that by auto
  have base: "ubase h \<noteq> bp" using nbp G by (cases xs) auto
  show "gap lo (join bp q h) xs p bp Y A"
    unfolding gap_def
  proof (intro conjI)
    show "links (hptr (join bp q h)) (xs @ [p])" using G nbp by (simp add: links_update)
    have "links (hptr h) (q # Y @ [ubase h])" using G by simp
    moreover have "links ((hptr h)(bp := hptr h q)) (Y @ [ubase h]) = links (hptr h) (Y @ [ubase h])"
      using nY by (intro links_update) (auto simp: butlast_append dest: in_set_butlastD)
    ultimately show "links (hptr (join bp q h)) (bp # Y @ [ubase (join bp q h)])" by (cases Y) auto
    show "sorted_wrt (\<lambda>a b. limit (join bp q h) a < unat b) (xs @ [p])"
    proof -
      have "sorted_wrt (\<lambda>a b. limit (join bp q h) a < unat b) (xs @ [p]) = sorted_wrt (\<lambda>a b. limit h a < unat b) (xs @ [p])"
        by (rule sorted_same, rule ids(1)) (use nbp in auto)
      then show ?thesis using G by simp
    qed
    show "sorted_wrt (\<lambda>a b. limit (join bp q h) a < unat b) Y"
    proof -
      have "sorted_wrt (\<lambda>a b. limit (join bp q h) a < unat b) Y = sorted_wrt (\<lambda>a b. limit h a < unat b) Y"
        by (rule sorted_same, rule ids(1)) (use nY in auto)
      then show ?thesis using G by simp
    qed
    show "\<forall>a \<in> set (tl (xs @ [p])) \<union> set (bp # Y) \<union> A. in_heap lo (join bp q h) a"
    proof
      fix a assume "a \<in> set (tl (xs @ [p])) \<union> set (bp # Y) \<union> A"
      then show "in_heap lo (join bp q h) a" using G J(3) ids by (cases "a = bp") auto
    qed
    show "\<forall>a \<in> A. \<forall>b \<in> set (tl (xs @ [p])) \<union> set (bp # Y) \<union> A. a \<noteq> b \<longrightarrow> apart (join bp q h) a b"
    proof (intro ballI impI)
      fix a b assume a: "a \<in> A" and b: "b \<in> set (tl (xs @ [p])) \<union> set (bp # Y) \<union> A" and "a \<noteq> b"
      have ne: "a \<noteq> bp" "a \<noteq> q" using a G by auto
      show "apart (join bp q h) a b"
      proof (cases "b = bp")
        case True
        show ?thesis unfolding True by (rule join_apart [OF J(2) e _ ne(1)]) (use G a ne in auto)
      next
        case False
        then have "apart h a b" using G a b \<open>a \<noteq> b\<close> by auto
        then show ?thesis using ids ne False by (simp add: apart_def)
      qed
    qed
  qed (use G strict nbp base ids in \<open>auto simp: less_imp_le\<close>)
qed

text \<open>The end of \<open>free\<close>: \<open>bp\<close> becomes the successor of \<open>p\<close>, or \<open>p\<close> grows over it.\<close>

lemma gap_facts:
  assumes g: "gap lo h xs p bp Y A" and strict: "\<forall>y \<in> set Y. limit h bp < unat y"
  shows "bp \<notin> set (xs @ [p])" "bp \<notin> set Y" "p \<notin> set xs" "p \<notin> set Y" "unat p \<le> unat bp" "ubase h \<noteq> bp" "ubase h \<notin> set Y"
    "\<forall>x \<in> set xs. limit h x < unat p" "\<forall>y \<in> set Y. unat bp < unat y"
proof -
  note G = g [unfolded gap_def]
  have i: "in_heap lo h bp" using G by auto
  show x: "\<forall>x \<in> set xs. limit h x < unat p" using G by (auto simp: sorted_wrt_append)
  show p: "unat p \<le> unat bp" using G limit_ge [of p h] by auto
  show y: "\<forall>y \<in> set Y. unat bp < unat y" using strict limit_ge [of bp h] by (auto intro: le_less_trans)
  show "bp \<notin> set Y" "p \<notin> set Y" using y p by auto
  show "p \<notin> set xs" using x limit_ge [of p h] by auto
  show nb: "bp \<notin> set (xs @ [p])"
  proof
    assume "bp \<in> set (xs @ [p])"
    then have "limit h bp \<le> unat bp" using G limit_ge [of p h] by (fastforce simp: sorted_wrt_append)
    then show False using limit_gt [OF i] by simp
  qed
  have "ubase h \<in> set (xs @ [p])" using G by (cases xs) auto
  then show "ubase h \<noteq> bp" using nb by auto
  have "unat (ubase h) < unat bp" using G i by (auto simp: in_heap_def)
  then show "ubase h \<notin> set Y" using y by auto
qed

lemma tl_sub: "set (tl xs) \<subseteq> set xs"
  by (cases xs) auto

lemma gap_insert:
  assumes g: "gap lo h xs p bp Y A" and strict: "\<forall>y \<in> set Y. limit h bp < unat y" and e: "limit h p \<noteq> unat bp"
  shows "heap_of lo ((set_ptr p bp h)\<lparr>ufreep := p\<rparr>) (tl (xs @ p # bp # Y)) A"
proof -
  note G = g [unfolded gap_def] and F = gap_facts [OF g strict]
  have lt: "limit h p < unat bp" "\<forall>x \<in> set xs. limit h x < unat bp \<and> (\<forall>y \<in> set Y. limit h x < unat y)" "\<forall>y \<in> set Y. limit h p < unat y"
  proof -
    show "limit h p < unat bp" using G e by simp
    then show "\<forall>y \<in> set Y. limit h p < unat y" using F(9) by (auto intro: less_trans)
    have "\<forall>x \<in> set xs. limit h x < unat bp" using F(5,8) by (auto intro: less_le_trans)
    then show "\<forall>x \<in> set xs. limit h x < unat bp \<and> (\<forall>y \<in> set Y. limit h x < unat y)" using F(9) by (auto intro: less_trans)
  qed
  have c: "ubase h # tl (xs @ p # bp # Y) = xs @ p # bp # Y" using G by (cases xs) auto
  have t: "set (tl (xs @ p # bp # Y)) = set (tl (xs @ [p])) \<union> set (bp # Y)" by (cases xs) auto
  have "free_list ((set_ptr p bp h)\<lparr>ufreep := p\<rparr>) (tl (xs @ p # bp # Y))"
    unfolding free_list_def
  proof (intro conjI)
    have "links ((hptr h)(p := bp)) (xs @ [p])" "links ((hptr h)(p := bp)) (bp # Y @ [ubase h])"
      using G F by (subst links_update; auto simp: butlast_append dest: in_set_butlastD)+
    then have "links ((hptr h)(p := bp)) (xs @ p # bp # Y @ [ubase h])"
      by (subst links_append) simp
    then show "links (hptr ((set_ptr p bp h)\<lparr>ufreep := p\<rparr>)) (ubase ((set_ptr p bp h)\<lparr>ufreep := p\<rparr>) # tl (xs @ p # bp # Y) @
        [ubase ((set_ptr p bp h)\<lparr>ufreep := p\<rparr>)])" using c by (simp flip: append_Cons)
    show "sorted_wrt (\<lambda>a b. limit ((set_ptr p bp h)\<lparr>ufreep := p\<rparr>) a < unat b) (ubase ((set_ptr p bp h)\<lparr>ufreep := p\<rparr>) # tl (xs @ p # bp # Y))"
      using G by (simp add: c sorted_wrt_append lt strict)
    show "ufreep ((set_ptr p bp h)\<lparr>ufreep := p\<rparr>) \<in> set (ubase ((set_ptr p bp h)\<lparr>ufreep := p\<rparr>) # tl (xs @ p # bp # Y))"
      by (simp add: c)
  qed (use G in simp)
  moreover have "A \<inter> set (tl (xs @ p # bp # Y)) = {}" using G tl_sub [of "xs @ [p]"] unfolding t by blast
  ultimately show ?thesis using G by (auto simp: heap_of_def t)
qed

lemma gap_left:
  assumes g: "gap lo h xs p bp Y A" and strict: "\<forall>y \<in> set Y. limit h bp < unat y" and e: "limit h p = unat bp"
  shows "heap_of lo ((join p bp h)\<lparr>ufreep := p\<rparr>) (tl (xs @ p # Y)) A" and "hsize h bp \<le> hsize (join p bp h) p" and "p \<in> set (tl (xs @ p # Y))"
    and "limit (join p bp h) p = limit h bp"
proof -
  note G = g [unfolded gap_def] and F = gap_facts [OF g strict]
  let ?h = "(join p bp h)\<lparr>ufreep := p\<rparr>"
  have i: "in_heap lo h bp" "unat (ubrk h) \<le> 2 ^ 35" using G by auto
  have "p \<noteq> ubase h"
  proof
    assume "p = ubase h"
    then have "unat (ubase h) = unat bp" using G e by (simp add: limit_def)
    then show False using F(6) by (simp add: word_unat_eq_iff)
  qed
  then obtain x xs' where xs: "xs = x # xs'" "x = ubase h" using G by (cases xs) auto
  then show "p \<in> set (tl (xs @ p # Y))" by simp
  have ip: "in_heap lo h p" using G xs by auto
  note J = join_sizes [OF ip i(1) e i(2)]
  have l: "limit ?h p = limit h bp" "limit ?h a = limit h a" "in_heap lo ?h p" "in_heap lo ?h a = in_heap lo h a" if "a \<noteq> p" for a
    using J join_other that by auto
  show "hsize h bp \<le> hsize (join p bp h) p" using J(1) by (simp add: word_le_nat_alt)
  show "limit (join p bp h) p = limit h bp" by (rule J(2))
  have c: "ubase h # tl (xs @ p # Y) = xs @ p # Y" using xs by simp
  have t: "set (tl (xs @ p # Y)) = set (tl (xs @ [p])) \<union> set Y" by (cases xs) auto
  have xY: "\<forall>y \<in> set Y. limit h x < unat y" if "x \<in> set xs" for x
  proof
    fix y assume "y \<in> set Y"
    then have "limit h x < unat p" "unat bp < unat y" using F(8,9) that by auto
    then show "limit h x < unat y" using F(5) by simp
  qed
  have "free_list ?h (tl (xs @ p # Y))"
    unfolding free_list_def
  proof (intro conjI)
    have "links ((hptr h)(p := hptr h bp)) (xs @ [p])" using G F by (subst links_update) auto
    moreover have "links (hptr h) (Y @ [ubase h]) \<and> hptr h bp = hd (Y @ [ubase h])" using G by (cases Y) auto
    moreover have "links ((hptr h)(p := hptr h bp)) (Y @ [ubase h]) = links (hptr h) (Y @ [ubase h])"
      using F by (intro links_update) (auto simp: butlast_append dest: in_set_butlastD)
    ultimately have "links ((hptr h)(p := hptr h bp)) (xs @ p # Y @ [ubase h])"
      by (subst links_append) (cases Y; simp)
    then show "links (hptr ?h) (ubase ?h # tl (xs @ p # Y) @ [ubase ?h])" using c by (simp flip: append_Cons)
    have sx: "sorted_wrt (\<lambda>a b. limit ?h a < unat b) xs = sorted_wrt (\<lambda>a b. limit h a < unat b) xs"
      by (rule sorted_same, rule l(2)) (use F in auto)
    have sY: "sorted_wrt (\<lambda>a b. limit ?h a < unat b) Y = sorted_wrt (\<lambda>a b. limit h a < unat b) Y"
      by (rule sorted_same, rule l(2)) (use F in auto)
    have xl: "limit ?h x = limit h x" if "x \<in> set xs" for x
      using l(2) [of x] F(3) that by (cases "x = p") auto
    have "sorted_wrt (\<lambda>a b. limit ?h a < unat b) (xs @ p # Y)"
      using G F(8) sx sY xl l(1) [of bp] F(1) strict xY by (simp add: sorted_wrt_append)
    then show "sorted_wrt (\<lambda>a b. limit ?h a < unat b) (ubase ?h # tl (xs @ p # Y))" using c by simp
    show "ufreep ?h \<in> set (ubase ?h # tl (xs @ p # Y))" using c by simp
    show "hsize ?h (ubase ?h) = 0" using G \<open>p \<noteq> ubase h\<close> by simp
  qed
  moreover have "A \<inter> set (tl (xs @ p # Y)) = {}" using G tl_sub [of "xs @ [p]"] unfolding t by auto
  moreover have "in_heap lo ?h a" if "a \<in> set (tl (xs @ p # Y)) \<union> A" for a
  proof (cases "a = p")
    case True
    then show ?thesis using J(3) by simp
  next
    case False
    then show ?thesis using G that l(4) [of a] unfolding t by auto
  qed
  moreover have "apart ?h a b" if "a \<in> A" "b \<in> set (tl (xs @ p # Y)) \<union> A" "a \<noteq> b" for a b
  proof -
    have a: "a \<noteq> p" "a \<noteq> bp" "in_heap lo h a" "apart h a bp" using that G by auto
    have ab: "apart h a b" using G that unfolding t by auto
    show ?thesis
    proof (cases "b = p")
      case True
      then have "apart (join p bp h) a p" using join_apart [OF J(2) e a(3,1) _ a(4)] ab by simp
      then show ?thesis using True by simp
    next
      case False
      then show ?thesis using ab l(2) [of a] l(2) [of b] a by (simp add: apart_def)
    qed
  qed
  ultimately show "heap_of lo ?h (tl (xs @ p # Y)) A" using G by (simp add: heap_of_def)
qed

text \<open>The bytes that a set of blocks covers.  Joining two neighbours keeps them.\<close>

definition extent :: "uheap \<Rightarrow> u64 set \<Rightarrow> nat set" where
  "extent h S = (\<Union>b \<in> S. {unat b ..< limit h b})"

lemma extent_simps [simp]:
  "extent h {} = {}" "extent h (insert b S) = {unat b ..< limit h b} \<union> extent h S" "extent h (S \<union> T) = extent h S \<union> extent h T"
  by (auto simp: extent_def)

lemma extent_same: "(\<And>b. b \<in> S \<Longrightarrow> limit h' b = limit h b) \<Longrightarrow> extent h' S = extent h S"
  by (simp add: extent_def)

lemma extent_join:
  assumes "limit h a = unat b" and "limit (join a b h) a = limit h b" and "a \<notin> S"
  shows "extent (join a b h) (insert a S) = extent h (insert a (insert b S))"
proof -
  have "{unat a ..< limit h b} = {unat a ..< unat b} \<union> {unat b ..< limit h b}"
    using assms(1) limit_ge [of a h] limit_ge [of b h] by (intro ivl_disj_un_two(3) [symmetric]) auto
  moreover have "extent (join a b h) S = extent h S" using assms(3) by (intro extent_same join_other) auto
  ultimately show ?thesis using assms(1,2) by auto
qed

lemma extent_tail:
  assumes "heap_of lo h (tl zs) A" and "hd zs = ubase h" and "zs \<noteq> []"
  shows "extent h (set (tl zs)) = extent h (set zs)"
proof -
  have "set zs = insert (ubase h) (set (tl zs))" using assms(2,3) by (cases zs) auto
  moreover have "limit h (ubase h) = unat (ubase h)" using assms(1) by (simp add: heap_of_def free_list_def limit_def)
  ultimately show ?thesis by simp
qed

text \<open>\<open>free\<close> on an allocated block.\<close>

lemma set_ptr_twice: "set_ptr p v (set_ptr p w h) = set_ptr p v h"
  by (simp add: set_ptr_def)

lemma join_gap: "join bp q (set_ptr bp v h) = join bp q h" if "q \<noteq> bp"
  using that by (simp add: join_def set_ptr_def set_size_def)

lemma free_run:
  assumes h: "heap_of lo h L (insert bp A)" and A: "bp \<notin> A"
  shows "\<exists>h' L'. free (bp + 16) h = Some h' \<and> heap_of lo h' L' A \<and> (\<forall>a \<in> A. hsize h' a = hsize h a) \<and>
    (\<exists>k \<in> set L'. hsize h bp \<le> hsize h' k) \<and> ubrk h' = ubrk h \<and> ubase h' = ubase h \<and>
    extent h' (set L') = extent h (set L) \<union> {unat bp ..< limit h bp}"
proof -
  obtain xs p ys where P: "ubase h # L = xs @ p # ys" "free_pos (hptr h) bp (ufreep h) = Some p"
    "hptr h p = hd (ys @ [ubase h])" "gap lo (set_ptr bp (hptr h p) h) xs p bp ys A" "p < bp" "bp \<notin> set (ubase h # L)"
    using pull_out [OF h A] .
  have bp: "in_heap lo h bp" using h by (simp add: heap_of_def)
  have end_bp: "unat (block_end h bp) = limit h bp" using heap_bounds [OF h] by simp
  define h1 where "h1 = (if block_end h bp = hptr h p then join bp (hptr h p) h else set_ptr bp (hptr h p) h)"
  define Y where "Y = (if block_end h bp = hptr h p then tl ys else ys)"
  define S where "S = set (xs @ [p])"
  have nS: "bp \<notin> S" "bp \<notin> set ys" using P(1,6) by (auto simp: S_def)
  have g: "gap lo h1 xs p bp Y A \<and> (\<forall>y \<in> set Y. limit h1 bp < unat y) \<and> hsize h bp \<le> hsize h1 bp \<and>
      (\<forall>a. a \<noteq> bp \<longrightarrow> hsize h1 a = hsize h a) \<and> ubrk h1 = ubrk h \<and> ubase h1 = ubase h \<and>
      extent h1 (insert bp (S \<union> set Y)) = extent h (insert bp (S \<union> set ys))"
  proof (cases "block_end h bp = hptr h p")
    case True
    have "ys \<noteq> []"
    proof
      assume "ys = []"
      then have "limit h bp = unat (ubase h)" using P(3) True end_bp by simp
      then show False using bp h limit_ge [of bp h] by (simp add: heap_of_def in_heap_def)
    qed
    then obtain q ys' where q: "ys = q # ys'" "hptr h p = q" using P(3) by (cases ys) auto
    have ne: "q \<noteq> bp" using P(1,6) q by auto
    have e: "limit (set_ptr bp q h) bp = unat q" using True end_bp q by simp
    note R = gap_right [OF P(4) [unfolded q] e, unfolded join_gap [OF ne]]
    have hY: "h1 = join bp q h" "Y = ys'" using True q by (simp_all add: h1_def Y_def)
    have "extent (join bp q h) (insert bp (S \<union> set ys')) = extent h (insert bp (insert q (S \<union> set ys')))"
      by (rule extent_join) (use e R(4) nS q in auto)
    then show ?thesis using R hY q by auto
  next
    case False
    have "limit h bp < unat y" if "y \<in> set ys" for y
    proof -
      obtain q ys' where q: "ys = q # ys'" "hptr h p = q" using P(3) \<open>y \<in> set ys\<close> by (cases ys) auto
      have "limit h bp \<le> unat q" "sorted_wrt (\<lambda>a b. limit h a < unat b) (q # ys')" using P(4) q by (auto simp: gap_def)
      moreover have "limit h bp \<noteq> unat q" using False end_bp q by (auto simp: word_unat_eq_iff)
      ultimately show ?thesis using that q limit_ge [of q h] by fastforce
    qed
    moreover have "extent h1 T = extent h T" for T using False by (intro extent_same) (simp add: h1_def)
    ultimately show ?thesis using P(4) False by (simp add: h1_def Y_def)
  qed
  have old: "extent h (set L) = extent h (S \<union> set ys)"
  proof -
    have "extent h (set L) = extent h (set (ubase h # L))" using extent_tail [of lo h "ubase h # L"] h by simp
    then show ?thesis unfolding P(1) by (simp add: S_def)
  qed
  have hd: "hd (xs @ p # zs) = ubase h" for zs using P(1) by (cases xs) auto
  have sizes: "\<forall>a \<in> A. hsize h1 a = hsize h a" using g A by metis
  have pA: "p \<notin> A" "bp \<noteq> p" using g P(5) by (auto simp: gap_def)
  have "limit h1 p \<le> unat bp" using g by (simp add: gap_def)
  then have end_p: "unat (block_end h1 p) = limit h1 p"
    using unsigned_less [of bp, where 'a = nat] by (intro block_end_eq) simp
  have f: "free (bp + 16) h = Some ((if block_end h1 p = bp then join p bp h1 else set_ptr p bp h1)\<lparr>ufreep := p\<rparr>)"
    using P(2,5) by (simp add: free_def Let_def h1_def join_def)
  show ?thesis
  proof (cases "block_end h1 p = bp")
    case True
    then have e: "limit h1 p = unat bp" using end_p by simp
    note R = gap_left [OF conjunct1 [OF g] _ e]
    let ?h = "(join p bp h1)\<lparr>ufreep := p\<rparr>" and ?L = "tl (xs @ p # Y)"
    have H: "heap_of lo ?h ?L A" "limit (join p bp h1) p = limit h1 bp" using R g by blast+
    have pS: "p \<in> S" by (simp add: S_def)
    have "extent ?h (set ?L) = extent ?h (S \<union> set Y)"
      using extent_tail [OF H(1)] hd g by (simp add: S_def)
    also have "\<dots> = extent (join p bp h1) (insert p (S \<union> set Y - {p}))"
      using pS by (simp add: extent_def insert_absorb)
    also have "\<dots> = extent h1 (insert p (insert bp (S \<union> set Y - {p})))" by (rule extent_join [OF e H(2)]) simp
    also have "insert p (insert bp (S \<union> set Y - {p})) = insert bp (S \<union> set Y)" using pS pA by auto
    finally have "extent ?h (set ?L) = extent h (set L) \<union> {unat bp ..< limit h bp}" using g old by auto
    then show ?thesis
      by (intro exI [of _ ?h] exI [of _ ?L]) (use f True R g pA sizes in \<open>auto intro: order_trans\<close>)
  next
    case False
    then have e: "limit h1 p \<noteq> unat bp" using end_p by (auto simp: word_unat_eq_iff)
    note R = gap_insert [OF conjunct1 [OF g] _ e]
    let ?h = "(set_ptr p bp h1)\<lparr>ufreep := p\<rparr>" and ?L = "tl (xs @ p # bp # Y)"
    have H: "heap_of lo ?h ?L A" using R g by blast
    have "extent ?h (set ?L) = extent ?h (insert bp (S \<union> set Y))"
      using extent_tail [OF H] hd g by (simp add: S_def insert_commute)
    also have "\<dots> = extent h1 (insert bp (S \<union> set Y))" by (rule extent_same) simp
    finally have "extent ?h (set ?L) = extent h (set L) \<union> {unat bp ..< limit h bp}" using g old by auto
    moreover have "bp \<in> set ?L" by (cases xs) auto
    ultimately show ?thesis
      by (intro exI [of _ ?h] exI [of _ ?L]) (use f False R g pA sizes in auto)
  qed
qed

subsection \<open>More memory\<close>

definition sbrk_ok :: "(u64 \<Rightarrow> int \<Rightarrow> bool) \<Rightarrow> bool" where
  "sbrk_ok can \<longleftrightarrow> (\<forall>b n. can b n \<longrightarrow> int (unat b) + n \<le> 2 ^ 35)"

lemma heap_freep:
  assumes "heap_of lo h L A"
  shows "ufreep h \<noteq> 0"
proof -
  have "ufreep h = ubase h \<or> ufreep h \<in> set L" using assms by (auto simp: heap_of_def free_list_def)
  then show ?thesis
  proof
    assume "ufreep h \<in> set L"
    then have "lo \<le> unat (ufreep h)" using assms by (auto simp: heap_of_def in_heap_def)
    then show ?thesis using assms by (auto simp: heap_of_def)
  qed (use assms in \<open>auto simp: heap_of_def\<close>)
qed

lemma morecore_bytes:
  assumes "unat (nu :: u32) < 2 ^ 27"
  shows "sint (ucast (ucast nu * 16 :: u64) :: u32) = 16 * int (unat nu)"
proof -
  have "unat (ucast nu * 16 :: u64) = 16 * unat nu" using units_bytes [of nu] by (simp add: mult.commute)
  then have "unat (ucast (ucast nu * 16 :: u64) :: u32) = 16 * unat nu"
    using assms by (simp add: unsigned_ucast_eq take_bit_eq_mod)
  then have u: "uint (ucast (ucast nu * 16 :: u64) :: u32) = 16 * int (unat nu)"
    by (simp only: uint_nat of_nat_mult of_nat_numeral)
  have "int (unat nu) < int (2 ^ 27)" using assms by (simp only: of_nat_less_iff)
  then have lt: "uint nu < 2 ^ 27" by simp
  show ?thesis unfolding sint_uint u by (rule signed_take_bit_int_eq_self) (use lt in \<open>simp_all add: order_trans [OF _ uint_ge_0]\<close>)
qed

lemma grown:
  assumes h: "heap_of lo h L A" and nu: "nu \<noteq> 0" and n: "unat (ubrk h) + 16 * unat nu \<le> 2 ^ 35"
    and b: "unat b = unat (ubrk h) + 16 * unat nu"
  shows "heap_of lo (set_size (ubrk h) nu (h\<lparr>ubrk := b\<rparr>)) L (insert (ubrk h) A)" and "ubrk h \<notin> A"
proof -
  let ?p = "ubrk h" and ?h = "set_size (ubrk h) nu (h\<lparr>ubrk := b\<rparr>)"
  have old: "limit h a \<le> unat ?p" if "a \<in> set (ubase h # L) \<union> A" for a by (rule heap_bounds [OF h that])
  have ne: "a \<noteq> ?p" if "a \<in> set (ubase h # L) \<union> A" for a
  proof (cases "a = ubase h")
    case True
    then show ?thesis using h by (auto simp: heap_of_def)
  next
    case False
    then have "in_heap lo h a" using that h by (auto simp: heap_of_def)
    then show ?thesis using limit_gt [of lo h a] old [OF that] by auto
  qed
  then show "?p \<notin> A" by auto
  have l: "limit ?h a = limit h a" "hsize ?h a = hsize h a" if "a \<in> set (ubase h # L) \<union> A" for a
    using ne [OF that] by (simp_all add: limit_def)
  have lp: "limit ?h ?p = unat b" by (simp add: limit_def b)
  have "free_list ?h L"
  proof -
    have "sorted_wrt (\<lambda>x y. limit ?h x < unat y) (ubase h # L) = sorted_wrt (\<lambda>x y. limit h x < unat y) (ubase h # L)"
      by (rule sorted_same, rule l) auto
    then show ?thesis using h l(2) [of "ubase h"] by (simp add: heap_of_def free_list_def)
  qed
  moreover have "in_heap lo ?h a" if "a \<in> set L \<union> insert ?p A" for a
  proof (cases "a = ?p")
    case True
    then show ?thesis using nu h lp by (simp add: in_heap_def heap_of_def)
  next
    case False
    then have a: "a \<in> set (ubase h # L) \<union> A" "in_heap lo h a" using that h by (auto simp: heap_of_def)
    then show ?thesis using l [OF a(1)] b by (simp add: in_heap_def)
  qed
  moreover have "apart ?h x y" if "x \<in> insert ?p A" "y \<in> set L \<union> insert ?p A" "x \<noteq> y" for x y
  proof -
    note xy = that
    consider "x = ?p" "y \<in> set L \<union> A" | "y = ?p" "x \<in> A" | "x \<in> A" "y \<in> set L \<union> A" using xy by auto
    then show ?thesis
    proof cases
      case 1
      then show ?thesis using old [of y] l(1) [of y] by (simp add: apart_def)
    next
      case 2
      then show ?thesis using old [of x] l(1) [of x] by (simp add: apart_def)
    next
      case 3
      then have "apart h x y" using h xy(3) by (auto simp: heap_of_def)
      then show ?thesis using 3 l(1) [of x] l(1) [of y] by (simp add: apart_def)
    qed
  qed
  moreover have "insert ?p A \<inter> set L = {}" using h ne by (auto simp: heap_of_def)
  ultimately show "heap_of lo ?h L (insert ?p A)" using h b n by (simp add: heap_of_def)
qed

lemma morecore_run:
  assumes h: "heap_of lo h L A" and can: "sbrk_ok can" and nu: "unat nu < 2 ^ 27"
  shows "morecore can nu h = Some (0, h) \<and> \<not> can (ubrk h) (16 * max 4096 (uint nu)) \<or>
    (\<exists>h' L'. morecore can nu h = Some (ufreep h', h') \<and> ufreep h' \<noteq> 0 \<and> heap_of lo h' L' A \<and>
       (\<forall>a \<in> A. hsize h' a = hsize h a) \<and> (\<exists>k \<in> set L'. nu \<le> hsize h' k))"
proof -
  define m where "m = (if nu < 4096 then 4096 else nu)"
  have m: "unat m < 2 ^ 27" "m \<noteq> 0" "nu \<le> m" using nu by (auto simp: m_def word_less_nat_alt word_le_nat_alt)
  have mx: "uint m = max 4096 (uint nu)" by (auto simp: m_def word_less_def max_def)
  let ?n = "sint (ucast (ucast m * 16 :: u64) :: u32)"
  have n: "?n = 16 * int (unat m)" by (rule morecore_bytes [OF m(1)])
  show ?thesis
  proof (cases "can (ubrk h) ?n")
    case False
    then have "morecore can nu h = Some (0, h)" unfolding morecore_def m_def [symmetric] Let_def by simp
    then show ?thesis using False n mx by simp
  next
    case True
    have "int (unat (ubrk h) + 16 * unat m) \<le> int (2 ^ 35)" using can True n by (simp add: sbrk_ok_def)
    then have fits: "unat (ubrk h) + 16 * unat m \<le> 2 ^ 35" by (simp only: of_nat_le_iff)
    let ?b = "ubrk h + word_of_int ?n"
    have "word_of_int (16 * int (unat m)) = (of_nat (16 * unat m) :: u64)" by simp
    moreover have "unat (of_nat (16 * unat m) :: u64) = 16 * unat m" unfolding unat_of_nat by (rule mod_less) (use m(1) in simp)
    ultimately have "unat (word_of_int (16 * int (unat m)) :: u64) = 16 * unat m" by (simp only:)
    then have b: "unat ?b = unat (ubrk h) + 16 * unat m" using fits n by (simp add: unat_word_ariths(1))
    let ?h = "set_size (ubrk h) m (h\<lparr>ubrk := ?b\<rparr>)"
    note G = grown [OF h m(2) fits b]
    obtain h' L' where F: "free (ubrk h + 16) ?h = Some h'" "heap_of lo h' L' A" "\<forall>a \<in> A. hsize h' a = hsize ?h a"
      "\<exists>k \<in> set L'. hsize ?h (ubrk h) \<le> hsize h' k"
      using free_run [OF G] by blast
    have "morecore can nu h = Some (ufreep h', h')"
      unfolding morecore_def m_def [symmetric] Let_def using True F(1) by simp
    moreover have "\<forall>a \<in> A. hsize h' a = hsize h a" using F(3) G(2) by auto
    ultimately show ?thesis using F(2,4) m(3) heap_freep [OF F(2)] by (auto intro: order_trans)
  qed
qed

subsection \<open>Taking a block\<close>

text \<open>The list seen from the header after \<open>freep\<close> on, \<open>freep\<close> last: the order in which \<open>malloc\<close> looks at it.\<close>

lemma around:
  assumes "free_list h L"
  obtains R where "links (hptr h) (ufreep h # R)" "R \<noteq> []" "List.last R = ufreep h" "ufreep h \<notin> set (butlast R)" "set R = set (ubase h # L)"
proof -
  let ?f = "ufreep h" and ?b = "ubase h"
  have l: "links (hptr h) (?b # L @ [?b])" using assms by (simp add: free_list_def)
  obtain xs ys where s: "?b # L = xs @ ?f # ys" using assms by (metis free_list_def split_list)
  have "distinct (?b # L)" using assms sorted_less [of h "?b # L"] strict_sorted_iff [of "?b # L"] by (simp add: free_list_def)
  then have d: "?f \<notin> set ys" "?f \<notin> set xs" unfolding s by auto
  have n: "links (hptr h) (?f # ys @ [?b])" by (rule links_at [OF l s])
  have "links (hptr h) (?f # (ys @ xs) @ [?f])"
  proof (cases xs)
    case Nil
    then show ?thesis using n s by simp
  next
    case (Cons x xs')
    then have x: "x = ?b" using s by simp
    have e: "?b # L @ [?b] = (?b # xs') @ ?f # (ys @ [?b])" using s Cons x by simp
    have "links (hptr h) ((?b # xs') @ ?f # (ys @ [?b]))" using l by (simp only: e)
    then have "links (hptr h) ((?b # xs') @ [?f])" by (simp only: links_append [of "hptr h" "?b # xs'" ?f "ys @ [?b]"])
    then show ?thesis using n links_append [of "hptr h" "?f # ys" ?b "xs' @ [?f]"] Cons x by simp
  qed
  then show ?thesis by (intro that [of "(ys @ xs) @ [?f]"]) (use d s arg_cong [OF s, of set] in \<open>auto simp: butlast_append\<close>)
qed

text \<open>One tour: the first block that is large enough is taken, or there is none.\<close>

lemma malloc_tour:
  "links (hptr h) (prev # R) \<Longrightarrow> R \<noteq> [] \<Longrightarrow> List.last R = ufreep h \<Longrightarrow> ufreep h \<notin> set (butlast R) \<Longrightarrow>
   (\<exists>q \<in> set (prev # R). hptr h q \<in> set R \<and> nu \<le> hsize h (hptr h q) \<and> malloc_loop can nu prev (hd R) h = Some (take_block nu q (hptr h q) h)) \<or>
   (\<forall>r \<in> set R. hsize h r < nu) \<and> malloc_loop can nu prev (hd R) h =
     (case morecore can nu h of None \<Rightarrow> None
      | Some r \<Rightarrow> if fst r = 0 then Some (0, snd r) else malloc_loop can nu (fst r) (hptr (snd r) (fst r)) (snd r))"
proof (induction R arbitrary: prev)
  case (Cons r R)
  have n: "hptr h prev = r" using Cons.prems(1) by simp
  show ?case
  proof (cases "nu \<le> hsize h r")
    case True
    then show ?thesis using n by (subst malloc_loop.simps) auto
  next
    case small: False
    show ?thesis
    proof (cases R)
      case Nil
      then have "r = ufreep h" using Cons.prems(3) by simp
      then show ?thesis using small Nil
        by (intro disjI2 conjI) (simp, subst malloc_loop.simps, simp)
    next
      case R: (Cons r' R')
      then have ne: "r \<noteq> ufreep h" using Cons.prems(4) by auto
      have step: "malloc_loop can nu prev r h = malloc_loop can nu r (hd R) h"
        using small ne Cons.prems(1) R by (subst malloc_loop.simps) simp
      have "links (hptr h) (r # R)" "R \<noteq> []" "List.last R = ufreep h" "ufreep h \<notin> set (butlast R)" using Cons.prems R by simp_all
      from Cons.IH [OF this] show ?thesis using step small by auto
    qed
  qed
qed simp

text \<open>Where the block that was found is in the list.\<close>

lemma found_place:
  assumes "free_list h L" and "q \<in> set (ubase h # L)" and "hsize h (hptr h q) \<noteq> 0"
  obtains us vs where "ubase h # L = us @ q # hptr h q # vs"
proof -
  obtain us ws where s: "ubase h # L = us @ q # ws" using assms(2) by (metis split_list)
  have "links (hptr h) (q # ws @ [ubase h])" using assms(1) links_at [OF _ s] by (simp add: free_list_def)
  moreover have "hptr h q \<noteq> ubase h" using assms(1,3) by (auto simp: free_list_def)
  ultimately obtain vs where "ws = hptr h q # vs" by (cases ws) auto
  then show ?thesis using that s by simp
qed

lemma list_apart: "sorted_wrt (\<lambda>a b. limit h a < unat b) xs \<Longrightarrow> a \<in> set xs \<Longrightarrow> b \<in> set xs \<Longrightarrow> a \<noteq> b \<Longrightarrow> apart h a b"
  by (induction xs) (auto simp: apart_def less_imp_le)

lemma take_whole:
  assumes h: "heap_of lo h L A" and s: "ubase h # L = us @ q # r # vs" and n: "hsize h r = nu" and nu: "nu \<noteq> 0"
  shows "take_block nu q r h = (r + 16, (set_ptr q (hptr h r) h)\<lparr>ufreep := q\<rparr>)"
    and "heap_of lo ((set_ptr q (hptr h r) h)\<lparr>ufreep := q\<rparr>) (tl (us @ q # vs)) (insert r A)" and "r \<notin> A" and "r \<in> set L"
proof -
  let ?h = "(set_ptr q (hptr h r) h)\<lparr>ufreep := q\<rparr>"
  show "take_block nu q r h = (r + 16, ?h)" using n by (simp add: take_block_def Let_def)
  have f: "links (hptr h) (ubase h # L @ [ubase h])" "sorted_wrt (\<lambda>a b. limit h a < unat b) (ubase h # L)"
    "hsize h (ubase h) = 0" using h by (auto simp: heap_of_def free_list_def)
  have d: "distinct (us @ q # r # vs)" using sorted_less [OF f(2)] strict_sorted_iff [of "ubase h # L"] s by simp
  have "r \<noteq> ubase h" using f(3) n nu by auto
  moreover have "r \<in> set (ubase h # L)" using s by simp
  ultimately show rL: "r \<in> set L" by simp
  then show "r \<notin> A" using h by (auto simp: heap_of_def)
  have c: "ubase h # tl (us @ q # vs) = us @ q # vs" using s by (cases us) auto
  have L: "set (tl (us @ q # vs)) \<subseteq> set L" "r \<notin> set (tl (us @ q # vs))" using s d by (cases us; auto)+
  have "free_list ?h (tl (us @ q # vs))"
    unfolding free_list_def
  proof (intro conjI)
    have e: "ubase h # L @ [ubase h] = us @ q # (r # vs @ [ubase h])" using s by (metis append_Cons append_assoc)
    have "links (hptr h) (us @ q # (r # vs @ [ubase h]))" using f(1) by (simp only: e)
    then have l: "links (hptr h) (us @ [q])" "links (hptr h) (r # vs @ [ubase h])"
      by (simp_all add: links_append [of "hptr h" us q "r # vs @ [ubase h]"])
    have "links ((hptr h)(q := hptr h r)) (us @ [q])" using l(1) d by (subst links_update) auto
    moreover have "links (hptr h) (vs @ [ubase h]) \<and> hptr h r = hd (vs @ [ubase h])" using l(2) by (cases vs) auto
    moreover have "links ((hptr h)(q := hptr h r)) (vs @ [ubase h]) = links (hptr h) (vs @ [ubase h])"
      using d by (intro links_update) (auto simp: butlast_append dest: in_set_butlastD)
    ultimately have "links ((hptr h)(q := hptr h r)) (us @ q # vs @ [ubase h])" by (subst links_append) (cases vs; simp)
    then show "links (hptr ?h) (ubase ?h # tl (us @ q # vs) @ [ubase ?h])" using c by (simp flip: append_Cons)
    show "sorted_wrt (\<lambda>a b. limit ?h a < unat b) (ubase ?h # tl (us @ q # vs))"
      using f(2) unfolding s by (simp add: c sorted_wrt_append)
    show "ufreep ?h \<in> set (ubase ?h # tl (us @ q # vs))" by (simp add: c)
  qed (use f(3) in simp)
  moreover have "apart h a b" if "a \<in> insert r A" "b \<in> set L \<union> insert r A" "a \<noteq> b" for a b
  proof -
    note ab = that
    consider "a = r" "b \<in> set L" | "a = r" "b \<in> A" | "a \<in> A" "b \<in> set L \<union> A" using ab rL by auto
    then show ?thesis
    proof cases
      case 1
      then show ?thesis using list_apart [OF f(2), of a b] rL ab(3) by simp
    next
      case 2
      then have "apart h b r" using h rL ab(3) by (auto simp: heap_of_def)
      then show ?thesis using 2 by (auto simp: apart_def)
    qed (use h ab in \<open>auto simp: heap_of_def\<close>)
  qed
  ultimately show "heap_of lo ?h (tl (us @ q # vs)) (insert r A)"
    using h rL L by (auto simp: heap_of_def subset_iff)
qed

lemma take_part:
  assumes h: "heap_of lo h L A" and r: "r \<in> set L" and q: "q \<in> set (ubase h # L)" and n: "nu < hsize h r" and nu: "nu \<noteq> 0"
  shows "\<exists>p h'. take_block nu q r h = (p + 16, h') \<and> p \<notin> A \<and> heap_of lo h' L (insert p A) \<and> hsize h' p = nu \<and>
    (\<forall>a \<in> A. hsize h' a = hsize h a)"
proof -
  define p where "p = block_end (set_size r (hsize h r - nu) h) r"
  define h' where "h' = (set_size p nu (set_size r (hsize h r - nu) h))\<lparr>ufreep := q\<rparr>"
  have sub: "unat (hsize h r - nu) = unat (hsize h r) - unat nu" using n by (simp add: unat_sub word_less_nat_alt word_le_nat_alt less_imp_le)
  have lt: "unat nu < unat (hsize h r)" "0 < unat nu" using n nu by (simp_all add: word_less_nat_alt unat_gt_0)
  have ir: "in_heap lo h r" "limit h r < 2 ^ 64" using h r heap_bounds [OF h, of r] by (auto simp: heap_of_def)
  have "limit (set_size r (hsize h r - nu) h) r = unat r + 16 * (unat (hsize h r) - unat nu)" by (simp add: limit_def sub)
  then have p: "unat p = unat r + 16 * (unat (hsize h r) - unat nu)"
    using ir(2) lt unfolding p_def by (subst block_end_eq) (simp_all add: limit_def)
  have rp: "unat r < unat p" "unat p + 16 * unat nu = limit h r" using p lt by (simp_all add: limit_def)
  then have pr: "p \<noteq> r" by auto
  have t: "take_block nu q r h = (p + 16, h')"
    using less_imp_neq [OF n] by (simp add: take_block_def Let_def p_def h'_def)
  have f: "sorted_wrt (\<lambda>a b. limit h a < unat b) (ubase h # L)" "hsize h (ubase h) = 0" using h by (auto simp: heap_of_def free_list_def)
  have rb: "r \<noteq> ubase h" using f(2) lt by auto
  have ap: "apart h a r" if "a \<in> set (ubase h # L) \<union> A" "a \<noteq> r" for a
    using h r that list_apart [OF f(1), of a r] by (auto simp: heap_of_def)
  have le: "unat a \<le> limit h a" for a by (rule limit_ge)
  have ne: "a \<noteq> p" if "a \<in> set (ubase h # L) \<union> A" for a
  proof (cases "a = r")
    case False
    have "in_heap lo h a \<or> a = ubase h" using h that by (auto simp: heap_of_def)
    moreover have "unat (ubase h) < unat p" using h ir(1) rp by (auto simp: heap_of_def in_heap_def)
    ultimately show ?thesis using ap [OF that False] rp lt limit_gt [of lo h a] by (auto simp: apart_def)
  qed (use pr in auto)
  have other: "hsize h' a = hsize h a" "limit h' a = limit h a" if "a \<in> set (ubase h # L) \<union> A" "a \<noteq> r" for a
    using ne [OF that(1)] that(2) by (simp_all add: h'_def limit_def)
  have lr: "limit h' r = unat p" "hsize h' r \<noteq> 0" using pr p sub lt by (simp_all add: h'_def limit_def) (use n in auto)
  have lp: "limit h' p = limit h r" "hsize h' p = nu" using rp(2) by (simp_all add: h'_def limit_def)
  have r_le: "limit h' r \<le> limit h r" using lr rp by simp
  have hf [simp]: "hptr h' = hptr h" "ubase h' = ubase h" "ubrk h' = ubrk h" "ufreep h' = q" by (simp_all add: h'_def)
  have rA: "r \<notin> A" using h r by (auto simp: heap_of_def)
  have "free_list h' L"
  proof -
    have lim: "limit h' a \<le> limit h a" if "a \<in> set (ubase h # L)" for a using other(2) [of a] that r_le by (cases "a = r") auto
    have "sorted_wrt (\<lambda>a b. limit h' a < unat b) (ubase h # L)"
      by (rule sorted_wrt_mono_rel [OF _ f(1)]) (use lim in \<open>auto intro: le_less_trans\<close>)
    then show ?thesis using h q other(1) [of "ubase h"] rb f(2) by (simp add: heap_of_def free_list_def)
  qed
  moreover have "in_heap lo h' a" if "a \<in> set L \<union> insert p A" for a
  proof -
    consider "a = r" | "a = p" | "a \<noteq> r" "a \<in> set L \<union> A" using \<open>a \<in> set L \<union> insert p A\<close> by auto
    then show ?thesis
    proof cases
      case 3
      then have "in_heap lo h a" using h by (auto simp: heap_of_def)
      then show ?thesis using other [of a] 3 by (auto simp: in_heap_def)
    qed (use ir(1) lr lp rp nu in \<open>auto simp: in_heap_def\<close>)
  qed
  moreover have "apart h' a b" if "a \<in> insert p A" "b \<in> set L \<union> insert p A" "a \<noteq> b" for a b
  proof -
    note ab = that
    have pb: "apart h' p x \<and> apart h' x p \<and> (x \<noteq> r \<longrightarrow> apart h' x r)" if "x \<in> set L \<union> A" for x
      using ap [of x] other(2) [of x] lr lp rp that by (cases "x = r") (auto simp: apart_def)
    consider "a = p" "b \<in> set L \<union> A" | "b = p" "a \<in> A" | "a \<in> A" "b \<in> set L \<union> A" using ab by auto
    then show ?thesis
    proof cases
      case 3
      then have "apart h a b" using h ab(3) by (auto simp: heap_of_def)
      moreover have "a \<noteq> r" using 3 rA by auto
      ultimately show ?thesis using 3 other(2) [of a] other(2) [of b] pb [of a] by (cases "b = r") (auto simp: apart_def)
    qed (use pb in auto)
  qed
  moreover have "insert p A \<inter> set L = {}" using h ne by (auto simp: heap_of_def)
  ultimately have "heap_of lo h' L (insert p A)" using h by (simp add: heap_of_def)
  moreover have "p \<notin> A" using ne by auto
  moreover have "\<forall>a \<in> A. hsize h' a = hsize h a" using other(1) rA by auto
  ultimately show ?thesis using t lp(2) by blast
qed

lemma take_found:
  assumes h: "heap_of lo h L A" and q: "q \<in> set (ubase h # L)" and n: "nu \<le> hsize h (hptr h q)" and nu: "nu \<noteq> 0"
  shows "\<exists>p h' L'. take_block nu q (hptr h q) h = (p + 16, h') \<and> p \<notin> A \<and> heap_of lo h' L' (insert p A) \<and> hsize h' p = nu \<and>
    (\<forall>a \<in> A. hsize h' a = hsize h a)"
proof -
  have f: "free_list h L" using h by (simp add: heap_of_def)
  have nz: "hsize h (hptr h q) \<noteq> 0" using n nu by (metis word_le_0_iff)
  obtain us vs where s: "ubase h # L = us @ q # hptr h q # vs" using found_place [OF f q nz] .
  show ?thesis
  proof (cases "hsize h (hptr h q) = nu")
    case True
    note T = take_whole [OF h s True nu]
    show ?thesis
      by (rule exI [of _ "hptr h q"], rule exI [of _ "(set_ptr q (hptr h (hptr h q)) h)\<lparr>ufreep := q\<rparr>"], rule exI [of _ "tl (us @ q # vs)"])
        (use T True in simp)
  next
    case False
    then have "nu < hsize h (hptr h q)" using n by simp
    moreover have "hptr h q \<in> set L"
    proof -
      have "hptr h q \<in> set (ubase h # L)" using s by simp
      moreover have "hptr h q \<noteq> ubase h" using nz f by (auto simp: free_list_def)
      ultimately show ?thesis by simp
    qed
    ultimately show ?thesis using take_part [OF h _ q _ nu] by blast
  qed
qed

lemma loop_run:
  assumes h: "heap_of lo h L A" and can: "sbrk_ok can" and nu: "nu \<noteq> 0" "unat nu < 2 ^ 27"
  shows "malloc_loop can nu (ufreep h) (hptr h (ufreep h)) h = Some (0, h) \<and> \<not> can (ubrk h) (16 * max 4096 (uint nu)) \<or>
    (\<exists>p h' L'. malloc_loop can nu (ufreep h) (hptr h (ufreep h)) h = Some (p + 16, h') \<and> p \<notin> A \<and>
       heap_of lo h' L' (insert p A) \<and> hsize h' p = nu \<and> (\<forall>a \<in> A. hsize h' a = hsize h a))"
proof -
  have tour: "(\<exists>p h' L'. malloc_loop can nu (ufreep g) (hptr g (ufreep g)) g = Some (p + 16, h') \<and> p \<notin> A \<and>
       heap_of lo h' L' (insert p A) \<and> hsize h' p = nu \<and> (\<forall>a \<in> A. hsize h' a = hsize g a)) \<or>
     (\<forall>r \<in> set M. hsize g r < nu) \<and> malloc_loop can nu (ufreep g) (hptr g (ufreep g)) g =
       (case morecore can nu g of None \<Rightarrow> None
        | Some r \<Rightarrow> if fst r = 0 then Some (0, snd r) else malloc_loop can nu (fst r) (hptr (snd r) (fst r)) (snd r))"
    if g: "heap_of lo g M A" for g M
  proof -
    have f: "free_list g M" "ufreep g \<in> set (ubase g # M)" using g by (auto simp: heap_of_def free_list_def)
    obtain R where R: "links (hptr g) (ufreep g # R)" "R \<noteq> []" "List.last R = ufreep g" "ufreep g \<notin> set (butlast R)" "set R = set (ubase g # M)"
      using around [OF f(1)] .
    have hd: "hptr g (ufreep g) = hd R" using R(1,2) by (cases R) auto
    have sub: "set (ufreep g # R) \<subseteq> set (ubase g # M)" using R(5) f(2) by auto
    have M: "set M \<subseteq> set R" using R(5) by auto
    from malloc_tour [OF R(1-4), of nu can] show ?thesis
    proof
      assume "\<exists>q \<in> set (ufreep g # R). hptr g q \<in> set R \<and> nu \<le> hsize g (hptr g q) \<and>
        malloc_loop can nu (ufreep g) (hd R) g = Some (take_block nu q (hptr g q) g)"
      then obtain q where q: "q \<in> set (ubase g # M)" "nu \<le> hsize g (hptr g q)"
        "malloc_loop can nu (ufreep g) (hd R) g = Some (take_block nu q (hptr g q) g)" using sub by blast
      show ?thesis unfolding hd q(3) using take_found [OF g q(1,2) nu(1)] by (intro disjI1) simp
    next
      assume "(\<forall>r \<in> set R. hsize g r < nu) \<and> malloc_loop can nu (ufreep g) (hd R) g =
       (case morecore can nu g of None \<Rightarrow> None
        | Some r \<Rightarrow> if fst r = 0 then Some (0, snd r) else malloc_loop can nu (fst r) (hptr (snd r) (fst r)) (snd r))"
      then show ?thesis unfolding hd using M by (intro disjI2) auto
    qed
  qed
  from tour [OF h] show ?thesis
  proof
    assume none: "(\<forall>r \<in> set L. hsize h r < nu) \<and> malloc_loop can nu (ufreep h) (hptr h (ufreep h)) h =
       (case morecore can nu h of None \<Rightarrow> None
        | Some r \<Rightarrow> if fst r = 0 then Some (0, snd r) else malloc_loop can nu (fst r) (hptr (snd r) (fst r)) (snd r))"
    from morecore_run [OF h can nu(2)] show ?thesis
    proof
      assume "morecore can nu h = Some (0, h) \<and> \<not> can (ubrk h) (16 * max 4096 (uint nu))"
      then show ?thesis using none by simp
    next
      assume "\<exists>h' L'. morecore can nu h = Some (ufreep h', h') \<and> ufreep h' \<noteq> 0 \<and> heap_of lo h' L' A \<and>
        (\<forall>a \<in> A. hsize h' a = hsize h a) \<and> (\<exists>k \<in> set L'. nu \<le> hsize h' k)"
      then obtain g M k where G: "morecore can nu h = Some (ufreep g, g)" "ufreep g \<noteq> 0" "heap_of lo g M A"
        "\<forall>a \<in> A. hsize g a = hsize h a" "k \<in> set M" "nu \<le> hsize g k" by blast
      have "malloc_loop can nu (ufreep h) (hptr h (ufreep h)) h = malloc_loop can nu (ufreep g) (hptr g (ufreep g)) g"
        using none G(1,2) by simp
      moreover have "\<not> (\<forall>r \<in> set M. hsize g r < nu)" using G(5,6) by (auto simp: not_less)
      then obtain p h' L' where "malloc_loop can nu (ufreep g) (hptr g (ufreep g)) g = Some (p + 16, h')" "p \<notin> A"
        "heap_of lo h' L' (insert p A)" "hsize h' p = nu" "\<forall>a \<in> A. hsize h' a = hsize g a" using tour [OF G(3)] by blast
      ultimately show ?thesis using G(4) by (intro disjI2 exI [of _ p] exI [of _ h'] exI [of _ L']) simp
    qed
  qed blast
qed

subsection \<open>The allocator\<close>

text \<open>
  \<open>heap_ok lo h A\<close>: the allocated blocks are those with headers at \<open>A\<close>; either nothing was ever allocated or the free
  list is as described above.  Allocated blocks are \<open>apart\<close> from each other and from the free ones and end before the break.
\<close>

definition heap_ok :: "nat \<Rightarrow> uheap \<Rightarrow> u64 set \<Rightarrow> bool" where
  "heap_ok lo h A \<longleftrightarrow> (\<exists>L. heap_of lo h L A) \<or>
     ufreep h = 0 \<and> A = {} \<and> 0 < ubase h \<and> unat (ubase h) < lo \<and> lo \<le> unat (ubrk h) \<and> unat (ubrk h) \<le> 2 ^ 35"

lemma heap_ok_blocks:
  assumes "heap_ok lo h A" and "a \<in> A"
  shows "in_heap lo h a" and "\<forall>b \<in> A. a \<noteq> b \<longrightarrow> apart h a b"
  using assms by (auto simp: heap_ok_def heap_of_def)

lemma units_for_eq: "unat (units_for n) = (unat n + 15) div 16 + 1"
proof -
  have n: "unat n < 2 ^ 32" using unsigned_less [of n, where 'a = nat] by simp
  have "unat ((ucast n + 16 - 1 :: u64)) = unat n + 15"
    using n by (simp add: unat_word_ariths unsigned_ucast_eq take_bit_eq_mod)
  then have "unat ((ucast n + 16 - 1) div 16 + 1 :: u64) = (unat n + 15) div 16 + 1"
    using n by (simp add: unat_word_ariths unat_div)
  then show ?thesis using n by (simp add: units_for_def unsigned_ucast_eq take_bit_eq_mod)
qed

lemma malloc_run:
  assumes ok: "heap_ok lo h A" and can: "sbrk_ok can" and n: "unat nbytes \<le> 2 ^ 31 - 32"
  shows "\<exists>p h'. malloc can nbytes h = Some (p, h') \<and>
    (if p = 0 then heap_ok lo h' A \<and> \<not> can (ubrk h) (16 * max 4096 (uint (units_for nbytes)))
     else p - 16 \<notin> A \<and> heap_ok lo h' (insert (p - 16) A) \<and> unat p + unat nbytes \<le> limit h' (p - 16)) \<and>
    (\<forall>a \<in> A. hsize h' a = hsize h a)"
proof -
  let ?h = "if ufreep h = 0 then set_size (ubase h) 0 (set_ptr (ubase h) (ubase h) (h\<lparr>ufreep := ubase h\<rparr>)) else h"
  have "\<exists>L. heap_of lo ?h L A"
  proof (cases "ufreep h = 0")
    case True
    then have "\<not> heap_of lo h L A" for L using heap_freep by auto
    then have "A = {} \<and> 0 < ubase h \<and> unat (ubase h) < lo \<and> lo \<le> unat (ubrk h) \<and> unat (ubrk h) \<le> 2 ^ 35"
      using ok by (auto simp: heap_ok_def)
    then have "heap_of lo ?h [] A" using True by (simp add: heap_of_def free_list_def)
    then show ?thesis by blast
  qed (use ok in \<open>auto simp: heap_ok_def\<close>)
  then obtain L where L: "heap_of lo ?h L A" by blast
  have sizes: "\<forall>a \<in> A. hsize ?h a = hsize h a" using ok heap_freep by (auto simp: heap_ok_def)
  let ?u = "units_for nbytes"
  have u: "?u \<noteq> 0" "unat ?u < 2 ^ 27" "unat nbytes + 16 \<le> 16 * unat ?u"
  proof -
    have e: "unat ?u = (unat nbytes + 15) div 16 + 1" by (rule units_for_eq)
    then show "?u \<noteq> 0" by (metis add_is_0 one_neq_zero unat_0)
    show "unat ?u < 2 ^ 27" 
    proof -
      have "(unat nbytes + 15) div 16 \<le> (2 ^ 31 - 17) div 16" by (rule div_le_mono) (use n in simp)
      then show ?thesis unfolding e by simp
    qed
    show "unat nbytes + 16 \<le> 16 * unat ?u" unfolding e by presburger
  qed
  have m: "malloc can nbytes h = malloc_loop can ?u (ufreep ?h) (hptr ?h (ufreep ?h)) ?h"
    unfolding malloc_def Let_def ..
  have b: "ubrk ?h = ubrk h" by simp
  from loop_run [OF L can u(1,2)] show ?thesis
  proof
    assume "malloc_loop can ?u (ufreep ?h) (hptr ?h (ufreep ?h)) ?h = Some (0, ?h) \<and> \<not> can (ubrk ?h) (16 * max 4096 (uint ?u))"
    then show ?thesis using m L sizes unfolding b by (intro exI [of _ 0] exI [of _ ?h]) (auto simp: heap_ok_def)
  next
    assume "\<exists>p h' L'. malloc_loop can ?u (ufreep ?h) (hptr ?h (ufreep ?h)) ?h = Some (p + 16, h') \<and> p \<notin> A \<and>
       heap_of lo h' L' (insert p A) \<and> hsize h' p = ?u \<and> (\<forall>a \<in> A. hsize h' a = hsize ?h a)"
    then obtain p h' L' where P: "malloc_loop can ?u (ufreep ?h) (hptr ?h (ufreep ?h)) ?h = Some (p + 16, h')" "p \<notin> A"
      "heap_of lo h' L' (insert p A)" "hsize h' p = ?u" "\<forall>a \<in> A. hsize h' a = hsize ?h a" by blast
    have "in_heap lo h' p" "unat (ubrk h') \<le> 2 ^ 35" using P(3) by (auto simp: heap_of_def)
    then have "unat p < 2 ^ 35" using limit_gt [of lo h' p] by (simp add: in_heap_def)
    then have "unat (p + 16) = unat p + 16" by (simp add: unat_word_ariths(1))
    moreover from this have "p + 16 \<noteq> 0" by (metis add_is_0 unat_0 zero_neq_numeral)
    moreover have "limit h' p = unat p + 16 * unat ?u" using P(4) by (simp add: limit_def)
    ultimately show ?thesis using m P u(3) sizes
      by (intro exI [of _ "p + 16"] exI [of _ h']) (auto simp: heap_ok_def)
  qed
qed

text \<open>
  C22: \<open>malloc\<close> keeps the heap in order.  For every request below two gigabytes it terminates.  It answers the null pointer, when
  \<^verbatim>\<open>sbrk\<close> refused memory, and then nothing is allocated; or the address behind a new header.  The new block
  has room for the bytes, overlaps no allocated and no free block, and the blocks allocated before keep their sizes.
\<close>

theorem malloc_spec:
  assumes "heap_ok lo h A" and "sbrk_ok can" and "unat nbytes \<le> 2 ^ 31 - 32"
  shows "\<exists>p h'. malloc can nbytes h = Some (p, h') \<and>
    (if p = 0 then heap_ok lo h' A \<and> \<not> can (ubrk h) (16 * max 4096 (uint (units_for nbytes)))
     else p - 16 \<notin> A \<and> heap_ok lo h' (insert (p - 16) A) \<and> unat p + unat nbytes \<le> limit h' (p - 16)) \<and>
    (\<forall>a \<in> A. hsize h' a = hsize h a)"
  by (rule malloc_run [OF assms])

definition demo_heap :: uheap where
  "demo_heap = \<lparr>hptr = \<lambda>_. 0, hsize = \<lambda>_. 0, ubase = 0x2000, ufreep = 0, ubrk = 0x5000\<rparr>"

definition demo_can :: "u64 \<Rightarrow> int \<Rightarrow> bool" where
  "demo_can b n \<longleftrightarrow> int (unat b) + n \<le> 2 ^ 20"

lemma demo_heap_ok: "heap_ok 0x5000 demo_heap {}" "sbrk_ok demo_can"
  by (auto simp: heap_ok_def demo_heap_def sbrk_ok_def demo_can_def)

theorem malloc_spec_witness:
  "\<exists>p h'. malloc demo_can 100 demo_heap = Some (p, h') \<and> p \<noteq> 0 \<and> heap_ok 0x5000 h' {p - 16}"
proof -
  have "demo_can (ubrk demo_heap) (16 * max 4096 (uint (units_for 100)))"
    by (simp add: demo_can_def demo_heap_def units_for_def)
  then show ?thesis using malloc_spec [OF demo_heap_ok, of 100] by (auto split: if_splits)
qed

text \<open>
  C37: \<open>free\<close> gives a block back.  In an ordered heap with the free list \<open>L\<close>, a call with a pointer to the allocated
  block \<open>a\<close> terminates.  Afterwards the bytes of the blocks in the free list are those of before and those of \<open>a\<close>, no
  more and no fewer; the list is sorted again and there is a gap behind each of its blocks (\<open>free_list\<close>, a part of
  \<open>heap_of\<close>), so that \<open>a\<close> was joined with the free blocks next to it; \<open>a\<close> is not allocated any more, the other
  allocated blocks keep their sizes, and the break does not move.
\<close>

theorem free_spec:
  assumes "heap_of lo h L A" and "a \<in> A"
  shows "\<exists>h' L'. free (a + 16) h = Some h' \<and> heap_of lo h' L' (A - {a}) \<and>
    (\<Union>b \<in> set L'. {unat b ..< limit h' b}) = (\<Union>b \<in> set L. {unat b ..< limit h b}) \<union> {unat a ..< limit h a} \<and>
    (\<forall>b \<in> A - {a}. hsize h' b = hsize h b) \<and> ubrk h' = ubrk h"
proof -
  have L: "heap_of lo h L (insert a (A - {a}))" using assms by (simp add: insert_absorb)
  show ?thesis using free_run [OF L] unfolding extent_def by auto
qed

text \<open>Blocks at \<open>0x5000\<close> and \<open>0x5080\<close> are allocated, the first of them is freed.\<close>

definition demo_block :: uheap where
  "demo_block = \<lparr>hptr = (\<lambda>_. 0x2000)(0x2000 := 0x5100), hsize = (\<lambda>_. 0)(0x5000 := 8, 0x5080 := 8, 0x5100 := 4), ubase = 0x2000,
     ufreep = 0x2000, ubrk = 0x6000\<rparr>"

theorem free_spec_witness:
  "\<exists>h' L'. free (0x5080 + 16) demo_block = Some h' \<and> heap_of 0x5000 h' L' {0x5000} \<and>
    (\<Union>b \<in> set L'. {unat b ..< limit h' b}) = {0x5080 ..< 0x5140}"
proof -
  have ok: "heap_of 0x5000 demo_block [0x5100] {0x5000, 0x5080}"
    by (simp add: heap_of_def demo_block_def free_list_def in_heap_def limit_def apart_def)
  have s: "{0x5000, 0x5080 :: u64} - {0x5080} = {0x5000}" by auto
  have e: "limit demo_block 0x5100 = 0x5140" "limit demo_block 0x5080 = 0x5100" by (simp_all add: demo_block_def limit_def)
  have "{0x5100 ..< 0x5140} \<union> {0x5080 ..< 0x5100} = {0x5080 ..< 0x5140 :: nat}" by auto
  then show ?thesis
    using free_spec [OF ok, of "0x5080"] by (auto simp: e s)
qed

end
