(* ===== verification/Ulib.thy ===== *)
theory Ulib
  imports Cstring Print
begin

section \<open>The user library (\<^verbatim>\<open>user/ulib.c\<close>, \<^verbatim>\<open>user/printf.c\<close>)\<close>

text \<open>
  Pointers are as in \<open>Cstring\<close>.  The routines differ from the kernel's of the same names: \<open>strchr\<close> never finds the
  terminating zero, \<open>u_memmove\<close> decides the direction by the order of the pointers alone.  What \<^verbatim>\<open>printf\<close>
  writes is the list of its bytes.
\<close>

subsection \<open>Strings and memory\<close>

fun strcpy :: "u8 list \<Rightarrow> u8 list \<Rightarrow> u8 list option" where
  "strcpy (x # s) (c # t) = (if c \<noteq> 0 then map_option ((#) c) (strcpy s t) else Some (0 # s))"
| "strcpy _ _ = None"

fun strcmp :: "u8 list \<Rightarrow> u8 list \<Rightarrow> int option" where
  "strcmp (a # p) (b # q) = (if a \<noteq> 0 \<and> a = b then strcmp p q else Some (uint a - uint b))"
| "strcmp _ _ = None"

fun u_strlen :: "u8 list \<Rightarrow> nat option" where
  "u_strlen [] = None"
| "u_strlen (c # s) = (if c \<noteq> 0 then map_option Suc (u_strlen s) else Some 0)"

text \<open>The answer is an offset; \<open>Some None\<close> is the null pointer.\<close>

fun strchr :: "u8 list \<Rightarrow> u8 \<Rightarrow> nat option option" where
  "strchr [] c = None"
| "strchr (x # s) c =
     (if x \<noteq> 0 then (if x = c then Some (Some 0) else map_option (map_option Suc) (strchr s c)) else Some None)"

primrec u_memset_loop :: "nat \<Rightarrow> u8 list \<Rightarrow> nat \<Rightarrow> u8 \<Rightarrow> u8 list option" where
  "u_memset_loop 0 xs d c = Some xs"
| "u_memset_loop (Suc k) xs d c = do { ys \<leftarrow> wr xs d c; u_memset_loop k ys (Suc d) c }"

definition u_memset :: "u8 list \<Rightarrow> nat \<Rightarrow> u8 \<Rightarrow> nat \<Rightarrow> u8 list option" where
  "u_memset xs d c n = u_memset_loop n xs d c"

primrec u_copy_up :: "nat \<Rightarrow> u8 list \<Rightarrow> nat \<Rightarrow> nat \<Rightarrow> u8 list option" where
  "u_copy_up 0 xs d s = Some xs"
| "u_copy_up (Suc n) xs d s = do { b \<leftarrow> rd xs s; ys \<leftarrow> wr xs d b; u_copy_up n ys (Suc d) (Suc s) }"

primrec u_copy_down :: "nat \<Rightarrow> u8 list \<Rightarrow> nat \<Rightarrow> nat \<Rightarrow> u8 list option" where
  "u_copy_down 0 xs d s = Some xs"
| "u_copy_down (Suc n) xs d s = do { b \<leftarrow> rd xs (s + n); ys \<leftarrow> wr xs (d + n) b; u_copy_down n ys d s }"

definition u_memmove :: "u8 list \<Rightarrow> nat \<Rightarrow> nat \<Rightarrow> int \<Rightarrow> u8 list option" where
  "u_memmove xs d s n = (if s > d then u_copy_up (nat n) xs d s else u_copy_down (nat n) xs d s)"

fun u_memcmp :: "u8 list \<Rightarrow> u8 list \<Rightarrow> nat \<Rightarrow> int option" where
  "u_memcmp p q 0 = Some 0"
| "u_memcmp (a # p) (b # q) (Suc n) = (if a \<noteq> b then Some (uint a - uint b) else u_memcmp p q n)"
| "u_memcmp _ _ (Suc n) = None"

definition u_memcpy :: "u8 list \<Rightarrow> nat \<Rightarrow> nat \<Rightarrow> nat \<Rightarrow> u8 list option" where
  "u_memcpy xs d s n = u_memmove xs d s (int n)"

text \<open>A signed result outside the range of \<^verbatim>\<open>int\<close>, also an intermediate one, is undefined.\<close>

definition int_ok :: "int \<Rightarrow> bool" where
  "int_ok x \<longleftrightarrow> - (2 ^ 31) \<le> x \<and> x < 2 ^ 31"

fun atoi_loop :: "int \<Rightarrow> u8 list \<Rightarrow> int option" where
  "atoi_loop n [] = None"
| "atoi_loop n (c # s) =
     (if 48 \<le> c \<and> c \<le> 57 then
        (if int_ok (n * 10) \<and> int_ok (n * 10 + uint c) then atoi_loop (n * 10 + uint c - 48) s else None)
      else Some n)"

definition atoi :: "u8 list \<Rightarrow> int option" where
  "atoi s = atoi_loop 0 s"

subsection \<open>Input and files\<close>

text \<open>
  \<open>gets\<close> reads byte by byte until the buffer of \<open>max\<close> bytes is full, a line ends, or nothing is left of the input;
  the answer is the string that it stores and the input left.  \<open>k\<close> bytes still fit.
\<close>

fun gets_loop :: "nat \<Rightarrow> u8 list \<Rightarrow> u8 list \<times> u8 list" where
  "gets_loop 0 inp = ([], inp)"
| "gets_loop (Suc k) [] = ([], [])"
| "gets_loop (Suc k) (c # inp) =
     (if c = 10 \<or> c = 13 then ([c], inp) else let r = gets_loop k inp in (c # fst r, snd r))"

definition gets_line :: "int \<Rightarrow> u8 list \<Rightarrow> u8 list \<times> u8 list" where
  "gets_line mx inp = (let r = gets_loop (nat (mx - 1)) inp in (fst r @ [0], snd r))"

text \<open>The system calls are parameters; \<open>fstat\<close> answers with the new contents of the \<^verbatim>\<open>struct stat\<close> too.\<close>

definition stat_path :: "(u8 list \<Rightarrow> int \<Rightarrow> 's \<Rightarrow> int \<times> 's) \<Rightarrow> (int \<Rightarrow> 's \<Rightarrow> int \<times> u8 list \<times> 's) \<Rightarrow> (int \<Rightarrow> 's \<Rightarrow> 's) \<Rightarrow>
    u8 list \<Rightarrow> 's \<Rightarrow> int \<times> u8 list option \<times> 's" where
  "stat_path open_sys fstat_sys close_sys n s =
     (let (fd, s) = open_sys n 0 s in
      if fd < 0 then (-1, None, s)
      else let (r, st, s) = fstat_sys fd s; s = close_sys fd s in (r, Some st, s))"

subsection \<open>Printing\<close>

definition u_digit :: "nat \<Rightarrow> u8" where
  "u_digit k = (if k < 10 then of_nat (48 + k) else of_nat (55 + k))"

definition u_printint_buf :: "u32 \<Rightarrow> nat \<Rightarrow> bool \<Rightarrow> u8 list" where
  "u_printint_buf xx base sg =
     (let neg = sg \<and> sint xx < 0; x = (if neg then - xx else xx) in
      map u_digit (digits_rev base (unat x)) @ (if neg then [45] else []))"

definition u_printint :: "u32 \<Rightarrow> nat \<Rightarrow> bool \<Rightarrow> u8 list option" where
  "u_printint xx base sg =
     (let buf = u_printint_buf xx base sg in if length buf \<le> 16 then Some (rev buf) else None)"

primrec u_printptr_loop :: "nat \<Rightarrow> u64 \<Rightarrow> u8 list" where
  "u_printptr_loop 0 x = []"
| "u_printptr_loop (Suc k) x = u_digit (unat (drop_bit 60 x)) # u_printptr_loop k (push_bit 4 x)"

definition u_printptr :: "u64 \<Rightarrow> u8 list" where
  "u_printptr x = [48, 120] @ u_printptr_loop 16 x"

text \<open>
  The conversion after a percent sign: what it prints, the arguments and the format left.  Every number is
  passed to \<open>u_printint\<close> as an \<^verbatim>\<open>int\<close>, the 64-bit ones too.
\<close>

definition u_take_int :: "nat \<Rightarrow> bool \<Rightarrow> nat \<Rightarrow> u8 list \<Rightarrow> parg list \<Rightarrow> (u8 list \<times> parg list \<times> u8 list) option" where
  "u_take_int base sg k f as =
     (case as of PVal v # as \<Rightarrow> (case u_printint (ucast v) base sg of Some t \<Rightarrow> Some (t, as, drop k f) | None \<Rightarrow> None) | _ \<Rightarrow> None)"

definition u_conv :: "u8 list \<Rightarrow> parg list \<Rightarrow> (u8 list \<times> parg list \<times> u8 list) option" where
  "u_conv f as =
     (let c0 = fmt_at f 0; c1 = (if c0 \<noteq> 0 then fmt_at f 1 else 0); c2 = (if c1 \<noteq> 0 then fmt_at f 2 else 0) in
      if c0 = 100 then u_take_int 10 True 1 f as
      else if c0 = 108 \<and> c1 = 100 then u_take_int 10 True 2 f as
      else if c0 = 108 \<and> c1 = 108 \<and> c2 = 100 then u_take_int 10 True 3 f as
      else if c0 = 117 then u_take_int 10 False 1 f as
      else if c0 = 108 \<and> c1 = 117 then u_take_int 10 False 2 f as
      else if c0 = 108 \<and> c1 = 108 \<and> c2 = 117 then u_take_int 10 False 3 f as
      else if c0 = 120 then u_take_int 16 False 1 f as
      else if c0 = 108 \<and> c1 = 120 then u_take_int 16 False 2 f as
      else if c0 = 108 \<and> c1 = 108 \<and> c2 = 120 then u_take_int 16 False 3 f as
      else if c0 = 112 then (case as of PVal v # as \<Rightarrow> Some (u_printptr v, as, drop 1 f) | _ \<Rightarrow> None)
      else if c0 = 115 then
        (case as of PStr (Some s) # as \<Rightarrow> Some (s, as, drop 1 f)
         | PStr None # as \<Rightarrow> Some ([40, 110, 117, 108, 108, 41], as, drop 1 f) | _ \<Rightarrow> None)
      else if c0 = 37 then Some ([37], as, drop 1 f)
      else Some ([37, c0], as, drop 1 f))"

lemma u_take_int_shorter: "u_take_int b s k f as = Some (t, as', f') \<Longrightarrow> 0 < k \<Longrightarrow> f \<noteq> [] \<Longrightarrow> length f' < length f"
  by (auto simp: u_take_int_def split: list.splits parg.splits option.splits)

lemma u_conv_shorter: "u_conv f as = Some (t, as', f') \<Longrightarrow> f \<noteq> [] \<Longrightarrow> length f' < length f"
  by (auto simp: u_conv_def Let_def dest: u_take_int_shorter split: if_splits list.splits parg.splits option.splits)

text \<open>A percent sign that ends the format prints nothing.\<close>

function vprintf :: "u8 list \<Rightarrow> parg list \<Rightarrow> u8 list option" where
  "vprintf [] as = Some []"
| "vprintf (c # f) as =
     (if c \<noteq> 37 then map_option ((#) c) (vprintf f as)
      else if f = [] then Some []
      else case u_conv f as of
          None \<Rightarrow> None
        | Some (t, as', f') \<Rightarrow> map_option ((@) t) (vprintf f' as'))"
  by pat_completeness auto
termination
  by (relation "measure (\<lambda>(f, as). length f)") (auto dest: u_conv_shorter)

subsection \<open>What they compute\<close>

lemma uint_same: "uint (a :: u8) = uint b \<longleftrightarrow> a = b" "uint a = 0 \<longleftrightarrow> a = 0"
  by (simp_all add: word_uint_eq_iff)

lemma strcmp_0: "strcmp p q = Some r \<Longrightarrow> r = 0 \<longleftrightarrow> cstr p = cstr q"
  by (induction p q rule: strcmp.induct) (auto simp: uint_same split: if_splits)

lemma u_strlen_spec: "0 \<in> set s \<Longrightarrow> u_strlen s = Some (length (cstr s))"
  by (induction s) auto

lemma strchr_spec: "0 \<in> set s \<Longrightarrow> strchr s c = Some (first_idx (\<lambda>x. x = c) (cstr s))"
  by (induction s) (auto simp: option.map_comp)

lemma strcpy_spec: "0 \<in> set t \<Longrightarrow> length (cstr t) < length s \<Longrightarrow> strcpy s t = Some (cstr t @ 0 # drop (length (cstr t) + 1) s)"
  by (induction s t rule: strcpy.induct) auto

lemma u_copy_up_eq: "u_copy_up n xs d s = copy_up n xs d s"
  by (induction n arbitrary: xs d s) (auto simp: Option.bind_def split: option.split)

lemma u_copy_down_eq: "u_copy_down n xs d s = copy_down n xs d s"
  by (induction n arbitrary: xs d s) (auto simp: Option.bind_def split: option.split)

lemma u_memmove_spec:
  assumes "d + nat n \<le> length xs" and "s + nat n \<le> length xs"
  shows "u_memmove xs d s n = Some (take d xs @ take (nat n) (drop s xs) @ drop (d + nat n) xs)"
  using assms copy_up_correct [of d "nat n" xs s] copy_down_correct [of d "nat n" xs s]
  by (simp add: u_memmove_def u_copy_up_eq u_copy_down_eq)

text \<open>A 32-bit number always fits the buffer.\<close>

lemma u_printint_fits: "10 \<le> b \<Longrightarrow> u_printint xx b sg = Some (rev (u_printint_buf xx b sg))"
proof -
  assume b: "10 \<le> b"
  have l: "length (digits_rev b (unat x)) \<le> 10" for x :: u32
  proof -
    have "unat x < 2 ^ 32" using unsigned_less [of x, where 'a = nat] by simp
    also have "(2 :: nat) ^ 32 < 10 ^ 10" by simp
    also have "(10 :: nat) ^ 10 \<le> b ^ 10" by (rule power_mono) (use b in simp_all)
    finally have "length (to_digits b (unat x)) \<le> 10" by (intro to_digits_length) (use b in simp_all)
    then show ?thesis using arg_cong [OF digits_rev_eq [of b "unat x"], of length] b by simp
  qed
  have "length (u_printint_buf xx b sg) \<le> 10 + 1" using l [of xx] l [of "- xx"] by (auto simp: u_printint_buf_def Let_def)
  then show ?thesis by (simp add: u_printint_def Let_def)
qed

lemma u_printint_decimal:
  assumes "sint xx = int n"
  shows "u_printint xx 10 True = Some (map (\<lambda>k. of_nat (48 + k)) (to_digits 10 n))"
proof -
  have "unat xx = n" 
  proof -
    have "sint xx < 2 ^ 32" using sint_lt [of xx] by simp
    then have "uint xx = sint xx" using assms uint_sint [of xx] by (simp add: take_bit_int_eq_self)
    then show ?thesis using assms by (metis nat_int nat_uint_eq)
  qed
  moreover have "\<forall>d \<in> set (to_digits 10 n). d < 10" using to_digits_value [of 10 n] by simp
  ultimately show ?thesis
    using assms u_printint_fits [of 10 xx True] digits_rev_eq [of 10 n]
    by (auto simp: u_printint_buf_def Let_def rev_map u_digit_def)
qed

text \<open>Reading digits: the value of the digits so far is carried along.\<close>

lemma atoi_digits:
  assumes "\<forall>d \<in> set ds. d < 10" and "\<And>k. k \<le> length ds \<Longrightarrow> int (foldl (\<lambda>a d. a * 10 + d) n (take k ds)) + 48 < 2 ^ 31"
  shows "atoi_loop (int n) (map (\<lambda>k. of_nat (48 + k)) ds @ [0]) = Some (int (foldl (\<lambda>a d. a * 10 + d) n ds))"
  using assms
proof (induction ds arbitrary: n)
  case (Cons d ds)
  have d: "d < 10" using Cons.prems by simp
  have v: "int (n * 10 + d) + 48 < 2 ^ 31" using Cons.prems(2) [of 1] by simp
  have u: "uint (of_nat (48 + d) :: u8) = 48 + int d" using d by (simp add: uint_nat unat_of_nat del: of_nat_add)
  have c: "48 \<le> (of_nat (48 + d) :: u8) \<and> (of_nat (48 + d) :: u8) \<le> 57" using d u by (simp add: word_le_def del: of_nat_add)
  have e: "int (n * 10 + d) = int n * 10 + int d" by simp
  have ih: "atoi_loop (int (n * 10 + d)) (map (\<lambda>k. of_nat (48 + k)) ds @ [0]) = Some (int (foldl (\<lambda>a d. a * 10 + d) (n * 10 + d) ds))"
    by (rule Cons.IH) (use Cons.prems(1) Cons.prems(2) [of "Suc k" for k] in auto)
  show ?case using ih [unfolded e] c u v d by (simp add: int_ok_def del: of_nat_add)
qed simp

lemma foldl_grows: "foldl (\<lambda>a d. a * 10 + d) n (take k ds) \<le> foldl (\<lambda>a d. a * 10 + d) (n :: nat) ds"
proof -
  have *: "n \<le> foldl (\<lambda>a d. a * 10 + d) n xs" for n :: nat and xs 
  proof (induction xs arbitrary: n)
    case (Cons a xs)
    have "n \<le> n * 10 + a" by simp
    also have "\<dots> \<le> foldl (\<lambda>a d. a * 10 + d) (n * 10 + a) xs" by (rule Cons.IH)
    finally show ?case by simp
  qed simp
  show ?thesis using *[of "foldl (\<lambda>a d. a * 10 + d) n (take k ds)" "drop k ds"] by (simp flip: foldl_append)
qed

text \<open>
  C38: \<open>atoi\<close> reads what \<open>printf\<close> writes.  For a number up to 48 below the largest \<^verbatim>\<open>int\<close>, the decimal text that
  \<^verbatim>\<open>%d\<close> prints, with a terminating zero, is read back as the number.  (For the last 48 numbers \<^verbatim>\<open>n*10 + *s\<close> overflows
  before the character \<^verbatim>\<open>0\<close> is subtracted.)
\<close>

theorem atoi_printf:
  assumes "0 \<le> sint xx" and "sint xx < 2 ^ 31 - 48"
  shows "\<exists>str. vprintf [37, 100] [PVal (ucast xx)] = Some str \<and> atoi (str @ [0]) = Some (sint (xx :: u32))"
proof -
  define n where "n = nat (sint xx)"
  have n: "sint xx = int n" using assms(1) by (simp add: n_def)
  let ?t = "map (\<lambda>k. of_nat (48 + k)) (to_digits 10 n) :: u8 list"
  have "ucast (ucast xx :: u64) = xx" by (simp add: ucast_up_ucast_id is_up)
  then have "vprintf [37, 100] [PVal (ucast xx)] = Some ?t"
    using u_printint_decimal [OF n] by (simp add: u_conv_def fmt_at_def Let_def u_take_int_def)
  moreover have "atoi_loop (int 0) (?t @ [0]) = Some (int (foldl (\<lambda>a d. a * 10 + d) 0 (to_digits 10 n)))"
  proof (rule atoi_digits)
    fix k
    have "foldl (\<lambda>a d. a * 10 + d) 0 (take k (to_digits 10 n)) \<le> n"
      using foldl_grows [of 0 k "to_digits 10 n"] to_digits_value [of 10 n] by simp
    then show "int (foldl (\<lambda>a d. a * 10 + d) 0 (take k (to_digits 10 n))) + 48 < 2 ^ 31" using assms(2) n by linarith
  qed (use to_digits_value [of 10 n] in simp)
  ultimately show ?thesis using to_digits_value [of 10 n] n by (simp add: atoi_def)
qed

theorem atoi_printf_witness: "atoi [52, 50, 0] = Some 42 \<and> (\<exists>str. vprintf [37, 100] [PVal (ucast (42 :: u32))] = Some str \<and> atoi (str @ [0]) = Some 42)"
  using atoi_printf [of 42] by (simp add: atoi_def int_ok_def)

end
