(* ===== verification/Sh.thy ===== *)
theory Sh
  imports Prelude
begin

section \<open>The shell (\<^verbatim>\<open>user/sh.c\<close>)\<close>

text \<open>
  The line is the list \<open>buf\<close> of its bytes without the terminating zero, a pointer into it a number; \<^verbatim>\<open>es\<close> is the length
  of \<open>buf\<close>.  A parser is a routine of the monad whose state is the position \<^verbatim>\<open>*ps\<close>; \<open>Panic\<close> is the shell's \<^verbatim>\<open>panic\<close>.
  The mutual recursion of the parser runs on fuel, \<open>Stuck\<close> without.  A word of a command is a pair of positions; after
  \<open>nulterminate\<close> it is the string that begins at the first.
\<close>

datatype 'w cmd =
    Exec "'w list"
  | Redir "'w cmd" 'w nat nat
  | Pipe "'w cmd" "'w cmd"
  | Seq "'w cmd" "'w cmd"
  | Back "'w cmd"

type_synonym 'a parser = "(nat, 'a) kM"

definition char_at :: "u8 list \<Rightarrow> nat \<Rightarrow> u8" where
  "char_at buf i = (if i < length buf then buf ! i else 0)"

definition whitespace :: "u8 list" where
  "whitespace = [32, 9, 13, 10, 11]"

definition symbols :: "u8 list" where
  "symbols = [60, 124, 62, 38, 59, 40, 41]"

subsection \<open>Tokens\<close>

function skip_while :: "(u8 \<Rightarrow> bool) \<Rightarrow> u8 list \<Rightarrow> nat \<Rightarrow> nat" where
  "skip_while P buf i = (if i < length buf \<and> P (buf ! i) then skip_while P buf (Suc i) else i)"
  by pat_completeness auto
termination
  by (relation "measure (\<lambda>(P, buf, i). length buf - i)") auto

declare skip_while.simps [simp del]

definition skip_space :: "u8 list \<Rightarrow> nat \<Rightarrow> nat" where
  "skip_space = skip_while (\<lambda>c. c \<in> set whitespace)"

definition skip_word :: "u8 list \<Rightarrow> nat \<Rightarrow> nat" where
  "skip_word = skip_while (\<lambda>c. c \<notin> set whitespace \<and> c \<notin> set symbols)"

text \<open>The token's kind and its begin and end: 97 for a word, 43 for \<^verbatim>\<open>>>\<close>.\<close>

definition gettoken :: "u8 list \<Rightarrow> (u8 \<times> nat \<times> nat) parser" where
  "gettoken buf = (\<lambda>ps.
     let s = skip_space buf ps; c = char_at buf s;
         (r, e) = (if c = 0 then (c, s)
                   else if c \<in> {124, 40, 41, 59, 38, 60} then (c, s + 1)
                   else if c = 62 then (if char_at buf (s + 1) = 62 then (43, s + 2) else (c, s + 1))
                   else (97, skip_word buf s))
     in Ok (r, s, e) (skip_space buf e))"

definition peek :: "u8 list \<Rightarrow> u8 list \<Rightarrow> bool parser" where
  "peek buf toks = (\<lambda>ps. let s = skip_space buf ps in Ok (char_at buf s \<noteq> 0 \<and> char_at buf s \<in> set toks) s)"

subsection \<open>The parser\<close>

text \<open>
  A redirection is the file, the mode and the descriptor.  \<open>parse_redirs\<close> answers with the redirections it found; \<open>redir_all\<close> wraps
  them around a command, the first innermost.
\<close>

type_synonym redir = "(nat \<times> nat) \<times> nat \<times> nat"

definition redir_all :: "'w cmd \<Rightarrow> ('w \<times> nat \<times> nat) list \<Rightarrow> 'w cmd" where
  "redir_all c rs = foldl (\<lambda>c (w, m, fd). Redir c w m fd) c rs"

definition redir_of :: "u8 \<Rightarrow> (nat \<times> nat) \<Rightarrow> redir list" where
  "redir_of tok w =
     (if tok = 60 then [(w, 0, 0)]
      else if tok = 62 then [(w, 0x601, 1)]
      else if tok = 43 then [(w, 0x201, 1)]
      else [])"

primrec parse_redirs :: "nat \<Rightarrow> u8 list \<Rightarrow> redir list \<Rightarrow> redir list parser" where
  "parse_redirs 0 buf rs = stuck"
| "parse_redirs (Suc k) buf rs =
     bnd (peek buf [60, 62]) (\<lambda>more.
     if \<not> more then ret rs
     else
       bnd (gettoken buf) (\<lambda>t.
       bnd (gettoken buf) (\<lambda>w.
       seq (guard_panic (fst w \<noteq> 97) ''missing file for redirection'')
           (parse_redirs k buf (rs @ redir_of (fst t) (snd w))))))"

abbreviation (input) "MAXARGS \<equiv> 10 :: nat"

primrec parse_args :: "nat \<Rightarrow> u8 list \<Rightarrow> (nat \<times> nat) list \<Rightarrow> redir list \<Rightarrow> ((nat \<times> nat) list \<times> redir list) parser" where
  "parse_args 0 buf args rs = stuck"
| "parse_args (Suc k) buf args rs =
     bnd (peek buf [124, 41, 38, 59]) (\<lambda>stop.
     if stop then ret (args, rs)
     else
       bnd (gettoken buf) (\<lambda>t.
       if fst t = 0 then ret (args, rs)
       else
         seq (guard_panic (fst t \<noteq> 97) ''syntax'') (
         let args = args @ [snd t] in
         seq (guard_panic (length args \<ge> MAXARGS) ''too many args'') (
         bnd (parse_redirs k buf rs) (\<lambda>rs.
         parse_args k buf args rs)))))"

primrec parse_backs :: "nat \<Rightarrow> u8 list \<Rightarrow> (nat \<times> nat) cmd \<Rightarrow> (nat \<times> nat) cmd parser" where
  "parse_backs 0 buf c = stuck"
| "parse_backs (Suc k) buf c =
     bnd (peek buf [38]) (\<lambda>more.
     if more then bnd (gettoken buf) (\<lambda>_. parse_backs k buf (Back c)) else ret c)"

fun parseline :: "nat \<Rightarrow> u8 list \<Rightarrow> (nat \<times> nat) cmd parser"
  and parsepipe :: "nat \<Rightarrow> u8 list \<Rightarrow> (nat \<times> nat) cmd parser"
  and parseexec :: "nat \<Rightarrow> u8 list \<Rightarrow> (nat \<times> nat) cmd parser"
  and parseblock :: "nat \<Rightarrow> u8 list \<Rightarrow> (nat \<times> nat) cmd parser" where
  "parseline 0 buf = stuck"
| "parseline (Suc k) buf =
     bnd (parsepipe k buf) (\<lambda>c.
     bnd (parse_backs k buf c) (\<lambda>c.
     bnd (peek buf [59]) (\<lambda>more.
     if more then bnd (gettoken buf) (\<lambda>_. bnd (parseline k buf) (\<lambda>d. ret (Seq c d))) else ret c)))"
| "parsepipe 0 buf = stuck"
| "parsepipe (Suc k) buf =
     bnd (parseexec k buf) (\<lambda>c.
     bnd (peek buf [124]) (\<lambda>more.
     if more then bnd (gettoken buf) (\<lambda>_. bnd (parsepipe k buf) (\<lambda>d. ret (Pipe c d))) else ret c))"
| "parseexec 0 buf = stuck"
| "parseexec (Suc k) buf =
     bnd (peek buf [40]) (\<lambda>open.
     if open then parseblock k buf
     else
       bnd (parse_redirs k buf []) (\<lambda>rs.
       bnd (parse_args k buf [] rs) (\<lambda>r.
       ret (redir_all (Exec (fst r)) (snd r)))))"
| "parseblock 0 buf = stuck"
| "parseblock (Suc k) buf =
     bnd (peek buf [40]) (\<lambda>open.
     seq (guard_panic (\<not> open) ''parseblock'') (
     bnd (gettoken buf) (\<lambda>_.
     bnd (parseline k buf) (\<lambda>c.
     bnd (peek buf [41]) (\<lambda>close.
     seq (guard_panic (\<not> close) ''syntax - missing )'') (
     bnd (gettoken buf) (\<lambda>_.
     bnd (parse_redirs k buf []) (\<lambda>rs.
     ret (redir_all c rs)))))))))"

text \<open>\<open>nulterminate\<close> stores a zero behind every word.\<close>

primrec nulterminate :: "(nat \<times> nat) cmd \<Rightarrow> u8 list \<Rightarrow> u8 list" where
  "nulterminate (Exec args) buf = fold (\<lambda>w buf. buf[snd w := 0]) args buf"
| "nulterminate (Redir c w m fd) buf = (nulterminate c buf)[snd w := 0]"
| "nulterminate (Pipe c d) buf = nulterminate d (nulterminate c buf)"
| "nulterminate (Seq c d) buf = nulterminate d (nulterminate c buf)"
| "nulterminate (Back c) buf = nulterminate c buf"

text \<open>
  The command and the line, with its terminating zero, after \<open>nulterminate\<close>.  What is left of a line is printed before the
  panic, here as a part of the message.
\<close>

definition leftovers :: "u8 list \<Rightarrow> string" where
  "leftovers bs = ''leftovers: '' @ map (\<lambda>b. char_of (unat b)) bs @ [CHR 0x0A] @ ''syntax''"

definition parsecmd :: "u8 list \<Rightarrow> ((nat \<times> nat) cmd \<times> u8 list) parser" where
  "parsecmd buf =
     bnd (parseline (4 * length buf + 4) buf) (\<lambda>c.
     bnd (peek buf []) (\<lambda>_.
     bnd (gets (\<lambda>s. s)) (\<lambda>s.
     seq (guard_panic (s \<noteq> length buf) (leftovers (drop s buf)))
         (ret (c, nulterminate c (buf @ [0]))))))"

subsection \<open>The parser ends and records words\<close>

text \<open>\<open>fine m Q\<close>: the routine returns with \<open>Q\<close> or panics; it never runs out of fuel.\<close>

definition fine :: "'a parser \<Rightarrow> ('a \<Rightarrow> nat \<Rightarrow> bool) \<Rightarrow> nat \<Rightarrow> bool" where
  "fine m Q p = (case m p of Ok x t \<Rightarrow> Q x t | Panic e \<Rightarrow> True | Blocked t \<Rightarrow> False | Stuck \<Rightarrow> False)"

lemma fine_rules [simp]:
  "fine (ret x) Q = Q x"
  "fine (bnd m1 f) Q = fine m1 (\<lambda>x. fine (f x) Q)"
  "fine (seq m2 n) Q = fine m2 (\<lambda>_. fine n Q)"
  "fine (guard_panic c e) R = (\<lambda>p. c \<or> R () p)"
  by (auto simp: fine_def bnd_def seq_def guard_panic_def fun_eq_iff split: outcome.split)

lemma fine_if [simp]: "fine (if c then m else n) Q = (if c then fine m Q else fine n Q)"
  by simp

lemma fine_conseq: "fine m Q p \<Longrightarrow> (\<And>x t. Q x t \<Longrightarrow> R x t) \<Longrightarrow> fine m R p"
  by (auto simp: fine_def split: outcome.splits)

definition wordc :: "u8 \<Rightarrow> bool" where
  "wordc c \<longleftrightarrow> c \<notin> set whitespace \<and> c \<notin> set symbols"

definition is_word :: "u8 list \<Rightarrow> nat \<times> nat \<Rightarrow> bool" where
  "is_word buf w \<longleftrightarrow> fst w < snd w \<and> snd w \<le> length buf \<and> (\<forall>i. fst w \<le> i \<longrightarrow> i < snd w \<longrightarrow> wordc (buf ! i)) \<and>
     (snd w < length buf \<longrightarrow> \<not> wordc (buf ! snd w))"

lemma skip_while_bounds:
  "i \<le> length buf \<Longrightarrow> i \<le> skip_while P buf i \<and> skip_while P buf i \<le> length buf \<and>
   (\<forall>j. i \<le> j \<longrightarrow> j < skip_while P buf i \<longrightarrow> P (buf ! j)) \<and>
   (skip_while P buf i < length buf \<longrightarrow> \<not> P (buf ! skip_while P buf i))"
proof (induction P buf i rule: skip_while.induct)
  case (1 P buf i)
  show ?case
  proof (cases "i < length buf \<and> P (buf ! i)")
    case True
    then have e: "skip_while P buf i = skip_while P buf (Suc i)" by (subst skip_while.simps) simp
    have "P (buf ! j)" if "i \<le> j" "j < skip_while P buf (Suc i)" for j
      using 1(1) True that by (cases "j = i") auto
    then show ?thesis using 1(1) True unfolding e by auto
  next
    case False
    then have "skip_while P buf i = i" by (subst skip_while.simps) auto
    then show ?thesis using False 1(2) by auto
  qed
qed

lemma skip_space_bounds:
  assumes "i \<le> length buf"
  shows "i \<le> skip_space buf i" "skip_space buf i \<le> length buf" "skip_space buf (skip_space buf i) = skip_space buf i"
    "skip_space buf i < length buf \<Longrightarrow> buf ! skip_space buf i \<notin> set whitespace"
proof -
  note b = skip_while_bounds [OF assms, of "\<lambda>c. c \<in> set whitespace", folded skip_space_def]
  show "i \<le> skip_space buf i" "skip_space buf i \<le> length buf"
    "skip_space buf i < length buf \<Longrightarrow> buf ! skip_space buf i \<notin> set whitespace" using b by auto
  then show "skip_space buf (skip_space buf i) = skip_space buf i"
    unfolding skip_space_def by (subst skip_while.simps) (auto simp: skip_space_def)
qed

lemma char_at_nonzero: "char_at buf i \<noteq> 0 \<Longrightarrow> i < length buf \<and> char_at buf i = buf ! i"
  by (auto simp: char_at_def split: if_splits)

lemma peek_fine:
  assumes "p \<le> length buf"
    and "\<And>s more. p \<le> s \<Longrightarrow> s \<le> length buf \<Longrightarrow> skip_space buf s = s \<Longrightarrow> (more \<longleftrightarrow> char_at buf s \<noteq> 0 \<and> char_at buf s \<in> set toks) \<Longrightarrow> Q more s"
  shows "fine (peek buf toks) Q p"
  using assms skip_space_bounds [OF assms(1)] by (simp add: fine_def peek_def Let_def)

lemma peek_at: "skip_space buf p = p \<Longrightarrow> fine (peek buf toks) Q p = Q (char_at buf p \<noteq> 0 \<and> char_at buf p \<in> set toks) p"
  by (simp add: fine_def peek_def)

lemma gettoken_fine:
  assumes z: "0 \<notin> set buf" and p: "p \<le> length buf"
    and Q: "\<And>r s e t. p \<le> s \<Longrightarrow> s \<le> e \<Longrightarrow> e \<le> t \<Longrightarrow> t \<le> length buf \<Longrightarrow> (char_at buf (skip_space buf p) \<noteq> 0 \<Longrightarrow> p < t) \<Longrightarrow>
      (r \<noteq> 0 \<Longrightarrow> p < t) \<Longrightarrow> (r = 97 \<Longrightarrow> is_word buf (s, e)) \<Longrightarrow> Q (r, s, e) t"
  shows "fine (gettoken buf) Q p"
proof -
  define s where "s = skip_space buf p"
  have s: "p \<le> s" "s \<le> length buf" "s < length buf \<Longrightarrow> buf ! s \<notin> set whitespace" using skip_space_bounds [OF p] by (auto simp: s_def)
  define re where "re = (if char_at buf s = 0 then (char_at buf s, s)
                   else if char_at buf s \<in> {124, 40, 41, 59, 38, 60} then (char_at buf s, s + 1)
                   else if char_at buf s = 62 then (if char_at buf (s + 1) = 62 then (43, s + 2) else (char_at buf s, s + 1))
                   else (97, skip_word buf s))"
  have g: "gettoken buf p = Ok (fst re, s, snd re) (skip_space buf (snd re))"
    by (simp add: gettoken_def Let_def s_def re_def split: prod.split)
  have e: "s \<le> snd re \<and> snd re \<le> length buf \<and> (char_at buf s \<noteq> 0 \<longrightarrow> s < snd re) \<and> (fst re \<noteq> 0 \<longrightarrow> s < snd re) \<and> (fst re = 97 \<longrightarrow> is_word buf (s, snd re))"
  proof (cases "char_at buf s = 0")
    case True
    then show ?thesis using s by (simp add: re_def)
  next
    case False
    then have c: "s < length buf" "char_at buf s = buf ! s" using char_at_nonzero by auto
    show ?thesis
    proof (cases "char_at buf s \<in> set symbols")
      case True
      then show ?thesis using c False char_at_nonzero [of buf "s + 1"]
        by (auto simp: re_def symbols_def)
    next
      case word: False
      note b = skip_while_bounds [OF s(2), of "\<lambda>c. c \<notin> set whitespace \<and> c \<notin> set symbols", folded skip_word_def wordc_def]
      have w: "wordc (buf ! s)" using word c s(3) by (simp add: wordc_def)
      then have "s < skip_word buf s" using b c(1) by (metis le_neq_implies_less)
      moreover have "re = (97, skip_word buf s)" using word False by (auto simp: re_def symbols_def)
      ultimately show ?thesis using b by (auto simp: is_word_def)
    qed
  qed
  have "Q (fst re, s, snd re) (skip_space buf (snd re))"
    using e s skip_space_bounds [of "snd re" buf] by (intro Q) (auto simp: s_def)
  then show ?thesis using g by (simp add: fine_def)
qed

text \<open>What the parser builds: fewer than ten words in a simple command, and redirections of three kinds.\<close>

definition redir_kind :: "nat \<times> nat \<Rightarrow> bool" where
  "redir_kind r \<longleftrightarrow> r \<in> {(0, 0), (0x601, 1), (0x201, 1)}"

primrec proper :: "'w cmd \<Rightarrow> bool" where
  "proper (Exec argv) = (length argv < MAXARGS)"
| "proper (Redir c w m fd) = (proper c \<and> redir_kind (m, fd))"
| "proper (Seq c d) = (proper c \<and> proper d)"
| "proper (Pipe c d) = (proper c \<and> proper d)"
| "proper (Back c) = proper c"

definition args_ok :: "u8 list \<Rightarrow> (nat \<times> nat) list \<Rightarrow> bool" where
  "args_ok buf args \<longleftrightarrow> length args < MAXARGS \<and> (\<forall>w \<in> set args. is_word buf w)"

definition cmd_ok :: "u8 list \<Rightarrow> (nat \<times> nat) cmd \<Rightarrow> bool" where
  "cmd_ok buf c \<longleftrightarrow> (\<forall>w \<in> set_cmd c. is_word buf w) \<and> proper c"

definition words_of :: "u8 list \<Rightarrow> redir list \<Rightarrow> bool" where
  "words_of buf rs \<longleftrightarrow> (\<forall>r \<in> set rs. is_word buf (fst r) \<and> redir_kind (snd r))"

lemma words_redir_of: "words_of buf rs \<Longrightarrow> is_word buf w \<Longrightarrow> words_of buf (rs @ redir_of t w)"
  by (auto simp: words_of_def redir_of_def redir_kind_def)

lemma parse_redirs_fine:
  assumes z: "0 \<notin> set buf"
  shows "p \<le> length buf \<Longrightarrow> length buf - p < k \<Longrightarrow> words_of buf rs \<Longrightarrow>
    (\<And>rs t. p \<le> t \<Longrightarrow> t \<le> length buf \<Longrightarrow> words_of buf rs \<Longrightarrow> Q rs t) \<Longrightarrow> fine (parse_redirs k buf rs) Q p"
proof (induction k arbitrary: p rs)
  case (Suc k)
  note Q = Suc.prems(4)
  show ?case
    unfolding parse_redirs.simps fine_rules
  proof (rule peek_fine [OF Suc.prems(1)])
    fix s more assume s: "p \<le> s" "s \<le> length buf" "skip_space buf s = s" "more \<longleftrightarrow> char_at buf s \<noteq> 0 \<and> char_at buf s \<in> set [60, 62]"
    show "fine (if \<not> more then ret rs else bnd (gettoken buf) (\<lambda>t. bnd (gettoken buf) (\<lambda>w.
       seq (guard_panic (fst w \<noteq> 97) ''missing file for redirection'') (parse_redirs k buf (rs @ redir_of (fst t) (snd w)))))) Q s"
    proof (cases more)
      case True
      have c: "char_at buf (skip_space buf s) \<noteq> 0" using True s by simp
      have "fine (gettoken buf) (\<lambda>t. fine (gettoken buf) (\<lambda>w p. fst w \<noteq> 97 \<or> fine (parse_redirs k buf (rs @ redir_of (fst t) (snd w))) Q p)) s"
      proof (rule gettoken_fine [OF z s(2)])
        fix r :: u8 and a e t assume t: "t \<le> length buf" "char_at buf (skip_space buf s) \<noteq> 0 \<Longrightarrow> s < t"
        show "fine (gettoken buf) (\<lambda>w p. fst w \<noteq> 97 \<or> fine (parse_redirs k buf (rs @ redir_of (fst (r, a, e)) (snd w))) Q p) t"
        proof (rule gettoken_fine [OF z t(1)])
          fix r' :: u8 and a' e' t' assume t': "t \<le> a'" "a' \<le> e'" "e' \<le> t'" "t' \<le> length buf" "r' = 97 \<Longrightarrow> is_word buf (a', e')"
          have lt: "s < t'" using t(2) [OF c] t' by simp
          have lk: "length buf - t' < k" using lt s(1) t'(4) Suc.prems(2) by linarith
          show "fst (r', a', e') \<noteq> 97 \<or> fine (parse_redirs k buf (rs @ redir_of (fst (r, a, e)) (snd (r', a', e')))) Q t'"
          proof (cases "r' = 97")
            case True
            then have "words_of buf (rs @ redir_of r (a', e'))" using words_redir_of Suc.prems(3) t'(5) by blast
            then have "fine (parse_redirs k buf (rs @ redir_of r (a', e'))) Q t'"
              by (rule Suc.IH [OF t'(4) lk], intro Q) (use lt s(1) in linarith)
            then show ?thesis by simp
          qed simp
        qed
      qed
      then show ?thesis using True by simp
    qed (use s Suc.prems(3) Q in simp)
  qed
qed simp

lemma parse_args_fine:
  assumes z: "0 \<notin> set buf"
  shows "p \<le> length buf \<Longrightarrow> length buf - p < k \<Longrightarrow> args_ok buf args \<Longrightarrow> words_of buf rs \<Longrightarrow>
    (\<And>args rs t. p \<le> t \<Longrightarrow> t \<le> length buf \<Longrightarrow> args_ok buf args \<Longrightarrow> words_of buf rs \<Longrightarrow> Q (args, rs) t) \<Longrightarrow>
    fine (parse_args k buf args rs) Q p"
proof (induction k arbitrary: p args rs)
  case (Suc k)
  note Q = Suc.prems(5)
  show ?case
    unfolding parse_args.simps fine_rules
  proof (rule peek_fine [OF Suc.prems(1)])
    fix s stop assume s: "p \<le> s" "s \<le> length buf"
    have "fine (gettoken buf) (\<lambda>t. fine (if fst t = 0 then ret (args, rs)
       else seq (guard_panic (fst t \<noteq> 97) ''syntax'') (let args = args @ [snd t] in
         seq (guard_panic (length args \<ge> MAXARGS) ''too many args'') (bnd (parse_redirs k buf rs) (parse_args k buf args)))) Q) s"
    proof (rule gettoken_fine [OF z s(2)])
      fix r :: u8 and a e t assume t: "s \<le> a" "a \<le> e" "e \<le> t" "t \<le> length buf" "r \<noteq> 0 \<Longrightarrow> s < t" "r = 97 \<Longrightarrow> is_word buf (a, e)"
      have "fine (parse_redirs k buf rs) (\<lambda>x. fine (parse_args k buf (args @ [(a, e)]) x) Q) t" if "r = 97" and less: "\<not> MAXARGS \<le> Suc (length args)"
      proof (rule parse_redirs_fine [OF z t(4) _ Suc.prems(4)])
        show "length buf - t < k" using t(5) that s t(4) Suc.prems(2) by auto
        fix rs' t' assume t': "t \<le> t'" "t' \<le> length buf" "words_of buf rs'"
        show "fine (parse_args k buf (args @ [(a, e)]) rs') Q t'"
          by (rule Suc.IH [OF t'(2) _ _ t'(3)]) (use t(5,6) that s t' Suc.prems(2,3) less Q in \<open>auto simp: args_ok_def\<close>)
      qed
      then show "fine (if fst (r, a, e) = 0 then ret (args, rs)
         else seq (guard_panic (fst (r, a, e) \<noteq> 97) ''syntax'') (let args = args @ [snd (r, a, e)] in
           seq (guard_panic (length args \<ge> MAXARGS) ''too many args'') (bnd (parse_redirs k buf rs) (parse_args k buf args)))) Q t"
        using Q t s Suc.prems(3,4) by (auto simp: Let_def)
    qed
    then show "fine (if stop then ret (args, rs) else bnd (gettoken buf) (\<lambda>t. if fst t = 0 then ret (args, rs)
       else seq (guard_panic (fst t \<noteq> 97) ''syntax'') (let args = args @ [snd t] in
         seq (guard_panic (length args \<ge> MAXARGS) ''too many args'') (bnd (parse_redirs k buf rs) (\<lambda>rs. parse_args k buf args rs))))) Q s"
      using Q s Suc.prems(3,4) by simp
  qed
qed simp

lemma cmd_ok_simps [simp]:
  "cmd_ok buf (Exec args) = args_ok buf args" "cmd_ok buf (Pipe c d) = (cmd_ok buf c \<and> cmd_ok buf d)"
  "cmd_ok buf (Seq c d) = (cmd_ok buf c \<and> cmd_ok buf d)" "cmd_ok buf (Back c) = cmd_ok buf c"
  by (auto simp: cmd_ok_def args_ok_def)

lemma parse_backs_fine:
  assumes z: "0 \<notin> set buf"
  shows "p \<le> length buf \<Longrightarrow> length buf - p < k \<Longrightarrow> cmd_ok buf c \<Longrightarrow>
    (\<And>c t. p \<le> t \<Longrightarrow> t \<le> length buf \<Longrightarrow> cmd_ok buf c \<Longrightarrow> Q c t) \<Longrightarrow> fine (parse_backs k buf c) Q p"
proof (induction k arbitrary: p c)
  case (Suc k)
  note Q = Suc.prems(4)
  show ?case
    unfolding parse_backs.simps fine_rules
  proof (rule peek_fine [OF Suc.prems(1)])
    fix s more assume s: "p \<le> s" "s \<le> length buf" "skip_space buf s = s" "more \<longleftrightarrow> char_at buf s \<noteq> 0 \<and> char_at buf s \<in> set [38]"
    have "fine (gettoken buf) (\<lambda>_. fine (parse_backs k buf (Back c)) Q) s" if more
    proof (rule gettoken_fine [OF z s(2)])
      fix r :: u8 and a e t assume t: "t \<le> length buf" "char_at buf (skip_space buf s) \<noteq> 0 \<Longrightarrow> s < t"
      then have lt: "s < t" using that s by simp
      have lk: "length buf - t < k" using lt s(1) t(1) Suc.prems(2) by linarith
      show "fine (parse_backs k buf (Back c)) Q t"
        by (rule Suc.IH [OF t(1) lk]) (use Suc.prems(3) Q lt s(1) in auto)
    qed
    then show "fine (if more then bnd (gettoken buf) (\<lambda>_. parse_backs k buf (Back c)) else ret c) Q s"
      using s Suc.prems(3) Q by simp
  qed
qed simp

lemma set_redir_all: "set_cmd (redir_all c rs) = set_cmd c \<union> fst ` set rs"
  by (induction rs arbitrary: c) (auto simp: redir_all_def)

lemma proper_redir_all: "proper (redir_all c rs) \<longleftrightarrow> proper c \<and> (\<forall>r \<in> set rs. redir_kind (snd r))"
  by (induction rs arbitrary: c) (auto simp: redir_all_def)

lemma cmd_ok_redir_all: "cmd_ok buf (redir_all c rs) \<longleftrightarrow> cmd_ok buf c \<and> words_of buf rs"
  by (auto simp: cmd_ok_def words_of_def set_redir_all proper_redir_all)

text \<open>The fuel of the four mutually recursive parsers: four for each byte that is left, and their rank \<open>n\<close>.\<close>

definition recorded :: "u8 list \<Rightarrow> nat \<Rightarrow> (nat \<times> nat) cmd \<Rightarrow> nat \<Rightarrow> bool" where
  "recorded buf p c t \<longleftrightarrow> p \<le> t \<and> t \<le> length buf \<and> cmd_ok buf c"

definition ends :: "u8 list \<Rightarrow> nat \<Rightarrow> nat \<Rightarrow> (nat \<times> nat) cmd parser \<Rightarrow> bool" where
  "ends buf n k f \<longleftrightarrow> (\<forall>p \<le> length buf. 4 * (length buf - p) + n \<le> k \<longrightarrow> fine f (recorded buf p) p)"

lemma endsD: "ends buf n k f \<Longrightarrow> p \<le> length buf \<Longrightarrow> 4 * (length buf - p) + n \<le> k \<Longrightarrow>
  (\<And>c t. recorded buf p c t \<Longrightarrow> Q c t) \<Longrightarrow> fine f Q p"
  using fine_conseq [of f "recorded buf p" p Q] by (simp add: ends_def)

lemma pipe_step:
  assumes z: "0 \<notin> set buf" and e: "ends buf 2 k (parseexec k buf)" and l: "ends buf 3 k (parsepipe k buf)"
  shows "ends buf 3 (Suc k) (parsepipe (Suc k) buf)"
  unfolding ends_def
proof (intro allI impI)
  fix p assume p: "p \<le> length buf" "4 * (length buf - p) + 3 \<le> Suc k"
  show "fine (parsepipe (Suc k) buf) (recorded buf p) p"
    unfolding parsepipe.simps fine_rules
  proof (rule endsD [OF e p(1)])
    show "4 * (length buf - p) + 2 \<le> k" using p(2) by simp
    fix c t assume c: "recorded buf p c t"
    show "fine (peek buf [124]) (\<lambda>more. fine (if more then bnd (gettoken buf) (\<lambda>_. bnd (parsepipe k buf) (\<lambda>d. ret (Pipe c d))) else ret c) (recorded buf p)) t"
    proof (rule peek_fine)
      show "t \<le> length buf" using c by (simp add: recorded_def)
      fix s more assume s: "t \<le> s" "s \<le> length buf" "skip_space buf s = s" "more \<longleftrightarrow> char_at buf s \<noteq> 0 \<and> char_at buf s \<in> set [124]"
      have "fine (gettoken buf) (\<lambda>_. fine (parsepipe k buf) (\<lambda>d. recorded buf p (Pipe c d))) s" if more
      proof (rule gettoken_fine [OF z s(2)])
        fix r :: u8 and a e u assume u: "u \<le> length buf" "char_at buf (skip_space buf s) \<noteq> 0 \<Longrightarrow> s < u"
        then have lt: "p < u" using that s c by (simp add: recorded_def)
        show "fine (parsepipe k buf) (\<lambda>d. recorded buf p (Pipe c d)) u"
          by (rule endsD [OF l u(1)]) (use lt p u(1) c in \<open>auto simp: recorded_def\<close>)
      qed
      moreover have "recorded buf p c s" using s c by (simp add: recorded_def)
      ultimately show "fine (if more then bnd (gettoken buf) (\<lambda>_. bnd (parsepipe k buf) (\<lambda>d. ret (Pipe c d))) else ret c) (recorded buf p) s"
        by simp
    qed
  qed
qed

lemma line_step:
  assumes z: "0 \<notin> set buf" and e: "ends buf 3 k (parsepipe k buf)" and l: "ends buf 4 k (parseline k buf)"
  shows "ends buf 4 (Suc k) (parseline (Suc k) buf)"
  unfolding ends_def
proof (intro allI impI)
  fix p assume p: "p \<le> length buf" "4 * (length buf - p) + 4 \<le> Suc k"
  show "fine (parseline (Suc k) buf) (recorded buf p) p"
    unfolding parseline.simps fine_rules
  proof (rule endsD [OF e p(1)])
    show "4 * (length buf - p) + 3 \<le> k" using p(2) by simp
    fix c0 t0 assume c0: "recorded buf p c0 t0"
    show "fine (parse_backs k buf c0) (\<lambda>c. fine (peek buf [59]) (\<lambda>more. fine (if more then bnd (gettoken buf)
        (\<lambda>_. bnd (parseline k buf) (\<lambda>d. ret (Seq c d))) else ret c) (recorded buf p))) t0"
    proof (rule parse_backs_fine [OF z])
      show "t0 \<le> length buf" "length buf - t0 < k" "cmd_ok buf c0" using c0 p by (auto simp: recorded_def)
      fix c t assume c: "t0 \<le> t" "t \<le> length buf" "cmd_ok buf c"
      show "fine (peek buf [59]) (\<lambda>more. fine (if more then bnd (gettoken buf)
        (\<lambda>_. bnd (parseline k buf) (\<lambda>d. ret (Seq c d))) else ret c) (recorded buf p)) t"
      proof (rule peek_fine [OF c(2)])
        fix s more assume s: "t \<le> s" "s \<le> length buf" "skip_space buf s = s" "more \<longleftrightarrow> char_at buf s \<noteq> 0 \<and> char_at buf s \<in> set [59]"
        have "fine (gettoken buf) (\<lambda>_. fine (parseline k buf) (\<lambda>d. recorded buf p (Seq c d))) s" if more
        proof (rule gettoken_fine [OF z s(2)])
          fix r :: u8 and a e u assume u: "u \<le> length buf" "char_at buf (skip_space buf s) \<noteq> 0 \<Longrightarrow> s < u"
          then have lt: "p < u" using that s c c0 by (simp add: recorded_def)
          show "fine (parseline k buf) (\<lambda>d. recorded buf p (Seq c d)) u"
            by (rule endsD [OF l u(1)]) (use lt p u(1) c in \<open>auto simp: recorded_def\<close>)
        qed
        moreover have "recorded buf p c s" using s c c0 by (simp add: recorded_def)
        ultimately show "fine (if more then bnd (gettoken buf) (\<lambda>_. bnd (parseline k buf) (\<lambda>d. ret (Seq c d))) else ret c) (recorded buf p) s"
          by simp
      qed
    qed
  qed
qed

text \<open>A block is entered at its parenthesis.\<close>

definition block_ends :: "u8 list \<Rightarrow> nat \<Rightarrow> bool" where
  "block_ends buf k \<longleftrightarrow> (\<forall>p \<le> length buf. 4 * (length buf - p) + 1 \<le> k \<longrightarrow> skip_space buf p = p \<longrightarrow> char_at buf p = 40 \<longrightarrow>
     fine (parseblock k buf) (recorded buf p) p)"

lemma exec_step:
  assumes z: "0 \<notin> set buf" and b: "block_ends buf k"
  shows "ends buf 2 (Suc k) (parseexec (Suc k) buf)"
  unfolding ends_def
proof (intro allI impI)
  fix p assume p: "p \<le> length buf" "4 * (length buf - p) + 2 \<le> Suc k"
  show "fine (parseexec (Suc k) buf) (recorded buf p) p"
    unfolding parseexec.simps fine_rules
  proof (rule peek_fine [OF p(1)])
    fix s op assume s: "p \<le> s" "s \<le> length buf" "skip_space buf s = s" "op \<longleftrightarrow> char_at buf s \<noteq> 0 \<and> char_at buf s \<in> set [40]"
    have "fine (parseblock k buf) (recorded buf p) s" if op
      by (rule fine_conseq [of _ "recorded buf s"]) (use b s that p in \<open>auto simp: block_ends_def recorded_def\<close>)
    moreover have "fine (parse_redirs k buf []) (\<lambda>rs. fine (parse_args k buf [] rs) (\<lambda>r. recorded buf p (redir_all (Exec (fst r)) (snd r)))) s"
    proof (rule parse_redirs_fine [OF z s(2)])
      show "length buf - s < k" "words_of buf []" using s p by (auto simp: words_of_def)
      fix rs t assume t: "s \<le> t" "t \<le> length buf" "words_of buf rs"
      show "fine (parse_args k buf [] rs) (\<lambda>r. recorded buf p (redir_all (Exec (fst r)) (snd r))) t"
        by (rule parse_args_fine [OF z t(2) _ _ t(3)]) (use s p t in \<open>auto simp: recorded_def cmd_ok_redir_all args_ok_def\<close>)
    qed
    ultimately show "fine (if op then parseblock k buf else bnd (parse_redirs k buf []) (\<lambda>rs. bnd (parse_args k buf [] rs)
        (\<lambda>r. ret (redir_all (Exec (fst r)) (snd r))))) (recorded buf p) s" by simp
  qed
qed

lemma block_step:
  assumes z: "0 \<notin> set buf" and l: "ends buf 4 k (parseline k buf)"
  shows "block_ends buf (Suc k)"
  unfolding block_ends_def
proof (intro allI impI)
  fix p assume p: "p \<le> length buf" "4 * (length buf - p) + 1 \<le> Suc k" "skip_space buf p = p" "char_at buf p = 40"
  show "fine (parseblock (Suc k) buf) (recorded buf p) p"
    unfolding parseblock.simps fine_rules peek_at [OF p(3)]
  proof (rule disjI2, rule gettoken_fine [OF z p(1)])
    fix r :: u8 and a e u
    assume u: "u \<le> length buf" "char_at buf (skip_space buf p) \<noteq> 0 \<Longrightarrow> p < u"
    have lt: "p < u" using u(2) p by simp
    show "fine (parseline k buf) (\<lambda>c. fine (peek buf [41]) (\<lambda>close p'. \<not> close \<or> fine (gettoken buf)
        (\<lambda>_. fine (parse_redirs k buf []) (\<lambda>rs. recorded buf p (redir_all c rs))) p')) u"
    proof (rule endsD [OF l u(1)])
      show "4 * (length buf - u) + 4 \<le> k" using lt u(1) p by linarith
      fix c t assume c: "recorded buf u c t"
      show "fine (peek buf [41]) (\<lambda>close p'. \<not> close \<or> fine (gettoken buf)
        (\<lambda>_. fine (parse_redirs k buf []) (\<lambda>rs. recorded buf p (redir_all c rs))) p') t"
      proof (rule peek_fine)
        show "t \<le> length buf" using c by (simp add: recorded_def)
        fix s close assume s: "t \<le> s" "s \<le> length buf"
        have "fine (gettoken buf) (\<lambda>_. fine (parse_redirs k buf []) (\<lambda>rs. recorded buf p (redir_all c rs))) s"
        proof (rule gettoken_fine [OF z s(2)])
          fix r :: u8 and a e v assume v: "s \<le> a" "a \<le> e" "e \<le> v" "v \<le> length buf"
          show "fine (parse_redirs k buf []) (\<lambda>rs. recorded buf p (redir_all c rs)) v"
          proof (rule parse_redirs_fine [OF z v(4)])
            have "u \<le> t" using c by (simp add: recorded_def)
            then show "length buf - v < k" using lt u(1) p v s by linarith
            show "words_of buf []" by (simp add: words_of_def)
            fix rs w assume "v \<le> w" "w \<le> length buf" "words_of buf rs"
            then show "recorded buf p (redir_all c rs) w" using lt v s c by (auto simp: recorded_def cmd_ok_redir_all args_ok_def)
          qed
        qed
        then show "\<not> close \<or> fine (gettoken buf) (\<lambda>_. fine (parse_redirs k buf []) (\<lambda>rs. recorded buf p (redir_all c rs))) s" by simp
      qed
    qed
  qed
qed

lemma all_end:
  assumes z: "0 \<notin> set buf"
  shows "ends buf 4 k (parseline k buf) \<and> ends buf 3 k (parsepipe k buf) \<and> ends buf 2 k (parseexec k buf) \<and> block_ends buf k"
proof (induction k)
  case 0
  show ?case by (simp add: ends_def block_ends_def)
next
  case (Suc k)
  then show ?case using line_step [OF z] pipe_step [OF z] exec_step [OF z] block_step [OF z] by blast
qed

subsection \<open>The strings of a command\<close>

definition slice :: "u8 list \<Rightarrow> nat \<times> nat \<Rightarrow> u8 list" where
  "slice buf w = take (snd w - fst w) (drop (fst w) buf)"

lemma length_nulterminate [simp]: "length (nulterminate c b) = length b"
proof (induction c arbitrary: b)
  case (Exec args)
  show ?case by (induction args arbitrary: b) auto
qed auto

lemma update_nth: "i < length b \<Longrightarrow> b[k := x] ! i = (if i = k then x else b ! i)"
  by (cases "i = k") auto

lemma nulterminate_nth: "i < length b \<Longrightarrow> nulterminate c b ! i = (if i \<in> snd ` set_cmd c then 0 else b ! i)"
proof (induction c arbitrary: b)
  case (Exec args)
  then show ?case by (induction args arbitrary: b) (auto simp: update_nth image_iff)
qed (auto simp: update_nth image_iff)

lemma word_string:
  assumes z: "0 \<notin> set buf" and w: "\<forall>w \<in> set_cmd c. is_word buf w" and qe: "(q, e) \<in> set_cmd c"
  shows "takeWhile (\<lambda>x. x \<noteq> 0) (drop q (nulterminate c (buf @ [0]))) = take (e - q) (drop q buf)"
proof -
  let ?b = "nulterminate c (buf @ [0])"
  have we: "is_word buf (q, e)" using w qe by blast
  then have b: "q < e" "e \<le> length buf" by (auto simp: is_word_def)
  have inside: "?b ! i = buf ! i \<and> buf ! i \<noteq> 0" if "q \<le> i" "i < e" for i
  proof -
    have "i \<notin> snd ` set_cmd c"
    proof
      assume "i \<in> snd ` set_cmd c"
      then obtain q' where "is_word buf (q', i)" using w by auto
      then have "\<not> wordc (buf ! i)" using that b by (auto simp: is_word_def)
      then show False using we that by (auto simp: is_word_def)
    qed
    moreover have "buf ! i \<in> set buf" using that b by simp
    then have "buf ! i \<noteq> 0" using z by metis
    ultimately show ?thesis using nulterminate_nth [of i "buf @ [0]" c] that b by (simp add: nth_append)
  qed
  have "e \<in> snd ` set_cmd c" using qe by force
  then have at: "?b ! e = 0" using nulterminate_nth [of e "buf @ [0]" c] b by simp
  have pre: "take (e - q) (drop q ?b) = take (e - q) (drop q buf)"
    by (rule nth_equalityI) (use b inside in auto)
  have "drop q ?b = take (e - q) (drop q ?b) @ ?b ! e # drop (Suc e) ?b"
    using b id_take_nth_drop [of "e - q" "drop q ?b"] by simp
  then have split: "drop q ?b = take (e - q) (drop q buf) @ 0 # drop (Suc e) ?b" by (simp only: pre at)
  have nz: "x \<noteq> 0" if "x \<in> set (take (e - q) (drop q buf))" for x using z that by (auto dest: in_set_takeD in_set_dropD)
  show ?thesis unfolding split using nz by (simp add: takeWhile_append2)
qed

lemma parsecmd_run:
  assumes "0 \<notin> set buf"
  shows "(\<exists>msg. parsecmd buf 0 = Panic msg) \<or>
    (\<exists>c b. parsecmd buf 0 = Ok (c, b) (length buf) \<and> proper c \<and>
       (\<forall>(q, e) \<in> set_cmd c. q < e \<and> e \<le> length buf \<and> takeWhile (\<lambda>x. x \<noteq> 0) (drop q b) = take (e - q) (drop q buf)))"
proof -
  have "fine (parseline (4 * length buf + 4) buf) (recorded buf 0) 0"
    using all_end [OF assms, of "4 * length buf + 4"] by (simp add: ends_def)
  then consider msg where "parseline (4 * length buf + 4) buf 0 = Panic msg"
    | c t where "parseline (4 * length buf + 4) buf 0 = Ok c t" "recorded buf 0 c t"
    by (auto simp: fine_def split: outcome.splits)
  then show ?thesis
  proof cases
    case 1
    then show ?thesis by (simp add: parsecmd_def)
  next
    case 2
    have w: "\<forall>w \<in> set_cmd c. is_word buf w" and p: "proper c" using 2(2) by (simp_all add: recorded_def cmd_ok_def)
    have "\<forall>(q, e) \<in> set_cmd c. q < e \<and> e \<le> length buf \<and>
        takeWhile (\<lambda>x. x \<noteq> 0) (drop q (nulterminate c (buf @ [0]))) = take (e - q) (drop q buf)"
    proof (intro ballI, safe)
      fix q e assume m: "(q, e) \<in> set_cmd c"
      then have "is_word buf (q, e)" using w by blast
      then show "q < e" "e \<le> length buf" by (auto simp: is_word_def)
      show "takeWhile (\<lambda>x. x \<noteq> 0) (drop q (nulterminate c (buf @ [0]))) = take (e - q) (drop q buf)"
        by (rule word_string [OF assms w m])
    qed
    moreover have "parsecmd buf 0 = (if skip_space buf t = length buf then Ok (c, nulterminate c (buf @ [0])) (length buf) else Panic (leftovers (drop (skip_space buf t) buf)))"
      using 2(1) by (simp add: parsecmd_def peek_def Let_def bnd_def seq_def gets_def guard_panic_def)
    ultimately show ?thesis using p by simp
  qed
qed

text \<open>
  C39: the parser of the shell ends on every line, balanced or not: it panics with a message or consumes the line.
  Then every word of the command, for its arguments and the files of its redirections alike, is the string that begins at its pointer after \<open>nulterminate\<close>:
  the zeros that end the words hit none of the others.  A simple command has at most nine words, and a redirection reads from 0 or writes to 1.
\<close>

theorem parsecmd_words:
  assumes "0 \<notin> set buf"
  shows "(\<exists>msg. parsecmd buf 0 = Panic msg) \<or>
    (\<exists>c b. parsecmd buf 0 = Ok (c, b) (length buf) \<and> proper c \<and>
       (\<forall>(q, e) \<in> set_cmd c. q < e \<and> e \<le> length buf \<and> takeWhile (\<lambda>x. x \<noteq> 0) (drop q b) = take (e - q) (drop q buf)))"
  by (rule parsecmd_run [OF assms])

text \<open>The line \<^verbatim>\<open>a>b|c\<close>.\<close>

lemma parsecmd_example: "parsecmd [97, 62, 98, 124, 99] 0 = Ok (Pipe (Redir (Exec [(0, 1)]) (2, 3) 0x601 1) (Exec [(4, 5)]), [97, 0, 98, 0, 99, 0]) 5"
  by code_simp

theorem parsecmd_words_witness:
  "(0 :: u8) \<notin> set [97, 62, 98, 124, 99] \<and>
   (\<exists>c b. parsecmd [97, 62, 98, 124, 99] 0 = Ok (c, b) 5 \<and> proper c \<and>
      (\<forall>(q, e) \<in> set_cmd c. q < e \<and> e \<le> 5 \<and> takeWhile (\<lambda>x. x \<noteq> 0) (drop q b) = take (e - q) (drop q [97, 62, 98, 124, 99])))"
  using parsecmd_words [of "[97, 62, 98, 124, 99]"] unfolding parsecmd_example by (simp add: redir_kind_def)

end
