(* ===== verification/Shrun.thy ===== *)
theory Shrun
  imports Sh Ulib
begin

section \<open>Running a command (\<^verbatim>\<open>user/sh.c\<close>)\<close>

text \<open>
  A user program is the tree of the system calls it makes; a call whose answer the program looks at is followed by a function of the answer.
  \<open>PExec\<close> goes on only if the call fails.  \<open>PSpin\<close> never ends.
\<close>

datatype prog =
    PExit int
  | PExec "u8 list" "u8 list list" prog
  | PWrite nat "u8 list" prog
  | PClose nat prog
  | POpen "u8 list" nat "int \<Rightarrow> prog"
  | PDup nat "int \<Rightarrow> prog"
  | PPipe "(nat \<times> nat) option \<Rightarrow> prog"
  | PFork "int \<Rightarrow> prog"
  | PWait prog
  | PChdir "u8 list" "int \<Rightarrow> prog"
  | PSpin

definition say :: "string \<Rightarrow> u8 list" where
  "say s = map (\<lambda>c. of_nat (of_char c)) s"

definition sh_panic :: "string \<Rightarrow> prog" where
  "sh_panic s = PWrite 2 (say s @ [10]) (PExit 1)"

definition fork1 :: "(int \<Rightarrow> prog) \<Rightarrow> prog" where
  "fork1 k = PFork (\<lambda>pid. if pid = -1 then sh_panic ''fork'' else k pid)"

text \<open>The words of the command are strings here.\<close>

primrec runcmd :: "u8 list cmd \<Rightarrow> prog" where
  "runcmd (Exec argv) =
     (case argv of [] \<Rightarrow> PExit 1
      | a # _ \<Rightarrow> PExec a argv (PWrite 2 (say ''exec '' @ a @ say '' failed'' @ [10]) (PExit 0)))"
| "runcmd (Redir c file mode fd) =
     PClose fd (POpen file mode (\<lambda>r.
     if r < 0 then PWrite 2 (say ''open '' @ file @ say '' failed'' @ [10]) (PExit 1)
     else runcmd c))"
| "runcmd (Seq c d) =
     fork1 (\<lambda>pid. if pid = 0 then runcmd c else PWait (runcmd d))"
| "runcmd (Pipe c d) =
     PPipe (\<lambda>p. case p of None \<Rightarrow> sh_panic ''pipe''
     | Some (p0, p1) \<Rightarrow>
         fork1 (\<lambda>pid.
         if pid = 0 then PClose 1 (PDup p1 (\<lambda>_. PClose p0 (PClose p1 (runcmd c))))
         else
           fork1 (\<lambda>pid.
           if pid = 0 then PClose 0 (PDup p0 (\<lambda>_. PClose p0 (PClose p1 (runcmd d))))
           else PClose p0 (PClose p1 (PWait (PWait (PExit 0)))))))"
| "runcmd (Back c) =
     fork1 (\<lambda>pid. if pid = 0 then runcmd c else PExit 0)"

subsection \<open>The shell itself\<close>

text \<open>
  \<open>getcmd\<close> answers with the string in the buffer, None at the end of the input, and the input left.  The line is read into
  a buffer of 100 bytes that was cleared.
\<close>

definition getcmd :: "int \<Rightarrow> u8 list \<Rightarrow> u8 list option \<times> u8 list" where
  "getcmd nbuf inp =
     (let (b, rest) = gets_line nbuf inp; line = takeWhile (\<lambda>c. c \<noteq> 0) b in
      (if line = [] then None else Some line, rest))"

text \<open>The words of a parsed line as strings.\<close>

definition string_at :: "u8 list \<Rightarrow> nat \<times> nat \<Rightarrow> u8 list" where
  "string_at b w = takeWhile (\<lambda>x. x \<noteq> 0) (drop (fst w) b)"

definition run_line :: "u8 list \<Rightarrow> prog" where
  "run_line line =
     (case parsecmd line 0 of
        Ok (c, b) _ \<Rightarrow> runcmd (map_cmd (string_at b) c)
      | Panic msg \<Rightarrow> sh_panic msg
      | Blocked _ \<Rightarrow> PSpin
      | Stuck \<Rightarrow> PSpin)"

lemma gets_loop_rest: "length (snd (gets_loop k inp)) + length (fst (gets_loop k inp)) = length inp"
  by (induction k inp rule: gets_loop.induct) (auto simp: Let_def)

lemma getcmd_rest: "getcmd nbuf inp = (Some line, rest) \<Longrightarrow> length rest < length inp"
  using gets_loop_rest [of "nat (nbuf - 1)" inp]
  by (cases "fst (gets_loop (nat (nbuf - 1)) inp)") (auto simp: getcmd_def gets_line_def Let_def split: if_splits)

text \<open>A line that begins with \<^verbatim>\<open>cd \<close> is run by the shell; the last character is cut off.\<close>

function sh_loop :: "u8 list \<Rightarrow> prog" where
  "sh_loop inp =
     PWrite 2 (say ''$ '')
       (case getcmd 100 inp of
          (None, rest) \<Rightarrow> PExit 0
        | (Some line, rest) \<Rightarrow>
            if take 3 line = say ''cd '' then
              PChdir (drop 3 (butlast line)) (\<lambda>r.
              if r < 0 then PWrite 2 (say ''cannot cd '' @ drop 3 (butlast line) @ [10]) (sh_loop rest)
              else sh_loop rest)
            else
              fork1 (\<lambda>pid. if pid = 0 then run_line line else PWait (sh_loop rest)))"
  by pat_completeness auto
termination
  by (relation "measure length") (auto dest: getcmd_rest [OF sym])

declare sh_loop.simps [simp del]

text \<open>The descriptors 0, 1 and 2 are opened first; the shell goes on when an open fails or gives 3 or more.\<close>

primrec open_console :: "nat \<Rightarrow> prog \<Rightarrow> prog" where
  "open_console 0 k = PSpin"
| "open_console (Suc n) k =
     POpen (say ''console'') 2 (\<lambda>fd.
     if fd < 0 then k
     else if fd \<ge> 3 then PClose (nat fd) k
     else open_console n k)"

definition sh_main :: "u8 list \<Rightarrow> prog" where
  "sh_main inp = open_console 4 (sh_loop inp)"

subsection \<open>What the processes become\<close>

text \<open>
  An open file, and the table of a process.  \<open>world\<close> says which files can be opened in a mode, which programs can be run and which directories
  exist.  Descriptors are given out as \<open>fdalloc\<close> of the kernel does: the lowest that is free, of 16.  Pipes are numbered.
\<close>

datatype obj = Tty | File "u8 list" nat | RdEnd nat | WrEnd nat

type_synonym fds = "nat \<Rightarrow> obj option"

record world =
  can_open :: "u8 list \<Rightarrow> nat \<Rightarrow> bool"
  can_exec :: "u8 list \<Rightarrow> bool"
  can_cd :: "u8 list \<Rightarrow> bool"

definition lowest :: "fds \<Rightarrow> nat option" where
  "lowest t = find (\<lambda>i. t i = None) [0..<16]"

text \<open>
  What a process does, seen from outside: how it ends or which program it becomes with which files, what it says and where, its children and
  with which files open it waits for one.  In this world \<^verbatim>\<open>fork\<close> succeeds always, so that the error branch of \<open>fork1\<close>, which
  the trees have, is not taken.
\<close>

datatype job =
    Ended int
  | Became "u8 list list" fds
  | Said "obj option" "u8 list" job
  | Forked job job
  | Waited fds job
  | Moved "u8 list" job
  | Hung

primrec run :: "world \<Rightarrow> prog \<Rightarrow> fds \<Rightarrow> nat \<Rightarrow> job \<times> nat" where
  "run w (PExit st) t n = (Ended st, n)"
| "run w (PExec a argv k) t n = (if can_exec w a then (Became argv t, n) else run w k t n)"
| "run w (PWrite fd bs k) t n = (let (j, n) = run w k t n in (Said (t fd) bs j, n))"
| "run w (PClose fd k) t n = run w k (t(fd := None)) n"
| "run w (POpen f m k) t n =
     (case lowest t of
        Some i \<Rightarrow> if can_open w f m then run w (k (int i)) (t(i := Some (File f m))) n else run w (k (-1)) t n
      | None \<Rightarrow> run w (k (-1)) t n)"
| "run w (PDup fd k) t n =
     (case (t fd, lowest t) of
        (Some ob, Some i) \<Rightarrow> run w (k (int i)) (t(i := Some ob)) n
      | _ \<Rightarrow> run w (k (-1)) t n)"
| "run w (PPipe k) t n =
     (case lowest t of
        None \<Rightarrow> run w (k None) t n
      | Some i \<Rightarrow>
          (case lowest (t(i := Some (RdEnd n))) of
             None \<Rightarrow> run w (k None) t n
           | Some j \<Rightarrow> run w (k (Some (i, j))) (t(i := Some (RdEnd n), j := Some (WrEnd n))) (n + 1)))"
| "run w (PFork k) t n = (let (c, n) = run w (k 0) t n; (p, n) = run w (k 1) t n in (Forked c p, n))"
| "run w (PWait k) t n = (let (j, n) = run w k t n in (Waited t j, n))"
| "run w (PChdir d k) t n =
     (if can_cd w d then let (j, n) = run w (k 0) t n in (Moved d j, n) else run w (k (-1)) t n)"
| "run w PSpin t n = (Hung, n)"

text \<open>
  The plan of a command: the files of each process follow from the structure of the command.  The two sides of a pipeline differ from their parent
  in one descriptor each, and the shell waits without an end of the pipe.
\<close>

primrec plan :: "world \<Rightarrow> u8 list cmd \<Rightarrow> fds \<Rightarrow> nat \<Rightarrow> job \<times> nat" where
  "plan w (Exec argv) t n =
     (if argv = [] then (Ended 1, n)
      else if can_exec w (hd argv) then (Became argv t, n)
      else (Said (t 2) (say ''exec '' @ hd argv @ say '' failed'' @ [10]) (Ended 0), n))"
| "plan w (Redir c f m fd) t n =
     (if can_open w f m then plan w c (t(fd := Some (File f m))) n
      else (Said ((t(fd := None)) 2) (say ''open '' @ f @ say '' failed'' @ [10]) (Ended 1), n))"
| "plan w (Seq c d) t n =
     (let (a, n) = plan w c t n; (b, n) = plan w d t n in (Forked a (Waited t b), n))"
| "plan w (Pipe c d) t n =
     (let (a, k) = plan w c (t(1 := Some (WrEnd n))) (n + 1); (b, k) = plan w d (t(0 := Some (RdEnd n))) k
      in (Forked a (Forked b (Waited t (Waited t (Ended 0)))), k))"
| "plan w (Back c) t n = (let (a, n) = plan w c t n in (Forked a (Ended 0), n))"

definition std :: "fds \<Rightarrow> bool" where
  "std t \<longleftrightarrow> (\<forall>i. t i = None \<longleftrightarrow> i \<ge> 3)"

lemma lowest_eq: "i < 16 \<Longrightarrow> t i = None \<Longrightarrow> (\<And>j. j < i \<Longrightarrow> t j \<noteq> None) \<Longrightarrow> lowest t = Some i"
  by (simp add: lowest_def find_upt_Some)

lemma std_none: "std t \<Longrightarrow> i \<ge> 3 \<Longrightarrow> t i = None"
  by (simp add: std_def)

lemma std_some: "std t \<Longrightarrow> i < 3 \<Longrightarrow> t i \<noteq> None"
  by (simp add: std_def del: not_None_eq)

lemma std_lowest:
  assumes "std t"
  shows "lowest t = Some 3" "lowest (t(3 := Some a)) = Some 4"
    "i < 3 \<Longrightarrow> lowest (t(i := None)) = Some i" "i < 3 \<Longrightarrow> lowest (t(3 := Some a, 4 := Some b, i := None)) = Some i"
proof -
  have none: "t j = None" if "j \<ge> 3" for j by (rule std_none [OF assms that])
  have some: "t j \<noteq> None" if "j < 3" for j by (rule std_some [OF assms that])
  show "lowest t = Some 3" by (rule lowest_eq) (use none some in simp_all)
  show "lowest (t(3 := Some a)) = Some 4"
  proof (rule lowest_eq)
    fix j :: nat
    assume "j < 4"
    then show "(t(3 := Some a)) j \<noteq> None" using some [of j] by (cases "j = 3") simp_all
  qed (use none in simp_all)
  show "lowest (t(i := None)) = Some i" if "i < 3" by (rule lowest_eq) (use that some in simp_all)
  show "lowest (t(3 := Some a, 4 := Some b, i := None)) = Some i" if "i < 3"
    by (rule lowest_eq) (use that some in simp_all)
qed

lemma std_upd: "std t \<Longrightarrow> i < 3 \<Longrightarrow> std (t(i := Some a))"
  by (auto simp: std_def)

lemma runcmd_plan_run: "std t \<Longrightarrow> proper c \<Longrightarrow> run w (runcmd c) t n = plan w c t n"
proof (induction c arbitrary: t n)
  case (Exec argv)
  then show ?case by (cases argv) simp_all
next
  case (Redir c f m fd)
  then have "fd < 3" by (auto simp: redir_kind_def)
  moreover from this Redir have "std (t(fd := Some (File f m)))" by (simp add: std_upd)
  ultimately show ?case using Redir by (simp add: std_lowest del: fun_upd_apply)
next
  case (Pipe c d)
  have l: "t(3 := Some (RdEnd n), 4 := Some (WrEnd n), i := None, i := Some a, 3 := None, 4 := None) = t(i := Some a)" if "i < 3" for i a
    using Pipe.prems(1) that by (auto simp: fun_eq_iff std_none [OF Pipe.prems(1)])
  have p: "t(3 := Some (RdEnd n), 4 := Some (WrEnd n), 3 := None, 4 := None) = t"
    using Pipe.prems(1) by (auto simp: fun_eq_iff std_none [OF Pipe.prems(1)])
  have e: "(t(3 := Some (RdEnd n), 4 := Some (WrEnd n), i := None)) 4 = Some (WrEnd n)"
    "(t(3 := Some (RdEnd n), 4 := Some (WrEnd n), i := None)) 3 = Some (RdEnd n)" if "i < 3" for i using that by simp_all
  show ?case
    using Pipe.prems e [of 1] e [of 0] std_upd [of t 1] std_upd [of t 0] l [of 1] l [of 0] p by (simp add: std_lowest Pipe.IH fork1_def split: prod.split del: fun_upd_apply)
qed (simp_all add: fork1_def split: prod.split)

subsection \<open>A session\<close>

text \<open>A line of the user: the message of the parser or the command.\<close>

definition parsed :: "u8 list \<Rightarrow> string + u8 list cmd" where
  "parsed line =
     (case parsecmd line 0 of
        Ok (c, b) _ \<Rightarrow> Inr (map_cmd (slice line) c)
      | Panic msg \<Rightarrow> Inl msg
      | Blocked _ \<Rightarrow> Inl []
      | Stuck \<Rightarrow> Inl [])"

function session :: "world \<Rightarrow> u8 list \<Rightarrow> fds \<Rightarrow> nat \<Rightarrow> job \<times> nat" where
  "session w inp t n =
     (let (j, n) =
        (case getcmd 100 inp of
           (None, rest) \<Rightarrow> (Ended 0, n)
         | (Some line, rest) \<Rightarrow>
             if take 3 line = say ''cd '' then
               let d = drop 3 (butlast line); (j, n) = session w rest t n in
               (if can_cd w d then Moved d j else Said (t 2) (say ''cannot cd '' @ d @ [10]) j, n)
             else
               let (a, n) = (case parsed line of
                   Inr c \<Rightarrow> plan w c t n
                 | Inl msg \<Rightarrow> (Said (t 2) (say msg @ [10]) (Ended 1), n));
                 (j, n) = session w rest t n in
               (Forked a (Waited t j), n))
      in (Said (t 2) (say ''$ '') j, n))"
  by pat_completeness auto
termination
  by (relation "measure (\<lambda>(w, inp, t, n). length inp)") (auto dest: getcmd_rest [OF sym])

declare session.simps [simp del]

lemma proper_map [simp]: "proper (map_cmd f c) = proper c"
  by (induction c) simp_all

lemma getcmd_line: "getcmd nbuf inp = (Some line, rest) \<Longrightarrow> 0 \<notin> set line"
  by (auto simp: getcmd_def Let_def split: if_splits prod.splits dest: set_takeWhileD)

lemma run_line_plan:
  assumes "std t" and "0 \<notin> set line"
  shows "run w (run_line line) t n =
    (case parsed line of Inr c \<Rightarrow> plan w c t n | Inl msg \<Rightarrow> (Said (t 2) (say msg @ [10]) (Ended 1), n))"
  using parsecmd_run [OF assms(2)]
proof (elim disjE exE conjE)
  fix c b
  assume p: "parsecmd line 0 = Ok (c, b) (length line)" "proper c"
    and w: "\<forall>(q, e) \<in> set_cmd c. q < e \<and> e \<le> length line \<and> takeWhile (\<lambda>x. x \<noteq> 0) (drop q b) = take (e - q) (drop q line)"
  have "map_cmd (string_at b) c = map_cmd (slice line) c"
    by (rule cmd.map_cong0) (use w in \<open>auto simp: string_at_def slice_def\<close>)
  then show ?thesis using p runcmd_plan_run [OF assms(1)] by (simp add: run_line_def parsed_def)
qed (simp add: run_line_def parsed_def sh_panic_def)

lemma sh_loop_session:
  assumes "std t"
  shows "run w (sh_loop inp) t n = session w inp t n"
proof (induction inp arbitrary: n rule: sh_loop.induct)
  case (1 inp)
  show ?case
  proof (cases "getcmd 100 inp")
    case (Pair line rest)
    show ?thesis
    proof (cases line)
      case None
      then show ?thesis using Pair by (simp add: sh_loop.simps [of inp] session.simps [of w inp])
    next
      case (Some l)
      have ih: "run w (sh_loop rest) t n = session w rest t n" for n
        using 1 Pair Some by (cases "take 3 l = say ''cd ''") (metis zero_neq_one)+
      show ?thesis
        using Pair Some ih run_line_plan [OF assms getcmd_line, of 100 inp l rest w]
        by (simp add: sh_loop.simps [of inp] session.simps [of w inp] fork1_def Let_def split: prod.split)
    qed
  qed
qed

text \<open>
  C11: the shell from its first call to the end of its input.  Every line that is not a \<^verbatim>\<open>cd\<close> becomes one child, which the shell waits for before it prompts
  again; the child panics with the parser's message or runs the plan of the command.  Its processes have exactly the
  descriptors 0, 1 and 2, redirected as the command says, the sides of a pipeline connected by it; no process keeps another end of a pipe, so
  that a reader sees the end of the input when the writers are done.
\<close>

theorem shell_session:
  assumes "std t"
  shows "run w (sh_main inp) t n = session w inp t n"
proof -
  have "t(3 := Some a, 3 := None) = t" for a using std_none [OF assms, of 3] by (simp add: fun_eq_iff)
  then show ?thesis
    using sh_loop_session [OF assms]
    by (simp add: sh_main_def eval_nat_numeral std_lowest [OF assms] del: fun_upd_apply)
qed

text \<open>The line \<^verbatim>\<open>a|b\<close>.\<close>

definition demo_world :: world where
  "demo_world = \<lparr>can_open = \<lambda>_ _. True, can_exec = \<lambda>_. True, can_cd = \<lambda>_. True\<rparr>"

definition demo_fds :: fds where
  "demo_fds = (\<lambda>i. if i < 3 then Some Tty else None)"

lemma demo_parsed: "parsed [97, 124, 98, 10] = Inr (Pipe (Exec [[97]]) (Exec [[98]]))"
  by code_simp

lemma demo_lines: "getcmd 100 [97, 124, 98, 10] = (Some [97, 124, 98, 10], [])" "getcmd 100 [] = (None, [])"
  by code_simp+

theorem shell_session_witness:
  "std demo_fds \<and> run demo_world (sh_main [97, 124, 98, 10]) demo_fds 0 =
     (Said (Some Tty) [36, 32] (Forked
        (Forked (Became [[97]] (demo_fds(1 := Some (WrEnd 0)))) (Forked (Became [[98]] (demo_fds(0 := Some (RdEnd 0))))
           (Waited demo_fds (Waited demo_fds (Ended 0)))))
        (Waited demo_fds (Said (Some Tty) [36, 32] (Ended 0)))), 1)"
proof -
  have s: "std demo_fds" and two: "demo_fds 2 = Some Tty" by (simp_all add: std_def demo_fds_def)
  have c: "take 3 [97, 124, 98, 10] \<noteq> say ''cd ''" and d: "say ''$ '' = [36, 32]" by code_simp+
  show ?thesis
    unfolding shell_session [OF s]
    using s c d two by (simp add: session.simps demo_lines demo_parsed demo_world_def del: fun_upd_apply)
qed

end
