(* ===== verification/Mkfs.thy ===== *)
theory Mkfs
  imports Content Bytes
begin

section \<open>The file-system image (\<^verbatim>\<open>mkfs/mkfs.c\<close>)\<close>

text \<open>
  The tool that writes the disk the kernel boots from.  Its state: the image file as the list of its blocks, the next inode, the next
  block and the superblock.  An assertion that fails and a call of \<^verbatim>\<open>die\<close> are \<open>Panic\<close>.  The host is little-endian; its writes
  succeed.  A \<^verbatim>\<open>struct dinode\<close> is the part of an inode that is on disk.
\<close>

record mkfs =
  image :: "u8 list list"
  freeinode :: u32
  freeblock :: u32
  msb :: superblock

type_synonym 'a mM = "(mkfs, 'a) kM"

abbreviation (input) "FSSIZE \<equiv> 2000 :: nat"
abbreviation (input) "NINODES \<equiv> 200 :: u32"

definition nbitmap :: u32 where
  "nbitmap = of_nat FSSIZE div BPB + 1"

definition ninodeblocks :: u32 where
  "ninodeblocks = NINODES div IPB + 1"

definition nmeta :: u32 where
  "nmeta = 2 + of_int LOGSIZE + ninodeblocks + nbitmap"

subsection \<open>Words and sectors\<close>

text \<open>The bytes are stored in their order on the disk and read as a word of the host.\<close>

definition xshort :: "u16 \<Rightarrow> u16" where
  "xshort x = get16 [ucast x, ucast (drop_bit 8 x)] 0"

definition xint :: "u32 \<Rightarrow> u32" where
  "xint x = get32 [ucast x, ucast (drop_bit 8 x), ucast (drop_bit 16 x), ucast (drop_bit 24 x)] 0"

text \<open>The offset in the file is computed in 32 bits.  A write behind the end leaves a hole of zeros.\<close>

definition sector :: "u32 \<Rightarrow> nat" where
  "sector sec = unat (sec * 1024) div 1024"

definition wsect :: "u32 \<Rightarrow> u8 list \<Rightarrow> unit mM" where
  "wsect sec bs =
     modify (\<lambda>s. s\<lparr>image :=
       (if sector sec < length (image s) then (image s)[sector sec := bs]
        else image s @ replicate (sector sec - length (image s)) (replicate BSIZE 0) @ [bs])\<rparr>)"

definition rsect :: "u32 \<Rightarrow> u8 list mM" where
  "rsect sec =
     bnd (gets image) (\<lambda>im.
     seq (guard_panic (sector sec \<ge> length im) ''read'')
         (ret (im ! sector sec)))"

subsection \<open>Inodes\<close>

definition winode :: "u32 \<Rightarrow> inode \<Rightarrow> unit mM" where
  "winode n ip =
     bnd (gets msb) (\<lambda>b.
     bnd (rsect (IBLOCK n b)) (\<lambda>buf.
     wsect (IBLOCK n b) (put_bytes (dino_off n) (dinode_bytes ip) buf)))"

definition rinode :: "u32 \<Rightarrow> inode mM" where
  "rinode n =
     bnd (gets msb) (\<lambda>b.
     bnd (rsect (IBLOCK n b)) (\<lambda>buf.
     ret (load_dinode buf (dino_off n) bss_inode)))"

definition mk_ialloc :: "u16 \<Rightarrow> u32 mM" where
  "mk_ialloc type =
     bnd (gets freeinode) (\<lambda>n.
     seq (modify (\<lambda>s. s\<lparr>freeinode := n + 1\<rparr>)) (
     seq (winode n (bss_inode\<lparr>itype := xshort type, nlink := xshort 1, isize := xint 0\<rparr>))
         (ret n)))"

definition take_block :: "u32 mM" where
  "take_block =
     bnd (gets freeblock) (\<lambda>b.
     seq (modify (\<lambda>s. s\<lparr>freeblock := b + 1\<rparr>)) (ret b))"

subsection \<open>Appending to a file\<close>

text \<open>The block of the file with number \<open>fbn\<close>, allocated when there is none, and the inode with its number.\<close>

definition file_block :: "inode \<Rightarrow> u32 \<Rightarrow> (u32 \<times> inode) mM" where
  "file_block din fbn =
     (if fbn < 12 then
        bnd (if xint (addrs din ! unat fbn) = 0 then
               bnd take_block (\<lambda>b. ret (din\<lparr>addrs := (addrs din)[unat fbn := xint b]\<rparr>))
             else ret din) (\<lambda>din.
        ret (xint (addrs din ! unat fbn), din))
      else
        bnd (if xint (addrs din ! NDIRECT) = 0 then
               bnd take_block (\<lambda>b. ret (din\<lparr>addrs := (addrs din)[NDIRECT := xint b]\<rparr>))
             else ret din) (\<lambda>din.
        bnd (rsect (xint (addrs din ! NDIRECT))) (\<lambda>ind.
        let k = 4 * unat (fbn - 12) in
        bnd (if get32 ind k = 0 then
               bnd take_block (\<lambda>b.
               seq (wsect (xint (addrs din ! NDIRECT)) (put32 k (xint b) ind))
                   (ret (put32 k (xint b) ind)))
             else ret ind) (\<lambda>ind.
        ret (xint (get32 ind k), din)))))"

text \<open>\<open>chunk off n\<close> is the smaller of \<^verbatim>\<open>n\<close> and \<^verbatim>\<open>(fbn + 1) * BSIZE - off\<close>.\<close>

function iappend_loop :: "inode \<Rightarrow> u32 \<Rightarrow> u8 list \<Rightarrow> (inode \<times> u32) mM" where
  "iappend_loop din off p =
     (if p = [] then ret (din, off)
      else
        let fbn = off div 1024; n1 = chunk off (length p) in
        seq (guard_panic (fbn \<ge> of_nat MAXFILE) ''assert'') (
        bnd (file_block din fbn) (\<lambda>(x, din).
        bnd (rsect x) (\<lambda>buf.
        seq (wsect x (put_bytes (unat (off - fbn * 1024)) (take n1 p) buf))
            (iappend_loop din (off + of_nat n1) (drop n1 p))))))"
  by pat_completeness auto
termination
  by (relation "measure (\<lambda>(din, off, p). length p)") (auto simp: chunk_bounds)

declare iappend_loop.simps [simp del]

definition iappend :: "u32 \<Rightarrow> u8 list \<Rightarrow> unit mM" where
  "iappend n p =
     bnd (rinode n) (\<lambda>din.
     bnd (iappend_loop din (xint (isize din)) p) (\<lambda>(din, off).
     winode n (din\<lparr>isize := xint off\<rparr>)))"

subsection \<open>The image\<close>

definition mk_balloc :: "nat \<Rightarrow> unit mM" where
  "mk_balloc used =
     seq (guard_panic (used \<ge> 8192) ''assert'') (
     bnd (gets msb) (\<lambda>b.
     wsect (sb_bmapstart b)
       (fold (\<lambda>i buf. buf[i div 8 := buf ! (i div 8) OR push_bit (i mod 8) 1]) [0..<used] (replicate BSIZE 0))))"

definition mk_dirent :: "u32 \<Rightarrow> u8 list \<Rightarrow> u8 list" where
  "mk_dirent n name = bytes16 (xshort (ucast n)) @ take DIRSIZ (name @ replicate DIRSIZ 0)"

text \<open>
  A file of the command line is its path and what the reads of it give.  The path loses a leading \<^verbatim>\<open>user/\<close> and an underscore.
\<close>

definition shortname :: "u8 list \<Rightarrow> u8 list mM" where
  "shortname path =
     (let nm = (if take 5 path = [117, 115, 101, 114, 47] then drop 5 path else path) in
      seq (guard_panic (47 \<in> set nm) ''assert'') (
      let nm = (if nm \<noteq> [] \<and> hd nm = 95 then tl nm else nm) in
      seq (guard_panic (length nm > DIRSIZ) ''assert'')
          (ret nm)))"

definition add_file :: "u32 \<Rightarrow> u8 list \<times> u8 list list \<Rightarrow> unit mM" where
  "add_file root f =
     bnd (shortname (fst f)) (\<lambda>nm.
     bnd (mk_ialloc T_FILE) (\<lambda>n.
     seq (iappend root (mk_dirent n nm))
         (foreach (snd f) (iappend n))))"

definition mk_super :: "unit mM" where
  "mk_super =
     seq (modify (\<lambda>s. s\<lparr>msb := \<lparr>sb_magic = FSMAGIC, sb_size = xint (of_nat FSSIZE), sb_nblocks = xint (of_nat FSSIZE - nmeta),
        sb_ninodes = xint NINODES, sb_nlog = xint (of_int LOGSIZE), sb_logstart = xint 2, sb_inodestart = xint (2 + of_int LOGSIZE),
        sb_bmapstart = xint (2 + of_int LOGSIZE + ninodeblocks)\<rparr>\<rparr>)) (
     seq (modify (\<lambda>s. s\<lparr>freeblock := nmeta\<rparr>)) (
     seq (foreach [0..<FSSIZE] (\<lambda>i. wsect (of_nat i) (replicate BSIZE 0))) (
     bnd (gets msb) (\<lambda>b.
     wsect 1 (put_bytes 0 (concat (map bytes32 [sb_magic b, sb_size b, sb_nblocks b, sb_ninodes b, sb_nlog b, sb_logstart b,
        sb_inodestart b, sb_bmapstart b])) (replicate BSIZE 0))))))"

definition mkfs_main :: "(u8 list \<times> u8 list list) list \<Rightarrow> unit mM" where
  "mkfs_main fs =
     seq mk_super (
     bnd (mk_ialloc T_DIR) (\<lambda>root.
     seq (guard_panic (root \<noteq> ROOTINO) ''assert'') (
     seq (iappend root (mk_dirent root [46])) (
     seq (iappend root (mk_dirent root [46, 46])) (
     seq (foreach fs (add_file root)) (
     bnd (rinode root) (\<lambda>din.
     seq (winode root (din\<lparr>isize := xint ((xint (isize din) div 1024 + 1) * 1024)\<rparr>)) (
     bnd (gets freeblock) (\<lambda>b.
     mk_balloc (unat b))))))))))"

definition mkfs_start :: mkfs where
  "mkfs_start = \<lparr>image = [], freeinode = 1, freeblock = 0, msb = \<lparr>sb_magic = 0, sb_size = 0, sb_nblocks = 0, sb_ninodes = 0,
     sb_nlog = 0, sb_logstart = 0, sb_inodestart = 0, sb_bmapstart = 0\<rparr>\<rparr>"

end
