(* ===== verification/Image.thy ===== *)
theory Image
  imports Mkfs
begin

section \<open>The image that \<open>mkfs\<close> writes is the one the kernel reads\<close>

text \<open>
  The image is seen through the functions of the kernel: \<open>load_dinode\<close> for an inode, \<open>block_of\<close> for a block of a file, \<open>file_byte\<close> for its bytes.
  The invariant \<open>sound\<close> says that every block belongs to at most one place of one file, that the blocks from
  \<open>freeblock\<close> on are zero, and that a file has exactly the blocks that its size needs.
\<close>

subsection \<open>An inode on the disk\<close>

lemma get32_eq:
  assumes "\<And>i. i < 4 \<Longrightarrow> d ! (k + i) = bytes32 w ! i"
  shows "get32 d k = w"
proof -
  have "d ! k = bytes32 w ! 0" "d ! (k + 1) = bytes32 w ! 1" "d ! (k + 2) = bytes32 w ! 2" "d ! (k + 3) = bytes32 w ! 3"
    using assms [of 0] assms [of 1] assms [of 2] assms [of 3] by simp_all
  then show ?thesis by (simp add: get32_def bytes32_def rcat32)
qed

lemma get16_eq:
  assumes "\<And>i. i < 2 \<Longrightarrow> d ! (k + i) = bytes16 w ! i"
  shows "get16 d k = w"
proof -
  have "d ! k = bytes16 w ! 0" "d ! (k + 1) = bytes16 w ! 1"
    using assms [of 0] assms [of 1] by simp_all
  then show ?thesis by (simp add: get16_def bytes16_def rcat16)
qed

lemma less_two: "(i :: nat) < 2 \<Longrightarrow> i = 0 \<or> i = 1"
  by auto

lemma less_four: "(i :: nat) < 4 \<Longrightarrow> i = 0 \<or> i = 1 \<or> i = 2 \<or> i = 3"
  by auto

lemma concat_words: "j < length as \<Longrightarrow> i < 4 \<Longrightarrow> concat (map bytes32 as) ! (4 * j + i) = bytes32 (as ! j) ! i"
proof (induction as arbitrary: j)
  case (Cons a as)
  then show ?case by (cases j) (simp_all add: nth_append)
qed simp

lemma length_concat_words: "length (concat (map bytes32 as)) = 4 * length as"
  by (induction as) simp_all

lemma length_dinode: "length (addrs ip) = 13 \<Longrightarrow> length (dinode_bytes ip) = 64"
  by (simp add: dinode_bytes_def length_concat_words)

lemma dinode_nth:
  "i < 2 \<Longrightarrow> dinode_bytes ip ! i = bytes16 (itype ip) ! i"
  "i < 2 \<Longrightarrow> dinode_bytes ip ! (2 + i) = bytes16 (imajor ip) ! i"
  "i < 2 \<Longrightarrow> dinode_bytes ip ! (4 + i) = bytes16 (iminor ip) ! i"
  "i < 2 \<Longrightarrow> dinode_bytes ip ! (6 + i) = bytes16 (nlink ip) ! i"
  "i < 4 \<Longrightarrow> dinode_bytes ip ! (8 + i) = bytes32 (isize ip) ! i"
  "j < length (addrs ip) \<Longrightarrow> i < 4 \<Longrightarrow> dinode_bytes ip ! (12 + (4 * j + i)) = bytes32 (addrs ip ! j) ! i"
  by (simp_all add: dinode_bytes_def nth_append concat_words)

lemma dinode_round:
  assumes len: "length (addrs ip) = 13" and k: "k + 64 \<le> length d"
  shows "load_dinode (put_bytes k (dinode_bytes ip) d) k jp =
    jp\<lparr>itype := itype ip, imajor := imajor ip, iminor := iminor ip, nlink := nlink ip, isize := isize ip, addrs := addrs ip\<rparr>"
proof -
  let ?d = "put_bytes k (dinode_bytes ip) d"
  have at: "?d ! (k + i) = dinode_bytes ip ! i" if "i < 64" for i
    using nth_put [of k "dinode_bytes ip" d "k + i"] that k length_dinode [OF len] by simp
  then have at2: "?d ! (k + a + i) = dinode_bytes ip ! (a + i)" if "a + i < 64" for a i
    using that by (simp add: add.assoc)
  have "get16 ?d k = itype ip" by (rule get16_eq) (simp add: at dinode_nth)
  moreover have "get16 ?d (k + 2) = imajor ip" by (rule get16_eq) (subst at2, simp, rule dinode_nth(2))
  moreover have "get16 ?d (k + 4) = iminor ip" by (rule get16_eq) (subst at2, simp, rule dinode_nth(3))
  moreover have "get16 ?d (k + 6) = nlink ip" by (rule get16_eq) (subst at2, simp, rule dinode_nth(4))
  moreover have "get32 ?d (k + 8) = isize ip" by (rule get32_eq) (subst at2, simp, rule dinode_nth(5))
  moreover have "map (\<lambda>j. get32 ?d (k + 12 + 4 * j)) [0..<NDIRECT + 1] = addrs ip"
  proof (rule nth_equalityI)
    fix j assume "j < length (map (\<lambda>j. get32 ?d (k + 12 + 4 * j)) [0..<NDIRECT + 1])"
    then have j: "j < 13" by simp
    have "get32 ?d (k + (12 + 4 * j)) = addrs ip ! j"
      by (rule get32_eq) (use j len in \<open>simp add: at2 dinode_nth(6) [simplified add.assoc [symmetric]]\<close>)
    then show "map (\<lambda>j. get32 ?d (k + 12 + 4 * j)) [0..<NDIRECT + 1] ! j = addrs ip ! j" using j by (simp add: add.assoc del: upt_Suc)
  qed (use len in simp)
  ultimately show ?thesis by (simp add: load_dinode_def)
qed

lemma load_dinode_cong:
  assumes "\<And>i. i < 64 \<Longrightarrow> d' ! (k + i) = d ! (k + i)"
  shows "load_dinode d' k jp = load_dinode d k jp"
proof -
  have w: "get16 d' (k + i) = get16 d (k + i)" if "i + 1 < 64" for i
    using assms [of i] assms [of "i + 1"] that by (simp add: get16_def add.assoc)
  have l: "get32 d' (k + i) = get32 d (k + i)" if "i + 3 < 64" for i
    using assms [of i] assms [of "i + 1"] assms [of "i + 2"] assms [of "i + 3"] that by (simp add: get32_def add.assoc)
  show ?thesis
    using w [of 0] w [of 2] w [of 4] w [of 6] l [of 8] l [of "12 + 4 * j" for j]
    by (simp add: load_dinode_def add.assoc)
qed

subsection \<open>The block numbers of a file\<close>

text \<open>
  A file has 269 places for a block number: 0 to 11 and the indirect block 12 in the inode, the others in the indirect block.
  \<open>place k\<close> is the place of the \<open>k\<close>-th block of its data.
\<close>

definition ptr :: "(u32 \<Rightarrow> u8 list) \<Rightarrow> inode \<Rightarrow> nat \<Rightarrow> u32" where
  "ptr v ip p =
     (if p < 13 then addrs ip ! p
      else if addrs ip ! NDIRECT = 0 then 0
      else get32 (v (addrs ip ! NDIRECT)) (4 * (p - 13)))"

definition place :: "nat \<Rightarrow> nat" where
  "place k = (if k < NDIRECT then k else k + 1)"

definition covered :: "(u32 \<Rightarrow> u8 list) \<Rightarrow> inode \<Rightarrow> nat \<Rightarrow> bool" where
  "covered v ip n \<longleftrightarrow> (\<forall>k. k * BSIZE < n \<longrightarrow> k < MAXFILE \<and> ptr v ip (place k) \<noteq> 0)"

text \<open>The bytes behind the end are zero.\<close>

definition clear :: "(u32 \<Rightarrow> u8 list) \<Rightarrow> inode \<Rightarrow> nat \<Rightarrow> bool" where
  "clear v ip n \<longleftrightarrow> (\<forall>k < MAXFILE. ptr v ip (place k) \<noteq> 0 \<longrightarrow> (\<forall>i < BSIZE. n \<le> k * BSIZE + i \<longrightarrow> v (ptr v ip (place k)) ! i = 0))"

definition exact :: "(u32 \<Rightarrow> u8 list) \<Rightarrow> inode \<Rightarrow> nat \<Rightarrow> bool" where
  "exact v ip n \<longleftrightarrow> n \<le> MAXFILE * BSIZE \<and> (\<forall>k < MAXFILE. ptr v ip (place k) \<noteq> 0 \<longleftrightarrow> k * BSIZE < n) \<and>
     (ptr v ip NDIRECT \<noteq> 0 \<longleftrightarrow> NDIRECT * BSIZE < n) \<and> clear v ip n"

definition content :: "(u32 \<Rightarrow> u8 list) \<Rightarrow> inode \<Rightarrow> nat \<Rightarrow> u8 list" where
  "content v ip n = map (file_byte ip v) [0..<n]"

lemma place_bounds [simp]: "place k \<noteq> NDIRECT" "k < MAXFILE \<Longrightarrow> place k < 269"
  by (auto simp: place_def)

lemma place_inj: "place k = place j \<longleftrightarrow> k = j"
  by (auto simp: place_def)

lemma exact_covered: "exact v ip n \<Longrightarrow> covered v ip n"
  unfolding exact_def covered_def by auto

lemma block_of_ptr: "ptr v ip (place k) \<noteq> 0 \<Longrightarrow> block_of ip v k = ptr v ip (place k)"
  by (auto simp: ptr_def place_def block_of_def split: if_splits)

lemma covered_block: "covered v ip n \<Longrightarrow> q < n \<Longrightarrow> q div BSIZE < MAXFILE \<and> ptr v ip (place (q div BSIZE)) \<noteq> 0 \<and>
    block_of ip v (q div BSIZE) = ptr v ip (place (q div BSIZE))"
proof -
  assume c: "covered v ip n" and q: "q < n"
  have "q div BSIZE * BSIZE \<le> q" by simp
  then have "q div BSIZE * BSIZE < n" using q by linarith
  then have "q div BSIZE < MAXFILE" "ptr v ip (place (q div BSIZE)) \<noteq> 0" using c unfolding covered_def by blast+
  then show ?thesis by (simp add: block_of_ptr)
qed

text \<open>Two views of a file with the same numbers in its places and the same blocks at them.\<close>

lemma content_same:
  assumes c: "covered v ip n"
    and p: "\<And>k. k * BSIZE < n \<Longrightarrow> ptr v' ip' (place k) = ptr v ip (place k)"
    and b: "\<And>k. k * BSIZE < n \<Longrightarrow> v' (ptr v ip (place k)) = v (ptr v ip (place k))"
  shows "covered v' ip' n \<and> content v' ip' n = content v ip n"
proof
  show cov: "covered v' ip' n" using c p by (auto simp: covered_def)
  have "file_byte ip' v' q = file_byte ip v q" if "q < n" for q
  proof -
    have "q div BSIZE * BSIZE \<le> q" by simp
    then have "q div BSIZE * BSIZE < n" using that by linarith
    then show ?thesis
      using covered_block [OF c that] covered_block [OF cov that] p b by (simp add: file_byte_def)
  qed
  then show "content v' ip' n = content v ip n" by (simp add: content_def)
qed

lemma untouched:
  assumes "\<And>p. p < 269 \<Longrightarrow> ptr v ip p \<noteq> 0 \<Longrightarrow> v' (ptr v ip p) = v (ptr v ip p)" and "p < 269"
  shows "ptr v' ip p = ptr v ip p"
  using assms(1) [of NDIRECT] by (auto simp: ptr_def)

lemma content_untouched:
  assumes c: "exact v ip n" and b: "\<And>p. p < 269 \<Longrightarrow> ptr v ip p \<noteq> 0 \<Longrightarrow> v' (ptr v ip p) = v (ptr v ip p)"
  shows "exact v' ip n \<and> content v' ip n = content v ip n"
proof
  have p: "ptr v' ip p = ptr v ip p" if "p < 269" for p by (rule untouched) (use b that in auto)
  have "clear v' ip n" using c b unfolding exact_def clear_def by (simp add: p)
  then show "exact v' ip n" using c by (simp add: exact_def p)
  have cov: "covered v ip n" by (rule exact_covered [OF c])
  show "content v' ip n = content v ip n"
  proof (rule conjunct2 [OF content_same [OF cov]])
    fix k assume k: "k * BSIZE < n"
    then have "k < MAXFILE" "ptr v ip (place k) \<noteq> 0" using cov unfolding covered_def by blast+
    then show "ptr v' ip (place k) = ptr v ip (place k)" "v' (ptr v ip (place k)) = v (ptr v ip (place k))"
      using p b by simp_all
  qed
qed

subsection \<open>The invariant\<close>

definition blk :: "mkfs \<Rightarrow> u32 \<Rightarrow> u8 list" where
  "blk s b = image s ! unat b"

definition the_super :: superblock where
  "the_super = \<lparr>sb_magic = FSMAGIC, sb_size = 2000, sb_nblocks = 1954, sb_ninodes = 200, sb_nlog = 30, sb_logstart = 2,
     sb_inodestart = 32, sb_bmapstart = 45\<rparr>"

text \<open>The shape of the image; \<open>D\<close> gives the inodes.\<close>

definition shape :: "mkfs \<Rightarrow> bool" where
  "shape s \<longleftrightarrow> length (image s) = FSSIZE \<and> (\<forall>b \<in> set (image s). length b = BSIZE) \<and> msb s = the_super \<and>
     46 \<le> unat (freeblock s) \<and> unat (freeblock s) \<le> FSSIZE \<and> freeinode s \<le> NINODES \<and>
     (\<forall>b. unat (freeblock s) \<le> unat b \<longrightarrow> unat b < FSSIZE \<longrightarrow> blk s b = replicate BSIZE 0)"

definition sound :: "(u32 \<Rightarrow> inode) \<Rightarrow> mkfs \<Rightarrow> bool" where
  "sound D s \<longleftrightarrow>
     (\<forall>n < freeinode s. length (addrs (D n)) = 13) \<and>
     (\<forall>n < freeinode s. \<forall>p < 269. ptr (blk s) (D n) p \<noteq> 0 \<longrightarrow>
        46 \<le> unat (ptr (blk s) (D n) p) \<and> unat (ptr (blk s) (D n) p) < unat (freeblock s)) \<and>
     (\<forall>n < freeinode s. \<forall>m < freeinode s. \<forall>p < 269. \<forall>q < 269. ptr (blk s) (D n) p \<noteq> 0 \<longrightarrow>
        ptr (blk s) (D n) p = ptr (blk s) (D m) q \<longrightarrow> n = m \<and> p = q)"

definition holds :: "(u32 \<Rightarrow> inode) \<Rightarrow> (u32 \<Rightarrow> u8 list) \<Rightarrow> mkfs \<Rightarrow> u32 set \<Rightarrow> bool" where
  "holds D F s N \<longleftrightarrow> (\<forall>n \<in> N. n < freeinode s \<longrightarrow> exact (blk s) (D n) (length (F n)) \<and> content (blk s) (D n) (length (F n)) = F n)"

lemma shapeD:
  assumes "shape s"
  shows "length (image s) = FSSIZE" "msb s = the_super" "46 \<le> unat (freeblock s)" "unat (freeblock s) \<le> FSSIZE" "freeinode s \<le> NINODES"
    "unat b < FSSIZE \<Longrightarrow> length (blk s b) = BSIZE"
    "unat (freeblock s) \<le> unat b \<Longrightarrow> unat b < FSSIZE \<Longrightarrow> blk s b = replicate BSIZE 0"
  using assms by (auto simp: shape_def blk_def)

lemma soundD:
  assumes "sound D s" and "n < freeinode s"
  shows "length (addrs (D n)) = 13"
    "p < 269 \<Longrightarrow> ptr (blk s) (D n) p \<noteq> 0 \<Longrightarrow> 46 \<le> unat (ptr (blk s) (D n) p) \<and> unat (ptr (blk s) (D n) p) < unat (freeblock s)"
    "m < freeinode s \<Longrightarrow> p < 269 \<Longrightarrow> q < 269 \<Longrightarrow> ptr (blk s) (D n) p \<noteq> 0 \<Longrightarrow> ptr (blk s) (D n) p = ptr (blk s) (D m) q \<Longrightarrow> n = m \<and> p = q"
  using assms unfolding sound_def by blast+

text \<open>
  A block is taken for the place \<open>a\<close> of inode \<open>n\<close>; no block in use but the indirect one of \<open>n\<close> changes, and that one only at \<open>a\<close>.
\<close>

lemma new_block:
  assumes sh: "shape s" and so: "sound D s" and n: "n < freeinode s" and room: "unat (freeblock s) < FSSIZE"
    and hold: "holds D F s (- {n})" and cov: "covered (blk s) (D n) l"
    and a: "a < 269" "ptr (blk s) (D n) a = 0"
    and s': "length (image s') = FSSIZE" "\<forall>b \<in> set (image s'). length b = BSIZE" "msb s' = msb s" "freeinode s' = freeinode s" "freeblock s' = freeblock s + 1"
    and len: "length (addrs ip) = 13"
    and ptr: "\<And>p. p < 269 \<Longrightarrow> ptr (blk s') ip p = (if p = a then freeblock s else ptr (blk s) (D n) p)"
    and same: "\<And>b. b \<noteq> 0 \<Longrightarrow> b \<noteq> ptr (blk s) (D n) NDIRECT \<Longrightarrow> blk s' b = blk s b"
  shows "shape s'" "sound (D(n := ip)) s'" "holds (D(n := ip)) F s' (- {n})"
    "covered (blk s') ip l" "content (blk s') ip l = content (blk s) (D n) l"
proof -
  have fb: "unat (freeblock s + 1) = unat (freeblock s) + 1"
    using room by (simp add: unat_word_ariths)
  have fb0: "freeblock s \<noteq> 0" using shapeD(3) [OF sh] by auto
  have ind: "unat (ptr (blk s) (D n) NDIRECT) < unat (freeblock s)"
    using soundD(2) [OF so n, of NDIRECT] shapeD(3) [OF sh] by (cases "ptr (blk s) (D n) NDIRECT = 0") auto
  have others: "ptr (blk s') (D m) p = ptr (blk s) (D m) p" "ptr (blk s) (D m) p \<noteq> 0 \<Longrightarrow> blk s' (ptr (blk s) (D m) p) = blk s (ptr (blk s) (D m) p)"
    if m: "m < freeinode s" "m \<noteq> n" and p: "p < 269" for m p
  proof -
    have same_m: "blk s' (ptr (blk s) (D m) q) = blk s (ptr (blk s) (D m) q)" if "q < 269" "ptr (blk s) (D m) q \<noteq> 0" for q
      using soundD(3) [OF so m(1) n that(1) _ that(2), of NDIRECT] m(2) that by (intro same) auto
    then show "ptr (blk s) (D m) p \<noteq> 0 \<Longrightarrow> blk s' (ptr (blk s) (D m) p) = blk s (ptr (blk s) (D m) p)" using p by blast
    show "ptr (blk s') (D m) p = ptr (blk s) (D m) p" by (rule untouched) (use same_m p in auto)
  qed
  have ptr': "ptr (blk s') ((D(n := ip)) m) p = (if m = n \<and> p = a then freeblock s else ptr (blk s) (D m) p)" if "m < freeinode s" "p < 269" for m p
    using ptr others(1) that by auto
  show "shape s'"
  proof -
    have "blk s' b = replicate BSIZE 0" if "unat (freeblock s') \<le> unat b" "unat b < FSSIZE" for b
    proof -
      have "unat (freeblock s) < unat b" using that s'(5) fb by simp
      then have "blk s' b = blk s b" using ind by (intro same) auto
      then show ?thesis using shapeD(7) [OF sh, of b] \<open>unat (freeblock s) < unat b\<close> that(2) by simp
    qed
    then show ?thesis using s' fb room shapeD [OF sh] by (simp add: shape_def)
  qed
  have le: "length (addrs ((D(n := ip)) m)) = 13" if "m < freeinode s" for m using soundD(1) [OF so that] len by simp
  have range: "46 \<le> unat (if m = n \<and> p = a then freeblock s else ptr (blk s) (D m) p) \<and>
      unat (if m = n \<and> p = a then freeblock s else ptr (blk s) (D m) p) < unat (freeblock s) + 1"
    if "m < freeinode s" "p < 269" "(if m = n \<and> p = a then freeblock s else ptr (blk s) (D m) p) \<noteq> 0" for m p
    using soundD(2) [OF so that(1,2)] that(3) shapeD(3) [OF sh] by (auto split: if_splits)
  have low: "ptr (blk s) (D m) p \<noteq> freeblock s" if "m < freeinode s" "p < 269" for m p
    using soundD(2) [OF so that] fb0 by (metis nat_less_le)
  show "sound (D(n := ip)) s'"
    unfolding sound_def s'(4,5) fb
  proof (intro conjI allI impI)
    fix m k p q assume m: "m < freeinode s" "k < freeinode s" "p < 269" "q < 269"
      and e: "ptr (blk s') ((D(n := ip)) m) p \<noteq> 0" "ptr (blk s') ((D(n := ip)) m) p = ptr (blk s') ((D(n := ip)) k) q"
    then show "m = k" "p = q"
      using soundD(3) [OF so m(1,2,3,4)] low [OF m(1,3)] low [OF m(2,4)] unfolding ptr' [OF m(1,3)] ptr' [OF m(2,4)]
      by (auto split: if_splits)
  next
    fix m p assume m: "m < freeinode s" "p < 269" "ptr (blk s') ((D(n := ip)) m) p \<noteq> 0"
    show "46 \<le> unat (ptr (blk s') ((D(n := ip)) m) p)" "unat (ptr (blk s') ((D(n := ip)) m) p) < unat (freeblock s) + 1"
      using range [OF m(1,2)] m(3) unfolding ptr' [OF m(1,2)] by blast+
  qed (rule le)
  show "holds (D(n := ip)) F s' (- {n})"
    unfolding holds_def s'(4)
  proof (intro ballI impI)
    fix m assume m: "m \<in> - {n}" "m < freeinode s"
    have "exact (blk s) (D m) (length (F m))" "content (blk s) (D m) (length (F m)) = F m" using hold m by (auto simp: holds_def)
    then show "exact (blk s') ((D(n := ip)) m) (length (F m)) \<and> content (blk s') ((D(n := ip)) m) (length (F m)) = F m"
      using content_untouched [of "blk s" "D m" "length (F m)" "blk s'"] others(2) [of m] m by simp
  qed
  have "covered (blk s') ip l \<and> content (blk s') ip l = content (blk s) (D n) l"
  proof (rule content_same [OF cov])
    fix k assume k: "k * BSIZE < l"
    then have c: "k < MAXFILE" "ptr (blk s) (D n) (place k) \<noteq> 0" using cov unfolding covered_def by blast+
    then have p: "place k < 269" "place k \<noteq> a" "place k \<noteq> NDIRECT" using a(2) by auto
    then show "ptr (blk s') ip (place k) = ptr (blk s) (D n) (place k)" using ptr by simp
    show "blk s' (ptr (blk s) (D n) (place k)) = blk s (ptr (blk s) (D n) (place k))"
      using soundD(3) [OF so n n p(1) _ c(2), of NDIRECT] p(3) c(2) by (intro same) auto
  qed
  then show "covered (blk s') ip l" "content (blk s') ip l = content (blk s) (D n) l" by blast+
qed

subsection \<open>Sectors\<close>

lemma xint_id [simp]: "xint x = x"
  by (simp add: xint_def get32_def rcat32)

lemma xshort_id [simp]: "xshort x = x"
  by (simp add: xshort_def get16_def rcat16)

lemma sector_id: "unat b < FSSIZE \<Longrightarrow> sector b = unat b"
proof -
  assume b: "unat b < FSSIZE"
  have "unat (b * 1024) = unat b * 1024"
    by (subst unat_mult_lem [THEN iffD1]) (use b in simp_all)
  then show ?thesis by (simp add: sector_def)
qed

lemma rsect_run: "shape s \<Longrightarrow> unat b < FSSIZE \<Longrightarrow> rsect b s = Ok (blk s b) s"
  by (simp add: rsect_def sector_id shapeD blk_def)

definition put_blk :: "u32 \<Rightarrow> u8 list \<Rightarrow> mkfs \<Rightarrow> mkfs" where
  "put_blk b c s = s\<lparr>image := (image s)[unat b := c]\<rparr>"

lemma wsect_run: "shape s \<Longrightarrow> unat b < FSSIZE \<Longrightarrow> wsect b c s = Ok () (put_blk b c s)"
  by (simp add: wsect_def sector_id shapeD put_blk_def)

lemma put_blk_simps [simp]:
  "freeinode (put_blk b c s) = freeinode s" "freeblock (put_blk b c s) = freeblock s" "msb (put_blk b c s) = msb s"
  "length (image (put_blk b c s)) = length (image s)"
  by (simp_all add: put_blk_def)

lemma blk_put: "unat b < length (image s) \<Longrightarrow> blk (put_blk b c s) x = (if x = b then c else blk s x)"
  by (auto simp: blk_def put_blk_def word_unat_eq_iff)

lemma blk_frame [simp]: "blk (s\<lparr>freeblock := f\<rparr>) = blk s" "blk (s\<lparr>freeinode := i\<rparr>) = blk s"
  by (simp_all add: blk_def fun_eq_iff)

subsection \<open>A block for the next byte\<close>

text \<open>Inode \<open>n\<close> is being written: \<open>l\<close> bytes of it are there, the others files are complete.\<close>

definition writing :: "(u32 \<Rightarrow> inode) \<Rightarrow> (u32 \<Rightarrow> u8 list) \<Rightarrow> u32 \<Rightarrow> u8 list \<Rightarrow> mkfs \<Rightarrow> bool" where
  "writing D F n c s \<longleftrightarrow> shape s \<and> sound D s \<and> n < freeinode s \<and> holds D F s (- {n}) \<and>
     covered (blk s) (D n) (length c) \<and> content (blk s) (D n) (length c) = c"

definition meta_same :: "mkfs \<Rightarrow> mkfs \<Rightarrow> bool" where
  "meta_same s t \<longleftrightarrow> freeinode t = freeinode s \<and> (\<forall>b. unat b < 46 \<longrightarrow> blk t b = blk s b)"

lemma take_run: "take_block s = Ok (freeblock s) (s\<lparr>freeblock := freeblock s + 1\<rparr>)"
  by (simp add: take_block_def)

lemma zeros_word: "k + 4 \<le> BSIZE \<Longrightarrow> get32 (replicate BSIZE 0) k = 0"
  by (simp add: get32_def word_rcat_def)

lemma take_direct:
  assumes w: "writing D F n c s" and room: "unat (freeblock s) < FSSIZE" and a: "a < 13" "addrs (D n) ! a = 0"
  defines "ip \<equiv> (D n)\<lparr>addrs := (addrs (D n))[a := freeblock s]\<rparr>" and "t \<equiv> s\<lparr>freeblock := freeblock s + 1\<rparr>"
  shows "writing (D(n := ip)) F n c t" "p < 269 \<Longrightarrow> ptr (blk t) ip p = (if p = a then freeblock s else ptr (blk s) (D n) p)"
    "meta_same s t" "unat (freeblock t) = unat (freeblock s) + 1"
proof -
  have sh: "shape s" and so: "sound D s" and n: "n < freeinode s" using w by (simp_all add: writing_def)
  have len: "length (addrs (D n)) = 13" by (rule soundD(1) [OF so n])
  have z: "get32 (blk s (freeblock s)) (4 * (p - 13)) = 0" if "p < 269" for p
    using shapeD(7) [OF sh, of "freeblock s"] room that by (simp add: zeros_word)
  have ptr: "ptr (blk t) ip p = (if p = a then freeblock s else ptr (blk s) (D n) p)" if "p < 269" for p
    using a len z [OF that] by (cases "a = 12") (auto simp: ptr_def ip_def t_def nth_list_update)
  then show "p < 269 \<Longrightarrow> ptr (blk t) ip p = (if p = a then freeblock s else ptr (blk s) (D n) p)" .
  note nb = new_block [OF sh so n room, of F "length c" a t ip]
  have pre: "holds D F s (- {n})" "covered (blk s) (D n) (length c)" "a < 269" "ptr (blk s) (D n) a = 0" "length (image t) = FSSIZE"
    "\<forall>b \<in> set (image t). length b = BSIZE" "msb t = msb s" "freeinode t = freeinode s" "freeblock t = freeblock s + 1" "length (addrs ip) = 13"
    using w a len sh by (auto simp: writing_def ptr_def t_def ip_def shape_def)
  show "writing (D(n := ip)) F n c t"
    using nb [OF pre ptr] w n pre(8) by (simp add: writing_def t_def)
  show "meta_same s t" by (simp add: meta_same_def t_def)
  show "unat (freeblock t) = unat (freeblock s) + 1" using room by (simp add: t_def unat_word_ariths)
qed

lemma take_indirect:
  assumes w: "writing D F n c s" and room: "unat (freeblock s) < FSSIZE" and j: "j < 256"
    and ind: "addrs (D n) ! NDIRECT \<noteq> 0" "get32 (blk s (addrs (D n) ! NDIRECT)) (4 * j) = 0"
  defines "t \<equiv> put_blk (addrs (D n) ! NDIRECT) (put32 (4 * j) (freeblock s) (blk s (addrs (D n) ! NDIRECT))) (s\<lparr>freeblock := freeblock s + 1\<rparr>)"
  shows "writing D F n c t" "p < 269 \<Longrightarrow> ptr (blk t) (D n) p = (if p = 13 + j then freeblock s else ptr (blk s) (D n) p)"
    "meta_same s t" "unat (freeblock t) = unat (freeblock s) + 1"
proof -
  let ?i = "addrs (D n) ! NDIRECT"
  have sh: "shape s" and so: "sound D s" and n: "n < freeinode s" using w by (simp_all add: writing_def)
  have len: "length (addrs (D n)) = 13" by (rule soundD(1) [OF so n])
  have i: "46 \<le> unat ?i" "unat ?i < FSSIZE"
    using soundD(2) [OF so n, of NDIRECT] ind(1) shapeD(4) [OF sh] by (simp_all add: ptr_def)
  have b: "blk t x = (if x = ?i then put32 (4 * j) (freeblock s) (blk s ?i) else blk s x)" for x
    unfolding t_def by (subst blk_put) (use i shapeD(1) [OF sh] in simp_all)
  have li: "length (blk s ?i) = BSIZE" by (rule shapeD(6) [OF sh i(2)])
  have ptr: "ptr (blk t) (D n) p = (if p = 13 + j then freeblock s else ptr (blk s) (D n) p)" if p: "p < 269" for p
  proof -
    consider "p < 13" | "p = 13 + j" | "13 \<le> p" "p \<noteq> 13 + j" by linarith
    then show ?thesis
    proof cases
      case 3
      then have "4 * (p - 13) + 4 \<le> 4 * j \<or> 4 * j + 4 \<le> 4 * (p - 13)" by linarith
      then show ?thesis using 3 p j li ind(1) get32_put32(2) [of "4 * j" "blk s ?i" "4 * (p - 13)"] by (simp add: ptr_def b)
    qed (use j li ind get32_put32(1) [of "4 * j" "blk s ?i"] in \<open>simp_all add: ptr_def b\<close>)
  qed
  then show "p < 269 \<Longrightarrow> ptr (blk t) (D n) p = (if p = 13 + j then freeblock s else ptr (blk s) (D n) p)" .
  note nb = new_block [OF sh so n room, of F "length c" "13 + j" t "D n"]
  have pre: "holds D F s (- {n})" "covered (blk s) (D n) (length c)" "13 + j < 269" "ptr (blk s) (D n) (13 + j) = 0" "length (image t) = FSSIZE"
    "\<forall>b \<in> set (image t). length b = BSIZE" "msb t = msb s" "freeinode t = freeinode s" "freeblock t = freeblock s + 1" "length (addrs (D n)) = 13"
  proof -
    show "\<forall>b \<in> set (image t). length b = BSIZE"
    proof
      fix x assume "x \<in> set (image t)"
      then have "x = put32 (4 * j) (freeblock s) (blk s ?i) \<or> x \<in> set (image s)"
        unfolding t_def put_blk_def using set_update_subset_insert by fastforce
      then show "length x = BSIZE" using li j sh by (auto simp: shape_def)
    qed
  qed (use w j len sh ind in \<open>auto simp: writing_def ptr_def t_def shape_def\<close>)
  have same: "blk t x = blk s x" if "x \<noteq> 0" "x \<noteq> ptr (blk s) (D n) NDIRECT" for x using that by (simp add: b ptr_def)
  show "writing D F n c t"
    using nb [OF pre ptr same] w n pre(8) by (simp add: writing_def)
  have "freeinode t = freeinode s" by (simp add: t_def)
  then show "meta_same s t" using i(1) by (auto simp: meta_same_def b)
  show "unat (freeblock t) = unat (freeblock s) + 1" using room by (simp add: t_def unat_word_ariths)
qed

text \<open>How many blocks a file of \<open>l\<close> bytes has, and how many the next byte takes.\<close>

definition nblocks :: "nat \<Rightarrow> nat" where
  "nblocks l = (l + 1023) div BSIZE + (if NDIRECT * BSIZE < l then 1 else 0)"

lemma place_step: "l div BSIZE * BSIZE < l \<longleftrightarrow> l mod BSIZE \<noteq> 0"
  using div_mult_mod_eq [of l BSIZE] by linarith

lemma exact_step:
  assumes e: "exact v ip l" and l: "l < MAXFILE * BSIZE"
    and p: "\<And>k. k < MAXFILE \<Longrightarrow> ptr v' ip' (place k) \<noteq> 0 \<longleftrightarrow> k = l div BSIZE \<or> ptr v ip (place k) \<noteq> 0"
    and i: "ptr v' ip' NDIRECT \<noteq> 0 \<longleftrightarrow> NDIRECT * BSIZE \<le> l"
    and b: "\<And>k. k < MAXFILE \<Longrightarrow> ptr v' ip' (place k) \<noteq> 0 \<Longrightarrow>
      v' (ptr v' ip' (place k)) = (if ptr v ip (place k) = 0 then replicate BSIZE 0 else v (ptr v ip (place k)))"
  shows "exact v' ip' (l + 1)"
proof -
  have "k = l div BSIZE \<or> k * BSIZE < l \<longleftrightarrow> k * BSIZE < l + 1" for k
  proof -
    have "k * BSIZE \<le> l \<longleftrightarrow> k \<le> l div BSIZE" by (simp add: less_eq_div_iff_mult_less_eq)
    moreover have "k * BSIZE < l" if "k < l div BSIZE"
      using that less_eq_div_iff_mult_less_eq [of BSIZE "Suc k" l] by simp
    moreover have "k * BSIZE < l \<Longrightarrow> k * BSIZE \<le> l" by simp
    ultimately show ?thesis by (metis Suc_eq_plus1 le_neq_implies_less less_Suc_eq_le order_refl)
  qed
  moreover have "clear v' ip' (l + 1)" using e b unfolding exact_def clear_def by auto
  ultimately show ?thesis using e l p i unfolding exact_def by auto
qed

lemma nblocks_step: "nblocks (Suc l) = nblocks l + (if l mod BSIZE = 0 then 1 else 0) + (if l = NDIRECT * BSIZE then 1 else 0)"
proof -
  define q r where "q = l div 1024" and "r = l mod 1024"
  then have l: "l = 1024 * q + r" and r: "r < 1024" by simp_all
  have "(l + 1023) div 1024 = q + (r + 1023) div 1024" unfolding l by (simp add: add.assoc)
  moreover have "(r + 1023) div 1024 = (if r = 0 then 0 else 1)" using r by (auto intro: div_nat_eqI)
  moreover have "(l + 1024) div 1024 = l div 1024 + 1" by (rule div_add_self2) simp
  ultimately have "(l + 1024) div 1024 = (l + 1023) div 1024 + (if l mod 1024 = 0 then 1 else 0)"
    by (simp add: q_def r_def)
  then show ?thesis by (auto simp: nblocks_def)
qed

lemma meta_same_trans: "meta_same s t \<Longrightarrow> meta_same t u \<Longrightarrow> meta_same s u"
  by (simp add: meta_same_def)

text \<open>The second half of \<open>file_block\<close>: the block at \<open>k\<close> in the indirect block.\<close>

definition indirect_part :: "inode \<Rightarrow> nat \<Rightarrow> (u32 \<times> inode) mM" where
  "indirect_part ip k =
     bnd (rsect (addrs ip ! NDIRECT)) (\<lambda>ind.
     bnd (if get32 ind k = 0 then
            bnd take_block (\<lambda>b.
            seq (wsect (addrs ip ! NDIRECT) (put32 k b ind))
                (ret (put32 k b ind)))
          else ret ind) (\<lambda>ind.
     ret (get32 ind k, ip)))"

lemma file_block_far:
  assumes "\<not> fbn < 12"
  shows "file_block din fbn =
    bnd (if addrs din ! NDIRECT = 0 then bnd take_block (\<lambda>b. ret (din\<lparr>addrs := (addrs din)[NDIRECT := b]\<rparr>)) else ret din)
      (\<lambda>ip. indirect_part ip (4 * unat (fbn - 12)))"
  using assms unfolding file_block_def indirect_part_def Let_def xint_id by (simp only: if_False)

lemma indirect_part_run:
  assumes w: "writing D F n c s" and j: "j < 256" and ind: "addrs (D n) ! NDIRECT \<noteq> 0"
    and room: "ptr (blk s) (D n) (13 + j) = 0 \<Longrightarrow> unat (freeblock s) < FSSIZE"
  obtains t where "indirect_part (D n) (4 * j) s = Ok (ptr (blk t) (D n) (13 + j), D n) t" "writing D F n c t" "meta_same s t"
    "\<forall>p < 269. ptr (blk t) (D n) p = (if p = 13 + j \<and> ptr (blk s) (D n) (13 + j) = 0 then freeblock s else ptr (blk s) (D n) p)"
    "unat (freeblock t) = unat (freeblock s) + (if ptr (blk s) (D n) (13 + j) = 0 then 1 else 0)"
    "\<forall>b. b \<noteq> addrs (D n) ! NDIRECT \<longrightarrow> blk t b = blk s b"
proof -
  let ?i = "addrs (D n) ! NDIRECT"
  have sh: "shape s" and so: "sound D s" and n: "n < freeinode s" using w by (simp_all add: writing_def)
  have i: "unat ?i < FSSIZE" using soundD(2) [OF so n, of NDIRECT] ind shapeD(4) [OF sh] by (simp add: ptr_def)
  have p: "ptr (blk s) (D n) (13 + j) = get32 (blk s ?i) (4 * j)" using ind by (simp add: ptr_def)
  show ?thesis
  proof (cases "get32 (blk s ?i) (4 * j) = 0")
    case True
    define u where "u = s\<lparr>freeblock := freeblock s + 1\<rparr>"
    define t where "t = put_blk ?i (put32 (4 * j) (freeblock s) (blk s ?i)) u"
    have fb: "unat (freeblock s) < FSSIZE" using room p True by simp
    note ti = take_indirect [OF w fb j ind True, folded u_def, folded t_def]
    have li: "length (blk s ?i) = BSIZE" by (rule shapeD(6) [OF sh i])
    have lu: "length (image u) = FSSIZE" using shapeD(1) [OF sh] by (simp add: u_def)
    have wu: "wsect ?i (put32 (4 * j) (freeblock s) (blk s ?i)) u = Ok () t"
      using lu i by (simp add: wsect_def sector_id t_def put_blk_def)
    have g: "get32 (put32 (4 * j) (freeblock s) (blk s ?i)) (4 * j) = freeblock s" using li j by (simp add: get32_put32(1))
    have "indirect_part (D n) (4 * j) s = Ok (ptr (blk t) (D n) (13 + j), D n) t"
      using True ti(2) [of "13 + j"] j wu g by (simp add: indirect_part_def rsect_run [OF sh i] take_run u_def [symmetric])
    moreover have "ptr (blk s) (D n) (13 + j) = 0" using p True by simp
    moreover have "blk t b = blk s b" if "b \<noteq> ?i" for b
      unfolding t_def by (subst blk_put) (use i lu that in \<open>simp_all add: u_def\<close>)
    ultimately show ?thesis using that ti by simp
  next
    case False
    then show ?thesis using that [of s] w p by (simp add: indirect_part_def rsect_run [OF sh i] meta_same_def)
  qed
qed

lemma file_block_run:
  assumes w: "writing D F n c s" and e: "exact (blk s) (D n) (length c)" and l: "length c < MAXFILE * BSIZE"
    and fbn: "unat fbn = length c div BSIZE" and room: "unat (freeblock s) + nblocks (length c + 1) \<le> FSSIZE + nblocks (length c)"
  obtains ip t where "file_block (D n) fbn s = Ok (ptr (blk t) ip (place (length c div BSIZE)), ip) t" "writing (D(n := ip)) F n c t"
    "exact (blk t) ip (length c + 1)" "meta_same s t"
    "unat (freeblock t) + nblocks (length c) = unat (freeblock s) + nblocks (length c + 1)" "ip = (D n)\<lparr>addrs := addrs ip\<rparr>"
proof -
  let ?l = "length c"
  define k where "k = ?l div BSIZE"
  have k: "k < MAXFILE" using l less_mult_imp_div_less [of ?l MAXFILE BSIZE] by (simp add: k_def)
  have lk: "k * BSIZE \<le> ?l" by (simp add: k_def)
  have sh: "shape s" and so: "sound D s" and n: "n < freeinode s" using w by (simp_all add: writing_def)
  have ek: "ptr (blk s) (D n) (place k) \<noteq> 0 \<longleftrightarrow> ?l mod BSIZE \<noteq> 0" using e k place_step [of ?l] by (simp add: exact_def k_def)
  have ei: "ptr (blk s) (D n) NDIRECT \<noteq> 0 \<longleftrightarrow> NDIRECT * BSIZE < ?l" using e by (simp add: exact_def)
  show ?thesis
  proof (cases "k < 12")
    case True
    then have f: "fbn < 12" and u: "unat fbn = k" and pk: "place k = k" using fbn by (simp_all add: k_def word_less_nat_alt place_def)
    have nl: "?l < NDIRECT * BSIZE" using True by (simp add: k_def)
    have a: "ptr (blk s) (D n) k = addrs (D n) ! k" using True by (simp add: ptr_def)
    show ?thesis
    proof (cases "addrs (D n) ! k = 0")
      case z: True
      then have m: "?l mod BSIZE = 0" using ek a pk by simp
      then have fb: "unat (freeblock s) < FSSIZE" using room nl by (simp add: nblocks_step)
      define ip where "ip = (D n)\<lparr>addrs := (addrs (D n))[k := freeblock s]\<rparr>"
      define t where "t = s\<lparr>freeblock := freeblock s + 1\<rparr>"
      have k13: "k < 13" using True by simp
      note td = take_direct [OF w fb k13 z, folded ip_def t_def]
      have len: "length (addrs (D n)) = 13" by (rule soundD(1) [OF so n])
      have "file_block (D n) fbn s = Ok (ptr (blk t) ip (place k), ip) t"
        using f z u k13 len td(2) [of k] by (simp add: file_block_def take_run t_def ip_def pk)
      moreover have "exact (blk t) ip (?l + 1)"
      proof (rule exact_step [OF e l])
        have "freeblock s \<noteq> 0" using shapeD(3) [OF sh] by auto
        then show "ptr (blk t) ip (place j) \<noteq> 0 \<longleftrightarrow> j = ?l div BSIZE \<or> ptr (blk s) (D n) (place j) \<noteq> 0" if "j < MAXFILE" for j
          using td(2) [of "place j"] that pk place_inj [of j k] by (auto simp: k_def [symmetric])
        show "ptr (blk t) ip NDIRECT \<noteq> 0 \<longleftrightarrow> NDIRECT * BSIZE \<le> ?l" using td(2) [of NDIRECT] ei nl True by simp
        have "blk s (freeblock s) = replicate BSIZE 0" using shapeD(7) [OF sh, of "freeblock s"] fb by simp
        then show "blk t (ptr (blk t) ip (place j)) = (if ptr (blk s) (D n) (place j) = 0 then replicate BSIZE 0 else blk s (ptr (blk s) (D n) (place j)))"
          if "j < MAXFILE" "ptr (blk t) ip (place j) \<noteq> 0" for j
          using td(2) [OF place_bounds(2) [OF that(1)]] that(2) a z by (auto simp: t_def)
      qed
      ultimately show ?thesis
        using that [of t ip] td(1,3,4) m nl by (simp add: nblocks_step k_def [symmetric] ip_def)
    next
      case nz: False
      then have m: "?l mod BSIZE \<noteq> 0" using ek a pk by simp
      have "file_block (D n) fbn s = Ok (ptr (blk s) (D n) (place k), D n) s"
        using f nz u a by (simp add: file_block_def pk)
      moreover have "exact (blk s) (D n) (?l + 1)"
        by (rule exact_step [OF e l]) (use nz a pk ei nl in \<open>auto simp: k_def [symmetric]\<close>)
      ultimately show ?thesis using that [of s "D n"] w m nl by (simp add: nblocks_step k_def [symmetric] meta_same_def)
    qed
  next
    case False
    then have f: "\<not> fbn < 12" and u: "unat (fbn - 12) = k - 12" and pk: "place k = 13 + (k - 12)"
      using fbn by (simp_all add: k_def word_less_nat_alt place_def unat_sub word_le_nat_alt not_less)
    have nl: "NDIRECT * BSIZE \<le> ?l" using False lk by simp
    have j: "k - 12 < 256" using k False by simp
    have len: "length (addrs (D n)) = 13" by (rule soundD(1) [OF so n])
    obtain ip s1 where A: "bnd (if addrs (D n) ! NDIRECT = 0 then bnd take_block (\<lambda>b. ret ((D n)\<lparr>addrs := (addrs (D n))[NDIRECT := b]\<rparr>)) else ret (D n)) g s = g ip s1"
        and w1: "writing (D(n := ip)) F n c s1" and m1: "meta_same s s1" and nz: "addrs ip ! NDIRECT \<noteq> 0" and ip: "ip = (D n)\<lparr>addrs := addrs ip\<rparr>"
        and p1: "\<And>p. p < 269 \<Longrightarrow> p \<noteq> NDIRECT \<Longrightarrow> ptr (blk s1) ip p = ptr (blk s) (D n) p"
        and b1: "blk s1 = blk s" and f1: "unat (freeblock s1) = unat (freeblock s) + (if ?l = NDIRECT * BSIZE then 1 else 0)" for g :: "inode \<Rightarrow> (u32 \<times> inode) mM"
    proof (cases "addrs (D n) ! NDIRECT = 0")
      case z: True
      then have l12: "?l = NDIRECT * BSIZE" using ei nl by (simp add: ptr_def)
      then have fb: "unat (freeblock s) < FSSIZE" using room nblocks_step [of ?l] by simp
      have fb0: "freeblock s \<noteq> 0" using shapeD(3) [OF sh] by auto
      note td = take_direct [OF w fb _ z]
      show thesis
        by (rule that [of "(D n)\<lparr>addrs := (addrs (D n))[NDIRECT := freeblock s]\<rparr>" "s\<lparr>freeblock := freeblock s + 1\<rparr>"])
          (use z td l12 len fb0 in \<open>simp_all add: take_run\<close>)
    next
      case nz: False
      then have "?l \<noteq> NDIRECT * BSIZE" using ei by (simp add: ptr_def)
      then show thesis using that [of "D n" s] w nz by (simp add: meta_same_def)
    qed
    let ?D = "D(n := ip)"
    have pz: "ptr (blk s1) ip (13 + (k - 12)) = 0 \<longleftrightarrow> ?l mod BSIZE = 0"
      using p1 [of "place k"] ek k pk by (auto simp: place_bounds(2) [OF k, unfolded pk])
    have room1: "unat (freeblock s1) < FSSIZE" if "ptr (blk s1) (?D n) (13 + (k - 12)) = 0"
      using that room f1 pz by (simp add: nblocks_step split: if_splits)
    have nz': "addrs (?D n) ! NDIRECT \<noteq> 0" using nz by simp
    obtain t where t: "indirect_part (?D n) (4 * (k - 12)) s1 = Ok (ptr (blk t) (?D n) (13 + (k - 12)), ?D n) t" "writing ?D F n c t" "meta_same s1 t"
      "\<forall>p < 269. ptr (blk t) (?D n) p = (if p = 13 + (k - 12) \<and> ptr (blk s1) (?D n) (13 + (k - 12)) = 0 then freeblock s1 else ptr (blk s1) (?D n) p)"
      "unat (freeblock t) = unat (freeblock s1) + (if ptr (blk s1) (?D n) (13 + (k - 12)) = 0 then 1 else 0)"
      "\<forall>b. b \<noteq> addrs (?D n) ! NDIRECT \<longrightarrow> blk t b = blk s1 b"
      by (rule indirect_part_run [OF w1 j nz' room1])
    have "file_block (D n) fbn s = indirect_part ip (4 * (k - 12)) s1"
      using A unfolding file_block_far [OF f] u .
    then have "file_block (D n) fbn s = Ok (ptr (blk t) ip (place k), ip) t" using t(1) pk by simp
    moreover have "exact (blk t) ip (?l + 1)"
    proof (rule exact_step [OF e l])
      have sh1: "shape s1" using w1 by (simp add: writing_def)
      have fb0: "freeblock s1 \<noteq> 0" using shapeD(3) [OF sh1] by auto
      show "ptr (blk t) ip (place i) \<noteq> 0 \<longleftrightarrow> i = ?l div BSIZE \<or> ptr (blk s) (D n) (place i) \<noteq> 0" if "i < MAXFILE" for i
        using t(4) [rule_format, of "place i"] p1 [of "place i"] fb0 that place_inj [of i k] pz ek pk by (auto simp: k_def [symmetric])
      show "ptr (blk t) ip NDIRECT \<noteq> 0 \<longleftrightarrow> NDIRECT * BSIZE \<le> ?l" using t(4) [rule_format, of NDIRECT] nz nl by (simp add: ptr_def)
      show "blk t (ptr (blk t) ip (place i)) = (if ptr (blk s) (D n) (place i) = 0 then replicate BSIZE 0 else blk s (ptr (blk s) (D n) (place i)))"
        if i: "i < MAXFILE" and z: "ptr (blk t) ip (place i) \<noteq> 0" for i
      proof -
        have n': "n < freeinode t" and so': "sound ?D t" using t(2) by (simp_all add: writing_def)
        have "ptr (blk t) ip NDIRECT = addrs ip ! NDIRECT" by (simp add: ptr_def)
        then have "ptr (blk t) ip (place i) \<noteq> addrs ip ! NDIRECT"
          using soundD(3) [OF so' n' n' place_bounds(2) [OF i], of NDIRECT] z place_bounds(1) [of i] by auto
        then have "blk t (ptr (blk t) ip (place i)) = blk s (ptr (blk t) ip (place i))" using t(6) b1 by simp
        moreover have "ptr (blk t) ip (place i) = (if ptr (blk s) (D n) (place i) = 0 then freeblock s1 else ptr (blk s) (D n) (place i))"
          using t(4) [rule_format, OF place_bounds(2) [OF i]] p1 [OF place_bounds(2) [OF i] place_bounds(1)] z by (auto split: if_splits)
        moreover have "blk s (freeblock s1) = replicate BSIZE 0" if "ptr (blk s) (D n) (place i) = 0"
        proof -
          have "ptr (blk s1) (?D n) (13 + (k - 12)) = 0"
            using that z t(4) [rule_format, OF place_bounds(2) [OF i]] p1 [OF place_bounds(2) [OF i] place_bounds(1)] by (auto split: if_splits)
          from room1 [OF this] show ?thesis using shapeD(7) [OF sh1, of "freeblock s1"] b1 by simp
        qed
        ultimately show ?thesis by simp
      qed
    qed
    moreover have "unat (freeblock t) + nblocks ?l = unat (freeblock s) + nblocks (?l + 1)"
      using t(5) f1 pz by (simp add: nblocks_step)
    ultimately show ?thesis
      using that [of t ip] t(2) meta_same_trans [OF m1 t(3)] ip by (simp add: k_def [symmetric])
  qed
qed

subsection \<open>The bytes of a chunk\<close>

lemma chunk_end:
  assumes "0 < m" "m \<le> BSIZE - l mod BSIZE"
  shows "k * BSIZE < l + m \<longleftrightarrow> k * BSIZE < Suc l"
proof -
  define q r where "q = l div 1024" and "r = l mod 1024"
  then have l: "l = 1024 * q + r" and r: "r < 1024" by simp_all
  then show ?thesis using assms unfolding r_def [symmetric] unfolding l by (cases "k \<le> q") auto
qed

lemma chunk_room:
  assumes "0 < m" "m \<le> BSIZE - l mod BSIZE" and "Suc l \<le> k * BSIZE"
  shows "l + m \<le> k * BSIZE"
  using chunk_end [OF assms(1,2), of k] assms(3) by linarith

lemma chunk_nblocks:
  assumes "0 < m" "m \<le> BSIZE - l mod BSIZE"
  shows "nblocks (l + m) = nblocks (Suc l)"
proof -
  define q r where "q = l div 1024" and "r = l mod 1024"
  then have l: "l = 1024 * q + r" and r: "r < 1024" by simp_all
  then have "(l + m + 1023) div 1024 = q + 1" "(Suc l + 1023) div 1024 = q + 1"
    using assms unfolding r_def [symmetric] unfolding l by (auto intro!: div_nat_eqI)
  then show ?thesis using chunk_end [OF assms, of NDIRECT] by (simp add: nblocks_def)
qed

lemma exact_chunk:
  assumes "exact v ip (Suc l)" "0 < m" "m \<le> BSIZE - l mod BSIZE"
  shows "exact v ip (l + m)"
proof -
  have "l + m \<le> MAXFILE * BSIZE"
    by (rule chunk_room) (use assms in \<open>auto simp: exact_def\<close>)
  moreover have "clear v ip (l + m)" using assms(1,2) by (simp add: exact_def clear_def)
  ultimately show ?thesis using assms(1) unfolding exact_def chunk_end [OF assms(2,3)] by blast
qed

lemma write_data:
  assumes w: "writing D F n c s" and e: "exact (blk s) (D n) (Suc (length c))"
    and m: "bs \<noteq> []" "length bs \<le> BSIZE - length c mod BSIZE"
  defines "x \<equiv> ptr (blk s) (D n) (place (length c div BSIZE))"
  defines "t \<equiv> put_blk x (put_bytes (length c mod BSIZE) bs (blk s x)) s"
  shows "writing D F n (c @ bs) t" "exact (blk t) (D n) (length c + length bs)" "meta_same s t" "unat x < FSSIZE"
proof -
  define k where "k = length c div BSIZE"
  have sh: "shape s" and so: "sound D s" and n: "n < freeinode s" using w by (simp_all add: writing_def)
  have kl: "k * BSIZE < Suc (length c)" by (simp add: k_def)
  then have k: "k < MAXFILE" and x0: "x \<noteq> 0" using exact_covered [OF e] by (auto simp: covered_def x_def k_def)
  have x: "46 \<le> unat x" "unat x < unat (freeblock s)"
    using soundD(2) [OF so n, of "place k"] x0 place_bounds(2) [OF k] by (simp_all add: x_def k_def)
  then show xs: "unat x < FSSIZE" using shapeD(4) [OF sh] by linarith
  have b: "blk t y = (if y = x then put_bytes (length c mod BSIZE) bs (blk s x) else blk s y)" for y
    unfolding t_def by (subst blk_put) (use xs shapeD(1) [OF sh] in simp_all)
  have lx: "length (blk s x) = BSIZE" by (rule shapeD(6) [OF sh xs])
  have lr: "length c mod BSIZE + length bs \<le> BSIZE" using m(2) by (simp add: le_diff_conv2)
  have diff: "ptr (blk s) (D i) p \<noteq> x" if "i < freeinode s" "p < 269" "i \<noteq> n \<or> p \<noteq> place k" for i p
    using soundD(3) [OF so n that(1) place_bounds(2) [OF k] that(2)] x0 that(3) unfolding x_def k_def by metis
  have ptr: "ptr (blk t) (D i) p = ptr (blk s) (D i) p" if i: "i < freeinode s" for i p
    using diff [OF i, of NDIRECT] by (auto simp: ptr_def b place_bounds(1) [symmetric])
  have ptr_fun: "ptr (blk t) (D i) = ptr (blk s) (D i)" if "i < freeinode s" for i using ptr [OF that] by (rule ext)
  have f: "freeinode t = freeinode s" "freeblock t = freeblock s" "msb t = msb s" "length (image t) = length (image s)" by (simp_all add: t_def)
  have "shape t"
  proof -
    have "\<forall>c \<in> set (image t). length c = BSIZE"
      using sh lx lr set_update_subset_insert [of "image s" "unat x"] unfolding t_def put_blk_def by (fastforce simp: shape_def)
    moreover have "blk t y = replicate BSIZE 0" if "unat (freeblock s) \<le> unat y" "unat y < FSSIZE" for y
      using shapeD(7) [OF sh that] that x by (auto simp: b)
    ultimately show ?thesis using sh f by (simp add: shape_def)
  qed
  moreover have "sound D t"
    unfolding sound_def f using so ptr_fun by (simp add: sound_def)
  moreover have "holds D F t (- {n})"
    unfolding holds_def f
  proof (intro ballI impI)
    fix i assume i: "i \<in> - {n}" "i < freeinode s"
    have "exact (blk s) (D i) (length (F i))" "content (blk s) (D i) (length (F i)) = F i" using w i by (auto simp: writing_def holds_def)
    then show "exact (blk t) (D i) (length (F i)) \<and> content (blk t) (D i) (length (F i)) = F i"
      using content_untouched [of "blk s" "D i" "length (F i)" "blk t"] diff [OF i(2)] i(1) by (simp add: b)
  qed
  moreover have et: "exact (blk t) (D n) (length c + length bs)"
  proof -
    have es: "exact (blk s) (D n) (length c + length bs)" by (rule exact_chunk [OF e]) (use m in simp_all)
    have "blk t (ptr (blk s) (D n) (place j)) ! i = 0"
      if j: "j < MAXFILE" "ptr (blk s) (D n) (place j) \<noteq> 0" "i < BSIZE" "length c + length bs \<le> j * BSIZE + i" for i j
    proof -
      have old: "blk s (ptr (blk s) (D n) (place j)) ! i = 0" using es j by (auto simp: exact_def clear_def)
      show ?thesis
      proof (cases "ptr (blk s) (D n) (place j) = x")
        case True
        then have "j = k" using diff [OF n place_bounds(2) [OF j(1)]] place_inj by blast
        then have "length c mod BSIZE + length bs \<le> i" using j(4) div_mult_mod_eq [of "length c" BSIZE, folded k_def] by linarith
        then show ?thesis using True old j(3) lx lr by (simp add: b nth_put)
      qed (use old in \<open>simp add: b\<close>)
    qed
    then have "clear (blk t) (D n) (length c + length bs)" unfolding clear_def ptr_fun [OF n] by blast
    then show ?thesis using es unfolding exact_def ptr_fun [OF n] by blast
  qed
  moreover have "content (blk t) (D n) (length (c @ bs)) = c @ bs"
  proof (rule nth_equalityI)
    fix q assume "q < length (content (blk t) (D n) (length (c @ bs)))"
    then have q: "q < length c + length bs" by (simp add: content_def)
    have bo: "block_of (D n) (blk t) (q div BSIZE) = ptr (blk s) (D n) (place (q div BSIZE))" "q div BSIZE < MAXFILE"
      using covered_block [OF exact_covered [OF et] q] ptr [OF n] by simp_all
    have old: "blk s (ptr (blk s) (D n) (place (q div BSIZE))) ! (q mod BSIZE) = c ! q" if "q < length c"
    proof -
      have cov: "covered (blk s) (D n) (length c)" and cc: "content (blk s) (D n) (length c) = c" using w by (simp_all add: writing_def)
      have "c ! q = file_byte (D n) (blk s) q" using that by (subst cc [symmetric]) (simp add: content_def)
      then show ?thesis using covered_block [OF cov that] by (simp add: file_byte_def)
    qed
    have "file_byte (D n) (blk t) q = (c @ bs) ! q"
    proof (cases "q < length c")
      case True
      show ?thesis
      proof (cases "q div BSIZE = k")
        case same: True
        have "q mod BSIZE < length c mod BSIZE" using True same unfolding k_def
          by (metis div_mult_mod_eq nat_add_left_cancel_less)
        then show ?thesis using old [OF True] True same lx lr bo(1)
          by (simp add: file_byte_def b x_def k_def [symmetric] nth_put nth_append)
      next
        case False
        then have "ptr (blk s) (D n) (place (q div BSIZE)) \<noteq> x" using diff [OF n place_bounds(2) [OF bo(2)]] place_inj by blast
        then show ?thesis using old [OF True] True by (simp add: file_byte_def bo b nth_append)
      qed
    next
      case False
      then obtain i where i: "q = length c + i" "i < length bs" using q nat_le_iff_add [of "length c" q] by auto
      have lt: "length c mod BSIZE + i < BSIZE" using i lr by linarith
      have "q = k * BSIZE + (length c mod BSIZE + i)" using i by (simp add: k_def)
      then have "q div BSIZE = k" "q mod BSIZE = length c mod BSIZE + i"
        using lt by (metis div_mult_self3 div_less add_0_right less_numeral_extra(3) less_nat_zero_code, metis mod_mult_self3 mod_less)
      then show ?thesis using i lx lr bo(1)
        by (simp add: file_byte_def b x_def k_def [symmetric] nth_put nth_append)
    qed
    then show "content (blk t) (D n) (length (c @ bs)) ! q = (c @ bs) ! q" using q by (simp add: content_def)
  qed (simp add: content_def)
  ultimately show "writing D F n (c @ bs) t" "exact (blk t) (D n) (length c + length bs)"
    using n exact_covered [OF et] by (simp_all add: writing_def f)
  show "meta_same s t" using x(1) by (auto simp: meta_same_def f b)
qed

subsection \<open>Appending\<close>

lemma chunk_fits: "chunk off left \<le> BSIZE - unat off mod BSIZE"
  by (simp add: chunk_def)

lemma offset_in_block: "unat (off - off div 1024 * 1024) = unat off mod BSIZE" for off :: u32
  by (simp add: minus_div_mult_eq_mod unat_mod)

lemma nblocks_mono: "l \<le> m \<Longrightarrow> nblocks l \<le> nblocks m"
  unfolding nblocks_def by (intro add_mono div_le_mono) auto

lemma iappend_loop_run:
  assumes "writing D F n c s" and "exact (blk s) (D n) (length c)" and "unat off = length c"
    and "length c + length p \<le> MAXFILE * BSIZE" and "unat (freeblock s) + nblocks (length c + length p) \<le> FSSIZE + nblocks (length c)"
  shows "\<exists>ip t. iappend_loop (D n) off p s = Ok (ip, off + of_nat (length p)) t \<and> writing (D(n := ip)) F n (c @ p) t \<and>
    exact (blk t) ip (length c + length p) \<and> meta_same s t \<and>
    unat (freeblock t) + nblocks (length c) = unat (freeblock s) + nblocks (length c + length p) \<and> ip = (D n)\<lparr>addrs := addrs ip\<rparr>"
  using assms
proof (induction "length p" arbitrary: p D c s off rule: less_induct)
  case less
  show ?case
  proof (cases "p = []")
    case True
    then show ?thesis using less.prems by (intro exI [of _ "D n"] exI [of _ s]) (simp add: iappend_loop.simps meta_same_def)
  next
    case False
    define m where "m = chunk off (length p)"
    have m: "0 < m" "m \<le> length p" "m \<le> BSIZE - length c mod BSIZE"
      using chunk_bounds [where left = "length p" and off = off] chunk_fits [of off "length p"] False less.prems(3) by (simp_all add: m_def)
    have fbn: "unat (off div 1024) = length c div BSIZE" using less.prems(3) by (simp add: unat_div)
    have l: "length c < MAXFILE * BSIZE" using less.prems(4) m by linarith
    have nb: "nblocks (length c + m) = nblocks (length c + 1)" using chunk_nblocks [OF m(1,3)] by simp
    have le: "nblocks (length c + 1) \<le> nblocks (length c + length p)" using m by (intro nblocks_mono) simp
    have room: "unat (freeblock s) + nblocks (length c + 1) \<le> FSSIZE + nblocks (length c)" using less.prems(5) le by linarith
    obtain ip1 s1 where s1: "file_block (D n) (off div 1024) s = Ok (ptr (blk s1) ip1 (place (length c div BSIZE)), ip1) s1"
      "writing (D(n := ip1)) F n c s1" "exact (blk s1) ip1 (length c + 1)" "meta_same s s1"
      "unat (freeblock s1) + nblocks (length c) = unat (freeblock s) + nblocks (length c + 1)" "ip1 = (D n)\<lparr>addrs := addrs ip1\<rparr>"
      by (rule file_block_run [OF less.prems(1,2) l fbn room])
    let ?D = "D(n := ip1)"
    have e1: "exact (blk s1) (?D n) (Suc (length c))" using s1(3) by simp
    define bs where "bs = take m p"
    have bs: "bs \<noteq> []" "length bs \<le> BSIZE - length c mod BSIZE" "length bs = m" using m False by (auto simp: bs_def)
    let ?x = "ptr (blk s1) ip1 (place (length c div BSIZE))"
    define t where "t = put_blk ?x (put_bytes (length c mod BSIZE) bs (blk s1 ?x)) s1"
    note wd = write_data [OF s1(2) e1 bs(1,2), unfolded fun_upd_same, folded t_def]
    have sh1: "shape s1" using s1(2) by (simp add: writing_def)
    have ft: "freeblock t = freeblock s1" by (simp add: t_def)
    have off: "unat (off + of_nat m) = length (c @ bs)"
    proof -
      have "length c + m \<le> MAXFILE * BSIZE" using less.prems(4) m by linarith
      then show ?thesis using less.prems(3) bs(3) by (simp add: unat_word_ariths unat_of_nat)
    qed
    have dp: "length (c @ bs) + length (drop m p) = length c + length p" using m bs by simp
    have ex: "exact (blk t) (?D n) (length (c @ bs))" using wd(2) by simp
    have room2: "unat (freeblock t) + nblocks (length (c @ bs) + length (drop m p)) \<le> FSSIZE + nblocks (length (c @ bs))"
      using less.prems(5) s1(5) nb bs(3) unfolding dp ft by simp
    have "length (drop m p) < length p" using m by simp
    note IH = less.hyps [OF this wd(1) ex off _ room2, unfolded dp fun_upd_same, OF less.prems(4)]
    obtain ip u where u: "iappend_loop ip1 (off + of_nat m) (drop m p) t = Ok (ip, off + of_nat m + of_nat (length (drop m p))) u"
      "writing (?D(n := ip)) F n ((c @ bs) @ drop m p) u" "exact (blk u) ip (length c + length p)" "meta_same t u"
      "unat (freeblock u) + nblocks (length (c @ bs)) = unat (freeblock t) + nblocks (length c + length p)" "ip = ip1\<lparr>addrs := addrs ip\<rparr>"
      using IH by blast
    have g: "\<not> of_nat MAXFILE \<le> off div 1024"
      using l fbn less_mult_imp_div_less [of "length c" MAXFILE BSIZE] by (simp add: word_le_nat_alt)
    have run: "iappend_loop (D n) off p s = Ok (ip, off + of_nat (length p)) u"
    proof -
      have "of_nat m + of_nat (length (drop m p)) = (of_nat (length p) :: u32)" unfolding of_nat_add [symmetric] using m by simp
      then have "off + of_nat m + of_nat (length (drop m p)) = off + of_nat (length p)" by (simp only: add.assoc)
      then show ?thesis
        using False g s1(1) u(1) rsect_run [OF sh1 wd(4)] wsect_run [OF sh1 wd(4)]
        by (simp add: iappend_loop.simps [of "D n" off p] Let_def m_def [symmetric] offset_in_block less.prems(3) bs_def [symmetric] t_def [symmetric])
    qed
    have "ip = (D n)\<lparr>addrs := addrs ip\<rparr>" by (subst u(6), subst s1(6)) simp
    moreover have "(c @ bs) @ drop m p = c @ p" by (simp add: bs_def)
    moreover have "meta_same s u" using meta_same_trans [OF s1(4) meta_same_trans [OF wd(3) u(4)]] .
    moreover have "unat (freeblock u) + nblocks (length c) = unat (freeblock s) + nblocks (length c + length p)"
      using u(5) s1(5) nb bs(3) ft by simp
    ultimately show ?thesis using run u(2,3) by (intro exI [of _ ip] exI [of _ u]) simp
  qed
qed

subsection \<open>The table of inodes\<close>

definition disk_inode :: "mkfs \<Rightarrow> u32 \<Rightarrow> inode" where
  "disk_inode s n = load_dinode (blk s (IBLOCK n the_super)) (dino_off n) bss_inode"

definition on_disk :: "inode \<Rightarrow> inode" where
  "on_disk ip = bss_inode\<lparr>itype := itype ip, imajor := imajor ip, iminor := iminor ip, nlink := nlink ip, isize := isize ip, addrs := addrs ip\<rparr>"

lemma on_disk_simps [simp]:
  "itype (on_disk ip) = itype ip" "imajor (on_disk ip) = imajor ip" "iminor (on_disk ip) = iminor ip"
  "nlink (on_disk ip) = nlink ip" "isize (on_disk ip) = isize ip" "addrs (on_disk ip) = addrs ip"
  by (simp_all add: on_disk_def)

lemma length_disk_addrs [simp]: "length (addrs (disk_inode s n)) = 13"
  by (simp add: disk_inode_def load_dinode_def del: upt_Suc)

lemma IBLOCK_range:
  assumes "unat n < 208"
  shows "unat (IBLOCK n the_super) = 32 + unat n div 16"
  using assms by (simp add: IBLOCK_def the_super_def unat_word_ariths unat_div)

lemma dino_off_nat: "dino_off n = 64 * (unat n mod 16)"
  by (simp add: unat_mod)

lemma disk_inode_cong: "unat n < 208 \<Longrightarrow> (\<And>b. 32 \<le> unat b \<Longrightarrow> unat b < 45 \<Longrightarrow> blk t b = blk s b) \<Longrightarrow> disk_inode t n = disk_inode s n"
  by (simp add: disk_inode_def IBLOCK_range)

lemma winode_run:
  assumes sh: "shape s" and n: "unat n < 208" and len: "length (addrs ip) = 13"
  obtains t where "winode n ip s = Ok () t" "shape t" "disk_inode t n = on_disk ip" "freeinode t = freeinode s" "freeblock t = freeblock s"
    "\<forall>m. unat m < 208 \<longrightarrow> m \<noteq> n \<longrightarrow> disk_inode t m = disk_inode s m" "\<forall>b. unat b < 32 \<or> 45 \<le> unat b \<longrightarrow> blk t b = blk s b"
proof -
  let ?b = "IBLOCK n the_super"
  define t where "t = put_blk ?b (put_bytes (dino_off n) (dinode_bytes ip) (blk s ?b)) s"
  have b: "32 \<le> unat ?b" "unat ?b < 45" using n by (simp_all add: IBLOCK_range)
  then have bs: "unat ?b < FSSIZE" by simp
  have lb: "length (blk s ?b) = BSIZE" by (rule shapeD(6) [OF sh bs])
  have off: "dino_off n + length (dinode_bytes ip) \<le> BSIZE"
    unfolding dino_off_nat length_dinode [OF len] using mod_less_divisor [of 16 "unat n"] by simp
  have at: "blk t x = (if x = ?b then put_bytes (dino_off n) (dinode_bytes ip) (blk s ?b) else blk s x)" for x
    unfolding t_def by (subst blk_put) (use bs shapeD(1) [OF sh] in simp_all)
  have here: "blk t ?b = put_bytes (dino_off n) (dinode_bytes ip) (blk s ?b)" by (simp add: at)
  have "winode n ip s = Ok () t"
    using shapeD(2) [OF sh] rsect_run [OF sh bs] wsect_run [OF sh bs] by (simp add: winode_def t_def)
  moreover have "shape t"
  proof -
    have "\<forall>c \<in> set (image t). length c = BSIZE"
      using sh lb off set_update_subset_insert [of "image s" "unat ?b"] unfolding t_def put_blk_def by (fastforce simp: shape_def)
    moreover have "blk t y = replicate BSIZE 0" if "unat (freeblock s) \<le> unat y" "unat y < FSSIZE" for y
      using shapeD(7) [OF sh that] that b shapeD(3) [OF sh] by (auto simp: at)
    ultimately show ?thesis using sh by (simp add: shape_def t_def)
  qed
  moreover have "disk_inode t n = on_disk ip"
    unfolding disk_inode_def here on_disk_def by (rule dinode_round [OF len]) (use off length_dinode [OF len] lb in simp)
  moreover have "disk_inode t m = disk_inode s m" if m: "unat m < 208" "m \<noteq> n" for m
  proof (cases "IBLOCK m the_super = ?b")
    case True
    then have "unat m div 16 = unat n div 16" using IBLOCK_range [OF m(1)] IBLOCK_range [OF n] by simp
    then have "unat m mod 16 \<noteq> unat n mod 16" using m(2) by (metis div_mult_mod_eq word_unat_eq_iff)
    then have apart: "dino_off m + 64 \<le> dino_off n \<or> dino_off n + 64 \<le> dino_off m" unfolding dino_off_nat by linarith
    have "dino_off m + 64 \<le> BSIZE" unfolding dino_off_nat using mod_less_divisor [of 16 "unat m"] by simp
    then show ?thesis
      unfolding disk_inode_def True here
      by (intro load_dinode_cong, subst nth_put) (use apart off length_dinode [OF len] lb in auto)
  qed (simp add: disk_inode_def at)
  moreover have "\<forall>b. unat b < 32 \<or> 45 \<le> unat b \<longrightarrow> blk t b = blk s b" using b by (auto simp: at)
  ultimately show ?thesis using that by (simp add: t_def)
qed

lemma rinode_run: "shape s \<Longrightarrow> unat n < 208 \<Longrightarrow> rinode n s = Ok (disk_inode s n) s"
  by (simp add: rinode_def shapeD(2) rsect_run IBLOCK_range disk_inode_def)

text \<open>The contents do not depend on the table.\<close>

lemma by_addrs:
  assumes "addrs ip' = addrs ip"
  shows "ptr v ip' = ptr v ip" "exact v ip' l = exact v ip l" "content v ip' l = content v ip l"
proof -
  show p: "ptr v ip' = ptr v ip" using assms by (simp add: ptr_def fun_eq_iff)
  show "exact v ip' l = exact v ip l" by (simp add: exact_def clear_def p)
  show "content v ip' l = content v ip l" using assms by (simp add: content_def file_byte_def block_of_def)
qed

lemma no_blocks:
  assumes "addrs ip = replicate 13 0"
  shows "p < 269 \<Longrightarrow> ptr v ip p = 0" "exact v ip 0" "content v ip 0 = []"
proof -
  have p: "ptr v ip p = 0" if "p < 269" for p using assms that by (simp add: ptr_def)
  then show "p < 269 \<Longrightarrow> ptr v ip p = 0" .
  show "exact v ip 0" using p by (simp add: exact_def clear_def)
  show "content v ip 0 = []" by (simp add: content_def)
qed

lemma frame:
  assumes sh: "shape s" and so: "sound D s" and ho: "holds D F s UNIV"
    and b: "\<And>b. 46 \<le> unat b \<Longrightarrow> unat b < FSSIZE \<Longrightarrow> blk t b = blk s b" and fb: "freeblock t = freeblock s"
    and m: "\<And>m. m < freeinode t \<Longrightarrow> m < freeinode s \<and> addrs (D' m) = addrs (D m) \<and> F' m = F m \<or> addrs (D' m) = replicate 13 0 \<and> F' m = []"
  shows "sound D' t \<and> holds D' F' t UNIV"
proof -
  have same: "blk t (ptr (blk s) (D n) p) = blk s (ptr (blk s) (D n) p)" if "n < freeinode s" "p < 269" "ptr (blk s) (D n) p \<noteq> 0" for n p
    using soundD(2) [OF so that] shapeD(4) [OF sh] by (intro b) auto
  have old: "p < 269 \<Longrightarrow> ptr (blk t) (D n) p = ptr (blk s) (D n) p"
    "exact (blk t) (D n) (length (F n))" "content (blk t) (D n) (length (F n)) = F n" if n: "n < freeinode s" for n p
  proof -
    show "p < 269 \<Longrightarrow> ptr (blk t) (D n) p = ptr (blk s) (D n) p" by (rule untouched) (use same [OF n] in auto)
    have "exact (blk s) (D n) (length (F n))" "content (blk s) (D n) (length (F n)) = F n" using ho n by (auto simp: holds_def)
    then show "exact (blk t) (D n) (length (F n))" "content (blk t) (D n) (length (F n)) = F n"
      using content_untouched [of "blk s" "D n" "length (F n)" "blk t"] same [OF n] by simp_all
  qed
  have ptr: "n < freeinode s \<and> (\<forall>p < 269. ptr (blk t) (D' n) p = ptr (blk s) (D n) p) \<or> (\<forall>p < 269. ptr (blk t) (D' n) p = 0)" if "n < freeinode t" for n
    using m [OF that] old(1) by_addrs(1) no_blocks(1) by metis
  have "sound D' t"
    unfolding sound_def
  proof (intro conjI allI impI)
    fix n assume "n < freeinode t"
    then show "length (addrs (D' n)) = 13" using m soundD(1) [OF so] by (metis length_replicate)
  next
    fix n p assume n: "n < freeinode t" and p: "p < 269" and z: "ptr (blk t) (D' n) p \<noteq> 0"
    then show "46 \<le> unat (ptr (blk t) (D' n) p)" "unat (ptr (blk t) (D' n) p) < unat (freeblock t)"
      using ptr [OF n] soundD(2) [OF so, of n p] unfolding fb by auto
  next
    fix n k p q assume n: "n < freeinode t" "k < freeinode t" "p < 269" "q < 269" and z: "ptr (blk t) (D' n) p \<noteq> 0"
      and e: "ptr (blk t) (D' n) p = ptr (blk t) (D' k) q"
    then have "n < freeinode s" "k < freeinode s" "ptr (blk s) (D n) p \<noteq> 0" "ptr (blk s) (D n) p = ptr (blk s) (D k) q"
      using ptr [OF n(1)] ptr [OF n(2)] by auto
    then show "n = k" "p = q" using soundD(3) [OF so, of n k p q] n(3,4) by blast+
  qed
  moreover have "holds D' F' t UNIV"
    unfolding holds_def
  proof (intro ballI impI)
    fix n assume "n < freeinode t"
    then show "exact (blk t) (D' n) (length (F' n)) \<and> content (blk t) (D' n) (length (F' n)) = F' n"
      using m old(2,3) by_addrs(2,3) [of "D' n" "D n"] no_blocks(2,3) [of "D' n"] by fastforce
  qed
  ultimately show ?thesis ..
qed

subsection \<open>A good image\<close>

text \<open>
  \<open>F\<close> gives the bytes of every inode that has been allocated; the numbers from \<open>freeinode\<close> on are free.
\<close>

definition good :: "(u32 \<Rightarrow> u8 list) \<Rightarrow> mkfs \<Rightarrow> bool" where
  "good F s \<longleftrightarrow> shape s \<and> sound (disk_inode s) s \<and> holds (disk_inode s) F s UNIV \<and>
     (\<forall>n < freeinode s. unat (isize (disk_inode s n)) = length (F n)) \<and>
     (\<forall>n. freeinode s \<le> n \<longrightarrow> unat n < 208 \<longrightarrow> itype (disk_inode s n) = 0)"

definition low_same :: "mkfs \<Rightarrow> mkfs \<Rightarrow> bool" where
  "low_same s t \<longleftrightarrow> (\<forall>b. unat b < 32 \<or> unat b = 45 \<longrightarrow> blk t b = blk s b)"

lemma low_same_trans: "low_same s t \<Longrightarrow> low_same t u \<Longrightarrow> low_same s u"
  by (simp add: low_same_def)

lemma low_same_refl: "low_same s s"
  by (simp add: low_same_def)

lemma freeinode_bound: "shape s \<Longrightarrow> n < freeinode s \<Longrightarrow> unat n < 200"
  using shapeD(5) [of s] by (simp add: word_less_nat_alt word_le_nat_alt)

definition same_kinds :: "mkfs \<Rightarrow> mkfs \<Rightarrow> u32 set \<Rightarrow> bool" where
  "same_kinds s t N \<longleftrightarrow> (\<forall>m. m \<in> N \<longrightarrow> unat m < 208 \<longrightarrow> itype (disk_inode t m) = itype (disk_inode s m) \<and> nlink (disk_inode t m) = nlink (disk_inode s m))"

lemma iappend_run:
  assumes g: "good F s" and n: "n < freeinode s" and max: "length (F n) + length p \<le> MAXFILE * BSIZE"
    and room: "unat (freeblock s) + nblocks (length (F n) + length p) \<le> FSSIZE + nblocks (length (F n))"
  obtains t where "iappend n p s = Ok () t" "good (F(n := F n @ p)) t" "freeinode t = freeinode s" "low_same s t" "same_kinds s t UNIV"
    "unat (freeblock t) + nblocks (length (F n)) = unat (freeblock s) + nblocks (length (F n) + length p)"
proof -
  let ?D = "disk_inode s" and ?F = "F(n := F n @ p)"
  have sh: "shape s" and so: "sound ?D s" and ho: "holds ?D F s UNIV" and sz: "unat (isize (?D n)) = length (F n)"
    using g n by (simp_all add: good_def)
  have n208: "unat n < 208" using freeinode_bound [OF sh n] by simp
  have e: "exact (blk s) (?D n) (length (F n))" "content (blk s) (?D n) (length (F n)) = F n" using ho n by (simp_all add: holds_def)
  have w: "writing ?D F n (F n) s" using sh so ho n e exact_covered by (simp add: writing_def holds_def)
  obtain ip u where u: "iappend_loop (?D n) (isize (?D n)) p s = Ok (ip, isize (?D n) + of_nat (length p)) u" "writing (?D(n := ip)) F n (F n @ p) u"
    "exact (blk u) ip (length (F n) + length p)" "meta_same s u"
    "unat (freeblock u) + nblocks (length (F n)) = unat (freeblock s) + nblocks (length (F n) + length p)" "ip = (?D n)\<lparr>addrs := addrs ip\<rparr>"
    using iappend_loop_run [OF w e(1) sz max room] by blast
  let ?ip = "ip\<lparr>isize := isize (?D n) + of_nat (length p)\<rparr>"
  have shu: "shape u" and sou: "sound (?D(n := ip)) u" and fu: "freeinode u = freeinode s" using u(2,4) by (simp_all add: writing_def meta_same_def)
  have "length (addrs ((?D(n := ip)) n)) = 13" by (rule soundD(1) [OF sou]) (use n fu in simp)
  then have len: "length (addrs ?ip) = 13" by simp
  obtain t where t: "winode n ?ip u = Ok () t" "shape t" "disk_inode t n = on_disk ?ip" "freeinode t = freeinode u" "freeblock t = freeblock u"
    "\<forall>m. unat m < 208 \<longrightarrow> m \<noteq> n \<longrightarrow> disk_inode t m = disk_inode u m" "\<forall>b. unat b < 32 \<or> 45 \<le> unat b \<longrightarrow> blk t b = blk u b"
    by (rule winode_run [OF shu n208 len])
  have du: "disk_inode u m = ?D m" if "unat m < 208" for m
    by (rule disk_inode_cong [OF that]) (use u(4) in \<open>simp add: meta_same_def\<close>)
  have other: "disk_inode t m = ?D m" if "unat m < 208" "m \<noteq> n" for m using t(6) du that by simp
  have hou: "holds (?D(n := ip)) ?F u UNIV"
    using u(2,3) by (auto simp: holds_def writing_def)
  have fr: "m < freeinode t \<Longrightarrow> m < freeinode u \<and> addrs (disk_inode t m) = addrs ((?D(n := ip)) m) \<and> ?F m = ?F m \<or>
      addrs (disk_inode t m) = replicate 13 0 \<and> ?F m = []" for m
    using t(3,4) other [of m] freeinode_bound [OF t(2), of m] by (cases "m = n") simp_all
  have b: "46 \<le> unat b \<Longrightarrow> unat b < FSSIZE \<Longrightarrow> blk t b = blk u b" for b using t(7) by simp
  have sh_t: "sound (disk_inode t) t \<and> holds (disk_inode t) ?F t UNIV"
    by (rule frame [OF shu sou hou b t(5) fr])
  have size: "unat (isize (?D n) + of_nat (length p)) = length (F n) + length p"
    using sz max by (simp add: unat_word_ariths unat_of_nat)
  have "unat (isize (disk_inode t m)) = length (?F m)" if "m < freeinode t" for m
    using g that t(3,4) fu size other [of m] freeinode_bound [OF t(2) that] by (cases "m = n") (simp_all add: good_def)
  moreover have "itype (disk_inode t m) = 0" if "freeinode t \<le> m" "unat m < 208" for m
  proof -
    have "m \<noteq> n" using that n t(4) fu by auto
    then show ?thesis using other [OF that(2)] g that t(4) fu by (simp add: good_def)
  qed
  ultimately have "good ?F t" using t(2) sh_t by (simp add: good_def)
  moreover have "iappend n p s = Ok () t" using u(1) t(1) by (simp add: iappend_def rinode_run [OF sh n208])
  moreover have "low_same s t" using t(7) u(4) by (simp add: low_same_def meta_same_def)
  moreover have "same_kinds s t UNIV"
    unfolding same_kinds_def
  proof (intro allI impI)
    fix m :: u32 assume m: "unat m < 208"
    have "itype ip = itype (?D n)" "nlink ip = nlink (?D n)" by (subst u(6), simp)+
    then show "itype (disk_inode t m) = itype (?D m) \<and> nlink (disk_inode t m) = nlink (?D m)"
      using other [OF m] t(3) by (cases "m = n") simp_all
  qed
  ultimately show ?thesis using that t(4,5) fu u(5) by simp
qed

text \<open>A new inode is empty.\<close>

lemma mk_ialloc_run:
  assumes g: "good F s" and room: "unat (freeinode s) < 200"
  obtains t where "mk_ialloc ty s = Ok (freeinode s) t" "good (F(freeinode s := [])) t" "freeinode t = freeinode s + 1" "freeblock t = freeblock s"
    "low_same s t" "same_kinds s t (- {freeinode s})" "itype (disk_inode t (freeinode s)) = ty" "nlink (disk_inode t (freeinode s)) = 1"
proof -
  let ?n = "freeinode s" and ?ip = "bss_inode\<lparr>itype := ty, nlink := 1, isize := 0\<rparr>"
  define u where "u = s\<lparr>freeinode := ?n + 1\<rparr>"
  have n1: "unat (?n + 1) = unat ?n + 1" using room by (simp add: unat_word_ariths)
  have sh: "shape s" and so: "sound (disk_inode s) s" and ho: "holds (disk_inode s) F s UNIV" using g by (simp_all add: good_def)
  have shu: "shape u" using sh n1 room by (simp add: shape_def u_def word_le_nat_alt)
  have len: "length (addrs ?ip) = 13" by (simp add: bss_inode_def)
  have n208: "unat ?n < 208" using room by simp
  obtain t where t: "winode ?n ?ip u = Ok () t" "shape t" "disk_inode t ?n = on_disk ?ip" "freeinode t = freeinode u" "freeblock t = freeblock u"
    "\<forall>m. unat m < 208 \<longrightarrow> m \<noteq> ?n \<longrightarrow> disk_inode t m = disk_inode u m" "\<forall>b. unat b < 32 \<or> 45 \<le> unat b \<longrightarrow> blk t b = blk u b"
    by (rule winode_run [OF shu n208 len])
  have du: "disk_inode u = disk_inode s" by (simp add: u_def disk_inode_def fun_eq_iff)
  have bu: "blk u = blk s" by (simp add: u_def)
  have less: "m < freeinode t \<longleftrightarrow> m < ?n \<or> m = ?n" for m
    using n1 by (auto simp: t(4) u_def word_less_nat_alt word_unat_eq_iff)
  have other: "disk_inode t m = disk_inode s m" if "unat m < 208" "m \<noteq> ?n" for m using t(6) du that by simp
  have fr: "m < freeinode t \<Longrightarrow> m < freeinode s \<and> addrs (disk_inode t m) = addrs (disk_inode s m) \<and> (F(?n := [])) m = F m \<or>
      addrs (disk_inode t m) = replicate 13 0 \<and> (F(?n := [])) m = []" for m
    using t(3) less [of m] other [of m] freeinode_bound [OF t(2), of m] by (cases "m = ?n") (auto simp: bss_inode_def)
  have sh_t: "sound (disk_inode t) t \<and> holds (disk_inode t) (F(?n := [])) t UNIV"
    by (rule frame [OF sh so ho _ _ fr]) (use t(5,7) bu in \<open>simp_all add: u_def\<close>)
  have "unat (isize (disk_inode t m)) = length ((F(?n := [])) m)" if "m < freeinode t" for m
    using g that t(3) other [of m] freeinode_bound [OF t(2) that] less [of m] by (cases "m = ?n") (auto simp: good_def)
  moreover have "itype (disk_inode t m) = 0" if "freeinode t \<le> m" "unat m < 208" for m
  proof -
    have "?n \<le> m" "m \<noteq> ?n" using that less [of m] by (auto simp: not_less [symmetric])
    then show ?thesis using other [OF that(2)] g that by (simp add: good_def)
  qed
  ultimately have "good (F(?n := [])) t" using t(2) sh_t by (simp add: good_def)
  moreover have "mk_ialloc ty s = Ok ?n t" using t(1) by (simp add: mk_ialloc_def u_def [symmetric])
  moreover have "low_same s t" using t(7) bu by (simp add: low_same_def)
  moreover have "same_kinds s t (- {?n})" using other by (simp add: same_kinds_def)
  ultimately show ?thesis using that t(3,4,5) by (simp add: u_def)
qed

end
