(* ===== verification/Mkimage.thy ===== *)
theory Mkimage
  imports Image
begin

section \<open>What \<open>mkfs\<close> builds\<close>

text \<open>
  The run of \<open>mkfs_main\<close> on files that fit: it ends, and the image it leaves has the superblock of the kernel, one inode for each file
  with exactly the bytes of that file, a root directory with one entry for each, and a bitmap of the blocks in use.
\<close>

subsection \<open>The empty image\<close>

definition load_super :: "u8 list \<Rightarrow> superblock" where
  "load_super d = \<lparr>sb_magic = get32 d 0, sb_size = get32 d 4, sb_nblocks = get32 d 8, sb_ninodes = get32 d 12, sb_nlog = get32 d 16,
     sb_logstart = get32 d 20, sb_inodestart = get32 d 24, sb_bmapstart = get32 d 28\<rparr>"

lemma nmeta_eq [simp]: "nmeta = 46" "ninodeblocks = 13"
  by (simp_all add: nmeta_def ninodeblocks_def nbitmap_def)

lemma zero_sectors:
  assumes "image s = []" and "k \<le> FSSIZE"
  shows "foreach [0..<k] (\<lambda>i. wsect (of_nat i) z) s = Ok () (s\<lparr>image := replicate k z\<rparr>)"
  using assms(2)
proof (induction k)
  case 0
  then show ?case using assms(1) by simp
next
  case (Suc k)
  then have "sector (of_nat k) = k" by (subst sector_id) (simp_all add: unat_of_nat)
  then show ?case
    using Suc by (simp add: foreach_append bnd_def wsect_def replicate_append_same [symmetric])
qed

lemma get_concat:
  assumes "4 * length ws \<le> length d" and "j < length ws"
  shows "get32 (put_bytes 0 (concat (map bytes32 ws)) d) (4 * j) = ws ! j"
  by (rule get32_eq) (use assms in \<open>simp add: nth_put length_concat_words concat_words\<close>)

lemma zero_inode: "k + 64 \<le> BSIZE \<Longrightarrow> load_dinode (replicate BSIZE 0) k bss_inode = on_disk bss_inode"
proof -
  assume k: "k + 64 \<le> BSIZE"
  have h: "get16 (replicate BSIZE 0) (k + i) = 0" if "i < 63" for i
    using k that by (simp add: get16_def word_rcat_def)
  have "map (\<lambda>j. get32 (replicate BSIZE 0) (k + 12 + 4 * j)) [0..<NDIRECT + 1] = replicate 13 0"
    using k by (intro nth_equalityI) (simp_all add: zeros_word del: upt_Suc)
  moreover have "get32 (replicate BSIZE 0) (k + 8) = 0" using k by (simp add: zeros_word)
  ultimately show ?thesis
    using h [of 0] h [of 2] h [of 4] h [of 6] unfolding load_dinode_def on_disk_def bss_inode_def by (simp del: upt_Suc)
qed

lemma mk_super_run:
  obtains t where "mk_super mkfs_start = Ok () t" "good (\<lambda>_. []) t" "freeinode t = 1" "freeblock t = 46" "load_super (blk t 1) = the_super"
    "blk t 45 = replicate BSIZE 0"
proof -
  let ?z = "replicate BSIZE 0 :: u8 list"
  let ?ws = "[FSMAGIC, 2000, 1954, 200, 30, 2, 32, 45] :: u32 list"
  define u where "u = mkfs_start\<lparr>msb := the_super, freeblock := 46, image := replicate FSSIZE ?z\<rparr>"
  define d where "d = put_bytes 0 (concat (map bytes32 ?ws)) ?z"
  define t where "t = put_blk 1 d u"
  have ld: "length d = BSIZE" unfolding d_def by (subst length_put) simp_all
  have run: "mk_super mkfs_start = Ok () t"
  proof -
    have "foreach [0..<FSSIZE] (\<lambda>i. wsect (of_nat i) ?z) (mkfs_start\<lparr>msb := the_super, freeblock := 46\<rparr>) = Ok () u"
      by (subst zero_sectors) (simp_all add: mkfs_start_def u_def)
    moreover have "wsect 1 d u = Ok () t" by (simp add: wsect_def sector_def u_def t_def put_blk_def)
    moreover have "\<lparr>sb_magic = FSMAGIC, sb_size = xint (of_nat FSSIZE), sb_nblocks = xint (of_nat FSSIZE - nmeta),
        sb_ninodes = xint NINODES, sb_nlog = xint (of_int LOGSIZE), sb_logstart = xint 2, sb_inodestart = xint (2 + of_int LOGSIZE),
        sb_bmapstart = xint (2 + of_int LOGSIZE + ninodeblocks)\<rparr> = the_super"
      by (simp add: the_super_def ninodeblocks_def)
    moreover have "msb u = the_super" by (simp add: u_def)
    ultimately show ?thesis
      unfolding mk_super_def by (simp add: bnd_def d_def the_super_def del: upt_Suc)
  qed
  have b: "blk t x = (if x = 1 then d else ?z)" if "unat x < FSSIZE" for x
    unfolding t_def by (subst blk_put) (use that in \<open>simp_all add: u_def blk_def\<close>)
  have di: "disk_inode t n = on_disk bss_inode" if "unat n < 208" for n
  proof -
    have i: "unat (IBLOCK n the_super) = 32 + unat n div 16" by (rule IBLOCK_range [OF that])
    then have "blk t (IBLOCK n the_super) = ?z" using that by (subst b) auto
    then show ?thesis
      unfolding disk_inode_def dino_off_nat using zero_inode [of "64 * (unat n mod 16)"] mod_less_divisor [of 16 "unat n"] by simp
  qed
  have fi: "freeinode t = 1" "freeblock t = 46" by (simp_all add: t_def u_def mkfs_start_def)
  have only: "n < freeinode t \<Longrightarrow> n = 0" for n by (simp add: fi word_less_nat_alt word_unat_eq_iff)
  have z: "addrs (disk_inode t 0) = replicate 13 0" by (simp add: di bss_inode_def)
  have "shape t"
  proof -
    have "\<forall>c \<in> set (image t). length c = BSIZE"
      using ld set_update_subset_insert [of "image u" 1 d] unfolding t_def put_blk_def by (fastforce simp: u_def)
    moreover have "blk t y = ?z" if "unat (freeblock t) \<le> unat y" "unat y < FSSIZE" for y
      using that by (subst b) (auto simp: fi)
    ultimately show ?thesis by (simp add: shape_def fi) (simp add: t_def u_def)
  qed
  moreover have "sound (disk_inode t) t"
    unfolding sound_def using only no_blocks(1) [OF z] by (auto dest!: only)
  moreover have "holds (disk_inode t) (\<lambda>_. []) t UNIV"
    unfolding holds_def using no_blocks(2,3) [OF z] by (auto dest!: only)
  ultimately have "good (\<lambda>_. []) t" using di by (auto simp: good_def bss_inode_def dest!: only)
  moreover have "load_super (blk t 1) = the_super"
  proof -
    have "get32 d (4 * j) = ?ws ! j" if "j < 8" for j
      unfolding d_def by (rule get_concat) (use that in simp_all)
    from this [of 0] this [of 1] this [of 2] this [of 3] this [of 4] this [of 5] this [of 6] this [of 7]
    show ?thesis by (simp add: b load_super_def the_super_def)
  qed
  moreover have "blk t 45 = ?z" by (simp add: b)
  ultimately show ?thesis using that run fi by blast
qed

subsection \<open>The bitmap\<close>

definition marked :: "nat \<Rightarrow> u8 list" where
  "marked used = fold (\<lambda>i buf. buf[i div 8 := buf ! (i div 8) OR push_bit (i mod 8) 1]) [0..<used] (replicate BSIZE 0)"

lemma bit_used_bit: "bit_used d b \<longleftrightarrow> bit (d ! (b div 8)) (b mod 8)"
  by (simp add: bit_used_def bmask_def bit_iff_and_push_bit_not_eq_0)

lemma marked_bits: "used \<le> 8192 \<Longrightarrow> length (marked used) = BSIZE \<and> (\<forall>b < 8192. bit_used (marked used) b \<longleftrightarrow> b < used)"
proof (induction used)
  case 0
  then show ?case by (simp add: marked_def bit_used_def)
next
  case (Suc k)
  then have len: "length (marked k) = BSIZE" and old: "\<And>b. b < 8192 \<Longrightarrow> bit (marked k ! (b div 8)) (b mod 8) \<longleftrightarrow> b < k"
    by (simp_all add: bit_used_bit)
  have m: "marked (Suc k) = (marked k)[k div 8 := marked k ! (k div 8) OR push_bit (k mod 8) 1]" by (simp add: marked_def)
  have k: "k div 8 < length (marked k)" using Suc.prems len by simp
  have "bit (marked (Suc k) ! (b div 8)) (b mod 8) \<longleftrightarrow> b < Suc k" if b: "b < 8192" for b
  proof (cases "b div 8 = k div 8")
    case True
    then have "b mod 8 = k mod 8 \<longleftrightarrow> b = k" by (metis div_mult_mod_eq)
    then have "bit (push_bit (k mod 8) (1 :: u8)) (b mod 8) \<longleftrightarrow> b = k" by (auto simp: bit_simps)
    then show ?thesis using True old [OF b] k by (simp add: m bit_or_iff less_Suc_eq)
  next
    case False
    then show ?thesis using old [OF b] by (auto simp: m less_Suc_eq)
  qed
  then show ?case using len by (simp add: bit_used_bit) (simp add: m)
qed

subsection \<open>Files\<close>

definition base :: "u8 list \<Rightarrow> u8 list" where
  "base path =
     (let nm = (if take 5 path = [117, 115, 101, 114, 47] then drop 5 path else path) in
      if nm \<noteq> [] \<and> hd nm = 95 then tl nm else nm)"

definition name_ok :: "u8 list \<Rightarrow> bool" where
  "name_ok path \<longleftrightarrow> 47 \<notin> set (if take 5 path = [117, 115, 101, 114, 47] then drop 5 path else path) \<and> length (base path) \<le> DIRSIZ"

lemma shortname_run: "name_ok path \<Longrightarrow> shortname path s = Ok (base path) s"
  by (simp add: shortname_def name_ok_def base_def Let_def)

lemma length_dirent [simp]: "length (mk_dirent n nm) = 16"
  by (simp add: mk_dirent_def)

lemma nblocks_add: "nblocks l + (nblocks (l + m) - nblocks l) = nblocks (l + m)"
  using nblocks_mono [of l "l + m"] by simp

lemma iappends_run:
  assumes "good F s" and "n < freeinode s" and "length (F n) + length (concat ps) \<le> MAXFILE * BSIZE"
    and "unat (freeblock s) + nblocks (length (F n) + length (concat ps)) \<le> FSSIZE + nblocks (length (F n))"
  shows "\<exists>t. foreach ps (iappend n) s = Ok () t \<and> good (F(n := F n @ concat ps)) t \<and> freeinode t = freeinode s \<and> low_same s t \<and>
    same_kinds s t UNIV \<and>
    unat (freeblock t) + nblocks (length (F n)) = unat (freeblock s) + nblocks (length (F n) + length (concat ps))"
  using assms
proof (induction ps arbitrary: F s)
  case Nil
  then show ?case by (simp add: low_same_refl same_kinds_def)
next
  case (Cons p ps)
  let ?l = "length (F n)" and ?F = "F(n := F n @ p)"
  have max: "?l + length p \<le> MAXFILE * BSIZE" using Cons.prems(3) by simp
  have "nblocks (?l + length p) \<le> nblocks (?l + length (concat (p # ps)))" by (rule nblocks_mono) simp
  then have room: "unat (freeblock s) + nblocks (?l + length p) \<le> FSSIZE + nblocks ?l" using Cons.prems(4) by linarith
  obtain u where u: "iappend n p s = Ok () u" "good ?F u" "freeinode u = freeinode s" "low_same s u" "same_kinds s u UNIV"
    "unat (freeblock u) + nblocks ?l = unat (freeblock s) + nblocks (?l + length p)"
    by (rule iappend_run [OF Cons.prems(1,2) max room])
  have "n < freeinode u" using Cons.prems(2) u(3) by simp
  note IH = Cons.IH [OF u(2) this, unfolded fun_upd_same]
  have e: "?l + length p + length (concat ps) = ?l + length (concat (p # ps))" by simp
  have "\<exists>t. foreach ps (iappend n) u = Ok () t \<and> good (?F(n := (F n @ p) @ concat ps)) t \<and> freeinode t = freeinode u \<and> low_same u t \<and>
      same_kinds u t UNIV \<and>
      unat (freeblock t) + nblocks (length (F n @ p)) = unat (freeblock u) + nblocks (length (F n @ p) + length (concat ps))"
    by (rule IH) (use Cons.prems(3,4) u(6) in \<open>simp_all add: add.assoc\<close>)
  then obtain t where t: "foreach ps (iappend n) u = Ok () t" "good (?F(n := (F n @ p) @ concat ps)) t" "freeinode t = freeinode u" "low_same u t"
      "same_kinds u t UNIV" "unat (freeblock t) + nblocks (length (F n @ p)) = unat (freeblock u) + nblocks (length (F n @ p) + length (concat ps))"
    by blast
  have "good (F(n := F n @ concat (p # ps))) t" using t(2) by simp
  moreover have "unat (freeblock t) + nblocks ?l = unat (freeblock s) + nblocks (?l + length (concat (p # ps)))"
    using t(6) u(6) by (simp add: add.assoc)
  ultimately show ?case
    using u(1) t(1) u(3) t(3) low_same_trans [OF u(4) t(4)] u(5) t(5) by (simp add: same_kinds_def del: fun_upd_apply)
qed

text \<open>The entries of the root directory, the first file having inode \<open>n\<close>, and the blocks that the files take.\<close>

fun entries :: "u32 \<Rightarrow> (u8 list \<times> u8 list list) list \<Rightarrow> u8 list" where
  "entries n [] = []"
| "entries n (f # fs) = mk_dirent n (base (fst f)) @ entries (n + 1) fs"

definition blocks_for :: "(u8 list \<times> u8 list list) list \<Rightarrow> nat" where
  "blocks_for fs = sum_list (map (\<lambda>f. nblocks (length (concat (snd f)))) fs)"

definition file_ok :: "u8 list \<times> u8 list list \<Rightarrow> bool" where
  "file_ok f \<longleftrightarrow> name_ok (fst f) \<and> length (concat (snd f)) \<le> MAXFILE * BSIZE"

lemma blocks_for_Cons: "blocks_for (f # fs) = nblocks (length (concat (snd f))) + blocks_for fs"
  by (simp add: blocks_for_def)

lemma length_entries [simp]: "length (entries n fs) = 16 * length fs"
  by (induction n fs rule: entries.induct) simp_all

lemma nblocks_0 [simp]: "nblocks 0 = 0"
  by (simp add: nblocks_def)

lemma add_file_run:
  assumes g: "good F s" and one: "1 < freeinode s" and n: "unat (freeinode s) < 200" and f: "file_ok f"
    and max: "length (F 1) + 16 \<le> MAXFILE * BSIZE"
    and room: "unat (freeblock s) + nblocks (length (F 1) + 16) + nblocks (length (concat (snd f))) \<le> FSSIZE + nblocks (length (F 1))"
  obtains t where "add_file 1 f s = Ok () t"
    "good (F(freeinode s := concat (snd f), 1 := F 1 @ mk_dirent (freeinode s) (base (fst f)))) t"
    "freeinode t = freeinode s + 1" "low_same s t" "same_kinds s t (- {freeinode s})"
    "itype (disk_inode t (freeinode s)) = T_FILE" "nlink (disk_inode t (freeinode s)) = 1"
    "unat (freeblock t) + nblocks (length (F 1)) = unat (freeblock s) + nblocks (length (F 1) + 16) + nblocks (length (concat (snd f)))"
proof -
  let ?n = "freeinode s" and ?c = "concat (snd f)" and ?e = "mk_dirent (freeinode s) (base (fst f))"
  obtain u where u: "mk_ialloc T_FILE s = Ok ?n u" "good (F(?n := [])) u" "freeinode u = ?n + 1" "freeblock u = freeblock s"
    "low_same s u" "same_kinds s u (- {?n})" "itype (disk_inode u ?n) = T_FILE" "nlink (disk_inode u ?n) = 1"
    by (rule mk_ialloc_run [OF g n])
  have n1: "unat (?n + 1) = unat ?n + 1" using n by (simp add: unat_word_ariths)
  have ne: "?n \<noteq> 1" using one by auto
  let ?F = "F(?n := [])"
  have F1: "?F 1 = F 1" using ne by simp
  have lt1: "1 < freeinode u" using one n1 u(3) by (simp add: word_less_nat_alt)
  have max1: "length (?F 1) + length ?e \<le> MAXFILE * BSIZE" using max F1 by simp
  have room1: "unat (freeblock u) + nblocks (length (?F 1) + length ?e) \<le> FSSIZE + nblocks (length (?F 1))"
    using room u(4) F1 by simp
  obtain v where v: "iappend 1 ?e u = Ok () v" "good (?F(1 := ?F 1 @ ?e)) v" "freeinode v = freeinode u" "low_same u v" "same_kinds u v UNIV"
    "unat (freeblock v) + nblocks (length (?F 1)) = unat (freeblock u) + nblocks (length (?F 1) + length ?e)"
    by (rule iappend_run [OF u(2) lt1 max1 room1])
  let ?G = "?F(1 := ?F 1 @ ?e)"
  have Gn: "?G ?n = []" using ne by simp
  have ltn: "?n < freeinode v" using n1 u(3) v(3) by (simp add: word_less_nat_alt)
  have maxn: "length (?G ?n) + length ?c \<le> MAXFILE * BSIZE" using f Gn by (simp add: file_ok_def)
  have roomn: "unat (freeblock v) + nblocks (length (?G ?n) + length ?c) \<le> FSSIZE + nblocks (length (?G ?n))"
    using room v(6) u(4) ne unfolding Gn F1 by simp
  obtain t where t: "foreach (snd f) (iappend ?n) v = Ok () t" "good (?G(?n := ?G ?n @ ?c)) t" "freeinode t = freeinode v" "low_same v t"
    "same_kinds v t UNIV" "unat (freeblock t) + nblocks (length (?G ?n)) = unat (freeblock v) + nblocks (length (?G ?n) + length ?c)"
    using iappends_run [OF v(2) ltn maxn roomn] by blast
  have "?G(?n := ?G ?n @ ?c) = F(?n := ?c, 1 := F 1 @ ?e)" using ne by (auto simp: fun_eq_iff)
  then have "good (F(?n := ?c, 1 := F 1 @ ?e)) t" using t(2) by simp
  moreover have "shortname (fst f) s = Ok (base (fst f)) s" by (rule shortname_run) (use f in \<open>simp add: file_ok_def\<close>)
  then have "add_file 1 f s = Ok () t" using u(1) v(1) t(1) by (simp add: add_file_def bnd_def)
  moreover have "unat (freeblock t) + nblocks (length (F 1)) = unat (freeblock s) + nblocks (length (F 1) + 16) + nblocks (length ?c)"
    using t(6) v(6) u(4) ne unfolding Gn F1 by simp
  moreover have "same_kinds s t (- {?n})" using u(6) v(5) t(5) by (simp add: same_kinds_def)
  moreover have "unat ?n < 208" using n by simp
  then have "itype (disk_inode t ?n) = T_FILE" "nlink (disk_inode t ?n) = 1" using u(7,8) v(5) t(5) by (simp_all add: same_kinds_def)
  ultimately show ?thesis
    using that low_same_trans [OF u(5) low_same_trans [OF v(4) t(4)]] u(3) v(3) t(3) by simp
qed

definition stored :: "mkfs \<Rightarrow> u32 \<Rightarrow> (u32 \<Rightarrow> u8 list) \<Rightarrow> u8 list \<Rightarrow> bool" where
  "stored t n G c \<longleftrightarrow> G n = c \<and> itype (disk_inode t n) = T_FILE \<and> nlink (disk_inode t n) = 1"

lemma add_files_run:
  assumes "good F s" and "1 < freeinode s" and "unat (freeinode s) + length fs \<le> 200" and "list_all file_ok fs"
    and "length (F 1) + 16 * length fs \<le> MAXFILE * BSIZE"
    and "unat (freeblock s) + nblocks (length (F 1) + 16 * length fs) + blocks_for fs \<le> FSSIZE + nblocks (length (F 1))"
  shows "\<exists>t G. foreach fs (add_file 1) s = Ok () t \<and> good G t \<and> freeinode t = freeinode s + of_nat (length fs) \<and> low_same s t \<and>
    same_kinds s t {m. m < freeinode s} \<and>
    unat (freeblock t) + nblocks (length (F 1)) = unat (freeblock s) + nblocks (length (F 1) + 16 * length fs) + blocks_for fs \<and>
    G 1 = F 1 @ entries (freeinode s) fs \<and> (\<forall>m. m < freeinode s \<longrightarrow> m \<noteq> 1 \<longrightarrow> G m = F m) \<and>
    (\<forall>k < length fs. stored t (freeinode s + of_nat k) G (concat (snd (fs ! k))))"
  using assms
proof (induction fs arbitrary: F s)
  case Nil
  then show ?case by (intro exI [of _ s] exI [of _ F]) (simp add: low_same_refl same_kinds_def blocks_for_def)
next
  case (Cons f fs)
  let ?n = "freeinode s" and ?e = "mk_dirent (freeinode s) (base (fst f))"
  have n: "unat ?n < 200" using Cons.prems(3) by simp
  have f: "file_ok f" "list_all file_ok fs" using Cons.prems(4) by simp_all
  have max: "length (F 1) + 16 \<le> MAXFILE * BSIZE" using Cons.prems(5) by simp
  have "nblocks (length (F 1) + 16) \<le> nblocks (length (F 1) + 16 * length (f # fs))" by (rule nblocks_mono) simp
  then have room: "unat (freeblock s) + nblocks (length (F 1) + 16) + nblocks (length (concat (snd f))) \<le> FSSIZE + nblocks (length (F 1))"
    using Cons.prems(6) unfolding blocks_for_Cons by linarith
  obtain u where u: "add_file 1 f s = Ok () u" "good (F(?n := concat (snd f), 1 := F 1 @ ?e)) u"
    "freeinode u = ?n + 1" "low_same s u" "same_kinds s u (- {?n})" "itype (disk_inode u ?n) = T_FILE" "nlink (disk_inode u ?n) = 1"
    "unat (freeblock u) + nblocks (length (F 1)) = unat (freeblock s) + nblocks (length (F 1) + 16) + nblocks (length (concat (snd f)))"
    by (rule add_file_run [OF Cons.prems(1,2) n f(1) max room])
  let ?F = "F(?n := concat (snd f), 1 := F 1 @ ?e)"
  have n1: "unat (?n + 1) = unat ?n + 1" using n by (simp add: unat_word_ariths)
  have ne: "?n \<noteq> 1" using Cons.prems(2) by auto
  have F1: "?F 1 = F 1 @ ?e" by simp
  have len: "length (?F 1) + 16 * length fs = length (F 1) + 16 * length (f # fs)" by simp
  have lt: "1 < freeinode u" using Cons.prems(2) n1 u(3) by (simp add: word_less_nat_alt)
  have cnt: "unat (freeinode u) + length fs \<le> 200" using Cons.prems(3) n1 u(3) by simp
  have max2: "length (?F 1) + 16 * length fs \<le> MAXFILE * BSIZE" unfolding len by (rule Cons.prems(5))
  have room2: "unat (freeblock u) + nblocks (length (?F 1) + 16 * length fs) + blocks_for fs \<le> FSSIZE + nblocks (length (?F 1))"
    unfolding len using Cons.prems(6) u(8) unfolding blocks_for_Cons by simp
  obtain t G where t: "foreach fs (add_file 1) u = Ok () t" "good G t" "freeinode t = freeinode u + of_nat (length fs)" "low_same u t"
    "same_kinds u t {m. m < freeinode u}"
    "unat (freeblock t) + nblocks (length (?F 1)) = unat (freeblock u) + nblocks (length (?F 1) + 16 * length fs) + blocks_for fs"
    "G 1 = ?F 1 @ entries (freeinode u) fs" "\<forall>m. m < freeinode u \<longrightarrow> m \<noteq> 1 \<longrightarrow> G m = ?F m"
    "\<forall>k < length fs. stored t (freeinode u + of_nat k) G (concat (snd (fs ! k)))"
    using Cons.IH [OF u(2) lt cnt f(2) max2 room2] by blast
  have below: "m < freeinode u" if "m \<le> ?n" for m using that n1 u(3) by (simp add: word_less_nat_alt word_le_nat_alt)
  have n208: "unat ?n < 208" using n by simp
  have "foreach (f # fs) (add_file 1) s = Ok () t" using u(1) t(1) by (simp add: bnd_def)
  moreover have "freeinode t = ?n + of_nat (length (f # fs))" using t(3) u(3) by simp
  moreover have "low_same s t" by (rule low_same_trans [OF u(4) t(4)])
  moreover have "same_kinds s t {m. m < ?n}" using u(5) t(5) below by (auto simp: same_kinds_def)
  moreover have "unat (freeblock t) + nblocks (length (F 1)) =
      unat (freeblock s) + nblocks (length (F 1) + 16 * length (f # fs)) + blocks_for (f # fs)"
    using t(6) u(8) unfolding len blocks_for_Cons by simp
  moreover have "G 1 = F 1 @ entries ?n (f # fs)" using t(7) u(3) by simp
  moreover have "\<forall>m. m < ?n \<longrightarrow> m \<noteq> 1 \<longrightarrow> G m = F m" using t(8) below by (auto simp: less_le)
  moreover have "\<forall>k < length (f # fs). stored t (?n + of_nat k) G (concat (snd ((f # fs) ! k)))"
  proof (intro allI impI)
    fix k assume k: "k < length (f # fs)"
    show "stored t (?n + of_nat k) G (concat (snd ((f # fs) ! k)))"
    proof (cases k)
      case 0
      then show ?thesis using t(5,8) below [of ?n] ne u(6,7) n208 by (simp add: stored_def same_kinds_def)
    next
      case (Suc j)
      then show ?thesis using t(9) k u(3) by (simp add: add.assoc)
    qed
  qed
  ultimately show ?case using t(2) by blast
qed

subsection \<open>The whole run\<close>

definition dots :: "u8 list" where
  "dots = mk_dirent 1 [46] @ mk_dirent 1 [46, 46]"

definition root_size :: "nat \<Rightarrow> nat" where
  "root_size n = (16 * (n + 2) div BSIZE + 1) * BSIZE"

text \<open>An inode with the bytes \<open>c\<close>, as the kernel reads it.\<close>

definition holds_file :: "mkfs \<Rightarrow> u32 \<Rightarrow> u16 \<Rightarrow> u8 list \<Rightarrow> bool" where
  "holds_file s n ty c \<longleftrightarrow> (let ip = disk_inode s n in itype ip = ty \<and> nlink ip = 1 \<and> whole ip (blk s) \<and> file_bytes ip (blk s) = c)"

definition blocks_used :: "(u8 list \<times> u8 list list) list \<Rightarrow> nat" where
  "blocks_used fs = 46 + nblocks (16 * (length fs + 2)) + blocks_for fs"

definition fits :: "(u8 list \<times> u8 list list) list \<Rightarrow> bool" where
  "fits fs \<longleftrightarrow> list_all file_ok fs \<and> length fs \<le> 198 \<and> blocks_used fs \<le> FSSIZE"

definition image_ok :: "(u8 list \<times> u8 list list) list \<Rightarrow> mkfs \<Rightarrow> bool" where
  "image_ok fs s \<longleftrightarrow> load_super (blk s 1) = the_super \<and>
     (\<forall>k < length fs. holds_file s (2 + of_nat k) T_FILE (concat (snd (fs ! k)))) \<and>
     (\<forall>n. length fs + 2 \<le> unat n \<longrightarrow> unat n < 208 \<longrightarrow> itype (disk_inode s n) = 0) \<and>
     (\<forall>b < 8192. bit_used (blk s 45) b \<longleftrightarrow> b < blocks_used fs) \<and>
     unat (freeinode s) = length fs + 2 \<and> unat (freeblock s) = blocks_used fs \<and> sound (disk_inode s) s"

lemma exact_whole:
  assumes "exact v ip (unat (isize ip))"
  shows "whole ip v"
  unfolding whole_def
proof (intro allI impI)
  fix p assume p: "p < unat (isize ip)"
  have c: "p div BSIZE < MAXFILE" "ptr v ip (place (p div BSIZE)) \<noteq> 0" "block_of ip v (p div BSIZE) = ptr v ip (place (p div BSIZE))"
    using covered_block [OF exact_covered [OF assms] p] by simp_all
  then show "allotted ip v (p div BSIZE)" unfolding allotted_def by (auto simp: ptr_def place_def split: if_splits)
qed

lemma file_bytes_content: "file_bytes ip v = content v ip (unat (isize ip))"
  by (simp add: file_bytes_def content_def)

lemma exact_round:
  assumes e: "exact v ip l" and l: "l mod BSIZE \<noteq> 0" and r: "r = (l div BSIZE + 1) * BSIZE"
  shows "exact v ip r" "content v ip r = content v ip l @ replicate (r - l) 0"
proof -
  define j where "j = l - 1"
  have j: "l = Suc j" using l by (cases l) (simp_all add: j_def)
  have d: "Suc j div BSIZE = j div BSIZE" using l unfolding j by (simp add: div_Suc)
  have m: "0 < r - j" "r - j \<le> BSIZE - j mod BSIZE" "j + (r - j) = r"
  proof -
    define q i where "q = j div BSIZE" and "i = j mod BSIZE"
    have v: "j = q * BSIZE + i" "i < BSIZE" "r = (q + 1) * BSIZE" unfolding r j d by (simp_all add: q_def i_def)
    show "0 < r - j" using v by simp
    show "r - j \<le> BSIZE - j mod BSIZE" unfolding i_def [symmetric] using v by simp
    show "j + (r - j) = r" using v by simp
  qed
  show er: "exact v ip r" using exact_chunk [OF e [unfolded j] m(1,2)] m(3) by simp
  have lr: "l \<le> r" using m j by linarith
  show "content v ip r = content v ip l @ replicate (r - l) 0"
  proof (rule nth_equalityI)
    fix q assume "q < length (content v ip r)"
    then have q: "q < r" by (simp add: content_def)
    have "file_byte ip v q = 0" if "l \<le> q"
    proof -
      have c: "q div BSIZE < MAXFILE" "ptr v ip (place (q div BSIZE)) \<noteq> 0" "block_of ip v (q div BSIZE) = ptr v ip (place (q div BSIZE))"
        using covered_block [OF exact_covered [OF er] q] by simp_all
      have "q mod BSIZE < BSIZE" "l \<le> q div BSIZE * BSIZE + q mod BSIZE" using that by simp_all
      then show ?thesis using e c by (simp add: file_byte_def exact_def clear_def)
    qed
    then show "content v ip r ! q = (content v ip l @ replicate (r - l) 0) ! q"
      using q by (auto simp: content_def nth_append)
  qed (use lr in \<open>simp add: content_def\<close>)
qed

definition mk_root :: "unit mM" where
  "mk_root =
     seq mk_super (
     bnd (mk_ialloc T_DIR) (\<lambda>root.
     seq (guard_panic (root \<noteq> ROOTINO) ''assert'') (
     seq (iappend root (mk_dirent root [46]))
         (iappend root (mk_dirent root [46, 46])))))"

lemma mk_root_run:
  obtains s F where "mk_root mkfs_start = Ok () s" "good F s" "F 1 = dots" "freeinode s = 2" "unat (freeblock s) = 47"
    "load_super (blk s 1) = the_super" "itype (disk_inode s 1) = T_DIR" "nlink (disk_inode s 1) = 1"
proof -
  obtain a where a: "mk_super mkfs_start = Ok () a" "good (\<lambda>_. []) a" "freeinode a = 1" "freeblock a = 46" "load_super (blk a 1) = the_super"
    by (rule mk_super_run)
  have lt: "unat (freeinode a) < 200" using a(3) by simp
  obtain b where b: "mk_ialloc T_DIR a = Ok 1 b" "good ((\<lambda>_. [])(1 := [])) b" "freeinode b = 2" "freeblock b = 46" "low_same a b"
    "itype (disk_inode b 1) = T_DIR" "nlink (disk_inode b 1) = 1"
    by (rule mk_ialloc_run [OF a(2) lt]) (use a in simp)
  let ?E = "(\<lambda>_. [])(1 := []) :: u32 \<Rightarrow> u8 list"
  have E: "length (?E 1) = 0" by simp
  have nb: "nblocks 16 = 1" "nblocks 32 = 1" by (simp_all add: nblocks_def)
  have o: "1 < freeinode b" using b(3) by simp
  have max: "length (?E 1) + length (mk_dirent 1 [46]) \<le> MAXFILE * BSIZE" unfolding E by simp
  have room: "unat (freeblock b) + nblocks (length (?E 1) + length (mk_dirent 1 [46])) \<le> FSSIZE + nblocks (length (?E 1))"
    unfolding E by (simp add: nb b(4))
  obtain c where c: "iappend 1 (mk_dirent 1 [46]) b = Ok () c" "good (?E(1 := ?E 1 @ mk_dirent 1 [46])) c" "freeinode c = freeinode b" "low_same b c"
    "same_kinds b c UNIV" "unat (freeblock c) + nblocks (length (?E 1)) = unat (freeblock b) + nblocks (length (?E 1) + length (mk_dirent 1 [46]))"
    by (rule iappend_run [OF b(2) o max room])
  let ?F = "?E(1 := ?E 1 @ mk_dirent 1 [46])"
  have F: "length (?F 1) = 16" by simp
  have fc: "unat (freeblock c) = 47" using c(6) unfolding E by (simp add: nb b(4))
  have o2: "1 < freeinode c" using o c(3) by simp
  have max2: "length (?F 1) + length (mk_dirent 1 [46, 46]) \<le> MAXFILE * BSIZE" unfolding F by simp
  have room2: "unat (freeblock c) + nblocks (length (?F 1) + length (mk_dirent 1 [46, 46])) \<le> FSSIZE + nblocks (length (?F 1))"
    unfolding F fc by (simp add: nb)
  obtain d where d: "iappend 1 (mk_dirent 1 [46, 46]) c = Ok () d" "good (?F(1 := ?F 1 @ mk_dirent 1 [46, 46])) d" "freeinode d = freeinode c" "low_same c d"
    "same_kinds c d UNIV" "unat (freeblock d) + nblocks (length (?F 1)) = unat (freeblock c) + nblocks (length (?F 1) + length (mk_dirent 1 [46, 46]))"
    by (rule iappend_run [OF c(2) o2 max2 room2])
  have "unat (freeblock d) = 47" using d(6) unfolding F fc by (simp add: nb)
  moreover have "mk_root mkfs_start = Ok () d" using a(1) b(1) c(1) d(1) by (simp add: mk_root_def bnd_def)
  moreover have "load_super (blk d 1) = the_super"
    using a(5) low_same_trans [OF b(5) low_same_trans [OF c(4) d(4)]] by (simp add: low_same_def)
  moreover have "(?F(1 := ?F 1 @ mk_dirent 1 [46, 46])) 1 = dots" by (simp add: dots_def)
  ultimately show ?thesis
    using that d(2,3) c(3) b(3,6,7) c(5) d(5) by (simp add: same_kinds_def del: fun_upd_apply)
qed

text \<open>The run after the root directory has its first two entries.\<close>

lemma mkfs_main_split:
  "mkfs_main fs = seq mk_root (seq (foreach fs (add_file 1)) (
     bnd (rinode 1) (\<lambda>din.
     seq (winode 1 (din\<lparr>isize := xint ((xint (isize din) div 1024 + 1) * 1024)\<rparr>)) (
     bnd (gets freeblock) (\<lambda>b.
     mk_balloc (unat b))))))"
  (is "?l = ?r")
proof (rule ext)
  fix s show "?l s = ?r s"
    by (auto simp: mkfs_main_def mk_root_def bnd_def split: outcome.splits)
qed

lemma nblocks_small: "nblocks 32 = 1"
  by (simp add: nblocks_def)

lemma list_inode: "k < length fs \<Longrightarrow> length fs \<le> 198 \<Longrightarrow> unat (2 + of_nat k :: u32) = k + 2 \<and> (2 + of_nat k :: u32) \<noteq> 1"
proof -
  assume "k < length fs" "length fs \<le> 198"
  then have "unat (2 + of_nat k :: u32) = k + 2" by (simp add: unat_word_ariths unat_of_nat)
  then show ?thesis by (metis One_nat_def add_2_eq_Suc' nat.inject old.nat.distinct(1) unat_1)
qed

lemma mkfs_main_run:
  assumes fit: "fits fs"
  obtains s where "mkfs_main fs mkfs_start = Ok () s" "image_ok fs s"
    "itype (disk_inode s 1) = T_DIR" "nlink (disk_inode s 1) = 1" "unat (isize (disk_inode s 1)) = root_size (length fs)"
    "exact (blk s) (disk_inode s 1) (16 * (length fs + 2))" "content (blk s) (disk_inode s 1) (16 * (length fs + 2)) = dots @ entries 2 fs"
proof -
  let ?n = "length fs"
  obtain s F where s: "mk_root mkfs_start = Ok () s" "good F s" "F 1 = dots" "freeinode s = 2" "unat (freeblock s) = 47"
    "load_super (blk s 1) = the_super" "itype (disk_inode s 1) = T_DIR" "nlink (disk_inode s 1) = 1"
    by (rule mk_root_run)
  have F1: "length (F 1) = 32" by (simp add: s(3) dots_def)
  have len: "length (F 1) + 16 * ?n = 16 * (?n + 2)" by (simp add: F1)
  have two: "1 < freeinode s" "unat (freeinode s) + ?n \<le> 200" using s(4) fit by (simp_all add: fits_def)
  have ok: "list_all file_ok fs" using fit by (simp add: fits_def)
  have max: "length (F 1) + 16 * ?n \<le> MAXFILE * BSIZE" using fit by (simp add: F1 fits_def)
  have room: "unat (freeblock s) + nblocks (length (F 1) + 16 * ?n) + blocks_for fs \<le> FSSIZE + nblocks (length (F 1))"
    unfolding len F1 nblocks_small s(5) using fit by (simp add: fits_def blocks_used_def)
  obtain t G where t: "foreach fs (add_file 1) s = Ok () t" "good G t" "freeinode t = freeinode s + of_nat ?n" "low_same s t"
    "same_kinds s t {m. m < freeinode s}"
    "unat (freeblock t) + nblocks (length (F 1)) = unat (freeblock s) + nblocks (length (F 1) + 16 * ?n) + blocks_for fs"
    "G 1 = F 1 @ entries (freeinode s) fs" "\<forall>k < ?n. stored t (freeinode s + of_nat k) G (concat (snd (fs ! k)))"
    using add_files_run [OF s(2) two ok max room] by blast
  have fi: "unat (freeinode t) = ?n + 2" using t(3) s(4) fit by (simp add: fits_def unat_word_ariths unat_of_nat)
  have fb: "unat (freeblock t) = blocks_used fs" using t(6) unfolding len F1 nblocks_small s(5) by (simp add: blocks_used_def)
  have sh: "shape t" and so: "sound (disk_inode t) t" and ho: "holds (disk_inode t) G t UNIV" using t(2) by (simp_all add: good_def)
  have G1: "G 1 = dots @ entries 2 fs" "length (G 1) = 16 * (?n + 2)" using t(7) s(3,4) len by simp_all
  let ?din = "disk_inode t 1"
  let ?ip = "?din\<lparr>isize := (isize ?din div 1024 + 1) * 1024\<rparr>"
  have one: "unat (1 :: u32) < 208" and lt1: "1 < freeinode t" using fi by (simp_all add: word_less_nat_alt)
  have ls: "length (addrs ?ip) = 13" by simp
  obtain u where u: "winode 1 ?ip t = Ok () u" "shape u" "disk_inode u 1 = on_disk ?ip" "freeinode u = freeinode t" "freeblock u = freeblock t"
    "\<forall>m. unat m < 208 \<longrightarrow> m \<noteq> 1 \<longrightarrow> disk_inode u m = disk_inode t m" "\<forall>b. unat b < 32 \<or> 45 \<le> unat b \<longrightarrow> blk u b = blk t b"
    by (rule winode_run [OF sh one ls])
  define w where "w = put_blk 45 (marked (blocks_used fs)) u"
  have used: "blocks_used fs \<le> FSSIZE" using fit by (simp add: fits_def)
  have b: "blk w x = (if x = 45 then marked (blocks_used fs) else blk u x)" for x
    unfolding w_def by (subst blk_put) (use shapeD(1) [OF u(2)] in simp_all)
  have dw: "disk_inode w m = disk_inode u m" if "unat m < 208" for m
    by (rule disk_inode_cong [OF that]) (auto simp: b)
  have d1: "disk_inode w 1 = on_disk ?ip" using dw [OF one] u(3) by simp
  have fw: "freeinode w = freeinode t" "freeblock w = freeblock t" using u(4,5) by (simp_all add: w_def)
  have fr: "m < freeinode w \<Longrightarrow> m < freeinode t \<and> addrs (disk_inode w m) = addrs (disk_inode t m) \<and> G m = G m \<or>
      addrs (disk_inode w m) = replicate 13 0 \<and> G m = []" for m
    using u(3,6) dw [of m] freeinode_bound [OF sh, of m] unfolding fw(1) by (cases "m = 1") simp_all
  have final: "sound (disk_inode w) w \<and> holds (disk_inode w) G w UNIV"
    by (rule frame [OF sh so ho _ fw(2) fr]) (use u(7) in \<open>auto simp: b\<close>)
  have run: "mkfs_main fs mkfs_start = Ok () w"
  proof -
    have "mk_balloc (blocks_used fs) u = Ok () w"
      using used shapeD(2) [OF u(2)] wsect_run [OF u(2), of 45] by (simp add: mk_balloc_def marked_def w_def the_super_def)
    then show ?thesis
      using s(1) t(1) u(1) rinode_run [OF sh one] u(5) fb unfolding mkfs_main_split by (simp add: bnd_def)
  qed
  have each: "holds_file w (2 + of_nat k) T_FILE (concat (snd (fs ! k)))" if k: "k < ?n" for k
  proof -
    let ?m = "2 + of_nat k :: u32"
    have m: "unat ?m = k + 2" "?m \<noteq> 1" using list_inode [OF k] fit by (simp_all add: fits_def)
    have m208: "unat ?m < 208" and lt: "?m < freeinode t" using m k fit fi by (simp_all add: fits_def word_less_nat_alt)
    have st: "G ?m = concat (snd (fs ! k))" "itype (disk_inode t ?m) = T_FILE" "nlink (disk_inode t ?m) = 1"
      using t(8) k s(4) by (simp_all add: stored_def)
    have same: "disk_inode w ?m = disk_inode t ?m" using dw [OF m208] u(6) m208 m(2) by simp
    have sz: "unat (isize (disk_inode w ?m)) = length (G ?m)" using t(2) lt same by (simp add: good_def)
    have "exact (blk w) (disk_inode w ?m) (length (G ?m))" "content (blk w) (disk_inode w ?m) (length (G ?m)) = G ?m"
      using final lt fw by (simp_all add: holds_def)
    then show ?thesis
      using exact_whole [of "blk w" "disk_inode w ?m"] sz st same by (simp add: holds_file_def file_bytes_content)
  qed
  have free: "itype (disk_inode w m) = 0" if m: "?n + 2 \<le> unat m" "unat m < 208" for m
  proof -
    have "m \<noteq> 1" "freeinode t \<le> m" using m fi by (auto simp: word_le_nat_alt)
    then show ?thesis using dw [OF m(2)] u(6) m(2) t(2) by (simp add: good_def)
  qed
  have super: "load_super (blk w 1) = the_super" using s(6) t(4) u(7) by (simp add: b low_same_def)
  have bits: "bit_used (blk w 45) c \<longleftrightarrow> c < blocks_used fs" if "c < 8192" for c
    using marked_bits [of "blocks_used fs"] used that by (simp add: b)
  have "image_ok fs w" unfolding image_ok_def using super each free bits fi fb fw final by simp
  moreover have "itype (disk_inode w 1) = T_DIR" "nlink (disk_inode w 1) = 1"
    using t(5) s(4,7,8) by (simp_all add: d1 same_kinds_def word_less_nat_alt)
  moreover have "unat (isize (disk_inode w 1)) = root_size ?n"
  proof -
    have i: "unat (isize ?din) = 16 * (?n + 2)" using t(2) lt1 G1 by (simp add: good_def)
    have "16 * (?n + 2) div 1024 \<le> 16 * 200 div 1024" using fit by (intro div_le_mono) (simp add: fits_def)
    then have d: "16 * (?n + 2) div 1024 \<le> 3" by simp
    define z where "z = isize ?din div 1024 + 1"
    have z: "unat z = 16 * (?n + 2) div 1024 + 1" using d i by (simp add: z_def unat_word_ariths unat_div)
    have "unat (z * 1024) = unat z * 1024" by (subst unat_mult_lem [THEN iffD1]) (use d z in simp_all)
    then show ?thesis using z unfolding d1 root_size_def by (simp add: z_def)
  qed
  moreover have "exact (blk w) (disk_inode w 1) (16 * (?n + 2))" "content (blk w) (disk_inode w 1) (16 * (?n + 2)) = dots @ entries 2 fs"
    using final [THEN conjunct2, unfolded holds_def fw, THEN bspec, THEN mp, OF UNIV_I lt1, unfolded G1(2)] unfolding G1(1) by simp_all
  ultimately show ?thesis using that [of w] run by blast
qed

text \<open>
  C8: on files that fit, \<open>mkfs\<close> ends with an image that the kernel reads as one inode per file with exactly its bytes,
  a root directory whose bytes are the entries and zeros, a bitmap of the blocks in use, and no block with two owners.
\<close>

theorem mkfs_image:
  assumes "fits fs" and "(length fs + 2) mod 64 \<noteq> 0"
  shows "\<exists>s. mkfs_main fs mkfs_start = Ok () s \<and> image_ok fs s \<and>
    holds_file s 1 T_DIR (dots @ entries 2 fs @ replicate (root_size (length fs) - 16 * (length fs + 2)) 0)"
proof -
  obtain s where s: "mkfs_main fs mkfs_start = Ok () s" "image_ok fs s"
    "itype (disk_inode s 1) = T_DIR" "nlink (disk_inode s 1) = 1" "unat (isize (disk_inode s 1)) = root_size (length fs)"
    "exact (blk s) (disk_inode s 1) (16 * (length fs + 2))" "content (blk s) (disk_inode s 1) (16 * (length fs + 2)) = dots @ entries 2 fs"
    by (rule mkfs_main_run [OF assms(1)])
  have "16 * (length fs + 2) mod (16 * 64) = 16 * ((length fs + 2) mod 64)" by (rule mult_mod_right [symmetric])
  then have "16 * (length fs + 2) mod BSIZE \<noteq> 0" using assms(2) by simp
  from exact_round [OF s(6) this root_size_def] show ?thesis
    using s exact_whole [of "blk s" "disk_inode s 1"] by (auto simp: holds_file_def file_bytes_content)
qed

theorem mkfs_image_witness:
  "\<exists>s. mkfs_main [([117, 115, 101, 114, 47, 95, 97], [[7, 8], [9]])] mkfs_start = Ok () s \<and>
    image_ok [([117, 115, 101, 114, 47, 95, 97], [[7, 8], [9]])] s \<and> holds_file s 2 T_FILE [7, 8, 9]"
proof -
  let ?fs = "[([117, 115, 101, 114, 47, 95, 97], [[7, 8], [9]])] :: (u8 list \<times> u8 list list) list"
  have "fits ?fs"
    by (simp add: fits_def file_ok_def name_ok_def base_def blocks_used_def blocks_for_def nblocks_def)
  from mkfs_image [OF this] show ?thesis by (force simp: image_ok_def)
qed

text \<open>
  C0: when the entries of the root directory fill its last block, the size written at the end is one block more than the directory has:
  that block is not allotted, and the kernel allocates it on the first read of the directory to its end.
\<close>

theorem mkfs_root_hole:
  assumes "fits fs" and "(length fs + 2) mod 64 = 0"
  shows "\<exists>s. mkfs_main fs mkfs_start = Ok () s \<and> unat (isize (disk_inode s 1)) = 16 * (length fs + 2) + BSIZE \<and>
    \<not> allotted (disk_inode s 1) (blk s) (16 * (length fs + 2) div BSIZE)"
proof -
  obtain s where s: "mkfs_main fs mkfs_start = Ok () s"
    "unat (isize (disk_inode s 1)) = root_size (length fs)" "exact (blk s) (disk_inode s 1) (16 * (length fs + 2))"
    by (rule mkfs_main_run [OF assms(1)])
  obtain q where q: "length fs + 2 = 64 * q" using assms(2) by auto
  have "q < 12" using q assms(1) by (simp add: fits_def)
  then have "ptr (blk s) (disk_inode s 1) q = 0" using s(3) unfolding q exact_def by (auto simp: place_def dest: spec [of _ q])
  then show ?thesis using s(1,2) \<open>q < 12\<close> unfolding root_size_def q by (auto simp: ptr_def allotted_def block_of_def)
qed

theorem mkfs_root_hole_witness:
  "\<exists>s. mkfs_main (replicate 62 ([97], [])) mkfs_start = Ok () s \<and> unat (isize (disk_inode s 1)) = 2048 \<and> \<not> allotted (disk_inode s 1) (blk s) 1"
proof -
  have "fits (replicate 62 ([97], []))"
    by (simp add: fits_def file_ok_def name_ok_def base_def blocks_used_def blocks_for_def nblocks_def list_all_iff sum_list_replicate)
  from mkfs_root_hole [OF this] show ?thesis by simp
qed

end
