(* ===== verification/Asm.thy ===== *)
theory Asm
  imports Kstate
begin

section \<open>The assembly routines (\<^verbatim>\<open>entry.S\<close>, \<^verbatim>\<open>swtch.S\<close>, \<^verbatim>\<open>trampoline.S\<close>, \<^verbatim>\<open>kernelvec.S\<close>)\<close>

text \<open>
  The instructions that the four files use, a hart that executes them, and the routines as lists of instructions in their order.
  The translation of addresses by the hardware is the parameter \<open>tr\<close> of the interpreter: from the value of \<^verbatim>\<open>satp\<close> and a virtual address
  to a physical one.  An instruction that jumps sets \<open>h_pc\<close> and ends its routine; the places of the other instructions are not modelled.
\<close>

datatype reg = X0 | RA | SP | GP | TP | T0 | T1 | T2 | S0 | S1 | A0 | A1 | A2 | A3 | A4 | A5 | A6 | A7
  | S2 | S3 | S4 | S5 | S6 | S7 | S8 | S9 | S10 | S11 | T3 | T4 | T5 | T6

datatype sreg = Satp | Sscratch | Mhartid

text \<open>\<open>Li\<close> is \<^verbatim>\<open>li\<close> and \<^verbatim>\<open>la\<close>; \<open>Jump\<close> is the call of a function that does not come back.\<close>

datatype instr =
    Sd reg u64 reg
  | Ld reg u64 reg
  | Li reg u64
  | Addi reg reg u64
  | Add reg reg reg
  | Mul reg reg reg
  | Csrw sreg reg
  | Csrr reg sreg
  | Sfence
  | Jr reg
  | Jump u64
  | Sret

record hart =
  h_reg :: "reg \<Rightarrow> u64"
  h_mem :: memory
  h_satp :: u64
  h_sscratch :: u64
  h_id :: u64
  h_sepc :: u64
  h_spp :: bool
  h_pc :: u64
  h_user :: bool

type_synonym mmu = "u64 \<Rightarrow> u64 \<Rightarrow> u64"

definition get :: "reg \<Rightarrow> hart \<Rightarrow> u64" where
  "get r h = (if r = X0 then 0 else h_reg h r)"

definition put :: "reg \<Rightarrow> u64 \<Rightarrow> hart \<Rightarrow> hart" where
  "put r v h = (if r = X0 then h else h\<lparr>h_reg := (h_reg h)(r := v)\<rparr>)"

text \<open>\<^verbatim>\<open>sret\<close> goes to \<^verbatim>\<open>sepc\<close> in the mode that \<^verbatim>\<open>SPP\<close> of \<^verbatim>\<open>sstatus\<close> names.\<close>

primrec step :: "mmu \<Rightarrow> instr \<Rightarrow> hart \<Rightarrow> hart" where
  "step tr (Sd r k b) h = h\<lparr>h_mem := store64 (h_mem h) (tr (h_satp h) (get b h + k)) (get r h)\<rparr>"
| "step tr (Ld r k b) h = put r (load64 (h_mem h) (tr (h_satp h) (get b h + k))) h"
| "step tr (Li r v) h = put r v h"
| "step tr (Addi r a v) h = put r (get a h + v) h"
| "step tr (Add r a b) h = put r (get a h + get b h) h"
| "step tr (Mul r a b) h = put r (get a h * get b h) h"
| "step tr (Csrw c r) h =
     (case c of Satp \<Rightarrow> h\<lparr>h_satp := get r h\<rparr> | Sscratch \<Rightarrow> h\<lparr>h_sscratch := get r h\<rparr> | Mhartid \<Rightarrow> h)"
| "step tr (Csrr r c) h = put r (case c of Satp \<Rightarrow> h_satp h | Sscratch \<Rightarrow> h_sscratch h | Mhartid \<Rightarrow> h_id h) h"
| "step tr Sfence h = h"
| "step tr (Jr r) h = h\<lparr>h_pc := get r h\<rparr>"
| "step tr (Jump a) h = h\<lparr>h_pc := a\<rparr>"
| "step tr Sret h = h\<lparr>h_pc := h_sepc h, h_user := \<not> h_spp h\<rparr>"

definition exec :: "mmu \<Rightarrow> instr list \<Rightarrow> hart \<Rightarrow> hart" where
  "exec tr = fold (step tr)"

subsection \<open>The routines\<close>

definition entry :: "u64 \<Rightarrow> u64 \<Rightarrow> instr list" where
  "entry stack0 start =
     [Li SP stack0, Li A0 (1024 * 4), Csrr A1 Mhartid, Addi A1 A1 1, Mul A0 A0 A1, Add SP SP A0, Jump start]"

definition swtch :: "instr list" where
  "swtch =
     [Sd RA 0 A0, Sd SP 8 A0, Sd S0 16 A0, Sd S1 24 A0, Sd S2 32 A0, Sd S3 40 A0, Sd S4 48 A0, Sd S5 56 A0,
      Sd S6 64 A0, Sd S7 72 A0, Sd S8 80 A0, Sd S9 88 A0, Sd S10 96 A0, Sd S11 104 A0,
      Ld RA 0 A1, Ld SP 8 A1, Ld S0 16 A1, Ld S1 24 A1, Ld S2 32 A1, Ld S3 40 A1, Ld S4 48 A1, Ld S5 56 A1,
      Ld S6 64 A1, Ld S7 72 A1, Ld S8 80 A1, Ld S9 88 A1, Ld S10 96 A1, Ld S11 104 A1,
      Jr RA]"

definition uservec :: "instr list" where
  "uservec =
     [Csrw Sscratch A0, Li A0 TRAPFRAME,
      Sd RA 40 A0, Sd SP 48 A0, Sd GP 56 A0, Sd TP 64 A0, Sd T0 72 A0, Sd T1 80 A0, Sd T2 88 A0, Sd S0 96 A0, Sd S1 104 A0,
      Sd A1 120 A0, Sd A2 128 A0, Sd A3 136 A0, Sd A4 144 A0, Sd A5 152 A0, Sd A6 160 A0, Sd A7 168 A0,
      Sd S2 176 A0, Sd S3 184 A0, Sd S4 192 A0, Sd S5 200 A0, Sd S6 208 A0, Sd S7 216 A0, Sd S8 224 A0, Sd S9 232 A0,
      Sd S10 240 A0, Sd S11 248 A0, Sd T3 256 A0, Sd T4 264 A0, Sd T5 272 A0, Sd T6 280 A0,
      Csrr T0 Sscratch, Sd T0 112 A0,
      Ld SP 8 A0, Ld TP 32 A0, Ld T0 16 A0, Ld T1 0 A0,
      Sfence, Csrw Satp T1, Sfence, Jr T0]"

definition userret :: "instr list" where
  "userret =
     [Sfence, Csrw Satp A0, Sfence, Li A0 TRAPFRAME,
      Ld RA 40 A0, Ld SP 48 A0, Ld GP 56 A0, Ld TP 64 A0, Ld T0 72 A0, Ld T1 80 A0, Ld T2 88 A0, Ld S0 96 A0, Ld S1 104 A0,
      Ld A1 120 A0, Ld A2 128 A0, Ld A3 136 A0, Ld A4 144 A0, Ld A5 152 A0, Ld A6 160 A0, Ld A7 168 A0,
      Ld S2 176 A0, Ld S3 184 A0, Ld S4 192 A0, Ld S5 200 A0, Ld S6 208 A0, Ld S7 216 A0, Ld S8 224 A0, Ld S9 232 A0,
      Ld S10 240 A0, Ld S11 248 A0, Ld T3 256 A0, Ld T4 264 A0, Ld T5 272 A0, Ld T6 280 A0,
      Ld A0 112 A0, Sret]"

text \<open>The call of \<^verbatim>\<open>kerneltrap\<close> stands between the two halves of \<^verbatim>\<open>kernelvec\<close>.\<close>

definition kernelvec_save :: "instr list" where
  "kernelvec_save =
     [Addi SP SP (-256),
      Sd RA 0 SP, Sd SP 8 SP, Sd GP 16 SP, Sd TP 24 SP, Sd T0 32 SP, Sd T1 40 SP, Sd T2 48 SP,
      Sd A0 72 SP, Sd A1 80 SP, Sd A2 88 SP, Sd A3 96 SP, Sd A4 104 SP, Sd A5 112 SP, Sd A6 120 SP, Sd A7 128 SP,
      Sd T3 216 SP, Sd T4 224 SP, Sd T5 232 SP, Sd T6 240 SP]"

definition kernelvec_restore :: "instr list" where
  "kernelvec_restore =
     [Ld RA 0 SP, Ld SP 8 SP, Ld GP 16 SP, Ld T0 32 SP, Ld T1 40 SP, Ld T2 48 SP,
      Ld A0 72 SP, Ld A1 80 SP, Ld A2 88 SP, Ld A3 96 SP, Ld A4 104 SP, Ld A5 112 SP, Ld A6 120 SP, Ld A7 128 SP,
      Ld T3 216 SP, Ld T4 224 SP, Ld T5 232 SP, Ld T6 240 SP,
      Addi SP SP 256, Sret]"

definition kernelvec :: "mmu \<Rightarrow> (hart \<Rightarrow> hart) \<Rightarrow> hart \<Rightarrow> hart" where
  "kernelvec tr kerneltrap h = exec tr kernelvec_restore (kerneltrap (exec tr kernelvec_save h))"

subsection \<open>Runs of stores and of loads\<close>

lemma exec_simps [simp]: "exec tr [] h = h" "exec tr (i # is) h = exec tr is (step tr i h)" "exec tr (is @ js) h = exec tr js (exec tr is h)"
  by (simp_all add: exec_def)

lemma get_put [simp]: "get r (put q v h) = (if r = X0 then 0 else if r = q then v else get r h)"
  by (simp add: get_def put_def)

lemma get_X0 [simp]: "get X0 h = 0"
  by (simp add: get_def)

lemma put_frame [simp]:
  "h_mem (put r v h) = h_mem h" "h_satp (put r v h) = h_satp h" "h_sscratch (put r v h) = h_sscratch h" "h_id (put r v h) = h_id h"
  "h_sepc (put r v h) = h_sepc h" "h_spp (put r v h) = h_spp h" "h_pc (put r v h) = h_pc h" "h_user (put r v h) = h_user h"
  by (simp_all add: put_def)

lemma get_frame [simp]:
  "get r (h\<lparr>h_mem := m\<rparr>) = get r h" "get r (h\<lparr>h_satp := a\<rparr>) = get r h" "get r (h\<lparr>h_sscratch := a\<rparr>) = get r h"
  "get r (h\<lparr>h_pc := a\<rparr>) = get r h" "get r (h\<lparr>h_pc := a, h_user := b\<rparr>) = get r h"
  by (simp_all add: get_def)

definition sd_all :: "reg \<Rightarrow> (reg \<times> u64) list \<Rightarrow> instr list" where
  "sd_all b l = map (\<lambda>(r, k). Sd r k b) l"

definition ld_all :: "reg \<Rightarrow> (reg \<times> u64) list \<Rightarrow> instr list" where
  "ld_all b l = map (\<lambda>(r, k). Ld r k b) l"

definition stores :: "(u64 \<Rightarrow> u64) \<Rightarrow> (reg \<Rightarrow> u64) \<Rightarrow> (reg \<times> u64) list \<Rightarrow> memory \<Rightarrow> memory" where
  "stores f g l = fold (\<lambda>(r, k) m. store64 m (f k) (g r)) l"

lemma exec_sd_all: "exec tr (sd_all b l) h = h\<lparr>h_mem := stores (\<lambda>k. tr (h_satp h) (get b h + k)) (\<lambda>r. get r h) l (h_mem h)\<rparr>"
  by (induction l arbitrary: h) (auto simp: sd_all_def stores_def)

lemma stores_other: "cell a \<notin> (\<lambda>(r, k). cell (f k)) ` set l \<Longrightarrow> load64 (stores f g l m) a = load64 m a"
  by (induction l arbitrary: m) (auto simp: stores_def load64_store64)

lemma stores_slot:
  assumes "distinct (map (\<lambda>(r, k). cell (f k)) l)" and "(r, k) \<in> set l"
  shows "load64 (stores f g l m) (f k) = g r"
  using assms
proof (induction l arbitrary: m)
  case (Cons x l)
  show ?case
  proof (cases "(r, k) \<in> set l")
    case True
    then show ?thesis using Cons by (simp add: stores_def split_beta)
  next
    case False
    then have x: "x = (r, k)" using Cons.prems by simp
    then have "cell (f k) \<notin> (\<lambda>(r, k). cell (f k)) ` set l" using Cons.prems(1) by simp
    then have "load64 (stores f g l (store64 m (f k) (g r))) (f k) = load64 (store64 m (f k) (g r)) (f k)" by (rule stores_other)
    then show ?thesis using x by (simp add: stores_def load64_store64)
  qed
qed simp

text \<open>The register of the base may be among those loaded if its slot holds its value.\<close>

lemma exec_ld_all:
  assumes "distinct (map fst l)" and "X0 \<notin> fst ` set l"
    and "\<And>k. (b, k) \<in> set l \<Longrightarrow> load64 (h_mem h) (tr (h_satp h) (get b h + k)) = get b h"
  shows "h_mem (exec tr (ld_all b l) h) = h_mem h \<and> h_satp (exec tr (ld_all b l) h) = h_satp h \<and> h_sepc (exec tr (ld_all b l) h) = h_sepc h \<and>
    h_spp (exec tr (ld_all b l) h) = h_spp h \<and>
    get r (exec tr (ld_all b l) h) = (case map_of l r of None \<Rightarrow> get r h | Some k \<Rightarrow> load64 (h_mem h) (tr (h_satp h) (get b h + k)))"
  using assms
proof (induction l arbitrary: h)
  case (Cons x l)
  obtain q j where x: "x = (q, j)" by (cases x)
  let ?h = "put q (load64 (h_mem h) (tr (h_satp h) (get b h + j))) h"
  have q: "q \<noteq> X0" "q \<notin> fst ` set l" using Cons.prems(1,2) x by auto
  have b: "get b ?h = get b h" using Cons.prems(3) [of j] x q by auto
  have p: "distinct (map fst l)" "X0 \<notin> fst ` set l" "\<And>k. (b, k) \<in> set l \<Longrightarrow> load64 (h_mem ?h) (tr (h_satp ?h) (get b ?h + k)) = get b ?h"
    using Cons.prems b by auto
  have "map_of l q = None" using q(2) by (simp add: map_of_eq_None_iff)
  then show ?case using Cons.IH [OF p] b q(1) by (auto simp: ld_all_def x split: option.splits)
qed (simp add: ld_all_def)

lemma cell_slot: "unat a mod 8 = 0 \<Longrightarrow> unat k mod 8 = 0 \<Longrightarrow> cell (a + k) = a + k"
proof (rule cell_aligned)
  assume "unat a mod 8 = 0" "unat k mod 8 = 0"
  then have "8 dvd unat a + unat k" by (intro dvd_add) (simp_all add: mod_eq_0_iff_dvd)
  then have "8 dvd (unat a + unat k) mod 2 ^ 64" by (rule dvd_mod) simp
  then show "unat (a + k) mod 8 = 0" by (simp add: unat_word_ariths mod_eq_0_iff_dvd)
qed

lemma words_distinct:
  assumes "unat a mod 8 = 0" and "list_all (\<lambda>(r, k). unat k mod 8 = 0) l" and "distinct (map snd l)"
    and "\<And>r k. (r, k) \<in> set l \<Longrightarrow> f k = a + k"
  shows "distinct (map (\<lambda>(r, k). cell (f k)) l)"
  using assms(2,3,4)
proof (induction l)
  case (Cons x l)
  obtain r k where x: "x = (r, k)" by (cases x)
  have c: "cell (f j) = a + j" if "(q, j) \<in> set (x # l)" for q j
    using Cons.prems(3) [OF that] Cons.prems(1) that cell_slot [OF assms(1), of j] by (auto simp: list_all_iff)
  have "cell (f k) \<notin> (\<lambda>(r, k). cell (f k)) ` set l"
  proof
    assume "cell (f k) \<in> (\<lambda>(r, k). cell (f k)) ` set l"
    then obtain q j where "(q, j) \<in> set l" "cell (f k) = cell (f j)" by auto
    then have "(q, j) \<in> set l" "j = k" using c [of q j] c [of r k] x by auto
    then show False using Cons.prems(2) x by (auto simp: image_iff)
  qed
  moreover have "distinct (map (\<lambda>(r, k). cell (f k)) l)" by (rule Cons.IH) (use Cons.prems in auto)
  ultimately show ?case using x by simp
qed simp

subsection \<open>User space and back\<close>

definition user_slots :: "(reg \<times> u64) list" where
  "user_slots =
     [(RA, 40), (SP, 48), (GP, 56), (TP, 64), (T0, 72), (T1, 80), (T2, 88), (S0, 96), (S1, 104), (A1, 120), (A2, 128), (A3, 136), (A4, 144),
      (A5, 152), (A6, 160), (A7, 168), (S2, 176), (S3, 184), (S4, 192), (S5, 200), (S6, 208), (S7, 216), (S8, 224), (S9, 232), (S10, 240),
      (S11, 248), (T3, 256), (T4, 264), (T5, 272), (T6, 280)]"

lemma uservec_split:
  "uservec = [Csrw Sscratch A0, Li A0 TRAPFRAME] @ sd_all A0 user_slots @
     [Csrr T0 Sscratch, Sd T0 112 A0, Ld SP 8 A0, Ld TP 32 A0, Ld T0 16 A0, Ld T1 0 A0, Sfence, Csrw Satp T1, Sfence, Jr T0]"
  by (simp add: uservec_def sd_all_def user_slots_def)

lemma userret_split:
  "userret = [Sfence, Csrw Satp A0, Sfence, Li A0 TRAPFRAME] @ ld_all A0 user_slots @ [Ld A0 112 A0, Sret]"
  by (simp add: userret_def ld_all_def user_slots_def)

text \<open>The page table of the process maps the page below the trampoline to its trap frame.\<close>

definition maps_trapframe :: "mmu \<Rightarrow> u64 \<Rightarrow> u64 \<Rightarrow> bool" where
  "maps_trapframe tr us tf \<longleftrightarrow> unat tf mod 4096 = 0 \<and> (\<forall>k < TF_size. tr us (TRAPFRAME + k) = tf + k)"

lemma maps_slot: "maps_trapframe tr us tf \<Longrightarrow> k < 288 \<Longrightarrow> tr us (TRAPFRAME + k) = tf + k"
  by (simp add: maps_trapframe_def)

lemma aligned_page: "unat (a :: u64) mod 4096 = 0 \<Longrightarrow> unat a mod 8 = 0"
  using mod_mod_cancel [of 8 4096 "unat a"] by simp

lemma user_slots_facts:
  "distinct (map fst user_slots)" "distinct (map snd user_slots)" "X0 \<notin> fst ` set user_slots" "A0 \<notin> fst ` set user_slots" "112 \<notin> snd ` set user_slots"
  "list_all (\<lambda>(r, k). unat k mod 8 = 0) user_slots" "(r, k) \<in> set user_slots \<Longrightarrow> 40 \<le> k \<and> k < 288"
  by (auto simp: user_slots_def)

lemma user_slots_total: "r \<noteq> X0 \<Longrightarrow> r \<noteq> A0 \<Longrightarrow> r \<in> fst ` set user_slots"
  by (cases r) (simp_all add: user_slots_def)

lemma uservec_saves:
  assumes m: "maps_trapframe tr (h_satp h) tf"
  defines "u \<equiv> exec tr uservec h"
  shows "(r, k) \<in> set user_slots \<Longrightarrow> load64 (h_mem u) (tf + k) = get r h" "load64 (h_mem u) (tf + 112) = get A0 h"
    "get SP u = load64 (h_mem h) (tf + 8)" "get TP u = load64 (h_mem h) (tf + 32)" "h_pc u = load64 (h_mem h) (tf + 16)"
    "h_satp u = load64 (h_mem h) (tf + 0)"
proof -
  let ?f = "\<lambda>k. tr (h_satp h) (TRAPFRAME + k)"
  define h1 where "h1 = put A0 TRAPFRAME (h\<lparr>h_sscratch := get A0 h\<rparr>)"
  define m1 where "m1 = stores ?f (\<lambda>r. get r h1) user_slots (h_mem h)"
  define m2 where "m2 = store64 m1 (?f 112) (get A0 h)"
  have f: "?f k = tf + k" if "k < 288" for k by (rule maps_slot [OF m that])
  have al: "unat tf mod 8 = 0" using m by (intro aligned_page) (simp add: maps_trapframe_def)
  have c: "cell (?f k) = tf + k" if "k < 288" "unat k mod 8 = 0" for k unfolding f [OF that(1)] by (rule cell_slot [OF al that(2)])
  have slot: "?f k = tf + k" if "(r, k) \<in> set user_slots" for r k using user_slots_facts(7) [OF that] by (intro f) simp
  have dis: "distinct (map (\<lambda>(r, k). cell (?f k)) user_slots)" by (rule words_distinct [OF al user_slots_facts(6,2) slot])
  have low: "load64 m2 (?f k) = load64 (h_mem h) (?f k)" if k: "k \<in> {0, 8, 16, 32}" for k
  proof -
    have "cell (?f k) \<notin> (\<lambda>(r, k). cell (?f k)) ` set user_slots"
    proof
      assume "cell (?f k) \<in> (\<lambda>(r, k). cell (?f k)) ` set user_slots"
      then obtain r j where j: "(r, j) \<in> set user_slots" "cell (?f k) = cell (?f j)" by auto
      then have "tf + k = tf + j" using k user_slots_facts(6) user_slots_facts(7) [of r j] by (subst (asm) c, force, force, subst (asm) c) (auto simp: list_all_iff)
      then show False using user_slots_facts(7) [OF j(1)] k by auto
    qed
    then have "load64 m1 (?f k) = load64 (h_mem h) (?f k)" unfolding m1_def by (rule stores_other)
    moreover have "cell (?f k) \<noteq> cell (?f 112)" using k by (subst c, force, force, subst c) auto
    ultimately show ?thesis by (simp add: m2_def load64_store64)
  qed
  have u: "u = (let h2 = put T0 (get A0 h) (h1\<lparr>h_mem := m1\<rparr>); h3 = h2\<lparr>h_mem := m2\<rparr>;
      h4 = put TP (load64 m2 (?f 32)) (put SP (load64 m2 (?f 8)) h3); h5 = put T1 (load64 m2 (?f 0)) (put T0 (load64 m2 (?f 16)) h4)
    in h5\<lparr>h_satp := get T1 h5, h_pc := get T0 h5\<rparr>)"
    unfolding u_def uservec_split by (simp add: exec_sd_all h1_def m1_def m2_def Let_def)
  then have mem: "h_mem u = m2" by (simp add: Let_def)
  show "load64 (h_mem u) (tf + k) = get r h" if rk: "(r, k) \<in> set user_slots" for r k
  proof -
    have kb: "k < 288" "unat k mod 8 = 0" "k \<noteq> 112" using user_slots_facts(5,6,7) rk by (force simp: list_all_iff)+
    have "load64 m1 (?f k) = get r h1" unfolding m1_def by (rule stores_slot [OF dis rk])
    moreover have "cell (?f k) \<noteq> cell (?f 112)" using kb by (subst c, simp, simp, subst c) auto
    moreover have "r \<noteq> A0" using user_slots_facts(4) rk by force
    moreover have "get r (h\<lparr>h_sscratch := get A0 h\<rparr>) = get r h" by simp
    ultimately show ?thesis unfolding mem using kb f [OF kb(1)] by (simp add: m2_def load64_store64 h1_def)
  qed
  show "load64 (h_mem u) (tf + 112) = get A0 h" unfolding mem using f [of 112] by (simp add: m2_def load64_store64)
  show "get SP u = load64 (h_mem h) (tf + 8)" "get TP u = load64 (h_mem h) (tf + 32)" "h_pc u = load64 (h_mem h) (tf + 16)"
    "h_satp u = load64 (h_mem h) (tf + 0)"
    unfolding u using low [of 8] low [of 32] low [of 16] low [of 0] f [of 8] f [of 32] f [of 16] f [of 0]
    by (simp_all add: Let_def get_def put_def)
qed

lemma userret_loads:
  assumes m: "maps_trapframe tr us tf" and a: "get A0 g = us"
  defines "v \<equiv> exec tr userret g"
  shows "(r, k) \<in> set user_slots \<Longrightarrow> get r v = load64 (h_mem g) (tf + k)" "get A0 v = load64 (h_mem g) (tf + 112)"
    "h_pc v = h_sepc g" "h_satp v = us" "h_user v = (\<not> h_spp g)" "h_mem v = h_mem g"
proof -
  define h1 where "h1 = put A0 TRAPFRAME (g\<lparr>h_satp := us\<rparr>)"
  define h2 where "h2 = exec tr (ld_all A0 user_slots) h1"
  have v: "v = step tr Sret (step tr (Ld A0 112 A0) h2)"
    unfolding v_def userret_split h2_def h1_def using a by simp
  have h1: "h_mem h1 = h_mem g" "h_satp h1 = us" "h_sepc h1 = h_sepc g" "h_spp h1 = h_spp g" "get A0 h1 = TRAPFRAME" by (simp_all add: h1_def)
  have "(A0, k) \<in> set user_slots \<Longrightarrow> load64 (h_mem h1) (tr (h_satp h1) (get A0 h1 + k)) = get A0 h1" for k
    using user_slots_facts(4) by force
  note ld = exec_ld_all [of user_slots A0 h1 tr, OF user_slots_facts(1,3) this, folded h2_def]
  have f: "tr us (TRAPFRAME + k) = tf + k" if "k < 288" for k by (rule maps_slot [OF m that])
  have "map_of user_slots A0 = None" using user_slots_facts(4) by (simp add: map_of_eq_None_iff)
  then have base: "get A0 h2 = TRAPFRAME" using ld [of A0] h1 by simp
  have frame: "h_mem h2 = h_mem g" "h_satp h2 = us" "h_sepc h2 = h_sepc g" "h_spp h2 = h_spp g" using ld [of A0] h1 by simp_all
  show "get A0 v = load64 (h_mem g) (tf + 112)" "h_pc v = h_sepc g" "h_satp v = us" "h_user v = (\<not> h_spp g)" "h_mem v = h_mem g"
    unfolding v using base frame f [of 112] by simp_all
  show "get r v = load64 (h_mem g) (tf + k)" if rk: "(r, k) \<in> set user_slots"
  proof -
    have r: "r \<noteq> A0" "r \<noteq> X0" using user_slots_facts(3,4) rk by force+
    have "map_of user_slots r = Some k" using rk user_slots_facts(1) by simp
    then have "get r h2 = load64 (h_mem g) (tr us (TRAPFRAME + k))" using ld [of r] h1 by simp
    then show ?thesis unfolding v using r f user_slots_facts(7) [OF rk] by simp
  qed
qed

text \<open>
  C9: a trap and the return from it keep the user registers.  \<^verbatim>\<open>uservec\<close> leaves in the state that \<open>usertrapret\<close> asked for in the trap frame;
  whatever the kernel does then, if it leaves the words of the saved registers but \<^verbatim>\<open>a0\<close> in the trap frame alone (the one of \<^verbatim>\<open>a0\<close> may
  have become the answer of a system call) and ends in \<^verbatim>\<open>userret\<close> with the page
  table of the process, every register but \<^verbatim>\<open>a0\<close> is what it was at the trap, and \<^verbatim>\<open>a0\<close> is what the trap frame holds for it.
\<close>

theorem trap_roundtrip:
  assumes "maps_trapframe tr (h_satp h) tf" and "get A0 g = h_satp h"
    and "\<forall>k. 40 \<le> k \<longrightarrow> k < TF_size \<longrightarrow> unat k mod 8 = 0 \<longrightarrow> k \<noteq> TF_a0 \<longrightarrow> load64 (h_mem g) (tf + k) = load64 (h_mem (exec tr uservec h)) (tf + k)"
  shows "(let u = exec tr uservec h in
      get SP u = load64 (h_mem h) (tf + TF_kernel_sp) \<and> get TP u = load64 (h_mem h) (tf + TF_kernel_hartid) \<and>
      h_satp u = load64 (h_mem h) (tf + TF_kernel_satp) \<and> h_pc u = load64 (h_mem h) (tf + TF_kernel_trap) \<and>
      load64 (h_mem u) (tf + TF_a0) = get A0 h \<and> load64 (h_mem u) (tf + TF_a7) = get A7 h) \<and>
    (let v = exec tr userret g in
      (\<forall>r. get r v = (if r = A0 then load64 (h_mem g) (tf + TF_a0) else get r h)) \<and>
      h_pc v = h_sepc g \<and> h_satp v = h_satp h \<and> h_user v = (\<not> h_spp g))"
proof -
  note s = uservec_saves [OF assms(1)] and l = userret_loads [OF assms(1,2)]
  have "get r (exec tr userret g) = get r h" if r: "r \<noteq> A0" "r \<noteq> X0" for r
  proof -
    obtain k where k: "(r, k) \<in> set user_slots" using user_slots_total [OF r(2,1)] by auto
    have "40 \<le> k" "k < TF_size" "unat k mod 8 = 0" "k \<noteq> TF_a0" using user_slots_facts(5,6) user_slots_facts(7) [OF k] k by (force simp: list_all_iff)+
    then show ?thesis using l(1) [OF k] s(1) [OF k] assms(3) by simp
  qed
  moreover have "(A7, 168) \<in> set user_slots" by (simp add: user_slots_def)
  ultimately show ?thesis using s l unfolding Let_def by (metis get_X0)
qed

subsection \<open>Context switches\<close>

definition ctx_slots :: "(reg \<times> u64) list" where
  "ctx_slots =
     [(RA, 0), (SP, 8), (S0, 16), (S1, 24), (S2, 32), (S3, 40), (S4, 48), (S5, 56), (S6, 64), (S7, 72), (S8, 80), (S9, 88), (S10, 96), (S11, 104)]"

lemma swtch_split: "swtch = sd_all A0 ctx_slots @ ld_all A1 ctx_slots @ [Jr RA]"
  by (simp add: swtch_def sd_all_def ld_all_def ctx_slots_def)

lemma ctx_slots_facts:
  "distinct (map fst ctx_slots)" "distinct (map snd ctx_slots)" "X0 \<notin> fst ` set ctx_slots" "A1 \<notin> fst ` set ctx_slots"
  "list_all (\<lambda>(r, k). unat k mod 8 = 0) ctx_slots" "(RA, 0) \<in> set ctx_slots" "(r, k) \<in> set ctx_slots \<Longrightarrow> k < 112"
  by (auto simp: ctx_slots_def)

text \<open>A context lies in memory that the page table maps to itself; two contexts share no word.\<close>

definition context_at :: "mmu \<Rightarrow> u64 \<Rightarrow> u64 \<Rightarrow> bool" where
  "context_at tr pt a \<longleftrightarrow> unat a mod 8 = 0 \<and> (\<forall>k < 112. tr pt (a + k) = a + k)"

definition apart :: "u64 \<Rightarrow> u64 \<Rightarrow> bool" where
  "apart a b \<longleftrightarrow> (\<forall>j < 112. \<forall>k < 112. a + j \<noteq> b + k)"

lemma swtch_run:
  assumes a: "context_at tr (h_satp h) (get A0 h)" and b: "context_at tr (h_satp h) (get A1 h)" and ap: "apart (get A0 h) (get A1 h)"
  defines "u \<equiv> exec tr swtch h"
  shows "(r, k) \<in> set ctx_slots \<Longrightarrow> load64 (h_mem u) (get A0 h + k) = get r h"
    "(r, k) \<in> set ctx_slots \<Longrightarrow> get r u = load64 (h_mem h) (get A1 h + k)"
    "h_pc u = load64 (h_mem h) (get A1 h)"
    "\<forall>k < 112. cell c \<noteq> get A0 h + k \<Longrightarrow> load64 (h_mem u) c = load64 (h_mem h) c"
proof -
  let ?a = "get A0 h" and ?b = "get A1 h"
  let ?f = "\<lambda>k. tr (h_satp h) (?a + k)"
  define m1 where "m1 = stores ?f (\<lambda>r. get r h) ctx_slots (h_mem h)"
  define h1 where "h1 = h\<lparr>h_mem := m1\<rparr>"
  define h2 where "h2 = exec tr (ld_all A1 ctx_slots) h1"
  have u: "u = step tr (Jr RA) h2" unfolding u_def swtch_split h2_def h1_def m1_def by (simp add: exec_sd_all)
  have al: "unat ?a mod 8 = 0" "unat ?b mod 8 = 0" using a b by (simp_all add: context_at_def)
  have f: "?f k = ?a + k" if "(r, k) \<in> set ctx_slots" for r k using a ctx_slots_facts(7) [OF that] by (simp add: context_at_def)
  have fb: "tr (h_satp h) (?b + k) = ?b + k" if "(r, k) \<in> set ctx_slots" for r k using b ctx_slots_facts(7) [OF that] by (simp add: context_at_def)
  have k8: "unat k mod 8 = 0" if "(r, k) \<in> set ctx_slots" for r k using ctx_slots_facts(5) that by (auto simp: list_all_iff)
  have c: "cell (?f k) = ?a + k" if "(r, k) \<in> set ctx_slots" for r k unfolding f [OF that] by (rule cell_slot [OF al(1) k8 [OF that]])
  have dis: "distinct (map (\<lambda>(r, k). cell (?f k)) ctx_slots)" by (rule words_distinct [OF al(1) ctx_slots_facts(5,2) f])
  have other: "load64 m1 c = load64 (h_mem h) c" if "\<forall>k < 112. cell c \<noteq> ?a + k" for c
    unfolding m1_def by (rule stores_other) (use that c ctx_slots_facts(7) in force)
  have src: "load64 m1 (?b + k) = load64 (h_mem h) (?b + k)" if rk: "(r, k) \<in> set ctx_slots" for r k
  proof (rule other, intro allI impI)
    fix j :: u64 assume "j < 112"
    then have "?a + j \<noteq> ?b + k" using ap ctx_slots_facts(7) [OF rk] unfolding apart_def by blast
    then show "cell (?b + k) \<noteq> ?a + j" using cell_slot [OF al(2) k8 [OF rk]] by simp
  qed
  have h1: "h_mem h1 = m1" "h_satp h1 = h_satp h" "get A1 h1 = ?b" "get r h1 = get r h" for r by (simp_all add: h1_def)
  have "(A1, k) \<in> set ctx_slots \<Longrightarrow> load64 (h_mem h1) (tr (h_satp h1) (get A1 h1 + k)) = get A1 h1" for k
    using ctx_slots_facts(4) by force
  note ld = exec_ld_all [of ctx_slots A1 h1 tr, OF ctx_slots_facts(1,3) this, folded h2_def]
  have h2: "get r h2 = load64 (h_mem h) (?b + k)" if rk: "(r, k) \<in> set ctx_slots" for r k
  proof -
    have "map_of ctx_slots r = Some k" using rk ctx_slots_facts(1) by simp
    then show ?thesis using ld [of r] h1 fb [OF rk] src [OF rk] by simp
  qed
  have mem: "h_mem u = m1" unfolding u using ld [of RA] h1 by simp
  show "load64 (h_mem u) (?a + k) = get r h" if rk: "(r, k) \<in> set ctx_slots"
    using stores_slot [OF dis rk, of "\<lambda>r. get r h" "h_mem h"] f [OF rk] by (simp add: mem m1_def)
  show "get r u = load64 (h_mem h) (?b + k)" if rk: "(r, k) \<in> set ctx_slots" unfolding u using h2 [OF rk] by simp
  show "h_pc u = load64 (h_mem h) ?b" unfolding u using h2 [OF ctx_slots_facts(6)] by simp
  show "load64 (h_mem u) c = load64 (h_mem h) c" if "\<forall>k < 112. cell c \<noteq> ?a + k" using other [OF that] mem by simp
qed

text \<open>
  C23: a thread of the kernel that calls \<^verbatim>\<open>swtch\<close> leaves the processor to the thread of the other context, which goes on where and with what
  its context says; when any later \<^verbatim>\<open>swtch\<close> names the context it left, it goes on after its own call with its own callee-saved registers and stack.
\<close>

theorem swtch_resumes:
  assumes "context_at tr (h_satp h) (get A0 h)" and "context_at tr (h_satp h) (get A1 h)" and "apart (get A0 h) (get A1 h)"
    and "context_at tr (h_satp g) (get A0 g)" and "context_at tr (h_satp g) (get A1 g)" and "apart (get A0 g) (get A1 g)"
    and "get A1 g = get A0 h"
    and "\<forall>k < 112. load64 (h_mem g) (get A0 h + k) = load64 (h_mem (exec tr swtch h)) (get A0 h + k)"
  shows "(let u = exec tr swtch h in
      h_pc u = load64 (h_mem h) (get A1 h) \<and> get SP u = load64 (h_mem h) (get A1 h + 8) \<and>
      (\<forall>c. (\<forall>k < 112. cell c \<noteq> get A0 h + k) \<longrightarrow> load64 (h_mem u) c = load64 (h_mem h) c)) \<and>
    (let v = exec tr swtch g in
      h_pc v = get RA h \<and> (\<forall>r \<in> {RA, SP, S0, S1, S2, S3, S4, S5, S6, S7, S8, S9, S10, S11}. get r v = get r h))"
proof -
  note s = swtch_run [OF assms(1,2,3)] and l = swtch_run [OF assms(4,5,6)]
  have kept: "get r (exec tr swtch g) = get r h" if rk: "(r, k) \<in> set ctx_slots" for r k
    using l(2) [OF rk] s(1) [OF rk] assms(7,8) ctx_slots_facts(7) [OF rk] by simp
  have ra: "h_pc (exec tr swtch g) = get RA h"
    using l(3) s(1) [OF ctx_slots_facts(6)] assms(7) spec [OF assms(8), of 0] by simp
  have "{RA, SP, S0, S1, S2, S3, S4, S5, S6, S7, S8, S9, S10, S11} = fst ` set ctx_slots" by (simp add: ctx_slots_def)
  then have "\<forall>r \<in> {RA, SP, S0, S1, S2, S3, S4, S5, S6, S7, S8, S9, S10, S11}. get r (exec tr swtch g) = get r h" using kept by force
  moreover have "(SP, 8) \<in> set ctx_slots" by (simp add: ctx_slots_def)
  ultimately show ?thesis using s(2,3,4) ra unfolding Let_def by blast
qed

lemma apart_far:
  assumes "unat a + 112 \<le> unat b" and "unat b + 112 < 2 ^ 64"
  shows "apart a b" "apart b a"
proof -
  have "a + j \<noteq> b + k" if "j < 112" "k < 112" for j k :: u64
  proof -
    have "unat j < 112" "unat k < 112" using that by (simp_all add: word_less_nat_alt)
    then have "unat (a + j) = unat a + unat j" "unat (b + k) = unat b + unat k" "unat a + unat j < unat b + unat k"
      using assms by (simp_all add: unat_word_ariths)
    then show ?thesis by auto
  qed
  then show "apart a b" "apart b a" unfolding apart_def by metis+
qed

subsection \<open>Traps from the kernel\<close>

definition kv_slots :: "(reg \<times> u64) list" where
  "kv_slots =
     [(RA, 0), (SP, 8), (GP, 16), (T0, 32), (T1, 40), (T2, 48), (A0, 72), (A1, 80), (A2, 88), (A3, 96), (A4, 104), (A5, 112), (A6, 120), (A7, 128),
      (T3, 216), (T4, 224), (T5, 232), (T6, 240)]"

definition kv_saved :: "(reg \<times> u64) list" where
  "kv_saved = take 3 kv_slots @ (TP, 24) # drop 3 kv_slots"

lemma kernelvec_split:
  "kernelvec_save = [Addi SP SP (-256)] @ sd_all SP kv_saved" "kernelvec_restore = ld_all SP kv_slots @ [Addi SP SP 256, Sret]"
  by (simp_all add: kernelvec_save_def kernelvec_restore_def sd_all_def ld_all_def kv_saved_def kv_slots_def)

lemma kv_facts:
  "distinct (map fst kv_slots)" "X0 \<notin> fst ` set kv_slots" "(SP, 8) \<in> set kv_slots" "(SP, k) \<in> set kv_slots \<Longrightarrow> k = 8" "set kv_slots \<subseteq> set kv_saved"
  "(r, k) \<in> set kv_slots \<Longrightarrow> k < 256"
  by (auto simp: kv_slots_def kv_saved_def)

lemma kv_rest: "r \<noteq> X0 \<Longrightarrow> r \<noteq> TP \<Longrightarrow> r \<notin> fst ` set kv_slots \<Longrightarrow> r \<in> {S0, S1, S2, S3, S4, S5, S6, S7, S8, S9, S10, S11}"
  by (cases r) (simp_all add: kv_slots_def)

text \<open>The words of the frame are different words of memory.\<close>

definition frame_mapped :: "mmu \<Rightarrow> u64 \<Rightarrow> u64 \<Rightarrow> bool" where
  "frame_mapped tr pt a \<longleftrightarrow> distinct (map (\<lambda>(r, k). cell (tr pt (a + k))) kv_saved)"

text \<open>
  What the calling convention asks of a C function that runs on the stack from \<open>sp\<close> downwards: the callee-saved registers and the 256 bytes above
  \<open>sp\<close> come back as they were.  \<open>kerneltrap\<close> also puts \<^verbatim>\<open>sepc\<close> and \<^verbatim>\<open>sstatus\<close> back.
\<close>

definition returns_well :: "mmu \<Rightarrow> hart \<Rightarrow> hart \<Rightarrow> bool" where
  "returns_well tr g g' \<longleftrightarrow> (\<forall>r \<in> {SP, S0, S1, S2, S3, S4, S5, S6, S7, S8, S9, S10, S11}. get r g' = get r g) \<and>
     (\<forall>k < 256. load64 (h_mem g') (tr (h_satp g') (get SP g + k)) = load64 (h_mem g) (tr (h_satp g) (get SP g + k))) \<and>
     h_sepc g' = h_sepc g \<and> h_spp g' = h_spp g"

lemma kv_restore_run:
  assumes slot: "\<And>r j. (r, j) \<in> set kv_slots \<Longrightarrow> load64 (h_mem k) (tr (h_satp k) (get SP k + j)) = f r" and sp: "f SP = get SP k"
  defines "v \<equiv> exec tr kernelvec_restore k"
  shows "get r v = (if r = SP then get SP k + 256 else if r \<in> fst ` set kv_slots then f r else get r k)"
    "h_pc v = h_sepc k" "h_user v = (\<not> h_spp k)"
proof -
  define v1 where "v1 = exec tr (ld_all SP kv_slots) k"
  have base: "(SP, j) \<in> set kv_slots \<Longrightarrow> load64 (h_mem k) (tr (h_satp k) (get SP k + j)) = get SP k" for j
    using slot [of SP j] sp by simp
  note ld = exec_ld_all [of kv_slots SP k tr, OF kv_facts(1,2) base, folded v1_def]
  have v: "v = step tr Sret (put SP (get SP v1 + 256) v1)" unfolding v_def v1_def by (simp add: kernelvec_split(2))
  have l: "get r v1 = f r" if r: "r \<in> fst ` set kv_slots" for r
  proof -
    obtain j where j: "(r, j) \<in> set kv_slots" using r by auto
    then have "map_of kv_slots r = Some j" using kv_facts(1) by simp
    then show ?thesis using ld [of r] slot [OF j] by simp
  qed
  have n: "get r v1 = get r k" if "r \<notin> fst ` set kv_slots" for r
    using ld [of r] that by (simp add: map_of_eq_None_iff [symmetric])
  have "SP \<in> fst ` set kv_slots" using kv_facts(3) by force
  then show "get r v = (if r = SP then get SP k + 256 else if r \<in> fst ` set kv_slots then f r else get r k)"
    using l n sp kv_facts(2) unfolding v by auto
  show "h_pc v = h_sepc k" "h_user v = (\<not> h_spp k)" unfolding v using ld [of SP] by simp_all
qed

text \<open>
  C24: an interrupt of the kernel is invisible to the code it interrupts: after \<^verbatim>\<open>kernelvec\<close> every register but \<^verbatim>\<open>tp\<close>, the number of the hart that
  runs it now, is what it was, and it goes on where it was interrupted, in the mode it was in.
\<close>

theorem kernelvec_transparent:
  assumes "frame_mapped tr (h_satp h) (get SP h - 256)"
    and "returns_well tr (exec tr kernelvec_save h) (kerneltrap (exec tr kernelvec_save h))"
  shows "(let v = kernelvec tr kerneltrap h in (\<forall>r. get r v = (if r = TP then get TP (kerneltrap (exec tr kernelvec_save h)) else get r h)) \<and>
    h_pc v = h_sepc h \<and> h_user v = (\<not> h_spp h))"
proof -
  let ?sp = "get SP h - 256"
  let ?f = "\<lambda>k. tr (h_satp h) (?sp + k)"
  define h1 where "h1 = put SP ?sp h"
  define g where "g = h1\<lparr>h_mem := stores ?f (\<lambda>r. get r h1) kv_saved (h_mem h)\<rparr>"
  have save: "exec tr kernelvec_save h = g"
    unfolding kernelvec_split g_def h1_def by (simp add: exec_sd_all)
  define k where "k = kerneltrap g"
  have kept: "\<And>r. r \<in> {SP, S0, S1, S2, S3, S4, S5, S6, S7, S8, S9, S10, S11} \<Longrightarrow> get r k = get r g"
    "\<And>j. j < 256 \<Longrightarrow> load64 (h_mem k) (tr (h_satp k) (get SP g + j)) = load64 (h_mem g) (tr (h_satp g) (get SP g + j))"
    "h_sepc k = h_sepc g" "h_spp k = h_spp g"
    using assms(2) unfolding save k_def [symmetric] returns_well_def by blast+
  have g: "get r g = get r h1" "h_satp g = h_satp h" "h_sepc g = h_sepc h" "h_spp g = h_spp h" "get SP g = ?sp" for r by (simp_all add: g_def h1_def)
  have spk: "get SP k = ?sp" using kept(1) [of SP] g(5) by simp
  have slot: "load64 (h_mem k) (tr (h_satp k) (get SP k + j)) = get r h1" if rj: "(r, j) \<in> set kv_slots" for r j
  proof -
    have "(r, j) \<in> set kv_saved" using kv_facts(5) rj by blast
    from stores_slot [OF assms(1) [unfolded frame_mapped_def] this, of "\<lambda>r. get r h1" "h_mem h"]
    have "load64 (h_mem g) (?f j) = get r h1" by (simp add: g_def)
    then show ?thesis using kept(2) [OF kv_facts(6) [OF rj]] g(2,5) spk by simp
  qed
  note v = kv_restore_run [of k tr "\<lambda>r. get r h1", OF slot]
  have "get r k = get r h" if "r \<noteq> TP" "r \<noteq> X0" "r \<notin> fst ` set kv_slots" "r \<noteq> SP" for r
    using kv_rest [OF that(2,1,3)] kept(1) [of r] g(1) [of r] that(4) by (auto simp: h1_def)
  moreover have "TP \<notin> fst ` set kv_slots" by (simp add: kv_slots_def)
  ultimately show ?thesis
    unfolding kernelvec_def save k_def [symmetric] Let_def using v spk kept(3,4) g kv_facts(2) by (auto simp: h1_def)
qed

subsection \<open>The first instructions\<close>

text \<open>Hart \<open>i\<close> gets the \<open>i\<close>-th page of \<^verbatim>\<open>stack0\<close>, its stack pointer at the end of it.\<close>

lemma entry_run:
  "get SP (exec tr (entry stack0 start) h) = stack0 + 4096 * (h_id h + 1)" "h_pc (exec tr (entry stack0 start) h) = start"
  by (simp_all add: entry_def)

subsection \<open>Witnesses\<close>

definition demo_hart :: hart where
  "demo_hart = \<lparr>h_reg = (\<lambda>r. case r of S3 \<Rightarrow> 33 | A0 \<Rightarrow> 0x1000 | A1 \<Rightarrow> 0x2000 | RA \<Rightarrow> 77 | SP \<Rightarrow> 0x9000 | _ \<Rightarrow> 5), h_mem = (\<lambda>_. 0),
     h_satp = 9, h_sscratch = 0, h_id = 1, h_sepc = 64, h_spp = True, h_pc = 0, h_user = False\<rparr>"

text \<open>The kernel of the witness overwrites every register and stores the answer 42 of a system call in the trap frame.\<close>

theorem trap_roundtrip_witness:
  "(let tr = (\<lambda>_ a. a - TRAPFRAME + 0x87000000); u = exec tr uservec demo_hart;
      v = exec tr userret (u\<lparr>h_reg := \<lambda>_. 9, h_mem := store64 (h_mem u) (0x87000000 + TF_a0) 42\<rparr>)
    in get S3 v = 33 \<and> get A0 v = 42)"
proof -
  let ?tr = "\<lambda>_ a. a - TRAPFRAME + 0x87000000 :: u64"
  let ?u = "exec ?tr uservec demo_hart"
  let ?g = "?u\<lparr>h_reg := \<lambda>_. 9, h_mem := store64 (h_mem ?u) (0x87000000 + TF_a0) 42\<rparr>"
  have m: "maps_trapframe ?tr (h_satp demo_hart) 0x87000000" by (simp add: maps_trapframe_def)
  have a: "get A0 ?g = h_satp demo_hart" by (simp add: get_def demo_hart_def)
  have k: "\<forall>k. 40 \<le> k \<longrightarrow> k < TF_size \<longrightarrow> unat k mod 8 = 0 \<longrightarrow> k \<noteq> TF_a0 \<longrightarrow>
      load64 (h_mem ?g) (0x87000000 + k) = load64 (h_mem ?u) (0x87000000 + k)"
  proof (intro allI impI)
    fix k :: u64 assume k: "unat k mod 8 = 0" "k \<noteq> TF_a0"
    have "cell (0x87000000 + k) = 0x87000000 + k" "cell (0x87000000 + TF_a0) = 0x87000000 + TF_a0"
      using k(1) by (intro cell_slot; simp)+
    then have "cell (0x87000000 + k) \<noteq> cell (0x87000000 + TF_a0)" using k(2) by simp
    then show "load64 (h_mem ?g) (0x87000000 + k) = load64 (h_mem ?u) (0x87000000 + k)" by (simp add: load64_store64)
  qed
  have "get S3 (exec ?tr userret ?g) = get S3 demo_hart" "get A0 (exec ?tr userret ?g) = 42"
    using trap_roundtrip [OF m a k] by (simp_all add: Let_def load64_store64)
  then show ?thesis by (simp add: demo_hart_def get_def Let_def)
qed

theorem swtch_resumes_witness:
  "h_pc (exec (\<lambda>_ a. a) swtch ((exec (\<lambda>_ a. a) swtch demo_hart)\<lparr>h_reg := (\<lambda>_. 0)(A0 := 0x2000, A1 := 0x1000)\<rparr>)) = 77"
proof -
  let ?tr = "\<lambda>_ a. a :: u64"
  let ?g = "(exec ?tr swtch demo_hart)\<lparr>h_reg := (\<lambda>_. 0)(A0 := 0x2000, A1 := 0x1000)\<rparr>"
  have d: "get A0 demo_hart = 0x1000" "get A1 demo_hart = 0x2000" "get RA demo_hart = 77" by (simp_all add: get_def demo_hart_def)
  have g: "get A0 ?g = 0x2000" "get A1 ?g = 0x1000" by (simp_all add: get_def)
  have c: "context_at ?tr pt 0x1000" "context_at ?tr pt 0x2000" for pt by (simp_all add: context_at_def)
  have p: "apart 0x1000 0x2000" "apart 0x2000 0x1000" by (rule apart_far, simp, simp)+
  show ?thesis
    using swtch_resumes [of ?tr demo_hart ?g, unfolded d g] c p by (simp add: Let_def)
qed

theorem kernelvec_transparent_witness:
  "get A0 (kernelvec (\<lambda>_ a. a) (\<lambda>g. g\<lparr>h_reg := (h_reg g)(A0 := 0, T0 := 0, TP := 3)\<rparr>) demo_hart) = 0x1000"
proof -
  let ?tr = "\<lambda>_ a. a :: u64" and ?k = "\<lambda>g. g\<lparr>h_reg := (h_reg g)(A0 := 0, T0 := 0, TP := 3)\<rparr>"
  have s: "get SP demo_hart - 256 = 0x8F00" by (simp add: get_def demo_hart_def)
  have f: "frame_mapped ?tr (h_satp demo_hart) (get SP demo_hart - 256)"
    unfolding frame_mapped_def s by (simp add: kv_saved_def kv_slots_def cell_aligned)
  have r: "returns_well ?tr g (?k g)" for g by (simp add: returns_well_def get_def)
  have "get A0 (kernelvec ?tr ?k demo_hart) = get A0 demo_hart"
    using kernelvec_transparent [where kerneltrap = ?k, OF f r] by (simp add: Let_def)
  then show ?thesis by (simp add: get_def demo_hart_def)
qed

end
