(* ===== verification/Tools.thy ===== *)
theory Tools
  imports Ulib
begin

section \<open>User programs (\<^verbatim>\<open>user/wc.c\<close>, \<^verbatim>\<open>cat.c\<close>, \<^verbatim>\<open>echo.c\<close>, \<^verbatim>\<open>ls.c\<close>, \<^verbatim>\<open>init.c\<close> and small ones)\<close>

text \<open>
  What a program sees of the system: what the reads of a descriptor give, in pieces (a file is one piece, a console or a pipe gives its bytes
  as they come; an empty piece is an end of file), which paths can be opened and what reads of them will give, what \<^verbatim>\<open>stat\<close> says of a path,
  how many bytes the standard output still takes.  The bytes that were written are kept, and the other calls in their order.
\<close>

record stat =
  st_type :: u16
  st_ino :: u32
  st_size :: u64

datatype syscl = Kill int | Link "u8 list" "u8 list" | Unlink "u8 list" | Mkdir "u8 list" | TraceMask int | ExecCall "u8 list" "u8 list list"

record usys =
  w_fd :: "int \<Rightarrow> u8 list list option"
  w_fdstat :: "int \<Rightarrow> stat option"
  w_open :: "u8 list \<Rightarrow> u8 list list option"
  w_stat :: "u8 list \<Rightarrow> stat option"
  w_ok :: "syscl \<Rightarrow> bool"
  w_room :: nat
  w_out :: "u8 list"
  w_err :: "u8 list"
  w_calls :: "syscl list"

datatype 'a ures = Exited int usys | Back 'a usys

type_synonym 'a um = "usys \<Rightarrow> 'a ures"

definition uret :: "'a \<Rightarrow> 'a um" where
  "uret x = Back x"

definition ubnd :: "'a um \<Rightarrow> ('a \<Rightarrow> 'b um) \<Rightarrow> 'b um" where
  "ubnd m f s = (case m s of Exited c t \<Rightarrow> Exited c t | Back x t \<Rightarrow> f x t)"

abbreviation useq :: "'a um \<Rightarrow> 'b um \<Rightarrow> 'b um" where
  "useq m n \<equiv> ubnd m (\<lambda>_. n)"

definition uexit :: "int \<Rightarrow> 'a um" where
  "uexit c = Exited c"

primrec ueach :: "'i list \<Rightarrow> ('i \<Rightarrow> unit um) \<Rightarrow> unit um" where
  "ueach [] f = uret ()"
| "ueach (i # is) f = useq (f i) (ueach is f)"

text \<open>The descriptor of a path that is opened is the lowest from 3 on that is free.\<close>

definition u_read :: "int \<Rightarrow> nat \<Rightarrow> u8 list option um" where
  "u_read fd n s =
     (case w_fd s fd of
        None \<Rightarrow> Back None s
      | Some [] \<Rightarrow> Back (Some []) s
      | Some (p # ps) \<Rightarrow>
          Back (Some (take n p)) (s\<lparr>w_fd := (w_fd s)(fd \<mapsto> (if length p \<le> n then ps else drop n p # ps))\<rparr>))"

definition u_write :: "int \<Rightarrow> u8 list \<Rightarrow> int um" where
  "u_write fd bs s =
     (if fd = 1 then Back (if length bs \<le> w_room s then int (length bs) else -1)
            (s\<lparr>w_out := w_out s @ take (w_room s) bs, w_room := w_room s - length bs\<rparr>)
      else if fd = 2 then Back (int (length bs)) (s\<lparr>w_err := w_err s @ bs\<rparr>)
      else Back (-1) s)"

definition u_open :: "u8 list \<Rightarrow> int um" where
  "u_open path s =
     (case w_open s path of
        None \<Rightarrow> Back (-1) s
      | Some ps \<Rightarrow>
          (case find (\<lambda>i. w_fd s (int i) = None) [3..<16] of
             None \<Rightarrow> Back (-1) s
           | Some i \<Rightarrow> Back (int i) (s\<lparr>w_fd := (w_fd s)(int i \<mapsto> ps), w_fdstat := (w_fdstat s)(int i := w_stat s path)\<rparr>)))"

definition u_close :: "int \<Rightarrow> unit um" where
  "u_close fd s = Back () (s\<lparr>w_fd := (w_fd s)(fd := None)\<rparr>)"

definition u_fstat :: "int \<Rightarrow> stat option um" where
  "u_fstat fd s = Back (w_fdstat s fd) s"

definition u_call :: "syscl \<Rightarrow> int um" where
  "u_call c s = Back (if w_ok s c then 0 else -1) (s\<lparr>w_calls := w_calls s @ [c]\<rparr>)"

text \<open>\<^verbatim>\<open>printf\<close> writes byte by byte and does not look at the answers.\<close>

definition put_bytes_to :: "int \<Rightarrow> u8 list \<Rightarrow> unit um" where
  "put_bytes_to fd bs = ueach bs (\<lambda>b. useq (u_write fd [b]) (uret ()))"

definition lit :: "string \<Rightarrow> u8 list" where
  "lit s = map (\<lambda>c. of_nat (of_char c)) s"

definition u_printf :: "int \<Rightarrow> u8 list \<Rightarrow> parg list \<Rightarrow> unit um" where
  "u_printf fd fmt as = (case vprintf fmt as of None \<Rightarrow> uexit (-1) | Some bs \<Rightarrow> put_bytes_to fd bs)"

subsection \<open>\<^verbatim>\<open>cat\<close>\<close>

definition pending :: "int \<Rightarrow> usys \<Rightarrow> nat" where
  "pending fd s = (case w_fd s fd of None \<Rightarrow> 0 | Some ps \<Rightarrow> length (concat ps))"

lemma read_pending: "u_read fd n s = Back (Some bs) t \<Longrightarrow> 0 < n \<Longrightarrow> bs \<noteq> [] \<Longrightarrow> pending fd t < pending fd s"
  by (auto simp: u_read_def pending_def split: option.splits list.splits if_splits)

lemma write_pending [simp]: "u_write fd' bs s = Back r t \<Longrightarrow> pending fd t = pending fd s"
  by (auto simp: u_write_def pending_def split: if_splits)

text \<open>The answer of the last read says how the loop ended.\<close>

function cat_loop :: "int \<Rightarrow> u8 list option um" where
  "cat_loop fd s =
     (case u_read fd 512 s of
        Exited c t \<Rightarrow> Exited c t
      | Back r t \<Rightarrow>
          if r \<noteq> None \<and> r \<noteq> Some [] then
            (case u_write 1 (the r) t of
               Exited c v \<Rightarrow> Exited c v
             | Back n v \<Rightarrow>
                 if n \<noteq> int (length (the r)) then ubnd (u_printf 2 (lit ''cat: write error'' @ [10]) []) (\<lambda>_. uexit 1) v
                 else cat_loop fd v)
          else Back r t)"
  by pat_completeness auto
termination
  by (relation "measure (\<lambda>(fd, s). pending fd s)") (auto dest: read_pending [where n = 512])

declare cat_loop.simps [simp del]

definition cat :: "int \<Rightarrow> unit um" where
  "cat fd = ubnd (cat_loop fd) (\<lambda>r.
     if r = None then useq (u_printf 2 (lit ''cat: read error'' @ [10]) []) (uexit 1) else uret ())"

definition cat_file :: "u8 list \<Rightarrow> unit um" where
  "cat_file p = ubnd (u_open p) (\<lambda>fd.
     if fd < 0 then useq (u_printf 2 (lit ''cat: cannot open %s'' @ [10]) [PStr (Some p)]) (uexit 1)
     else useq (cat fd) (u_close fd))"

text \<open>The arguments are those behind the name of the program.\<close>

definition cat_main :: "u8 list list \<Rightarrow> unit um" where
  "cat_main args = (if args = [] then useq (cat 0) (uexit 0) else useq (ueach args cat_file) (uexit 0))"

subsection \<open>\<^verbatim>\<open>wc\<close>\<close>

text \<open>Lines, words, characters, and whether the last character is in a word.\<close>

type_synonym counts = "u32 \<times> u32 \<times> u32 \<times> bool"

definition wc_char :: "u8 \<Rightarrow> counts \<Rightarrow> counts" where
  "wc_char b = (\<lambda>(l, w, c, inword).
     let c = c + 1; l = (if b = 10 then l + 1 else l) in
     if strchr [32, 13, 9, 10, 11, 0] b \<noteq> Some None then (l, w, c, False)
     else if \<not> inword then (l, w + 1, c, True)
     else (l, w, c, inword))"

function wc_loop :: "int \<Rightarrow> counts \<Rightarrow> (u8 list option \<times> counts) um" where
  "wc_loop fd a s =
     (case u_read fd 512 s of
        Exited c t \<Rightarrow> Exited c t
      | Back r t \<Rightarrow>
          if r \<noteq> None \<and> r \<noteq> Some [] then wc_loop fd (fold wc_char (the r) a) t
          else Back (r, a) t)"
  by pat_completeness auto
termination
  by (relation "measure (\<lambda>(fd, a, s). pending fd s)") (auto dest: read_pending [where n = 512])

declare wc_loop.simps [simp del]

definition wc :: "int \<Rightarrow> u8 list \<Rightarrow> unit um" where
  "wc fd name = ubnd (wc_loop fd (0, 0, 0, False)) (\<lambda>(r, l, w, c, _).
     if r = None then useq (u_printf 1 (lit ''wc: read error'' @ [10]) []) (uexit 1)
     else u_printf 1 (lit ''%d %d %d %s'' @ [10]) [PVal (ucast l), PVal (ucast w), PVal (ucast c), PStr (Some name)])"

definition wc_file :: "u8 list \<Rightarrow> unit um" where
  "wc_file p = ubnd (u_open p) (\<lambda>fd.
     if fd < 0 then useq (u_printf 1 (lit ''wc: cannot open %s'' @ [10]) [PStr (Some p)]) (uexit 1)
     else useq (wc fd p) (u_close fd))"

definition wc_main :: "u8 list list \<Rightarrow> unit um" where
  "wc_main args = (if args = [] then useq (wc 0 []) (uexit 0) else useq (ueach args wc_file) (uexit 0))"

subsection \<open>\<^verbatim>\<open>echo\<close> and the programs of one call\<close>

primrec echo_args :: "u8 list list \<Rightarrow> unit um" where
  "echo_args [] = uret ()"
| "echo_args (a # as) =
     useq (u_write 1 a) (
     useq (if as \<noteq> [] then u_write 1 [32] else u_write 1 [10])
          (echo_args as))"

definition echo_main :: "u8 list list \<Rightarrow> unit um" where
  "echo_main args = useq (echo_args args) (uexit 0)"

text \<open>A number that does not fit makes \<open>atoi\<close> undefined: None.\<close>

definition kill_main :: "u8 list list \<Rightarrow> unit um" where
  "kill_main args =
     (if args = [] then useq (u_printf 2 (lit ''usage: kill pid...'' @ [10]) []) (uexit 1)
      else useq (ueach args (\<lambda>a. case atoi (a @ [0]) of None \<Rightarrow> uexit (-1) | Some n \<Rightarrow> useq (u_call (Kill n)) (uret ()))) (uexit 0))"

definition ln_main :: "u8 list list \<Rightarrow> unit um" where
  "ln_main args =
     (case args of
        [old, new] \<Rightarrow>
          useq (ubnd (u_call (Link old new)) (\<lambda>r.
            if r < 0 then u_printf 2 (lit ''link %s %s: failed'' @ [10]) [PStr (Some old), PStr (Some new)] else uret ()))
          (uexit 0)
      | _ \<Rightarrow> useq (u_printf 2 (lit ''Usage: ln old new'' @ [10]) []) (uexit 1))"

text \<open>\<^verbatim>\<open>rm\<close> and \<^verbatim>\<open>mkdir\<close> stop at the first name that fails.\<close>

primrec rm_args :: "u8 list list \<Rightarrow> unit um" where
  "rm_args [] = uret ()"
| "rm_args (a # as) = ubnd (u_call (Unlink a)) (\<lambda>r.
     if r < 0 then u_printf 2 (lit ''rm: %s failed to delete'' @ [10]) [PStr (Some a)] else rm_args as)"

definition rm_main :: "u8 list list \<Rightarrow> unit um" where
  "rm_main args =
     (if args = [] then useq (u_printf 2 (lit ''Usage: rm files...'' @ [10]) []) (uexit 1) else useq (rm_args args) (uexit 0))"

primrec mkdir_args :: "u8 list list \<Rightarrow> unit um" where
  "mkdir_args [] = uret ()"
| "mkdir_args (a # as) = ubnd (u_call (Mkdir a)) (\<lambda>r.
     if r < 0 then u_printf 2 (lit ''mkdir: %s failed to create'' @ [10]) [PStr (Some a)] else mkdir_args as)"

definition mkdir_main :: "u8 list list \<Rightarrow> unit um" where
  "mkdir_main args =
     (if args = [] then useq (u_printf 2 (lit ''Usage: mkdir files...'' @ [10]) []) (uexit 1) else useq (mkdir_args args) (uexit 0))"

text \<open>
  \<open>argv\<close> is the whole argument vector here; the kernel passes at most 32 words, so that the zero behind the last falls into the array.
  A successful \<^verbatim>\<open>exec\<close> does not come back: it ends the run of this program with the call in \<open>w_calls\<close>.
\<close>

definition trace_main :: "u8 list list \<Rightarrow> unit um" where
  "trace_main argv =
     (if length argv < 3 \<or> (let c = hd (argv ! 1 @ [0]) in c < 48 \<or> 57 < c) then
        useq (u_printf 2 (lit ''Usage: %s mask command'' @ [10]) [PStr (Some (argv ! 0))]) (uexit 1)
      else case atoi (argv ! 1 @ [0]) of None \<Rightarrow> uexit (-1)
      | Some m \<Rightarrow>
          ubnd (u_call (TraceMask m)) (\<lambda>r.
          if r < 0 then useq (u_printf 2 (lit ''%s: trace failed'' @ [10]) [PStr (Some (argv ! 0))]) (uexit 1)
          else
            let nargv = take 30 (drop 2 argv) in
            ubnd (u_call (ExecCall (hd nargv) nargv)) (\<lambda>r.
            if r \<ge> 0 then uexit 0
            else useq (u_printf 1 (lit ''trace: exec failed'' @ [10]) []) (uexit 0))))"

subsection \<open>\<^verbatim>\<open>ls\<close>\<close>

text \<open>The index behind the last slash at or before \<open>i\<close>, 0 when there is none.\<close>

primrec behind_slash :: "u8 list \<Rightarrow> nat \<Rightarrow> nat" where
  "behind_slash p 0 = (if p ! 0 \<noteq> 47 then 0 else 1)"
| "behind_slash p (Suc i) = (if p ! Suc i \<noteq> 47 then behind_slash p i else Suc (Suc i))"

definition fmtname :: "u8 list \<Rightarrow> u8 list" where
  "fmtname path =
     (let p = drop (behind_slash (path @ [0]) (length path)) path in
      if length p \<ge> 14 then p else p @ replicate (14 - length p) 32)"

definition u_stat :: "u8 list \<Rightarrow> stat option um" where
  "u_stat path = ubnd (u_open path) (\<lambda>fd.
     if fd < 0 then uret None
     else ubnd (u_fstat fd) (\<lambda>r. useq (u_close fd) (uret r)))"

definition print_stat :: "u8 list \<Rightarrow> stat \<Rightarrow> unit um" where
  "print_stat path st =
     u_printf 1 (lit ''%s %d %d %d'' @ [10]) [PStr (Some (fmtname path)), PVal (scast (st_type st)), PVal (ucast (st_ino st)), PVal (st_size st)]"

text \<open>The path of an entry is the directory, a slash and the 14 bytes of its name up to a zero.\<close>

definition entry_path :: "u8 list \<Rightarrow> u8 list \<Rightarrow> u8 list" where
  "entry_path path de = path @ 47 # takeWhile (\<lambda>b. b \<noteq> 0) (take 14 (drop 2 de))"

definition ls_entry :: "u8 list \<Rightarrow> u8 list \<Rightarrow> unit um" where
  "ls_entry path de =
     (if de ! 0 = 0 \<and> de ! 1 = 0 then uret ()
      else ubnd (u_stat (entry_path path de)) (\<lambda>r.
        case r of None \<Rightarrow> u_printf 1 (lit ''ls: cannot stat %s'' @ [10]) [PStr (Some (entry_path path de))]
        | Some st \<Rightarrow> print_stat (entry_path path de) st))"

lemma write_fd: "u_write f bs s = Back r t \<Longrightarrow> w_fd t = w_fd s"
  by (auto simp: u_write_def split: if_splits)

lemma printf_fd: "u_printf f fmt as s = Back r t \<Longrightarrow> w_fd t = w_fd s"
proof -
  have "put_bytes_to f bs s = Back r t \<Longrightarrow> w_fd t = w_fd s" for bs and s :: usys
    by (induction bs arbitrary: s) (auto simp: put_bytes_to_def ubnd_def uret_def dest!: write_fd split: ures.splits)
  then show "u_printf f fmt as s = Back r t \<Longrightarrow> w_fd t = w_fd s"
    by (auto simp: u_printf_def uexit_def split: option.splits)
qed

lemma stat_fd: "u_stat path s = Back r t \<Longrightarrow> w_fd t = w_fd s"
  by (auto simp: u_stat_def ubnd_def uret_def u_open_def u_fstat_def u_close_def find_Some_iff fun_eq_iff split: option.splits if_splits)

lemma entry_fd: "ls_entry path de s = Back r t \<Longrightarrow> w_fd t = w_fd s"
  by (auto simp: ls_entry_def print_stat_def ubnd_def uret_def dest!: stat_fd printf_fd split: if_splits ures.splits option.splits)

function ls_dir :: "u8 list \<Rightarrow> int \<Rightarrow> unit um" where
  "ls_dir path fd s =
     (case u_read fd 16 s of
        Exited c t \<Rightarrow> Exited c t
      | Back r t \<Rightarrow>
          if r \<noteq> None \<and> length (the r) = 16 then
            (case ls_entry path (the r) t of
               Exited c v \<Rightarrow> Exited c v
             | Back _ v \<Rightarrow> ls_dir path fd v)
          else Back () t)"
  by pat_completeness auto
termination
proof (relation "measure (\<lambda>(path, fd, s). pending fd s)")
  fix path :: "u8 list" and fd :: int and s :: usys and r t u v
  assume a: "u_read fd 16 s = Back r t" "r \<noteq> None \<and> length (the r) = 16" "ls_entry path (the r) t = Back u v"
  from a(2) obtain bs where r: "r = Some bs" "length bs = 16" by (cases r) simp_all
  have "pending fd t < pending fd s" using read_pending [of fd 16 s bs t] a(1) r by (cases bs) auto
  moreover have "pending fd v = pending fd t" using entry_fd [OF a(3)] by (simp add: pending_def)
  ultimately show "((path, fd, v), path, fd, s) \<in> measure (\<lambda>(path, fd, s). pending fd s)" by simp
qed simp

declare ls_dir.simps [simp del]

definition ls :: "u8 list \<Rightarrow> unit um" where
  "ls path = ubnd (u_open path) (\<lambda>fd.
     if fd < 0 then u_printf 2 (lit ''ls: cannot open %s'' @ [10]) [PStr (Some path)]
     else ubnd (u_fstat fd) (\<lambda>r.
       case r of
         None \<Rightarrow> useq (u_printf 2 (lit ''ls: cannot stat %s'' @ [10]) [PStr (Some path)]) (u_close fd)
       | Some st \<Rightarrow>
           useq (if st_type st = 2 \<or> st_type st = 3 then print_stat path st
             else if st_type st = 1 then
               (if length path + 1 + 14 + 1 > 512 then u_printf 1 (lit ''ls: path too long'' @ [10]) [] else ls_dir path fd)
             else uret ())
           (u_close fd)))"

definition ls_main :: "u8 list list \<Rightarrow> unit um" where
  "ls_main args = (if args = [] then useq (ls [46]) (uexit 0) else useq (ueach args ls) (uexit 0))"

subsection \<open>What the loops read\<close>

text \<open>The bytes up to the end of file.\<close>

definition stream :: "u8 list list \<Rightarrow> u8 list" where
  "stream ps = concat (takeWhile (\<lambda>p. p \<noteq> []) ps)"

definition rest_of :: "u8 list list \<Rightarrow> u8 list list" where
  "rest_of ps = dropWhile (\<lambda>p. p \<noteq> []) ps"

lemma u_simps [simp]:
  "ubnd m f s = (case m s of Exited c t \<Rightarrow> Exited c t | Back x t \<Rightarrow> f x t)" "uret x s = Back x s" "uexit c s = Exited c s"
  by (simp_all add: ubnd_def uret_def uexit_def)

definition after :: "int \<Rightarrow> u8 list list \<Rightarrow> usys \<Rightarrow> usys" where
  "after fd ps s = s\<lparr>w_fd := (w_fd s)(fd \<mapsto> ps)\<rparr>"

lemma after_simps [simp]: "w_fd (after fd ps s) fd = Some ps" "after fd ps (after fd qs s) = after fd ps s" "w_out (after fd ps s) = w_out s"
  "w_room (after fd ps s) = w_room s" "after fd ps (s\<lparr>w_out := o', w_room := r\<rparr>) = (after fd ps s)\<lparr>w_out := o', w_room := r\<rparr>"
  by (simp_all add: after_def)

text \<open>A read of at most \<open>n\<close> bytes before the end of file.\<close>

lemma read_some:
  assumes "w_fd s fd = Some ps" and "0 < n"
  shows "(case ps of p # qs \<Rightarrow> p \<noteq> [] | [] \<Rightarrow> False) \<Longrightarrow> \<exists>bs qs. u_read fd n s = Back (Some bs) (after fd qs s) \<and> bs \<noteq> [] \<and>
      stream ps = bs @ stream qs \<and> rest_of qs = rest_of ps"
    and "\<not> (case ps of p # qs \<Rightarrow> p \<noteq> [] | [] \<Rightarrow> False) \<Longrightarrow> u_read fd n s = Back (Some []) (after fd (tl ps) s) \<and> stream ps = [] \<and> rest_of ps = ps"
proof -
  assume "case ps of p # qs \<Rightarrow> p \<noteq> [] | [] \<Rightarrow> False"
  then obtain p qs where p: "ps = p # qs" "p \<noteq> []" by (auto split: list.splits)
  show "\<exists>bs qs. u_read fd n s = Back (Some bs) (after fd qs s) \<and> bs \<noteq> [] \<and> stream ps = bs @ stream qs \<and> rest_of qs = rest_of ps"
  proof (cases "length p \<le> n")
    case True
    then show ?thesis using assms p by (intro exI [of _ p] exI [of _ qs]) (simp add: u_read_def after_def stream_def rest_of_def)
  next
    case False
    then show ?thesis using assms p
      by (intro exI [of _ "take n p"] exI [of _ "drop n p # qs"]) (simp add: u_read_def after_def stream_def rest_of_def)
  qed
next
  assume "\<not> (case ps of p # qs \<Rightarrow> p \<noteq> [] | [] \<Rightarrow> False)"
  then show "u_read fd n s = Back (Some []) (after fd (tl ps) s) \<and> stream ps = [] \<and> rest_of ps = ps"
    using assms by (cases ps) (auto simp: u_read_def after_def stream_def rest_of_def fun_upd_idem)
qed

lemma wc_loop_run:
  assumes "w_fd s fd = Some ps"
  shows "wc_loop fd a s = Back (Some [], fold wc_char (stream ps) a) (after fd (tl (rest_of ps)) s)"
  using assms
proof (induction fd a s arbitrary: ps rule: wc_loop.induct)
  case (1 fd a s)
  show ?case
  proof (cases "case ps of p # qs \<Rightarrow> p \<noteq> [] | [] \<Rightarrow> False")
    case True
    then obtain bs qs where r: "u_read fd 512 s = Back (Some bs) (after fd qs s)" "bs \<noteq> []" "stream ps = bs @ stream qs" "rest_of qs = rest_of ps"
      using read_some(1) [OF 1(2), of 512] by auto
    have "wc_loop fd (fold wc_char bs a) (after fd qs s) = Back (Some [], fold wc_char (stream qs) (fold wc_char bs a)) (after fd (tl (rest_of ps)) s)"
      using 1(1) [OF r(1), of qs] r by simp
    then show ?thesis using r by (simp add: wc_loop.simps [of fd a s])
  next
    case False
    then show ?thesis using read_some(2) [OF 1(2), of 512] by (auto simp: wc_loop.simps [of fd a s])
  qed
qed

lemma write_out: "length bs \<le> w_room s \<Longrightarrow> u_write 1 bs s = Back (int (length bs)) (s\<lparr>w_out := w_out s @ bs, w_room := w_room s - length bs\<rparr>)"
  by (simp add: u_write_def)

lemma put_bytes_run:
  "length bs \<le> w_room s \<Longrightarrow> put_bytes_to 1 bs s = Back () (s\<lparr>w_out := w_out s @ bs, w_room := w_room s - length bs\<rparr>)"
proof (induction bs arbitrary: s)
  case (Cons b bs)
  then show ?case by (simp add: put_bytes_to_def write_out)
qed (simp add: put_bytes_to_def)

lemma cat_loop_run:
  assumes "w_fd s fd = Some ps" and "length (stream ps) \<le> w_room s"
  shows "cat_loop fd s = Back (Some []) (after fd (tl (rest_of ps)) (s\<lparr>w_out := w_out s @ stream ps, w_room := w_room s - length (stream ps)\<rparr>))"
  using assms
proof (induction fd s arbitrary: ps rule: cat_loop.induct)
  case (1 fd s)
  show ?case
  proof (cases "case ps of p # qs \<Rightarrow> p \<noteq> [] | [] \<Rightarrow> False")
    case True
    then obtain bs qs where r: "u_read fd 512 s = Back (Some bs) (after fd qs s)" "bs \<noteq> []" "stream ps = bs @ stream qs" "rest_of qs = rest_of ps"
      using read_some(1) [OF 1(2), of 512] by auto
    define v where "v = (after fd qs s)\<lparr>w_out := w_out s @ bs, w_room := w_room s - length bs\<rparr>"
    have w: "u_write 1 (the (Some bs)) (after fd qs s) = Back (int (length bs)) v" using write_out [of bs "after fd qs s"] 1(3) r(3) by (simp add: v_def)
    have v: "w_fd v fd = Some qs" "length (stream qs) \<le> w_room v" using 1(3) r(3) by (simp_all add: v_def after_def)
    have "cat_loop fd v = Back (Some []) (after fd (tl (rest_of qs)) (v\<lparr>w_out := w_out v @ stream qs, w_room := w_room v - length (stream qs)\<rparr>))"
      by (rule 1(1) [OF r(1) _ w _ v]) (use r(2) in simp_all)
    then show ?thesis using r w by (simp add: cat_loop.simps [of fd s] v_def after_def)
  next
    case False
    then show ?thesis using read_some(2) [OF 1(2), of 512] by (auto simp: cat_loop.simps [of fd s])
  qed
qed

subsection \<open>Counting\<close>

definition blank :: "u8 \<Rightarrow> bool" where
  "blank b \<longleftrightarrow> b \<in> {32, 13, 9, 10, 11}"

text \<open>The words of a text: the longest runs of characters that are not blank.\<close>

function words_of :: "u8 list \<Rightarrow> u8 list list" where
  "words_of xs =
     (let ys = dropWhile blank xs in
      if ys = [] then [] else takeWhile (\<lambda>b. \<not> blank b) ys # words_of (dropWhile (\<lambda>b. \<not> blank b) ys))"
  by pat_completeness auto
termination
proof (relation "measure length", simp, clarsimp)
  fix xs :: "u8 list" and x
  assume "x \<in> set xs" "\<not> blank x"
  then have "dropWhile blank xs \<noteq> []" by (auto simp: dropWhile_eq_Nil_conv)
  moreover have "\<not> blank (hd (dropWhile blank xs))" using hd_dropWhile [OF calculation] .
  ultimately have "length (dropWhile (\<lambda>b. \<not> blank b) (dropWhile blank xs)) < length (dropWhile blank xs)"
    by (cases "dropWhile blank xs") (auto simp: less_Suc_eq_le length_dropWhile_le)
  then show "length (dropWhile (\<lambda>b. \<not> blank b) (dropWhile blank xs)) < length xs"
    using length_dropWhile_le [of blank xs] by linarith
qed

declare words_of.simps [simp del]

lemma words_of_steps [simp]:
  "words_of [] = []" "blank x \<Longrightarrow> words_of (x # xs) = words_of xs"
  "\<not> blank x \<Longrightarrow> words_of (x # xs) = (x # takeWhile (\<lambda>b. \<not> blank b) xs) # words_of (dropWhile (\<lambda>b. \<not> blank b) xs)"
  by (simp add: words_of.simps) (subst words_of.simps, subst (2) words_of.simps, simp, subst words_of.simps, simp)

lemma wc_char_eq: "wc_char b (l, w, c, i) =
  (if b = 10 then l + 1 else l, if \<not> blank b \<and> \<not> i then w + 1 else w, c + 1, \<not> blank b)"
  by (auto simp: wc_char_def Let_def blank_def)

lemma wc_scan:
  "\<exists>j. fold wc_char xs (l, w, c, i) =
    (l + of_nat (count_list xs 10), w + of_nat (length (words_of (if i then dropWhile (\<lambda>b. \<not> blank b) xs else xs))), c + of_nat (length xs), j)"
proof (induction xs arbitrary: l w c i)
  case (Cons x xs)
  have "blank x \<Longrightarrow> dropWhile (\<lambda>b. \<not> blank b) (x # xs) = x # xs" by simp
  then show ?case using Cons.IH [of "if x = 10 then l + 1 else l" "if \<not> blank x \<and> \<not> i then w + 1 else w" "c + 1" "\<not> blank x"]
    by (auto simp: wc_char_eq add_ac)
qed simp

definition decimal :: "nat \<Rightarrow> u8 list" where
  "decimal n = map (\<lambda>k. of_nat (48 + k)) (to_digits 10 n)"

text \<open>The line that \<^verbatim>\<open>wc\<close> prints for a text.\<close>

definition wc_line :: "u8 list \<Rightarrow> u8 list \<Rightarrow> u8 list" where
  "wc_line name cs =
     decimal (count_list cs 10) @ [32] @ decimal (length (words_of cs)) @ [32] @ decimal (length cs) @ [32] @ name @ [10]"

lemma print_decimal:
  assumes "n < 2 ^ 31"
  shows "vprintf (37 # 100 # f) (PVal (ucast (of_nat n :: u32)) # as) = map_option ((@) (decimal n)) (vprintf f as)"
proof -
  have "sint (of_nat n :: u32) = int n" using assms by (simp add: signed_of_nat signed_take_bit_int_eq_self)
  moreover have "ucast (ucast (of_nat n :: u32) :: u64) = (of_nat n :: u32)" by (simp add: ucast_up_ucast_id is_up)
  ultimately have "u_printint (ucast (ucast (of_nat n :: u32) :: u64)) 10 True = Some (decimal n)"
    using u_printint_decimal [of "of_nat n" n] by (simp add: decimal_def)
  then show ?thesis by (simp add: u_conv_def fmt_at_def Let_def u_take_int_def)
qed

lemma vprintf_other: "c \<noteq> 37 \<Longrightarrow> vprintf (c # f) as = map_option ((#) c) (vprintf f as)"
  by simp

lemma vprintf_str: "vprintf (37 # 115 # f) (PStr (Some t) # as) = map_option ((@) t) (vprintf f as)"
  by (simp add: u_conv_def fmt_at_def Let_def)

lemma words_le: "length (words_of xs) \<le> length xs"
proof (induction xs rule: words_of.induct)
  case (1 xs)
  define ys where "ys = dropWhile blank xs"
  have le: "length ys \<le> length xs" by (simp add: ys_def length_dropWhile_le)
  show ?case
  proof (cases "ys = []")
    case False
    then have "\<not> blank (hd ys)" unfolding ys_def by (rule hd_dropWhile)
    then have "length (dropWhile (\<lambda>b. \<not> blank b) ys) < length ys" using False by (cases ys) (auto simp: less_Suc_eq_le length_dropWhile_le)
    moreover have "length (words_of (dropWhile (\<lambda>b. \<not> blank b) ys)) \<le> length (dropWhile (\<lambda>b. \<not> blank b) ys)" using 1 False by (simp add: ys_def)
    ultimately show ?thesis using le False by (simp add: words_of.simps [of xs] ys_def [symmetric])
  qed (simp add: words_of.simps [of xs] ys_def [symmetric])
qed

lemma wc_format:
  assumes "l < 2 ^ 31" "w < 2 ^ 31" "c < 2 ^ 31"
  shows "vprintf (lit ''%d %d %d %s'' @ [10])
      [PVal (ucast (of_nat l :: u32)), PVal (ucast (of_nat w :: u32)), PVal (ucast (of_nat c :: u32)), PStr (Some name)] =
    Some (decimal l @ [32] @ decimal w @ [32] @ decimal c @ [32] @ name @ [10])"
proof -
  have f: "lit ''%d %d %d %s'' @ [10] = [37, 100, 32, 37, 100, 32, 37, 100, 32, 37, 115, 10]" by (simp add: lit_def)
  show ?thesis unfolding f
    by (simp add: print_decimal [OF assms(1)] print_decimal [OF assms(2)] print_decimal [OF assms(3)] vprintf_other vprintf_str del: vprintf.simps(2))
qed

lemma wc_run:
  assumes "w_fd s fd = Some ps" and "length (stream ps) < 2 ^ 31" and "length (wc_line name (stream ps)) \<le> w_room s"
  shows "wc fd name s = Back () (after fd (tl (rest_of ps)) (s\<lparr>w_out := w_out s @ wc_line name (stream ps),
    w_room := w_room s - length (wc_line name (stream ps))\<rparr>))"
proof -
  let ?d = "stream ps"
  obtain j where j: "fold wc_char ?d (0, 0, 0, False) = (of_nat (count_list ?d 10), of_nat (length (words_of ?d)), of_nat (length ?d), j)"
    using wc_scan [of ?d 0 0 0 False] by auto
  have lt: "count_list ?d 10 < 2 ^ 31" "length (words_of ?d) < 2 ^ 31"
    using assms(2) count_le_length [of ?d 10] words_le [of ?d] by linarith+
  have "u_printf 1 (lit ''%d %d %d %s'' @ [10]) [PVal (ucast (of_nat (count_list ?d 10) :: u32)), PVal (ucast (of_nat (length (words_of ?d)) :: u32)),
      PVal (ucast (of_nat (length ?d) :: u32)), PStr (Some name)] = put_bytes_to 1 (wc_line name ?d)"
    unfolding u_printf_def wc_format [OF lt assms(2)] wc_line_def by simp
  then show ?thesis
    using assms(3) put_bytes_run [of "wc_line name ?d" "after fd (tl (rest_of ps)) s"]
    by (simp add: wc_def wc_loop_run [OF assms(1)] j del: fold_simps)
qed

subsection \<open>A program over its files\<close>

text \<open>What the file of a path holds, and a world in which every path of the arguments can be opened.\<close>

definition text_of :: "usys \<Rightarrow> u8 list \<Rightarrow> u8 list" where
  "text_of s p = stream (the (w_open s p))"

definition can_read :: "usys \<Rightarrow> u8 list list \<Rightarrow> bool" where
  "can_read s args \<longleftrightarrow> w_fd s 3 = None \<and> (\<forall>p \<in> set args. w_open s p \<noteq> None)"

lemma open_run:
  assumes "w_fd s 3 = None" and "w_open s p = Some ps"
  shows "u_open p s = Back 3 (s\<lparr>w_fd := (w_fd s)(3 \<mapsto> ps), w_fdstat := (w_fdstat s)(3 := w_stat s p)\<rparr>)"
  using assms by (simp add: u_open_def upt_rec)

lemma ueach_files:
  assumes "\<And>p t. p \<in> set ps \<Longrightarrow> w_fd t = w_fd s \<Longrightarrow> w_open t = w_open s \<Longrightarrow> length (g p) \<le> w_room t \<Longrightarrow>
      \<exists>u. f p t = Back () u \<and> w_fd u = w_fd s \<and> w_open u = w_open s \<and> w_out u = w_out t @ g p \<and> w_room u = w_room t - length (g p)"
    and "w_fd t = w_fd s" "w_open t = w_open s" and "length (concat (map g ps)) \<le> w_room t"
  shows "\<exists>u. ueach ps f t = Back () u \<and> w_out u = w_out t @ concat (map g ps)"
  using assms
proof (induction ps arbitrary: t)
  case (Cons p ps)
  have "length (g p) \<le> w_room t" using Cons.prems(4) by simp
  then obtain u where u: "f p t = Back () u" "w_fd u = w_fd s" "w_open u = w_open s" "w_out u = w_out t @ g p" "w_room u = w_room t - length (g p)"
    using Cons.prems(1) [of p t] Cons.prems(2,3) by auto
  have "\<exists>v. ueach ps f u = Back () v \<and> w_out v = w_out u @ concat (map g ps)"
    by (rule Cons.IH) (use Cons.prems u in auto)
  then show ?case using u by auto
qed simp

lemma file_step:
  assumes o3: "w_fd s 3 = None" "w_open s p = Some ps" and st: "w_fd t = w_fd s" "w_open t = w_open s" and room: "length o' \<le> w_room t"
    and body: "\<And>v. w_fd v 3 = Some ps \<Longrightarrow> w_room v = w_room t \<Longrightarrow>
      m 3 v = Back () (after 3 (tl (rest_of ps)) (v\<lparr>w_out := w_out v @ o', w_room := w_room v - length o'\<rparr>))"
  shows "\<exists>u. ubnd (u_open p) (\<lambda>fd. if fd < 0 then n else useq (m fd) (u_close fd)) t = Back () u \<and>
    w_fd u = w_fd s \<and> w_open u = w_open s \<and> w_out u = w_out t @ o' \<and> w_room u = w_room t - length o'"
proof -
  have f: "w_fd t 3 = None" "w_open t p = Some ps" using o3 st by simp_all
  define v where "v = t\<lparr>w_fd := (w_fd t)(3 \<mapsto> ps), w_fdstat := (w_fdstat t)(3 := w_stat t p)\<rparr>"
  have "m 3 v = Back () (after 3 (tl (rest_of ps)) (v\<lparr>w_out := w_out v @ o', w_room := w_room v - length o'\<rparr>))"
    by (rule body) (simp_all add: v_def)
  then show ?thesis using open_run [OF f, folded v_def] f(1) st by (auto simp: u_close_def after_def v_def fun_eq_iff)
qed

text \<open>
  C40: \<^verbatim>\<open>wc\<close> counts, in pieces of 512 bytes and one pass with a flag, what the definition of lines, words and characters says: its output is one
  line for each file, in their order.
\<close>

theorem wc_counts:
  assumes "can_read s args" and "args \<noteq> []" and "\<forall>p \<in> set args. length (text_of s p) < 2 ^ 31"
    and "length (concat (map (\<lambda>p. wc_line p (text_of s p)) args)) \<le> w_room s"
  shows "\<exists>t. wc_main args s = Exited 0 t \<and> w_out t = w_out s @ concat (map (\<lambda>p. wc_line p (text_of s p)) args)"
proof -
  have "\<exists>u. ueach args wc_file s = Back () u \<and> w_out u = w_out s @ concat (map (\<lambda>p. wc_line p (text_of s p)) args)"
  proof (rule ueach_files [where s = s])
    fix p and t :: usys assume p: "p \<in> set args" and st: "w_fd t = w_fd s" "w_open t = w_open s" and room: "length (wc_line p (text_of s p)) \<le> w_room t"
    then obtain ps where o3: "w_fd s 3 = None" "w_open s p = Some ps" using assms(1) by (auto simp: can_read_def)
    have tx: "text_of s p = stream ps" "length (stream ps) < 2 ^ 31" using o3 assms(3) p by (auto simp: text_of_def)
    show "\<exists>u. wc_file p t = Back () u \<and> w_fd u = w_fd s \<and> w_open u = w_open s \<and> w_out u = w_out t @ wc_line p (text_of s p) \<and>
        w_room u = w_room t - length (wc_line p (text_of s p))"
      unfolding wc_file_def
    proof (rule file_step [OF o3 st room])
      fix v :: usys assume v: "w_fd v 3 = Some ps" "w_room v = w_room t"
      show "wc 3 p v = Back () (after 3 (tl (rest_of ps)) (v\<lparr>w_out := w_out v @ wc_line p (text_of s p), w_room := w_room v - length (wc_line p (text_of s p))\<rparr>))"
        unfolding tx(1) by (rule wc_run [OF v(1) tx(2)]) (use room v(2) in \<open>simp add: tx(1)\<close>)
    qed
  qed (use assms(4) in simp_all)
  then show ?thesis using assms(2) by (auto simp: wc_main_def)
qed

theorem wc_counts_witness:
  "\<exists>t. wc_main [[97]] \<lparr>w_fd = Map.empty, w_fdstat = Map.empty, w_open = [[97] \<mapsto> [[104, 105, 32, 10]]], w_stat = Map.empty, w_ok = (\<lambda>_. True), w_room = 20,
    w_out = [], w_err = [], w_calls = []\<rparr> = Exited 0 t \<and> w_out t = wc_line [97] [104, 105, 32, 10]"
proof -
  let ?s = "\<lparr>w_fd = Map.empty, w_fdstat = Map.empty, w_open = [[97] \<mapsto> [[104, 105, 32, 10]]], w_stat = Map.empty, w_ok = (\<lambda>_. True), w_room = 20,
    w_out = [], w_err = [], w_calls = []\<rparr> :: usys"
  have "text_of ?s [97] = [104, 105, 32, 10]" by (simp add: text_of_def stream_def)
  moreover have "length (wc_line [97] [104, 105, 32, 10]) \<le> 20"
    by (simp add: wc_line_def decimal_def words_of.simps blank_def to_digits.simps)
  ultimately show ?thesis using wc_counts [of ?s "[[97]]"] by (simp add: can_read_def)
qed

text \<open>\<^verbatim>\<open>cat\<close> writes its files one after the other, whatever the pieces in which it reads them.\<close>

theorem cat_concatenates:
  assumes "can_read s args" and "args \<noteq> []" and "length (concat (map (text_of s) args)) \<le> w_room s"
  shows "\<exists>t. cat_main args s = Exited 0 t \<and> w_out t = w_out s @ concat (map (text_of s) args)"
proof -
  have "\<exists>u. ueach args cat_file s = Back () u \<and> w_out u = w_out s @ concat (map (text_of s) args)"
  proof (rule ueach_files [where s = s])
    fix p and t :: usys assume p: "p \<in> set args" and st: "w_fd t = w_fd s" "w_open t = w_open s" and room: "length (text_of s p) \<le> w_room t"
    then obtain ps where o3: "w_fd s 3 = None" "w_open s p = Some ps" using assms(1) by (auto simp: can_read_def)
    have tx: "text_of s p = stream ps" using o3 by (simp add: text_of_def)
    show "\<exists>u. cat_file p t = Back () u \<and> w_fd u = w_fd s \<and> w_open u = w_open s \<and> w_out u = w_out t @ text_of s p \<and>
        w_room u = w_room t - length (text_of s p)"
      unfolding cat_file_def
    proof (rule file_step [OF o3 st room])
      fix v :: usys assume v: "w_fd v 3 = Some ps" "w_room v = w_room t"
      show "cat 3 v = Back () (after 3 (tl (rest_of ps)) (v\<lparr>w_out := w_out v @ text_of s p, w_room := w_room v - length (text_of s p)\<rparr>))"
        using cat_loop_run [OF v(1)] room v(2) tx by (simp add: cat_def)
    qed
  qed (use assms(3) in simp_all)
  then show ?thesis using assms(2) by (auto simp: cat_main_def)
qed

subsection \<open>The listing of a directory\<close>

lemma behind_slash_le: "behind_slash p i \<le> Suc i"
  by (induction i) auto

lemma behind_slash_spec: "(\<forall>j. behind_slash p i \<le> j \<longrightarrow> j \<le> i \<longrightarrow> p ! j \<noteq> 47) \<and> (behind_slash p i = 0 \<or> p ! (behind_slash p i - 1) = 47)"
  by (induction i) (auto simp: le_Suc_eq)

text \<open>The last element of a path, padded with blanks to 14 bytes.\<close>

lemma fmtname_spec:
  "\<exists>dir. (dir = [] \<or> last dir = 47) \<and> (\<exists>nm. path = dir @ nm \<and> 47 \<notin> set nm \<and> fmtname path = nm @ replicate (14 - length nm) 32)"
proof -
  let ?k = "behind_slash (path @ [0]) (length path)"
  have b: "\<forall>j. ?k \<le> j \<longrightarrow> j \<le> length path \<longrightarrow> (path @ [0]) ! j \<noteq> 47" "?k = 0 \<or> (path @ [0]) ! (?k - 1) = 47"
    using behind_slash_spec [of "path @ [0]" "length path"] by blast+
  have k: "?k \<le> length path"
  proof (rule ccontr)
    assume "\<not> ?k \<le> length path"
    then have "?k = Suc (length path)" using behind_slash_le [of "path @ [0]" "length path"] by simp
    then show False using b(2) by simp
  qed
  have "47 \<notin> set (drop ?k path)"
  proof
    assume "47 \<in> set (drop ?k path)"
    then obtain j where j: "j < length path - ?k" "path ! (?k + j) = 47" using k by (auto simp: in_set_conv_nth)
    then have "?k + j < length path" using k by linarith
    then show False using spec [OF b(1), of "?k + j"] j(2) by (simp add: nth_append)
  qed
  moreover have "take ?k path = [] \<or> last (take ?k path) = 47"
  proof (cases "?k = 0")
    case False
    then have "?k - 1 < length path" "path \<noteq> []" using k by auto
    moreover from this False have "last (take ?k path) = path ! (?k - 1)" using k by (subst last_conv_nth) auto
    ultimately show ?thesis using b(2) False by (simp add: nth_append)
  qed simp
  moreover have "fmtname path = drop ?k path @ replicate (14 - length (drop ?k path)) 32"
    by (simp add: fmtname_def Let_def)
  ultimately show ?thesis by (metis append_take_drop_id)
qed

text \<open>The records of a directory and the line for one of them; a free record has no line.\<close>

function records :: "u8 list \<Rightarrow> u8 list list" where
  "records d = (if length d < 16 then [] else take 16 d # records (drop 16 d))"
  by pat_completeness auto
termination by (relation "measure length") auto

declare records.simps [simp del]

definition live :: "u8 list \<Rightarrow> bool" where
  "live de \<longleftrightarrow> de ! 0 \<noteq> 0 \<or> de ! 1 \<noteq> 0"

definition stat_line :: "u8 list \<Rightarrow> stat \<Rightarrow> u8 list" where
  "stat_line path st = the (vprintf (lit ''%s %d %d %d'' @ [10])
     [PStr (Some (fmtname path)), PVal (scast (st_type st)), PVal (ucast (st_ino st)), PVal (st_size st)])"

lemma print_stat_run:
  "length (stat_line path st) \<le> w_room s \<Longrightarrow>
     print_stat path st s = Back () (s\<lparr>w_out := w_out s @ stat_line path st, w_room := w_room s - length (stat_line path st)\<rparr>)"
proof -
  assume room: "length (stat_line path st) \<le> w_room s"
  have f: "lit ''%s %d %d %d'' @ [10] = [37, 115, 32, 37, 100, 32, 37, 100, 32, 37, 100, 10]" by (simp add: lit_def)
  have "\<exists>bs. vprintf (lit ''%s %d %d %d'' @ [10]) [PStr (Some (fmtname path)), PVal (scast (st_type st)), PVal (ucast (st_ino st)), PVal (st_size st)] = Some bs"
    unfolding f by (simp add: vprintf_str vprintf_other u_conv_def fmt_at_def Let_def u_take_int_def u_printint_fits)
  then show ?thesis using room put_bytes_run by (auto simp: print_stat_def u_printf_def stat_line_def)
qed

text \<open>What the run of a listing leaves alone.\<close>

definition settled :: "usys \<Rightarrow> usys \<Rightarrow> bool" where
  "settled s t \<longleftrightarrow> w_open t = w_open s \<and> w_stat t = w_stat s \<and> w_fd t 4 = None \<and> w_fd t 3 \<noteq> None"

lemma u_stat_run:
  assumes "settled s t" and "w_open s path = Some ps" and "w_stat s path = Some st"
  shows "\<exists>x. u_stat path t = Back (Some st) (t\<lparr>w_fdstat := x\<rparr>)"
proof -
  have "find (\<lambda>i. w_fd t (int i) = None) [3..<16] = Some 4"
    using assms(1) by (auto simp: settled_def upt_rec)
  then show ?thesis using assms by (auto simp: settled_def u_stat_def u_open_def u_fstat_def u_close_def fun_upd_idem)
qed

lemma ls_dir_run:
  assumes "settled s t" and "w_fd t 3 = Some [d]" and "16 dvd length d"
    and "\<forall>de \<in> set (records d). live de \<longrightarrow> (\<exists>ps. w_open s (entry_path path de) = Some ps) \<and> w_stat s (entry_path path de) = Some (f de)"
    and "length (concat (map (\<lambda>de. stat_line (entry_path path de) (f de)) (filter live (records d)))) \<le> w_room t"
  shows "\<exists>u. ls_dir path 3 t = Back () u \<and> w_out u = w_out t @ concat (map (\<lambda>de. stat_line (entry_path path de) (f de)) (filter live (records d)))"
  using assms
proof (induction "length d" arbitrary: d t rule: less_induct)
  case less
  show ?case
  proof (cases "d = []")
    case True
    then show ?thesis using less.prems(2)
      by (intro exI [of _ "after 3 [] t"]) (simp add: ls_dir.simps [of path 3 t] u_read_def records.simps after_def)
  next
    case False
    have d16: "16 \<le> length d" using less.prems(3) False by (auto dest: dvd_imp_le)
    define de where "de = take 16 d"
    have l: "length de = 16" using d16 by (simp add: de_def)
    let ?ps = "if length d \<le> 16 then [] else [drop 16 d]"
    have rd: "u_read 3 16 t = Back (Some de) (after 3 ?ps t)" using less.prems(2) by (simp add: u_read_def after_def de_def)
    have rec: "records d = de # records (drop 16 d)" using d16 by (simp add: records.simps [of d] de_def)
    let ?g = "\<lambda>de. stat_line (entry_path path de) (f de)"
    let ?out = "if live de then ?g de else []"
    have "\<exists>v. ls_entry path de (after 3 ?ps t) = Back () v \<and> settled s v \<and> w_fd v 3 = Some ?ps \<and> w_out v = w_out t @ ?out \<and>
        w_room v = w_room t - length ?out"
    proof (cases "live de")
      case True
      have st: "settled s (after 3 ?ps t)" using less.prems(1) by (auto simp: settled_def after_def)
      obtain ps where o3: "w_open s (entry_path path de) = Some ps" "w_stat s (entry_path path de) = Some (f de)" using less.prems(4) rec True by auto
      obtain x where x: "u_stat (entry_path path de) (after 3 ?ps t) = Back (Some (f de)) ((after 3 ?ps t)\<lparr>w_fdstat := x\<rparr>)"
        using u_stat_run [OF st o3] by auto
      have "length (?g de) \<le> w_room t" using less.prems(5) rec True by simp
      then show ?thesis using x st True print_stat_run [of "entry_path path de" "f de" "(after 3 ?ps t)\<lparr>w_fdstat := x\<rparr>"]
        by (auto simp: ls_entry_def live_def settled_def after_def)
    next
      case dead: False
      then show ?thesis using less.prems(1) by (auto simp: ls_entry_def live_def settled_def after_def)
    qed
    then obtain v where v: "ls_entry path de (after 3 ?ps t) = Back () v" "settled s v" "w_fd v 3 = Some ?ps" "w_out v = w_out t @ ?out"
      "w_room v = w_room t - length ?out" by blast
    have "\<exists>u. ls_dir path 3 v = Back () u \<and> w_out u = w_out v @ concat (map ?g (filter live (records (drop 16 d))))"
    proof (cases "length d \<le> 16")
      case True
      then show ?thesis using v(3)
        by (intro exI [of _ v]) (simp add: ls_dir.simps [of path 3 v] u_read_def records.simps)
    next
      case more: False
      show ?thesis
      proof (rule less.hyps)
        show "length (drop 16 d) < length d" using d16 by simp
        show "16 dvd length (drop 16 d)" using less.prems(3) by simp
        show "length (concat (map ?g (filter live (records (drop 16 d))))) \<le> w_room v" using less.prems(5) rec v(5) by (auto split: if_splits)
      qed (use v more less.prems(4) rec in auto)
    qed
    then show ?thesis using rd l v rec by (auto simp: ls_dir.simps [of path 3 t])
  qed
qed

text \<open>
  \<^verbatim>\<open>ls\<close> of a directory prints one line for each record that is not free, in their order: the name padded to 14 bytes, and
  type, number and size of the inode.
\<close>

theorem ls_lists:
  assumes "w_open s path = Some [d]" and "w_stat s path = Some dst" and "st_type dst = 1" and "length path + 16 \<le> 512" and "16 dvd length d"
    and "w_fd s 3 = None" and "w_fd s 4 = None"
    and "\<forall>de \<in> set (records d). live de \<longrightarrow> (\<exists>ps. w_open s (entry_path path de) = Some ps) \<and> w_stat s (entry_path path de) = Some (f de)"
    and "length (concat (map (\<lambda>de. stat_line (entry_path path de) (f de)) (filter live (records d)))) \<le> w_room s"
  shows "\<exists>t. ls_main [path] s = Exited 0 t \<and>
    w_out t = w_out s @ concat (map (\<lambda>de. stat_line (entry_path path de) (f de)) (filter live (records d)))"
proof -
  define t where "t = s\<lparr>w_fd := (w_fd s)(3 \<mapsto> [d]), w_fdstat := (w_fdstat s)(3 := w_stat s path)\<rparr>"
  have o3: "u_open path s = Back 3 t" unfolding t_def by (rule open_run [OF assms(6,1)])
  have st: "settled s t" using assms(7) by (simp add: settled_def t_def)
  have "\<exists>u. ls_dir path 3 t = Back () u \<and> w_out u = w_out t @ concat (map (\<lambda>de. stat_line (entry_path path de) (f de)) (filter live (records d)))"
    by (rule ls_dir_run [OF st _ assms(5,8)]) (use assms(9) in \<open>simp_all add: t_def\<close>)
  then obtain u where u: "ls_dir path 3 t = Back () u" "w_out u = w_out t @ concat (map (\<lambda>de. stat_line (entry_path path de) (f de)) (filter live (records d)))"
    by blast
  have "u_fstat 3 t = Back (Some dst) t" using assms(2) by (simp add: u_fstat_def t_def)
  then show ?thesis using o3 u assms(3,4) by (simp add: ls_main_def ls_def u_close_def) (simp add: t_def)
qed

subsection \<open>The random numbers of \<^verbatim>\<open>attacktest.c\<close>\<close>

text \<open>The new state, which is also the answer: \<^verbatim>\<open>long\<close> has 64 bits, and \<open>do_rand_fits\<close> says that nothing overflows.\<close>

definition do_rand :: "u64 \<Rightarrow> int" where
  "do_rand ctx =
     (let x = int (unat (ctx mod 0x7ffffffe)) + 1; hi = x div 127773; lo = x mod 127773;
          x = 16807 * lo - 2836 * hi; x = (if x < 0 then x + 0x7fffffff else x)
      in x - 1)"

text \<open>The string and the state left; \<^verbatim>\<open>buf[n-1]\<close> is the zero.\<close>

primrec rand_chars :: "nat \<Rightarrow> u64 \<Rightarrow> u8 list \<times> u64" where
  "rand_chars 0 ctx = ([], ctx)"
| "rand_chars (Suc k) ctx =
     (let r = do_rand ctx; (bs, ctx') = rand_chars k (of_int r) in
      ((lit ''./abcdef'') ! nat (r div 2 ^ 7 mod 8) # bs, ctx'))"

definition randstring :: "nat \<Rightarrow> u64 \<Rightarrow> u8 list \<times> u64" where
  "randstring n ctx = (if n = 0 then ([], ctx) else let (bs, ctx') = rand_chars (n - 1) ctx in (bs @ [0], ctx'))"

text \<open>
  The split into \<open>hi\<close> and \<open>lo\<close> computes \<open>7\<^sup>5 * x mod (2\<^sup>3\<^sup>1 - 1)\<close> with products below \<open>2\<^sup>3\<^sup>1\<close>; the answer is in the range of a positive
  \<^verbatim>\<open>int\<close> below \<open>2\<^sup>3\<^sup>1 - 2\<close>, and different states give different answers.
\<close>

theorem do_rand_lehmer:
  "do_rand ctx = 7 ^ 5 * (int (unat (ctx mod 0x7ffffffe)) + 1) mod (2 ^ 31 - 1) - 1 \<and> do_rand ctx \<in> {0..0x7ffffffd} \<and>
    16807 * ((int (unat (ctx mod 0x7ffffffe)) + 1) mod 127773) < 2 ^ 31 \<and> 2836 * ((int (unat (ctx mod 0x7ffffffe)) + 1) div 127773) < 2 ^ 31"
proof -
  define x where "x = int (unat (ctx mod 0x7ffffffe)) + 1"
  define hi lo y where "hi = x div 127773" and "lo = x mod 127773" and "y = 16807 * lo - 2836 * hi"
  have "unat (ctx mod 0x7ffffffe) < 0x7ffffffe" by (simp add: unat_mod)
  then have x: "1 \<le> x" "x \<le> 0x7ffffffe" unfolding x_def by linarith+
  have sp: "x = 127773 * hi + lo" by (simp add: hi_def lo_def)
  have lo: "0 \<le> lo" "lo < 127773" by (simp_all add: lo_def)
  have hi: "0 \<le> hi" "hi \<le> 16807" using x sp lo by linarith+
  have m: "16807 * x = 0x7fffffff * hi + y" unfolding y_def sp by simp
  have ne: "y \<noteq> 0"
  proof
    assume "y = 0"
    then have "16807 * lo = 2836 * hi" by (simp add: y_def)
    then have "hi = 16807 * (5790 * lo - 977 * hi)" by simp
    then have "16807 dvd hi" by (metis dvd_triv_left)
    then have "hi = 0 \<or> hi = 16807" using hi by (auto elim!: dvdE)
    then show False using \<open>16807 * lo = 2836 * hi\<close> sp x by auto
  qed
  have r: "- 0x7fffffff < y" "y < 0x7fffffff" using lo hi unfolding y_def by linarith+
  have "16807 * x mod 0x7fffffff = (if y < 0 then y + 0x7fffffff else y)"
  proof (cases "y < 0")
    case True
    have "16807 * x mod 0x7fffffff = (y + 0x7fffffff) mod 0x7fffffff" unfolding m by simp
    also have "\<dots> = y + 0x7fffffff" using True r by (intro mod_pos_pos_trivial) linarith+
    finally show ?thesis using True by simp
  next
    case False
    then show ?thesis using m r by simp
  qed
  moreover have "do_rand ctx = (if y < 0 then y + 0x7fffffff else y) - 1"
    unfolding do_rand_def Let_def x_def [symmetric] y_def hi_def lo_def ..
  ultimately show ?thesis unfolding x_def [symmetric] using r ne lo hi by (auto simp: hi_def [symmetric] lo_def [symmetric])
qed

subsection \<open>\<^verbatim>\<open>init\<close>\<close>

text \<open>
  Where \<open>init\<close> stands after its descriptors are open: before the fork of a shell, waiting for the shell with a number, or ended.
\<close>

datatype init_pc = InitFork | InitWait int | InitExit

definition init_forked :: "int \<Rightarrow> init_pc" where
  "init_forked k = (if k < 0 then InitExit else InitWait k)"

definition init_waited :: "int \<Rightarrow> int \<Rightarrow> init_pc" where
  "init_waited k wpid = (if wpid = k then InitFork else if wpid < 0 then InitExit else InitWait k)"

text \<open>
  The children of \<open>init\<close> that live and that have ended without having been waited for, and those of them that are its shells; the kernel
  gives it every process without a parent as a child.
\<close>

record init_sys =
  i_pc :: init_pc
  i_kids :: "int set"
  i_dead :: "int set"
  i_shells :: "int set"

inductive init_step :: "init_sys \<Rightarrow> init_sys \<Rightarrow> bool" where
  forks: "i_pc s = InitFork \<Longrightarrow> 0 < k \<Longrightarrow> k \<notin> i_kids s \<union> i_dead s \<Longrightarrow>
    init_step s (s\<lparr>i_pc := init_forked k, i_kids := insert k (i_kids s), i_shells := insert k (i_shells s)\<rparr>)"
| fork_fails: "i_pc s = InitFork \<Longrightarrow> init_step s (s\<lparr>i_pc := init_forked (-1)\<rparr>)"
| adopts: "0 < k \<Longrightarrow> k \<notin> i_kids s \<union> i_dead s \<Longrightarrow> init_step s (s\<lparr>i_kids := insert k (i_kids s)\<rparr>)"
| ends: "k \<in> i_kids s \<Longrightarrow> init_step s (s\<lparr>i_kids := i_kids s - {k}, i_dead := insert k (i_dead s)\<rparr>)"
| waits: "i_pc s = InitWait p \<Longrightarrow> k \<in> i_dead s \<Longrightarrow>
    init_step s (s\<lparr>i_pc := init_waited p k, i_dead := i_dead s - {k}, i_shells := i_shells s - {k}\<rparr>)"
| wait_fails: "i_pc s = InitWait p \<Longrightarrow> i_kids s \<union> i_dead s = {} \<Longrightarrow> init_step s (s\<lparr>i_pc := init_waited p (-1)\<rparr>)"

inductive init_reach :: "init_sys \<Rightarrow> bool" where
  starts: "i_pc s = InitFork \<Longrightarrow> i_shells s = {} \<Longrightarrow> \<forall>p \<in> i_kids s \<union> i_dead s. 0 < p \<Longrightarrow> init_reach s"
| steps: "init_reach s \<Longrightarrow> init_step s t \<Longrightarrow> init_reach t"

definition init_inv :: "init_sys \<Rightarrow> bool" where
  "init_inv s \<longleftrightarrow> (\<forall>p \<in> i_kids s \<union> i_dead s. 0 < p) \<and>
     (case i_pc s of InitFork \<Rightarrow> i_shells s = {} | InitWait p \<Rightarrow> i_shells s = {p} \<and> p \<in> i_kids s \<union> i_dead s | InitExit \<Rightarrow> i_shells s = {})"

lemma init_inv_step: "init_step s t \<Longrightarrow> init_inv s \<Longrightarrow> init_inv t"
proof (induction rule: init_step.induct)
  case (waits s p k)
  then have "\<not> k < 0" by (auto simp: init_inv_def dest: bspec [of _ _ k])
  then show ?case using waits by (auto simp: init_inv_def init_waited_def)
qed (auto simp: init_inv_def init_forked_def init_waited_def split: init_pc.splits)

lemma init_reach_inv: "init_reach s \<Longrightarrow> init_inv s"
  by (induction rule: init_reach.induct) (auto simp: init_inv_def dest: init_inv_step)

text \<open>
  \<open>init\<close> never has two shells, it has one whenever it waits, and \<^verbatim>\<open>wait\<close> does not fail: only a fork that fails ends it.
\<close>

theorem init_one_shell:
  assumes "init_reach s"
  shows "(\<exists>p. i_shells s \<subseteq> {p}) \<and> (case i_pc s of InitWait p \<Rightarrow> i_shells s = {p} \<and> i_kids s \<union> i_dead s \<noteq> {} | _ \<Rightarrow> i_shells s = {})"
  using init_reach_inv [OF assms] by (auto simp: init_inv_def split: init_pc.splits)

end
