(* ===== verification/Sysinfo.thy ===== *)
theory Sysinfo
  imports Sysproc Calm
begin

section \<open>The report of \<^verbatim>\<open>sysinfo\<close> (\<^verbatim>\<open>kernel/sysproc.c\<close>)\<close>

text \<open>
  What a process reads in its \<^verbatim>\<open>struct sysinfo\<close> after the call: the free memory in bytes, the number
  of processes in use and the load average, three 64-bit words at the address it passed.
\<close>

definition sysinfo_of :: "kernel \<Rightarrow> u64 list \<Rightarrow> u8 list" where
  "sysinfo_of s free =
     bytes64 (of_nat (4096 * length free)) @
     bytes64 (of_nat (length (filter (\<lambda>p. pstate p \<noteq> UNUSED) (procs s)))) @
     bytes64 (loadavg s)"

lemma length_bytes64 [simp]: "length (bytes64 w) = 8"
  by (simp add: bytes64_def bytes32_def)

lemma length_sysinfo_of [simp]: "length (sysinfo_of s xs) = 24"
  by (simp add: sysinfo_of_def)

lemma sys_sysinfo_run:
  assumes "calm me s" and "kmem_ok s xs"
  defines "addr \<equiv> load64 (mem s) (trapframe (procs s ! me) + TF_a0)"
    and "pt \<equiv> pagetable (procs s ! me)"
  shows "sys_sysinfo s =
    bnd (copyout pt addr (sysinfo_of s xs) 24) (\<lambda>r. ret (if r < 0 then -1 else 0)) s"
proof -
  note C = calmD [OF assms(1)]
  have "nfree s = Ok (of_nat (4096 * length xs)) s" using nfree_run [OF assms(2)] C by simp
  then show ?thesis
    using C by (simp add: sys_sysinfo_def argaddr_def argraw_def nproc_def ld64_def sysinfo_of_def assms(3,4))
qed

text \<open>
  C14: \<open>sys_sysinfo\<close> tells the truth.  For a running process that holds no lock, with a well-formed
  free list of pages \<open>xs\<close>, and a destination whose 24 bytes are mapped writable at distinct physical
  addresses outside the page tables, the call answers 0; the destination then holds the number of free
  bytes, the number of table entries in use and the load average, and no other byte of memory and
  nothing else of the kernel changes.
\<close>

theorem sysinfo_reports:
  assumes "calm me s" and "kmem_ok s xs"
    and "\<And>i. i < 24 \<Longrightarrow> user_waddr (mem s) (pagetable (procs s ! me))
      (load64 (mem s) (trapframe (procs s ! me) + TF_a0) + of_nat i) = Some (P i)"
    and "inj_on P {..<24}"
    and "\<And>i j x. i < 24 \<Longrightarrow> j < 24 \<Longrightarrow>
      x \<in> walk_cells (mem s) (pagetable (procs s ! me))
        (PGROUNDDOWN (load64 (mem s) (trapframe (procs s ! me) + TF_a0) + of_nat i)) \<Longrightarrow> cell x \<noteq> cell (P j)"
  shows "\<exists>m. sys_sysinfo s = Ok 0 (s\<lparr>mem := m\<rparr>) \<and>
    map (\<lambda>i. load8 m (P i)) [0..<24] =
      bytes64 (of_nat (4096 * length xs)) @
      bytes64 (of_nat (length (filter (\<lambda>p. pstate p \<noteq> UNUSED) (procs s)))) @ bytes64 (loadavg s) \<and>
    (\<forall>b. (\<forall>i < 24. b \<noteq> P i) \<longrightarrow> load8 m b = load8 (mem s) b)"
proof -
  have u: "unat (24 :: u64) = 24" by simp
  obtain m where m: "copyout (pagetable (procs s ! me)) (load64 (mem s) (trapframe (procs s ! me) + TF_a0))
      (sysinfo_of s xs) 24 s = Ok 0 (s\<lparr>mem := m\<rparr>)"
    "\<forall>i < 24. load8 m (P i) = sysinfo_of s xs ! i"
    "\<forall>b. (\<forall>i < 24. b \<noteq> P i) \<longrightarrow> load8 m b = load8 (mem s) b"
    using copyout_ok [of "sysinfo_of s xs" 24 s "pagetable (procs s ! me)"
        "load64 (mem s) (trapframe (procs s ! me) + TF_a0)" P] assms(3-5) unfolding u by auto
  have "map (\<lambda>i. load8 m (P i)) [0..<24] = sysinfo_of s xs"
    using m(2) by (intro nth_equalityI) auto
  then show ?thesis
    using m(1,3) sys_sysinfo_run [OF assms(1,2)] by (auto simp: sysinfo_of_def)
qed

text \<open>A destination that is not mapped: the call answers \<open>-1\<close> and changes nothing.\<close>

lemma sysinfo_unmapped:
  assumes "calm me s" and "kmem_ok s xs" and "pagetable (procs s ! me) = pt"
    and "pt_slot (mem s) pt (PGROUNDDOWN (load64 (mem s) (trapframe (procs s ! me) + TF_a0))) = None"
  shows "sys_sysinfo s = Ok (-1) s"
  using sys_sysinfo_run [OF assms(1,2)] assms(3,4)
  by (simp add: copyout.simps [of _ _ _ 24] walk_noalloc)

subsection \<open>A process with one page\<close>

definition demo_info :: kernel where
  "demo_info = (bss_kernel demo_mem (\<lambda>_. []))\<lparr>
     procs := (replicate NPROC bss_proc)[3 := bss_proc\<lparr>pstate := RUNNING, pagetable := 0x80100000, trapframe := 0x80200000\<rparr>],
     kcpu := \<lparr>cproc = Some 3, cnoff = 0, cintena = True, csie = True, held = []\<rparr>,
     freelist := 0x80023000, loadavg := 7\<rparr>"

lemma demo_info_ok: "calm 3 demo_info" "kmem_ok demo_info [0x80023000]"
proof -
  show "calm 3 demo_info"
    by (simp add: calm_def running_def procs_ok_def cpu_ok_def demo_info_def settle_def)
  have "load64 demo_mem 0x80023000 = 0" by (simp add: demo_mem_def load64_def cell_def)
  then show "kmem_ok demo_info [0x80023000]"
    by (simp add: demo_info_def kmem_ok_def ram_page_def cpu_ok_def)
qed

lemma demo_info_used: "length (filter (\<lambda>p. pstate p \<noteq> UNUSED) (procs demo_info)) = 1"
  by (simp add: demo_info_def bss_proc_def numeral_nat)

lemma demo_info_addr:
  assumes "i < 24"
  shows "load64 (mem demo_info) (trapframe (procs demo_info ! 3) + TF_a0) + of_nat i = of_nat i"
    and "PGROUNDDOWN (of_nat i) = 0"
    and "user_waddr (mem demo_info) (pagetable (procs demo_info ! 3)) (of_nat i) = Some (0x80103000 + of_nat i)"
proof -
  have p: "procs demo_info ! 3 = bss_proc\<lparr>pstate := RUNNING, pagetable := 0x80100000, trapframe := 0x80200000\<rparr>"
    by (simp add: demo_info_def)
  show "load64 (mem demo_info) (trapframe (procs demo_info ! 3) + TF_a0) + of_nat i = of_nat i"
    by (simp add: p) (simp add: demo_info_def demo_mem_def load64_def cell_def)
  show g: "PGROUNDDOWN (of_nat i) = 0"
    using assms by (intro word_unat_eq_iff [THEN iffD2]) (simp add: unat_PGROUNDDOWN unat_of_nat)
  show "user_waddr (mem demo_info) (pagetable (procs demo_info ! 3)) (of_nat i) = Some (0x80103000 + of_nat i)"
    using demo_walk [of 0] by (simp add: p) (simp add: demo_info_def user_waddr_def user_addr_def g)
qed

lemma sysinfo_reports_witness:
  "\<exists>m. sys_sysinfo demo_info = Ok 0 (demo_info\<lparr>mem := m\<rparr>) \<and>
    map (\<lambda>i. load8 m (0x80103000 + of_nat i)) [0..<24] =
      [0, 16, 0, 0, 0, 0, 0, 0, 1, 0, 0, 0, 0, 0, 0, 0, 7, 0, 0, 0, 0, 0, 0, 0]"
proof -
  have w: "walk_cells (mem demo_info) (pagetable (procs demo_info ! 3)) 0 = {0x80100000, 0x80101000, 0x80102000}"
    using demo_walk(3) [of 0] by (simp add: demo_info_def)
  have inj: "inj_on (\<lambda>i. 0x80103000 + of_nat i :: u64) {..<24}"
    by (auto simp: inj_on_def word_of_nat_eq_iff take_bit_nat_def)
  have far: "cell x \<noteq> cell (0x80103000 + of_nat j)" if "j < 24" "x \<in> {0x80100000, 0x80101000, 0x80102000}" for j :: nat and x :: u64
  proof
    have c: "unat (0x80103000 + of_nat j :: u64) = 0x80103000 + j" using that(1) by (simp add: unat_word_ariths unat_of_nat)
    assume "cell x = cell (0x80103000 + of_nat j)"
    then have "unat (cell x) = unat (cell (0x80103000 + of_nat j))" by simp
    then show False using that c by (auto simp: unat_cell)
  qed
  obtain m where m: "sys_sysinfo demo_info = Ok 0 (demo_info\<lparr>mem := m\<rparr>)"
    "map (\<lambda>i. load8 m (0x80103000 + of_nat i)) [0..<24] =
      bytes64 (of_nat (4096 * length [0x80023000 :: u64])) @
      bytes64 (of_nat (length (filter (\<lambda>p. pstate p \<noteq> UNUSED) (procs demo_info)))) @ bytes64 (loadavg demo_info)"
    using sysinfo_reports [OF demo_info_ok, of "\<lambda>i. 0x80103000 + of_nat i"] inj far w
    by (auto simp: demo_info_addr)
  have "loadavg demo_info = 7" by (simp add: demo_info_def)
  moreover have "(4096 :: u8) = 0" by simp
  ultimately show ?thesis
    using m by (auto simp: demo_info_used bytes64_def bytes32_def)
qed

end
