(* ===== verification/Reserve.thy ===== *)
theory Reserve
  imports Transact
begin

section \<open>Three operations that fill the log\<close>

text \<open>
  \<open>begin_op\<close> admits operations while \<open>MAXOPBLOCKS\<close> blocks for each of them fit into \<open>LOGSIZE\<close>; \<open>log_write\<close> has room for one block less.
  The theory runs three operations that keep to their reservation into the panic.  They run on one hart, one after the
  other or interleaved between two blocks.
\<close>

text \<open>The hart runs process \<open>i\<close>, and \<open>m\<close> in it.\<close>

definition as_proc :: "nat \<Rightarrow> 'a km \<Rightarrow> 'a km" where
  "as_proc i m = seq (cpu_mod (\<lambda>c. c\<lparr>cproc := Some i\<rparr>)) m"

text \<open>Process \<open>fst w\<close> changes block \<open>snd w\<close> of device \<open>d\<close> with \<open>f\<close>, the way the file system does it.\<close>

definition write_block :: "u32 \<Rightarrow> (u8 list \<Rightarrow> u8 list) \<Rightarrow> nat \<times> u32 \<Rightarrow> unit km" where
  "write_block d f w = as_proc (fst w) (
     bnd (bread d (snd w)) (\<lambda>i.
     seq (bdata_mod i f) (
     seq (log_write i)
         (brelse i))))"

lemma calm_proc: "calm me s \<Longrightarrow> p < NPROC \<Longrightarrow> calm p (s\<lparr>kcpu := (kcpu s)\<lparr>cproc := Some p\<rparr>\<rparr>)"
  by (cases "kcpu s") (auto simp: calm_def running_def procs_ok_def cpu_ok_def settle_def)

lemma cinv_proc:
  assumes "cinv d me {} P s" and "p < NPROC"
  shows "cinv d p {} P (s\<lparr>kcpu := (kcpu s)\<lparr>cproc := Some p\<rparr>\<rparr>)"
  using assms calm_proc [OF cinvD(1) [OF assms(1)] assms(2)] by (auto simp: cinv_def buf_ok_def Let_def)

lemma transact_proc:
  assumes "transact d me ls {} bl s" and "p < NPROC"
  shows "transact d p ls {} bl (s\<lparr>kcpu := (kcpu s)\<lparr>cproc := Some p\<rparr>\<rparr>)"
  using assms cinv_proc unfolding transact_def by fastforce

lemma transact_lg:
  assumes "transact d me ls L bl s" and "log_at d ls bl l"
  shows "transact d me ls L bl (s\<lparr>lg := l\<rparr>)"
  using assms cinv_lg unfolding transact_def by fastforce

text \<open>The block in the buffer of a running transaction with \<open>bl\<close>; there are no more pinned buffers than blocks.\<close>

lemma transact_bread:
  assumes t: "transact d me ls {} bl s" and n: "length bl < NBUF" and b: "b \<notin> set bl" and f: "\<And>x. length x = BSIZE \<Longrightarrow> length (f x) = BSIZE"
  shows "\<exists>i u. bnd (bread d b) (\<lambda>i. seq (bdata_mod i f) (ret i)) s = Ok i u \<and> transact d me ls {i} bl u \<and> blockno (bufs u ! i) = b \<and> lg u = lg s"
proof -
  obtain P where P: "cinv d me {} P s" "(\<lambda>i. blockno (bufs s ! i)) ` P = set bl" using t by (auto simp: transact_def)
  let ?c = "\<lambda>i. blockno (bufs s ! i)"
  note h = hold_start [OF P(1)]
  have "inj_on ?c P" by (rule inj_onI) (rule hold_inj [OF h]; simp)
  then have "card P = card (set bl)" using P(2) by (metis card_image)
  then have room: "card ({} \<union> P) < NBUF" using n card_length [of bl] by simp
  let ?Q = "\<lambda>i u. \<exists>v. hold d me {i} P v (disk s) (dhist s) (lg s) (?c(i := b)) u \<and> i \<notin> P"
  have "wp False (bnd (bread d b) (\<lambda>i. seq (bdata_mod i f) (ret i))) ?Q (\<lambda>_. False) s"
    unfolding wp_bnd
  proof (rule hold_bread [OF h _ disjI2 [OF room]])
    fix i u assume u: "hold d me (insert i {}) P (view d s) (disk s) (dhist s) (lg s) (?c(i := b)) u" and iP: "i \<in> P \<Longrightarrow> ?c i = b"
    have i: "i \<notin> P" using iP b P(2) by auto
    have len: "length (f (view d s ((?c(i := b)) i))) = BSIZE"
      using cinv_held [OF holdD(1) [OF u], of i] holdD(2,6) [OF u] by (intro f) simp
    show "wp False (seq (bdata_mod i f) (ret i)) ?Q (\<lambda>_. False) u"
      unfolding wp_seq by (rule hold_mod [where f = f and i = i, OF u _ len]) (use i in \<open>auto simp: fun_upd_def\<close>)
  qed simp
  then obtain i u v where r: "bnd (bread d b) (\<lambda>i. seq (bdata_mod i f) (ret i)) s = Ok i u"
    "hold d me {i} P v (disk s) (dhist s) (lg s) (?c(i := b)) u" "i \<notin> P" using wp_returns by fast
  note H = holdD [OF r(2)]
  have "blockno (bufs u ! j) = ?c j" if "j \<in> P" for j using H(7) [OF that] that r(3) by auto
  then have "(\<lambda>i. blockno (bufs u ! i)) ` P = set bl" using P(2) by (metis (no_types, lifting) image_cong)
  then have "transact d me ls {i} bl u" using t H(1) unfolding transact_def H(5) by blast
  then show ?thesis using r(1) H(5,6) by auto
qed

lemma transact_relse:
  assumes t: "transact d me ls {i} bl s" and b: "blockno (bufs s ! i) \<in> set bl"
  shows "\<exists>u. brelse i s = Ok () u \<and> transact d me ls {} bl u \<and> lg u = lg s"
proof -
  obtain P where P: "cinv d me {i} P s" "(\<lambda>i. blockno (bufs s ! i)) ` P = set bl" using t by (auto simp: transact_def)
  note h = hold_start [OF P(1)]
  obtain j where "j \<in> P" "blockno (bufs s ! j) = blockno (bufs s ! i)" using b P(2) by force
  then have "i \<in> P" using hold_inj [OF h, of i j] by auto
  then have "wp False (brelse i) (\<lambda>_. hold d me ({i} - {i}) P (view d s) (disk s) (dhist s) (lg s) (\<lambda>i. blockno (bufs s ! i))) (\<lambda>_. False) s"
    by (intro hold_relse [OF h]) auto
  then obtain u where u: "brelse i s = Ok () u" "hold d me {} P (view d s) (disk s) (dhist s) (lg s) (\<lambda>i. blockno (bufs s ! i)) u"
    using wp_returns by fastforce
  note H = holdD [OF u(2)]
  have "(\<lambda>i. blockno (bufs u ! i)) ` P = set bl" using P(2) H(7) by (metis (no_types, lifting) image_cong)
  then have "transact d me ls {} bl u" using t H(1) unfolding transact_def H(5) by blast
  then show ?thesis using u(1) H(5) by auto
qed

text \<open>The state between two writes: \<open>n\<close> blocks in the log of \<open>LOGSIZE\<close> blocks, and operations running.\<close>

definition filling :: "u32 \<Rightarrow> u32 \<Rightarrow> u32 list \<Rightarrow> kernel \<Rightarrow> bool" where
  "filling d ls bl s \<longleftrightarrow> (\<exists>me. transact d me ls {} bl s) \<and> 1 \<le> lg_outstanding (lg s) \<and> lg_size (lg s) = LOGSIZE"

lemma write_start:
  assumes s: "filling d ls bl s" and w: "fst w < NPROC" "snd w \<notin> set bl" and f: "\<And>x. length x = BSIZE \<Longrightarrow> length (f x) = BSIZE"
    and n: "length bl < NBUF"
  obtains i u where "write_block d f w s = bnd (log_write i) (\<lambda>_. brelse i) u" "transact d (fst w) ls {i} bl u" "blockno (bufs u ! i) = snd w"
    "lg u = lg s"
proof -
  let ?s = "s\<lparr>kcpu := (kcpu s)\<lparr>cproc := Some (fst w)\<rparr>\<rparr>"
  obtain me where "transact d me ls {} bl s" using s by (auto simp: filling_def)
  then have "transact d (fst w) ls {} bl ?s" by (rule transact_proc [OF _ w(1)])
  then obtain i u where r: "bnd (bread d (snd w)) (\<lambda>i. seq (bdata_mod i f) (ret i)) ?s = Ok i u" "transact d (fst w) ls {i} bl u"
    "blockno (bufs u ! i) = snd w" "lg u = lg s"
    using transact_bread [of d "fst w" ls bl ?s "snd w" f, OF _ n w(2) f] by auto
  have "write_block d f w s = bnd (bnd (bread d (snd w)) (\<lambda>i. seq (bdata_mod i f) (ret i))) (\<lambda>i. seq (log_write i) (brelse i)) ?s"
    by (simp add: write_block_def as_proc_def cpu_mod_def bnd_assoc seq_def)
  also have "\<dots> = seq (log_write i) (brelse i) u" by (rule bnd_Ok) (rule r(1))
  finally show ?thesis using r that by simp
qed

lemma write_step:
  assumes s: "filling d ls bl s" and w: "fst w < NPROC" "snd w \<notin> set bl" "\<not> in_log ls (snd w)" and n: "length bl < 29"
    and f: "\<And>x. length x = BSIZE \<Longrightarrow> length (f x) = BSIZE"
  shows "\<exists>t. write_block d f w s = Ok () t \<and> filling d ls (bl @ [snd w]) t"
proof -
  have nb: "length bl < NBUF" using n by simp
  obtain i u where u: "write_block d f w s = bnd (log_write i) (\<lambda>_. brelse i) u" "transact d (fst w) ls {i} bl u"
    "blockno (bufs u ! i) = snd w" "lg u = lg s" by (rule write_start [OF s w(1,2) f nb])
  have lg: "1 \<le> lg_outstanding (lg u)" "lg_size (lg u) = 30" using s u(4) by (auto simp: filling_def)
  obtain v where v: "log_write i u = Ok () v" "transact d (fst w) ls {i} (bl @ [snd w]) v" "lg_outstanding (lg v) = lg_outstanding (lg s)"
    "lg_size (lg v) = 30" "blockno (bufs v ! i) = snd w"
    using log_write_run [OF u(2), of i] n lg u(3,4) w(2,3) by (auto simp: add_block_def)
  obtain t where t: "brelse i v = Ok () t" "transact d (fst w) ls {} (bl @ [snd w]) t" "lg t = lg v"
    using transact_relse [OF v(2)] v(5) by auto
  show ?thesis using u(1) v t lg(1) u(4) by (auto simp: filling_def)
qed

lemma write_full:
  assumes s: "filling d ls bl s" and w: "fst w < NPROC" "snd w \<notin> set bl" and n: "length bl = 29"
    and f: "\<And>x. length x = BSIZE \<Longrightarrow> length (f x) = BSIZE"
  shows "write_block d f w s = Panic ''too big a transaction''"
proof -
  have nb: "length bl < NBUF" using n by simp
  obtain i u where u: "write_block d f w s = bnd (log_write i) (\<lambda>_. brelse i) u" "transact d (fst w) ls {i} bl u" "lg u = lg s"
    by (rule write_start [OF s w f nb])
  have c: "calm (fst w) u" using u(2) by (auto simp: transact_def dest: cinvD(1))
  have "lh_n (lg u) = 29" using u(2) n by (auto simp: transact_def log_at_def)
  then have "log_write i u = Panic ''too big a transaction''"
    using s u(3) calm_locked [OF c, of LLog] calmD(7) [OF c] by (simp add: log_write_def filling_def)
  then show ?thesis using u(1) by simp
qed

lemma write_many:
  assumes "filling d ls bl s" and "length bl + length ws \<le> 29" and "distinct (bl @ map snd ws)"
    and "\<forall>w \<in> set ws. fst w < NPROC \<and> \<not> in_log ls (snd w)" and "\<And>x. length x = BSIZE \<Longrightarrow> length (f x) = BSIZE"
  shows "\<exists>t. foreach ws (write_block d f) s = Ok () t \<and> filling d ls (bl @ map snd ws) t"
  using assms
proof (induction ws arbitrary: bl s)
  case (Cons w ws)
  obtain t where t: "write_block d f w s = Ok () t" "filling d ls (bl @ [snd w]) t"
    using write_step [OF Cons.prems(1), of w f] Cons.prems(2-5) by auto
  have "\<exists>u. foreach ws (write_block d f) t = Ok () u \<and> filling d ls ((bl @ [snd w]) @ map snd ws) u"
    by (rule Cons.IH [OF t(2)]) (use Cons.prems in auto)
  then show ?case using t(1) by auto
qed simp

lemma admit:
  assumes "transact d me ls {} [] s" and "p < NPROC" and "\<not> lg_committing (lg s)" and "0 \<le> lg_outstanding (lg s)" "lg_outstanding (lg s) < 3"
  shows "as_proc p begin_op s = Ok () (s\<lparr>kcpu := (kcpu s)\<lparr>cproc := Some p\<rparr>, lg := (lg s)\<lparr>lg_outstanding := lg_outstanding (lg s) + 1\<rparr>\<rparr>)"
    and "transact d p ls {} [] (s\<lparr>kcpu := (kcpu s)\<lparr>cproc := Some p\<rparr>, lg := (lg s)\<lparr>lg_outstanding := lg_outstanding (lg s) + 1\<rparr>\<rparr>)"
proof -
  let ?s = "s\<lparr>kcpu := (kcpu s)\<lparr>cproc := Some p\<rparr>\<rparr>"
  note t = transact_proc [OF assms(1,2)]
  have c: "calm p ?s" using t by (auto simp: transact_def dest: cinvD(1))
  have g: "log_at d ls [] (lg s)" using assms(1) by (simp add: transact_def)
  show "as_proc p begin_op s = Ok () (?s\<lparr>lg := (lg s)\<lparr>lg_outstanding := lg_outstanding (lg s) + 1\<rparr>\<rparr>)"
    using calm_locked [OF c, of LLog] calmD(7) [OF c] assms(3-5) g
    by (simp add: as_proc_def cpu_mod_def begin_op_def lg_mod_def log_at_def)
  show "transact d p ls {} [] (?s\<lparr>lg := (lg s)\<lparr>lg_outstanding := lg_outstanding (lg s) + 1\<rparr>\<rparr>)"
    by (rule transact_lg [OF t]) (use g in \<open>simp add: log_at_def\<close>)
qed

text \<open>
  C25: the reservation of \<open>begin_op\<close> is one block too generous for the log that \<^verbatim>\<open>mkfs\<close> lays out.  With \<open>log.size = LOGSIZE\<close>, an empty log
  and no operation running, three processes are admitted, and they change thirty blocks, each of them no more
  than \<open>MAXOPBLOCKS\<close>, in any order: the first twenty-nine blocks are logged and the thirtieth \<open>log_write\<close> panics.
\<close>

theorem reservation_exceeds_log:
  assumes "transact d me ls {} [] s" and "lg_outstanding (lg s) = 0" and "\<not> lg_committing (lg s)" and "lg_size (lg s) = LOGSIZE"
    and "distinct [p1, p2, p3]" and "p1 < NPROC" "p2 < NPROC" "p3 < NPROC"
    and "length ws = 30" and "distinct (map snd ws)" and "\<forall>w \<in> set ws. fst w \<in> {p1, p2, p3} \<and> \<not> in_log ls (snd w)"
    and "\<forall>p \<in> {p1, p2, p3}. int (length (filter (\<lambda>w. fst w = p) ws)) \<le> MAXOPBLOCKS"
    and "\<And>x. length x = BSIZE \<Longrightarrow> length (f x) = BSIZE"
  shows "\<exists>t u. seq (as_proc p1 begin_op) (seq (as_proc p2 begin_op) (as_proc p3 begin_op)) s = Ok () t \<and> lg_outstanding (lg t) = 3 \<and>
    foreach (take 29 ws) (write_block d f) t = Ok () u \<and> lh_n (lg u) = 29 \<and>
    write_block d f (ws ! 29) u = Panic ''too big a transaction''"
proof -
  define t1 where "t1 = s\<lparr>kcpu := (kcpu s)\<lparr>cproc := Some p1\<rparr>, lg := (lg s)\<lparr>lg_outstanding := lg_outstanding (lg s) + 1\<rparr>\<rparr>"
  define t2 where "t2 = t1\<lparr>kcpu := (kcpu t1)\<lparr>cproc := Some p2\<rparr>, lg := (lg t1)\<lparr>lg_outstanding := lg_outstanding (lg t1) + 1\<rparr>\<rparr>"
  define t3 where "t3 = t2\<lparr>kcpu := (kcpu t2)\<lparr>cproc := Some p3\<rparr>, lg := (lg t2)\<lparr>lg_outstanding := lg_outstanding (lg t2) + 1\<rparr>\<rparr>"
  note A1 = admit [OF assms(1,6,3), folded t1_def]
  have l1: "lg_outstanding (lg t1) = 1" "\<not> lg_committing (lg t1)" using assms(2,3) by (simp_all add: t1_def)
  note A2 = admit [OF A1(2) assms(7) l1(2), folded t2_def]
  have l2: "lg_outstanding (lg t2) = 2" "\<not> lg_committing (lg t2)" using l1 by (simp_all add: t2_def)
  note A3 = admit [OF A2(2) assms(8) l2(2), folded t3_def]
  have l3: "lg_outstanding (lg t3) = 3" "lg_size (lg t3) = 30" using l2(1) assms(4) by (simp_all add: t1_def t2_def t3_def)
  have runs: "seq (as_proc p1 begin_op) (seq (as_proc p2 begin_op) (as_proc p3 begin_op)) s = Ok () t3"
    using A1(1) A2(1) A3(1) assms(2) l1 l2 by simp
  have start: "filling d ls [] t3" using A3(2) l2 l3 A2(2) A1(2) assms(2) l1 by (auto simp: filling_def)
  have split: "ws = take 29 ws @ [ws ! 29]" using assms(9) by (simp add: take_Suc_conv_app_nth [symmetric])
  have lt: "fst w < NPROC" if "w \<in> set ws" for w using assms(6-8,11) that by fastforce
  have "distinct (map snd (take 29 ws @ [ws ! 29]))" using assms(10) split by simp
  then have new: "distinct (map snd (take 29 ws))" "snd (ws ! 29) \<notin> set (map snd (take 29 ws))" by auto
  have "\<exists>u. foreach (take 29 ws) (write_block d f) t3 = Ok () u \<and> filling d ls ([] @ map snd (take 29 ws)) u"
    by (rule write_many [OF start]) (use assms(9,11,13) new(1) lt in \<open>auto dest: in_set_takeD\<close>)
  then obtain u where u: "foreach (take 29 ws) (write_block d f) t3 = Ok () u" "filling d ls (map snd (take 29 ws)) u" by auto
  have "lh_n (lg u) = 29" using u(2) assms(9) by (auto simp: filling_def transact_def log_at_def)
  moreover have "write_block d f (ws ! 29) u = Panic ''too big a transaction''"
    by (rule write_full [OF u(2) _ new(2)]) (use assms(9,13) lt in auto)
  ultimately show ?thesis using runs l3(1) u(1) by blast
qed

subsection \<open>An example\<close>

text \<open>An empty cache and an empty log.\<close>

definition demo_empty :: kernel where
  "demo_empty = demo_log\<lparr>bufs := (demo_bufs (replicate BSIZE 7))[0 := (demo_bufs (replicate BSIZE 7) ! 0)\<lparr>refcnt := 0, bvalid := False\<rparr>],
     lg := \<lparr>lg_start = 2, lg_size = 30, lg_outstanding = 0, lg_committing = False, lg_dev = 1, lh_n = 0, lh_block = replicate 30 0\<rparr>\<rparr>"

lemma demo_empty_transact: "transact 1 3 2 {} [] demo_empty"
proof -
  let ?b = "(demo_bufs (replicate BSIZE 7) ! 0)\<lparr>refcnt := 0, bvalid := False\<rparr>"
  let ?t = "demo_log\<lparr>bufs := (demo_bufs (replicate BSIZE 7))[0 := ?b]\<rparr>"
  have B: "bufs demo_log = demo_bufs (replicate BSIZE 7)" by (simp add: demo_log_def demo_state_def)
  have len: "0 < length (demo_bufs (replicate BSIZE 7))" by (simp add: demo_bufs_def del: upt_Suc)
  have b0: "demo_bufs x ! 0 = bss_buf\<lparr>bvalid := True, bdev := 1, blockno := 50, refcnt := 1, bprev := 30, bnext := 1, bdata := x\<rparr>" for x
    by (simp add: demo_bufs_def del: upt_Suc)
  have dev: "bdev (demo_bufs x ! j) = 0" if "j < NBUF" "j \<noteq> 0" for x j
    using that by (simp add: demo_bufs_def del: upt_Suc)
  have "cinv 1 3 {} {} ?t"
  proof (rule cinv_upd [OF demo_cinv, of 0 ?t ?b])
    show "buf_ok 1 3 {} {} ?t 0" using len by (simp add: buf_ok_def Let_def b0 bss_buf_def)
    show "blockno (bufs demo_log ! j) \<noteq> blockno ?b" if "bdev ?b = 1" "j < NBUF" "j \<noteq> 0" "bdev (bufs demo_log ! j) = 1" for j
      using that dev [of j] B by simp
  qed (simp_all add: B)
  then have "cinv 1 3 {} {} demo_empty" using cinv_lg [of 1 3 "{}" "{}" ?t] by (simp add: demo_empty_def)
  moreover have "loggable 2 []" by (simp add: loggable_def)
  moreover have "log_at 1 2 [] (lg demo_empty)" by (simp add: log_at_def demo_empty_def)
  ultimately show ?thesis unfolding transact_def by (intro conjI exI [of _ "{}"]) simp_all
qed

definition demo_writes :: "(nat \<times> u32) list" where
  "demo_writes = map (\<lambda>k. (3 + k mod 3, of_nat (100 + k))) [0..<30]"

lemma demo_writes_ok:
  "length demo_writes = 30" "distinct (map snd demo_writes)" "\<forall>w \<in> set demo_writes. fst w \<in> {3, 4, 5} \<and> \<not> in_log 2 (snd w)"
  "\<forall>p \<in> {3, 4, 5}. int (length (filter (\<lambda>w. fst w = p) demo_writes)) \<le> MAXOPBLOCKS"
  by (simp_all add: demo_writes_def in_log_def upt_rec)

theorem reservation_exceeds_log_witness:
  "\<exists>t u. seq (as_proc 3 begin_op) (seq (as_proc 4 begin_op) (as_proc 5 begin_op)) demo_empty = Ok () t \<and>
    foreach (take 29 demo_writes) (write_block 1 (\<lambda>x. x[0 := 1])) t = Ok () u \<and>
    write_block 1 (\<lambda>x. x[0 := 1]) (demo_writes ! 29) u = Panic ''too big a transaction''"
proof -
  have l: "lg_outstanding (lg demo_empty) = 0" "\<not> lg_committing (lg demo_empty)" "lg_size (lg demo_empty) = LOGSIZE"
    by (simp_all add: demo_empty_def)
  have p: "distinct [3, 4, 5 :: nat]" "3 < NPROC" "4 < NPROC" "5 < NPROC" by simp_all
  have f: "length (x[0 := 1 :: u8]) = BSIZE" if "length x = BSIZE" for x using that by simp
  from reservation_exceeds_log [where f = "\<lambda>x. x[0 := 1]", OF demo_empty_transact l p demo_writes_ok f] show ?thesis by blast
qed

end
