(* ===== verification/Spec2Isabelle.thy ===== *)
theory Spec2Isabelle
  imports Cstring Boot Dirs Paths Terminal Dispatch Fair Request Crash Typing Grep Umalloc Ulib Shrun Mkimage Asm Tools Sysinfo Reserve
begin

text \<open>
  A model of the xv6 kernel for RISC-V with the system calls \<open>trace\<close> and \<open>sysinfo\<close>, and what makes it
  correct.  The sources are under \<^verbatim>\<open>src/xv6-labs-2024/\<close> (the directory \<^verbatim>\<open>src/Submission\<close> holds a copy).
  The kernel is built with \<^verbatim>\<open>LAB_SYSCALL\<close>; code for other labs is not part of it.

  How the model is built.  The state is the record \<open>kernel\<close> (theory \<open>Kstate\<close>): the tables of processes,
  files, inodes and buffers, the log, the console, the devices, physical memory as 64-bit cells and the
  disk as blocks.  A routine is a function from the state to an outcome (theory \<open>Prelude\<close>): it returns,
  panics, gives up the CPU in \<open>sched\<close> (\<open>Blocked\<close>), or takes a step that C leaves undefined or that never
  ends (\<open>Stuck\<close>).  Integers keep their width.  A pointer into a table is an index, a null pointer
  \<open>None\<close>; user memory, page tables, trap frames and free pages are in physical memory.  The kernel is
  seen from one CPU, so a spin lock is either held by it or free; theory \<open>Spinlock\<close> has the word-level
  locks of several harts, and \<open>Sched\<close> the refinement between the two.  A routine that sleeps ends its
  run; the loop around the sleep is entered again after a wakeup, from the state of that time.

  The theories, in the order of the imports.

  \<^item> \<open>Prelude\<close>: outcomes, the monad, its weakest preconditions, loops over tables.
  \<^item> \<open>Machine\<close> (\<^verbatim>\<open>riscv.h\<close>, \<^verbatim>\<open>memlayout.h\<close>, \<^verbatim>\<open>param.h\<close>): page arithmetic, page-table entries, memory.
  \<^item> \<open>Cstring\<close> (\<^verbatim>\<open>string.c\<close>): the string routines over byte lists, with overlap and bounds.
  \<^item> \<open>Spinlock\<close> (\<^verbatim>\<open>spinlock.c\<close>): locks of several harts as a step relation; mutual exclusion.
  \<^item> \<open>Kstate\<close>: the records and tables of \<^verbatim>\<open>proc.h\<close>, \<^verbatim>\<open>file.h\<close>, \<^verbatim>\<open>fs.h\<close>, \<^verbatim>\<open>buf.h\<close> and the static structures.
  \<^item> \<open>Sched\<close> (\<^verbatim>\<open>proc.c\<close>): interrupts, locks, \<open>sleep\<close>, \<open>wakeup\<close>, \<open>kill\<close>, the scheduler, the load average.
  \<^item> \<open>Kalloc\<close> (\<^verbatim>\<open>kalloc.c\<close>): the page allocator and the count of free memory.
  \<^item> \<open>Vm\<close> (\<^verbatim>\<open>vm.c\<close>): page tables, user address spaces, copies to and from user space.
  \<^item> \<open>Ring\<close>: the ring buffer with free-running counters, an interface used three times.
  \<^item> \<open>Pipe\<close> (\<^verbatim>\<open>sleeplock.c\<close>, \<^verbatim>\<open>pipe.c\<close>).
  \<^item> \<open>Console\<close> (\<^verbatim>\<open>uart.c\<close>, \<^verbatim>\<open>printf.c\<close>, \<^verbatim>\<open>console.c\<close>, \<open>procdump\<close>).
  \<^item> \<open>Bio\<close> (\<^verbatim>\<open>bio.c\<close>), \<open>Log\<close> (\<^verbatim>\<open>log.c\<close>), \<open>Fs\<close> and \<open>Dir\<close> (\<^verbatim>\<open>fs.c\<close>), \<open>File\<close> (\<^verbatim>\<open>file.c\<close>, \<open>pipealloc\<close>).
  \<^item> \<open>Proc\<close> (\<^verbatim>\<open>proc.c\<close>): slots, \<open>fork\<close>, \<open>exit\<close>, \<open>wait\<close>, growing.
  \<^item> \<open>Sysproc\<close> (\<^verbatim>\<open>syscall.c\<close>, \<^verbatim>\<open>sysproc.c\<close>), \<open>Exec\<close> (\<^verbatim>\<open>exec.c\<close>), \<open>Sysfile\<close> (\<^verbatim>\<open>sysfile.c\<close>).
  \<^item> \<open>Sysinfo\<close>: what \<open>sys_sysinfo\<close> stores for its caller, on top of \<open>nfree\<close>, \<open>nproc\<close> and \<open>copyout\<close>.
  \<^item> \<open>Virtio\<close> (\<^verbatim>\<open>virtio_disk.c\<close>): the disk driver; \<open>Trap\<close> (\<^verbatim>\<open>syscall.c\<close>, \<^verbatim>\<open>trap.c\<close>, \<^verbatim>\<open>plic.c\<close>).
  \<^item> \<open>Boot\<close> (\<^verbatim>\<open>start.c\<close>, \<^verbatim>\<open>main.c\<close>).

  These theories hold definitions with the lemmas that belong to them.  Further theories hold what is
  proved of larger parts.

  \<^item> \<open>Calm\<close>: the state of a process between critical sections, the frame in which the following work.
  \<^item> \<open>Fair\<close>: a pass of the scheduler serves every runnable process.
  \<^item> \<open>Bcache\<close>: the invariant of the block cache (\<open>cinv\<close>), the contents of a block as the kernel sees them
    (\<open>view\<close>), and the effect of \<open>bread\<close>, \<open>bwrite\<close>, \<open>brelse\<close> and a change of a held buffer on both.  \<open>Binit\<close>: \<open>binit\<close>
    establishes the invariant.
  \<^item> \<open>Bytes\<close>: numbers in blocks.
  \<^item> \<open>Wal\<close>: the sequences of disks that \<open>commit\<close> and \<open>recover_from_log\<close> go through.  The crash theorems of \<open>Crash\<close>
    rest on it: the contents of the disk after a crash at any write and a recovery are those of
    before or of after the transaction, also when the recovery crashes.  \<open>Transact\<close>: \<open>begin_op\<close>, \<open>log_write\<close>, \<open>end_op\<close>.
  \<^item> \<open>Content\<close>: \<open>bmap\<close> and \<open>readi\<close> read a file's bytes; \<open>Dirs\<close>: \<open>dirlookup\<close>, on top of it; \<open>Paths\<close>: \<open>skipelem\<close>.
  \<^item> \<open>Print\<close>: the numbers in \<open>printf\<close>; \<open>Terminal\<close>: the output queue of the UART and the line editor of the
    console; \<open>Dispatch\<close>: \<open>syscall\<close> with its trace.
  \<^item> \<open>Request\<close>: the descriptors of the disk driver through a request.
  \<^item> \<open>Typing\<close>: the types of the kernel state (\<open>typed\<close>: every table has its declared length, every stored index lies in its table) and
    one lemma for each routine that says it keeps them; the states that runs from the boot reach (\<open>kstep\<close>) are typed.  \<open>Resume\<close>: what is left of
    a routine after a sleep.  A step of \<open>kstep\<close> is a piece of the kernel up to its return or its next sleep; what the callers of
    \<open>acquiresleep\<close>, \<open>begin_op\<close> and the disk driver do after such a routine has slept is not a step.
  \<^item> \<open>Reserve\<close>: three operations that keep to their reservation and overfill the log.

  Below and above the C code of the kernel:

  \<^item> \<open>Asm\<close> (\<^verbatim>\<open>entry.S\<close>, \<^verbatim>\<open>swtch.S\<close>, \<^verbatim>\<open>trampoline.S\<close>, \<^verbatim>\<open>kernelvec.S\<close>): a hart with its registers, memory and control registers, an
    interpreter of the instructions that the files use, and the files as lists of instructions.  The translation of addresses by the hardware
    is the argument \<open>tr\<close>; that the page table of a process maps the trap frame, and that the kernel maps contexts to themselves and a stack
    frame to separate words, are hypotheses (\<open>maps_trapframe\<close>, \<open>context_at\<close>, \<open>frame_mapped\<close>), and so is that \<open>kerneltrap\<close> follows
    the calling convention (\<open>returns_well\<close>).
  \<^item> \<open>Ulib\<close> (\<^verbatim>\<open>ulib.c\<close>, \<^verbatim>\<open>user/printf.c\<close>), \<open>Umalloc\<close> (\<^verbatim>\<open>umalloc.c\<close>): the user library.  The heap of the allocator is a map of headers;
    its invariant (\<open>heap_ok\<close>) says that the free list is circular and in the order of the addresses, and that free and allocated blocks
    are apart.
  \<^item> \<open>Grep\<close> (\<^verbatim>\<open>grep.c\<close>): the matcher against the language of a pattern (\<open>part\<close>), and the loop over the buffer.
  \<^item> \<open>Sh\<close> and \<open>Shrun\<close> (\<^verbatim>\<open>sh.c\<close>): the parser over the buffer of the line, with the words of the command as places in it; and a command as the tree
    of the system calls it makes, run in a world of descriptors, where \<^verbatim>\<open>fork\<close> always succeeds, against the plan of its processes (\<open>plan\<close>, \<open>session\<close>).
  \<^item> \<open>Tools\<close>: \<^verbatim>\<open>cat\<close>, \<^verbatim>\<open>wc\<close>, \<^verbatim>\<open>echo\<close>, \<^verbatim>\<open>ls\<close>, \<^verbatim>\<open>kill\<close>, \<^verbatim>\<open>ln\<close>, \<^verbatim>\<open>rm\<close>, \<^verbatim>\<open>mkdir\<close>, \<^verbatim>\<open>trace\<close> over what reads and calls answer (\<open>usys\<close>);
    the loop of \<^verbatim>\<open>init\<close> as a step relation; the random numbers of \<^verbatim>\<open>attacktest.c\<close>.
  \<^item> \<open>Mkfs\<close> (\<^verbatim>\<open>mkfs/mkfs.c\<close>): the tool that writes the first disk, over the list of its blocks.  \<open>Image\<close>: the invariant of the image (\<open>good\<close>): each
    file has exactly the blocks its size needs, no block has two places, the blocks not given out are zero; each routine of the tool keeps it.
    \<open>Mkimage\<close>: the whole run, and the image as the kernel's \<open>load_dinode\<close>, \<open>file_bytes\<close> and \<open>bit_used\<close> read it.

  Bounds and fuel.  Loops over a page range take the number of pages as fuel, one more than the range
  can hold; \<open>freewalk\<close> has the three levels of a page table; a scan of the buffer list stops after one
  step more than there are buffers; \<open>free_chain\<close> after one more than there are descriptors; the parser of the
  shell takes four steps for each byte of the line and four more.  Running out
  of fuel is \<open>Stuck\<close>, so a theorem that a routine returns shows that the fuel was enough.

  Not modelled: memory barriers (the harts of \<open>Spinlock\<close> see one memory); the test programs \<^verbatim>\<open>usertests.c\<close>, \<^verbatim>\<open>grind.c\<close>, \<^verbatim>\<open>forktest.c\<close>,
  \<^verbatim>\<open>stressfs.c\<close>, \<^verbatim>\<open>sysinfotest.c\<close>, \<^verbatim>\<open>secret.c\<close> and \<^verbatim>\<open>zombie.c\<close>, which only make system calls, and the main functions of \<^verbatim>\<open>grep\<close> and
  \<^verbatim>\<open>attacktest\<close>; the first user code \<^verbatim>\<open>initcode.S\<close>; the build and grading scripts.
\<close>

end
